(* ===== verification/Prelude.thy ===== *)
theory Prelude
  imports Main "HOL-Library.Word"
begin

text \<open>
  What every component of the model shares: the machine integers of the i386
  target under their C names, the value a kernel panic has, C's division and
  remainder on \<open>int\<close>, and the lemmas on words, lists and intervals that more than
  one component uses. Integers whose width the code relies on (bitmaps, addresses,
  descriptors, registers) are words; a C \<open>int\<close> used as a counter or an index is
  an \<open>int\<close>, with C's truncating division written out.
\<close>

type_synonym u8 = "8 word"
type_synonym u16 = "16 word"
type_synonym u32 = "32 word"
type_synonym u64 = "64 word"

text \<open>\<open>panic(fmt, ...)\<close> prints and halts for ever, \<open>reboot()\<close> resets the machine: an
  operation that may end in one of them returns a sum whose left side says which, with
  the fixed part of the panic's message.\<close>

datatype fault = Panic string | Reboot

named_theorems inv_intros \<open>how the operations of a component keep its invariant\<close>
named_theorems step_simps \<open>what an operation does to the abstract state\<close>

unbundle bit_operations_syntax

section \<open>C division on int\<close>

definition c_div :: "int \<Rightarrow> int \<Rightarrow> int" where
  "c_div a b = sgn a * sgn b * (\<bar>a\<bar> div \<bar>b\<bar>)"

definition c_mod :: "int \<Rightarrow> int \<Rightarrow> int" where
  "c_mod a b = a - b * c_div a b"

lemma c_div_nonneg [simp]: "0 \<le> a \<Longrightarrow> 0 < b \<Longrightarrow> c_div a b = a div b"
  by (cases "a = 0") (auto simp: c_div_def)

lemma c_mod_nonneg [simp]: "0 \<le> a \<Longrightarrow> 0 < b \<Longrightarrow> c_mod a b = a mod b"
  by (simp add: c_mod_def minus_mult_div_eq_mod)

section \<open>Bits of words\<close>

lemma and_bit_eq_0_iff:
  fixes w :: "'a::len word"
  assumes "n < LENGTH('a)"
  shows "w AND 2 ^ n = 0 \<longleftrightarrow> \<not> bit w n"
  using assms by (simp add: and_exp_eq_0_iff_not_bit)

lemma all_ones_iff:
  fixes w :: "'a::len word"
  shows "w = - 1 \<longleftrightarrow> (\<forall>n < LENGTH('a). bit w n)"
  by (auto simp: bit_eq_iff)

lemma u32_max_eq: "(0xffffffff :: u32) = - 1"
  by (rule word_uint_eqI) (simp add: unsigned_minus_1_eq_mask mask_eq_exp_minus_1)

lemma bit_set_iff:
  fixes w :: "'a::len word"
  assumes "n < LENGTH('a)"
  shows "bit (w OR 2 ^ n) m \<longleftrightarrow> m = n \<or> bit w m"
  using assms by (auto simp: bit_or_iff bit_exp_iff possible_bit_def)

lemma bit_clear_iff:
  fixes w :: "'a::len word"
  assumes "n < LENGTH('a)"
  shows "bit (w AND NOT (2 ^ n)) m \<longleftrightarrow> m \<noteq> n \<and> bit w m"
  using assms
  by (auto simp: bit_and_iff bit_not_iff bit_exp_iff possible_bit_def
      dest: bit_imp_le_length)

section \<open>Addresses without wrap-around\<close>

lemma unat_add_no_wrap:
  fixes a b :: "'a::len word"
  assumes "unat a + unat b < 2 ^ LENGTH('a)"
  shows "unat (a + b) = unat a + unat b"
  using assms by (simp add: unat_word_ariths)

lemma unat_sub_no_wrap:
  fixes a b :: "'a::len word"
  assumes "unat b \<le> unat a"
  shows "unat (a - b) = unat a - unat b"
  using assms by (simp add: unat_sub word_le_nat_alt)

lemma unat_u32_less: "unat x < 4294967296" for x :: u32
  by (rule order.strict_trans2 [OF unsigned_less]) simp

lemma unat_u16_less: "unat x < 65536" for x :: u16
  by (rule order.strict_trans2 [OF unsigned_less]) simp

lemma unat_u8_less: "unat x < 256" for x :: u8
  by (rule order.strict_trans2 [OF unsigned_less]) simp

lemma int_and_mask:
  fixes x :: int
  shows "x AND (2 ^ n - 1) = x mod 2 ^ n"
  by (simp add: take_bit_eq_mod [symmetric] take_bit_eq_mask mask_eq_exp_minus_1)

lemma nat_and_mask:
  fixes x :: nat
  shows "x AND (2 ^ n - 1) = x mod 2 ^ n"
  by (simp add: take_bit_eq_mod [symmetric] take_bit_eq_mask mask_eq_exp_minus_1)

lemma sint_u32_small:
  "- (2 ^ 31) \<le> n \<Longrightarrow> n < 2 ^ 31 \<Longrightarrow> sint (word_of_int n :: u32) = n"
  by (simp only: sint_sbintrunc') (rule signed_take_bit_int_eq_self, simp_all)

section \<open>First match in a list\<close>

lemma find_append:
  "find P (xs @ ys) = (case find P xs of None \<Rightarrow> find P ys | Some x \<Rightarrow> Some x)"
  by (induction xs) auto

lemma find_NoneD: "find P xs = None \<Longrightarrow> x \<in> set xs \<Longrightarrow> \<not> P x"
  by (auto simp: find_None_iff)

lemma find_SomeD: "find P xs = Some x \<Longrightarrow> P x \<and> x \<in> set xs"
  by (auto simp: find_Some_iff)

text \<open>The arithmetic progression a counting loop visits: \<open>n\<close> values from \<open>a\<close>, \<open>d\<close> apart.\<close>

fun steps_from :: "int \<Rightarrow> int \<Rightarrow> nat \<Rightarrow> int list" where
  "steps_from a d 0 = []"
| "steps_from a d (Suc n) = a # steps_from (a + d) d n"

lemma length_steps_from [simp]: "length (steps_from a d n) = n"
  by (induction n arbitrary: a) auto

lemma steps_from_append: "steps_from a d (m + n) = steps_from a d m @ steps_from (a + int m * d) d n"
  by (induction m arbitrary: a) (auto simp: algebra_simps)

lemma set_steps_from_up: "set (steps_from a 1 n) = {a..<a + int n}"
  by (induction n arbitrary: a) auto

lemma set_steps_from_down: "set (steps_from a (-1) n) = {a - int n<..a}"
proof (induction n arbitrary: a)
  case (Suc n)
  have "{a - int (Suc n)<..a} = insert a {a - 1 - int n<..a - 1}" by auto
  then show ?case using Suc by simp
qed simp

lemma find_steps_up_first:
  "find P (steps_from a 1 n) = Some p \<Longrightarrow> a \<le> q \<Longrightarrow> q < p \<Longrightarrow> \<not> P q"
proof (induction n arbitrary: a)
  case (Suc n)
  then show ?case by (cases "q = a") (auto split: if_splits)
qed simp

lemma find_steps_down_last:
  "find P (steps_from a (-1) n) = Some p \<Longrightarrow> q \<le> a \<Longrightarrow> p < q \<Longrightarrow> \<not> P q"
proof (induction n arbitrary: a)
  case (Suc n)
  then show ?case by (cases "q = a") (auto split: if_splits)
qed simp

lemma find_steps_up_cases:
  obtains (None) "find P (steps_from a 1 n) = None" "\<And>q. a \<le> q \<Longrightarrow> q < a + int n \<Longrightarrow> \<not> P q"
  | (Some) p where "find P (steps_from a 1 n) = Some p" "a \<le> p" "p < a + int n" "P p"
      "\<And>q. a \<le> q \<Longrightarrow> q < p \<Longrightarrow> \<not> P q"
proof (cases "find P (steps_from a 1 n)")
  case None
  from None that(1) find_NoneD [OF None] show ?thesis by (simp add: set_steps_from_up)
next
  case (Some p)
  from that(2) [OF Some] find_SomeD [OF Some] find_steps_up_first [OF Some] show ?thesis
    by (simp add: set_steps_from_up)
qed

lemma find_steps_down_cases:
  obtains (None) "find P (steps_from a (-1) n) = None" "\<And>q. a - int n < q \<Longrightarrow> q \<le> a \<Longrightarrow> \<not> P q"
  | (Some) p where "find P (steps_from a (-1) n) = Some p" "a - int n < p" "p \<le> a" "P p"
      "\<And>q. p < q \<Longrightarrow> q \<le> a \<Longrightarrow> \<not> P q"
proof (cases "find P (steps_from a (-1) n)")
  case None
  from None that(1) find_NoneD [OF None] show ?thesis by (simp add: set_steps_from_down)
next
  case (Some p)
  from that(2) [OF Some] find_SomeD [OF Some] find_steps_down_last [OF Some] show ?thesis
    by (simp add: set_steps_from_down)
qed

end
