(* ===== verification/Interfaces.thy ===== *)
theory Interfaces
  imports Prelude
begin

text \<open>
  The interfaces between components, as locales: the operations a client calls, the
  laws their provider promises, and what a client may conclude from the laws alone.
  The theory of each provider interprets its interface on the definitions of the code.
\<close>

section \<open>A source of physical pages\<close>

text \<open>What \<open>malloc\<close> needs of \<open>alloc_ppages\<close>: it returns, and what it hands over
  was free and is free no more.\<close>

locale page_source =
  fixes alloc :: "'s \<Rightarrow> int \<Rightarrow> ('s \<times> int) option"
    and free :: "'s \<Rightarrow> int set"
    and ok :: "'s \<Rightarrow> bool"
  assumes alloc_returns: "ok s \<Longrightarrow> 1 \<le> n \<Longrightarrow> \<exists>s' r. alloc s n = Some (s', r)"
    and alloc_ok: "ok s \<Longrightarrow> 1 \<le> n \<Longrightarrow> alloc s n = Some (s', r) \<Longrightarrow> ok s'"
    and alloc_fails: "ok s \<Longrightarrow> 1 \<le> n \<Longrightarrow> alloc s n = Some (s', -1) \<Longrightarrow> free s' = free s"
    and alloc_takes: "ok s \<Longrightarrow> 1 \<le> n \<Longrightarrow> alloc s n = Some (s', r) \<Longrightarrow> r \<noteq> -1 \<Longrightarrow>
      0 \<le> r \<and> {r..<r + n} \<subseteq> free s \<and> free s' = free s - {r..<r + n}"
begin

inductive takes :: "'s \<Rightarrow> (int \<times> int) list \<Rightarrow> 's \<Rightarrow> bool" where
  takes_Nil: "takes s [] s"
| takes_fail: "1 \<le> n \<Longrightarrow> alloc s n = Some (s', -1) \<Longrightarrow> takes s' rs t \<Longrightarrow> takes s rs t"
| takes_got: "1 \<le> n \<Longrightarrow> alloc s n = Some (s', r) \<Longrightarrow> r \<noteq> -1 \<Longrightarrow> takes s' rs t \<Longrightarrow>
    takes s ((r, n) # rs) t"

lemma takes_free:
  "takes s rs t \<Longrightarrow> ok s \<Longrightarrow> ok t \<and> free t = free s - (\<Union>(r, n) \<in> set rs. {r..<r + n}) \<and>
     (\<forall>(r, n) \<in> set rs. {r..<r + n} \<subseteq> free s)"
proof (induction rule: takes.induct)
  case (takes_fail n s s' rs t)
  have "ok s'" "free s' = free s"
    using alloc_ok [OF takes_fail.prems takes_fail.hyps(1,2)]
      alloc_fails [OF takes_fail.prems takes_fail.hyps(1,2)] .
  with takes_fail.IH show ?case by simp
next
  case (takes_got n s s' r rs t)
  have ok: "ok s'" and sub: "{r..<r + n} \<subseteq> free s" and fr: "free s' = free s - {r..<r + n}"
    using alloc_ok [OF takes_got.prems takes_got.hyps(1,2)]
      alloc_takes [OF takes_got.prems takes_got.hyps(1,2,3)] by auto
  from takes_got.IH [OF ok] have "ok t" "free t = free s' - (\<Union>(r, n) \<in> set rs. {r..<r + n})"
    and rest: "\<forall>(r, n) \<in> set rs. {r..<r + n} \<subseteq> free s'" by blast+
  moreover from rest fr have "\<forall>(r, n) \<in> set rs. {r..<r + n} \<subseteq> free s" by blast
  ultimately show ?case using sub fr by (simp add: Diff_Diff_Int set_diff_eq)
qed auto

lemma takes_disjoint:
  "takes s rs t \<Longrightarrow> ok s \<Longrightarrow> sorted_wrt (\<lambda>(r, n) (r', n'). {r..<r + n} \<inter> {r'..<r' + n'} = {}) rs"
proof (induction rule: takes.induct)
  case (takes_fail n s s' rs t)
  then show ?case using alloc_ok [OF takes_fail.prems takes_fail.hyps(1,2)] by simp
next
  case (takes_got n s s' r rs t)
  have ok: "ok s'" and sub: "free s' = free s - {r..<r + n}"
    using alloc_ok [OF takes_got.prems takes_got.hyps(1,2)]
      alloc_takes [OF takes_got.prems takes_got.hyps(1,2,3)] by auto
  from takes_free [OF takes_got.hyps(4) ok] have "\<forall>(r', n') \<in> set rs. {r'..<r' + n'} \<subseteq> free s'"
    by blast
  then have "\<forall>(r', n') \<in> set rs. {r..<r + n} \<inter> {r'..<r' + n'} = {}"
    unfolding sub by blast
  with takes_got.IH [OF ok] show ?case by simp
qed simp

end

end
