(* ===== verification/Page_Alloc.thy ===== *)
theory Page_Alloc
  imports Prelude Interfaces
begin

text \<open>
  The physical page allocator of \<open>src/mem.c\<close>: one bit per 4 KB page in an array of
  32-bit words that starts at the end of the kernel image, a search hint
  \<open>last_alloc_idx\<close>, and the processor's interrupt flag, which every operation
  saves, clears and restores. The array is a function on \<open>int\<close>: the C code
  indexes raw memory, so a word beyond \<open>bmsize\<close> is whatever is stored there.
  The search loop is a \<open>partial_function (option)\<close>, \<open>None\<close> when it never
  returns. The lemmas give the abstract view (the set of free pages), the
  invariant of the hint, and the first-fit and last-fit contracts.
\<close>

unbundle bit_operations_syntax

section \<open>State and page arithmetic\<close>

record page_state =
  bitmap :: "int \<Rightarrow> u32"
  bmsize :: int
  last_alloc_idx :: int
  iflag :: bool

record mem_range =
  mr_start :: u32
  mr_size :: u32

definition MEM_HEAP :: int where "MEM_HEAP = 0"
definition MEM_STACK :: int where "MEM_STACK = 1"

definition addr_to_page :: "u32 \<Rightarrow> u32" where
  "addr_to_page x = drop_bit 12 x"

definition page_to_addr :: "u32 \<Rightarrow> u32" where
  "page_to_addr x = push_bit 12 x"

definition bytes_to_pages :: "u32 \<Rightarrow> u32" where
  "bytes_to_pages x = drop_bit 12 (x + 4095)"

definition bm_idx :: "int \<Rightarrow> int" where
  "bm_idx pg = c_div pg 32"

definition bm_bit :: "int \<Rightarrow> nat" where
  "bm_bit pg = nat (pg AND 0x1f)"

definition is_free :: "page_state \<Rightarrow> int \<Rightarrow> bool" where
  "is_free s pg \<longleftrightarrow> bitmap s (bm_idx pg) AND push_bit (bm_bit pg) 1 = 0"

abbreviation (input) "USED \<equiv> True"
abbreviation (input) "FREE \<equiv> False"

definition mark_page :: "page_state \<Rightarrow> int \<Rightarrow> bool \<Rightarrow> page_state" where
  "mark_page s pg used =
     (let idx = bm_idx pg; bt = bm_bit pg; w = bitmap s idx
      in s\<lparr>bitmap := (bitmap s)(idx :=
             if used then w OR push_bit bt 1 else w AND NOT (push_bit bt 1))\<rparr>)"

fun mark_range :: "page_state \<Rightarrow> int \<Rightarrow> nat \<Rightarrow> bool \<Rightarrow> page_state" where
  "mark_range s pg 0 used = s"
| "mark_range s pg (Suc n) used = mark_range (mark_page s pg used) (pg + 1) n used"

section \<open>Freeing and allocating\<close>

definition free_ppage :: "page_state \<Rightarrow> int \<Rightarrow> fault + page_state" where
  "free_ppage s0 pg =
     (let bmidx = bm_idx pg; intr_state = iflag s0; s = s0\<lparr>iflag := False\<rparr>
      in if is_free s pg then Inl (Panic ''free_ppage: I thought that was already free!'')
         else
           let s1 = mark_page s pg FREE;
               s2 = (if bmidx < last_alloc_idx s1 then s1\<lparr>last_alloc_idx := bmidx\<rparr> else s1)
           in Inr (s2\<lparr>iflag := intr_state\<rparr>))"

fun free_loop :: "page_state \<Rightarrow> int \<Rightarrow> nat \<Rightarrow> fault + page_state" where
  "free_loop s pg 0 = Inr s"
| "free_loop s pg (Suc n) =
     (case free_ppage s pg of Inl e \<Rightarrow> Inl e | Inr s' \<Rightarrow> free_loop s' (pg + 1) n)"

definition free_ppages :: "page_state \<Rightarrow> int \<Rightarrow> int \<Rightarrow> fault + page_state" where
  "free_ppages s pg0 count = free_loop s pg0 (nat count)"

definition free_ppage_range :: "page_state \<Rightarrow> int \<Rightarrow> int \<Rightarrow> fault + page_state" where
  "free_ppage_range s start sz = free_loop s start (nat sz)"

fun range_free :: "page_state \<Rightarrow> int \<Rightarrow> nat \<Rightarrow> bool" where
  "range_free s pg 0 = True"
| "range_free s pg (Suc n) = (is_free s pg \<and> range_free s (pg + 1) n)"

text \<open>The early \<open>return -1\<close> of \<open>alloc_ppage_range\<close> skips \<open>set_intr_flag\<close>.\<close>

definition alloc_ppage_range :: "page_state \<Rightarrow> int \<Rightarrow> int \<Rightarrow> page_state \<times> int" where
  "alloc_ppage_range s0 start sz =
     (let intr_state = iflag s0; s = s0\<lparr>iflag := False\<rparr>
      in if \<not> range_free s start (nat sz) then (s, -1)
         else ((mark_range s start (nat sz) USED)\<lparr>iflag := intr_state\<rparr>, 0))"

text \<open>The \<open>for\<close> loop over the 32 pages of a word: the state, \<open>found_free\<close> and
  the page to return, if any.\<close>

fun scan_word :: "nat \<Rightarrow> page_state \<Rightarrow> int \<Rightarrow> int \<Rightarrow> int \<Rightarrow> int \<Rightarrow> bool \<Rightarrow>
    page_state \<times> bool \<times> int option" where
  "scan_word 0 s pg dir idx count found = (s, found, None)"
| "scan_word (Suc i) s pg dir idx count found =
     (if is_free s pg then
        let (s1, found1) = (if \<not> found \<and> dir > 0 then (s\<lparr>last_alloc_idx := idx\<rparr>, True)
                            else (s, found));
            (s2, r) = alloc_ppage_range s1 pg count
        in if r \<noteq> -1 then (s2, found1, Some pg)
           else scan_word i s2 (pg + dir) dir idx count found1
      else scan_word i s (pg + dir) dir idx count found)"

partial_function (option) scan_bitmap ::
    "page_state \<Rightarrow> int \<Rightarrow> int \<Rightarrow> int \<Rightarrow> int \<Rightarrow> bool \<Rightarrow> (page_state \<times> int option) option" where
  "scan_bitmap s idx mx dir count found =
     (if idx = mx then Some (s, None)
      else if bitmap s idx \<noteq> 0xffffffff then
        (case scan_word 32 s (if dir < 0 then idx * 32 + 31 else idx * 32) dir idx count found of
           (s', found', Some pg) \<Rightarrow> Some (s', Some pg)
         | (s', found', None) \<Rightarrow> scan_bitmap s' (idx + dir) mx dir count found')
      else scan_bitmap s (idx + dir) mx dir count found)"

declare scan_bitmap.simps [code]

definition alloc_ppages :: "page_state \<Rightarrow> int \<Rightarrow> int \<Rightarrow> (page_state \<times> int) option" where
  "alloc_ppages s0 count area =
     (let intr_state = iflag s0; s = s0\<lparr>iflag := False\<rparr>;
          (idx, mx, dir) =
            (if area = MEM_STACK then (c_div (bmsize s - 1) 4, -1, -1)
             else (last_alloc_idx s, c_div (bmsize s) 4, 1))
      in map_option (\<lambda>(s', r). (s'\<lparr>iflag := intr_state\<rparr>, case r of None \<Rightarrow> -1 | Some pg \<Rightarrow> pg))
           (scan_bitmap s idx mx dir count False))"

definition alloc_ppage :: "page_state \<Rightarrow> int \<Rightarrow> (page_state \<times> int) option" where
  "alloc_ppage s area = alloc_ppages s 1 area"

section \<open>Initialisation from the boot memory map\<close>

definition add_memory :: "page_state \<Rightarrow> u32 \<Rightarrow> u32 \<Rightarrow> page_state" where
  "add_memory s start sz =
     mark_range s (uint (addr_to_page start)) (unat (addr_to_page (sz + 4095))) FREE"

text \<open>What the body of the map loop makes of one range: \<open>None\<close> is its
  \<open>continue\<close>, otherwise the start, size and end it goes on with.\<close>

definition clip_range :: "u32 \<Rightarrow> mem_range \<Rightarrow> (u32 \<times> u32 \<times> u32) option" where
  "clip_range mem_start r =
     (let start = mr_start r; sz = mr_size r AND 0xfffffffc; end = start + sz;
          (end, sz) = (if end < sz then (0xfffffffc, 0xfffffffc - start) else (end, sz))
      in if end < mem_start then None
         else Some (if start < mem_start then mem_start else start, sz, end))"

fun map_loop :: "u32 \<Rightarrow> mem_range list \<Rightarrow> page_state \<Rightarrow> int \<Rightarrow> page_state \<times> int" where
  "map_loop mem_start [] s end_pg = (s, end_pg)"
| "map_loop mem_start (r # rs) s end_pg =
     (case clip_range mem_start r of
        None \<Rightarrow> map_loop mem_start rs s end_pg
      | Some (start, sz, end) \<Rightarrow>
          map_loop mem_start rs (add_memory s start sz) (max end_pg (uint (addr_to_page end))))"

definition MAX_MAP_SIZE :: int where "MAX_MAP_SIZE = 16"

definition init_mem :: "u32 \<Rightarrow> mem_range list \<Rightarrow> page_state \<Rightarrow> fault + page_state" where
  "init_mem mem_start boot_mem_map s0 =
     (let s = s0\<lparr>last_alloc_idx := 0,
                 bitmap := (\<lambda>i. if 0 \<le> i \<and> i < 32768 then 0xffffffff else bitmap s0 i)\<rparr>
      in if int (length boot_mem_map) \<le> 0 \<or> int (length boot_mem_map) > MAX_MAP_SIZE
         then Inl (Panic ''invalid memory map size reported by the boot loader'')
         else
           let (s1, end_pg) = map_loop mem_start boot_mem_map s 0;
               s2 = s1\<lparr>bmsize := (end_pg div 32) * 4\<rparr>;
               used_end = mem_start + word_of_int (bmsize s2) - 1;
               max_used_pg = uint (addr_to_page used_end)
           in Inr (mark_range s2 0 (nat (max_used_pg + 1)) USED))"

section \<open>The allocation bitmap, page by page\<close>

lemma bm_bit_eq: "bm_bit pg = nat (pg mod 32)"
  using int_and_mask [of pg 5] by (simp add: bm_bit_def)

lemma bm_bit_less [simp]: "bm_bit pg < 32"
  by (simp add: bm_bit_eq nat_less_iff)

lemma is_free_iff: "is_free s pg \<longleftrightarrow> \<not> bit (bitmap s (bm_idx pg)) (bm_bit pg)"
  by (simp add: is_free_def and_bit_eq_0_iff)

lemma page_eq_iff:
  assumes "0 \<le> pg" "0 \<le> q"
  shows "pg = q \<longleftrightarrow> bm_idx pg = bm_idx q \<and> bm_bit pg = bm_bit q"
proof
  assume h: "bm_idx pg = bm_idx q \<and> bm_bit pg = bm_bit q"
  then have "pg div 32 = q div 32" "pg mod 32 = q mod 32"
    using assms by (auto simp: bm_idx_def bm_bit_eq)
  then show "pg = q" by (metis div_mult_mod_eq)
qed simp

lemma is_free_mark_page:
  assumes "0 \<le> pg" "0 \<le> q"
  shows "is_free (mark_page s pg used) q \<longleftrightarrow> (if q = pg then \<not> used else is_free s q)"
  using page_eq_iff [OF assms]
  by (auto simp: is_free_iff mark_page_def Let_def bit_set_iff bit_clear_iff)

lemma mark_page_fields [simp]:
  "bmsize (mark_page s pg used) = bmsize s"
  "last_alloc_idx (mark_page s pg used) = last_alloc_idx s"
  "iflag (mark_page s pg used) = iflag s"
  by (auto simp: mark_page_def Let_def)

lemma mark_range_fields [simp]:
  "bmsize (mark_range s pg n used) = bmsize s"
  "last_alloc_idx (mark_range s pg n used) = last_alloc_idx s"
  "iflag (mark_range s pg n used) = iflag s"
  by (induction n arbitrary: s pg) auto

lemma is_free_update [simp]:
  "is_free (s\<lparr>iflag := b\<rparr>) q = is_free s q"
  "is_free (s\<lparr>last_alloc_idx := i\<rparr>) q = is_free s q"
  "is_free (s\<lparr>bmsize := m\<rparr>) q = is_free s q"
  by (auto simp: is_free_def)

lemma is_free_mark_range:
  assumes "0 \<le> pg" "0 \<le> q"
  shows "is_free (mark_range s pg n used) q \<longleftrightarrow>
    (if pg \<le> q \<and> q < pg + int n then \<not> used else is_free s q)"
  using assms
proof (induction n arbitrary: s pg)
  case (Suc n)
  then show ?case by (auto simp: is_free_mark_page)
qed auto

definition run_free :: "page_state \<Rightarrow> int \<Rightarrow> int \<Rightarrow> bool" where
  "run_free s pg n \<longleftrightarrow> (\<forall>q \<in> {pg..<pg + n}. is_free s q)"

lemma range_free_iff: "range_free s pg (nat n) \<longleftrightarrow> run_free s pg n"
proof (cases "0 \<le> n")
  case True
  have "range_free s pg m \<longleftrightarrow> (\<forall>q \<in> {pg..<pg + int m}. is_free s q)" for m
  proof (induction m arbitrary: pg)
    case (Suc m)
    have "{pg..<pg + int (Suc m)} = insert pg {pg + 1..<pg + 1 + int m}" by auto
    then show ?case using Suc by simp
  qed simp
  with True show ?thesis by (simp add: run_free_def)
qed (simp add: run_free_def)

lemma word_full_iff:
  assumes "0 \<le> i"
  shows "bitmap s i = 0xffffffff \<longleftrightarrow> (\<forall>q \<in> {i * 32..<i * 32 + 32}. \<not> is_free s q)"
proof -
  have "bitmap s i = 0xffffffff \<longleftrightarrow> (\<forall>n < 32. bit (bitmap s i) n)"
    using all_ones_iff [of "bitmap s i"] by (simp add: u32_max_eq)
  also have "\<dots> \<longleftrightarrow> (\<forall>q \<in> {i * 32..<i * 32 + 32}. \<not> is_free s q)"
  proof (intro iffI ballI allI impI)
    fix q assume h: "\<forall>n < 32. bit (bitmap s i) n" and q: "q \<in> {i * 32..<i * 32 + 32}"
    then have "bm_idx q = i" using assms by (auto simp: bm_idx_def)
    with h show "\<not> is_free s q" by (simp add: is_free_iff)
  next
    fix n :: nat assume h: "\<forall>q \<in> {i * 32..<i * 32 + 32}. \<not> is_free s q" and n: "n < 32"
    then have "\<not> is_free s (i * 32 + int n)" by auto
    moreover have "bm_idx (i * 32 + int n) = i" "bm_bit (i * 32 + int n) = n"
      using assms n by (auto simp: bm_idx_def bm_bit_eq)
    ultimately show "bit (bitmap s i) n" by (simp add: is_free_iff)
  qed
  finally show ?thesis .
qed

section \<open>The search loop as a search through a list of pages\<close>

definition fits :: "page_state \<Rightarrow> int \<Rightarrow> int \<Rightarrow> bool" where
  "fits s count pg \<longleftrightarrow> is_free s pg \<and> run_free s pg count"

definition set_hint :: "page_state \<Rightarrow> int option \<Rightarrow> page_state" where
  "set_hint s r = (case r of None \<Rightarrow> s | Some i \<Rightarrow> s\<lparr>last_alloc_idx := i\<rparr>)"

definition take_pages :: "page_state \<Rightarrow> int option \<Rightarrow> int \<Rightarrow> page_state" where
  "take_pages s r count = (case r of None \<Rightarrow> s | Some pg \<Rightarrow> mark_range s pg (nat count) USED)"

lemma set_hint_simps [simp]:
  "is_free (set_hint s r) q = is_free s q"
  "bitmap (set_hint s r) = bitmap s"
  "bmsize (set_hint s r) = bmsize s"
  "iflag (set_hint s r) = iflag s"
  "last_alloc_idx (set_hint s r) = (case r of None \<Rightarrow> last_alloc_idx s | Some i \<Rightarrow> i)"
  by (auto simp: set_hint_def split: option.splits)

lemma fits_update [simp]:
  "fits (s\<lparr>iflag := b\<rparr>) c = fits s c"
  "fits (s\<lparr>last_alloc_idx := i\<rparr>) c = fits s c"
  "fits (set_hint s r) c = fits s c"
  by (auto simp: fits_def run_free_def fun_eq_iff)

lemma intr_off_id: "\<not> iflag s \<Longrightarrow> s\<lparr>iflag := False\<rparr> = s" for s :: page_state
  by simp

lemma run_free_update [simp]:
  "run_free (s\<lparr>iflag := b\<rparr>) = run_free s"
  "run_free (s\<lparr>last_alloc_idx := i\<rparr>) = run_free s"
  by (auto simp: run_free_def fun_eq_iff)

lemma alloc_ppage_range_eq:
  assumes "\<not> iflag s"
  shows "alloc_ppage_range s pg c =
     (if run_free s pg c then (mark_range s pg (nat c) USED, 0) else (s, -1))"
  using assms by (simp add: alloc_ppage_range_def range_free_iff intr_off_id Let_def)

lemma scan_word_eq:
  "\<not> iflag s \<Longrightarrow> scan_word n s pg dir idx c found =
     (let cs = steps_from pg dir n;
          seen = (0 < dir \<and> (\<exists>q \<in> set cs. is_free s q));
          s1 = (if seen \<and> \<not> found then s\<lparr>last_alloc_idx := idx\<rparr> else s)
      in (take_pages s1 (find (fits s c) cs) c, found \<or> seen, find (fits s c) cs))"
proof (induction n arbitrary: s pg found)
  case 0
  then show ?case by (simp add: take_pages_def)
next
  case (Suc n)
  show ?case
  proof (cases "is_free s pg")
    case False
    then show ?thesis using Suc by (simp add: fits_def Let_def)
  next
    case True
    let ?s1 = "if \<not> found \<and> 0 < dir then s\<lparr>last_alloc_idx := idx\<rparr> else s"
    have rf: "run_free ?s1 pg c = run_free s pg c" by (simp add: run_free_def)
    have "\<not> iflag ?s1" using Suc.prems by simp
    from Suc.IH [OF this] True rf Suc.prems show ?thesis
      by (auto simp: alloc_ppage_range_eq fits_def take_pages_def Let_def)
  qed
qed

lemma take_pages_None [simp]: "take_pages s None c = s"
  by (simp add: take_pages_def)

lemma find_fits_None: "find (is_free s) cs = None \<Longrightarrow> find (fits s c) cs = None"
  by (auto simp: find_None_iff fits_def)

lemma scan_up_eq:
  assumes "\<not> iflag s" "0 \<le> idx"
  shows "scan_bitmap s idx (idx + int k) 1 c found =
     (let cs = steps_from (idx * 32) 1 (32 * k);
          s1 = (if found then s else set_hint s (map_option (\<lambda>q. q div 32) (find (is_free s) cs)))
      in Some (take_pages s1 (find (fits s c) cs) c, find (fits s c) cs))"
  using assms
proof (induction k arbitrary: s idx found)
  case 0
  then show ?case by (simp add: scan_bitmap.simps [of s idx idx] set_hint_def)
next
  case (Suc k)
  let ?c1 = "steps_from (idx * 32) 1 32"
  let ?c2 = "steps_from ((idx + 1) * 32) 1 (32 * k)"
  have cs: "steps_from (idx * 32) 1 (32 * Suc k) = ?c1 @ ?c2"
    using steps_from_append [of "idx * 32" 1 32 "32 * k"] by (simp add: algebra_simps)
  have full: "bitmap s idx = 0xffffffff \<longleftrightarrow> find (is_free s) ?c1 = None"
    using word_full_iff [OF Suc.prems(2), of s] by (auto simp: find_None_iff set_steps_from_up)
  show ?case
  proof (cases "find (is_free s) ?c1")
    case None
    with full have "scan_bitmap s idx (idx + int (Suc k)) 1 c found =
        scan_bitmap s (idx + 1) (idx + 1 + int k) 1 c found"
      by (subst scan_bitmap.simps) (simp add: ac_simps)
    with None find_fits_None [OF None, of c] Suc show ?thesis
      unfolding cs Let_def find_append by simp
  next
    case (Some q)
    let ?s1 = "if found then s else s\<lparr>last_alloc_idx := idx\<rparr>"
    from Some have q: "is_free s q" "q div 32 = idx" and ex: "\<exists>q \<in> set ?c1. is_free s q"
      by (auto simp: set_steps_from_up dest!: find_SomeD)
    have unf: "scan_bitmap s idx (idx + int (Suc k)) 1 c found =
        (case find (fits s c) ?c1 of
           Some pg \<Rightarrow> Some (take_pages ?s1 (Some pg) c, Some pg)
         | None \<Rightarrow> scan_bitmap ?s1 (idx + 1) (idx + 1 + int k) 1 c True)"
      using Some full ex Suc.prems
      by (subst scan_bitmap.simps) (auto simp: ac_simps scan_word_eq Let_def split: option.splits)
    have "\<not> iflag ?s1" using Suc.prems by simp
    from Suc.IH [OF this, of "idx + 1" True] Suc.prems Some q show ?thesis
      unfolding unf cs Let_def find_append
      by (auto simp: set_hint_def Let_def split: option.splits)
  qed
qed

lemma scan_down_eq:
  assumes "\<not> iflag s"
  shows "scan_bitmap s (int k - 1) (-1) (-1) c found =
     (let cs = steps_from (int k * 32 - 1) (-1) (32 * k)
      in Some (take_pages s (find (fits s c) cs) c, find (fits s c) cs))"
  using assms
proof (induction k arbitrary: s)
  case 0
  then show ?case by (simp add: scan_bitmap.simps [of s "-1" "-1"])
next
  case (Suc k)
  let ?c1 = "steps_from (int k * 32 + 31) (-1) 32"
  let ?c2 = "steps_from (int k * 32 - 1) (-1) (32 * k)"
  have cs: "steps_from (int (Suc k) * 32 - 1) (-1) (32 * Suc k) = ?c1 @ ?c2"
    using steps_from_append [of "int k * 32 + 31" "-1" 32 "32 * k"] by (simp add: algebra_simps)
  have "{int k * 32 + 31 - int 32<..int k * 32 + 31} = {int k * 32..<int k * 32 + 32}"
    by auto
  then have full: "bitmap s (int k) = 0xffffffff \<longleftrightarrow> find (is_free s) ?c1 = None"
    using word_full_iff [of "int k" s] by (simp only: find_None_iff set_steps_from_down) auto
  have unf: "scan_bitmap s (int (Suc k) - 1) (-1) (-1) c found =
      (case find (fits s c) ?c1 of
         Some pg \<Rightarrow> Some (take_pages s (Some pg) c, Some pg)
       | None \<Rightarrow> scan_bitmap s (int k - 1) (-1) (-1) c found)"
  proof (cases "find (is_free s) ?c1")
    case None
    with full find_fits_None [OF None, of c] show ?thesis
      by (subst scan_bitmap.simps) simp
  next
    case (Some q)
    with full Suc.prems show ?thesis
      by (subst scan_bitmap.simps) (simp add: scan_word_eq Let_def split: option.split)
  qed
  show ?case
    unfolding unf cs Let_def find_append using Suc by (auto simp: Let_def split: option.splits)
qed

section \<open>Invariant and contract of the allocator\<close>

text \<open>The comment above \<open>last_alloc_idx\<close>: no word before it has a free page.\<close>

definition page_limit :: "page_state \<Rightarrow> int" where
  "page_limit s = 32 * (bmsize s div 4)"

definition page_inv :: "page_state \<Rightarrow> bool" where
  "page_inv s \<longleftrightarrow> 0 < bmsize s \<and> 4 dvd bmsize s \<and>
     0 \<le> last_alloc_idx s \<and> last_alloc_idx s \<le> bmsize s div 4 \<and>
     (\<forall>q. 0 \<le> q \<and> q < last_alloc_idx s * 32 \<longrightarrow> \<not> is_free s q)"

definition free_set :: "page_state \<Rightarrow> int set" where
  "free_set s = {q. 0 \<le> q \<and> is_free s q}"

text \<open>What a returning allocation promises whatever page it picks: \<open>-1\<close> changes
  no page, a page number hands over \<open>count\<close> pages that were all free.\<close>

definition alloc_effect :: "page_state \<Rightarrow> int \<Rightarrow> page_state \<Rightarrow> int \<Rightarrow> bool" where
  "alloc_effect s count s' r \<longleftrightarrow>
     page_inv s' \<and> iflag s' = iflag s \<and> bmsize s' = bmsize s \<and>
     (if r = -1 then free_set s' = free_set s
      else 0 \<le> r \<and> r < page_limit s \<and> {r..<r + count} \<subseteq> free_set s \<and>
           free_set s' = free_set s - {r..<r + count})"

lemma free_set_simps [simp]:
  "free_set (s\<lparr>iflag := b\<rparr>) = free_set s"
  "free_set (s\<lparr>last_alloc_idx := i\<rparr>) = free_set s"
  "free_set (set_hint s h) = free_set s"
  by (auto simp: free_set_def)

lemma page_inv_iflag [simp]: "page_inv (s\<lparr>iflag := b\<rparr>) = page_inv s"
  by (auto simp: page_inv_def)

lemma run_free_subset: "0 \<le> p \<Longrightarrow> run_free s p c \<longleftrightarrow> {p..<p + c} \<subseteq> free_set s"
  by (auto simp: run_free_def free_set_def)

lemma fits_subset:
  assumes "0 \<le> p" "1 \<le> c"
  shows "fits s c p \<longleftrightarrow> {p..<p + c} \<subseteq> free_set s"
proof -
  have "p \<in> {p..<p + c}" using assms by simp
  then have "run_free s p c \<Longrightarrow> is_free s p" unfolding run_free_def by blast
  then show ?thesis
    using run_free_subset [OF assms(1), of s c] by (auto simp: fits_def)
qed

lemma page_limit_set_hint [simp]: "page_limit (set_hint s h) = page_limit s"
  by (simp add: page_limit_def)

lemma free_set_mark_used:
  assumes "0 \<le> p"
  shows "free_set (mark_range s p n USED) = free_set s - {p..<p + int n}"
proof (rule set_eqI)
  fix q show "q \<in> free_set (mark_range s p n USED) \<longleftrightarrow> q \<in> free_set s - {p..<p + int n}"
    using assms by (cases "0 \<le> q") (simp_all add: free_set_def is_free_mark_range)
qed

lemma free_set_mark_free:
  assumes "0 \<le> p"
  shows "free_set (mark_range s p n FREE) = free_set s \<union> {p..<p + int n}"
proof (rule set_eqI)
  fix q show "q \<in> free_set (mark_range s p n FREE) \<longleftrightarrow> q \<in> free_set s \<union> {p..<p + int n}"
    using assms by (cases "0 \<le> q"; cases "p \<le> q \<and> q < p + int n")
      (auto simp: free_set_def is_free_mark_range)
qed

lemma page_inv_mark_used: "page_inv s \<Longrightarrow> 0 \<le> p \<Longrightarrow> page_inv (mark_range s p n USED)"
  by (simp add: page_inv_def is_free_mark_range)

lemma page_inv_set_hint:
  assumes "page_inv s"
    and hint: "q \<in> {last_alloc_idx s * 32..<page_limit s}"
      "\<And>q'. last_alloc_idx s * 32 \<le> q' \<Longrightarrow> q' < q \<Longrightarrow> \<not> is_free s q'"
  shows "page_inv (set_hint s (Some (q div 32)))"
proof -
  have "0 \<le> q div 32" "q div 32 \<le> bmsize s div 4" "q div 32 * 32 \<le> q"
    using assms by (auto simp: page_inv_def page_limit_def)
  moreover have "\<not> is_free s q'" if "0 \<le> q'" "q' < q div 32 * 32" for q'
  proof (cases "q' < last_alloc_idx s * 32")
    case True
    then show ?thesis using that assms(1) by (simp add: page_inv_def)
  next
    case False
    then show ?thesis using that hint(2) [of q'] \<open>q div 32 * 32 \<le> q\<close> by simp
  qed
  ultimately show ?thesis using assms(1) by (simp add: page_inv_def)
qed

lemma take_pages_effect:
  assumes "page_inv s" "find (fits s0 c) cs = r" "set cs = {a..<page_limit s}" "0 \<le> a" "1 \<le> c"
    "free_set s = free_set s0" "iflag s = iflag s0" "bmsize s = bmsize s0"
  shows "alloc_effect s0 c (take_pages s r c) (case r of None \<Rightarrow> -1 | Some pg \<Rightarrow> pg)"
proof (cases r)
  case None
  then show ?thesis using assms by (simp add: alloc_effect_def)
next
  case (Some pg)
  with assms(2,3,4) have pg: "fits s0 c pg" "0 \<le> pg" "pg < page_limit s"
    by (auto dest!: find_SomeD)
  then have "{pg..<pg + c} \<subseteq> free_set s0"
    by (simp add: fits_def run_free_subset)
  with pg Some assms show ?thesis
    by (simp add: alloc_effect_def take_pages_def page_inv_mark_used free_set_mark_used page_limit_def)
qed

lemma alloc_ppages_heap_eq:
  assumes inv: "page_inv s" and area: "area \<noteq> MEM_STACK"
  defines "cs \<equiv> steps_from (last_alloc_idx s * 32) 1 (32 * nat (bmsize s div 4 - last_alloc_idx s))"
  shows "alloc_ppages s c area =
     (let h = map_option (\<lambda>q. q div 32) (find (is_free s) cs); r = find (fits s c) cs
      in Some (take_pages (set_hint s h) r c, case r of None \<Rightarrow> -1 | Some pg \<Rightarrow> pg))"
proof -
  let ?s = "s\<lparr>iflag := False\<rparr>"
  let ?k = "nat (bmsize s div 4 - last_alloc_idx s)"
  have mx: "last_alloc_idx s + int ?k = c_div (bmsize s) 4"
    using inv by (simp add: page_inv_def)
  have restore: "(take_pages (set_hint ?s h) r c)\<lparr>iflag := iflag s\<rparr> = take_pages (set_hint s h) r c" for h r
  proof -
    have mp: "mark_page (t\<lparr>iflag := b\<rparr>) p u = (mark_page t p u)\<lparr>iflag := b\<rparr>" for t p u and b
      by (simp add: mark_page_def Let_def)
    have mr: "mark_range (t\<lparr>iflag := b\<rparr>) p n u = (mark_range t p n u)\<lparr>iflag := b\<rparr>" for t p n u and b
      by (induction n arbitrary: t p) (auto simp: mp)
    have "(mark_range t p n u)\<lparr>iflag := iflag t\<rparr> = mark_range t p n u" for t p n u
      by simp
    then show ?thesis
      by (cases h; cases r) (auto simp: take_pages_def set_hint_def mr simp flip: mr)
  qed
  have fr: "is_free ?s = is_free s" by (simp add: fun_eq_iff)
  have "0 \<le> last_alloc_idx s" using inv by (simp add: page_inv_def)
  from scan_up_eq [of ?s, OF _ this, of ?k c False, unfolded mx]
  have "scan_bitmap ?s (last_alloc_idx s) (c_div (bmsize s) 4) 1 c False =
      Some (take_pages (set_hint ?s (map_option (\<lambda>q. q div 32) (find (is_free s) cs)))
              (find (fits s c) cs) c, find (fits s c) cs)"
    by (simp add: Let_def cs_def fr)
  then show ?thesis
    using area by (simp add: alloc_ppages_def Let_def restore)
qed

lemma alloc_ppages_heap:
  assumes inv: "page_inv s" and area: "area \<noteq> MEM_STACK" and count: "1 \<le> count"
  shows "\<exists>s' r. alloc_ppages s count area = Some (s', r) \<and> alloc_effect s count s' r \<and>
    (\<forall>p. 0 \<le> p \<and> p < (if r = -1 then page_limit s else r) \<longrightarrow> \<not> {p..<p + count} \<subseteq> free_set s)"
proof -
  let ?a = "last_alloc_idx s * 32" and ?n = "32 * nat (bmsize s div 4 - last_alloc_idx s)"
  let ?cs = "steps_from ?a 1 ?n"
  let ?q = "find (is_free s) ?cs" and ?r = "find (fits s count) ?cs"
  let ?s = "set_hint s (map_option (\<lambda>q. q div 32) ?q)"
  have a: "0 \<le> ?a" and lim: "?a + int ?n = page_limit s" and cs: "set ?cs = {?a..<page_limit s}"
    using inv by (auto simp: page_inv_def page_limit_def set_steps_from_up)
  have "page_inv ?s"
  proof (cases rule: find_steps_up_cases [of "is_free s" ?a ?n])
    case None
    then show ?thesis using inv by (simp add: set_hint_def)
  next
    case (Some q)
    then have "page_inv (set_hint s (Some (q div 32)))"
      using lim by (intro page_inv_set_hint [OF inv]) simp_all
    with Some show ?thesis by simp
  qed
  then have eff: "alloc_effect s count (take_pages ?s ?r count) (case ?r of None \<Rightarrow> -1 | Some pg \<Rightarrow> pg)"
    using cs a count by (intro take_pages_effect [where a = ?a]) (simp_all only: set_hint_simps
        page_limit_set_hint free_set_simps fits_update)
  have low: "\<not> fits s count p" if "0 \<le> p" "p < ?a" for p
    using inv that by (simp add: page_inv_def fits_def)
  have first: "\<not> {p..<p + count} \<subseteq> free_set s"
    if "0 \<le> p" "p < (case ?r of None \<Rightarrow> page_limit s | Some pg \<Rightarrow> pg)" for p
  proof -
    have "\<not> fits s count p"
    proof (cases rule: find_steps_up_cases [of "fits s count" ?a ?n])
      case None
      then show ?thesis using that low [of p] lim by (cases "p < ?a") simp_all
    next
      case (Some pg)
      then show ?thesis using that low [of p] by (cases "p < ?a") simp_all
    qed
    then show ?thesis using fits_subset [OF that(1) count] by simp
  qed
  have "(if (case ?r of None \<Rightarrow> -1 | Some pg \<Rightarrow> pg) = -1 then page_limit s
         else (case ?r of None \<Rightarrow> -1 | Some pg \<Rightarrow> pg)) =
        (case ?r of None \<Rightarrow> page_limit s | Some pg \<Rightarrow> pg)"
    using a by (cases rule: find_steps_up_cases [of "fits s count" ?a ?n]) simp_all
  with eff first show ?thesis
    unfolding alloc_ppages_heap_eq [OF inv area] Let_def by auto
qed

lemma alloc_ppages_stack_eq:
  assumes inv: "page_inv s"
  defines "cs \<equiv> steps_from (page_limit s - 1) (-1) (32 * nat (bmsize s div 4))"
  shows "alloc_ppages s c MEM_STACK =
     (let r = find (fits s c) cs
      in Some (take_pages s r c, case r of None \<Rightarrow> -1 | Some pg \<Rightarrow> pg))"
proof -
  let ?s = "s\<lparr>iflag := False\<rparr>"
  let ?k = "nat (bmsize s div 4)"
  have mx: "c_div (bmsize s - 1) 4 = int ?k - 1"
    using inv by (auto simp: page_inv_def dvd_def)
  have lim: "int ?k * 32 - 1 = page_limit s - 1"
    using inv by (simp add: page_inv_def page_limit_def)
  have restore: "(take_pages ?s r c)\<lparr>iflag := iflag s\<rparr> = take_pages s r c" for r
  proof -
    have mp: "mark_page (t\<lparr>iflag := b\<rparr>) p u = (mark_page t p u)\<lparr>iflag := b\<rparr>" for t p u and b
      by (simp add: mark_page_def Let_def)
    have mr: "mark_range (t\<lparr>iflag := b\<rparr>) p n u = (mark_range t p n u)\<lparr>iflag := b\<rparr>" for t p n u and b
      by (induction n arbitrary: t p) (auto simp: mp)
    have "(mark_range t p n u)\<lparr>iflag := iflag t\<rparr> = mark_range t p n u" for t p n u
      by simp
    then show ?thesis by (cases r) (auto simp: take_pages_def mr simp flip: mr)
  qed
  from scan_down_eq [of ?s ?k c False] mx
  have "scan_bitmap ?s (c_div (bmsize s - 1) 4) (-1) (-1) c False =
      Some (take_pages ?s (find (fits s c) cs) c, find (fits s c) cs)"
    by (simp only: lim) (simp add: Let_def cs_def)
  then show ?thesis
    by (simp add: alloc_ppages_def Let_def restore)
qed

lemma alloc_ppages_stack:
  assumes inv: "page_inv s" and count: "1 \<le> count"
  shows "\<exists>s' r. alloc_ppages s count MEM_STACK = Some (s', r) \<and> alloc_effect s count s' r \<and>
    (\<forall>p. (if r = -1 then 0 \<le> p else r < p) \<and> p < page_limit s \<longrightarrow> \<not> {p..<p + count} \<subseteq> free_set s)"
proof -
  let ?a = "page_limit s - 1" and ?n = "32 * nat (bmsize s div 4)"
  let ?cs = "steps_from ?a (-1) ?n"
  let ?r = "find (fits s count) ?cs"
  have lim: "int ?n = page_limit s" and cs: "set ?cs = {0..<page_limit s}"
    using inv by (auto simp: page_inv_def page_limit_def set_steps_from_down)
  have eff: "alloc_effect s count (take_pages s ?r count) (case ?r of None \<Rightarrow> -1 | Some pg \<Rightarrow> pg)"
    using inv cs count by (intro take_pages_effect [where a = 0]) simp_all
  show ?thesis
  proof (cases rule: find_steps_down_cases [of "fits s count" ?a ?n])
    case None
    then have "\<not> {p..<p + count} \<subseteq> free_set s" if "0 \<le> p" "p < page_limit s" for p
      using that lim fits_subset [OF _ count, of p s] by simp
    with eff None show ?thesis
      unfolding alloc_ppages_stack_eq [OF inv] Let_def by auto
  next
    case (Some pg)
    then have "0 \<le> pg" using lim by simp
    with Some have "\<not> {p..<p + count} \<subseteq> free_set s" if "pg < p" "p < page_limit s" for p
      using that fits_subset [OF _ count, of p s] by simp
    with eff Some \<open>0 \<le> pg\<close> show ?thesis
      unfolding alloc_ppages_stack_eq [OF inv] Let_def by auto
  qed
qed

lemma alloc_ppages_effect:
  assumes "page_inv s" "1 \<le> count"
  shows "\<exists>s' r. alloc_ppages s count area = Some (s', r) \<and> alloc_effect s count s' r"
  using alloc_ppages_heap [OF assms(1) _ assms(2)] alloc_ppages_stack [OF assms]
  by (cases "area = MEM_STACK") blast+

interpretation ps: page_source "\<lambda>s n. alloc_ppages s n area" free_set page_inv for area
proof unfold_locales
  fix s n assume "page_inv s" "(1::int) \<le> n"
  from alloc_ppages_effect [OF this, of area] obtain s' r
    where sr: "alloc_ppages s n area = Some (s', r)" and eff: "alloc_effect s n s' r" by blast
  then show "\<exists>s' r. alloc_ppages s n area = Some (s', r)" by blast
  from sr eff show "page_inv t" if "alloc_ppages s n area = Some (t, q)" for t q
    using that by (simp add: alloc_effect_def)
  from sr eff show "free_set t = free_set s" if "alloc_ppages s n area = Some (t, -1)" for t
    using that by (simp add: alloc_effect_def)
  from sr eff show "0 \<le> q \<and> {q..<q + n} \<subseteq> free_set s \<and> free_set t = free_set s - {q..<q + n}"
    if "alloc_ppages s n area = Some (t, q)" "q \<noteq> -1" for t q
    using that by (simp add: alloc_effect_def)
qed

lemma free_ppage_cases:
  assumes "0 \<le> pg"
  shows "(case free_ppage s pg of
      Inl e \<Rightarrow> pg \<in> free_set s
    | Inr s' \<Rightarrow> pg \<notin> free_set s \<and> free_set s' = insert pg (free_set s) \<and>
        iflag s' = iflag s \<and> bmsize s' = bmsize s \<and> (page_inv s \<longrightarrow> page_inv s'))"
proof -
  let ?s = "s\<lparr>iflag := False\<rparr>"
  have frees: "free_set (mark_page ?s pg FREE) = insert pg (free_set s)"
  proof -
    have "{pg..<pg + int 1} = {pg}" by (simp add: set_eq_iff) arith
    with free_set_mark_free [OF assms, of ?s 1] show ?thesis by simp
  qed
  have keeps: "\<not> is_free (mark_page ?s pg FREE) q"
    if "page_inv s" "0 \<le> q" "q < h * 32" "h \<le> last_alloc_idx s" "h \<le> bm_idx pg" for q h
  proof -
    have "h * 32 \<le> pg" using that assms by (simp add: bm_idx_def)
    then have "q \<noteq> pg" using that by simp
    then show ?thesis using that assms by (simp add: is_free_mark_page page_inv_def)
  qed
  have "0 \<le> bm_idx pg" using assms by (simp add: bm_idx_def)
  show ?thesis
  proof (cases "is_free s pg")
    case True
    then show ?thesis using assms by (simp add: free_ppage_def Let_def free_set_def)
  next
    case False
    then have "pg \<notin> free_set s" by (simp add: free_set_def)
    moreover have "page_inv s \<Longrightarrow> page_inv (mark_page ?s pg FREE\<lparr>last_alloc_idx := bm_idx pg, iflag := iflag s\<rparr>)"
      if "bm_idx pg < last_alloc_idx s"
      using that keeps [of _ "bm_idx pg"] \<open>0 \<le> bm_idx pg\<close> by (simp add: page_inv_def)
    moreover have "page_inv s \<Longrightarrow> page_inv (mark_page ?s pg FREE\<lparr>iflag := iflag s\<rparr>)"
      if "\<not> bm_idx pg < last_alloc_idx s"
      using that keeps [of _ "last_alloc_idx s"] by (simp add: page_inv_def)
    ultimately show ?thesis
      using False frees by (simp add: free_ppage_def Let_def)
  qed
qed

lemma free_loop_ok:
  "0 \<le> pg \<Longrightarrow> {pg..<pg + int n} \<inter> free_set s = {} \<Longrightarrow>
   \<exists>s'. free_loop s pg n = Inr s' \<and> free_set s' = free_set s \<union> {pg..<pg + int n} \<and>
     iflag s' = iflag s \<and> bmsize s' = bmsize s \<and> (page_inv s \<longrightarrow> page_inv s')"
proof (induction n arbitrary: s pg)
  case (Suc n)
  have split: "{pg..<pg + int (Suc n)} = insert pg {pg + 1..<pg + 1 + int n}" by auto
  from Suc.prems have "pg \<notin> free_set s" unfolding split by blast
  with free_ppage_cases [OF Suc.prems(1), of s] obtain t where
    t: "free_ppage s pg = Inr t" "free_set t = insert pg (free_set s)" "iflag t = iflag s"
      "bmsize t = bmsize s" "page_inv s \<longrightarrow> page_inv t"
    by (auto split: sum.splits)
  have "{pg + 1..<pg + 1 + int n} \<inter> free_set t = {}"
    using Suc.prems(2) t(2) unfolding split by auto
  from Suc.IH [OF _ this] Suc.prems(1) t show ?case
    unfolding split by auto
qed simp

inductive page_step :: "page_state \<Rightarrow> page_state \<Rightarrow> bool" where
  step_alloc: "1 \<le> count \<Longrightarrow> alloc_ppages s count area = Some (s', r) \<Longrightarrow> page_step s s'"
| step_range: "0 \<le> start \<Longrightarrow> alloc_ppage_range s start n = (s', r) \<Longrightarrow> page_step s s'"
| step_free: "0 \<le> pg \<Longrightarrow> free_ppages s pg n = Inr s' \<Longrightarrow> page_step s s'"

inductive page_steps :: "page_state \<Rightarrow> page_state \<Rightarrow> bool" where
  steps_refl: "page_steps s s"
| steps_step: "page_steps s t \<Longrightarrow> page_step t u \<Longrightarrow> page_steps s u"

lemma page_inv_alloc_range:
  "page_inv s \<Longrightarrow> 0 \<le> start \<Longrightarrow> page_inv (fst (alloc_ppage_range s start n))"
  by (simp add: alloc_ppage_range_def Let_def page_inv_mark_used)

lemma free_loop_inv: "page_inv s \<Longrightarrow> 0 \<le> pg \<Longrightarrow> free_loop s pg n = Inr s' \<Longrightarrow> page_inv s'"
proof (induction n arbitrary: s pg)
  case (Suc n)
  from Suc.prems obtain t where t: "free_ppage s pg = Inr t" "free_loop t (pg + 1) n = Inr s'"
    by (auto split: sum.splits)
  with free_ppage_cases [OF Suc.prems(2), of s] Suc.prems(1) have "page_inv t" by simp
  from Suc.IH [OF this _ t(2)] Suc.prems(2) show ?case by simp
qed simp

lemma page_step_inv: "page_step s s' \<Longrightarrow> page_inv s \<Longrightarrow> page_inv s'"
proof (induction rule: page_step.induct)
  case (step_alloc count s area s' r)
  then show ?case using ps.alloc_ok by blast
next
  case (step_range start s n s' r)
  then show ?case using page_inv_alloc_range [of s start n] by simp
next
  case (step_free pg s n s')
  then show ?case using free_loop_inv by (simp add: free_ppages_def)
qed

section \<open>The bitmap init_mem leaves\<close>

definition range_pages :: "u32 \<Rightarrow> mem_range \<Rightarrow> int set" where
  "range_pages mem_start r =
     (case clip_range mem_start r of None \<Rightarrow> {}
      | Some (start, sz, e) \<Rightarrow>
          {uint (addr_to_page start)..<uint (addr_to_page start) + uint (addr_to_page (sz + 4095))})"

lemma map_loop_free:
  "free_set (fst (map_loop ms rs s e)) = free_set s \<union> (\<Union>r \<in> set rs. range_pages ms r)"
proof (induction rs arbitrary: s e)
  case (Cons r rs)
  then show ?case
    by (auto simp: range_pages_def add_memory_def free_set_mark_free split: option.splits prod.splits)
qed simp

lemma map_loop_fields [simp]:
  "last_alloc_idx (fst (map_loop ms rs s e)) = last_alloc_idx s"
  "0 \<le> e \<Longrightarrow> 0 \<le> snd (map_loop ms rs s e)"
  by (induction rs arbitrary: s e) (auto simp: add_memory_def max_def split: option.splits)

fun map_end :: "u32 \<Rightarrow> mem_range list \<Rightarrow> int \<Rightarrow> int" where
  "map_end ms [] e = e"
| "map_end ms (r # rs) e =
     (case clip_range ms r of None \<Rightarrow> map_end ms rs e
      | Some (start, sz, fin) \<Rightarrow> map_end ms rs (max e (uint (addr_to_page fin))))"

lemma snd_map_loop: "snd (map_loop ms rs s e) = map_end ms rs e"
  by (induction rs arbitrary: s e) (auto split: option.splits)

lemma init_mem_cases:
  assumes "init_mem ms mp s = Inr s'"
  shows "last_alloc_idx s' = 0" "bmsize s' = map_end ms mp 0 div 32 * 4"
    and "\<And>q. 0 \<le> q \<Longrightarrow> q < 2 ^ 20 \<Longrightarrow> q \<in> free_set s' \<longleftrightarrow>
       uint (addr_to_page (ms + word_of_int (bmsize s') - 1)) < q \<and> q \<in> (\<Union>r \<in> set mp. range_pages ms r)"
proof -
  let ?s = "s\<lparr>last_alloc_idx := 0,
              bitmap := (\<lambda>i. if 0 \<le> i \<and> i < 32768 then 0xffffffff else bitmap s i)\<rparr>"
  let ?bs = "map_end ms mp 0 div 32 * 4"
  let ?top = "uint (addr_to_page (ms + word_of_int ?bs - 1))"
  define s1 where "s1 = fst (map_loop ms mp ?s 0)"
  then have ml: "map_loop ms mp ?s 0 = (s1, map_end ms mp 0)"
    by (simp add: prod_eq_iff snd_map_loop)
  have s': "s' = mark_range (s1\<lparr>bmsize := ?bs\<rparr>) 0 (nat (?top + 1)) USED"
    using assms ml by (simp add: init_mem_def Let_def split: if_splits)
  show "last_alloc_idx s' = 0" using s' ml map_loop_fields(1) [of ms mp ?s 0] by simp
  show bs: "bmsize s' = ?bs" using s' by simp
  fix q :: int assume q: "0 \<le> q" "q < 2 ^ 20"
  then have "bm_idx q < 32768" "0 \<le> bm_idx q" by (auto simp: bm_idx_def)
  then have "bitmap ?s (bm_idx q) = - 1" by (simp add: u32_max_eq)
  then have "\<not> is_free ?s q" by (simp add: is_free_iff)
  then have "q \<notin> free_set ?s" by (simp add: free_set_def)
  moreover from map_loop_free [of ms mp ?s 0] ml
  have "free_set s1 = free_set ?s \<union> (\<Union>r \<in> set mp. range_pages ms r)" by simp
  moreover have "int (nat (?top + 1)) = ?top + 1" by simp
  moreover have "free_set (s1\<lparr>bmsize := ?bs\<rparr>) = free_set s1" by (simp add: free_set_def)
  moreover have "free_set s' = free_set (s1\<lparr>bmsize := ?bs\<rparr>) - {0..<0 + int (nat (?top + 1))}"
    unfolding s' by (rule free_set_mark_used) simp
  ultimately have "q \<in> free_set s' \<longleftrightarrow> q \<in> (\<Union>r \<in> set mp. range_pages ms r) - {0..<?top + 1}"
    by (simp only: Un_iff Diff_iff) simp
  then show "q \<in> free_set s' \<longleftrightarrow> uint (addr_to_page (ms + word_of_int (bmsize s') - 1)) < q \<and>
      q \<in> (\<Union>r \<in> set mp. range_pages ms r)"
    unfolding bs using q(1) by auto
qed

section \<open>Properties\<close>

text \<open>A small machine for the witnesses: two words of bitmap, pages 3 to 63 free.\<close>

definition demo_pages :: page_state where
  "demo_pages = \<lparr>bitmap = (\<lambda>i. if i = 0 then 7 else 0), bmsize = 8, last_alloc_idx = 0, iflag = True\<rparr>"

lemma page_inv_demo: "page_inv demo_pages"
proof -
  have "last_alloc_idx demo_pages = 0" "bmsize demo_pages = 8" by (auto simp: demo_pages_def)
  then show ?thesis by (auto simp: page_inv_def)
qed

text \<open>C1: a heap allocation of one or more consecutive pages always returns; if it
  returns a page, that page starts the lowest run of \<open>count\<close> free pages, exactly
  that run becomes used, and if it returns \<open>-1\<close> no run that starts below the
  bitmap's limit was free and nothing changed. The hint invariant, the bitmap size
  and the interrupt flag are kept.\<close>

theorem alloc_ppages_first_fit:
  assumes "page_inv s" and "1 \<le> count"
  shows "\<exists>s' r. alloc_ppages s count MEM_HEAP = Some (s', r) \<and> alloc_effect s count s' r \<and>
    (\<forall>p. 0 \<le> p \<and> p < (if r = -1 then page_limit s else r) \<longrightarrow> \<not> {p..<p + count} \<subseteq> free_set s)"
  by (rule alloc_ppages_heap [OF assms(1) _ assms(2)]) (simp add: MEM_HEAP_def MEM_STACK_def)

theorem alloc_ppages_first_fit_witness:
  "\<exists>s' r. alloc_ppages demo_pages 4 MEM_HEAP = Some (s', r) \<and> alloc_effect demo_pages 4 s' r"
  using alloc_ppages_first_fit [OF page_inv_demo, of 4] by auto

text \<open>A stack allocation searches from the top: it always returns, and the page it
  returns starts the highest run of \<open>count\<close> free pages whose first page is below the
  limit; \<open>-1\<close> means that there is none.\<close>

theorem alloc_ppages_last_fit:
  assumes "page_inv s" and "1 \<le> count"
  shows "\<exists>s' r. alloc_ppages s count MEM_STACK = Some (s', r) \<and> alloc_effect s count s' r \<and>
    (\<forall>p. (if r = -1 then 0 \<le> p else r < p) \<and> p < page_limit s \<longrightarrow> \<not> {p..<p + count} \<subseteq> free_set s)"
  by (rule alloc_ppages_stack [OF assms])

theorem alloc_ppages_last_fit_witness:
  "\<exists>s' r. alloc_ppages demo_pages 4 MEM_STACK = Some (s', r) \<and> alloc_effect demo_pages 4 s' r"
  using alloc_ppages_last_fit [OF page_inv_demo, of 4] by auto

text \<open>C12: whatever sequence of allocations, range allocations and frees runs, the
  guarantee of the comment on \<open>last_alloc_idx\<close> holds after it: no page below the
  hinted word is free.\<close>

theorem page_steps_keep_hint:
  assumes "page_steps s t" and "page_inv s"
  shows "page_inv t"
  using assms by (induction rule: page_steps.induct) (auto intro: page_step_inv)

theorem page_steps_keep_hint_witness:
  "\<exists>t. page_steps demo_pages t \<and> t \<noteq> demo_pages \<and> page_inv t"
proof -
  let ?t = "fst (alloc_ppage_range demo_pages 40 2)"
  have "page_step demo_pages ?t"
    by (rule step_range [of 40 _ 2 _ "snd (alloc_ppage_range demo_pages 40 2)"]) simp_all
  then have "page_steps demo_pages ?t" using page_steps.intros by blast
  moreover have "?t \<noteq> demo_pages"
  proof
    assume "?t = demo_pages"
    then have "bitmap ?t 1 = bitmap demo_pages 1" by simp
    then show False by code_simp
  qed
  ultimately show ?thesis using page_steps_keep_hint page_inv_demo by blast
qed

text \<open>Freeing what an allocation returned gives back the pages it took: no panic,
  the same set of free pages as before, the interrupt flag and the invariant kept.\<close>

theorem free_ppages_after_alloc:
  assumes "page_inv s" and "1 \<le> count" and "alloc_ppages s count area = Some (s', pg)" and "pg \<noteq> -1"
  shows "\<exists>t. free_ppages s' pg count = Inr t \<and> free_set t = free_set s \<and>
    iflag t = iflag s \<and> page_inv t"
proof -
  from alloc_ppages_effect [OF assms(1,2), of area] assms(3,4)
  have eff: "0 \<le> pg" "{pg..<pg + count} \<subseteq> free_set s" "free_set s' = free_set s - {pg..<pg + count}"
      "iflag s' = iflag s" "page_inv s'"
    by (auto simp: alloc_effect_def)
  moreover have n: "pg + int (nat count) = pg + count" using assms(2) by simp
  ultimately show ?thesis
    using free_loop_ok [of pg "nat count" s', unfolded n] by (auto simp: free_ppages_def)
qed

theorem free_ppages_after_alloc_witness:
  "\<exists>s' pg t. alloc_ppages demo_pages 4 MEM_HEAP = Some (s', pg) \<and> free_ppages s' pg 4 = Inr t \<and>
    free_set t = free_set demo_pages"
proof -
  have run: "run_free demo_pages 3 4" unfolding range_free_iff [symmetric] by code_simp
  from alloc_ppages_heap [OF page_inv_demo, of MEM_HEAP 4] obtain s' pg
    where a: "alloc_ppages demo_pages 4 MEM_HEAP = Some (s', pg)"
      and none: "\<forall>p. 0 \<le> p \<and> p < (if pg = -1 then page_limit demo_pages else pg) \<longrightarrow>
        \<not> {p..<p + 4} \<subseteq> free_set demo_pages"
    by (auto simp: MEM_HEAP_def MEM_STACK_def)
  have "pg \<noteq> -1"
    using none [THEN spec, of 3] run run_free_subset [of 3 demo_pages 4]
    by (auto simp: page_limit_def demo_pages_def)
  from free_ppages_after_alloc [OF page_inv_demo _ a this] a show ?thesis by auto
qed

text \<open>After \<open>init_mem\<close>, of the 2^20 pages exactly those are free that a range of
  the boot memory map contributes and that lie above the last page of the kernel image
  and the allocation bitmap.\<close>

theorem init_mem_free_pages:
  assumes "init_mem mem_start mp s = Inr s'" and "0 \<le> q" and "q < 2 ^ 20"
  shows "q \<in> free_set s' \<longleftrightarrow>
      uint (addr_to_page (mem_start + word_of_int (bmsize s') - 1)) < q \<and>
      q \<in> (\<Union>r \<in> set mp. range_pages mem_start r)"
  by (rule init_mem_cases(3) [OF assms])

definition demo_map :: "mem_range list" where
  "demo_map = [\<lparr>mr_start = 0, mr_size = 0x9fc00\<rparr>, \<lparr>mr_start = 0x100000, mr_size = 0x100000\<rparr>]"

lemma init_mem_demo: "\<exists>s'. init_mem 0x110000 demo_map s = Inr s'"
  by (simp add: init_mem_def demo_map_def MAX_MAP_SIZE_def Let_def split: prod.split)

theorem init_mem_free_pages_witness:
  "\<exists>s'. init_mem 0x110000 demo_map demo_pages = Inr s' \<and> 0x10f \<notin> free_set s' \<and> 0x180 \<in> free_set s'"
proof -
  obtain s' where s': "init_mem 0x110000 demo_map demo_pages = Inr s'" using init_mem_demo by blast
  have bs: "bmsize s' = 64"
    unfolding init_mem_cases(2) [OF s'] by code_simp
  have "(0x180::int) \<in> range_pages 0x110000 \<lparr>mr_start = 0x100000, mr_size = 0x100000\<rparr>" by code_simp
  then show ?thesis
    using init_mem_free_pages [where q = "0x180", OF s'] init_mem_free_pages [where q = "0x10f", OF s'] bs s'
    by (simp add: demo_map_def addr_to_page_def)
qed

lemma init_mem_inv: "init_mem ms mp s = Inr s' \<Longrightarrow> 32 \<le> map_end ms mp 0 \<Longrightarrow> page_inv s'"
  using init_mem_cases(1,2) [of ms mp s s'] by (auto simp: page_inv_def)

text \<open>\<open>init_mem\<close> moves the start of a range that straddles the end of the kernel
  image but keeps its size, so it also frees as many pages beyond the end of the range
  (a code bug). With RAM up to 0x200000 and a kernel image that ends at 0x110000, the
  first stack allocation of two pages returns page 0x1ff and with it page 0x200, which
  does not exist.\<close>

theorem init_mem_frees_beyond_ram:
  assumes "init_mem 0x110000 demo_map s = Inr s'"
  shows "0x200 \<in> free_set s' \<and> (\<exists>t. alloc_ppages s' 2 MEM_STACK = Some (t, 0x1ff))"
proof -
  have bs: "bmsize s' = 64"
    unfolding init_mem_cases(2) [OF assms] by code_simp
  have fr: "q \<in> free_set s'" if "0x1ff \<le> q" "q \<le> 0x200" for q
  proof -
    have "range_pages 0x110000 \<lparr>mr_start = 0x100000, mr_size = 0x100000\<rparr> = {0x110..<0x210}"
      by (simp add: range_pages_def clip_range_def addr_to_page_def)
    then show ?thesis
      using init_mem_cases(3) [OF assms, of q] that bs by (simp add: demo_map_def addr_to_page_def)
  qed
  have "map_end 0x110000 demo_map 0 = 0x200" by code_simp
  with init_mem_inv [OF assms] have "page_inv s'" by simp
  from alloc_ppages_stack [OF this, of 2] obtain t r
    where t: "alloc_ppages s' 2 MEM_STACK = Some (t, r)" and eff: "alloc_effect s' 2 t r"
      and last: "\<forall>p. (if r = -1 then 0 \<le> p else r < p) \<and> p < page_limit s' \<longrightarrow>
        \<not> {p..<p + 2} \<subseteq> free_set s'" by auto
  have lim: "page_limit s' = 0x200" by (simp add: page_limit_def bs)
  have two: "{0x1ff..<0x1ff + 2::int} \<subseteq> free_set s'" using fr by force
  have "r \<noteq> -1" "\<not> r < 0x1ff"
    using last [THEN spec, of "0x1ff"] two lim by (simp_all split: if_splits)
  moreover have "r < 0x200" using eff \<open>r \<noteq> -1\<close> lim by (simp add: alloc_effect_def)
  ultimately have "r = 0x1ff" by simp
  with t fr show ?thesis by auto
qed

theorem init_mem_frees_beyond_ram_witness:
  "\<exists>s' t. init_mem 0x110000 demo_map demo_pages = Inr s' \<and> alloc_ppages s' 2 MEM_STACK = Some (t, 0x1ff)"
  using init_mem_demo [of demo_pages] init_mem_frees_beyond_ram by blast

end
