(* ===== verification/Ring.thy ===== *)
theory Ring
  imports Prelude
begin

text \<open>
  Ring buffers: the keyboard's 64 keys and the serial ports' 256 characters are arrays
  with a read and a write index that wrap around, empty when the indices meet, and both
  drop the oldest element when they overflow. The lemmas on \<open>ring_list\<close> relate the
  array to the list of elements in it; the locale is the interface the readers of the
  two drivers rely on.
\<close>

definition ring_list :: "'a list \<Rightarrow> nat \<Rightarrow> nat \<Rightarrow> 'a list" where
  "ring_list buf r w =
     map (\<lambda>i. buf ! ((r + i) mod length buf)) [0..<(w + length buf - r) mod length buf]"

definition ring_ok :: "'a list \<Rightarrow> nat \<Rightarrow> nat \<Rightarrow> bool" where
  "ring_ok buf r w \<longleftrightarrow> 2 \<le> length buf \<and> r < length buf \<and> w < length buf"

lemma ring_length: "length (ring_list buf r w) = (w + length buf - r) mod length buf"
  by (simp add: ring_list_def)

lemma ring_length_less:
  assumes "ring_ok buf r w"
  shows "length (ring_list buf r w) < length buf"
proof -
  have "0 < length buf" using assms unfolding ring_ok_def by linarith
  then show ?thesis unfolding ring_length by (rule mod_less_divisor)
qed

lemma wrap_mod:
  fixes n :: nat
  assumes "r < n" "i < n"
  shows "(r + i) mod n = (if r + i < n then r + i else r + i - n)"
proof (cases "r + i < n")
  case False
  then have "(r + i) mod n = (r + i - n) mod n" by (intro le_mod_geq) (rule leI)
  moreover have "r + i - n < n" using assms by linarith
  ultimately show ?thesis using False by (simp only: mod_less if_False)
qed (simp only: mod_less if_True)

lemma ring_count:
  assumes "ring_ok buf r w"
  shows "(w + length buf - r) mod length buf = (if r \<le> w then w - r else w + length buf - r)"
proof (cases "r \<le> w")
  case True
  then have "w + length buf - r = (w - r) + length buf" by linarith
  moreover have "w - r < length buf" using assms unfolding ring_ok_def by linarith
  ultimately show ?thesis using True by (simp only: mod_add_self2 mod_less if_True)
next
  case False
  then have "w + length buf - r < length buf" using assms unfolding ring_ok_def by linarith
  then show ?thesis using False by (simp only: mod_less if_False)
qed

lemma ring_empty_iff:
  assumes "ring_ok buf r w"
  shows "ring_list buf r w = [] \<longleftrightarrow> r = w"
proof -
  have "ring_list buf r w = [] \<longleftrightarrow> (w + length buf - r) mod length buf = 0"
    by (simp add: ring_list_def)
  also have "\<dots> \<longleftrightarrow> r = w"
    unfolding ring_count [OF assms] using assms by (simp add: ring_ok_def) linarith
  finally show ?thesis .
qed

lemma ring_advance:
  assumes "ring_ok buf r w"
  shows "Suc x mod length buf < length buf"
proof -
  have "0 < length buf" using assms unfolding ring_ok_def by linarith
  then show ?thesis by (rule mod_less_divisor)
qed

lemma ring_full_iff:
  assumes "ring_ok buf r w"
  shows "Suc w mod length buf = r \<longleftrightarrow> length (ring_list buf r w) = length buf - 1"
  using assms unfolding ring_length ring_count [OF assms]
  by (auto simp: ring_ok_def mod_if split: if_splits)

lemma ring_get:
  assumes "ring_ok buf r w" "r \<noteq> w"
  shows "ring_list buf r w = buf ! r # ring_list buf (Suc r mod length buf) w"
proof (rule nth_equalityI)
  let ?n = "length buf"
  have ok': "ring_ok buf (Suc r mod ?n) w" using assms(1) ring_advance [OF assms(1), of r] by (simp add: ring_ok_def)
  have len: "length (ring_list buf r w) = Suc (length (ring_list buf (Suc r mod ?n) w))"
    using assms unfolding ring_length ring_count [OF assms(1)] ring_count [OF ok']
    by (auto simp: ring_ok_def mod_if split: if_splits)
  then show "length (ring_list buf r w) = length (buf ! r # ring_list buf (Suc r mod ?n) w)" by simp
  fix i assume i: "i < length (ring_list buf r w)"
  show "ring_list buf r w ! i = (buf ! r # ring_list buf (Suc r mod ?n) w) ! i"
  proof (cases i)
    case 0
    then show ?thesis using i assms(1) by (simp add: ring_list_def ring_ok_def)
  next
    case (Suc j)
    then have "j < length (ring_list buf (Suc r mod ?n) w)" using i len by simp
    then show ?thesis using i Suc by (simp add: ring_list_def mod_add_left_eq)
  qed
qed

lemma ring_put:
  assumes "ring_ok buf r w" "Suc w mod length buf \<noteq> r"
  shows "ring_list (buf[w := x]) r (Suc w mod length buf) = ring_list buf r w @ [x]"
proof (rule nth_equalityI)
  let ?n = "length buf"
  have ok': "ring_ok (buf[w := x]) r (Suc w mod ?n)"
    using assms(1) ring_advance [OF assms(1), of w] by (simp add: ring_ok_def)
  have len: "length (ring_list (buf[w := x]) r (Suc w mod ?n)) = Suc (length (ring_list buf r w))"
    using assms unfolding ring_length ring_count [OF assms(1)] ring_count [OF ok']
    by (auto simp: ring_ok_def mod_if split: if_splits)
  then show "length (ring_list (buf[w := x]) r (Suc w mod ?n)) = length (ring_list buf r w @ [x])" by simp
  fix i assume i: "i < length (ring_list (buf[w := x]) r (Suc w mod ?n))"
  have cnt: "length (ring_list buf r w) = (if r \<le> w then w - r else w + ?n - r)"
    unfolding ring_length by (rule ring_count [OF assms(1)])
  show "ring_list (buf[w := x]) r (Suc w mod ?n) ! i = (ring_list buf r w @ [x]) ! i"
  proof (cases "i < length (ring_list buf r w)")
    case True
    then have "(r + i) mod ?n \<noteq> w"
      using assms(1) unfolding cnt
      by (subst wrap_mod) (auto simp: ring_ok_def split: if_splits)
    with True i show ?thesis by (simp add: ring_list_def nth_append)
  next
    case False
    then have i': "i = length (ring_list buf r w)" using i len by simp
    then have "(r + i) mod ?n = w"
      using assms(1) unfolding cnt
      by (subst wrap_mod) (auto simp: ring_ok_def split: if_splits)
    with i' i assms(1) show ?thesis by (simp add: ring_list_def nth_append ring_ok_def)
  qed
qed

lemma ring_put_full:
  assumes "ring_ok buf r w" "Suc w mod length buf = r"
  shows "ring_list (buf[w := x]) (Suc r mod length buf) r = tl (ring_list buf r w) @ [x]"
proof -
  let ?r' = "Suc r mod length buf"
  have ne: "r \<noteq> w" and ok': "ring_ok buf ?r' w" and nf: "Suc w mod length buf \<noteq> ?r'"
    using assms by (auto simp: ring_ok_def mod_if split: if_splits)
  have "ring_list (buf[w := x]) ?r' r = ring_list buf ?r' w @ [x]"
    using ring_put [OF ok' nf, of x] assms(2) by simp
  then show ?thesis using ring_get [OF assms(1) ne] by simp
qed

lemma ring_frame:
  assumes "ring_ok buf r w" "r' < length buf" "Suc r' mod length buf = r" "r' \<noteq> w"
  shows "ring_list (buf[r' := x]) r w = ring_list buf r w"
  unfolding ring_list_def length_list_update
proof (rule map_cong [OF refl])
  let ?n = "length buf"
  fix i assume i: "i \<in> set [0..<(w + ?n - r) mod ?n]"
  have rn: "r < ?n" "w < ?n" using assms(1) unfolding ring_ok_def by simp_all
  have i': "i < (if r \<le> w then w - r else w + ?n - r)"
    using i ring_count [OF assms(1)] by simp
  have in': "i < ?n" using i' rn by (simp split: if_splits)
  have "(r + i) mod ?n \<noteq> r'"
  proof (cases "Suc r' = ?n")
    case True
    then have "r = 0" using assms(3) by simp
    then show ?thesis using True i' rn in' assms(4) by simp
  next
    case False
    then have "Suc r' < ?n" using assms(2) by linarith
    then have r: "r = Suc r'" using assms(3) by (simp only: mod_less)
    show ?thesis
    proof (cases "r + i < ?n")
      case True
      then show ?thesis using r by (simp only: mod_less)
    next
      case False
      then have "(r + i) mod ?n = r + i - ?n" using wrap_mod [OF rn(1) in'] by (simp only: if_False)
      then show ?thesis using False in' r i' rn assms(4) by (simp split: if_splits)
    qed
  qed
  then show "buf[r' := x] ! ((r + i) mod ?n) = buf ! ((r + i) mod ?n)" by simp
qed

lemma ring_unget:
  assumes "ring_ok buf r w" "r' < length buf" "Suc r' mod length buf = r" "r' \<noteq> w"
  shows "ring_list (buf[r' := x]) r' w = x # ring_list buf r w"
proof -
  have "ring_ok (buf[r' := x]) r' w" using assms(1,2) by (simp add: ring_ok_def)
  from ring_get [OF this assms(4)] show ?thesis using assms(2,3) ring_frame [OF assms] by simp
qed

section \<open>The interface\<close>

text \<open>\<open>valid\<close> are the elements the reader can tell from its answer for an empty buffer.\<close>

locale ring_buffer =
  fixes put :: "'a \<Rightarrow> 's \<Rightarrow> 's"
    and get :: "'s \<Rightarrow> 'a option \<times> 's"
    and queue :: "'s \<Rightarrow> 'a list"
    and cap :: nat
    and ok :: "'s \<Rightarrow> bool"
    and valid :: "'a \<Rightarrow> bool"
  assumes cap_pos: "0 < cap"
    and queue_bounded: "ok s \<Longrightarrow> length (queue s) \<le> cap"
    and put_ok: "ok s \<Longrightarrow> valid x \<Longrightarrow> ok (put x s)"
    and put_queue: "ok s \<Longrightarrow>
      queue (put x s) = (if length (queue s) < cap then queue s @ [x] else tl (queue s) @ [x])"
    and get_ok: "ok s \<Longrightarrow> ok (snd (get s))"
    and get_empty: "ok s \<Longrightarrow> queue s = [] \<Longrightarrow> get s = (None, s)"
    and get_queue: "ok s \<Longrightarrow> queue s = x # xs \<Longrightarrow> fst (get s) = Some x \<and> queue (snd (get s)) = xs"
begin

fun drain :: "nat \<Rightarrow> 's \<Rightarrow> 'a list" where
  "drain 0 s = []"
| "drain (Suc n) s = (case get s of (None, s') \<Rightarrow> [] | (Some x, s') \<Rightarrow> x # drain n s')"

lemma put_last:
  assumes "ok s"
  shows "queue (put x s) = drop (Suc (length (queue s)) - cap) (queue s @ [x])"
proof (cases "length (queue s) < cap")
  case False
  then have "length (queue s) = cap" using queue_bounded [OF assms] by simp
  then show ?thesis using put_queue [OF assms, of x] cap_pos by (cases "queue s") auto
qed (use put_queue [OF assms, of x] in simp)

lemma puts_queue:
  "ok s \<Longrightarrow> list_all valid xs \<Longrightarrow> ok (fold put xs s) \<and>
     queue (fold put xs s) = drop (length (queue s @ xs) - cap) (queue s @ xs)"
proof (induction xs arbitrary: s)
  case Nil
  then show ?case using queue_bounded [of s] by simp
next
  case (Cons x xs)
  have len: "length (queue (put x s)) = min cap (Suc (length (queue s)))"
    using put_queue [OF Cons.prems(1), of x] queue_bounded [OF Cons.prems(1)] cap_pos by simp
  have "ok (put x s)" "list_all valid xs" using Cons.prems put_ok by auto
  from Cons.IH [OF this] show ?case
    using put_last [OF Cons.prems(1), of x] len queue_bounded [OF Cons.prems(1)] cap_pos
    by (cases "length (queue s) < cap") (auto simp: drop_Cons')
qed

lemma drain_queue: "ok s \<Longrightarrow> drain n s = take n (queue s)"
proof (induction n arbitrary: s)
  case (Suc n)
  show ?case
  proof (cases "queue s")
    case Nil
    then show ?thesis using get_empty [OF Suc.prems] by simp
  next
    case (Cons x xs)
    then show ?thesis
      using get_queue [OF Suc.prems Cons] Suc.IH [OF get_ok [OF Suc.prems]]
      by (auto split: prod.splits)
  qed
qed simp

end

end
