(* ===== verification/Hw.thy ===== *)
theory Hw
  imports Prelude "HOL-Library.State_Monad" "HOL-Library.Monad_Syntax"
begin

text \<open>
  Port input and output (\<open>src/asmops.h\<close>). A machine keeps the log of the accesses made so
  far, newest first, and three oracles for the devices behind the ports: what a read
  returns may depend on every access before it, reads included. The drivers run in the
  state monad over records that extend the machine, so that one driver's code can call
  another's; \<open>intr_on\<close> is the interrupt flag of \<open>eflags\<close>.
\<close>

datatype io_event = Out8 u16 u8 | Out16 u16 u16 | Out32 u16 u32 | In8 u16 | In16 u16 | In32 u16

record machine =
  io_log :: "io_event list"
  dev8 :: "io_event list \<Rightarrow> u16 \<Rightarrow> u8"
  dev16 :: "io_event list \<Rightarrow> u16 \<Rightarrow> u16"
  dev32 :: "io_event list \<Rightarrow> u16 \<Rightarrow> u32"
  intr_on :: bool

abbreviation ret :: "'a \<Rightarrow> ('s, 'a) state" where "ret \<equiv> State_Monad.return"

definition gets :: "('s \<Rightarrow> 'a) \<Rightarrow> ('s, 'a) state" where "gets f = State (\<lambda>s. (f s, s))"

definition modify :: "('s \<Rightarrow> 's) \<Rightarrow> ('s, unit) state" where "modify f = State (\<lambda>s. ((), f s))"

lemma run_gets [simp]: "run_state (gets f) s = (f s, s)"
  by (simp add: gets_def)

lemma run_modify [simp]: "run_state (modify f) s = ((), f s)"
  by (simp add: modify_def)

definition exec :: "('s, 'a) state \<Rightarrow> 's \<Rightarrow> 's" where "exec p s = snd (run_state p s)"

definition result_of :: "('s, 'a) state \<Rightarrow> 's \<Rightarrow> 'a" where "result_of p s = fst (run_state p s)"

lemma exec_bind: "exec (p \<bind> q) s = exec (q (result_of p s)) (exec p s)"
  by (simp add: exec_def result_of_def split: prod.splits)

lemma result_bind: "result_of (p \<bind> q) s = result_of (q (result_of p s)) (exec p s)"
  by (simp add: exec_def result_of_def split: prod.splits)

lemma exec_base [simp]: "exec (ret x) s = s" "exec (gets f) s = s" "exec (modify g) s = g s"
  by (simp_all add: exec_def)

lemma result_base [simp]: "result_of (ret x) s = x" "result_of (gets f) s = f s"
  by (simp_all add: result_of_def)

lemma run_if [simp]:
  "exec (if b then p else q) s = (if b then exec p s else exec q s)"
  "result_of (if b then p else q) s = (if b then result_of p s else result_of q s)"
  by simp_all

lemmas run_simps = exec_bind result_bind

section \<open>Ports\<close>

definition outb :: "u8 \<Rightarrow> u16 \<Rightarrow> ('z machine_scheme, unit) state" where
  "outb src port = modify (\<lambda>m. m\<lparr>io_log := Out8 port src # io_log m\<rparr>)"

definition outw :: "u16 \<Rightarrow> u16 \<Rightarrow> ('z machine_scheme, unit) state" where
  "outw src port = modify (\<lambda>m. m\<lparr>io_log := Out16 port src # io_log m\<rparr>)"

definition outl :: "u32 \<Rightarrow> u16 \<Rightarrow> ('z machine_scheme, unit) state" where
  "outl src port = modify (\<lambda>m. m\<lparr>io_log := Out32 port src # io_log m\<rparr>)"

definition inb :: "u16 \<Rightarrow> ('z machine_scheme, u8) state" where
  "inb port = do {
     v \<leftarrow> gets (\<lambda>m. dev8 m (io_log m) port);
     modify (\<lambda>m. m\<lparr>io_log := In8 port # io_log m\<rparr>);
     ret v }"

definition inw :: "u16 \<Rightarrow> ('z machine_scheme, u16) state" where
  "inw port = do {
     v \<leftarrow> gets (\<lambda>m. dev16 m (io_log m) port);
     modify (\<lambda>m. m\<lparr>io_log := In16 port # io_log m\<rparr>);
     ret v }"

definition inl :: "u16 \<Rightarrow> ('z machine_scheme, u32) state" where
  "inl port = do {
     v \<leftarrow> gets (\<lambda>m. dev32 m (io_log m) port);
     modify (\<lambda>m. m\<lparr>io_log := In32 port # io_log m\<rparr>);
     ret v }"

definition enable_intr :: "('z machine_scheme, unit) state" where
  "enable_intr = modify (\<lambda>m. m\<lparr>intr_on := True\<rparr>)"

definition disable_intr :: "('z machine_scheme, unit) state" where
  "disable_intr = modify (\<lambda>m. m\<lparr>intr_on := False\<rparr>)"

definition get_intr_flag :: "('z machine_scheme, bool) state" where
  "get_intr_flag = gets intr_on"

definition set_intr_flag :: "bool \<Rightarrow> ('z machine_scheme, unit) state" where
  "set_intr_flag f = modify (\<lambda>m. m\<lparr>intr_on := f\<rparr>)"

text \<open>\<open>iodelay()\<close> writes to the unused port 0x80, for about a microsecond.\<close>

definition iodelay :: "('z machine_scheme, unit) state" where
  "iodelay = outb 0 0x80"

fun iodelays :: "nat \<Rightarrow> ('z machine_scheme, unit) state" where
  "iodelays 0 = ret ()"
| "iodelays (Suc n) = do { iodelay; iodelays n }"

text \<open>A loop that polls a port at most \<open>n\<close> times, with a delay after each read that fails.\<close>

fun poll_port :: "nat \<Rightarrow> u16 \<Rightarrow> (u8 \<Rightarrow> bool) \<Rightarrow> ('z machine_scheme, bool) state" where
  "poll_port 0 port P = ret False"
| "poll_port (Suc n) port P = do {
     v \<leftarrow> inb port;
     if P v then ret True else do { iodelay; poll_port n port P } }"

section \<open>What an access does to the machine\<close>

text \<open>Every operation on the ports only adds to the log: \<open>logs\<close> is the machine after some
  accesses, and the drivers' own fields are left alone.\<close>

definition logs :: "io_event list \<Rightarrow> 'z machine_scheme \<Rightarrow> 'z machine_scheme" where
  "logs es m = m\<lparr>io_log := es @ io_log m\<rparr>"

lemma logs_simps [simp]:
  "logs [] m = m" "logs es (logs es' m) = logs (es @ es') m"
  "io_log (logs es m) = es @ io_log m" "dev8 (logs es m) = dev8 m"
  "dev16 (logs es m) = dev16 m" "dev32 (logs es m) = dev32 m" "intr_on (logs es m) = intr_on m"
  "machine.more (logs es m) = machine.more m"
  by (simp_all add: logs_def)

lemma exec_out [simp]:
  "exec (outb v p) m = logs [Out8 p v] m" "exec (outw w p) m = logs [Out16 p w] m"
  "exec (outl d p) m = logs [Out32 p d] m" "exec iodelay m = logs [Out8 0x80 0] m"
  by (simp_all add: outb_def outw_def outl_def iodelay_def logs_def)

lemma exec_in [simp]:
  "exec (inb p) m = logs [In8 p] m" "exec (inw p) m = logs [In16 p] m" "exec (inl p) m = logs [In32 p] m"
  by (simp_all add: inb_def inw_def inl_def logs_def run_simps)

lemma result_in [simp]:
  "result_of (inb p) m = dev8 m (io_log m) p" "result_of (inw p) m = dev16 m (io_log m) p"
  "result_of (inl p) m = dev32 m (io_log m) p"
  by (simp_all add: inb_def inw_def inl_def run_simps)

lemma exec_intr [simp]:
  "exec enable_intr m = m\<lparr>intr_on := True\<rparr>" "exec disable_intr m = m\<lparr>intr_on := False\<rparr>"
  "exec get_intr_flag m = m" "result_of get_intr_flag m = intr_on m"
  "exec (set_intr_flag f) m = m\<lparr>intr_on := f\<rparr>"
  by (simp_all add: enable_intr_def disable_intr_def get_intr_flag_def set_intr_flag_def)

lemma exec_iodelays [simp]: "exec (iodelays n) m = logs (replicate n (Out8 0x80 0)) m"
  by (induction n arbitrary: m) (simp_all add: run_simps replicate_append_same)

definition only_logs :: "('z machine_scheme, 'a) state \<Rightarrow> bool" where
  "only_logs p \<longleftrightarrow> (\<forall>m. \<exists>es. exec p m = logs es m)"

lemma only_logsE:
  assumes "only_logs p"
  obtains es where "exec p m = logs es m"
  using assms by (auto simp: only_logs_def)

lemma only_logs_bind [intro]:
  assumes "only_logs p" "\<And>x. only_logs (q x)"
  shows "only_logs (p \<bind> q)"
  unfolding only_logs_def run_simps
proof
  fix m
  obtain es where es: "exec p m = logs es m" using assms(1) by (rule only_logsE)
  obtain es' where "exec (q (result_of p m)) (logs es m) = logs es' (logs es m)"
    using assms(2) by (rule only_logsE)
  then show "\<exists>es. exec (q (result_of p m)) (exec p m) = logs es m"
    using es by (simp add: exI [of _ "es' @ es"])
qed

lemma only_logs_base [intro, simp]:
  "only_logs (ret x)" "only_logs (gets f)" "only_logs (outb v p)" "only_logs (outw w p)"
  "only_logs (outl d p)" "only_logs (inb p)" "only_logs (inw p)" "only_logs (inl p)"
  "only_logs iodelay" "only_logs (iodelays n)"
  unfolding only_logs_def by (simp_all, (metis logs_simps(1))+)

lemma only_logs_if [intro]: "only_logs p \<Longrightarrow> only_logs q \<Longrightarrow> only_logs (if b then p else q)"
  by simp

lemma only_logs_poll [intro, simp]: "only_logs (poll_port n port P)"
  by (induction n) auto

text \<open>The port writes of a log, oldest first.\<close>

fun writes :: "io_event list \<Rightarrow> (u16 \<times> u8) list" where
  "writes [] = []"
| "writes (Out8 p v # es) = writes es @ [(p, v)]"
| "writes (e # es) = writes es"

lemma writes_append: "writes (es @ es') = writes es' @ writes es"
  by (induction es rule: writes.induct) auto

text \<open>How often a log reads a port.\<close>

definition reads :: "u16 \<Rightarrow> io_event list \<Rightarrow> nat" where "reads p es = length (filter ((=) (In8 p)) es)"

lemma reads_simps [simp]: "reads p [] = 0" "reads p (e # es) = (if e = In8 p then 1 else 0) + reads p es" "reads p (es @ es') = reads p es + reads p es'"
  by (auto simp: reads_def)

section \<open>What a driver writes\<close>

text \<open>The writes that reach a device, the delay port's left out.\<close>

definition cmds :: "io_event list \<Rightarrow> (u16 \<times> u8) list" where
  "cmds es = filter (\<lambda>w. fst w \<noteq> 0x80) (writes es)"

lemma cmds_append: "cmds (es @ es') = cmds es' @ cmds es"
  by (simp add: cmds_def writes_append)

lemma writes_replicate: "writes (replicate n (Out8 p v)) = replicate n (p, v)"
  by (induction n) (simp_all add: replicate_append_same)

lemma cmds_delays [simp]: "cmds (replicate n (Out8 0x80 v)) = []"
  by (simp add: cmds_def writes_replicate)

lemma cmds_simps [simp]: "cmds [] = []" "cmds [In8 p] = []" "cmds [Out8 0x80 v] = []"
  "p \<noteq> 0x80 \<Longrightarrow> cmds [Out8 p v] = [(p, v)]"
  by (simp_all add: cmds_def)

definition does :: "('z machine_scheme, 'a) state \<Rightarrow> (u16 \<times> u8) list \<Rightarrow> 'z machine_scheme \<Rightarrow> bool" where
  "does p cs m \<longleftrightarrow> (\<exists>es. exec p m = logs es m \<and> cmds es = cs)"

lemma does_bind:
  assumes "does p cs m" "does (q (result_of p m)) cs' (exec p m)"
  shows "does (p \<bind> q) (cs @ cs') m"
proof -
  obtain es where es: "exec p m = logs es m" "cmds es = cs" using assms(1) by (auto simp: does_def)
  obtain es' where "exec (q (result_of p m)) (logs es m) = logs es' (logs es m)" "cmds es' = cs'"
    using assms(2) es(1) by (auto simp: does_def)
  then have "exec (p \<bind> q) m = logs (es' @ es) m" "cmds (es' @ es) = cs @ cs'"
    using es by (simp_all add: run_simps cmds_append)
  then show ?thesis unfolding does_def by blast
qed

lemma does_ret: "does (ret x) [] m"
  by (simp add: does_def exI [of _ "[]"])

lemma does_outb: "p \<noteq> 0x80 \<Longrightarrow> does (outb v p) [(p, v)] m"
  by (simp add: does_def exI [of _ "[Out8 p v]"])

lemma does_inb: "does (inb p) [] m"
  by (simp add: does_def exI [of _ "[In8 p]"])

lemma does_iodelay: "does iodelay [] m"
  by (simp add: does_def exI [of _ "[Out8 0x80 0]"])

lemma does_iodelays: "does (iodelays n) [] m"
  by (simp add: does_def exI [of _ "replicate n (Out8 0x80 0)"])

lemma does_silent: "does p [] m \<Longrightarrow> does (q (result_of p m)) cs (exec p m) \<Longrightarrow> does (p \<bind> q) cs m"
  using does_bind [of p "[]" m q cs] by simp

lemma does_poll: "does (poll_port n port P) [] m"
proof (induction n arbitrary: m)
  case (Suc n)
  show ?case by (auto intro!: does_silent does_inb does_ret does_iodelay Suc.IH)
qed (simp add: does_ret)

lemma does_unique: "does p cs m \<Longrightarrow> exec p m = logs es m \<Longrightarrow> cmds es = cs"
  by (auto simp: does_def logs_def dest!: arg_cong [of _ _ io_log])

end
