(* ===== verification/Keyboard.thy ===== *)
theory Keyboard
  imports Ring Hw
begin

text \<open>
  The keyboard (\<open>src/keyb.c\<close>, \<open>keyb.h\<close>, \<open>kbscan.h\<close>, \<open>kbregs.h\<close>): the 8042 controller's
  handshake, the interrupt handler that turns scancode set 1 bytes into keys, and the
  ring buffer and key state table it fills. The header relates the handler to a decoder
  of the byte stream.
\<close>

section \<open>The controller\<close>

definition KB_DATA_PORT :: u16 where "KB_DATA_PORT = 0x60"
definition KB_CMD_PORT :: u16 where "KB_CMD_PORT = 0x64"
definition KB_STATUS_PORT :: u16 where "KB_STATUS_PORT = 0x64"
definition KB_ACK :: u8 where "KB_ACK = 0xfa"
definition KB_STAT_OUTBUF_FULL :: u8 where "KB_STAT_OUTBUF_FULL = 0x01"
definition KB_STAT_INBUF_FULL :: u8 where "KB_STAT_INBUF_FULL = 0x02"
definition KB_STAT_AUX :: u8 where "KB_STAT_AUX = 0x20"
definition KB_CMD_GET_CMDBYTE :: u8 where "KB_CMD_GET_CMDBYTE = 0x20"
definition KB_CMD_SET_CMDBYTE :: u8 where "KB_CMD_SET_CMDBYTE = 0x60"
definition KB_CMD_PULSE_RESET :: u8 where "KB_CMD_PULSE_RESET = 0xfe"
definition KB_CCB_KB_INTREN :: u8 where "KB_CCB_KB_INTREN = 0x01"
definition KB_CCB_KB_XLAT :: u8 where "KB_CCB_KB_XLAT = 0x40"

lemmas kb_consts = KB_DATA_PORT_def KB_CMD_PORT_def KB_STATUS_PORT_def KB_ACK_def
  KB_STAT_OUTBUF_FULL_def KB_STAT_INBUF_FULL_def KB_STAT_AUX_def KB_CMD_GET_CMDBYTE_def
  KB_CMD_SET_CMDBYTE_def KB_CMD_PULSE_RESET_def KB_CCB_KB_INTREN_def KB_CCB_KB_XLAT_def

definition kb_wait_write :: "('z machine_scheme, bool) state" where
  "kb_wait_write = poll_port 32768 KB_STATUS_PORT (\<lambda>st. st AND KB_STAT_INBUF_FULL = 0)"

definition kb_wait_read :: "('z machine_scheme, bool) state" where
  "kb_wait_read = poll_port 32768 KB_STATUS_PORT (\<lambda>st. st AND KB_STAT_OUTBUF_FULL \<noteq> 0)"

definition kb_send_cmd :: "u8 \<Rightarrow> ('z machine_scheme, unit) state" where
  "kb_send_cmd cmd = do { _ \<leftarrow> kb_wait_write; outb cmd KB_CMD_PORT }"

definition kb_send_data :: "u8 \<Rightarrow> ('z machine_scheme, unit) state" where
  "kb_send_data d = do { _ \<leftarrow> kb_wait_write; outb d KB_DATA_PORT }"

definition kb_read_data :: "('z machine_scheme, u8) state" where
  "kb_read_data = do { _ \<leftarrow> kb_wait_read; iodelays 7; inb KB_DATA_PORT }"

definition set_ccb :: "u8 \<Rightarrow> ('z machine_scheme, unit) state" where
  "set_ccb ccb = do {
     kb_send_cmd KB_CMD_SET_CMDBYTE;
     kb_send_data ccb;
     ok \<leftarrow> kb_wait_read;
     if ok then do { _ \<leftarrow> kb_read_data; ret () } else ret () }"

definition get_ccb :: "('z machine_scheme, u8) state" where
  "get_ccb = do { kb_send_cmd KB_CMD_GET_CMDBYTE; kb_read_data }"

definition kb_intr_enable :: "('z machine_scheme, unit) state" where
  "kb_intr_enable = do { ccb \<leftarrow> get_ccb; set_ccb (ccb OR KB_CCB_KB_INTREN) }"

definition kb_intr_disable :: "('z machine_scheme, unit) state" where
  "kb_intr_disable = do { ccb \<leftarrow> get_ccb; set_ccb (ccb AND NOT KB_CCB_KB_INTREN) }"

definition kb_set_translate :: "bool \<Rightarrow> ('z machine_scheme, unit) state" where
  "kb_set_translate xlat = do {
     ccb \<leftarrow> get_ccb;
     set_ccb (if xlat then ccb OR KB_CCB_KB_XLAT else ccb AND NOT KB_CCB_KB_XLAT) }"

definition kb_get_translate :: "('z machine_scheme, int) state" where
  "kb_get_translate = do { ccb \<leftarrow> get_ccb; ret (uint (ccb AND KB_CCB_KB_XLAT)) }"

text \<open>\<open>!kb_wait_read() || kb_read_data() != KB_ACK\<close>: the data port is read only when the
  wait succeeds.\<close>

definition kb_no_ack :: "('z machine_scheme, bool) state" where
  "kb_no_ack = do {
     ok \<leftarrow> kb_wait_read;
     if ok then do { d \<leftarrow> kb_read_data; ret (d \<noteq> KB_ACK) } else ret True }"

definition kb_setmode :: "int \<Rightarrow> ('z machine_scheme, int) state" where
  "kb_setmode mode = do {
     kb_send_data 0xf0;
     e1 \<leftarrow> kb_no_ack;
     if e1 then ret (-1) else do {
       kb_send_data (word_of_int mode);
       e2 \<leftarrow> kb_no_ack;
       if e2 then ret (-1) else ret 0 } }"

definition kb_getmode :: "('z machine_scheme, int) state" where
  "kb_getmode = do {
     kb_send_data 0xf0;
     e1 \<leftarrow> kb_no_ack;
     if e1 then ret (-1) else do {
       kb_send_data 0;
       e2 \<leftarrow> kb_no_ack;
       if e2 then ret (-1) else do {
         mode \<leftarrow> kb_read_data;
         ret (if mode = 0x43 then 1 else if mode = 0x41 then 2 else if mode = 0x3f then 3
              else uint mode) } } }"

text \<open>\<open>reboot()\<close> of \<open>src/power.c\<close> up to the triple fault it ends in.\<close>

definition reboot :: "('z machine_scheme, unit) state" where
  "reboot = do { kb_send_cmd KB_CMD_PULSE_RESET; iodelays 32768 }"

lemma only_logs_kbc [intro, simp]:
  "only_logs kb_wait_write" "only_logs kb_wait_read" "only_logs (kb_send_cmd c)"
  "only_logs (kb_send_data d)" "only_logs kb_read_data" "only_logs (set_ccb d)"
  "only_logs get_ccb" "only_logs kb_intr_enable" "only_logs (kb_set_translate x)" "only_logs reboot"
  unfolding kb_wait_write_def kb_wait_read_def kb_send_cmd_def kb_send_data_def kb_read_data_def
    set_ccb_def get_ccb_def kb_intr_enable_def kb_set_translate_def reboot_def
  by (rule only_logs_bind only_logs_base only_logs_poll only_logs_if)+

section \<open>Keys\<close>

definition KB_ANY :: int where "KB_ANY = -1"
definition KB_ALT :: int where "KB_ALT = -2"
definition KB_CTRL :: int where "KB_CTRL = -3"
definition KB_SHIFT :: int where "KB_SHIFT = -4"

text \<open>The enumeration of \<open>keyb.h\<close>, numbered from \<open>KB_BACKSP = 127\<close>.\<close>

definition KB_ESC :: int where "KB_ESC = 27"
definition KB_BACKSP :: int where "KB_BACKSP = 127"
definition KB_INSERT :: int where "KB_INSERT = 128"
definition KB_DEL :: int where "KB_DEL = 129"
definition KB_HOME :: int where "KB_HOME = 130"
definition KB_END :: int where "KB_END = 131"
definition KB_PGUP :: int where "KB_PGUP = 132"
definition KB_PGDN :: int where "KB_PGDN = 133"
definition KB_LEFT :: int where "KB_LEFT = 134"
definition KB_RIGHT :: int where "KB_RIGHT = 135"
definition KB_UP :: int where "KB_UP = 136"
definition KB_DOWN :: int where "KB_DOWN = 137"
definition KB_NUM_DOT :: int where "KB_NUM_DOT = 138"
definition KB_NUM_ENTER :: int where "KB_NUM_ENTER = 139"
definition KB_NUM_PLUS :: int where "KB_NUM_PLUS = 140"
definition KB_NUM_MINUS :: int where "KB_NUM_MINUS = 141"
definition KB_NUM_MUL :: int where "KB_NUM_MUL = 142"
definition KB_NUM_DIV :: int where "KB_NUM_DIV = 143"
definition KB_NUM_0 :: int where "KB_NUM_0 = 144"
definition KB_NUM_1 :: int where "KB_NUM_1 = 145"
definition KB_NUM_2 :: int where "KB_NUM_2 = 146"
definition KB_NUM_3 :: int where "KB_NUM_3 = 147"
definition KB_NUM_4 :: int where "KB_NUM_4 = 148"
definition KB_NUM_5 :: int where "KB_NUM_5 = 149"
definition KB_NUM_6 :: int where "KB_NUM_6 = 150"
definition KB_NUM_7 :: int where "KB_NUM_7 = 151"
definition KB_NUM_8 :: int where "KB_NUM_8 = 152"
definition KB_NUM_9 :: int where "KB_NUM_9 = 153"
definition KB_LALT :: int where "KB_LALT = 154"
definition KB_RALT :: int where "KB_RALT = 155"
definition KB_LCTRL :: int where "KB_LCTRL = 156"
definition KB_RCTRL :: int where "KB_RCTRL = 157"
definition KB_LSHIFT :: int where "KB_LSHIFT = 158"
definition KB_RSHIFT :: int where "KB_RSHIFT = 159"
definition KB_F1 :: int where "KB_F1 = 160"
definition KB_F2 :: int where "KB_F2 = 161"
definition KB_F3 :: int where "KB_F3 = 162"
definition KB_F4 :: int where "KB_F4 = 163"
definition KB_F5 :: int where "KB_F5 = 164"
definition KB_F6 :: int where "KB_F6 = 165"
definition KB_F7 :: int where "KB_F7 = 166"
definition KB_F8 :: int where "KB_F8 = 167"
definition KB_F9 :: int where "KB_F9 = 168"
definition KB_F10 :: int where "KB_F10 = 169"
definition KB_F11 :: int where "KB_F11 = 170"
definition KB_F12 :: int where "KB_F12 = 171"
definition KB_CAPSLK :: int where "KB_CAPSLK = 172"
definition KB_NUMLK :: int where "KB_NUMLK = 173"
definition KB_SCRLK :: int where "KB_SCRLK = 174"
definition KB_SYSRQ :: int where "KB_SYSRQ = 175"

lemmas key_defs =
  KB_ESC_def KB_BACKSP_def KB_INSERT_def KB_DEL_def KB_HOME_def KB_END_def KB_PGUP_def
  KB_PGDN_def KB_LEFT_def KB_RIGHT_def KB_UP_def KB_DOWN_def KB_NUM_DOT_def KB_NUM_ENTER_def
  KB_NUM_PLUS_def KB_NUM_MINUS_def KB_NUM_MUL_def KB_NUM_DIV_def KB_NUM_0_def KB_NUM_1_def
  KB_NUM_2_def KB_NUM_3_def KB_NUM_4_def KB_NUM_5_def KB_NUM_6_def KB_NUM_7_def KB_NUM_8_def
  KB_NUM_9_def KB_LALT_def KB_RALT_def KB_LCTRL_def KB_RCTRL_def KB_LSHIFT_def KB_RSHIFT_def
  KB_F1_def KB_F2_def KB_F3_def KB_F4_def KB_F5_def KB_F6_def KB_F7_def KB_F8_def KB_F9_def
  KB_F10_def KB_F11_def KB_F12_def KB_CAPSLK_def KB_NUMLK_def KB_SCRLK_def KB_SYSRQ_def

definition scantbl_set1 :: "int list" where
  "scantbl_set1 = [
     0, KB_ESC, 49, 50, 51, 52, 53, 54, 55, 56, 57, 48, 45, 61, 8,
     9, 113, 119, 101, 114, 116, 121, 117, 105, 111, 112, 91, 93, 10,
     KB_LCTRL, 97, 115, 100, 102, 103, 104, 106, 107, 108, 59, 39, 96,
     KB_LSHIFT, 92, 122, 120, 99, 118, 98, 110, 109, 44, 46, 47, KB_RSHIFT,
     KB_NUM_MUL, KB_LALT, 32, KB_CAPSLK, KB_F1, KB_F2, KB_F3, KB_F4, KB_F5, KB_F6, KB_F7, KB_F8, KB_F9, KB_F10,
     KB_NUMLK, KB_SCRLK, KB_NUM_7, KB_NUM_8, KB_NUM_9, KB_NUM_MINUS, KB_NUM_4, KB_NUM_5, KB_NUM_6, KB_NUM_PLUS,
     KB_NUM_1, KB_NUM_2, KB_NUM_3, KB_NUM_0, KB_NUM_DOT, KB_SYSRQ, 0, 0, KB_F11, KB_F12,
     0, 0, 0, 0, 0, 0, 0,
     0, 0, 0, 0, 0, 0, 0, 0, 0, 0, 0, 0, 0, 0, 0, 0,
     0, 0, 0, 0, 0, 0, 0, 0, 0, 0, 0, 0, 0, 0, 0, 0]"

definition scantbl_set1_ext :: "int list" where
  "scantbl_set1_ext = [
     0, 0, 0, 0, 0, 0, 0, 0, 0, 0, 0, 0, 0, 0, 0, 0,
     0, 0, 0, 0, 0, 0, 0, 0, 0, 0, 0, 0, 13, KB_RCTRL, 0, 0,
     0, 0, 0, 0, 0, 0, 0, 0, 0, 0, 0, 0, 0, 0, 0, 0,
     0, 0, 0, 0, 0, KB_NUM_MINUS, 0, KB_SYSRQ, KB_RALT, 0, 0, 0, 0, 0, 0, 0,
     0, 0, 0, 0, 0, 0, 0, KB_HOME, KB_UP, KB_PGUP, 0, KB_LEFT, 0, KB_RIGHT, 0, KB_END,
     KB_DOWN, KB_PGDN, KB_INSERT, KB_DEL, 0, 0, 0, 0, 0, 0, 0, 0, 0, 0, 0, 0,
     0, 0, 0, 0, 0, 0, 0, 0, 0, 0, 0, 0, 0, 0, 0, 0,
     0, 0, 0, 0, 0, 0, 0, 0, 0, 0, 0, 0, 0, 0, 0, 0]"

section \<open>The driver's state\<close>

definition BUFSZ :: int where "BUFSZ = 64"

definition ADVANCE :: "int \<Rightarrow> int" where "ADVANCE x = (x + 1) AND (BUFSZ - 1)"

record keyb = machine +
  kb_buffer :: "int list"
  buf_ridx :: int
  buf_widx :: int
  num_pressed :: u32
  keystate :: "u8 list"
  kb_ext :: bool

definition kb_init :: "keyb \<Rightarrow> keyb" where
  "kb_init s = exec (do { kb_set_translate True; kb_intr_enable })
     (s\<lparr>buf_ridx := 0, buf_widx := 0, num_pressed := 0, keystate := replicate 256 0\<rparr>)"

text \<open>An index outside the table, as \<open>KB_SHIFT\<close> is, reads memory that is not the table's.\<close>

definition kb_isdown :: "int \<Rightarrow> keyb \<Rightarrow> int option" where
  "kb_isdown key s =
     (if key = KB_ANY then Some (sint (num_pressed s))
      else if key = KB_ALT then
        Some (uint (keystate s ! nat KB_LALT) + uint (keystate s ! nat KB_RALT))
      else if key = KB_CTRL then
        Some (uint (keystate s ! nat KB_LCTRL) + uint (keystate s ! nat KB_RCTRL))
      else if 0 \<le> key \<and> key < 256 then Some (uint (keystate s ! nat key))
      else None)"

definition kb_getkey :: "keyb \<Rightarrow> int \<times> keyb" where
  "kb_getkey s =
     (if buf_ridx s = buf_widx s then (-1, s)
      else (kb_buffer s ! nat (buf_ridx s), s\<lparr>buf_ridx := ADVANCE (buf_ridx s)\<rparr>))"

definition kb_putback :: "int \<Rightarrow> keyb \<Rightarrow> keyb" where
  "kb_putback key s = (
     let r = buf_ridx s - 1;
         r = (if r < 0 then r + BUFSZ else r);
         r = (if r = buf_widx s then ADVANCE r else r)
     in s\<lparr>buf_ridx := r, kb_buffer := (kb_buffer s)[nat r := key]\<rparr>)"

definition kb_append :: "int \<Rightarrow> keyb \<Rightarrow> keyb" where
  "kb_append key s = (
     let s = s\<lparr>kb_buffer := (kb_buffer s)[nat (buf_widx s) := key], buf_widx := ADVANCE (buf_widx s)\<rparr>
     in if buf_widx s = buf_ridx s then s\<lparr>buf_ridx := ADVANCE (buf_ridx s)\<rparr> else s)"

definition kbintr :: "keyb \<Rightarrow> fault + keyb" where
  "kbintr s = (
     let code = result_of (inb KB_DATA_PORT) s;
         s = exec (inb KB_DATA_PORT) s
     in if code = 0xe0 then Inr (s\<lparr>kb_ext := True\<rparr>)
        else
          let press = code AND 0x80 = 0;
              code = (if press then code else code AND 0x7f);
              s = (if press then s\<lparr>num_pressed := num_pressed s + 1\<rparr>
                   else if 0 < num_pressed s then s\<lparr>num_pressed := num_pressed s - 1\<rparr> else s);
              key = (if kb_ext s then scantbl_set1_ext ! unat code else scantbl_set1 ! unat code);
              s = s\<lparr>kb_ext := False\<rparr>
          in if press \<and> key = KB_DEL
                \<and> (keystate s ! nat KB_LALT \<noteq> 0 \<or> keystate s ! nat KB_RALT \<noteq> 0)
                \<and> (keystate s ! nat KB_LCTRL \<noteq> 0 \<or> keystate s ! nat KB_RCTRL \<noteq> 0)
             then Inl Reboot
             else
               let s = (if press then kb_append key s else s)
               in Inr (s\<lparr>keystate := (keystate s)[nat key := of_bool press]\<rparr>))"

section \<open>Well-formed states and the queue of keys\<close>

definition kb_inv :: "keyb \<Rightarrow> bool" where
  "kb_inv s \<longleftrightarrow> length (kb_buffer s) = 64 \<and> length (keystate s) = 256
     \<and> 0 \<le> buf_ridx s \<and> buf_ridx s < 64 \<and> 0 \<le> buf_widx s \<and> buf_widx s < 64"

definition kb_queue :: "keyb \<Rightarrow> int list" where
  "kb_queue s = ring_list (kb_buffer s) (nat (buf_ridx s)) (nat (buf_widx s))"

lemma ADVANCE_mod: "ADVANCE x = (x + 1) mod 64"
  using int_and_mask [of "x + 1" 6] by (simp add: ADVANCE_def BUFSZ_def)

lemma ADVANCE_range [simp]: "0 \<le> ADVANCE x" "ADVANCE x < 64"
  by (simp_all add: ADVANCE_mod)

lemma nat_ADVANCE:
  assumes "0 \<le> x"
  shows "nat (ADVANCE x) = Suc (nat x) mod 64"
proof -
  have "nat ((x + 1) mod 64) = nat (x + 1) mod nat 64" using assms by (intro nat_mod_distrib) simp_all
  moreover have "nat (x + 1) = Suc (nat x)" using assms by linarith
  ultimately show ?thesis by (simp add: ADVANCE_mod)
qed

lemma kb_inv_ring: "kb_inv s \<Longrightarrow> ring_ok (kb_buffer s) (nat (buf_ridx s)) (nat (buf_widx s))"
  unfolding kb_inv_def ring_ok_def by linarith

lemma nat_eq_idx: "0 \<le> a \<Longrightarrow> 0 \<le> b \<Longrightarrow> nat a = nat b \<longleftrightarrow> a = b"
  by linarith

lemma kb_append_inv: "kb_inv s \<Longrightarrow> kb_inv (kb_append k s)"
  by (simp add: kb_inv_def kb_append_def Let_def)

lemma kb_append_rest [simp]:
  "keystate (kb_append k s) = keystate s" "num_pressed (kb_append k s) = num_pressed s"
  "kb_ext (kb_append k s) = kb_ext s"
  "kb_buffer (kb_append k s) = (kb_buffer s)[nat (buf_widx s) := k]"
  "buf_widx (kb_append k s) = ADVANCE (buf_widx s)"
  "buf_ridx (kb_append k s) =
     (if ADVANCE (buf_widx s) = buf_ridx s then ADVANCE (buf_ridx s) else buf_ridx s)"
  by (simp_all add: kb_append_def Let_def)

lemma kb_queue_append:
  assumes "kb_inv s"
  shows "kb_queue (kb_append k s) =
    (if length (kb_queue s) < 63 then kb_queue s @ [k] else tl (kb_queue s) @ [k])"
proof -
  let ?r = "nat (buf_ridx s)" and ?w = "nat (buf_widx s)" and ?b = "kb_buffer s"
  have ok: "ring_ok ?b ?r ?w" using assms by (rule kb_inv_ring)
  have len: "length ?b = 64" and nn: "0 \<le> buf_ridx s" "0 \<le> buf_widx s"
    using assms by (simp_all add: kb_inv_def)
  have eq: "ADVANCE (buf_widx s) = buf_ridx s \<longleftrightarrow> Suc ?w mod length ?b = ?r"
    unfolding len nat_ADVANCE [OF nn(2), symmetric] by (rule nat_eq_idx [symmetric]) (simp_all add: nn)
  show ?thesis
  proof (cases "Suc ?w mod length ?b = ?r")
    case True
    then have full: "length (kb_queue s) = 63" using ring_full_iff [OF ok] len by (simp add: kb_queue_def)
    have "kb_queue (kb_append k s) = ring_list (?b[?w := k]) (Suc ?r mod length ?b) ?r"
      using True eq nn len by (simp add: kb_queue_def kb_append_def Let_def nat_ADVANCE)
    then show ?thesis using ring_put_full [OF ok True, of k] full by (simp add: kb_queue_def)
  next
    case False
    then have "length (kb_queue s) \<noteq> 63" using ring_full_iff [OF ok] len by (simp add: kb_queue_def)
    then have nf: "length (kb_queue s) < 63"
      using ring_length_less [OF ok] len by (simp add: kb_queue_def)
    have "kb_queue (kb_append k s) = ring_list (?b[?w := k]) ?r (Suc ?w mod length ?b)"
      using False eq nn len by (simp add: kb_queue_def kb_append_def Let_def nat_ADVANCE)
    then show ?thesis using ring_put [OF ok False, of k] nf by (simp add: kb_queue_def)
  qed
qed

lemma kb_getkey_inv: "kb_inv s \<Longrightarrow> kb_inv (snd (kb_getkey s))"
  by (simp add: kb_inv_def kb_getkey_def)

lemma kb_queue_empty: "kb_inv s \<Longrightarrow> kb_queue s = [] \<longleftrightarrow> buf_ridx s = buf_widx s"
  using ring_empty_iff [OF kb_inv_ring] by (auto simp: kb_queue_def kb_inv_def)

lemma kb_queue_getkey:
  assumes "kb_inv s" "kb_queue s = k # ks"
  shows "fst (kb_getkey s) = k \<and> kb_queue (snd (kb_getkey s)) = ks"
proof -
  let ?r = "nat (buf_ridx s)" and ?w = "nat (buf_widx s)"
  have ne: "buf_ridx s \<noteq> buf_widx s" using assms kb_queue_empty [of s] by simp
  have len: "length (kb_buffer s) = 64" and nn: "0 \<le> buf_ridx s" "0 \<le> buf_widx s"
    using assms(1) by (simp_all add: kb_inv_def)
  then have "?r \<noteq> ?w" using ne by simp
  from ring_get [OF kb_inv_ring [OF assms(1)] this] show ?thesis
    using assms(2) ne nn by (simp add: kb_queue_def kb_getkey_def nat_ADVANCE len)
qed

text \<open>The keyboard's readers see the interface of a ring buffer of 63 keys.\<close>

definition kb_get :: "keyb \<Rightarrow> int option \<times> keyb" where
  "kb_get s = (if fst (kb_getkey s) = -1 then None else Some (fst (kb_getkey s)), snd (kb_getkey s))"

definition kb_ok :: "keyb \<Rightarrow> bool" where
  "kb_ok s \<longleftrightarrow> kb_inv s \<and> -1 \<notin> set (kb_queue s)"

interpretation kbq: ring_buffer kb_append kb_get kb_queue 63 kb_ok "\<lambda>k. k \<noteq> -1"
proof unfold_locales
  fix s :: keyb and k ks
  show "kb_ok s \<Longrightarrow> length (kb_queue s) \<le> 63"
    using ring_length_less [OF kb_inv_ring, of s] by (simp add: kb_ok_def kb_queue_def kb_inv_def)
  show "kb_ok s \<Longrightarrow> kb_queue (kb_append k s) =
      (if length (kb_queue s) < 63 then kb_queue s @ [k] else tl (kb_queue s) @ [k])"
    by (simp add: kb_ok_def kb_queue_append)
  show "kb_ok s \<Longrightarrow> k \<noteq> -1 \<Longrightarrow> kb_ok (kb_append k s)"
    by (auto simp: kb_ok_def kb_append_inv kb_queue_append dest: list.set_sel(2) [rotated])
  have e: "kb_queue s = [] \<Longrightarrow> kb_ok s \<Longrightarrow> kb_get s = (None, s)"
    by (simp add: kb_ok_def kb_queue_empty kb_get_def kb_getkey_def)
  then show "kb_ok s \<Longrightarrow> kb_queue s = [] \<Longrightarrow> kb_get s = (None, s)" by simp
  have q: "kb_ok s \<Longrightarrow> kb_queue s = k # ks \<Longrightarrow>
      fst (kb_get s) = Some k \<and> kb_queue (snd (kb_get s)) = ks" for k ks
    using kb_queue_getkey [of s k ks] by (auto simp: kb_ok_def kb_get_def)
  then show "kb_ok s \<Longrightarrow> kb_queue s = k # ks \<Longrightarrow>
      fst (kb_get s) = Some k \<and> kb_queue (snd (kb_get s)) = ks" .
  show "kb_ok s \<Longrightarrow> kb_ok (snd (kb_get s))"
  proof (cases "kb_queue s")
    case (Cons k' ks')
    assume ok: "kb_ok s"
    have "kb_inv (snd (kb_get s))"
      using ok kb_getkey_inv [of s] by (simp add: kb_ok_def kb_get_def)
    then show ?thesis using q [OF ok Cons] ok Cons by (simp add: kb_ok_def)
  qed (simp add: e)
qed simp

lemma kb_queue_putback:
  assumes "kb_inv s"
  shows "kb_inv (kb_putback k s)"
    and "kb_queue (kb_putback k s) = k # (if length (kb_queue s) < 63 then kb_queue s else tl (kb_queue s))"
proof -
  let ?r = "nat (buf_ridx s)" and ?w = "nat (buf_widx s)" and ?b = "kb_buffer s"
  let ?p = "if buf_ridx s - 1 < 0 then buf_ridx s - 1 + BUFSZ else buf_ridx s - 1"
  have ok: "ring_ok ?b ?r ?w" using assms by (rule kb_inv_ring)
  have len: "length ?b = 64" and nn: "0 \<le> buf_ridx s" "0 \<le> buf_widx s"
    and lt: "buf_ridx s < 64" "buf_widx s < 64"
    using assms by (simp_all add: kb_inv_def)
  have p: "0 \<le> ?p" "?p < 64" using nn(1) lt(1) by (simp_all add: BUFSZ_def)
  have adv: "ADVANCE ?p = buf_ridx s"
    using nn(1) lt(1) by (simp add: ADVANCE_mod BUFSZ_def)
  then have adv': "Suc (nat ?p) mod length ?b = ?r"
    using nat_ADVANCE [OF p(1)] by (simp add: len)
  show "kb_inv (kb_putback k s)"
    using assms p by (simp add: kb_inv_def kb_putback_def Let_def)
  show "kb_queue (kb_putback k s) = k # (if length (kb_queue s) < 63 then kb_queue s else tl (kb_queue s))"
  proof (cases "?p = buf_widx s")
    case True
    then have full: "Suc ?w mod length ?b = ?r" using adv' by simp
    then have n: "length (kb_queue s) = 63" using ring_full_iff [OF ok] len by (simp add: kb_queue_def)
    have ne: "?r \<noteq> ?w" using full len lt nn by (auto simp: mod_Suc split: if_splits)
    have ok': "ring_ok (?b[?r := k]) ?r ?w" using ok by (simp add: ring_ok_def)
    have ok2: "ring_ok ?b (Suc ?r mod length ?b) ?w"
      using ok ring_advance [OF ok, of ?r] by (simp add: ring_ok_def)
    have lr: "?r < length ?b" using ok by (simp add: ring_ok_def)
    have tail: "ring_list (?b[?r := k]) (Suc ?r mod length ?b) ?w = ring_list ?b (Suc ?r mod length ?b) ?w"
      by (rule ring_frame [OF ok2 lr refl ne])
    have "kb_putback k s = s\<lparr>buf_ridx := buf_ridx s, kb_buffer := ?b[?r := k]\<rparr>"
      using True adv by (simp add: kb_putback_def Let_def)
    then have "kb_queue (kb_putback k s) = ring_list (?b[?r := k]) ?r ?w" by (simp add: kb_queue_def)
    then show ?thesis
      using ring_get [OF ok' ne] ring_get [OF ok ne] tail n lr
      by (simp add: kb_queue_def)
  next
    case False
    have np: "nat ?p \<noteq> ?w" using False p(1) nn(2) by linarith
    have lp: "nat ?p < length ?b" using p len by linarith
    have "length (kb_queue s) \<noteq> 63"
    proof
      assume "length (kb_queue s) = 63"
      then have "Suc ?w mod length ?b = ?r" using ring_full_iff [OF ok] len by (simp add: kb_queue_def)
      then have "Suc ?w mod 64 = Suc (nat ?p) mod 64" using adv' len by simp
      then show False using np p lt nn by (auto simp: mod_Suc split: if_splits)
    qed
    then have n: "length (kb_queue s) < 63"
      using ring_length_less [OF ok] len by (simp add: kb_queue_def)
    have "kb_putback k s = s\<lparr>buf_ridx := ?p, kb_buffer := ?b[nat ?p := k]\<rparr>"
      using False by (simp add: kb_putback_def Let_def)
    then show ?thesis using ring_unget [OF ok lp adv' np, of k] n by (simp add: kb_queue_def)
  qed
qed

section \<open>The handler as a decoder of the byte stream\<close>

text \<open>Interrupts deliver the bytes of the stream at the data port one at a time.\<close>

definition kb_irq :: "u8 \<Rightarrow> keyb \<Rightarrow> fault + keyb" where
  "kb_irq b s = kbintr (s\<lparr>dev8 := \<lambda>_ _. b\<rparr>)"

fun kb_feed :: "u8 list \<Rightarrow> keyb \<Rightarrow> fault + keyb" where
  "kb_feed [] s = Inr s"
| "kb_feed (b # bs) s = (case kb_irq b s of Inl e \<Rightarrow> Inl e | Inr s' \<Rightarrow> kb_feed bs s')"

text \<open>What the bytes mean: 0xe0 announces an extended code, bit 7 a release.\<close>

definition key_of :: "bool \<Rightarrow> u8 \<Rightarrow> int" where
  "key_of e code = (if e then scantbl_set1_ext else scantbl_set1) ! unat (code AND 0x7f)"

fun kb_decode :: "bool \<Rightarrow> u8 list \<Rightarrow> (int \<times> bool) list" where
  "kb_decode e [] = []"
| "kb_decode e (b # bs) =
     (if b = 0xe0 then kb_decode True bs else (key_of e b, \<not> bit b 7) # kb_decode False bs)"

fun decode_ext :: "bool \<Rightarrow> u8 list \<Rightarrow> bool" where
  "decode_ext e [] = e"
| "decode_ext e (b # bs) = decode_ext (b = 0xe0) bs"

lemma code_and_80: "b AND 0x80 = 0 \<longleftrightarrow> \<not> bit b 7" for b :: u8
  using and_bit_eq_0_iff [of 7 b] by simp

lemma code_and_7f: "\<not> bit b 7 \<Longrightarrow> b AND 0x7f = b" for b :: u8
proof (rule bit_word_eqI)
  fix n assume "\<not> bit b 7" "n < LENGTH(8)"
  moreover have "bit (0x7f :: u8) n \<longleftrightarrow> n < 7" if "n < 8" for n
    using that by (simp add: numeral_eq_Suc less_Suc_eq) auto
  moreover have "n = 7" if "\<not> n < 7" "n < 8" using that by linarith
  ultimately show "bit (b AND 0x7f) n = bit b n" by (cases "n = 7") (auto simp: bit_and_iff)
qed

lemma unat_code_less: "unat (b AND 0x7f) < 128" for b :: u8
proof -
  have "b AND 0x7f \<le> 0x7f" by (rule word_and_le1)
  then show ?thesis by (simp add: word_le_nat_alt)
qed

lemma length_scantbl [simp]: "length scantbl_set1 = 128" "length scantbl_set1_ext = 128"
  by (simp_all add: scantbl_set1_def scantbl_set1_ext_def)

lemma scantbl_range: "\<forall>k \<in> set scantbl_set1 \<union> set scantbl_set1_ext. 0 \<le> k \<and> k < 256"
  by (simp add: scantbl_set1_def scantbl_set1_ext_def key_defs)

lemma key_of_range: "0 \<le> key_of e b" "key_of e b < 256"
proof -
  have "key_of e b \<in> set scantbl_set1 \<union> set scantbl_set1_ext"
    by (auto simp: key_of_def unat_code_less intro!: nth_mem)
  then show "0 \<le> key_of e b" "key_of e b < 256" using scantbl_range by blast+
qed

definition alt_held :: "keyb \<Rightarrow> bool" where
  "alt_held s \<longleftrightarrow> keystate s ! nat KB_LALT \<noteq> 0 \<or> keystate s ! nat KB_RALT \<noteq> 0"

definition ctrl_held :: "keyb \<Rightarrow> bool" where
  "ctrl_held s \<longleftrightarrow> keystate s ! nat KB_LCTRL \<noteq> 0 \<or> keystate s ! nat KB_RCTRL \<noteq> 0"

text \<open>One interrupt, as a function of the byte.\<close>

lemma kb_irq_prefix:
  "kb_irq 0xe0 s = Inr ((logs [In8 0x60] (s\<lparr>dev8 := \<lambda>_ _. 0xe0\<rparr>))\<lparr>kb_ext := True\<rparr>)"
  by (simp add: kb_irq_def kbintr_def KB_DATA_PORT_def)

definition kb_hw :: "u8 \<Rightarrow> keyb \<Rightarrow> keyb" where
  "kb_hw b s = (logs [In8 0x60] (s\<lparr>dev8 := \<lambda>_ _. b\<rparr>))\<lparr>kb_ext := False\<rparr>"

lemma kb_irq_make:
  assumes "\<not> bit b 7" "key_of (kb_ext s) b = k"
  shows "kb_irq b s =
    (if k = KB_DEL \<and> alt_held s \<and> ctrl_held s then Inl Reboot
     else Inr ((kb_append k ((kb_hw b s)\<lparr>num_pressed := num_pressed s + 1\<rparr>))
            \<lparr>keystate := (keystate s)[nat k := 1]\<rparr>))"
proof -
  have ne: "b \<noteq> 0xe0" using assms(1) by auto
  have k: "(if kb_ext s then scantbl_set1_ext ! unat b else scantbl_set1 ! unat b) = k"
    using assms by (auto simp: key_of_def code_and_7f)
  have comm: "t\<lparr>num_pressed := n, kb_ext := False\<rparr> = t\<lparr>kb_ext := False, num_pressed := n\<rparr>"
    for t :: keyb and n by simp
  have "b AND 0x80 = 0" using assms(1) by (simp add: code_and_80)
  then show ?thesis using ne k
    by (simp add: comm kb_irq_def kbintr_def Let_def KB_DATA_PORT_def kb_hw_def logs_def
        alt_held_def ctrl_held_def cong: if_cong)
qed

lemma kb_irq_break:
  assumes "bit b 7" "b \<noteq> 0xe0" "key_of (kb_ext s) b = k"
  shows "kb_irq b s =
    Inr ((kb_hw b s)\<lparr>num_pressed := (if 0 < num_pressed s then num_pressed s - 1 else num_pressed s),
       keystate := (keystate s)[nat k := 0]\<rparr>)"
proof -
  have k: "(if kb_ext s then scantbl_set1_ext ! unat (b AND 0x7f) else scantbl_set1 ! unat (b AND 0x7f)) = k"
    using assms(3) by (auto simp: key_of_def)
  have "b AND 0x80 \<noteq> 0" using assms(1) by (simp add: code_and_80)
  then show ?thesis using assms(2) k
    by (simp add: kb_irq_def kbintr_def Let_def KB_DATA_PORT_def kb_hw_def logs_def cong: if_cong)
qed

lemma kb_irq_cases:
  obtains (prefix) "b = 0xe0" "kb_irq b s = Inr ((logs [In8 0x60] (s\<lparr>dev8 := \<lambda>_ _. b\<rparr>))\<lparr>kb_ext := True\<rparr>)"
  | (reboot) "b \<noteq> 0xe0" "\<not> bit b 7" "key_of (kb_ext s) b = KB_DEL" "alt_held s" "ctrl_held s"
      "kb_irq b s = Inl Reboot"
  | (make) "b \<noteq> 0xe0" "\<not> bit b 7" "kb_irq b s =
      Inr ((kb_append (key_of (kb_ext s) b) ((kb_hw b s)\<lparr>num_pressed := num_pressed s + 1\<rparr>))
            \<lparr>keystate := (keystate s)[nat (key_of (kb_ext s) b) := 1]\<rparr>)"
  | (break) "b \<noteq> 0xe0" "bit b 7" "kb_irq b s =
      Inr ((kb_hw b s)\<lparr>num_pressed := (if 0 < num_pressed s then num_pressed s - 1 else num_pressed s),
         keystate := (keystate s)[nat (key_of (kb_ext s) b) := 0]\<rparr>)"
proof (cases "bit b 7")
  case True
  then show ?thesis using that(1,4) kb_irq_break [OF True _ refl] kb_irq_prefix
    by (cases "b = 0xe0") blast+
next
  case False
  then have "b \<noteq> 0xe0" by auto
  then show ?thesis using that(2,3) kb_irq_make [OF False refl] False
    by (cases "key_of (kb_ext s) b = KB_DEL \<and> alt_held s \<and> ctrl_held s") auto
qed

lemma kb_hw_simps [simp]:
  "kb_buffer (kb_hw b s) = kb_buffer s" "buf_ridx (kb_hw b s) = buf_ridx s"
  "buf_widx (kb_hw b s) = buf_widx s" "num_pressed (kb_hw b s) = num_pressed s"
  "keystate (kb_hw b s) = keystate s" "kb_ext (kb_hw b s) = False"
  by (simp_all add: kb_hw_def logs_def)

lemma kb_queue_cong:
  "kb_buffer s = kb_buffer s' \<Longrightarrow> buf_ridx s = buf_ridx s' \<Longrightarrow> buf_widx s = buf_widx s'
    \<Longrightarrow> kb_queue s = kb_queue s'"
  by (simp add: kb_queue_def)

lemma kb_inv_cong:
  "kb_buffer s = kb_buffer s' \<Longrightarrow> buf_ridx s = buf_ridx s' \<Longrightarrow> buf_widx s = buf_widx s'
    \<Longrightarrow> length (keystate s) = length (keystate s') \<Longrightarrow> kb_inv s = kb_inv s'"
  by (simp add: kb_inv_def)

definition event_key :: "bool \<Rightarrow> u8 \<Rightarrow> (int \<times> bool) list" where
  "event_key e b = (if b = 0xe0 then [] else [(key_of e b, \<not> bit b 7)])"

definition pressed :: "(int \<times> bool) list \<Rightarrow> int list" where
  "pressed evs = map fst (filter snd evs)"

fun apply_events :: "(int \<times> bool) list \<Rightarrow> u8 list \<Rightarrow> u8 list" where
  "apply_events [] ks = ks"
| "apply_events ((k, p) # evs) ks = apply_events evs (ks[nat k := of_bool p])"

lemma kb_decode_Cons: "kb_decode e (b # bs) = event_key e b @ kb_decode (b = 0xe0) bs"
  by (simp add: event_key_def)

lemma apply_events_append: "apply_events (e1 @ e2) ks = apply_events e2 (apply_events e1 ks)"
  by (induction e1 ks rule: apply_events.induct) simp_all

lemma length_apply_events [simp]: "length (apply_events evs ks) = length ks"
  by (induction evs ks rule: apply_events.induct) simp_all

text \<open>One interrupt against the decoder: the queue, the key states and the prefix flag.\<close>

lemma kb_irq_step:
  assumes "kb_ok s" "kb_irq b s = Inr s'"
  shows "kb_ok s'" "kb_queue s' = kb_queue (fold kb_append (pressed (event_key (kb_ext s) b)) s)"
    "keystate s' = apply_events (event_key (kb_ext s) b) (keystate s)" "kb_ext s' \<longleftrightarrow> b = 0xe0"
proof -
  let ?k = "key_of (kb_ext s) b"
  have "?k \<noteq> -1" using key_of_range(1) [of "kb_ext s" b] by linarith
  then have ok1: "kb_ok (kb_append ?k s)" using kbq.put_ok [OF assms(1)] by simp
  have q: "kb_queue (kb_append ?k ((kb_hw b s)\<lparr>num_pressed := n\<rparr>)) = kb_queue (kb_append ?k s)" for n
    by (rule kb_queue_cong) simp_all
  from assms(2) have "kb_ok s' \<and> kb_queue s' = kb_queue (fold kb_append (pressed (event_key (kb_ext s) b)) s)
      \<and> keystate s' = apply_events (event_key (kb_ext s) b) (keystate s) \<and> (kb_ext s' \<longleftrightarrow> b = 0xe0)"
  proof (cases b s rule: kb_irq_cases)
    case prefix
    then show ?thesis using assms
      by (auto simp: event_key_def pressed_def kb_ok_def kb_inv_def kb_queue_def logs_def)
  next
    case make
    then have s': "s' = (kb_append ?k ((kb_hw b s)\<lparr>num_pressed := num_pressed s + 1\<rparr>))
            \<lparr>keystate := (keystate s)[nat ?k := 1]\<rparr>" using assms(2) by simp
    have "kb_queue s' = kb_queue (kb_append ?k s)"
      unfolding s' q [symmetric] by (rule kb_queue_cong) simp_all
    moreover have "kb_inv s' = kb_inv (kb_append ?k s)"
      unfolding s' by (rule kb_inv_cong) simp_all
    ultimately show ?thesis using ok1 make
      by (simp add: kb_ok_def event_key_def pressed_def s')
  next
    case break
    then have s': "s' = (kb_hw b s)\<lparr>num_pressed := (if 0 < num_pressed s then num_pressed s - 1 else num_pressed s),
         keystate := (keystate s)[nat ?k := 0]\<rparr>" using assms(2) by simp
    have "kb_queue s' = kb_queue s" unfolding s' by (rule kb_queue_cong) simp_all
    moreover have "kb_inv s' = kb_inv s" unfolding s' by (rule kb_inv_cong) simp_all
    ultimately show ?thesis using assms(1) break
      by (simp add: kb_ok_def event_key_def pressed_def s')
  qed simp
  then show "kb_ok s'" "kb_queue s' = kb_queue (fold kb_append (pressed (event_key (kb_ext s) b)) s)"
    "keystate s' = apply_events (event_key (kb_ext s) b) (keystate s)" "kb_ext s' \<longleftrightarrow> b = 0xe0"
    by simp_all
qed

lemma pressed_valid: "list_all (\<lambda>k. k \<noteq> -1) (pressed (kb_decode e bs))"
proof (induction bs arbitrary: e)
  case (Cons b bs)
  have "key_of e b \<noteq> -1" using key_of_range(1) [of e b] by linarith
  then show ?case using Cons.IH by (simp add: pressed_def)
qed (simp add: pressed_def)

lemma pressed_append [simp]: "pressed (a @ b) = pressed a @ pressed b"
  by (simp add: pressed_def)

lemma kb_feed_ok: "kb_ok s \<Longrightarrow> kb_feed bs s = Inr s' \<Longrightarrow> kb_ok s'"
proof (induction bs arbitrary: s)
  case (Cons b bs)
  then show ?case using kb_irq_step(1) by (auto split: sum.splits)
qed simp

lemma kb_feed_queue_take:
  assumes "kb_ok s" "kb_feed bs s = Inr s'"
  shows "kb_queue s' = drop (length (kb_queue s @ pressed (kb_decode (kb_ext s) bs)) - 63)
            (kb_queue s @ pressed (kb_decode (kb_ext s) bs))"
  using assms
proof (induction bs arbitrary: s)
  case Nil
  then show ?case using kbq.queue_bounded by (simp add: pressed_def)
next
  case (Cons b bs)
  then obtain s1 where s1: "kb_irq b s = Inr s1" "kb_feed bs s1 = Inr s'" by (auto split: sum.splits)
  note st = kb_irq_step [OF Cons.prems(1) s1(1)]
  have v: "list_all (\<lambda>k. k \<noteq> -1) (pressed (event_key (kb_ext s) b))"
    using key_of_range(1) [of "kb_ext s" b] by (auto simp: event_key_def pressed_def)
  have q1: "kb_queue s1 = drop (length (kb_queue s @ pressed (event_key (kb_ext s) b)) - 63)
      (kb_queue s @ pressed (event_key (kb_ext s) b))"
    using kbq.puts_queue [OF Cons.prems(1) v] st(2) by simp
  let ?q = "kb_queue s" and ?p = "pressed (event_key (kb_ext s) b)" and ?r = "pressed (kb_decode (b = 0xe0) bs)"
  have "kb_queue s' = drop (length (drop (length (?q @ ?p) - 63) (?q @ ?p) @ ?r) - 63)
      (drop (length (?q @ ?p) - 63) (?q @ ?p) @ ?r)"
    using Cons.IH [OF st(1) s1(2)] st(4) q1 by simp
  also have "\<dots> = drop (length (?q @ ?p @ ?r) - 63) (?q @ ?p @ ?r)"
  proof -
    have g: "drop (length (drop n xs @ ys) - 63) (drop n xs @ ys) = drop (length (xs @ ys) - 63) (xs @ ys)"
      if "n = length xs - 63" for n and xs ys :: "int list"
      using that by (cases "length xs \<le> 63") (auto simp: add.commute)
    show ?thesis using g [OF refl, of "?q @ ?p" ?r] by simp
  qed
  finally show ?case by (simp only: kb_decode_Cons pressed_append)
qed

lemma kb_feed_keystate_events:
  assumes "kb_ok s" "kb_feed bs s = Inr s'"
  shows "keystate s' = apply_events (kb_decode (kb_ext s) bs) (keystate s)"
  using assms
proof (induction bs arbitrary: s)
  case (Cons b bs)
  then obtain s1 where s1: "kb_irq b s = Inr s1" "kb_feed bs s1 = Inr s'" by (auto split: sum.splits)
  note st = kb_irq_step [OF Cons.prems(1) s1(1)]
  show ?case using Cons.IH [OF st(1) s1(2)] st(3,4) by (simp only: kb_decode_Cons apply_events_append)
qed simp

section \<open>What the handshake writes\<close>

lemma does_send_cmd: "does (kb_send_cmd c) [(KB_CMD_PORT, c)] m"
  unfolding kb_send_cmd_def kb_wait_write_def
  by (rule does_silent [OF does_poll]) (simp add: does_outb KB_CMD_PORT_def)

lemma does_send_data: "does (kb_send_data d) [(KB_DATA_PORT, d)] m"
  unfolding kb_send_data_def kb_wait_write_def
  by (rule does_silent [OF does_poll]) (simp add: does_outb KB_DATA_PORT_def)

lemma does_read_data: "does kb_read_data [] m"
  unfolding kb_read_data_def kb_wait_read_def
  by (intro does_silent does_poll does_iodelays does_inb)

lemma does_set_ccb: "does (set_ccb d) [(KB_CMD_PORT, KB_CMD_SET_CMDBYTE), (KB_DATA_PORT, d)] m"
proof -
  have "does (do { ok \<leftarrow> kb_wait_read; if ok then do { _ \<leftarrow> kb_read_data; ret () } else ret () }) [] m"
    for m :: "'a machine_scheme"
    by (rule does_silent) (auto simp: kb_wait_read_def intro: does_poll does_silent does_read_data does_ret)
  from does_bind [OF does_send_cmd does_bind [OF does_send_data this]] show ?thesis
    by (simp add: set_ccb_def)
qed

lemma does_get_ccb: "does get_ccb [(KB_CMD_PORT, KB_CMD_GET_CMDBYTE)] m"
  using does_bind [OF does_send_cmd does_read_data] unfolding get_ccb_def by simp

section \<open>Properties\<close>

text \<open>C4: after any sequence of keyboard interrupts that does not end in a reboot, the
  keys \<open>kb_getkey\<close> hands out are the newest 63 of the ones waiting before and the ones
  whose presses the bytes encode, oldest first: releases and prefixes never enter the
  buffer, and an overflow drops the oldest presses and nothing else.\<close>

theorem kb_feed_keys:
  assumes "kb_ok s" "kb_feed bs s = Inr s'"
  shows "kbq.drain n s' =
    take n (drop (length (kb_queue s @ pressed (kb_decode (kb_ext s) bs)) - 63)
      (kb_queue s @ pressed (kb_decode (kb_ext s) bs)))"
  using kbq.drain_queue [OF kb_feed_ok [OF assms]] kb_feed_queue_take [OF assms] by simp

definition kb0 :: keyb where
  "kb0 = \<lparr>io_log = [], dev8 = \<lambda>_ _. 0, dev16 = \<lambda>_ _. 0, dev32 = \<lambda>_ _. 0, intr_on = True,
     kb_buffer = replicate 64 0, buf_ridx = 60, buf_widx = 60, num_pressed = 0,
     keystate = replicate 256 0, kb_ext = False\<rparr>"

lemma kb0_ok: "kb_ok kb0"
  by (simp add: kb_ok_def kb_inv_def kb_queue_def ring_list_def kb0_def)

definition is_Inr :: "'a + 'b \<Rightarrow> bool" where
  "is_Inr x = (case x of Inl _ \<Rightarrow> False | Inr _ \<Rightarrow> True)"

lemma is_InrE: "is_Inr x \<Longrightarrow> (\<And>y. x = Inr y \<Longrightarrow> thesis) \<Longrightarrow> thesis"
  by (cases x) (simp_all add: is_Inr_def)

theorem kb_feed_keys_witness:
  "\<exists>s'. kb_feed [0x1e, 0x9e, 0xe0, 0x48, 0xe0, 0xc8, 0x1e] kb0 = Inr s' \<and> kbq.drain 64 s' = [97, KB_UP, 97]"
proof -
  have "is_Inr (kb_feed [0x1e, 0x9e, 0xe0, 0x48, 0xe0, 0xc8, 0x1e] kb0)" by code_simp
  then obtain s' where s': "kb_feed [0x1e, 0x9e, 0xe0, 0x48, 0xe0, 0xc8, 0x1e] kb0 = Inr s'" by (rule is_InrE)
  have "kb_queue kb0 @ pressed (kb_decode (kb_ext kb0) [0x1e, 0x9e, 0xe0, 0x48, 0xe0, 0xc8, 0x1e]) = [97, KB_UP, 97]"
    by code_simp
  then show ?thesis using s' kb_feed_keys [OF kb0_ok s', of 64] by simp
qed

lemma apply_events_nth:
  "j < length ks \<Longrightarrow> \<forall>(k, p) \<in> set evs. 0 \<le> k \<Longrightarrow>
    apply_events evs ks ! j =
      (case map_of (rev evs) (int j) of Some p \<Rightarrow> of_bool p | None \<Rightarrow> ks ! j)"
proof (induction evs arbitrary: ks)
  case (Cons ev evs)
  obtain k p where ev: "ev = (k, p)" by (cases ev)
  then have "0 \<le> k" using Cons.prems(2) by simp
  then have "nat k = j \<longleftrightarrow> k = int j" by linarith
  then show ?case using Cons.IH [of "ks[nat k := of_bool p]"] Cons.prems ev
    by (auto simp: map_add_def nth_list_update split: option.splits)
qed simp

lemma kb_decode_range: "(k, p) \<in> set (kb_decode e bs) \<Longrightarrow> 0 \<le> k \<and> k < 256"
proof (induction bs arbitrary: e)
  case (Cons b bs)
  then show ?case using key_of_range [of e b] by (auto split: if_splits)
qed simp

text \<open>After the interrupts, \<open>kb_isdown\<close> of a key code tells whether the last event of
  that key in the byte stream was a press, and is unchanged when the stream has none.\<close>

theorem kb_feed_isdown:
  assumes "kb_ok s" "kb_feed bs s = Inr s'" "0 \<le> key" "key < 256"
  shows "kb_isdown key s' =
    (case map_of (rev (kb_decode (kb_ext s) bs)) key of
       Some p \<Rightarrow> Some (of_bool p) | None \<Rightarrow> kb_isdown key s)"
proof -
  have "nat key < length (keystate s)" using assms by (simp add: kb_ok_def kb_inv_def nat_less_iff)
  from apply_events_nth [OF this, of "kb_decode (kb_ext s) bs"]
  have "keystate s' ! nat key = (case map_of (rev (kb_decode (kb_ext s) bs)) key of
      Some p \<Rightarrow> of_bool p | None \<Rightarrow> keystate s ! nat key)"
    using kb_feed_keystate_events [OF assms(1,2)] assms(3) kb_decode_range by fastforce
  then show ?thesis using assms(3,4)
    by (simp add: kb_isdown_def KB_ANY_def KB_ALT_def KB_CTRL_def split: option.splits)
qed

theorem kb_feed_isdown_witness:
  "\<exists>s'. kb_feed [0x1e, 0x30, 0x9e] kb0 = Inr s' \<and> kb_isdown 97 s' = Some 0"
proof -
  have "is_Inr (kb_feed [0x1e, 0x30, 0x9e] kb0)" by code_simp
  then obtain s' where s': "kb_feed [0x1e, 0x30, 0x9e] kb0 = Inr s'" by (rule is_InrE)
  have "map_of (rev (kb_decode (kb_ext kb0) [0x1e, 0x30, 0x9e])) 97 = Some False" by code_simp
  then show ?thesis using s' kb_feed_isdown [OF kb0_ok s', of 97] by simp
qed

text \<open>An interrupt reboots the machine exactly when its byte is the press of Delete
  while an Alt and a Ctrl key are held.\<close>

theorem kb_irq_reboot:
  "kb_irq b s = Inl e \<longleftrightarrow>
    e = Reboot \<and> \<not> bit b 7 \<and> key_of (kb_ext s) b = KB_DEL \<and> alt_held s \<and> ctrl_held s"
proof (cases "bit b 7")
  case True
  then show ?thesis by (cases b s rule: kb_irq_cases) simp_all
next
  case False
  then show ?thesis using kb_irq_make [OF False refl] by auto
qed

text \<open>A key put back is the next one read, in front of the keys that were waiting,
  of which the oldest is lost when the buffer was full.\<close>

theorem kb_putback_getkey:
  assumes "kb_inv s"
  shows "kb_queue (snd (kb_getkey (kb_putback k s))) =
      (if length (kb_queue s) < 63 then kb_queue s else tl (kb_queue s))
    \<and> fst (kb_getkey (kb_putback k s)) = k"
  using kb_queue_getkey [OF kb_queue_putback(1) [OF assms] kb_queue_putback(2) [OF assms]] by simp

theorem kb_putback_getkey_witness:
  "fst (kb_getkey (kb_putback 65 kb0)) = 65"
  using kb_putback_getkey [of kb0 65] kb0_ok by (simp add: kb_ok_def)

lemma kb_feed_append:
  "kb_feed (xs @ ys) s = (case kb_feed xs s of Inl e \<Rightarrow> Inl e | Inr s' \<Rightarrow> kb_feed ys s')"
  by (induction xs arbitrary: s) (simp_all split: sum.splits)

lemma kb_feed_repeat:
  assumes "\<not> bit c 7" "key_of False c \<noteq> KB_DEL" "\<not> kb_ext s"
  shows "\<exists>s'. kb_feed (replicate n c) s = Inr s' \<and> num_pressed s' = num_pressed s + of_nat n \<and> \<not> kb_ext s'
    \<and> keystate s' = (if n = 0 then keystate s else (keystate s)[nat (key_of False c) := 1])"
  using assms(3)
proof (induction n arbitrary: s)
  case (Suc n)
  let ?s1 = "(kb_append (key_of False c) ((kb_hw c s)\<lparr>num_pressed := num_pressed s + 1\<rparr>))
    \<lparr>keystate := (keystate s)[nat (key_of False c) := 1]\<rparr>"
  have "kb_irq c s = Inr ?s1" using kb_irq_make [OF assms(1) refl, of s] assms(2) Suc.prems by simp
  then show ?case using Suc.IH [of ?s1] by (auto simp: add_ac)
qed simp

text \<open>A held key's typematic repeats are counted as further keys: \<open>n\<close> makes of one
  key and its release leave the count behind \<open>kb_isdown(KB_ANY)\<close> at \<open>n - 1\<close>, although
  the key itself is up again.\<close>

theorem num_pressed_after_repeats:
  assumes "kb_ok s" "\<not> kb_ext s" "num_pressed s = 0" "\<not> bit c 7" "bit r 7" "r \<noteq> 0xe0"
    "r AND 0x7f = c AND 0x7f" "key_of False c \<noteq> KB_DEL" "0 < n" "n < 2 ^ 31"
  shows "\<exists>s'. kb_feed (replicate n c @ [r]) s = Inr s' \<and> kb_isdown KB_ANY s' = Some (int n - 1)
    \<and> kb_isdown (key_of False c) s' = Some 0"
proof -
  obtain t where t: "kb_feed (replicate n c) s = Inr t" "num_pressed t = of_nat n" "\<not> kb_ext t"
    using kb_feed_repeat [OF assms(4,8,2), of n] assms(3) by auto
  have key: "key_of False r = key_of False c" using assms(7) by (simp add: key_of_def)
  let ?u = "(kb_hw r t)\<lparr>num_pressed := of_nat n - 1, keystate := (keystate t)[nat (key_of False c) := 0]\<rparr>"
  have n: "unat (of_nat n :: u32) = n" using assms(10) by (simp add: unat_of_nat)
  then have pos: "0 < (of_nat n :: u32)" using assms(9) by (simp add: word_less_nat_alt)
  have u: "kb_irq r t = Inr ?u" using kb_irq_break [OF assms(5,6) refl, of t] t key pos by simp
  have "unat (of_nat n - 1 :: u32) = n - 1"
    using assms(9) n by (simp add: unat_sub_no_wrap)
  then have "uint (of_nat n - 1 :: u32) = int n - 1" using assms(9) by (simp add: uint_nat)
  moreover from this have "sint (of_nat n - 1 :: u32) = int n - 1"
    using assms(9,10) by (simp add: sint_uint signed_take_bit_int_eq_self)
  moreover have "length (keystate t) = 256"
    using kb_feed_ok [OF assms(1) t(1)] by (simp add: kb_ok_def kb_inv_def)
  ultimately show ?thesis
    using t u key_of_range [of False c] unfolding kb_feed_append
    by (simp add: kb_isdown_def KB_ANY_def KB_ALT_def KB_CTRL_def nat_less_iff)
qed

theorem num_pressed_after_repeats_witness:
  "\<exists>s'. kb_feed [0x1e, 0x1e, 0x1e, 0x9e] kb0 = Inr s' \<and> kb_isdown KB_ANY s' = Some 2 \<and> kb_isdown 97 s' = Some 0"
proof -
  have "key_of False 0x1e = 97" "\<not> bit (0x1e :: u8) 7" "bit (0x9e :: u8) 7" by code_simp+
  then show ?thesis using num_pressed_after_repeats [OF kb0_ok, of "0x1e" "0x9e" 3]
    by (simp add: kb0_def KB_DEL_def numeral_3_eq_3)
qed

text \<open>\<open>kb_set_translate\<close> is a read-modify-write of the controller's command byte: it
  asks for the byte, and writes back the answer with only the translation bit changed.\<close>

theorem kb_set_translate_writes:
  "\<exists>es. exec (kb_set_translate x) m = logs es m \<and>
     cmds es = [(KB_CMD_PORT, KB_CMD_GET_CMDBYTE), (KB_CMD_PORT, KB_CMD_SET_CMDBYTE),
       (KB_DATA_PORT, if x then result_of get_ccb m OR KB_CCB_KB_XLAT
                      else result_of get_ccb m AND NOT KB_CCB_KB_XLAT)]"
  using does_bind [OF does_get_ccb does_set_ccb, of "\<lambda>ccb. if x then ccb OR KB_CCB_KB_XLAT else ccb AND NOT KB_CCB_KB_XLAT" m]
  unfolding kb_set_translate_def does_def by simp

lemma kb_init_ok:
  assumes "length (kb_buffer s) = 64"
  shows "kb_ok (kb_init s) \<and> kb_queue (kb_init s) = []"
proof -
  let ?s = "s\<lparr>buf_ridx := 0, buf_widx := 0, num_pressed := 0, keystate := replicate 256 0\<rparr>"
  have "only_logs (do { kb_set_translate True; kb_intr_enable } :: (keyb, unit) state)"
    by (rule only_logs_bind) simp_all
  then obtain es where "kb_init s = logs es ?s" unfolding kb_init_def by (rule only_logsE)
  then show ?thesis using assms
    by (simp add: logs_def kb_ok_def kb_inv_def kb_queue_def ring_list_def)
qed

end
