(* ===== verification/Ram.thy ===== *)
theory Ram
  imports Prelude
begin

text \<open>
  Byte-addressed memory of the i386 and the routines that move blocks of it: \<open>memset\<close>
  and \<open>memcpy\<close> as \<open>src/libc/string_asm.s\<close> has them, byte and double-word instructions
  apart, \<open>memmove\<close> and \<open>memcmp\<close> of \<open>src/libc/string.c\<close>. A word is stored with its low
  byte first. The lemmas say which bytes a store changes and that loads see stores.
\<close>

type_synonym ram = "u32 \<Rightarrow> u8"

section \<open>Loads and stores\<close>

definition load16 :: "ram \<Rightarrow> u32 \<Rightarrow> u16" where
  "load16 m a = ucast (m a) OR push_bit 8 (ucast (m (a + 1)))"

definition store16 :: "ram \<Rightarrow> u32 \<Rightarrow> u16 \<Rightarrow> ram" where
  "store16 m a v = m(a := ucast v, a + 1 := ucast (drop_bit 8 v))"

definition load32 :: "ram \<Rightarrow> u32 \<Rightarrow> u32" where
  "load32 m a = ucast (m a) OR push_bit 8 (ucast (m (a + 1)))
     OR push_bit 16 (ucast (m (a + 2))) OR push_bit 24 (ucast (m (a + 3)))"

definition store32 :: "ram \<Rightarrow> u32 \<Rightarrow> u32 \<Rightarrow> ram" where
  "store32 m a v = m(a := ucast v, a + 1 := ucast (drop_bit 8 v),
     a + 2 := ucast (drop_bit 16 v), a + 3 := ucast (drop_bit 24 v))"

lemma bytes_join32:
  fixes v :: u32
  shows "(ucast (ucast v :: u8) :: u32) OR push_bit 8 (ucast (ucast (drop_bit 8 v) :: u8))
     OR push_bit 16 (ucast (ucast (drop_bit 16 v) :: u8))
     OR push_bit 24 (ucast (ucast (drop_bit 24 v) :: u8)) = v"
proof (rule bit_word_eqI)
  fix n assume "n < LENGTH(32)"
  then consider "n < 8" | "8 \<le> n" "n < 16" | "16 \<le> n" "n < 24" | "24 \<le> n" "n < 32" by fastforce
  then show "bit ((ucast (ucast v :: u8) :: u32) OR push_bit 8 (ucast (ucast (drop_bit 8 v) :: u8))
     OR push_bit 16 (ucast (ucast (drop_bit 16 v) :: u8))
     OR push_bit 24 (ucast (ucast (drop_bit 24 v) :: u8))) n = bit v n"
    by cases (auto simp: bit_or_iff bit_push_bit_iff bit_ucast_iff bit_drop_bit_eq)
qed

lemma word_add_neq: "0 < uint d \<Longrightarrow> a + d \<noteq> a" for a d :: "'a::len word"
  by auto

lemma load32_store32 [simp]: "load32 (store32 m a v) a = v"
proof -
  have "a + 1 \<noteq> a" "a + 2 \<noteq> a" "a + 3 \<noteq> a" by simp_all
  moreover have "a + 2 \<noteq> a + 1" "a + 3 \<noteq> a + 1" "a + 3 \<noteq> a + 2" by simp_all
  ultimately show ?thesis using bytes_join32 [of v] by (simp add: load32_def store32_def)
qed

section \<open>Which bytes an operation touches\<close>

text \<open>\<open>same_on S m m'\<close>: the memories agree on the addresses in \<open>S\<close>.\<close>

definition same_on :: "nat set \<Rightarrow> ram \<Rightarrow> ram \<Rightarrow> bool" where
  "same_on S m m' \<longleftrightarrow> (\<forall>x. unat x \<in> S \<longrightarrow> m' x = m x)"

lemma same_on_refl [simp]: "same_on S m m"
  by (simp add: same_on_def)

lemma same_on_trans: "same_on S m m' \<Longrightarrow> same_on S m' m'' \<Longrightarrow> same_on S m m''"
  by (simp add: same_on_def)

lemma same_on_subset: "same_on S m m' \<Longrightarrow> T \<subseteq> S \<Longrightarrow> same_on T m m'"
  unfolding same_on_def by blast

lemma unat_offset:
  fixes a :: u32
  assumes "unat a + n \<le> 2 ^ 32" "k < n" "unat d = k"
  shows "unat (a + d) = unat a + k"
  using assms by (simp add: unat_add_no_wrap)

lemma store32_other:
  fixes a x :: u32
  assumes "unat a + 4 \<le> 2 ^ 32" "unat x < unat a \<or> unat a + 4 \<le> unat x"
  shows "store32 m a v x = m x"
proof -
  have "unat (a + 1) = unat a + 1" "unat (a + 2) = unat a + 2" "unat (a + 3) = unat a + 3"
    using assms(1) by (simp_all add: unat_add_no_wrap)
  then have "x \<noteq> a \<and> x \<noteq> a + 1 \<and> x \<noteq> a + 2 \<and> x \<noteq> a + 3" using assms(2) by auto
  then show ?thesis by (simp add: store32_def)
qed

lemma same_on_store32:
  fixes a :: u32
  assumes "unat a + 4 \<le> 2 ^ 32" "S \<inter> {unat a..<unat a + 4} = {}"
  shows "same_on S m (store32 m a v)"
  unfolding same_on_def
proof (intro allI impI)
  fix x :: u32 assume "unat x \<in> S"
  then have "unat x \<notin> {unat a..<unat a + 4}" using assms(2) by blast
  then show "store32 m a v x = m x" by (intro store32_other [OF assms(1)]) auto
qed

lemma load32_same:
  fixes a :: u32
  assumes "same_on {unat a..<unat a + 4} m m'" "unat a + 4 \<le> 2 ^ 32"
  shows "load32 m' a = load32 m a"
proof -
  have u: "unat (a + 1) = unat a + 1" "unat (a + 2) = unat a + 2" "unat (a + 3) = unat a + 3"
    using assms(2) by (simp_all add: unat_add_no_wrap)
  have "m' y = m y" if "unat y \<in> {unat a..<unat a + 4}" for y :: u32
    using assms(1) that by (simp add: same_on_def)
  from this [of a] this [of "a + 1"] this [of "a + 2"] this [of "a + 3"] u
  show ?thesis by (simp add: load32_def)
qed

lemma load32_store32_other:
  fixes a b :: u32
  assumes "unat a + 4 \<le> 2 ^ 32" "unat b + 4 \<le> 2 ^ 32" "unat b + 4 \<le> unat a \<or> unat a + 4 \<le> unat b"
  shows "load32 (store32 m a v) b = load32 m b"
proof (rule load32_same [OF same_on_store32 [OF assms(1)] assms(2)])
  show "{unat b..<unat b + 4} \<inter> {unat a..<unat a + 4} = {}" using assms(3) by auto
qed

section \<open>memset and memcpy\<close>

text \<open>\<open>stosb\<close> repeated: \<open>n\<close> bytes from \<open>a\<close> on.\<close>

fun stosb :: "nat \<Rightarrow> ram \<Rightarrow> u32 \<Rightarrow> u8 \<Rightarrow> ram" where
  "stosb 0 m a c = m"
| "stosb (Suc n) m a c = stosb n (m(a := c)) (a + 1) c"

fun stosl :: "nat \<Rightarrow> ram \<Rightarrow> u32 \<Rightarrow> u32 \<Rightarrow> ram" where
  "stosl 0 m a v = m"
| "stosl (Suc n) m a v = stosl n (store32 m a v) (a + 4) v"

text \<open>The assembly fills 1, 2 or 3 bytes first when the low bits of the address are 1, 2
  or 3, counting \<open>ecx\<close> down, then \<open>ecx >> 2\<close> double words and the \<open>ecx & 3\<close> bytes left.\<close>

definition memset_main :: "ram \<Rightarrow> u32 \<Rightarrow> u8 \<Rightarrow> u32 \<Rightarrow> ram" where
  "memset_main m edi c ecx = (
     let eax = ucast c OR push_bit 8 (ucast c) OR push_bit 16 (ucast c) OR push_bit 24 (ucast c);
         k = unat (drop_bit 2 ecx);
         m = stosl k m edi eax
     in stosb (unat (ecx AND 3)) m (edi + of_nat (4 * k)) c)"

definition memset :: "ram \<Rightarrow> u32 \<Rightarrow> u8 \<Rightarrow> u32 \<Rightarrow> ram" where
  "memset m edi c ecx = (
     if ecx = 0 then m
     else let pre = unat (edi AND 3)
       in if pre = 0 then memset_main m edi c ecx
          else let m = stosb pre m edi c;
                   edi = edi + of_nat pre;
                   ecx = ecx - of_nat pre
               in if ecx = 0 then m else memset_main m edi c ecx)"

fun movsb :: "nat \<Rightarrow> ram \<Rightarrow> u32 \<Rightarrow> u32 \<Rightarrow> ram" where
  "movsb 0 m dst src = m"
| "movsb (Suc n) m dst src = movsb n (m(dst := m src)) (dst + 1) (src + 1)"

fun movsl :: "nat \<Rightarrow> ram \<Rightarrow> u32 \<Rightarrow> u32 \<Rightarrow> ram" where
  "movsl 0 m dst src = m"
| "movsl (Suc n) m dst src = movsl n (store32 m dst (load32 m src)) (dst + 4) (src + 4)"

definition memcpy :: "ram \<Rightarrow> u32 \<Rightarrow> u32 \<Rightarrow> u32 \<Rightarrow> ram" where
  "memcpy m dst src n = (
     if n = 0 then m
     else let k = unat (drop_bit 2 n)
       in movsb (unat (n AND 3)) (movsl k m dst src) (dst + of_nat (4 * k)) (src + of_nat (4 * k)))"

lemma stosb_append: "stosb (j + k) m a c = stosb k (stosb j m a c) (a + of_nat j) c"
  by (induction j arbitrary: m a) (simp_all add: algebra_simps)

lemma store32_bytes:
  "store32 m a (ucast c OR push_bit 8 (ucast c) OR push_bit 16 (ucast c) OR push_bit 24 (ucast c))
     = stosb 4 m a c" for c :: u8
proof -
  let ?v = "ucast c OR push_bit 8 (ucast c) OR push_bit 16 (ucast c) OR push_bit 24 (ucast c) :: u32"
  have "ucast ?v = c" "ucast (drop_bit 8 ?v) = c" "ucast (drop_bit 16 ?v) = c" "ucast (drop_bit 24 ?v) = c"
    by (rule bit_word_eqI;
        auto simp: bit_or_iff bit_push_bit_iff bit_ucast_iff bit_drop_bit_eq dest: bit_imp_le_length)+
  then show ?thesis by (simp add: store32_def numeral_eq_Suc add.assoc)
qed

lemma stosl_bytes:
  "stosl k m a (ucast c OR push_bit 8 (ucast c) OR push_bit 16 (ucast c) OR push_bit 24 (ucast c))
     = stosb (4 * k) m a c" for c :: u8
proof (induction k arbitrary: m a)
  case (Suc k)
  have "stosb (4 * Suc k) m a c = stosb (4 * k) (stosb 4 m a c) (a + 4) c"
    using stosb_append [of 4 "4 * k" m a c] by simp
  with Suc show ?case by (simp add: store32_bytes)
qed simp

text \<open>The bytes \<open>k\<close> steps above an address, for \<open>k < n\<close>.\<close>

lemma of_nat_u32_eq: "j < 2 ^ 32 \<Longrightarrow> k < 2 ^ 32 \<Longrightarrow> (of_nat j :: u32) = of_nat k \<longleftrightarrow> j = k"
  by (auto dest!: arg_cong [of _ _ unat] simp: unat_of_nat)

lemma stosb_apply:
  assumes "n \<le> 2 ^ 32"
  shows "stosb n m a c x = (if unat (x - a) < n then c else m x)"
  using assms
proof (induction n arbitrary: m a)
  case (Suc n)
  show ?case
  proof (cases "x = a")
    case True
    have "unat (a - (a + 1)) = 2 ^ 32 - 1" by (simp add: unsigned_minus_1_eq_mask mask_eq_exp_minus_1)
    then show ?thesis using Suc True by simp
  next
    case False
    then have "x - a \<noteq> 0" by simp
    then have "0 < unat (x - a)" by (simp add: unat_gt_0)
    moreover from this have "unat (x - a - 1) = unat (x - a) - 1" by (simp add: unat_sub_no_wrap)
    moreover have "x - (a + 1) = x - a - 1" by simp
    ultimately have "unat (x - (a + 1)) < n \<longleftrightarrow> unat (x - a) < Suc n" by (simp only:) linarith
    then show ?thesis using Suc False by simp
  qed
qed simp

lemma ecx_split:
  fixes n :: u32
  shows "4 * unat (drop_bit 2 n) + unat (n AND 3) = unat n"
proof -
  have "unat (n AND 3) = unat n mod 4"
    using nat_and_mask [of "unat n" 2] by (simp add: unsigned_and_eq)
  moreover have "unat (drop_bit 2 n) = unat n div 4"
    by (simp add: unsigned_drop_bit_eq drop_bit_eq_div unat_div)
  ultimately show ?thesis by simp
qed

lemma memset_main_eq: "memset_main m a c n = stosb (unat n) m a c"
  using stosb_append [of "4 * unat (drop_bit 2 n)" "unat (n AND 3)" m a c]
  by (simp add: memset_main_def Let_def stosl_bytes ecx_split)

lemma memset_eq:
  assumes "unat (a AND 3) \<le> unat n"
  shows "memset m a c n = stosb (unat n) m a c"
proof -
  let ?p = "unat (a AND 3)"
  have p: "unat (of_nat ?p :: u32) = ?p" by simp
  have u: "unat (n - of_nat ?p) = unat n - ?p" using assms by (simp add: unat_sub_no_wrap)
  have "stosb (unat n) m a c = stosb (unat n - ?p) (stosb ?p m a c) (a + of_nat ?p) c"
    using stosb_append [of ?p "unat n - ?p" m a c] assms by simp
  then have main: "memset_main (stosb ?p m a c) (a + of_nat ?p) c (n - of_nat ?p) = stosb (unat n) m a c"
    by (simp only: memset_main_eq u)
  show ?thesis
  proof (cases "n - of_nat ?p = 0")
    case True
    then have "stosb (unat n) m a c = stosb ?p m a c" using main by (simp add: memset_main_eq)
    then show ?thesis using True main by (cases "n = 0") (simp_all add: memset_def Let_def memset_main_eq)
  next
    case False
    then show ?thesis using main by (cases "n = 0") (simp_all add: memset_def Let_def memset_main_eq)
  qed
qed

lemma memset_apply:
  "unat (a AND 3) \<le> unat n \<Longrightarrow> memset m a c n x = (if unat (x - a) < unat n then c else m x)"
  using unat_u32_less [of n] by (simp add: memset_eq stosb_apply)

text \<open>\<open>memcpy\<close> between buffers that do not overlap.\<close>

lemma unat_diff_add: "unat (x - a) < 2 ^ 32" for x a :: u32
  using unat_u32_less [of "x - a"] by simp

lemma movsb_apply:
  assumes "n \<le> 2 ^ 32" "\<And>j. j < n \<Longrightarrow> n \<le> unat (src + of_nat j - dst)"
  shows "movsb n m dst src x = (if unat (x - dst) < n then m (src + (x - dst)) else m x)"
  using assms
proof (induction n arbitrary: m dst src)
  case (Suc n)
  let ?m = "m(dst := m src)"
  have "n \<le> unat (src + 1 + of_nat j - (dst + 1))" if "j < n" for j
    using Suc.prems(2) [of j] that by (simp add: add_diff_eq)
  then have IH: "movsb n ?m (dst + 1) (src + 1) x =
      (if unat (x - (dst + 1)) < n then ?m (src + 1 + (x - (dst + 1))) else ?m x)"
    using Suc.prems(1) by (intro Suc.IH) simp_all
  show ?case
  proof (cases "x = dst")
    case True
    have "unat (dst - (dst + 1)) = 2 ^ 32 - 1" by (simp add: unsigned_minus_1_eq_mask mask_eq_exp_minus_1)
    then show ?thesis using IH True Suc.prems(1) by simp
  next
    case False
    then have "x - dst \<noteq> 0" by simp
    then have pos: "0 < unat (x - dst)" by (simp add: unat_gt_0)
    then have d: "unat (x - dst - 1) = unat (x - dst) - 1" by (simp add: unat_sub_no_wrap)
    have e: "x - (dst + 1) = x - dst - 1" by simp
    have lt: "unat (x - (dst + 1)) < n \<longleftrightarrow> unat (x - dst) < Suc n" unfolding e d using pos by linarith
    have "src + (x - dst) \<noteq> dst" if "unat (x - dst) < Suc n"
    proof -
      have "Suc n \<le> unat (src + of_nat (unat (x - dst)) - dst)" using Suc.prems(2) that by blast
      then show ?thesis by auto
    qed
    then show ?thesis using IH lt False by (auto simp: algebra_simps)
  qed
qed simp


lemma load32_bytes:
  "ucast (load32 m a) = m a" "ucast (drop_bit 8 (load32 m a)) = m (a + 1)"
  "ucast (drop_bit 16 (load32 m a)) = m (a + 2)" "ucast (drop_bit 24 (load32 m a)) = m (a + 3)"
  unfolding load32_def
  by (rule bit_word_eqI;
      auto simp: bit_or_iff bit_push_bit_iff bit_ucast_iff bit_drop_bit_eq dest: bit_imp_le_length)+

lemma movsb_append:
  "movsb (j + k) m dst src = movsb k (movsb j m dst src) (dst + of_nat j) (src + of_nat j)"
  by (induction j arbitrary: m dst src) (simp_all add: algebra_simps)

lemma u32_less_4:
  fixes y :: u32
  assumes "unat y < 4"
  shows "y \<in> {0, 1, 2, 3}"
proof -
  have "\<exists>k \<in> {0, 1, 2, 3}. y = of_nat k" using assms by (intro bexI [of _ "unat y"]) auto
  then show ?thesis by auto
qed

lemma movsl_step:
  assumes "\<And>j. j < 4 \<Longrightarrow> 4 \<le> unat (src + of_nat j - dst)"
  shows "store32 m dst (load32 m src) = movsb 4 m dst src"
proof
  fix x
  have "movsb 4 m dst src x = (if unat (x - dst) < 4 then m (src + (x - dst)) else m x)"
    using assms by (intro movsb_apply) simp_all
  moreover have "unat (x - dst) < 4 \<longleftrightarrow> x - dst \<in> {0, 1, 2, 3}"
  proof
    assume "unat (x - dst) < 4"
    then show "x - dst \<in> {0, 1, 2, 3}" by (rule u32_less_4)
  qed auto
  moreover have "store32 m dst (load32 m src) x = (if x - dst \<in> {0, 1, 2, 3} then m (src + (x - dst)) else m x)"
  proof (cases "x - dst \<in> {0, 1, 2, 3}")
    case True
    then consider "x = dst" | "x = dst + 1" | "x = dst + 2" | "x = dst + 3"
      by (metis add.right_neutral diff_add_cancel add.commute empty_iff insert_iff)
    then show ?thesis using True by cases (simp_all add: store32_def load32_bytes)
  next
    case False
    then have "x \<noteq> dst \<and> x \<noteq> dst + 1 \<and> x \<noteq> dst + 2 \<and> x \<noteq> dst + 3" by auto
    then show ?thesis using False by (simp only: store32_def fun_upd_other if_False simp_thms)
  qed
  ultimately show "store32 m dst (load32 m src) x = movsb 4 m dst src x" by (simp only:)
qed

lemma movsl_eq:
  assumes "4 * k \<le> 2 ^ 32" "\<And>j. j < 4 * k \<Longrightarrow> 4 * k \<le> unat (src + of_nat j - dst)"
  shows "movsl k m dst src = movsb (4 * k) m dst src"
  using assms
proof (induction k arbitrary: m dst src)
  case (Suc k)
  have "4 * k \<le> unat (src + 4 + of_nat j - (dst + 4))" if "j < 4 * k" for j
    using Suc.prems(2) [of j] that by (simp add: add_diff_eq)
  then have IH: "movsl k m' (dst + 4) (src + 4) = movsb (4 * k) m' (dst + 4) (src + 4)" for m'
    using Suc.prems(1) by (intro Suc.IH) simp_all
  have "4 \<le> unat (src + of_nat j - dst)" if "j < 4" for j
    using Suc.prems(2) [of j] that by simp
  from movsl_step [OF this] have "store32 m dst (load32 m src) = movsb 4 m dst src" .
  then show ?case using IH movsb_append [of 4 "4 * k" m dst src] by simp
qed simp

lemma memcpy_apply:
  assumes "\<And>j. j < unat n \<Longrightarrow> unat n \<le> unat (src + of_nat j - dst)"
  shows "memcpy m dst src n x = (if unat (x - dst) < unat n then m (src + (x - dst)) else m x)"
proof -
  let ?k = "unat (drop_bit 2 n)" and ?r = "unat (n AND 3)"
  have n: "4 * ?k + ?r = unat n" by (rule ecx_split)
  have le: "unat n \<le> 2 ^ 32" using unat_u32_less [of n] by simp
  have "4 * ?k \<le> unat (src + of_nat j - dst)" if "j < 4 * ?k" for j
    using assms [of j] that n by linarith
  then have "movsl ?k m dst src = movsb (4 * ?k) m dst src"
    using n le by (intro movsl_eq) linarith+
  then have "memcpy m dst src n = movsb (unat n) m dst src"
    using movsb_append [of "4 * ?k" ?r m dst src] n by (auto simp: memcpy_def Let_def)
  then show ?thesis using movsb_apply [OF le, of src dst m x] assms by simp
qed

end
