(* ===== verification/Malloc.thy ===== *)
theory Malloc
  imports Ram Page_Alloc
begin

text \<open>
  The heap of \<open>src/libc/malloc.c\<close>, in its configuration (\<open>SINGLE_POOL\<close>): blocks with a
  12-byte descriptor in front, in byte-addressed memory, and one free list sorted by
  address. The loops follow \<open>next\<close> pointers in memory and are \<open>partial_function (option)\<close>,
  \<open>None\<close> when a list never ends. The abstract heap is the list of free blocks and the
  set of blocks handed out; the lemmas say how each operation changes it and that it
  leaves the contents of every other block alone.
\<close>

section \<open>Descriptors\<close>

text \<open>\<open>struct mem_desc\<close> has three words: \<open>size\<close>, \<open>magic\<close> and \<open>next\<close>.\<close>

definition MAGIC_USED :: u32 where "MAGIC_USED = 0xdeadf00d"
definition MAGIC_FREE :: u32 where "MAGIC_FREE = 0x1ee7d00d"
definition ENOMEM :: int where "ENOMEM = 6"
definition DESC_SIZE :: u32 where "DESC_SIZE = 12"
definition MIN_BLOCK_SIZE :: u32 where "MIN_BLOCK_SIZE = DESC_SIZE * 2"

definition DESC_PTR :: "u32 \<Rightarrow> u32" where "DESC_PTR b = b + DESC_SIZE"
definition PTR_DESC :: "u32 \<Rightarrow> u32" where "PTR_DESC p = p - DESC_SIZE"

definition d_size :: "ram \<Rightarrow> u32 \<Rightarrow> u32" where "d_size m a = load32 m a"
definition d_magic :: "ram \<Rightarrow> u32 \<Rightarrow> u32" where "d_magic m a = load32 m (a + 4)"
definition d_next :: "ram \<Rightarrow> u32 \<Rightarrow> u32" where "d_next m a = load32 m (a + 8)"

definition set_size :: "u32 \<Rightarrow> u32 \<Rightarrow> ram \<Rightarrow> ram" where "set_size a v m = store32 m a v"
definition set_magic :: "u32 \<Rightarrow> u32 \<Rightarrow> ram \<Rightarrow> ram" where "set_magic a v m = store32 m (a + 4) v"
definition set_next :: "u32 \<Rightarrow> u32 \<Rightarrow> ram \<Rightarrow> ram" where "set_next a v m = store32 m (a + 8) v"

lemmas field_defs = d_size_def d_magic_def d_next_def set_size_def set_magic_def set_next_def

record heap =
  pages :: page_state
  ram :: ram
  pool :: u32
  errno :: int

text \<open>\<open>prev\<close> points to the \<open>dummy\<close> on the stack, of which only \<open>next\<close> has a value, or to a
  descriptor in memory. The loops carry the memory and \<open>dummy.next\<close>.\<close>

datatype link = Dummy | At u32

definition next_of :: "ram \<Rightarrow> u32 \<Rightarrow> link \<Rightarrow> u32" where
  "next_of m d l = (case l of Dummy \<Rightarrow> d | At a \<Rightarrow> d_next m a)"

definition set_link :: "link \<Rightarrow> u32 \<Rightarrow> ram \<times> u32 \<Rightarrow> ram \<times> u32" where
  "set_link l v = (\<lambda>(m, d). case l of Dummy \<Rightarrow> (m, v) | At a \<Rightarrow> (set_next a v m, d))"

section \<open>free\<close>

text \<open>The loop of \<open>free\<close>: memory and \<open>dummy.next\<close> at \<open>done\<close>. The pool is not empty, so the
  block before the end of the list is never the dummy; reading \<open>dummy.size\<close> would be
  reading an uninitialised variable.\<close>

partial_function (option) free_scan ::
    "ram \<Rightarrow> u32 \<Rightarrow> link \<Rightarrow> u32 \<Rightarrow> u32 \<Rightarrow> (ram \<times> u32) option" where
  "free_scan m d prev mem fin =
     (let cur = next_of m d prev
      in if cur = 0 then
           (case prev of
              Dummy \<Rightarrow> None
            | At p \<Rightarrow>
                if p + d_size m p = mem then
                  let m = set_magic mem 0 m
                  in Some (set_size p (d_size m p + d_size m mem) m, d)
                else Some (set_link prev mem (m, d)))
         else if cur = fin then
           (let m = set_size mem (d_size m mem + d_size m cur) m;
                m = set_next mem (d_next m cur) m;
                m = set_magic cur 0 m
            in Some (set_link prev mem (m, d)))
         else if cur > fin then
           Some (set_link prev mem (set_next mem cur m, d))
         else free_scan m d (At cur) mem fin)"

definition free :: "u32 \<Rightarrow> heap \<Rightarrow> (fault + heap) option" where
  "free p h =
     (if p = 0 then Some (Inr h)
      else
        let mem = PTR_DESC p; m = ram h
        in if d_magic m mem \<noteq> MAGIC_USED then
             Some (Inl (if d_magic m mem = MAGIC_FREE then Panic ''free: double-free''
                        else Panic ''free: corrupted magic''))
           else
             let m = set_magic mem MAGIC_FREE m;
                 m = set_next mem 0 m
             in if pool h = 0 then Some (Inr (h\<lparr>ram := m, pool := mem\<rparr>))
                else
                  let fin = mem + d_size m mem
                  in map_option (\<lambda>(m, d). Inr (h\<lparr>ram := m, pool := d\<rparr>))
                       (free_scan m (pool h) Dummy mem fin))"

section \<open>malloc\<close>

definition total_size :: "u32 \<Rightarrow> u32" where
  "total_size sz = (sz + DESC_SIZE + 3) AND 0xfffffffc"

text \<open>The search: memory and \<open>dummy.next\<close> after it, and the block found.\<close>

partial_function (option) malloc_scan ::
    "ram \<Rightarrow> u32 \<Rightarrow> link \<Rightarrow> u32 \<Rightarrow> (ram \<times> u32 \<times> u32 option) option" where
  "malloc_scan m d prev total_sz =
     (let mem = next_of m d prev
      in if mem = 0 then Some (m, d, None)
         else if d_size m mem \<ge> total_sz \<and> d_size m mem < total_sz + MIN_BLOCK_SIZE then
           (case set_link prev (d_next m mem) (m, d) of (m', d') \<Rightarrow> Some (m', d', Some mem))
         else if d_size m mem > total_sz then
           (let ptr = mem + d_size m mem - total_sz
            in Some (set_size mem (d_size m mem - total_sz) m, d, Some ptr))
         else malloc_scan m d (At mem) total_sz)"

declare free_scan.simps [code] malloc_scan.simps [code]

definition take_block :: "u32 \<Rightarrow> u32 \<Rightarrow> ram \<Rightarrow> ram" where
  "take_block mem total_sz m = set_next mem 0 (set_magic mem MAGIC_USED (set_size mem total_sz m))"

definition malloc :: "u32 \<Rightarrow> heap \<Rightarrow> (fault + u32 \<times> heap) option" where
  "malloc sz h =
     (let total_sz = total_size sz
      in case malloc_scan (ram h) (pool h) Dummy total_sz of
           None \<Rightarrow> None
         | Some (m, d, Some mem) \<Rightarrow>
             Some (Inr (DESC_PTR mem, h\<lparr>ram := take_block mem total_sz m, pool := d\<rparr>))
         | Some (m, d, None) \<Rightarrow>
             let h = h\<lparr>ram := m, pool := d\<rparr>;
                 npages = bytes_to_pages total_sz
             in case alloc_ppages (pages h) (sint npages) 0 of
                  None \<Rightarrow> None
                | Some (ps, pg0) \<Rightarrow>
                    let h = h\<lparr>pages := ps\<rparr>
                    in if pg0 = -1 then Some (Inr (0, h\<lparr>errno := ENOMEM\<rparr>))
                       else
                         let mem = page_to_addr (word_of_int pg0);
                             m = set_magic mem MAGIC_USED (set_next mem 0 (set_size mem total_sz (ram h)));
                             rest_sz = npages * 4096 - total_sz
                         in if rest_sz > 0 then
                              let rest = mem + total_sz;
                                  m = set_magic rest MAGIC_USED (set_next rest 0 (set_size rest rest_sz m))
                              in map_option (\<lambda>r. case r of Inl e \<Rightarrow> Inl e | Inr h \<Rightarrow> Inr (DESC_PTR mem, h))
                                   (free (DESC_PTR rest) (h\<lparr>ram := m\<rparr>))
                            else Some (Inr (DESC_PTR mem, h\<lparr>ram := m\<rparr>)))"

section \<open>calloc and realloc\<close>

definition calloc :: "u32 \<Rightarrow> u32 \<Rightarrow> heap \<Rightarrow> (fault + u32 \<times> heap) option" where
  "calloc num sz h =
     map_option (\<lambda>r. case r of
         Inl e \<Rightarrow> Inl e
       | Inr (ptr, h) \<Rightarrow>
           Inr (ptr, if ptr \<noteq> 0 then h\<lparr>ram := memset (ram h) ptr 0 (num * sz)\<rparr> else h))
       (malloc (num * sz) h)"

definition realloc :: "u32 \<Rightarrow> u32 \<Rightarrow> heap \<Rightarrow> (fault + u32 \<times> heap) option" where
  "realloc ptr sz h =
     (if ptr = 0 then malloc sz h
      else
        let mem = PTR_DESC ptr
        in if d_size (ram h) mem \<ge> sz then Some (Inr (ptr, h))
           else case malloc sz h of
                  None \<Rightarrow> None
                | Some (Inl e) \<Rightarrow> Some (Inl e)
                | Some (Inr (newp, h)) \<Rightarrow>
                    if newp = 0 then Some (Inr (0, h))
                    else
                      let h = h\<lparr>ram := memcpy (ram h) newp ptr (d_size (ram h) mem)\<rparr>
                      in map_option (\<lambda>r. case r of Inl e \<Rightarrow> Inl e | Inr h \<Rightarrow> Inr (newp, h)) (free ptr h))"

section \<open>Fields\<close>

lemma fields_same_desc [simp]:
  "d_size (set_size a v m) a = v" "d_size (set_magic a v m) a = d_size m a" "d_size (set_next a v m) a = d_size m a"
  "d_magic (set_size a v m) a = d_magic m a" "d_magic (set_magic a v m) a = v" "d_magic (set_next a v m) a = d_magic m a"
  "d_next (set_size a v m) a = d_next m a" "d_next (set_magic a v m) a = d_next m a" "d_next (set_next a v m) a = v"
proof -
  show "d_size (set_size a v m) a = v" "d_magic (set_magic a v m) a = v" "d_next (set_next a v m) a = v"
    by (simp_all add: field_defs)
qed (simp_all add: field_defs load32_def store32_def add.assoc)

text \<open>The bytes of the descriptors of a list of blocks, a block being its address and size.\<close>

definition desc :: "nat \<Rightarrow> nat set" where "desc a = {a..<a + 12}"

definition descs :: "(nat \<times> nat) list \<Rightarrow> nat set" where "descs bs = (\<Union>(a, n) \<in> set bs. desc a)"

definition region :: "nat \<times> nat \<Rightarrow> nat set" where "region b = {fst b..<fst b + snd b}"

definition regions :: "(nat \<times> nat) list \<Rightarrow> nat set" where "regions bs = (\<Union>b \<in> set bs. region b)"

lemma descs_simps [simp]: "descs [] = {}" "descs (b # bs) = desc (fst b) \<union> descs bs"
  "descs (bs @ cs) = descs bs \<union> descs cs"
  by (auto simp: descs_def)

lemma regions_simps [simp]: "regions [] = {}" "regions (b # bs) = region b \<union> regions bs"
  "regions (bs @ cs) = regions bs \<union> regions cs"
  by (auto simp: regions_def)

lemma unat_of_nat_addr: "a + 12 \<le> 2 ^ 32 \<Longrightarrow> unat (of_nat a :: u32) = a"
  by (simp add: unat_of_nat)

lemma set_field_same:
  assumes "a + 12 \<le> 2 ^ 32" "S \<inter> desc a = {}"
  shows "same_on S m (set_size (of_nat a) v m)" "same_on S m (set_magic (of_nat a) v m)"
    "same_on S m (set_next (of_nat a) v m)"
proof -
  let ?a = "of_nat a :: u32"
  have a: "unat ?a = a" using assms(1) by (rule unat_of_nat_addr)
  have a4: "unat (?a + 4) = a + 4" and a8: "unat (?a + 8) = a + 8"
    using assms(1) a by (simp_all add: unat_add_no_wrap)
  have "{a..<a + 4} \<subseteq> desc a" "{a + 4..<a + 4 + 4} \<subseteq> desc a" "{a + 8..<a + 8 + 4} \<subseteq> desc a"
    by (auto simp: desc_def)
  then have "S \<inter> {unat ?a..<unat ?a + 4} = {}" "S \<inter> {unat (?a + 4)..<unat (?a + 4) + 4} = {}"
    "S \<inter> {unat (?a + 8)..<unat (?a + 8) + 4} = {}"
    using assms(2) unfolding a a4 a8 by blast+
  then show "same_on S m (set_size ?a v m)" "same_on S m (set_magic ?a v m)" "same_on S m (set_next ?a v m)"
    using assms(1) a a4 a8 unfolding field_defs by (auto intro!: same_on_store32)
qed

lemma fields_same_on:
  assumes "a + 12 \<le> 2 ^ 32" "same_on (desc a) m m'"
  shows "d_size m' (of_nat a) = d_size m (of_nat a)" "d_magic m' (of_nat a) = d_magic m (of_nat a)"
    "d_next m' (of_nat a) = d_next m (of_nat a)"
proof -
  let ?a = "of_nat a :: u32"
  have a: "unat ?a = a" using assms(1) by (rule unat_of_nat_addr)
  have a4: "unat (?a + 4) = a + 4" and a8: "unat (?a + 8) = a + 8"
    using assms(1) a by (simp_all add: unat_add_no_wrap)
  have "{a..<a + 4} \<subseteq> desc a" "{a + 4..<a + 4 + 4} \<subseteq> desc a" "{a + 8..<a + 8 + 4} \<subseteq> desc a"
    by (auto simp: desc_def)
  then show "d_size m' ?a = d_size m ?a" "d_magic m' ?a = d_magic m ?a" "d_next m' ?a = d_next m ?a"
    using assms a a4 a8 unfolding field_defs by (auto intro!: load32_same elim: same_on_subset)
qed

section \<open>The free list in memory\<close>

fun placed :: "nat \<Rightarrow> (nat \<times> nat) list \<Rightarrow> bool" where
  "placed lo [] = True"
| "placed lo ((a, n) # bs) = (lo \<le> a \<and> 12 \<le> n \<and> a + n < 2 ^ 32 \<and> placed (a + n) bs)"

fun seg :: "ram \<Rightarrow> u32 \<Rightarrow> (nat \<times> nat) list \<Rightarrow> u32 \<Rightarrow> bool" where
  "seg m p [] q = (p = q)"
| "seg m p ((a, n) # bs) q =
     (p = of_nat a \<and> d_size m p = of_nat n \<and> d_magic m p = MAGIC_FREE \<and> seg m (d_next m p) bs q)"

lemma seg_append: "seg m p (xs @ ys) q \<longleftrightarrow> (\<exists>r. seg m p xs r \<and> seg m r ys q)"
  by (induction m p xs q rule: seg.induct) auto

lemma placed_append: "placed lo (xs @ ys) \<longleftrightarrow>
    placed lo xs \<and> placed (if xs = [] then lo else fst (last xs) + snd (last xs)) ys"
  by (induction lo xs rule: placed.induct) auto

lemma placed_lower: "placed lo bs \<Longrightarrow> lo' \<le> lo \<Longrightarrow> placed lo' bs"
  by (cases bs) auto

lemma placed_region: "placed lo bs \<Longrightarrow> x \<in> regions bs \<Longrightarrow> lo \<le> x"
proof (induction lo bs rule: placed.induct)
  case (2 lo a n bs)
  then show ?case by (fastforce simp: region_def)
qed simp

lemma placed_bound: "placed lo bs \<Longrightarrow> (a, n) \<in> set bs \<Longrightarrow> lo \<le> a \<and> 12 \<le> n \<and> a + n < 2 ^ 32"
  by (induction lo bs rule: placed.induct) fastforce+

lemma desc_region: "12 \<le> n \<Longrightarrow> desc a \<subseteq> region (a, n)"
  by (auto simp: desc_def region_def)

lemma descs_regions: "placed lo bs \<Longrightarrow> descs bs \<subseteq> regions bs"
  by (induction lo bs rule: placed.induct) (auto simp: desc_def region_def)

lemma seg_same:
  "placed lo bs \<Longrightarrow> same_on (descs bs) m m' \<Longrightarrow> seg m' p bs q = seg m p bs q"
proof (induction m p bs q arbitrary: lo rule: seg.induct)
  case (2 m p a n bs q)
  have "a + 12 \<le> 2 ^ 32" "placed (a + n) bs" using "2.prems"(1) by simp_all
  moreover have "same_on (desc a) m m'" "same_on (descs bs) m m'"
    using "2.prems"(2) by (auto elim: same_on_subset)
  ultimately show ?case using "2.IH" fields_same_on [of a m m'] by auto
qed simp

lemma placed_top: "placed lo xs \<Longrightarrow> x \<in> regions xs \<Longrightarrow> x < fst (last xs) + snd (last xs)"
proof (induction lo xs rule: placed.induct)
  case (2 lo b k bs)
  then show ?case
    using placed_bound [of "b + k" bs "fst (last bs)" "snd (last bs)"]
    by (cases "bs = []") (auto simp: region_def)
qed simp

lemma placed_disjoint_regions:
  assumes "placed lo (xs @ ys)"
  shows "regions xs \<inter> regions ys = {}"
proof (rule equals0I)
  fix x assume x: "x \<in> regions xs \<inter> regions ys"
  then have "xs \<noteq> []" by auto
  then have "placed lo xs" "placed (fst (last xs) + snd (last xs)) ys"
    using assms by (simp_all add: placed_append)
  then show False using placed_top [of lo xs x] placed_region [of _ ys x] x by fastforce
qed

lemma placed_disjoint:
  assumes "placed lo (xs @ ys)"
  shows "descs xs \<inter> descs ys = {}"
proof -
  have "placed lo xs" "\<exists>l. placed l ys" using assms by (auto simp: placed_append)
  then show ?thesis using placed_disjoint_regions [OF assms] descs_regions by blast
qed

fun link_of :: "(nat \<times> nat) list \<Rightarrow> link" where
  "link_of [] = Dummy"
| "link_of (b # bs) = At (of_nat (fst (last (b # bs))))"

lemma link_of_snoc [simp]: "link_of (bs @ [b]) = At (of_nat (fst b))"
  by (cases bs) simp_all

lemma next_of_seg: "seg m d pre r \<Longrightarrow> next_of m d (link_of pre) = r"
  by (cases pre rule: rev_cases) (auto simp: next_of_def seg_append)

text \<open>Storing through \<open>prev->next\<close> relinks the list behind \<open>prev\<close>.\<close>

lemma set_link_seg:
  assumes "seg m d pre r" "placed lo pre"
  shows "\<exists>m' d'. set_link (link_of pre) v (m, d) = (m', d') \<and> seg m' d' pre v \<and> same_on (- descs pre) m m'"
proof (cases pre rule: rev_cases)
  case Nil
  then show ?thesis by (simp add: set_link_def)
next
  case (snoc ys b)
  obtain a n where b: "b = (a, n)" by (cases b)
  from assms snoc b have ys: "seg m d ys (of_nat a)" "d_size m (of_nat a) = of_nat n"
      "d_magic m (of_nat a) = MAGIC_FREE"
    and pl: "placed lo ys" "placed (if ys = [] then lo else fst (last ys) + snd (last ys)) [(a, n)]"
    by (auto simp: seg_append placed_append)
  have a12: "a + 12 \<le> 2 ^ 32" using pl(2) by simp
  have dis: "descs ys \<inter> desc a = {}"
    using placed_disjoint [of lo ys "[(a, n)]"] assms(2) snoc b by auto
  let ?m = "set_next (of_nat a) v m"
  have "same_on (descs ys) m ?m" by (rule set_field_same(3) [OF a12 dis])
  then have "seg ?m d ys (of_nat a)" using seg_same [OF pl(1)] ys(1) by blast
  then have "seg ?m d pre v" using ys snoc b by (auto simp: seg_append)
  moreover have "same_on (- descs pre) m ?m"
    using snoc b by (intro set_field_same(3) [OF a12]) auto
  ultimately show ?thesis using snoc b by (simp add: set_link_def)
qed

section \<open>The abstract free list\<close>

text \<open>What the search of \<open>malloc\<close> does to the list, first fit: the address handed out, of
  \<open>t\<close> bytes. A block with less than 24 bytes to spare leaves the list whole.\<close>

fun take_fit :: "nat \<Rightarrow> (nat \<times> nat) list \<Rightarrow> (nat \<times> nat) list \<times> nat option" where
  "take_fit t [] = ([], None)"
| "take_fit t ((a, n) # bs) =
     (if t \<le> n \<and> n < t + 24 then (bs, Some a)
      else if t < n then ((a, n - t) # bs, Some (a + n - t))
      else let (bs', r) = take_fit t bs in ((a, n) # bs', r))"

text \<open>What \<open>free\<close> does: a block is merged with the one behind it, or with the last one of
  the list when it lies right behind that.\<close>

fun put_free :: "nat \<Rightarrow> nat \<Rightarrow> (nat \<times> nat) list \<Rightarrow> (nat \<times> nat) list" where
  "put_free a n [] = [(a, n)]"
| "put_free a n ((b, k) # bs) =
     (if b = a + n then (a, n + k) # bs
      else if b > a + n then (a, n) # (b, k) # bs
      else if bs = [] then (if b + k = a then [(b, k + n)] else [(b, k), (a, n)])
      else (b, k) # put_free a n bs)"

lemma take_fit_spec:
  assumes "placed lo bs" "12 \<le> t" "take_fit t bs = (bs', r)"
  shows "placed lo bs'" "regions bs' \<subseteq> regions bs"
    "r = Some a \<Longrightarrow> lo \<le> a \<and> a + t < 2 ^ 32 \<and> region (a, t) \<subseteq> regions bs \<and> region (a, t) \<inter> regions bs' = {}"
    "r = None \<Longrightarrow> bs' = bs \<and> (\<forall>(b, k) \<in> set bs. k < t)"
    "descs bs' \<subseteq> descs bs"
proof -
  have "placed lo bs' \<and> regions bs' \<subseteq> regions bs \<and> descs bs' \<subseteq> descs bs
    \<and> (\<forall>a. r = Some a \<longrightarrow> lo \<le> a \<and> a + t < 2 ^ 32 \<and> region (a, t) \<subseteq> regions bs \<and> region (a, t) \<inter> regions bs' = {})
    \<and> (r = None \<longrightarrow> bs' = bs \<and> (\<forall>(b, k) \<in> set bs. k < t))"
    using assms
  proof (induction bs arbitrary: lo bs' r)
    case (Cons b bs)
    obtain a n where b: "b = (a, n)" by (cases b)
    have pl: "lo \<le> a" "12 \<le> n" "a + n < 2 ^ 32" "placed (a + n) bs" using Cons.prems(1) b by simp_all
    have above: "x \<notin> regions bs" if "x < a + n" for x
      using placed_region [OF pl(4)] that by (meson not_le)
    show ?case
    proof (cases "t \<le> n \<and> n < t + 24")
      case True
      then have "bs' = bs" "r = Some a" using Cons.prems(3) b by auto
      moreover have "region (a, t) \<subseteq> region (a, n)" using True by (auto simp: region_def)
      moreover have "region (a, t) \<inter> regions bs = {}" using True above by (fastforce simp: region_def)
      ultimately show ?thesis using True pl b placed_lower [OF pl(4), of lo] by auto
    next
      case nf: False
      show ?thesis
      proof (cases "t < n")
        case True
        then have e: "bs' = (a, n - t) # bs" "r = Some (a + n - t)" and gap: "t + 24 \<le> n"
          using nf Cons.prems(3) b by auto
        have "region (a + n - t, t) \<subseteq> region (a, n)" "region (a, n - t) \<subseteq> region (a, n)"
          using gap by (auto simp: region_def)
        moreover have "region (a + n - t, t) \<inter> region (a, n - t) = {}"
          using gap by (auto simp: region_def)
        moreover have "region (a + n - t, t) \<inter> regions bs = {}"
          using gap above by (fastforce simp: region_def)
        moreover have "placed (a + (n - t)) bs" by (rule placed_lower [OF pl(4)]) (use gap in simp)
        ultimately show ?thesis using e gap pl b by auto
      next
        case False
        obtain bs1 r1 where r1: "take_fit t bs = (bs1, r1)" by (cases "take_fit t bs")
        then have e: "bs' = (a, n) # bs1" "r = r1" using nf False Cons.prems(3) b by auto
        have dis: "region (a', t) \<inter> region (a, n) = {}" if "a + n \<le> a'" for a'
          using that by (auto simp: region_def)
        show ?thesis using Cons.IH [OF pl(4) assms(2) r1] e pl b nf False dis by auto
      qed
    qed
  qed auto
  then show "placed lo bs'" "regions bs' \<subseteq> regions bs" "descs bs' \<subseteq> descs bs"
    "r = Some a \<Longrightarrow> lo \<le> a \<and> a + t < 2 ^ 32 \<and> region (a, t) \<subseteq> regions bs \<and> region (a, t) \<inter> regions bs' = {}"
    "r = None \<Longrightarrow> bs' = bs \<and> (\<forall>(b, k) \<in> set bs. k < t)"
    by blast+
qed

lemma region_less: "region (a, n) \<inter> region (b, k) = {} \<Longrightarrow> 0 < n \<Longrightarrow> 0 < k \<Longrightarrow> \<not> a + n \<le> b \<Longrightarrow> b + k \<le> a"
proof (rule ccontr)
  assume *: "region (a, n) \<inter> region (b, k) = {}" "0 < n" "0 < k" "\<not> a + n \<le> b" "\<not> b + k \<le> a"
  then have "max a b \<in> region (a, n) \<inter> region (b, k)" by (auto simp: region_def)
  then show False using *(1) by blast
qed

lemma put_free_spec:
  assumes "placed lo bs" "lo \<le> a" "12 \<le> n" "a + n < 2 ^ 32" "region (a, n) \<inter> regions bs = {}"
  shows "placed lo (put_free a n bs) \<and> regions (put_free a n bs) = regions bs \<union> region (a, n)"
  using assms
proof (induction bs arbitrary: lo)
  case (Cons b' bs)
  obtain b k where b: "b' = (b, k)" by (cases b')
  have pl: "lo \<le> b" "12 \<le> k" "b + k < 2 ^ 32" "placed (b + k) bs" using Cons.prems(1) b by simp_all
  have dis: "region (a, n) \<inter> region (b, k) = {}" "region (a, n) \<inter> regions bs = {}"
    using Cons.prems(5) b by auto
  have join: "region (p, q + r) = region (p, q) \<union> region (p + q, r)" for p q r
    by (auto simp: region_def)
  show ?case
  proof (cases "a + n \<le> b")
    case True
    then show ?thesis
    proof (cases "b = a + n")
      case True
      then show ?thesis using b pl Cons.prems join [of a n k] by (auto simp: add.assoc)
    next
      case False
      then show ?thesis using b pl Cons.prems True by auto
    qed
  next
    case False
    have le: "b + k \<le> a" using region_less [OF dis(1)] False pl(2) Cons.prems(3) by simp
    show ?thesis
    proof (cases "bs = []")
      case True
      then show ?thesis using b pl Cons.prems le False join [of b k n] by auto
    next
      case ne: False
      show ?thesis using Cons.IH [OF pl(4) le Cons.prems(3,4) dis(2)] b pl Cons.prems ne le False by auto
    qed
  qed
qed auto

lemma put_free_descs: "descs (put_free a n bs) \<subseteq> desc a \<union> descs bs"
  by (induction a n bs rule: put_free.induct) auto

section \<open>The loops refine the abstract list\<close>

lemma of_nat_addr_eq: "a < 2 ^ 32 \<Longrightarrow> b < 2 ^ 32 \<Longrightarrow> (of_nat a :: u32) = of_nat b \<longleftrightarrow> a = b"
  by (rule of_nat_u32_eq)

lemma of_nat_addr_less: "a < 2 ^ 32 \<Longrightarrow> b < 2 ^ 32 \<Longrightarrow> (of_nat a :: u32) < of_nat b \<longleftrightarrow> a < b"
  by (simp add: word_less_nat_alt unat_of_nat)

lemma of_nat_addr_le: "a < 2 ^ 32 \<Longrightarrow> b < 2 ^ 32 \<Longrightarrow> (of_nat a :: u32) \<le> of_nat b \<longleftrightarrow> a \<le> b"
  by (simp add: word_le_nat_alt unat_of_nat)

text \<open>What the loops know when they look at the block \<open>(a, n)\<close> behind \<open>pre\<close>.\<close>

lemma seg_at:
  assumes "seg m d (pre @ (a, n) # suf) 0" "placed 1 (pre @ (a, n) # suf)"
  shows "seg m d pre (of_nat a)" "d_size m (of_nat a) = of_nat n" "d_magic m (of_nat a) = MAGIC_FREE"
    "seg m (d_next m (of_nat a)) suf 0" "placed 1 pre" "placed (a + n) suf" "1 \<le> a" "12 \<le> n" "a + n < 2 ^ 32"
    "next_of m d (link_of pre) = of_nat a" "(of_nat a :: u32) \<noteq> 0"
    "descs pre \<inter> desc a = {}" "descs pre \<inter> descs suf = {}" "desc a \<inter> descs suf = {}" "a + 12 \<le> 2 ^ 32"
proof -
  show sg: "seg m d pre (of_nat a)" "d_size m (of_nat a) = of_nat n" "d_magic m (of_nat a) = MAGIC_FREE"
    "seg m (d_next m (of_nat a)) suf 0" using assms(1) by (auto simp: seg_append)
  show pl: "placed 1 pre" "placed (a + n) suf" "1 \<le> a" "12 \<le> n" "a + n < 2 ^ 32"
    using assms(2) placed_bound [OF assms(2), of a n] by (auto simp: placed_append)
  show "next_of m d (link_of pre) = of_nat a" by (rule next_of_seg [OF sg(1)])
  show "(of_nat a :: u32) \<noteq> 0" using pl of_nat_addr_eq [of a 0] by simp
  show "descs pre \<inter> desc a = {}" "descs pre \<inter> descs suf = {}"
    using placed_disjoint [OF assms(2)] by auto
  have "placed 1 ([(a, n)] @ suf)" using pl by simp
  from placed_disjoint [OF this] show "desc a \<inter> descs suf = {}" by simp
  show "a + 12 \<le> 2 ^ 32" using pl by simp
qed

lemma malloc_scan_refines:
  assumes "seg m d (pre @ suf) 0" "placed 1 (pre @ suf)" "12 \<le> t" "t + 24 < 2 ^ 32"
  shows "\<exists>m' d'. malloc_scan m d (link_of pre) (of_nat t) = Some (m', d', map_option of_nat (snd (take_fit t suf)))
    \<and> seg m' d' (pre @ fst (take_fit t suf)) 0 \<and> same_on (- descs (pre @ suf)) m m'"
  using assms(1,2)
proof (induction suf arbitrary: pre)
  case Nil
  then have "next_of m d (link_of pre) = 0" using next_of_seg by simp
  then show ?case using Nil by (subst malloc_scan.simps) simp
next
  case (Cons b suf)
  obtain a n where b: "b = (a, n)" by (cases b)
  note at = seg_at [OF Cons.prems [unfolded b]]
  have t24: "of_nat t + MIN_BLOCK_SIZE = (of_nat (t + 24) :: u32)"
    by (simp add: MIN_BLOCK_SIZE_def DESC_SIZE_def)
  have cmp: "(of_nat t :: u32) \<le> of_nat n \<longleftrightarrow> t \<le> n" "(of_nat n :: u32) < of_nat (t + 24) \<longleftrightarrow> n < t + 24"
    "(of_nat t :: u32) < of_nat n \<longleftrightarrow> t < n"
    using at(7,9) assms(4) by (intro of_nat_addr_le of_nat_addr_less; simp)+
  note unfold = malloc_scan.simps [of m d "link_of pre"] Let_def at(2,10) t24 cmp
  show ?case
  proof (cases "t \<le> n \<and> n < t + 24")
    case True
    from set_link_seg [OF at(1,5)] obtain m' d' where
      l: "set_link (link_of pre) (d_next m (of_nat a)) (m, d) = (m', d')"
         "seg m' d' pre (d_next m (of_nat a))" "same_on (- descs pre) m m'" by blast
    have "same_on (descs suf) m m'" using l(3) at(13) by (auto elim: same_on_subset)
    then have "seg m' d' (pre @ suf) 0" using l(2) at(4) seg_same [OF at(6)] by (auto simp: seg_append)
    moreover have "same_on (- descs (pre @ b # suf)) m m'" using l(3) by (rule same_on_subset) auto
    ultimately show ?thesis using True l(1) at(11) b unfolding unfold by simp
  next
    case nf: False
    show ?thesis
    proof (cases "t < n")
      case True
      let ?m = "set_size (of_nat a) (of_nat n - of_nat t) m"
      have nt: "(of_nat n - of_nat t :: u32) = of_nat (n - t)" using True by simp
      have ptr: "(of_nat a + of_nat n - of_nat t :: u32) = of_nat (a + n - t)" using True by (simp add: add_diff_eq)
      have off: "same_on (- desc a) m ?m" by (rule set_field_same(1) [OF at(15)]) simp
      have "same_on (descs pre) m ?m" "same_on (descs suf) m ?m"
        using off at(12,14) by (auto elim!: same_on_subset)
      then have "seg ?m d (pre @ (a, n - t) # suf) 0"
        using at(1,3,4) seg_same [OF at(5)] seg_same [OF at(6)] nt by (auto simp: seg_append)
      moreover have "same_on (- descs (pre @ b # suf)) m ?m" using off b by (auto elim: same_on_subset)
      ultimately show ?thesis using True nf ptr at(11) b unfolding unfold by auto
    next
      case False
      obtain bs' r where r: "take_fit t suf = (bs', r)" by (cases "take_fit t suf")
      have "malloc_scan m d (link_of pre) (of_nat t) = malloc_scan m d (link_of (pre @ [b])) (of_nat t)"
        using nf False at(11) b unfolding unfold by auto
      moreover have "take_fit t (b # suf) = ((a, n) # bs', r)" using nf False r b by simp
      ultimately show ?thesis using Cons.IH [of "pre @ [b]"] Cons.prems r b by simp
    qed
  qed
qed

lemma put_free_below:
  assumes "\<forall>(b, k) \<in> set pre. b + k \<le> a" "0 < n" "suf \<noteq> []"
  shows "put_free a n (pre @ suf) = pre @ put_free a n suf"
  using assms by (induction pre) (auto simp: neq_Nil_conv)

lemma put_free_last:
  assumes "\<forall>(b, k) \<in> set (ys @ [(b, k)]). b + k \<le> a" "0 < n"
  shows "put_free a n (ys @ [(b, k)]) = ys @ (if b + k = a then [(b, k + n)] else [(b, k), (a, n)])"
  using assms put_free_below [of ys a n "[(b, k)]"] by auto

lemma seg_magic: "seg m p bs q \<Longrightarrow> (a, n) \<in> set bs \<Longrightarrow> d_magic m (of_nat a) \<noteq> MAGIC_USED"
  by (induction m p bs q rule: seg.induct) (auto simp: MAGIC_USED_def MAGIC_FREE_def)

lemma free_scan_refines:
  assumes "seg m d (pre @ suf) 0" "placed 1 (pre @ suf)" "pre @ suf \<noteq> []"
    "1 \<le> a" "12 \<le> n" "a + n < 2 ^ 32" "region (a, n) \<inter> regions (pre @ suf) = {}"
    "d_size m (of_nat a) = of_nat n" "d_magic m (of_nat a) = MAGIC_FREE" "d_next m (of_nat a) = 0"
    "\<forall>(b, k) \<in> set pre. b + k \<le> a"
  shows "\<exists>m' d'. free_scan m d (link_of pre) (of_nat a) (of_nat (a + n)) = Some (m', d')
    \<and> seg m' d' (put_free a n (pre @ suf)) 0 \<and> same_on (- (descs (pre @ suf) \<union> desc a)) m m'
    \<and> d_magic m' (of_nat a) \<noteq> MAGIC_USED"
  using assms(1,2,3,7,11)
proof (induction suf arbitrary: pre)
  case Nil
  then obtain ys b k where pre: "pre = ys @ [(b, k)]" by (cases pre rule: rev_cases) auto
  have sg: "seg m d (ys @ (b, k) # []) 0" "placed 1 (ys @ (b, k) # [])" using Nil pre by simp_all
  note at = seg_at [OF sg]
  have a12: "a + 12 \<le> 2 ^ 32" and le: "b + k \<le> a" using assms(5,6) Nil.prems(5) pre by auto
  have nx: "next_of m d (link_of pre) = 0" using next_of_seg Nil.prems(1) by simp
  have eq: "(of_nat b + of_nat k :: u32) = of_nat a \<longleftrightarrow> b + k = a"
    using at(9) assms(6) of_nat_addr_eq [of "b + k" a] by simp
  have pf: "put_free a n pre = ys @ (if b + k = a then [(b, k + n)] else [(b, k), (a, n)])"
    unfolding pre by (rule put_free_last) (use Nil.prems(5) pre assms(5) in auto)
  have da: "descs pre \<inter> desc a = {}"
    using Nil.prems(4) descs_regions [OF Nil.prems(2)] desc_region [OF assms(5), of a] by auto
  show ?case
  proof (cases "b + k = a")
    case True
    let ?m1 = "set_magic (of_nat a) 0 m"
    let ?m2 = "set_size (of_nat b) (d_size ?m1 (of_nat b) + d_size ?m1 (of_nat a)) ?m1"
    have f1: "same_on (- desc a) m ?m1" by (rule set_field_same(2) [OF a12]) simp
    have f2: "same_on (- desc b) ?m1 ?m2" by (rule set_field_same(1) [OF at(15)]) simp
    have db: "desc b \<inter> desc a = {}" using da pre by auto
    have b1: "d_size ?m1 (of_nat b) = of_nat k" "d_magic ?m1 (of_nat b) = MAGIC_FREE"
        "d_next ?m1 (of_nat b) = 0"
      using fields_same_on [OF at(15), of m ?m1] at(2,3,4) same_on_subset [OF f1, of "desc b"] db by auto
    have "same_on (descs ys) m ?m2"
      using same_on_subset [OF f1, of "descs ys"] same_on_subset [OF f2, of "descs ys"] da pre at(12)
      by (auto intro: same_on_trans)
    then have "seg ?m2 d (ys @ [(b, k + n)]) 0"
      using at(1) seg_same [OF at(5)] b1 assms(8) by (auto simp: seg_append)
    moreover have "same_on (- (descs pre \<union> desc a)) m ?m2"
      using same_on_subset [OF f1, of "- (descs pre \<union> desc a)"]
        same_on_subset [OF f2, of "- (descs pre \<union> desc a)"] pre
      by (auto intro: same_on_trans)
    moreover have "d_magic ?m2 (of_nat a) = d_magic ?m1 (of_nat a)"
      by (rule fields_same_on(2) [OF a12 same_on_subset [OF f2]]) (use db in blast)
    then have "d_magic ?m2 (of_nat a) \<noteq> MAGIC_USED" by (simp add: MAGIC_USED_def)
    ultimately show ?thesis
      unfolding free_scan.simps [of m d "link_of pre"] Let_def nx
      using True pf eq at(2) pre by simp
  next
    case False
    have al: "placed 1 pre" using Nil.prems(2) by simp
    obtain m' d' where l: "set_link (link_of pre) (of_nat a) (m, d) = (m', d')"
         "seg m' d' pre (of_nat a)" "same_on (- descs pre) m m'"
      using set_link_seg [OF _ al] Nil.prems(1) by (metis append_Nil2)
    have "same_on (desc a) m m'" using l(3) da by (auto elim: same_on_subset)
    then have "seg m' d' (pre @ [(a, n)]) 0"
      using l(2) fields_same_on [OF a12, of m m'] assms(8-10) by (auto simp: seg_append)
    moreover have "same_on (- (descs pre \<union> desc a)) m m'" using l(3) by (rule same_on_subset) auto
    moreover have "link_of pre = At (of_nat b)" using pre by simp
    then have "free_scan m d (link_of pre) (of_nat a) (of_nat (a + n)) = Some (m', d')"
      unfolding free_scan.simps [of m d "link_of pre"] Let_def nx
      using False eq at(2) l(1) by simp
    moreover have "put_free a n (pre @ []) = pre @ [(a, n)]" using pf False pre by simp
    ultimately show ?thesis using seg_magic [of m' d' "pre @ [(a, n)]" 0 a n]
      by (simp only: append_Nil2 in_set_conv_decomp) blast
  qed
next
  case (Cons c suf)
  obtain b k where c: "c = (b, k)" by (cases c)
  note at = seg_at [OF Cons.prems(1,2) [unfolded c]]
  have a12: "a + 12 \<le> 2 ^ 32" using assms(5,6) by simp
  have pf: "put_free a n (pre @ c # suf) = pre @ put_free a n (c # suf)"
    by (rule put_free_below) (use Cons.prems(5) assms(5) in auto)
  have cmp: "(of_nat b :: u32) = of_nat (a + n) \<longleftrightarrow> b = a + n" "(of_nat (a + n) :: u32) < of_nat b \<longleftrightarrow> a + n < b"
    using at(9) assms(6) by (intro of_nat_addr_eq of_nat_addr_less; simp)+
  note unfold = free_scan.simps [of m d "link_of pre"] Let_def at(10) cmp
  have da: "descs pre \<inter> desc a = {}" "desc b \<inter> desc a = {}" "descs suf \<inter> desc a = {}"
    using Cons.prems(4) descs_regions [OF Cons.prems(2)] desc_region [OF assms(5), of a] c by auto
  have fa: "same_on (- desc a) x (set_size (of_nat a) v x)" "same_on (- desc a) x (set_next (of_nat a) v x)" for x v
    by (rule set_field_same [OF a12]; simp)+
  have fb: "same_on (- desc b) x (set_magic (of_nat b) v x)" for x v
    by (rule set_field_same [OF at(15)]) simp
  have relink: "\<exists>m' d'. set_link (link_of pre) (of_nat a) (m3, d) = (m', d') \<and> seg m' d' (pre @ (a, q) # tl') 0
      \<and> same_on (- (descs (pre @ c # suf) \<union> desc a)) m m' \<and> d_magic m' (of_nat a) \<noteq> MAGIC_USED"
    if m3: "same_on (- (desc a \<union> desc b)) m m3" "d_size m3 (of_nat a) = of_nat q"
      "d_magic m3 (of_nat a) = MAGIC_FREE" "seg m3 (d_next m3 (of_nat a)) tl' 0"
      "descs tl' \<inter> descs pre = {}" "placed l tl'" for m3 q tl' l
  proof -
    have "same_on (descs pre) m m3" using m3(1) da at(12) by (auto elim: same_on_subset)
    then have "seg m3 d pre (of_nat b)" using at(1) seg_same [OF at(5)] by simp
    from set_link_seg [OF this at(5), of "of_nat a"] obtain m' d' where
      l: "set_link (link_of pre) (of_nat a) (m3, d) = (m', d')"
         "seg m' d' pre (of_nat a)" "same_on (- descs pre) m3 m'" by blast
    have "same_on (desc a) m3 m'" "same_on (descs tl') m3 m'"
      using l(3) da(1) m3(5) by (auto elim!: same_on_subset)
    then have "seg m' d' (pre @ (a, q) # tl') 0"
      using l(2) fields_same_on [OF a12, of m3 m'] m3 seg_same [OF m3(6)] by (auto simp: seg_append)
    moreover have "same_on (- (descs (pre @ c # suf) \<union> desc a)) m m'"
      using same_on_subset [OF m3(1), of "- (descs (pre @ c # suf) \<union> desc a)"]
        same_on_subset [OF l(3), of "- (descs (pre @ c # suf) \<union> desc a)"] c
      by (auto intro: same_on_trans)
    ultimately show ?thesis using l(1) seg_magic [of m' d' "pre @ (a, q) # tl'" 0 a q] by auto
  qed
  show ?case
  proof (cases "b = a + n")
    case True
    let ?m1 = "set_size (of_nat a) (d_size m (of_nat a) + d_size m (of_nat b)) m"
    let ?m2 = "set_next (of_nat a) (d_next ?m1 (of_nat b)) ?m1"
    let ?m3 = "set_magic (of_nat b) 0 ?m2"
    have sub: "desc b \<subseteq> - desc a" "desc a \<subseteq> - desc b" using da(2) by blast+
    have s1: "same_on (desc b) m ?m1" "same_on (desc a) ?m2 ?m3"
      by (rule same_on_subset [OF fa(1) sub(1)], rule same_on_subset [OF fb sub(2)])
    have off: "same_on (- (desc a \<union> desc b)) m ?m3"
      by (intro same_on_trans [OF same_on_trans [OF same_on_subset [OF fa(1)] same_on_subset [OF fa(2)]]
            same_on_subset [OF fb]]) auto
    have "d_next ?m1 (of_nat b) = d_next m (of_nat b)" using fields_same_on [OF at(15) s1(1)] by simp
    then have a3: "d_size ?m3 (of_nat a) = of_nat (n + k)" "d_magic ?m3 (of_nat a) = MAGIC_FREE"
        "d_next ?m3 (of_nat a) = d_next m (of_nat b)"
      using fields_same_on [OF a12 s1(2)] assms(8,9) at(2) by simp_all
    have "same_on (descs suf) m ?m3" using off da(3) at(14) by (auto elim: same_on_subset)
    then have "seg ?m3 (d_next ?m3 (of_nat a)) suf 0" using at(4) a3 seg_same [OF at(6)] by simp
    from relink [OF off a3(1,2) this _ at(6)] show ?thesis
      using at(11,13) True pf c unfolding unfold by auto
  next
    case ne: False
    show ?thesis
    proof (cases "a + n < b")
      case True
      let ?m1 = "set_next (of_nat a) (of_nat b) m"
      have off: "same_on (- desc a) m ?m1" by (rule fa(2))
      have "same_on (- (desc a \<union> desc b)) m ?m1" by (rule same_on_subset [OF off]) auto
      moreover have pl: "placed 1 (c # suf)" using at(6-9) c by simp
      moreover have "seg ?m1 (of_nat b) (c # suf) 0"
      proof -
        have "same_on (descs (c # suf)) m ?m1" using off da c by (auto elim: same_on_subset)
        then show ?thesis using seg_same [OF pl] at(2-4) c by auto
      qed
      moreover have "descs (c # suf) \<inter> descs pre = {}" using at(12,13) c by auto
      ultimately have "\<exists>m' d'. set_link (link_of pre) (of_nat a) (?m1, d) = (m', d')
          \<and> seg m' d' (pre @ (a, n) # c # suf) 0 \<and> same_on (- (descs (pre @ c # suf) \<union> desc a)) m m'
          \<and> d_magic m' (of_nat a) \<noteq> MAGIC_USED"
        by (intro relink [OF _ _ _ _ _ pl]) (simp_all add: assms(8,9))
      then show ?thesis using at(11) True ne pf c unfolding unfold by auto
    next
      case False
      have le: "b + k \<le> a"
        using region_less [of a n b k] Cons.prems(4) c False ne assms(5) at(8) by auto
      have "free_scan m d (link_of pre) (of_nat a) (of_nat (a + n))
          = free_scan m d (link_of (pre @ [c])) (of_nat a) (of_nat (a + n))"
        using ne False at(11) c unfolding unfold by auto
      moreover have "\<forall>(b, k) \<in> set (pre @ [c]). b + k \<le> a" using Cons.prems(5) le c by auto
      ultimately show ?thesis using Cons.IH [of "pre @ [c]"] Cons.prems c by simp
    qed
  qed
qed

section \<open>The heap invariant\<close>

definition used_ok :: "ram \<Rightarrow> (nat \<times> nat) set \<Rightarrow> bool" where
  "used_ok m us \<longleftrightarrow> (\<forall>(a, n) \<in> us. 1 \<le> a \<and> 12 \<le> n \<and> a + n < 2 ^ 32
     \<and> d_size m (of_nat a) = of_nat n \<and> d_magic m (of_nat a) = MAGIC_USED)"

definition apart :: "(nat \<times> nat) set \<Rightarrow> (nat \<times> nat) list \<Rightarrow> bool" where
  "apart us bs \<longleftrightarrow> (\<forall>u \<in> us. region u \<inter> regions bs = {})
     \<and> (\<forall>u \<in> us. \<forall>v \<in> us. u \<noteq> v \<longrightarrow> region u \<inter> region v = {})"

definition taken :: "page_state \<Rightarrow> nat set \<Rightarrow> bool" where
  "taken ps S \<longleftrightarrow> (\<forall>x \<in> S. int (x div 4096) \<notin> free_set ps)"

text \<open>\<open>heap_inv h bs us\<close>: the free blocks are \<open>bs\<close>, in address order in the list in memory,
  the blocks handed out are \<open>us\<close>; all are apart and in pages the page allocator has given
  away. The pages still free do not include the first, whose address is the null
  pointer, nor the last below 4 GB.\<close>

definition heap_inv :: "heap \<Rightarrow> (nat \<times> nat) list \<Rightarrow> (nat \<times> nat) set \<Rightarrow> bool" where
  "heap_inv h bs us \<longleftrightarrow>
     page_inv (pages h) \<and> free_set (pages h) \<subseteq> {1..<1048575}
   \<and> placed 1 bs \<and> seg (ram h) (pool h) bs 0 \<and> used_ok (ram h) us \<and> apart us bs
   \<and> taken (pages h) (regions bs \<union> \<Union> (region ` us))"

lemma used_okD:
  "used_ok m us \<Longrightarrow> (a, n) \<in> us \<Longrightarrow> 1 \<le> a \<and> 12 \<le> n \<and> a + n < 2 ^ 32
     \<and> d_size m (of_nat a) = of_nat n \<and> d_magic m (of_nat a) = MAGIC_USED"
  by (auto simp: used_ok_def)

lemma used_ok_same:
  assumes "used_ok m us" "\<And>a n. (a, n) \<in> us \<Longrightarrow> same_on (desc a) m m'"
  shows "used_ok m' us"
  unfolding used_ok_def
proof clarify
  fix a n assume u: "(a, n) \<in> us"
  have "a + 12 \<le> 2 ^ 32" using used_okD [OF assms(1) u] by simp
  from fields_same_on [OF this assms(2) [OF u]] used_okD [OF assms(1) u]
  show "1 \<le> a \<and> 12 \<le> n \<and> a + n < 2 ^ 32 \<and> d_size m' (of_nat a) = of_nat n \<and> d_magic m' (of_nat a) = MAGIC_USED"
    by simp
qed

lemma used_ok_subset: "used_ok m us \<Longrightarrow> vs \<subseteq> us \<Longrightarrow> used_ok m vs"
  unfolding used_ok_def by blast

lemma ptr_desc_ptr [simp]: "PTR_DESC (DESC_PTR p) = p"
  by (simp add: PTR_DESC_def DESC_PTR_def)

lemma desc_ptr_nonzero:
  assumes "a + 12 < 2 ^ 32"
  shows "DESC_PTR (of_nat a) \<noteq> 0"
proof -
  have "DESC_PTR (of_nat a) = of_nat (a + 12)" by (simp add: DESC_PTR_def DESC_SIZE_def)
  then show ?thesis using of_nat_addr_eq [of "a + 12" 0] assms by simp
qed

text \<open>The block a client frees is put into the list, and only the bytes of its descriptor
  and of the free ones change.\<close>

lemma free_correct:
  assumes "heap_inv h bs us" "(a, n) \<in> us"
  shows "\<exists>h'. free (DESC_PTR (of_nat a)) h = Some (Inr h') \<and> heap_inv h' (put_free a n bs) (us - {(a, n)})
    \<and> same_on (- (descs bs \<union> desc a)) (ram h) (ram h') \<and> pages h' = pages h \<and> errno h' = errno h
    \<and> d_magic (ram h') (of_nat a) \<noteq> MAGIC_USED"
proof -
  let ?a = "of_nat a :: u32"
  have inv: "page_inv (pages h)" "free_set (pages h) \<subseteq> {1..<1048575}" "placed 1 bs"
    "seg (ram h) (pool h) bs 0" "used_ok (ram h) us" "apart us bs"
    "taken (pages h) (regions bs \<union> \<Union> (region ` us))"
    using assms(1) by (auto simp: heap_inv_def)
  have u: "1 \<le> a" "12 \<le> n" "a + n < 2 ^ 32" "d_size (ram h) ?a = of_nat n" "d_magic (ram h) ?a = MAGIC_USED"
    using used_okD [OF inv(5) assms(2)] by simp_all
  have a12: "a + 12 \<le> 2 ^ 32" using u by simp
  have dis: "region (a, n) \<inter> regions bs = {}" using inv(6) assms(2) by (auto simp: apart_def)
  define m where "m = set_next ?a 0 (set_magic ?a MAGIC_FREE (ram h))"
  have m: "d_size m ?a = of_nat n" "d_magic m ?a = MAGIC_FREE" "d_next m ?a = 0"
    using u by (simp_all add: m_def)
  have offm: "same_on (- desc a) (ram h) m"
    unfolding m_def by (rule same_on_trans [OF set_field_same(2) [OF a12] set_field_same(3) [OF a12]]) simp_all
  have dd: "descs bs \<subseteq> - desc a" using dis descs_regions [OF inv(3)] desc_region [OF u(2)] by fastforce
  have "\<exists>m' d'. free p h = Some (Inr (h\<lparr>ram := m', pool := d'\<rparr>)) \<and> seg m' d' (put_free a n bs) 0
      \<and> same_on (- (descs bs \<union> desc a)) (ram h) m' \<and> d_magic m' ?a \<noteq> MAGIC_USED" if p: "p = DESC_PTR ?a" for p
  proof (cases "bs = []")
    case True
    have "pool h = 0" using inv(4) True by simp
    then have "free p h = Some (Inr (h\<lparr>ram := m, pool := ?a\<rparr>))"
      using desc_ptr_nonzero [of a] u p by (simp add: free_def Let_def m_def)
    moreover have "seg m ?a [(a, n)] 0" "d_magic m ?a \<noteq> MAGIC_USED"
      using m by (simp_all add: MAGIC_USED_def MAGIC_FREE_def)
    ultimately show ?thesis using True offm by auto
  next
    case False
    have pool: "pool h \<noteq> 0"
    proof -
      obtain b k cs where "bs = (b, k) # cs" using False by (cases bs) auto
      then show ?thesis using inv(3,4) of_nat_addr_eq [of b 0] by auto
    qed
    have sg: "seg m (pool h) ([] @ bs) 0"
      using seg_same [OF inv(3) same_on_subset [OF offm dd]] inv(4) by simp
    obtain m' d' where r: "free_scan m (pool h) (link_of []) ?a (of_nat (a + n)) = Some (m', d')"
        "seg m' d' (put_free a n ([] @ bs)) 0" "same_on (- (descs ([] @ bs) \<union> desc a)) m m'"
        "d_magic m' ?a \<noteq> MAGIC_USED"
      using free_scan_refines [OF sg _ _ u(1-3) _ m] inv(3) dis False by auto
    have "free p h = Some (Inr (h\<lparr>ram := m', pool := d'\<rparr>))"
      using desc_ptr_nonzero [of a] u p pool r(1) m by (simp add: free_def Let_def m_def)
    moreover have "same_on (- (descs bs \<union> desc a)) (ram h) m'"
      using same_on_trans [OF same_on_subset [OF offm] r(3)] by auto
    ultimately show ?thesis using r(2,4) by auto
  qed
  then obtain m' d' where r: "free (DESC_PTR ?a) h = Some (Inr (h\<lparr>ram := m', pool := d'\<rparr>))"
      "seg m' d' (put_free a n bs) 0" "same_on (- (descs bs \<union> desc a)) (ram h) m'"
      "d_magic m' ?a \<noteq> MAGIC_USED" by blast
  have pf: "placed 1 (put_free a n bs)" "regions (put_free a n bs) = regions bs \<union> region (a, n)"
    using put_free_spec [OF inv(3) u(1-3) dis] by auto
  have other: "region v \<inter> (descs bs \<union> desc a) = {}" if "v \<in> us" "v \<noteq> (a, n)" for v
    using inv(6) that assms(2) descs_regions [OF inv(3)] desc_region [OF u(2), of a]
    unfolding apart_def by blast
  have "used_ok m' (us - {(a, n)})"
  proof (rule used_ok_same [OF used_ok_subset [OF inv(5)]])
    fix b k assume "(b, k) \<in> us - {(a, n)}"
    then have "desc b \<inter> (descs bs \<union> desc a) = {}"
      using other [of "(b, k)"] desc_region [of k b] used_okD [OF inv(5), of b k] by blast
    then show "same_on (desc b) (ram h) m'" using r(3) by (auto elim: same_on_subset)
  qed blast
  moreover have "apart (us - {(a, n)}) (put_free a n bs)"
    using inv(6) assms(2) unfolding apart_def pf by blast
  moreover have "taken (pages h) (regions (put_free a n bs) \<union> \<Union> (region ` (us - {(a, n)})))"
    using inv(7) assms(2) unfolding taken_def pf by blast
  ultimately have "heap_inv (h\<lparr>ram := m', pool := d'\<rparr>) (put_free a n bs) (us - {(a, n)})"
    using inv pf r by (simp add: heap_inv_def)
  then show ?thesis using r by auto
qed

section \<open>malloc\<close>

lemma total_size_unat:
  assumes "unat sz + 15 < 2 ^ 32"
  shows "unat (total_size sz) = (unat sz + 15) div 4 * 4"
proof -
  let ?x = "sz + DESC_SIZE + 3"
  have "?x AND 0xfffffffc = push_bit 2 (drop_bit 2 ?x)"
  proof (rule bit_word_eqI)
    fix n assume n: "n < LENGTH(32)"
    have "(0xfffffffc :: u32) = NOT 3" by simp
    then have "bit (0xfffffffc :: u32) n \<longleftrightarrow> \<not> bit (mask 2 :: u32) n"
      using n by (simp only: bit_not_iff) (simp add: mask_eq_exp_minus_1)
    moreover have "2 \<le> n \<Longrightarrow> Suc (Suc (n - 2)) = n" by simp
    ultimately show "bit (?x AND 0xfffffffc) n = bit (push_bit 2 (drop_bit 2 ?x)) n"
      using n by (auto simp: bit_and_iff bit_mask_iff bit_push_bit_iff bit_drop_bit_eq)
  qed
  then have "total_size sz = push_bit 2 (drop_bit 2 ?x)" by (simp add: total_size_def)
  moreover have x: "unat ?x = unat sz + 15"
    using assms by (simp add: DESC_SIZE_def unat_add_no_wrap)
  moreover have "unat (drop_bit 2 ?x) = (unat sz + 15) div 4"
    using x by (simp add: drop_bit_eq_div unat_div)
  moreover have "unat (push_bit 2 y) = unat y * 4" if "unat y * 4 < 2 ^ 32" for y :: u32
    using that by (simp add: push_bit_eq_mult unat_word_ariths)
  ultimately show ?thesis using assms by simp
qed

definition rest_fits :: "nat \<Rightarrow> bool" where
  "rest_fits t \<longleftrightarrow> (4096 - t mod 4096) mod 4096 = 0 \<or> 12 \<le> (4096 - t mod 4096) mod 4096"

text \<open>A block outside everything in use becomes a used block.\<close>

lemma take_block_inv:
  assumes "placed 1 bs" "seg m d bs 0" "used_ok m us" "apart us bs"
    "1 \<le> a" "12 \<le> t" "a + t < 2 ^ 32" "region (a, t) \<inter> regions bs = {}"
    "\<And>u. u \<in> us \<Longrightarrow> region (a, t) \<inter> region u = {}"
    "m' = take_block (of_nat a) (of_nat t) m
      \<or> m' = set_magic (of_nat a) MAGIC_USED (set_next (of_nat a) 0 (set_size (of_nat a) (of_nat t) m))"
  shows "seg m' d bs 0 \<and> used_ok m' (insert (a, t) us) \<and> apart (insert (a, t) us) bs
    \<and> same_on (- desc a) m m'"
proof -
  have a12: "a + 12 \<le> 2 ^ 32" using assms by simp
  have off: "same_on (- desc a) m m'"
    using assms(10) unfolding take_block_def
    by (auto intro!: same_on_trans [OF same_on_trans [OF set_field_same(1) [OF a12]
          set_field_same(2) [OF a12]] set_field_same(3) [OF a12]]
        same_on_trans [OF same_on_trans [OF set_field_same(1) [OF a12]
          set_field_same(3) [OF a12]] set_field_same(2) [OF a12]])
  have m': "d_size m' (of_nat a) = of_nat t" "d_magic m' (of_nat a) = MAGIC_USED"
    using assms(10) by (auto simp: take_block_def)
  have sub: "desc a \<subseteq> region (a, t)" using assms(6) by (rule desc_region)
  have "descs bs \<subseteq> - desc a" using sub assms(8) descs_regions [OF assms(1)] by blast
  from seg_same [OF assms(1) same_on_subset [OF off this]] have "seg m' d bs 0" using assms(2) by simp
  moreover have "used_ok m' us"
  proof (rule used_ok_same [OF assms(3)])
    fix b k assume u: "(b, k) \<in> us"
    then have "desc b \<subseteq> region (b, k)" using used_okD [OF assms(3)] desc_region by blast
    then have "desc b \<subseteq> - desc a" using assms(9) [OF u] sub by blast
    then show "same_on (desc b) m m'" by (rule same_on_subset [OF off])
  qed
  then have "used_ok m' (insert (a, t) us)" using assms(5-7) m' unfolding used_ok_def by auto
  moreover have "apart (insert (a, t) us) bs"
    using assms(4,8,9) unfolding apart_def by blast
  ultimately show ?thesis using off by blast
qed

lemma bytes_to_pages_unat:
  assumes "t + 4095 < 2 ^ 32"
  shows "unat (bytes_to_pages (of_nat t)) = (t + 4095) div 4096"
proof -
  have "(of_nat t + 4095 :: u32) = of_nat (t + 4095)" by simp
  then show ?thesis
    using assms by (simp add: bytes_to_pages_def drop_bit_eq_div unat_div unat_of_nat del: of_nat_add)
qed

lemma take_fit_fst_None: "snd (take_fit t bs) = None \<Longrightarrow> fst (take_fit t bs) = bs"
  by (induction t bs rule: take_fit.induct) (auto simp: Let_def split: prod.splits if_splits)

lemma regions_us_off:
  assumes "used_ok m us" "apart us bs" "placed 1 bs"
  shows "\<Union> (region ` us) \<subseteq> - descs bs"
  using assms(2) descs_regions [OF assms(3)] unfolding apart_def by blast

lemma malloc_from_list:
  assumes "heap_inv h bs us" "12 \<le> t" "t + 24 < 2 ^ 32" "total_size sz = of_nat t"
    "take_fit t bs = (bs', Some a)"
  shows "\<exists>h'. malloc sz h = Some (Inr (DESC_PTR (of_nat a), h')) \<and> heap_inv h' bs' (insert (a, t) us)
    \<and> same_on (\<Union> (region ` us)) (ram h) (ram h') \<and> (\<forall>u \<in> us. region (a, t) \<inter> region u = {})
    \<and> pages h' = pages h \<and> errno h' = errno h"
proof -
  have inv: "page_inv (pages h)" "free_set (pages h) \<subseteq> {1..<1048575}" "placed 1 bs"
    "seg (ram h) (pool h) bs 0" "used_ok (ram h) us" "apart us bs"
    "taken (pages h) (regions bs \<union> \<Union> (region ` us))"
    using assms(1) by (auto simp: heap_inv_def)
  note tf = take_fit_spec [OF inv(3) assms(2,5)]
  have a: "1 \<le> a" "a + t < 2 ^ 32" "region (a, t) \<subseteq> regions bs" "region (a, t) \<inter> regions bs' = {}"
    using tf(3) by auto
  obtain m d where sc: "malloc_scan (ram h) (pool h) Dummy (of_nat t) = Some (m, d, Some (of_nat a))"
      "seg m d bs' 0" "same_on (- descs bs) (ram h) m"
    using malloc_scan_refines [of "ram h" "pool h" "[]" bs t] inv(3,4) assms(2,3,5) by auto
  let ?m' = "take_block (of_nat a) (of_nat t) m"
  have off: "\<Union> (region ` us) \<subseteq> - descs bs" by (rule regions_us_off [OF inv(5,6,3)])
  have du: "desc b \<subseteq> \<Union> (region ` us)" if "(b, k) \<in> us" for b k
    using used_okD [OF inv(5) that] desc_region [of k b] that by blast
  have us: "used_ok m us"
    by (rule used_ok_same [OF inv(5)]) (use du off in \<open>blast intro: same_on_subset [OF sc(3)]\<close>)
  have ap: "apart us bs'" using inv(6) tf(2) unfolding apart_def by blast
  have fresh: "region (a, t) \<inter> region u = {}" if "u \<in> us" for u
    using a(3) inv(6) that unfolding apart_def by blast
  note tb = take_block_inv [OF tf(1) sc(2) us ap a(1) assms(2) a(2) a(4) fresh disjI1 [OF refl]]
  have keep: "\<Union> (region ` us) \<subseteq> - desc a" using fresh desc_region [OF assms(2), of a] by blast
  have "taken (pages h) (regions bs' \<union> \<Union> (region ` insert (a, t) us))"
    using inv(7) tf(2) a(3) unfolding taken_def by blast
  then have "heap_inv (h\<lparr>ram := ?m', pool := d\<rparr>) bs' (insert (a, t) us)"
    using inv tf(1) tb by (simp add: heap_inv_def)
  moreover have "malloc sz h = Some (Inr (DESC_PTR (of_nat a), h\<lparr>ram := ?m', pool := d\<rparr>))"
    using sc(1) assms(4) by (simp add: malloc_def Let_def)
  moreover have "same_on (\<Union> (region ` us)) (ram h) ?m'"
    by (rule same_on_trans [OF same_on_subset [OF sc(3) off] same_on_subset [OF _ keep]]) (use tb in blast)
  ultimately show ?thesis using fresh by auto
qed

lemma rest_size: "(t + 4095) div 4096 * 4096 - t = (4096 - t mod 4096) mod (4096 :: nat)"
proof -
  define q r where "q = t div 4096" and "r = t mod 4096"
  have t: "t = 4096 * q + r" and r: "r < 4096" by (simp_all add: q_def r_def)
  show ?thesis
  proof (cases "r = 0")
    case False
    have "(4096 * q + r + 4095) div 4096 = q + 1" using r False by simp
    then show ?thesis using r False by (simp add: t)
  qed (simp add: t)
qed

lemma malloc_from_pages:
  assumes "heap_inv h bs us" "12 \<le> t" "t + 4119 < 2 ^ 31" "total_size sz = of_nat t"
    "take_fit t bs = (bs, None)" "rest_fits t" "4 dvd t"
  shows "\<exists>h' p. malloc sz h = Some (Inr (p, h')) \<and> same_on (\<Union> (region ` us)) (ram h) (ram h')
    \<and> (p = 0 \<longrightarrow> heap_inv h' bs us \<and> errno h' = ENOMEM)
    \<and> (p \<noteq> 0 \<longrightarrow> (\<exists>a bs'. p = DESC_PTR (of_nat a) \<and> heap_inv h' bs' (insert (a, t) us)
        \<and> (\<forall>u \<in> us. region (a, t) \<inter> region u = {})))"
proof -
  have inv: "page_inv (pages h)" "free_set (pages h) \<subseteq> {1..<1048575}" "placed 1 bs"
    "seg (ram h) (pool h) bs 0" "used_ok (ram h) us" "apart us bs"
    "taken (pages h) (regions bs \<union> \<Union> (region ` us))"
    using assms(1) by (auto simp: heap_inv_def)
  obtain m d where sc: "malloc_scan (ram h) (pool h) Dummy (of_nat t) = Some (m, d, None)"
      "seg m d bs 0" "same_on (- descs bs) (ram h) m"
    using malloc_scan_refines [of "ram h" "pool h" "[]" bs t] inv(3,4) assms(2,3,5) by auto
  have off: "\<Union> (region ` us) \<subseteq> - descs bs" by (rule regions_us_off [OF inv(5,6,3)])
  have du: "desc b \<subseteq> \<Union> (region ` us)" if "(b, k) \<in> us" for b k
    using used_okD [OF inv(5) that] desc_region [of k b] that by blast
  have us: "used_ok m us"
    by (rule used_ok_same [OF inv(5)]) (use du off in \<open>blast intro: same_on_subset [OF sc(3)]\<close>)
  define np where "np = (t + 4095) div 4096"
  have npu: "unat (bytes_to_pages (of_nat t)) = np"
    using assms(3) by (simp add: np_def bytes_to_pages_unat)
  have np: "1 \<le> np" "t \<le> np * 4096" "np * 4096 < t + 4096" "np < 2 ^ 31"
    using assms(2,3) by (auto simp: np_def)
  have nps: "sint (bytes_to_pages (of_nat t)) = int np"
    using npu np by (simp add: sint_uint uint_nat signed_take_bit_int_eq_self)
  obtain ps r where al: "alloc_ppages (pages h) (int np) 0 = Some (ps, r)"
    using ps.alloc_returns [OF inv(1), of "int np" 0] np by auto
  have np1: "1 \<le> int np" using np by simp
  have psinv: "page_inv ps" by (rule ps.alloc_ok [OF inv(1) np1 al])
  show ?thesis
  proof (cases "r = -1")
    case True
    let ?h = "h\<lparr>ram := m, pool := d, pages := ps, errno := ENOMEM\<rparr>"
    have "free_set ps = free_set (pages h)" using ps.alloc_fails [OF inv(1) np1] al True by simp
    then have "heap_inv ?h bs us" using inv psinv sc us by (simp add: heap_inv_def taken_def)
    moreover have "malloc sz h = Some (Inr (0, ?h))"
      using sc(1) assms(4) al nps True by (simp add: malloc_def Let_def)
    ultimately show ?thesis using same_on_subset [OF sc(3) off] by auto
  next
    case False
    have r: "0 \<le> r" "{r..<r + int np} \<subseteq> free_set (pages h)" "free_set ps = free_set (pages h) - {r..<r + int np}"
      using ps.alloc_takes [OF inv(1) np1 al False] by auto
    have "r \<in> {r..<r + int np}" "r + int np - 1 \<in> {r..<r + int np}" using np by auto
    then have "r \<in> {1..<1048575}" "r + int np - 1 \<in> {1..<1048575}" using r(2) inv(2) by blast+
    then have r1: "1 \<le> r" "r + int np - 1 < 1048575" by simp_all
    define a where "a = nat r * 4096"
    have rn: "int (nat r) = r" using r by simp
    have "nat r + np < 1048576" "1 \<le> nat r" using r1 rn by linarith+
    then have lim: "a + np * 4096 < 2 ^ 32" "1 \<le> a" unfolding a_def by simp_all
    have page: "int (x div 4096) \<in> {r..<r + int np}" if "x \<in> region (a, np * 4096)" for x
    proof -
      have "nat r \<le> x div 4096" "x div 4096 < nat r + np"
        using that by (auto simp: region_def a_def div_less_iff_less_mult less_eq_div_iff_mult_less_eq algebra_simps)
      then have "r \<le> int (x div 4096)" "int (x div 4096) < r + int np" using rn by linarith+
      then show ?thesis by simp
    qed
    have new: "region (a, np * 4096) \<inter> (regions bs \<union> \<Union> (region ` us)) = {}"
      using inv(7) page r(2) unfolding taken_def by blast
    have mem: "page_to_addr (word_of_int r) = of_nat a"
    proof -
      have "(word_of_int r :: u32) = of_nat (nat r)" using r(1) by (simp add: of_nat_nat)
      then show ?thesis by (simp only: page_to_addr_def push_bit_eq_mult a_def of_nat_mult) simp
    qed
    define t' where "t' = np * 4096 - t"
    have split: "region (a, t) \<subseteq> region (a, np * 4096)" "region (a + t, t') \<subseteq> region (a, np * 4096)"
      "region (a, t) \<inter> region (a + t, t') = {}"
      using np unfolding t'_def by (auto simp: region_def)
    let ?m = "set_magic (of_nat a) MAGIC_USED (set_next (of_nat a) 0 (set_size (of_nat a) (of_nat t) m))"
    have fresh: "region (a, t) \<inter> region u = {}" if "u \<in> us" for u using new split(1) that by blast
    have "a + t < 2 ^ 32" using lim np by linarith
    from take_block_inv [OF inv(3) sc(2) us inv(6) lim(2) assms(2) this _ fresh disjI2 [OF refl]] new split(1)
    have tb: "seg ?m d bs 0" "used_ok ?m (insert (a, t) us)" "apart (insert (a, t) us) bs" "same_on (- desc a) m ?m"
      by blast+
    have keep: "\<Union> (region ` us) \<subseteq> - desc a" using fresh desc_region [OF assms(2), of a] by blast
    have same: "same_on (\<Union> (region ` us)) (ram h) ?m"
      by (rule same_on_trans [OF same_on_subset [OF sc(3) off] same_on_subset [OF tb(4) keep]])
    have pn: "DESC_PTR (of_nat a) \<noteq> 0" using desc_ptr_nonzero [of a] lim np assms(2) by simp
    have tk: "taken ps (regions bs \<union> \<Union> (region ` us))" using inv(7) r(3) unfolding taken_def by blast
    have tk': "taken ps (region (a, np * 4096))" using page r(3) unfolding taken_def by blast
    have fs: "free_set ps \<subseteq> {1..<1048575}" using inv(2) r(3) by blast
    have pgs: "unat (bytes_to_pages (of_nat t)) = np" by (rule npu)
    have pg: "bytes_to_pages (of_nat t) = (of_nat np :: u32)" using npu by (metis of_nat_unat ucast_id)
    have rest: "bytes_to_pages (of_nat t) * 4096 - of_nat t = (of_nat t' :: u32)"
      using np unfolding pg t'_def by (simp add: of_nat_diff)
    show ?thesis
    proof (cases "t' = 0")
      case True
      let ?h = "h\<lparr>ram := ?m, pool := d, pages := ps\<rparr>"
      have "taken ps (regions bs \<union> \<Union> (region ` insert (a, t) us))"
        using tk tk' split(1) unfolding taken_def by blast
      then have "heap_inv ?h bs (insert (a, t) us)" using tb inv psinv fs by (simp add: heap_inv_def)
      moreover have "malloc sz h = Some (Inr (DESC_PTR (of_nat a), ?h))"
        using sc(1) assms(4) al nps False True rest mem by (simp add: malloc_def Let_def)
      moreover have "same_on (\<Union> (region ` us)) (ram h) (ram ?h)" using same by simp
      ultimately show ?thesis using pn fresh by blast
    next
      case nz: False
      have t'12: "12 \<le> t'"
        using assms(6) nz rest_size [of t] unfolding rest_fits_def t'_def np_def by auto
      let ?r = "of_nat (a + t) :: u32"
      let ?m2 = "set_magic ?r MAGIC_USED (set_next ?r 0 (set_size ?r (of_nat t') ?m))"
      have fresh2: "region (a + t, t') \<inter> region u = {}" if "u \<in> insert (a, t) us" for u
        using new split that by blast
      have lim2: "1 \<le> a + t" "a + t + t' < 2 ^ 32" using lim np unfolding t'_def by linarith+
      from take_block_inv [OF inv(3) tb(1-3) lim2(1) t'12 lim2(2) _ fresh2 disjI2 [OF refl]] new split(2)
      have tb2: "seg ?m2 d bs 0" "used_ok ?m2 (insert (a + t, t') (insert (a, t) us))"
        "apart (insert (a + t, t') (insert (a, t) us)) bs" "same_on (- desc (a + t)) ?m ?m2"
        by blast+
      let ?h2 = "h\<lparr>pool := d, pages := ps, ram := ?m2\<rparr>"
      have "taken ps (regions bs \<union> \<Union> (region ` insert (a + t, t') (insert (a, t) us)))"
        using tk tk' split(1,2) unfolding taken_def by blast
      then have inv2: "heap_inv ?h2 bs (insert (a + t, t') (insert (a, t) us))"
        using tb2 inv psinv fs by (simp add: heap_inv_def)
      obtain h3 where h3: "free (DESC_PTR ?r) ?h2 = Some (Inr h3)"
          "heap_inv h3 (put_free (a + t) t' bs) (insert (a + t, t') (insert (a, t) us) - {(a + t, t')})"
          "same_on (- (descs bs \<union> desc (a + t))) ?m2 (ram h3)"
        using free_correct [OF inv2, of "a + t" t'] by auto
      have notin: "(a + t, t') \<notin> insert (a, t) us"
      proof
        assume "(a + t, t') \<in> insert (a, t) us"
        then have "region (a + t, t') = {}" using fresh2 by blast
        then show False using t'12 by (simp add: region_def)
      qed
      have d2: "\<Union> (region ` us) \<subseteq> - desc (a + t)"
        using fresh2 desc_region [OF t'12, of "a + t"] by blast
      have "same_on (\<Union> (region ` us)) ?m (ram h3)"
        by (rule same_on_trans [OF same_on_subset [OF tb2(4) d2] same_on_subset [OF h3(3)]])
          (use d2 off in blast)
      then have "same_on (\<Union> (region ` us)) (ram h) (ram h3)" by (rule same_on_trans [OF same])
      moreover have "0 < (of_nat t' :: u32)"
        using nz t'12 lim2 of_nat_addr_less [of 0 t'] by simp
      then have "malloc sz h = Some (Inr (DESC_PTR (of_nat a), h3))"
        using sc(1) assms(4) al nps False rest mem h3(1) by (simp add: malloc_def Let_def)
      moreover have "heap_inv h3 (put_free (a + t) t' bs) (insert (a, t) us)"
        using h3(2) notin by simp
      ultimately show ?thesis using pn fresh by blast
    qed
  qed
qed

section \<open>Clients\<close>

text \<open>The conditions on a request: it does not overflow 31 bits, and the block's size does not
  leave 4 or 8 bytes of a fresh page, where no descriptor fits (see \<open>malloc_overruns_page\<close>).\<close>

definition good_size :: "u32 \<Rightarrow> bool" where
  "good_size sz \<longleftrightarrow> unat sz < 2 ^ 31 - 8192 \<and> rest_fits (unat (total_size sz))"

lemma good_size_total:
  assumes "good_size sz"
  obtains t where "total_size sz = of_nat t" "t = unat (total_size sz)" "12 \<le> t" "t + 4119 < 2 ^ 31"
    "rest_fits t" "4 dvd t" "unat sz + 12 \<le> t"
proof
  let ?t = "unat (total_size sz)"
  have lt: "unat sz < 2 ^ 31 - 8192" and r: "rest_fits ?t" using assms by (simp_all add: good_size_def)
  have t: "?t = (unat sz + 15) div 4 * 4" using lt by (intro total_size_unat) simp
  show "total_size sz = of_nat ?t" "?t = ?t" "rest_fits ?t" using r by simp_all
  show "4 dvd ?t" by (simp add: t)
  show le: "unat sz + 12 \<le> ?t" unfolding t by linarith
  then show "12 \<le> ?t" by simp
  show "?t + 4119 < 2 ^ 31" using lt unfolding t by simp
qed

lemma malloc_correct:
  assumes "heap_inv h bs us" "good_size sz"
  shows "\<exists>h' p. malloc sz h = Some (Inr (p, h')) \<and> same_on (\<Union> (region ` us)) (ram h) (ram h')
    \<and> (p = 0 \<longrightarrow> heap_inv h' bs us \<and> errno h' = ENOMEM)
    \<and> (p \<noteq> 0 \<longrightarrow> (\<exists>a bs'. p = DESC_PTR (of_nat a) \<and> heap_inv h' bs' (insert (a, unat (total_size sz)) us)
        \<and> (\<forall>u \<in> us. region (a, unat (total_size sz)) \<inter> region u = {})))"
proof -
  obtain t where t: "total_size sz = of_nat t" "t = unat (total_size sz)" "12 \<le> t" "t + 4119 < 2 ^ 31"
    "rest_fits t" "4 dvd t" using assms(2) by (rule good_size_total)
  obtain bs' r where tf: "take_fit t bs = (bs', r)" by (cases "take_fit t bs")
  show ?thesis
  proof (cases r)
    case None
    have e: "take_fit t bs = (bs, None)" using take_fit_fst_None [of t bs] tf None by simp
    show ?thesis using malloc_from_pages [OF assms(1) t(3,4,1) e t(5,6)] t(2) by simp
  next
    case (Some a)
    have tf': "take_fit t bs = (bs', Some a)" using tf Some by simp
    have lt: "t + 24 < 2 ^ 32" using t(4) by simp
    obtain h' where h': "malloc sz h = Some (Inr (DESC_PTR (of_nat a), h'))"
        "heap_inv h' bs' (insert (a, t) us)" "same_on (\<Union> (region ` us)) (ram h) (ram h')"
        "\<forall>u \<in> us. region (a, t) \<inter> region u = {}"
      using malloc_from_list [OF assms(1) t(3) lt t(1) tf'] by blast
    have "used_ok (ram h') (insert (a, t) us)" using h'(2) by (simp add: heap_inv_def)
    then have "a + t < 2 ^ 32" using used_okD [of "ram h'" "insert (a, t) us" a t] by simp
    then have "DESC_PTR (of_nat a) \<noteq> 0" using t(3) by (intro desc_ptr_nonzero) simp
    then show ?thesis using h' t(2) by blast
  qed
qed

text \<open>A program that uses the heap: it allocates, frees blocks it holds, and writes to the
  bytes of its blocks behind the descriptors. \<open>us\<close> are the blocks it holds.\<close>

inductive client_step :: "heap \<times> (nat \<times> nat) set \<Rightarrow> heap \<times> (nat \<times> nat) set \<Rightarrow> bool" where
  c_malloc: "client_step (h, us) (h', insert (unat (PTR_DESC p), unat (total_size sz)) us)"
    if "good_size sz" "malloc sz h = Some (Inr (p, h'))" "p \<noteq> 0"
| c_fail: "client_step (h, us) (h', us)"
    if "good_size sz" "malloc sz h = Some (Inr (0, h'))"
| c_free: "client_step (h, us) (h', us - {(a, n)})"
    if "(a, n) \<in> us" "free (DESC_PTR (of_nat a)) h = Some (Inr h')"
| c_write: "client_step (h, us) (h\<lparr>ram := (ram h)(x := v)\<rparr>, us)"
    if "(a, n) \<in> us" "a + 12 \<le> unat x" "unat x < a + n"

inductive client_run :: "heap \<times> (nat \<times> nat) set \<Rightarrow> heap \<times> (nat \<times> nat) set \<Rightarrow> bool" where
  run_refl: "client_run s s"
| run_step: "client_run s t \<Longrightarrow> client_step t u \<Longrightarrow> client_run s u"

inductive_cases client_stepE: "client_step (h, us) (h', us')"

text \<open>Writes to the user part of a block keep the invariant.\<close>

lemma user_write_inv:
  assumes "heap_inv h bs us" "(a, n) \<in> us" "same_on (- {a + 12..<a + n}) (ram h) m"
  shows "heap_inv (h\<lparr>ram := m\<rparr>) bs us"
proof -
  have inv: "placed 1 bs" "seg (ram h) (pool h) bs 0" "used_ok (ram h) us" "apart us bs"
    using assms(1) by (simp_all add: heap_inv_def)
  have sub: "{a + 12..<a + n} \<subseteq> region (a, n)" by (auto simp: region_def)
  have "descs bs \<subseteq> - {a + 12..<a + n}"
    using sub inv(4) assms(2) descs_regions [OF inv(1)] unfolding apart_def by blast
  then have "seg m (pool h) bs 0" using seg_same [OF inv(1) same_on_subset [OF assms(3)]] inv(2) by simp
  moreover have "used_ok m us"
  proof (rule used_ok_same [OF inv(3)])
    fix b k assume u: "(b, k) \<in> us"
    show "same_on (desc b) (ram h) m"
    proof (rule same_on_subset [OF assms(3)], cases "(b, k) = (a, n)")
      case True
      then show "desc b \<subseteq> - {a + 12..<a + n}" by (auto simp: desc_def)
    next
      case False
      then have "region (b, k) \<inter> region (a, n) = {}" using inv(4) u assms(2) unfolding apart_def by blast
      moreover have "desc b \<subseteq> region (b, k)" using used_okD [OF inv(3) u] by (intro desc_region) simp
      ultimately show "desc b \<subseteq> - {a + 12..<a + n}" using sub by blast
    qed
  qed
  ultimately show ?thesis using assms(1) by (simp add: heap_inv_def)
qed

lemma client_write_inv:
  assumes "heap_inv h bs us" "(a, n) \<in> us" "a + 12 \<le> unat x" "unat x < a + n"
  shows "heap_inv (h\<lparr>ram := (ram h)(x := v)\<rparr>) bs us"
  by (rule user_write_inv [OF assms(1,2)]) (use assms(3,4) in \<open>auto simp: same_on_def\<close>)

lemma client_step_inv:
  assumes "client_step (h, us) (h', us')" "heap_inv h bs us"
  shows "\<exists>bs'. heap_inv h' bs' us'"
  using assms(1)
proof (cases rule: client_step.cases)
  case (c_malloc sz p)
  obtain a bs' where a: "p = DESC_PTR (of_nat a)" "heap_inv h' bs' (insert (a, unat (total_size sz)) us)"
    using malloc_correct [OF assms(2) c_malloc(2)] c_malloc(3,4) by fastforce
  have "used_ok (ram h') (insert (a, unat (total_size sz)) us)" using a(2) by (simp add: heap_inv_def)
  then have "a + 12 \<le> 2 ^ 32" using used_okD [of "ram h'" _ a "unat (total_size sz)"] by fastforce
  then have "unat (PTR_DESC p) = a" using a(1) unat_of_nat_addr by simp
  then show ?thesis using a(2) c_malloc(1) by auto
next
  case (c_fail sz)
  then show ?thesis using malloc_correct [OF assms(2)] by fastforce
next
  case (c_free a n)
  then show ?thesis using free_correct [OF assms(2)] by fastforce
next
  case (c_write a n x v)
  then show ?thesis using client_write_inv [OF assms(2) c_write(3-5)] by blast
qed

lemma client_run_inv:
  "client_run (h, us) (h', us') \<Longrightarrow> heap_inv h bs us \<Longrightarrow> \<exists>bs'. heap_inv h' bs' us'"
proof (induction "(h, us)" "(h', us')" arbitrary: h' us' rule: client_run.induct)
  case (run_step t)
  obtain h1 us1 where t: "t = (h1, us1)" by (cases t)
  obtain bs1 where "heap_inv h1 bs1 us1" using run_step.hyps(2) [OF t run_step.prems] by blast
  then show ?case using client_step_inv run_step.hyps(3) t by blast
qed blast

section \<open>Properties\<close>

definition demo_heap :: heap where
  "demo_heap = \<lparr>pages = \<lparr>bitmap = (\<lambda>i. if i = 0 then 7 else if i = 1 then 0 else 0xffffffff),
     bmsize = 8, last_alloc_idx = 0, iflag = True\<rparr>, ram = (\<lambda>_. 0), pool = 0, errno = 0\<rparr>"

lemma demo_heap_inv: "heap_inv demo_heap [] {}"
proof -
  have "page_inv (pages demo_heap)" by (auto simp: page_inv_def demo_heap_def)
  moreover have "free_set (pages demo_heap) \<subseteq> {1..<1048575}"
  proof
    fix q assume "q \<in> free_set (pages demo_heap)"
    then have q: "0 \<le> q" "is_free (pages demo_heap) q" by (simp_all add: free_set_def)
    have "q < 64"
    proof (rule ccontr)
      assume "\<not> q < 64"
      then have "bm_idx q \<noteq> 0" "bm_idx q \<noteq> 1" using q(1) by (simp_all add: bm_idx_def)
      then have "bitmap (pages demo_heap) (bm_idx q) = - 1" by (simp add: demo_heap_def u32_max_eq)
      then show False using q(2) by (simp add: is_free_iff)
    qed
    moreover have "q \<noteq> 0"
      using q(2) by (auto simp: is_free_def bm_idx_def bm_bit_def demo_heap_def c_div_def)
    ultimately show "q \<in> {1..<1048575}" using q(1) by simp
  qed
  ultimately show ?thesis
    by (simp add: heap_inv_def used_ok_def apart_def taken_def) (simp add: demo_heap_def)
qed

text \<open>C3: however a program allocates blocks of good sizes, frees what it holds and writes
  to its blocks, the blocks it holds never overlap and freeing any one of them returns
  without a panic. A size is good when it is below \<open>2 ^ 31 - 8192\<close> and its block does not leave 4 or 8 bytes
  of a page: others overrun a page, as \<open>malloc_overruns_page\<close> shows.\<close>

theorem heap_blocks_apart:
  assumes "heap_inv h0 [] {}" "client_run (h0, {}) (h, us)" "u \<in> us"
  shows "(\<forall>v \<in> us. u \<noteq> v \<longrightarrow> region u \<inter> region v = {}) \<and> (\<exists>h'. free (DESC_PTR (of_nat (fst u))) h = Some (Inr h'))"
proof -
  obtain bs where inv: "heap_inv h bs us" using client_run_inv [OF assms(2,1)] by blast
  then have "\<forall>v \<in> us. u \<noteq> v \<longrightarrow> region u \<inter> region v = {}"
    using assms(3) unfolding heap_inv_def apart_def by blast
  moreover have "(fst u, snd u) \<in> us" using assms(3) by simp
  from free_correct [OF inv this] have "\<exists>h'. free (DESC_PTR (of_nat (fst u))) h = Some (Inr h')" by blast
  ultimately show ?thesis by blast
qed

text \<open>C16: an allocation of a good size returns and changes no byte of the blocks in use; a
  null pointer means \<open>ENOMEM\<close> and nothing else, any other pointer is the user part of
  a new block apart from all others and big enough for the request.\<close>

theorem malloc_spec:
  assumes "heap_inv h bs us" "good_size sz"
  shows "\<exists>h' p. malloc sz h = Some (Inr (p, h')) \<and> same_on (\<Union> (region ` us)) (ram h) (ram h')
    \<and> (if p = 0 then heap_inv h' bs us \<and> errno h' = ENOMEM
       else \<exists>a n bs'. p = DESC_PTR (of_nat a) \<and> unat sz + 12 \<le> n \<and> heap_inv h' bs' (insert (a, n) us)
         \<and> (\<forall>u \<in> us. region (a, n) \<inter> region u = {}))"
proof -
  have le: "unat sz + 12 \<le> unat (total_size sz)" using assms(2) by (rule good_size_total) simp
  obtain h' p where "malloc sz h = Some (Inr (p, h'))" "same_on (\<Union> (region ` us)) (ram h) (ram h')"
    "p = 0 \<longrightarrow> heap_inv h' bs us \<and> errno h' = ENOMEM"
    "p \<noteq> 0 \<longrightarrow> (\<exists>a bs'. p = DESC_PTR (of_nat a) \<and> heap_inv h' bs' (insert (a, unat (total_size sz)) us)
        \<and> (\<forall>u \<in> us. region (a, unat (total_size sz)) \<inter> region u = {}))"
    using malloc_correct [OF assms] by blast
  then show ?thesis using le by (intro exI [of _ h'] exI [of _ p]) (cases "p = 0"; simp; blast)
qed

lemma good_size_100: "good_size 100"
proof -
  have "unat (total_size 100) = 112" using total_size_unat [of 100] by simp
  then show ?thesis by (simp add: good_size_def rest_fits_def)
qed

theorem malloc_spec_witness:
  "\<exists>h' p. malloc 100 demo_heap = Some (Inr (p, h')) \<and> (p = 0 \<longrightarrow> errno h' = ENOMEM)"
  using malloc_spec [OF demo_heap_inv good_size_100] by auto

lemma demo_malloc:
  "\<exists>h a bs. malloc 100 demo_heap = Some (Inr (DESC_PTR (of_nat a), h)) \<and> DESC_PTR (of_nat a) \<noteq> 0 \<and> a + 12 \<le> 2 ^ 32
     \<and> heap_inv h bs {(a, 112)}"
proof -
  obtain h p where r: "malloc 100 demo_heap = Some (Inr (p, h))"
      "p \<noteq> 0 \<longrightarrow> (\<exists>a bs'. p = DESC_PTR (of_nat a) \<and> heap_inv h bs' (insert (a, unat (total_size 100)) {}))"
    using malloc_correct [OF demo_heap_inv good_size_100] by blast
  have t: "total_size 100 = 112" by (simp add: total_size_def DESC_SIZE_def)
  have "fst (projr (the (malloc 100 demo_heap))) = 0x300c" by code_simp
  then have "p \<noteq> 0" using r(1) by simp
  then obtain a bs' where a: "p = DESC_PTR (of_nat a)" "heap_inv h bs' {(a, 112)}" using r(2) t by auto
  have "used_ok (ram h) {(a, 112)}" using a(2) by (simp add: heap_inv_def)
  then have "a + 12 \<le> 2 ^ 32" using used_okD [of "ram h" "{(a, 112)}" a 112] by simp
  then show ?thesis using r(1) a \<open>p \<noteq> 0\<close> by blast
qed

theorem heap_blocks_apart_witness:
  "\<exists>h p us. malloc 100 demo_heap = Some (Inr (p, h)) \<and> client_run (demo_heap, {}) (h, us) \<and> us \<noteq> {}
     \<and> (\<exists>h'. free p h = Some (Inr h'))"
proof -
  obtain h a where m: "malloc 100 demo_heap = Some (Inr (DESC_PTR (of_nat a), h))"
      "DESC_PTR (of_nat a) \<noteq> 0" "a + 12 \<le> 2 ^ 32" using demo_malloc by blast
  have "client_step (demo_heap, {}) (h, insert (unat (PTR_DESC (DESC_PTR (of_nat a)))
      , unat (total_size 100)) {})"
    by (rule c_malloc [OF good_size_100 m(1,2)])
  then have run: "client_run (demo_heap, {}) (h, {(a, unat (total_size 100))})"
    using unat_of_nat_addr [OF m(3)] run_step [OF run_refl] by simp
  show ?thesis using heap_blocks_apart [OF demo_heap_inv run, of "(a, unat (total_size 100))"] run m(1)
    by auto
qed

text \<open>C19: freeing a block returns, changes no byte of the other blocks in use, and gives all
  its bytes back: the free list covers what it covered before and the block.\<close>

theorem free_spec:
  assumes "heap_inv h bs us" "(a, n) \<in> us"
  shows "\<exists>h' bs'. free (DESC_PTR (of_nat a)) h = Some (Inr h') \<and> heap_inv h' bs' (us - {(a, n)})
    \<and> regions bs' = regions bs \<union> region (a, n) \<and> same_on (\<Union> (region ` (us - {(a, n)}))) (ram h) (ram h')"
proof -
  have inv: "placed 1 bs" "used_ok (ram h) us" "apart us bs" using assms(1) by (simp_all add: heap_inv_def)
  have u: "1 \<le> a" "12 \<le> n" "a + n < 2 ^ 32" using used_okD [OF inv(2) assms(2)] by simp_all
  have dis: "region (a, n) \<inter> regions bs = {}" using inv(3) assms(2) unfolding apart_def by blast
  have "\<Union> (region ` (us - {(a, n)})) \<subseteq> - (descs bs \<union> desc a)"
    using inv(3) assms(2) descs_regions [OF inv(1)] desc_region [OF u(2), of a] unfolding apart_def by blast
  then show ?thesis
    using free_correct [OF assms] put_free_spec [OF inv(1) u dis] same_on_subset by blast
qed

theorem free_spec_witness:
  "\<exists>h a h'. malloc 100 demo_heap = Some (Inr (DESC_PTR (of_nat a), h)) \<and> free (DESC_PTR (of_nat a)) h = Some (Inr h')"
proof -
  obtain h a bs where "malloc 100 demo_heap = Some (Inr (DESC_PTR (of_nat a), h))" "heap_inv h bs {(a, 112)}"
    using demo_malloc by blast
  then show ?thesis using free_spec [of h bs "{(a, 112)}" a 112] by blast
qed

text \<open>Freeing a block twice in a row always panics, whether the first time put it in
  the list as it was or merged it into a neighbour.\<close>

theorem double_free_panics:
  assumes "heap_inv h bs us" "(a, n) \<in> us" "free (DESC_PTR (of_nat a)) h = Some (Inr h')"
  shows "\<exists>msg. free (DESC_PTR (of_nat a)) h' = Some (Inl (Panic msg))"
proof -
  have "d_magic (ram h') (of_nat a) \<noteq> MAGIC_USED" using free_correct [OF assms(1,2)] assms(3) by auto
  moreover have "DESC_PTR (of_nat a) \<noteq> 0"
    using used_okD [of "ram h" us a n] assms(1,2) by (intro desc_ptr_nonzero) (simp add: heap_inv_def)
  ultimately show ?thesis by (simp add: free_def Let_def)
qed

theorem double_free_panics_witness:
  "\<exists>h p h' msg. malloc 100 demo_heap = Some (Inr (p, h)) \<and> free p h = Some (Inr h')
     \<and> free p h' = Some (Inl (Panic msg))"
proof -
  obtain h a bs where m: "malloc 100 demo_heap = Some (Inr (DESC_PTR (of_nat a), h))" "heap_inv h bs {(a, 112)}"
    using demo_malloc by blast
  obtain h' where f: "free (DESC_PTR (of_nat a)) h = Some (Inr h')"
    using free_correct [OF m(2), of a 112] by blast
  then show ?thesis using double_free_panics [OF m(2) _ f] m(1) by blast
qed

text \<open>\<open>realloc\<close> compares the request with the size of the block including its
  descriptor: a request up to 12 bytes above what the block holds returns the block as
  it is, too small.\<close>

theorem realloc_too_small:
  assumes "heap_inv h bs us" "(a, n) \<in> us" "n - 12 < unat sz" "unat sz \<le> n"
  shows "realloc (DESC_PTR (of_nat a)) sz h = Some (Inr (DESC_PTR (of_nat a), h))"
proof -
  have u: "a + n < 2 ^ 32" "12 \<le> n" "d_size (ram h) (of_nat a) = of_nat n"
    using used_okD [of "ram h" us a n] assms(1,2) by (simp_all add: heap_inv_def)
  have "sz \<le> of_nat n" using assms(4) u(1) by (simp add: word_le_nat_alt unat_of_nat)
  moreover have "DESC_PTR (of_nat a) \<noteq> 0" using u by (intro desc_ptr_nonzero) simp
  ultimately show ?thesis using u(3) by (simp add: realloc_def Let_def)
qed

theorem realloc_too_small_witness:
  "\<exists>h p. malloc 100 demo_heap = Some (Inr (p, h)) \<and> realloc p 112 h = Some (Inr (p, h))"
proof -
  obtain h a bs where m: "malloc 100 demo_heap = Some (Inr (DESC_PTR (of_nat a), h))" "heap_inv h bs {(a, 112)}"
    using demo_malloc by blast
  then show ?thesis using realloc_too_small [OF m(2), of a 112 112] by auto
qed

text \<open>When \<open>malloc\<close> has to take fresh pages and the block leaves 8 bytes of the last one,
  it writes a descriptor there: the first word of the page behind, which is not its
  own, becomes zero.\<close>

theorem malloc_overruns_page:
  assumes "pool h = 0" "t = unat (total_size sz)" "t mod 4096 = 4088" "t < 2 ^ 31 - 8192"
    "alloc_ppages (pages h) (int (t div 4096 + 1)) 0 = Some (ps, pg)" "pg \<noteq> -1"
  shows "\<exists>p h'. malloc sz h = Some (Inr (p, h'))
    \<and> load32 (ram h') (page_to_addr (word_of_int pg) + of_nat ((t div 4096 + 1) * 4096)) = 0"
proof -
  define np where "np = t div 4096 + 1"
  have t: "total_size sz = of_nat t" using assms(2) by simp
  have "t = t div 4096 * 4096 + 4088" using assms(3) div_mult_mod_eq [of t 4096] by linarith
  then have t8: "t + 8 = np * 4096" unfolding np_def add_mult_distrib by linarith
  have "t + 4095 = np * 4096 + 4087" using t8 by linarith
  then have np: "(t + 4095) div 4096 = np" by simp
  have sc: "malloc_scan (ram h) (pool h) Dummy (of_nat t) = Some (ram h, 0, None)"
    using assms(1) by (subst malloc_scan.simps) (simp add: next_of_def)
  have b: "unat (bytes_to_pages (of_nat t)) = np" using assms(4) np by (simp add: bytes_to_pages_unat)
  then have bw: "bytes_to_pages (of_nat t) = (of_nat np :: u32)" by (metis of_nat_unat ucast_id)
  have "np < 2 ^ 31" using assms(4) unfolding np_def by simp
  then have bs: "sint (bytes_to_pages (of_nat t)) = int np"
    using b by (simp add: sint_uint uint_nat signed_take_bit_int_eq_self)
  have rest: "bytes_to_pages (of_nat t) * 4096 - of_nat t = (8 :: u32)"
  proof -
    have "of_nat np * 4096 = (of_nat (np * 4096) :: u32)" by simp
    then show ?thesis unfolding bw t8 [symmetric] by simp
  qed
  let ?a = "page_to_addr (word_of_int pg) :: u32"
  let ?r = "?a + of_nat t"
  have fin: "?a + of_nat (np * 4096) = ?r + 8" unfolding t8 [symmetric] by (simp add: add.assoc)
  let ?m = "set_magic ?a MAGIC_USED (set_next ?a 0 (set_size ?a (of_nat t) (ram h)))"
  let ?m2 = "set_magic ?r MAGIC_USED (set_next ?r 0 (set_size ?r 8 ?m))"
  let ?h = "h\<lparr>pool := 0, pages := ps, ram := ?m2\<rparr>"
  obtain h' where h': "free (DESC_PTR ?r) ?h = Some (Inr h')" "d_next (ram h') ?r = 0"
    by (cases "DESC_PTR ?r = 0") (simp_all add: free_def Let_def)
  have "(0 :: u32) < 8" by simp
  then have "malloc sz h = Some (Inr (DESC_PTR ?a, h'))"
    using sc t assms(1,5,6) bs rest h'(1) np_def by (simp add: malloc_def Let_def)
  moreover have "load32 (ram h') (?a + of_nat ((t div 4096 + 1) * 4096)) = 0"
    using h'(2) fin unfolding np_def [symmetric] by (simp only: d_next_def)
  ultimately show ?thesis by blast
qed

theorem malloc_overruns_page_witness:
  "\<exists>p h'. malloc 4076 (demo_heap\<lparr>ram := \<lambda>_. 0xff\<rparr>) = Some (Inr (p, h')) \<and> load32 (ram h') 0x4000 = 0
     \<and> load32 (\<lambda>_. 0xff) 0x4000 \<noteq> 0"
proof -
  let ?h = "demo_heap\<lparr>ram := \<lambda>_. 0xff\<rparr>"
  have t: "unat (total_size 4076) = 4088" using total_size_unat [of 4076] by simp
  have "snd (the (alloc_ppages (pages ?h) 1 0)) = 3" "alloc_ppages (pages ?h) 1 0 \<noteq> None" by code_simp+
  then obtain ps where "alloc_ppages (pages ?h) 1 0 = Some (ps, 3)" by (auto simp: prod_eq_iff)
  then have "\<exists>p h'. malloc 4076 ?h = Some (Inr (p, h'))
      \<and> load32 (ram h') (page_to_addr (word_of_int 3) + of_nat ((4088 div 4096 + 1) * 4096)) = 0"
    using malloc_overruns_page [of ?h 4088 4076 ps 3] t by (simp add: demo_heap_def)
  moreover have "page_to_addr (word_of_int 3) + of_nat ((4088 div 4096 + 1) * 4096) = 0x4000"
    by (simp add: page_to_addr_def push_bit_eq_mult)
  moreover have "load32 (\<lambda>_. 0xff) 0x4000 \<noteq> 0" by code_simp
  ultimately show ?thesis by metis
qed

text \<open>\<open>calloc\<close> clears the block: its request is whatever \<open>num * sz\<close> is modulo \<open>2^32\<close>.\<close>

lemma calloc_result:
  assumes "malloc (num * sz) h = Some (Inr (p, h1))" "p \<noteq> 0" "unat (p AND 3) \<le> unat (num * sz)"
  shows "\<exists>h'. calloc num sz h = Some (Inr (p, h')) \<and> (\<forall>x. unat (x - p) < unat (num * sz) \<longrightarrow> ram h' x = 0)
    \<and> (\<forall>x. \<not> unat (x - p) < unat (num * sz) \<longrightarrow> ram h' x = ram h1 x)"
  using assms memset_apply [OF assms(3), of "ram h1" 0] by (simp add: calloc_def)

lemma region_offset:
  fixes x p :: u32
  assumes "a + n \<le> 2 ^ 32" "unat p = a"
  shows "unat (x - p) < n \<longleftrightarrow> unat x \<in> {a..<a + n}"
proof (cases "p \<le> x")
  case True
  then have "unat (x - p) = unat x - a" using assms(2) by (simp add: unat_sub_no_wrap word_le_nat_alt)
  moreover have "a \<le> unat x" using True assms(2) by (simp add: word_le_nat_alt)
  ultimately show ?thesis by auto
next
  case False
  then have "unat x < a" using assms(2) by (simp add: word_le_nat_alt)
  moreover have "unat (x - p) = 2 ^ 32 + unat x - a"
    using calculation assms by (simp add: unat_sub_if')
  ultimately show ?thesis using assms(1) by auto
qed

text \<open>\<open>calloc\<close>, when it does not fail, returns a block of its own, apart from the others,
  whose first \<open>num * sz\<close> bytes are zero, and keeps every block in use.\<close>

theorem calloc_spec:
  assumes "heap_inv h bs us" "good_size (num * sz)" "3 \<le> unat (num * sz)"
  shows "\<exists>h' p. calloc num sz h = Some (Inr (p, h')) \<and> same_on (\<Union> (region ` us)) (ram h) (ram h')
    \<and> (p \<noteq> 0 \<longrightarrow> (\<forall>x. unat (x - p) < unat (num * sz) \<longrightarrow> ram h' x = 0)
        \<and> (\<exists>a n bs'. p = DESC_PTR (of_nat a) \<and> unat (num * sz) + 12 \<le> n \<and> heap_inv h' bs' (insert (a, n) us)))"
proof -
  obtain t where t: "t = unat (total_size (num * sz))" "12 \<le> t" "unat (num * sz) + 12 \<le> t"
    using assms(2) by (rule good_size_total)
  obtain h1 p where m: "malloc (num * sz) h = Some (Inr (p, h1))" "same_on (\<Union> (region ` us)) (ram h) (ram h1)"
    "p \<noteq> 0 \<longrightarrow> (\<exists>a bs'. p = DESC_PTR (of_nat a) \<and> heap_inv h1 bs' (insert (a, t) us)
        \<and> (\<forall>u \<in> us. region (a, t) \<inter> region u = {}))"
    using malloc_correct [OF assms(1,2)] t(1) by blast
  show ?thesis
  proof (cases "p = 0")
    case True
    then show ?thesis using m(1,2) by (simp add: calloc_def)
  next
    case False
    then obtain a bs' where a: "p = DESC_PTR (of_nat a)" "heap_inv h1 bs' (insert (a, t) us)"
      "\<forall>u \<in> us. region (a, t) \<inter> region u = {}" using m(3) by blast
    have at: "a + t < 2 ^ 32" using used_okD [of "ram h1" "insert (a, t) us" a t] a(2) by (simp add: heap_inv_def)
    have p: "unat p = a + 12"
    proof -
      have "p = of_nat (a + 12)" using a(1) by (simp add: DESC_PTR_def DESC_SIZE_def)
      then show ?thesis using at t(2) by (simp only: unat_of_nat) simp
    qed
    have "unat (p AND 3) \<le> 3" using word_and_le1 [of p 3] by (simp add: word_le_nat_alt)
    then have al: "unat (p AND 3) \<le> unat (num * sz)" using assms(3) by linarith
    let ?m = "memset (ram h1) p 0 (num * sz)"
    have call: "calloc num sz h = Some (Inr (p, h1\<lparr>ram := ?m\<rparr>))" using m(1) False by (simp add: calloc_def)
    have val: "?m x = (if unat x \<in> {a + 12..<a + 12 + unat (num * sz)} then 0 else ram h1 x)" for x
      using memset_apply [OF al, of "ram h1" 0 x] region_offset [OF _ p, of "unat (num * sz)" x] at t(3) by simp
    have off: "same_on (- {a + 12..<a + t}) (ram h1) ?m"
      using t(3) by (auto simp: same_on_def val)
    have "{a + 12..<a + t} \<subseteq> region (a, t)" by (auto simp: region_def)
    then have "\<Union> (region ` us) \<subseteq> - {a + 12..<a + t}" using a(3) by blast
    then have "same_on (\<Union> (region ` us)) (ram h) ?m" using same_on_trans [OF m(2) same_on_subset [OF off]] by blast
    moreover have "heap_inv (h1\<lparr>ram := ?m\<rparr>) bs' (insert (a, t) us)"
      by (rule user_write_inv [OF a(2) _ off]) simp
    moreover have "\<forall>x. unat (x - p) < unat (num * sz) \<longrightarrow> ?m x = 0"
      using memset_apply [OF al, of "ram h1" 0] by simp
    ultimately show ?thesis using call a(1) t(3) by (intro exI [of _ "h1\<lparr>ram := ?m\<rparr>"] exI [of _ p]) auto
  qed
qed

theorem calloc_spec_witness:
  "\<exists>h' p. calloc 5 20 demo_heap = Some (Inr (p, h'))"
  using calloc_spec [of demo_heap "[]" "{}" 5 20] demo_heap_inv good_size_100 by auto

lemma unat_desc_ptr:
  assumes "a + 12 < 2 ^ 32"
  shows "unat (DESC_PTR (of_nat a)) = a + 12"
proof -
  have "DESC_PTR (of_nat a) = of_nat (a + 12)" by (simp add: DESC_PTR_def DESC_SIZE_def)
  then show ?thesis using assms by (simp only: unat_of_nat) simp
qed

text \<open>The copy of \<open>realloc\<close>: as many bytes as the old block has with its descriptor, from its
  user part to the user part of a block apart from it.\<close>

lemma realloc_copy:
  assumes "region (a, n) \<inter> region (b, k) = {}" "a + n < 2 ^ 32" "b + k < 2 ^ 32" "12 \<le> n" "n + 12 \<le> k"
  shows "memcpy m (DESC_PTR (of_nat b)) (DESC_PTR (of_nat a)) (of_nat n) x =
    (if unat x \<in> {b + 12..<b + 12 + n} then m (DESC_PTR (of_nat a) + (x - DESC_PTR (of_nat b))) else m x)"
proof -
  let ?d = "DESC_PTR (of_nat b) :: u32" and ?s = "DESC_PTR (of_nat a) :: u32"
  have d: "unat ?d = b + 12" and s: "unat ?s = a + 12"
    using assms by (simp_all add: unat_desc_ptr)
  have n: "unat (of_nat n :: u32) = n" using assms(2) by (simp add: unat_of_nat)
  have far: "n \<le> unat (?s + of_nat j - ?d)" if "j < n" for j
  proof (cases "a + n \<le> b")
    case True
    have "unat (of_nat j :: u32) = j" using that assms(2) by (simp add: unat_of_nat)
    then have src: "unat (?s + of_nat j) = a + 12 + j"
      using s that True assms(3,5) by (simp add: unat_add_no_wrap)
    then have "unat (?s + of_nat j) < unat ?d" using d that True by simp
    then have "unat (?s + of_nat j - ?d) = 2 ^ 32 + (a + 12 + j) - (b + 12)"
      using src d by (simp add: unat_sub_if')
    then show ?thesis using assms(3,5) by simp
  next
    case False
    then have le: "b + k \<le> a" using region_less [OF assms(1)] assms(4,5) by simp
    have j: "unat (of_nat j :: u32) = j" using that assms(2) by (simp add: unat_of_nat)
    show ?thesis
    proof (cases "a + 12 + j < 2 ^ 32")
      case True
      then have "unat (?s + of_nat j) = a + 12 + j" using s j by (simp add: unat_add_no_wrap)
      then have "unat (?s + of_nat j - ?d) = a + 12 + j - (b + 12)" using d le by (simp add: unat_sub_no_wrap)
      then show ?thesis using le assms(5) by simp
    next
      case wrap: False
      then have "unat (?s + of_nat j) = a + 12 + j - 2 ^ 32"
        using s j that assms(2) by (simp add: unat_plus_if')
      moreover from this have "unat (?s + of_nat j) < unat ?d" using d that assms(2) wrap by simp
      ultimately have "unat (?s + of_nat j - ?d) = 2 ^ 32 + (a + 12 + j - 2 ^ 32) - (b + 12)"
        using d by (simp add: unat_sub_if')
      then show ?thesis using wrap le assms(5) by simp
    qed
  qed
  have "unat (x - ?d) < n \<longleftrightarrow> unat x \<in> {b + 12..<b + 12 + n}"
    by (rule region_offset [OF _ d]) (use assms in simp)
  then show ?thesis
    using memcpy_apply [of "of_nat n" ?s ?d m x] far n by simp
qed

text \<open>Growing a block with \<open>realloc\<close> returns a block of its own with room for the request
  and with every byte the old block's user part had, releases the old block and keeps
  all others; when there is no memory the old block stays as it was.\<close>

theorem realloc_spec:
  assumes "heap_inv h bs us" "(a, n) \<in> us" "n < unat sz" "good_size sz"
  shows "\<exists>h' p. realloc (DESC_PTR (of_nat a)) sz h = Some (Inr (p, h'))
    \<and> (if p = 0 then heap_inv h' bs us \<and> same_on (\<Union> (region ` us)) (ram h) (ram h')
       else (\<forall>j < n - 12. ram h' (p + of_nat j) = ram h (DESC_PTR (of_nat a) + of_nat j))
         \<and> same_on (\<Union> (region ` (us - {(a, n)}))) (ram h) (ram h')
         \<and> (\<exists>b k bs'. p = DESC_PTR (of_nat b) \<and> unat sz + 12 \<le> k \<and> heap_inv h' bs' (insert (b, k) (us - {(a, n)}))))"
proof -
  let ?s = "DESC_PTR (of_nat a) :: u32"
  have u: "12 \<le> n" "a + n < 2 ^ 32" "d_size (ram h) (of_nat a) = of_nat n"
    using used_okD [of "ram h" us a n] assms(1,2) by (simp_all add: heap_inv_def)
  have s0: "?s \<noteq> 0" and s: "unat ?s = a + 12" using u by (simp_all add: desc_ptr_nonzero unat_desc_ptr)
  have nsz: "\<not> sz \<le> of_nat n" using assms(3) u(2) by (simp add: word_le_nat_alt unat_of_nat)
  obtain k where k: "k = unat (total_size sz)" "12 \<le> k" "unat sz + 12 \<le> k"
    using assms(4) by (rule good_size_total)
  obtain h1 p where m: "malloc sz h = Some (Inr (p, h1))" "same_on (\<Union> (region ` us)) (ram h) (ram h1)"
    "p = 0 \<longrightarrow> heap_inv h1 bs us"
    "p \<noteq> 0 \<longrightarrow> (\<exists>b bs'. p = DESC_PTR (of_nat b) \<and> heap_inv h1 bs' (insert (b, k) us)
        \<and> (\<forall>u \<in> us. region (b, k) \<inter> region u = {}))"
    using malloc_correct [OF assms(1,4)] k(1) by blast
  show ?thesis
  proof (cases "p = 0")
    case True
    have "realloc ?s sz h = Some (Inr (0, h1))"
      using s0 u(3) nsz m(1) True by (simp add: realloc_def Let_def)
    then show ?thesis using m True by (intro exI [of _ h1] exI [of _ 0]) simp
  next
    case False
    obtain b bs' where b: "p = DESC_PTR (of_nat b)" "heap_inv h1 bs' (insert (b, k) us)"
      "\<forall>u \<in> us. region (b, k) \<inter> region u = {}" using m(4) False by blast
    have bk: "b + k < 2 ^ 32" and size1: "d_size (ram h1) (of_nat a) = of_nat n"
      using used_okD [of "ram h1" "insert (b, k) us" b k] used_okD [of "ram h1" "insert (b, k) us" a n] b(2) assms(2)
      by (simp_all add: heap_inv_def)
    have dis: "region (a, n) \<inter> region (b, k) = {}" using b(3) assms(2) by blast
    let ?m = "memcpy (ram h1) p ?s (of_nat n)"
    have nk: "n + 12 \<le> k" using assms(3) k(3) by simp
    note copy = realloc_copy [OF dis u(2) bk u(1) nk, of "ram h1"]
    have off: "same_on (- {b + 12..<b + k}) (ram h1) ?m"
      using nk unfolding b(1) by (auto simp: same_on_def copy)
    have inv2: "heap_inv (h1\<lparr>ram := ?m\<rparr>) bs' (insert (b, k) us)"
      by (rule user_write_inv [OF b(2) _ off]) simp
    obtain h2 where h2: "free ?s (h1\<lparr>ram := ?m\<rparr>) = Some (Inr h2)"
        "heap_inv h2 (put_free a n bs') (insert (b, k) us - {(a, n)})"
        "same_on (- (descs bs' \<union> desc a)) ?m (ram h2)"
      using free_correct [OF inv2, of a n] assms(2) by auto
    have "(b, k) \<noteq> (a, n)" using dis k(2) by (auto simp: region_def)
    then have inv3: "heap_inv h2 (put_free a n bs') (insert (b, k) (us - {(a, n)}))"
      using h2(2) insert_Diff_if [of "(b, k)" us "{(a, n)}"] by (simp only: singleton_iff if_False)
    have call: "realloc ?s sz h = Some (Inr (p, h2))"
      using s0 u(3) nsz m(1) False h2(1) size1 by (simp add: realloc_def Let_def)
    have apart1: "apart (insert (b, k) us) bs'" "placed 1 bs'" using b(2) by (simp_all add: heap_inv_def)
    have keep: "region v \<subseteq> - (descs bs' \<union> desc a)" if "v \<in> insert (b, k) us" "v \<noteq> (a, n)" for v
      using apart1 that assms(2) descs_regions [OF apart1(2)] desc_region [OF u(1), of a]
      unfolding apart_def by blast
    have vals: "ram h2 (p + of_nat j) = ram h (?s + of_nat j)" if "j < n - 12" for j
    proof -
      have p: "unat p = b + 12" using b(1) bk k(2) by (simp add: unat_desc_ptr)
      have j: "unat (of_nat j :: u32) = j" using that u(2) by (simp add: unat_of_nat)
      have pj: "unat (p + of_nat j) = b + 12 + j" using p j that nk bk by (simp add: unat_add_no_wrap)
      have sj: "unat (?s + of_nat j) = a + 12 + j" using s j that u(2) by (simp add: unat_add_no_wrap)
      have in1: "unat (p + of_nat j) \<in> region (b, k)" using pj that nk by (simp add: region_def)
      have "unat (p + of_nat j) \<in> - (descs bs' \<union> desc a)"
        using keep [of "(b, k)"] in1 \<open>(b, k) \<noteq> (a, n)\<close> by blast
      then have "ram h2 (p + of_nat j) = ?m (p + of_nat j)" using h2(3) unfolding same_on_def by blast
      also have "\<dots> = ram h1 (?s + of_nat j)" 
        using pj less_imp_le_nat [OF that] that copy [of "p + of_nat j"] unfolding b(1)
        by (simp add: less_diff_conv)
      also have "unat (?s + of_nat j) \<in> region (a, n)" using sj that by (simp add: region_def)
      then have "ram h1 (?s + of_nat j) = ram h (?s + of_nat j)"
        using m(2) assms(2) unfolding same_on_def by blast
      finally show ?thesis .
    qed
    have "same_on (\<Union> (region ` (us - {(a, n)}))) (ram h) (ram h2)"
      unfolding same_on_def
    proof (intro allI impI)
      fix x :: u32 assume "unat x \<in> \<Union> (region ` (us - {(a, n)}))"
      then obtain v where v: "v \<in> us" "v \<noteq> (a, n)" "unat x \<in> region v" by blast
      have "unat x \<notin> {b + 12..<b + k}" using b(3) v by (auto simp: region_def)
      then have "?m x = ram h1 x" using off unfolding same_on_def by blast
      moreover have "unat x \<in> - (descs bs' \<union> desc a)" using keep [of v] v by blast
      then have "ram h2 x = ?m x" using h2(3) unfolding same_on_def by blast
      moreover have "ram h1 x = ram h x" using m(2) v unfolding same_on_def by blast
      ultimately show "ram h2 x = ram h x" by simp
    qed
    then show ?thesis using call False vals inv3 b(1) k(3)
      by (intro exI [of _ h2] exI [of _ p]) auto
  qed
qed

theorem realloc_spec_witness:
  "\<exists>h p h' q. malloc 100 demo_heap = Some (Inr (p, h)) \<and> realloc p 200 h = Some (Inr (q, h'))"
proof -
  obtain h a bs where m: "malloc 100 demo_heap = Some (Inr (DESC_PTR (of_nat a), h))" "heap_inv h bs {(a, 112)}"
    using demo_malloc by blast
  have "unat (total_size 200) = 212" using total_size_unat [of 200] by simp
  then have "good_size 200" by (simp add: good_size_def rest_fits_def)
  then show ?thesis using realloc_spec [OF m(2), of a 112 200] m(1) by auto
qed

end
