(* ===== verification/Cstring.thy ===== *)
theory Cstring
  imports Ram
begin

text \<open>
  Characters and strings (\<open>src/libc/ctype.c\<close>, \<open>src/libc/string.c\<close>). A string is the list of
  its bytes in front of the terminating zero, so the byte behind the last one reads as
  zero; \<open>char\<close> is signed. A pointer into a string is an index. \<open>memmove\<close> and \<open>memcmp\<close> work
  on memory.
\<close>

type_synonym cstring = "u8 list"

section \<open>ctype.c\<close>

definition isupper :: "int \<Rightarrow> bool" where "isupper c \<longleftrightarrow> 65 \<le> c \<and> c \<le> 90"
definition islower :: "int \<Rightarrow> bool" where "islower c \<longleftrightarrow> 97 \<le> c \<and> c \<le> 122"
definition isalpha :: "int \<Rightarrow> bool" where "isalpha c \<longleftrightarrow> isupper c \<or> islower c"
definition isdigit :: "int \<Rightarrow> bool" where "isdigit c \<longleftrightarrow> 48 \<le> c \<and> c \<le> 57"
definition isalnum :: "int \<Rightarrow> bool" where "isalnum c \<longleftrightarrow> isalpha c \<or> isdigit c"
definition isblank :: "int \<Rightarrow> bool" where "isblank c \<longleftrightarrow> c = 32 \<or> c = 9"
definition isgraph :: "int \<Rightarrow> bool" where "isgraph c \<longleftrightarrow> 32 < c \<and> c \<le> 126"
definition isprint :: "int \<Rightarrow> bool" where "isprint c \<longleftrightarrow> isgraph c \<or> c = 32"

definition isspace :: "int \<Rightarrow> bool" where
  "isspace c \<longleftrightarrow> isblank c \<or> c = 12 \<or> c = 10 \<or> c = 13 \<or> c = 11"

definition toupper :: "int \<Rightarrow> int" where "toupper c = (if islower c then c + (65 - 97) else c)"
definition tolower :: "int \<Rightarrow> int" where "tolower c = (if isupper c then c - (65 - 97) else c)"

lemma tolower_toupper: "tolower (toupper c) = tolower c"
  by (simp add: tolower_def toupper_def isupper_def islower_def)

section \<open>string.c\<close>

text \<open>\<open>*s\<close> as an \<open>int\<close>.\<close>

definition ch :: "cstring \<Rightarrow> int" where
  "ch s = (case s of [] \<Rightarrow> 0 | c # _ \<Rightarrow> sint c)"

definition is_cstring :: "cstring \<Rightarrow> bool" where
  "is_cstring s \<longleftrightarrow> 0 \<notin> set s"

lemma ch_simps [simp]: "ch [] = 0" "ch (c # s) = sint c"
  by (simp_all add: ch_def)

lemma sint_u8_eq: "sint c = sint d \<longleftrightarrow> c = d" for c d :: u8
  by (auto intro: signed_word_eqI)

lemma ch_zero: "is_cstring s \<Longrightarrow> ch s = 0 \<longleftrightarrow> s = []"
proof (cases s)
  case (Cons c t)
  assume "is_cstring s"
  then have "c \<noteq> 0" using Cons by (auto simp: is_cstring_def)
  then have "sint c \<noteq> 0" using sint_u8_eq [of c 0] by simp
  then show ?thesis using Cons by simp
qed simp

lemma is_cstring_Cons [simp]: "is_cstring (c # s) \<longleftrightarrow> c \<noteq> 0 \<and> is_cstring s" "is_cstring []"
  by (auto simp: is_cstring_def)

fun strchr :: "cstring \<Rightarrow> int \<Rightarrow> nat option" where
  "strchr [] c = None"
| "strchr (x # s) c = (if sint x = c then Some 0 else map_option Suc (strchr s c))"

text \<open>The backward search of \<open>strrchr\<close> from the end, \<open>n\<close> characters to go.\<close>

fun strrchr_from :: "nat \<Rightarrow> cstring \<Rightarrow> int \<Rightarrow> nat option" where
  "strrchr_from 0 s c = None"
| "strrchr_from (Suc n) s c = (if sint (s ! n) = c then Some n else strrchr_from n s c)"

definition strrchr :: "cstring \<Rightarrow> int \<Rightarrow> nat option" where
  "strrchr s c = strrchr_from (length s) s c"

text \<open>The inner loop of the substring searches: what is left of both strings when it stops.\<close>

fun match_len :: "(int \<Rightarrow> int) \<Rightarrow> cstring \<Rightarrow> cstring \<Rightarrow> cstring" where
  "match_len f [] s2 = s2"
| "match_len f (x # s1) s2 =
     (if f (sint x) = f (ch s2) then match_len f s1 (tl s2) else s2)"

fun find_sub :: "(int \<Rightarrow> int) \<Rightarrow> cstring \<Rightarrow> cstring \<Rightarrow> nat option" where
  "find_sub f [] sub = None"
| "find_sub f (x # s) sub =
     (if match_len f (x # s) sub = [] then Some 0 else map_option Suc (find_sub f s sub))"

definition strstr :: "cstring \<Rightarrow> cstring \<Rightarrow> nat option" where "strstr = find_sub (\<lambda>c. c)"

definition strcasestr :: "cstring \<Rightarrow> cstring \<Rightarrow> nat option" where "strcasestr = find_sub tolower"

fun cmp_with :: "(int \<Rightarrow> int) \<Rightarrow> cstring \<Rightarrow> cstring \<Rightarrow> int" where
  "cmp_with f [] s2 = f 0 - f (ch s2)"
| "cmp_with f (x # s1) s2 =
     (if f (sint x) = f (ch s2) then cmp_with f s1 (tl s2) else f (sint x) - f (ch s2))"

definition strcmp :: "cstring \<Rightarrow> cstring \<Rightarrow> int" where "strcmp = cmp_with (\<lambda>c. c)"

definition strcasecmp :: "cstring \<Rightarrow> cstring \<Rightarrow> int" where "strcasecmp = cmp_with tolower"

text \<open>The loop of \<open>strncmp\<close> with the value \<open>n\<close> has when it is tested; it counts \<open>n\<close> down
  before it looks at the characters.\<close>

fun ncmp_loop :: "(int \<Rightarrow> int) \<Rightarrow> nat \<Rightarrow> cstring \<Rightarrow> cstring \<Rightarrow> int \<times> cstring \<times> cstring" where
  "ncmp_loop f 0 s1 s2 = (-1, s1, s2)"
| "ncmp_loop f (Suc n) s1 s2 =
     (if ch s1 \<noteq> 0 \<and> ch s2 \<noteq> 0 \<and> f (ch s1) = f (ch s2) then ncmp_loop f n (tl s1) (tl s2)
      else (int n, s1, s2))"

definition ncmp_with :: "(int \<Rightarrow> int) \<Rightarrow> cstring \<Rightarrow> cstring \<Rightarrow> int \<Rightarrow> int" where
  "ncmp_with f s1 s2 n =
     (if n \<le> 0 then 0
      else case ncmp_loop f (nat n) s1 s2 of
        (n', s1', s2') \<Rightarrow> if n' \<le> 0 then 0 else f (ch s1') - f (ch s2'))"

definition strncmp :: "cstring \<Rightarrow> cstring \<Rightarrow> int \<Rightarrow> int" where "strncmp = ncmp_with (\<lambda>c. c)"

definition strncasecmp :: "cstring \<Rightarrow> cstring \<Rightarrow> int \<Rightarrow> int" where "strncasecmp = ncmp_with tolower"

text \<open>\<open>strcpy\<close>, \<open>strcat\<close> and \<open>strncpy\<close> write to memory; \<open>old\<close> is the string that
  lies at the destination of \<open>strcat\<close>.\<close>

fun strcpy :: "ram \<Rightarrow> u32 \<Rightarrow> cstring \<Rightarrow> ram" where
  "strcpy m d [] = m(d := 0)"
| "strcpy m d (c # s) = strcpy (m(d := c)) (d + 1) s"

fun strncpy_n :: "ram \<Rightarrow> u32 \<Rightarrow> cstring \<Rightarrow> nat \<Rightarrow> ram" where
  "strncpy_n m d s 0 = m"
| "strncpy_n m d [] (Suc n) = m(d := 0)"
| "strncpy_n m d (c # s) (Suc n) = strncpy_n (m(d := c)) (d + 1) s n"

definition strncpy :: "ram \<Rightarrow> u32 \<Rightarrow> cstring \<Rightarrow> int \<Rightarrow> ram" where
  "strncpy m d s n = strncpy_n m d s (nat n)"

definition strcat :: "ram \<Rightarrow> u32 \<Rightarrow> cstring \<Rightarrow> cstring \<Rightarrow> ram" where
  "strcat m d old s = strcpy m (d + of_nat (length old)) s"

text \<open>The table of \<open>strerror\<close> has 15 messages, 112 null pointers and \<open>Bug\<close>; the test lets an
  index one behind the table through.\<close>

definition errstr :: "string option list" where
  "errstr = map Some [''Success'', ''Foo'', ''Interrupted'', ''Invalid'', ''Child'', ''Timeout'',
     ''Out of memory'', ''I/O error'', ''Not found'', ''Name too long'', ''No space left on device'',
     ''Permission denied'', ''Not a directory'', ''Is a directory'', ''Does not exist'']
   @ replicate 112 None @ [Some ''Bug'']"

definition strerror :: "int \<Rightarrow> string option" where
  "strerror err =
     (if err < 0 \<or> int (length errstr) < err then Some ''Unknown''
      else if err = int (length errstr) then None
      else case errstr ! nat err of None \<Rightarrow> Some ''Unknown'' | Some m \<Rightarrow> Some m)"

text \<open>\<open>memmove\<close> copies upwards or downwards, whichever is safe.\<close>

fun copy_up :: "nat \<Rightarrow> ram \<Rightarrow> u32 \<Rightarrow> u32 \<Rightarrow> ram" where
  "copy_up 0 m d s = m"
| "copy_up (Suc n) m d s = copy_up n (m(d := m s)) (d + 1) (s + 1)"

fun copy_down :: "nat \<Rightarrow> ram \<Rightarrow> u32 \<Rightarrow> u32 \<Rightarrow> ram" where
  "copy_down 0 m d s = m"
| "copy_down (Suc n) m d s = copy_down n (m(d := m s)) (d - 1) (s - 1)"

definition memmove :: "ram \<Rightarrow> u32 \<Rightarrow> u32 \<Rightarrow> u32 \<Rightarrow> ram" where
  "memmove m dest src n =
     (if dest \<le> src then copy_up (unat n) m dest src
      else copy_down (unat n) m (dest + n - 1) (src + n - 1))"

text \<open>\<open>memcmp\<close>: the catch-up to alignment, the double words, and the tail. A \<open>Some\<close> from the
  catch-up is a return.\<close>

fun cmp_head :: "nat \<Rightarrow> ram \<Rightarrow> u32 \<Rightarrow> u32 \<Rightarrow> u32 \<Rightarrow> int option \<times> u32" where
  "cmp_head 0 m a b n = (None, n)"
| "cmp_head (Suc k) m a b n =
     (let diff = uint (m a) - uint (m b)
      in if diff \<noteq> 0 then (Some diff, n)
         else if n - 1 = 0 then (Some diff, n - 1)
         else cmp_head k m (a + 1) (b + 1) (n - 1))"

fun cmp_words :: "nat \<Rightarrow> ram \<Rightarrow> u32 \<Rightarrow> u32 \<Rightarrow> u32 \<Rightarrow> u32 \<times> u32 \<times> u32" where
  "cmp_words 0 m a b n = (a, b, n)"
| "cmp_words (Suc k) m a b n =
     (if 4 \<le> n then
        if load32 m a \<noteq> load32 m b then (a, b, n) else cmp_words k m (a + 4) (b + 4) (n - 4)
      else (a, b, n))"

fun cmp_tail :: "nat \<Rightarrow> ram \<Rightarrow> u32 \<Rightarrow> u32 \<Rightarrow> int" where
  "cmp_tail 0 m a b = 0"
| "cmp_tail (Suc n) m a b =
     (let diff = uint (m a) - uint (m b) in if diff \<noteq> 0 then diff else cmp_tail n m (a + 1) (b + 1))"

definition memcmp :: "ram \<Rightarrow> u32 \<Rightarrow> u32 \<Rightarrow> u32 \<Rightarrow> int" where
  "memcmp m a b n = (
     let a32 = (a + 3) AND 0xfffffffc;
         b32 = (b + 3) AND 0xfffffffc;
         startoffs = a32 - a
     in if startoffs = b32 - b then
          (case cmp_head (unat startoffs) m a b n of
             (Some r, _) \<Rightarrow> r
           | (None, n) \<Rightarrow>
               (case cmp_words (unat n div 4) m a32 b32 n of (a, b, n) \<Rightarrow> cmp_tail (unat n) m a b))
        else cmp_tail (unat n) m a b)"

section \<open>Comparing strings\<close>

lemma cmp_with_zero:
  assumes "is_cstring s1" "is_cstring s2" "\<And>c. f c = 0 \<longleftrightarrow> c = 0"
  shows "cmp_with f s1 s2 = 0 \<longleftrightarrow> map (\<lambda>c. f (sint c)) s1 = map (\<lambda>c. f (sint c)) s2"
  using assms(1,2)
proof (induction s1 arbitrary: s2)
  case Nil
  have "f 0 = 0" using assms(3) by simp
  then show ?case using assms(3) [of "ch s2"] ch_zero [OF Nil(2)] by auto
next
  case (Cons x s1)
  have z: "sint x \<noteq> 0" using sint_u8_eq [of x 0] Cons.prems(1) by simp
  show ?case
  proof (cases s2)
    case Nil
    have "f (sint x) \<noteq> 0" "f 0 = 0" using assms(3) z by blast+
    then show ?thesis using Nil by simp
  next
    case (Cons y t)
    then show ?thesis using Cons.IH [of t] Cons.prems by auto
  qed
qed

lemma tolower_zero: "tolower c = 0 \<longleftrightarrow> c = 0"
  by (auto simp: tolower_def isupper_def)

lemma strcmp_zero:
  assumes "is_cstring s1" "is_cstring s2"
  shows "strcmp s1 s2 = 0 \<longleftrightarrow> s1 = s2"
proof -
  have "map sint s1 = map sint s2 \<longleftrightarrow> s1 = s2"
    by (rule inj_map_eq_map) (auto simp: inj_def sint_u8_eq)
  then show ?thesis using cmp_with_zero [OF assms, of "\<lambda>c. c"] by (simp add: strcmp_def)
qed

lemma strcasecmp_zero:
  "is_cstring s1 \<Longrightarrow> is_cstring s2 \<Longrightarrow> strcasecmp s1 s2 = 0 \<longleftrightarrow>
     map (\<lambda>c. tolower (sint c)) s1 = map (\<lambda>c. tolower (sint c)) s2"
  using cmp_with_zero [of s1 s2 tolower] tolower_zero by (simp add: strcasecmp_def)

section \<open>Searching\<close>

lemma strchr_first:
  "strchr s c = Some i \<Longrightarrow> i < length s \<and> sint (s ! i) = c \<and> (\<forall>j < i. sint (s ! j) \<noteq> c)"
proof (induction s arbitrary: i)
  case (Cons x s)
  show ?case
  proof (cases "sint x = c")
    case False
    then obtain k where k: "i = Suc k" "strchr s c = Some k" using Cons.prems by auto
    then show ?thesis using Cons.IH [OF k(2)] False by (auto simp: less_Suc_eq_0_disj)
  qed (use Cons.prems in simp)
qed simp

lemma match_len_prefix:
  assumes "is_cstring s" "is_cstring sub"
  shows "match_len (\<lambda>c. c) s sub = [] \<longleftrightarrow> (\<exists>t. s = sub @ t)"
  using assms
proof (induction s arbitrary: sub)
  case (Cons x s)
  show ?case
  proof (cases sub)
    case Nil
    then have "match_len (\<lambda>c. c) (x # s) sub = []"
      using Cons.prems sint_u8_eq [of x 0] by simp
    then show ?thesis using Nil by simp
  next
    case (Cons y t)
    then show ?thesis using Cons.IH [of t] Cons.prems sint_u8_eq [of x y] by auto
  qed
qed auto


lemma find_sub_first:
  assumes "is_cstring s" "is_cstring sub"
  shows "case find_sub (\<lambda>c. c) s sub of
      None \<Rightarrow> \<forall>i < length s. \<not> (\<exists>t. drop i s = sub @ t)
    | Some i \<Rightarrow> i < length s \<and> (\<exists>t. drop i s = sub @ t) \<and> (\<forall>j < i. \<not> (\<exists>t. drop j s = sub @ t))"
  using assms
proof (induction s)
  case (Cons x s)
  have m: "match_len (\<lambda>c. c) (x # s) sub = [] \<longleftrightarrow> (\<exists>t. x # s = sub @ t)"
    by (rule match_len_prefix [OF Cons.prems])
  show ?case
  proof (cases "\<exists>t. x # s = sub @ t")
    case True
    then show ?thesis using m by simp
  next
    case False
    then have "find_sub (\<lambda>c. c) (x # s) sub = map_option Suc (find_sub (\<lambda>c. c) s sub)" using m by simp
    then show ?thesis using Cons False
      by (cases "find_sub (\<lambda>c. c) s sub") (auto simp: less_Suc_eq_0_disj)
  qed
qed simp

section \<open>memmove\<close>

lemma copy_up_apply:
  assumes "n \<le> 2 ^ 32" "\<And>i j. i < j \<Longrightarrow> j < n \<Longrightarrow> d + of_nat i \<noteq> s + of_nat j"
  shows "copy_up n m d s x = (if unat (x - d) < n then m (s + (x - d)) else m x)"
  using assms
proof (induction n arbitrary: m d s)
  case (Suc n)
  let ?m = "m(d := m s)"
  have "d + 1 + of_nat i \<noteq> s + 1 + of_nat j" if "i < j" "j < n" for i j
    using Suc.prems(2) [of "i" "j"] that by simp
  then have IH: "copy_up n ?m (d + 1) (s + 1) x =
      (if unat (x - (d + 1)) < n then ?m (s + 1 + (x - (d + 1))) else ?m x)"
    using Suc.prems(1) by (intro Suc.IH) simp_all
  show ?case
  proof (cases "x = d")
    case True
    have "unat (d - (d + 1)) = 2 ^ 32 - 1" by (simp add: unsigned_minus_1_eq_mask mask_eq_exp_minus_1)
    then show ?thesis using IH True Suc.prems(1) by simp
  next
    case False
    then have "x - d \<noteq> 0" by simp
    then have pos: "0 < unat (x - d)" by (simp add: unat_gt_0)
    then have "unat (x - d - 1) = unat (x - d) - 1" by (simp add: unat_sub_no_wrap)
    moreover have "x - (d + 1) = x - d - 1" by simp
    ultimately have e: "unat (x - (d + 1)) = unat (x - d) - 1" by (simp only:)
    have lt: "unat (x - (d + 1)) < n \<longleftrightarrow> unat (x - d) < Suc n" unfolding e using pos by linarith
    have "s + (x - d) \<noteq> d" if "unat (x - d) < Suc n"
      using Suc.prems(2) [of 0 "unat (x - d)"] pos that by auto
    then show ?thesis using IH lt False by (auto simp: algebra_simps)
  qed
qed simp

lemma copy_down_apply:
  assumes "n \<le> 2 ^ 32" "\<And>i j. i < j \<Longrightarrow> j < n \<Longrightarrow> d - of_nat i \<noteq> s - of_nat j"
  shows "copy_down n m d s x = (if unat (d - x) < n then m (s - (d - x)) else m x)"
  using assms
proof (induction n arbitrary: m d s)
  case (Suc n)
  let ?m = "m(d := m s)"
  have "d - 1 - of_nat i \<noteq> s - 1 - of_nat j" if "i < j" "j < n" for i j
    using Suc.prems(2) [of "i" "j"] that by simp
  then have IH: "copy_down n ?m (d - 1) (s - 1) x =
      (if unat (d - 1 - x) < n then ?m (s - 1 - (d - 1 - x)) else ?m x)"
    using Suc.prems(1) by (intro Suc.IH) simp_all
  show ?case
  proof (cases "x = d")
    case True
    have "unat (d - 1 - d) = 2 ^ 32 - 1" by (simp add: unsigned_minus_1_eq_mask mask_eq_exp_minus_1)
    then show ?thesis using IH True Suc.prems(1) by simp
  next
    case False
    then have "d - x \<noteq> 0" by simp
    then have pos: "0 < unat (d - x)" by (simp add: unat_gt_0)
    then have "unat (d - x - 1) = unat (d - x) - 1" by (simp add: unat_sub_no_wrap)
    moreover have "d - 1 - x = d - x - 1" by simp
    ultimately have e: "unat (d - 1 - x) = unat (d - x) - 1" by (simp only:)
    have lt: "unat (d - 1 - x) < n \<longleftrightarrow> unat (d - x) < Suc n" unfolding e using pos by linarith
    have "s - (d - x) \<noteq> d" if "unat (d - x) < Suc n"
      using Suc.prems(2) [of 0 "unat (d - x)"] pos that by auto
    then show ?thesis using IH lt False by (auto simp: algebra_simps)
  qed
qed simp

lemma sub_flip:
  fixes n y :: u32
  assumes "1 \<le> unat n"
  shows "unat (n - 1 - y) < unat n \<longleftrightarrow> unat y < unat n"
proof -
  have n1: "unat (n - 1) = unat n - 1" using assms by (simp add: unat_sub_no_wrap)
  show ?thesis
  proof (cases "unat y < unat n")
    case True
    then have "unat (n - 1 - y) = unat n - 1 - unat y" using n1 by (simp add: unat_sub_no_wrap)
    then show ?thesis using True by simp
  next
    case False
    then have "unat (n - 1 - y) = 2 ^ 32 + (unat n - 1) - unat y" using n1 assms by (simp add: unat_sub_if')
    then show ?thesis using False unat_u32_less [of y] by simp
  qed
qed

text \<open>\<open>memmove\<close> moves the bytes of the source as they were before the call, however the
  two buffers overlap, and changes nothing else, for buffers that do not wrap around.\<close>

theorem memmove_apply:
  assumes "unat src + unat n \<le> 2 ^ 32" "unat dest + unat n \<le> 2 ^ 32" "0 < n"
  shows "memmove m dest src n x = (if unat (x - dest) < unat n then m (src + (x - dest)) else m x)"
proof (cases "dest \<le> src")
  case True
  have "dest + of_nat i \<noteq> src + of_nat j" if "i < j" "j < unat n" for i j
  proof -
    have "unat (of_nat i :: u32) = i" "unat (of_nat j :: u32) = j"
      using that unat_u32_less [of n] by (simp_all add: unat_of_nat)
    then have "unat (dest + of_nat i) = unat dest + i" "unat (src + of_nat j) = unat src + j"
      using that assms by (simp_all add: unat_add_no_wrap)
    then show ?thesis using True that by (auto simp: word_le_nat_alt)
  qed
  moreover have "unat n \<le> 2 ^ 32" using unat_u32_less [of n] by simp
  ultimately show ?thesis using True copy_up_apply [of "unat n" dest src m x] by (simp add: memmove_def)
next
  case False
  have n: "1 \<le> unat n" using assms(3) by (simp add: word_less_nat_alt)
  have dl: "unat (dest + n - 1) = unat dest + unat n - 1" and sl: "unat (src + n - 1) = unat src + unat n - 1"
  proof -
    have e: "unat (a + n - 1) = unat a + unat n - 1" if "unat a + unat n \<le> 2 ^ 32" for a
    proof -
      have "unat (n - 1) = unat n - 1" using n by (simp add: unat_sub_no_wrap)
      moreover have "a + n - 1 = a + (n - 1)" by simp
      ultimately show ?thesis using that n by (simp only: unat_add_no_wrap) (simp add: unat_add_no_wrap)
    qed
    show "unat (dest + n - 1) = unat dest + unat n - 1" "unat (src + n - 1) = unat src + unat n - 1"
      using e assms(1,2) by blast+
  qed
  have "dest + n - 1 - of_nat i \<noteq> src + n - 1 - of_nat j" if "i < j" "j < unat n" for i j
  proof -
    have "unat (of_nat i :: u32) = i" "unat (of_nat j :: u32) = j"
      using that unat_u32_less [of n] by (simp_all add: unat_of_nat)
    then have "unat (dest + n - 1 - of_nat i) = unat dest + unat n - 1 - i"
      "unat (src + n - 1 - of_nat j) = unat src + unat n - 1 - j"
      using that dl sl by (simp_all add: unat_sub_no_wrap)
    moreover have "unat src < unat dest" using False by (simp add: word_le_nat_alt)
    ultimately have "unat (dest + n - 1 - of_nat i) \<noteq> unat (src + n - 1 - of_nat j)" using that by linarith
    then show ?thesis by (rule contrapos_nn) (simp only:)
  qed
  then have c: "memmove m dest src n x =
      (if unat (dest + n - 1 - x) < unat n then m (src + n - 1 - (dest + n - 1 - x)) else m x)"
    using False copy_down_apply [of "unat n" "dest + n - 1" "src + n - 1" m x] unat_u32_less [of n]
    by (simp add: memmove_def)
  have "dest + n - 1 - x = n - 1 - (x - dest)" by simp
  then have "unat (dest + n - 1 - x) < unat n \<longleftrightarrow> unat (x - dest) < unat n"
    using sub_flip [OF n, of "x - dest"] by (simp only:)
  moreover have "src + n - 1 - (dest + n - 1 - x) = src + (x - dest)" by simp
  ultimately show ?thesis using c by simp
qed

theorem memmove_apply_witness:
  "memmove (\<lambda>a. ucast a) 102 100 5 104 = (102 :: u8)"
  using memmove_apply [of 100 5 102 "\<lambda>a. ucast a" 104] by simp

section \<open>strncmp\<close>

lemma ncmp_loop_equal:
  "take n s1 = take n s2 \<Longrightarrow> (case ncmp_loop f (Suc n) s1 s2 of (n', a, b) \<Rightarrow> n' \<le> 0 \<or> ch a = ch b)"
proof (induction n arbitrary: s1 s2)
  case (Suc n)
  show ?case
  proof (cases "ch s1 \<noteq> 0 \<and> ch s2 \<noteq> 0 \<and> f (ch s1) = f (ch s2)")
    case True
    have "take n (tl s1) = take n (tl s2)" using Suc.prems by (cases s1; cases s2) simp_all
    then have "case ncmp_loop f (Suc n) (tl s1) (tl s2) of (n', a, b) \<Rightarrow> n' \<le> 0 \<or> ch a = ch b"
      by (rule Suc.IH)
    then show ?thesis using True by (simp only: ncmp_loop.simps(2) [of f "Suc n"] if_True simp_thms)
  next
    case False
    have "ch s1 = ch s2" using Suc.prems by (cases s1; cases s2) simp_all
    then show ?thesis using False by (simp only: ncmp_loop.simps(2) [of f "Suc n"] if_False) simp
  qed
qed (simp add: ch_def)

text \<open>\<open>strncmp\<close> never looks at the last of its \<open>n\<close> characters: strings that agree in the
  first \<open>n - 1\<close> compare as equal.\<close>

theorem strncmp_ignores_last:
  assumes "1 \<le> n" "take (nat n - 1) s1 = take (nat n - 1) s2"
  shows "strncmp s1 s2 n = 0"
proof -
  obtain k where k: "nat n = Suc k" using assms(1) by (cases "nat n") auto
  then have "case ncmp_loop (\<lambda>c. c) (nat n) s1 s2 of (n', a, b) \<Rightarrow> n' \<le> 0 \<or> ch a = ch b"
    using ncmp_loop_equal [of k s1 s2 "\<lambda>c. c"] assms(2) by simp
  then show ?thesis using assms(1) by (auto simp: strncmp_def ncmp_with_def split: prod.splits)
qed

theorem strncmp_ignores_last_witness: "strncmp [97, 98, 99] [97, 98, 100] 3 = 0 \<and> [97, 98, 99 :: u8] \<noteq> [97, 98, 100]"
  using strncmp_ignores_last [of 3 "[97, 98, 99]" "[97, 98, 100]"] by simp

text \<open>\<open>strstr\<close> on a nonempty string finds the first place where the substring occurs, and
  a null pointer means that it does not occur.\<close>

theorem strstr_first:
  assumes "is_cstring s" "is_cstring sub"
  shows "case strstr s sub of
      None \<Rightarrow> \<forall>i < length s. \<not> (\<exists>t. drop i s = sub @ t)
    | Some i \<Rightarrow> i < length s \<and> (\<exists>t. drop i s = sub @ t) \<and> (\<forall>j < i. \<not> (\<exists>t. drop j s = sub @ t))"
  unfolding strstr_def by (rule find_sub_first [OF assms])

theorem strstr_first_witness: "strstr [97, 98, 97, 99] [97, 99] = Some 2"
proof -
  have c: "is_cstring [97, 98, 97, 99]" "is_cstring [97, 99]" by (simp_all add: is_cstring_def)
  have "\<exists>t. drop 2 [97, 98, 97, 99] = [97, 99] @ (t :: cstring)" by simp
  then show ?thesis using strstr_first [OF c] by (cases "strstr [97, 98, 97, 99] [97, 99]") (auto simp: strstr_def)
qed

end
