(* ===== verification/Stdlib.thy ===== *)
theory Stdlib
  imports Cstring "HOL-Library.Multiset"
begin

text \<open>
  The conversions and the sorting of \<open>src/libc/stdlib.c\<close>. A \<open>long\<close> has 32 bits; its signed
  overflow in \<open>strtol\<close> is taken to wrap. The conversions to text fill a static buffer of 16
  bytes backwards; a byte behind its end is the value \<open>None\<close>, as is a loop that never ends.
  \<open>strtod\<close> and \<open>atof\<close> compute with floating point numbers and are not modelled.
\<close>

section \<open>From text to numbers\<close>

definition strtol_base :: "cstring \<Rightarrow> int \<Rightarrow> int" where
  "strtol_base s base =
     (if base = 0 then
        if ch s = 48 then (if ch (tl s) = 120 \<or> ch (tl s) = 88 then 16 else 8) else 10
      else base)"

text \<open>The value of a digit of any base, none for the other characters.\<close>

definition digit_val :: "u8 \<Rightarrow> int option" where
  "digit_val x = (let c = tolower (sint x)
     in if isdigit c then Some (sint x - 48) else if 97 \<le> c \<and> c \<le> 102 then Some (10 + c - 97) else None)"

fun strtol_loop :: "cstring \<Rightarrow> int \<Rightarrow> u32 \<Rightarrow> bool \<Rightarrow> u32 \<times> cstring \<times> bool" where
  "strtol_loop [] base acc valid = (acc, [], valid)"
| "strtol_loop (x # s) base acc valid =
     (case digit_val x of
        None \<Rightarrow> (acc, x # s, valid)
      | Some val \<Rightarrow> if base \<le> val then (acc, x # s, valid)
          else strtol_loop s base (acc * word_of_int base + word_of_int val) True)"

text \<open>The value and how far \<open>*endp\<close> is behind the start of the string.\<close>

definition strtol :: "cstring \<Rightarrow> int \<Rightarrow> int \<times> nat" where
  "strtol start base = (
     let str = dropWhile (\<lambda>x. isspace (sint x)) start;
         base = strtol_base str base;
         neg = (ch str = 45);
         str = (if ch str = 43 \<or> ch str = 45 then tl str else str);
         (acc, rest, valid) = strtol_loop str base 0 False
     in (sint (if neg then - acc else acc), if valid then length start - length rest else 0))"

definition atoi :: "cstring \<Rightarrow> int" where "atoi s = fst (strtol s 10)"

section \<open>From numbers to text\<close>

definition digit_char :: "int \<Rightarrow> u8" where
  "digit_char digit = word_of_int (if digit < 10 then digit + 48 else digit - 10 + 97)"

text \<open>The digits of \<open>val\<close>, the last one first, behind what \<open>rbuf\<close> holds.\<close>

partial_function (option) rev_digits :: "int \<Rightarrow> int \<Rightarrow> cstring \<Rightarrow> cstring option" where
  "rev_digits val base rbuf =
     (if val = 0 then Some rbuf
      else if base = 0 \<or> 16 \<le> length rbuf then None
      else rev_digits (c_div val base) base (rbuf @ [digit_char (c_mod val base)]))"

declare rev_digits.simps [code]

definition itoa :: "int \<Rightarrow> int \<Rightarrow> cstring option" where
  "itoa val base = (
     let neg = (val < 0);
         val = (if neg then sint (word_of_int (- val) :: u32) else val)
     in case rev_digits val base (if val = 0 then [48] else []) of
          None \<Rightarrow> None
        | Some rbuf \<Rightarrow>
            if neg then (if length rbuf < 16 then Some (rev (rbuf @ [45])) else None) else Some (rev rbuf))"

definition utoa :: "u32 \<Rightarrow> int \<Rightarrow> cstring option" where
  "utoa val base = map_option rev
     (rev_digits (uint val) (uint (word_of_int base :: u32)) (if val = 0 then [48] else []))"

section \<open>Sorting\<close>

text \<open>An array of items and a comparison. Indices are counted from the start of the part that
  is sorted; a comparison with an item in front of it or behind it is \<open>None\<close>.\<close>

definition swap :: "'a list \<Rightarrow> nat \<Rightarrow> nat \<Rightarrow> 'a list" where
  "swap arr p q = arr[p := arr ! q, q := arr ! p]"

text \<open>The inner loop of \<open>ins_sort\<close> moves the item at \<open>a\<close> down.\<close>

fun ins_down :: "('a \<Rightarrow> 'a \<Rightarrow> int) \<Rightarrow> 'a list \<Rightarrow> nat \<Rightarrow> 'a list" where
  "ins_down cmp arr 0 = arr"
| "ins_down cmp arr (Suc b) =
     (if cmp (arr ! Suc b) (arr ! b) < 0 then ins_down cmp (swap arr (Suc b) b) b else arr)"

definition ins_sort :: "('a \<Rightarrow> 'a \<Rightarrow> int) \<Rightarrow> 'a list \<Rightarrow> 'a list" where
  "ins_sort cmp arr = foldl (ins_down cmp) arr [1..<length arr]"

text \<open>The two scans of the partition.\<close>

function scan_left :: "('a \<Rightarrow> 'a \<Rightarrow> int) \<Rightarrow> 'a list \<Rightarrow> nat \<Rightarrow> nat option" where
  "scan_left cmp arr left =
     (if length arr \<le> left then None
      else if cmp (arr ! left) (arr ! 0) < 0 then scan_left cmp arr (left + 1) else Some left)"
  by auto
termination by (relation "measure (\<lambda>(cmp, arr, left). length arr - left)") auto

fun scan_right :: "('a \<Rightarrow> 'a \<Rightarrow> int) \<Rightarrow> 'a list \<Rightarrow> nat \<Rightarrow> nat option" where
  "scan_right cmp arr 0 = (if cmp (arr ! 0) (arr ! 0) < 0 then None else Some 0)"
| "scan_right cmp arr (Suc right) =
     (if cmp (arr ! 0) (arr ! Suc right) < 0 then scan_right cmp arr right else Some (Suc right))"

declare scan_left.simps [simp del]

partial_function (option) partition_loop ::
    "('a \<Rightarrow> 'a \<Rightarrow> int) \<Rightarrow> 'a list \<Rightarrow> nat \<Rightarrow> nat \<Rightarrow> ('a list \<times> nat) option" where
  "partition_loop cmp arr left right =
     (case scan_left cmp arr left of
        None \<Rightarrow> None
      | Some left \<Rightarrow>
          (case scan_right cmp arr right of
             None \<Rightarrow> None
           | Some right \<Rightarrow>
               if right \<le> left then Some (arr, right)
               else partition_loop cmp (swap arr left right) left right))"

declare partition_loop.simps [code]

definition pivot :: "('a \<Rightarrow> 'a \<Rightarrow> int) \<Rightarrow> 'a list \<Rightarrow> 'a list" where
  "pivot cmp arr = (
     let mb = length arr div 2; mc = length arr - 1;
         arr = (if cmp (arr ! 0) (arr ! mb) < 0 then swap arr 0 mb else arr)
     in if cmp (arr ! mc) (arr ! 0) < 0 then swap arr mc 0 else arr)"

partial_function (option) qsort :: "('a \<Rightarrow> 'a \<Rightarrow> int) \<Rightarrow> 'a list \<Rightarrow> 'a list option" where
  "qsort cmp arr =
     (if length arr \<le> 1 then Some arr
      else if length arr < 4 then Some (ins_sort cmp arr)
      else case partition_loop cmp (pivot cmp arr) 1 (length arr - 2) of
          None \<Rightarrow> None
        | Some (arr, right) \<Rightarrow>
            let arr = swap arr 0 right
            in Option.bind (qsort cmp (take right arr)) (\<lambda>lower.
                 Option.bind (qsort cmp (drop (right + 1) arr)) (\<lambda>upper.
                   Some (lower @ arr ! right # upper))))"

declare qsort.simps [code]

section \<open>Numbers and their text\<close>

fun digits :: "nat \<Rightarrow> nat \<Rightarrow> nat list" where
  "digits b v = (if v = 0 \<or> b < 2 then [] else v mod b # digits b (v div b))"

declare digits.simps [simp del]

lemma rev_digits_eq:
  assumes "2 \<le> b" "v < b ^ m" "m + length r \<le> 16"
  shows "rev_digits (int v) (int b) r = Some (r @ map (\<lambda>d. digit_char (int d)) (digits b v))"
  using assms(2,3)
proof (induction m arbitrary: v r)
  case 0
  then show ?case by (subst rev_digits.simps) (simp add: digits.simps)
next
  case (Suc m)
  show ?case
  proof (cases "v = 0")
    case False
    have "v div b < b ^ m" using Suc.prems(1) assms(1) by (simp add: less_mult_imp_div_less mult.commute)
    then have ih: "rev_digits (int (v div b)) (int b) (r @ [digit_char (int (v mod b))])
      = Some ((r @ [digit_char (int (v mod b))]) @ map (\<lambda>d. digit_char (int d)) (digits b (v div b)))"
      using Suc.prems(2) by (intro Suc.IH) simp_all
    have "rev_digits (int v) (int b) r = rev_digits (int (v div b)) (int b) (r @ [digit_char (int (v mod b))])"
      using False Suc.prems(2) assms(1) by (subst rev_digits.simps) (simp add: zdiv_int zmod_int)
    then show ?thesis using ih False assms(1) by (simp add: digits.simps [of b v])
  qed (subst rev_digits.simps, simp add: digits.simps)
qed

lemma digit_val_char:
  assumes "d < 16"
  shows "digit_val (digit_char (int d)) = Some (int d)"
proof -
  have "d \<in> {0, 1, 2, 3, 4, 5, 6, 7, 8, 9, 10, 11, 12, 13, 14, 15}" using assms by simp presburger
  then show ?thesis
    by (elim insertE) (simp_all add: digit_val_def digit_char_def Let_def isdigit_def tolower_def isupper_def)
qed

lemma strtol_loop_digits:
  assumes "2 \<le> b" "b \<le> 16" "0 < v"
  shows "strtol_loop (rev (map (\<lambda>d. digit_char (int d)) (digits b v)) @ t) (int b) 0 valid
    = strtol_loop t (int b) (of_nat v) True"
  using assms(3)
proof (induction v arbitrary: t valid rule: less_induct)
  case (less v)
  let ?s = "rev (map (\<lambda>d. digit_char (int d)) (digits b (v div b)))"
  have "v mod b < b" using assms(1) by simp
  then have d: "digit_val (digit_char (int (v mod b))) = Some (int (v mod b))" "\<not> int b \<le> int (v mod b)"
    using assms(2) digit_val_char by simp_all
  have e: "digits b v = v mod b # digits b (v div b)" using less.prems assms(1) by (simp add: digits.simps [of b v])
  have step: "strtol_loop (digit_char (int (v mod b)) # t) (int b) (of_nat (v div b)) w = strtol_loop t (int b) (of_nat v) True" for w
  proof -
    have "(of_nat (v div b) * word_of_int (int b) + word_of_int (int (v mod b)) :: u32) = of_nat (v div b * b + v mod b)"
      by (simp only: of_nat_add of_nat_mult of_int_of_nat_eq)
    then show ?thesis using d by (simp del: of_nat_add of_nat_mult add: div_mult_mod_eq)
  qed
  show ?case
  proof (cases "v div b = 0")
    case True
    then show ?thesis using e step [of valid] by (simp add: digits.simps [of b 0])
  next
    case False
    have "v div b < v" using less.prems assms(1) by simp
    then have "strtol_loop (?s @ digit_char (int (v mod b)) # t) (int b) 0 valid
      = strtol_loop (digit_char (int (v mod b)) # t) (int b) (of_nat (v div b)) True"
      using False by (intro less.IH) simp_all
    then show ?thesis using e step by simp
  qed
qed

lemma length_digits: "2 \<le> b \<Longrightarrow> v < b ^ m \<Longrightarrow> length (digits b v) \<le> m"
proof (induction m arbitrary: v)
  case (Suc m)
  then have "v div b < b ^ m" by (simp add: less_mult_imp_div_less mult.commute)
  then show ?case using Suc.IH [of "v div b"] Suc.prems(1) by (subst digits.simps) simp
qed (simp add: digits.simps)

lemma pow14: "5 \<le> b \<Longrightarrow> v < 2 ^ 32 \<Longrightarrow> v < b ^ 14" for b v :: nat
proof -
  assume "5 \<le> b" "v < 2 ^ 32"
  then have "(5 :: nat) ^ 14 \<le> b ^ 14" by (intro power_mono) simp_all
  then show ?thesis using \<open>v < 2 ^ 32\<close> by simp
qed

text \<open>The digits of a number as they end up in the buffer; zero has one.\<close>

definition numeral_text :: "nat \<Rightarrow> nat \<Rightarrow> cstring" where
  "numeral_text b v = (if v = 0 then [48] else rev (map (\<lambda>d. digit_char (int d)) (digits b v)))"

lemma rev_digits_text:
  assumes "5 \<le> b" "v < 2 ^ 32"
  shows "rev_digits (int v) (int b) (if v = 0 then [48] else []) = Some (rev (numeral_text b v))"
  using rev_digits_eq [of b v 14 "if v = 0 then [48] else []"] pow14 [OF assms] assms(1)
  by (simp add: numeral_text_def digits.simps)

lemma numeral_text_short:
  assumes "5 \<le> b" "v < 2 ^ 32"
  shows "length (numeral_text b v) \<le> 14"
  using length_digits [of b v 14] pow14 [OF assms] assms(1) by (simp add: numeral_text_def)

lemma utoa_text:
  assumes "5 \<le> b" "b < 2 ^ 31"
  shows "utoa val (int b) = Some (numeral_text b (unat val))"
proof -
  have "unat val < 2 ^ 32" by (rule order.strict_trans2 [OF unsigned_less]) simp
  moreover have "uint (word_of_int (int b) :: u32) = int b" using assms(2)
    by (simp only: uint_word_of_int) (intro mod_pos_pos_trivial, simp_all)
  moreover have "val = 0 \<longleftrightarrow> unat val = 0" by (simp add: unat_eq_0)
  ultimately show ?thesis using rev_digits_text [OF assms(1), of "unat val"] by (simp add: utoa_def)
qed

lemma itoa_text:
  assumes "5 \<le> b" "- (2 ^ 31) < val" "val < 2 ^ 31"
  shows "itoa val (int b) = Some (if val < 0 then 45 # numeral_text b (nat (- val)) else numeral_text b (nat val))"
proof (cases "val < 0")
  case True
  have s: "sint (word_of_int (- val) :: u32) = int (nat (- val))" using True assms(2)
    by (subst sint_u32_small) simp_all
  have l: "nat (- val) < 2 ^ 32" "nat (- val) \<noteq> 0" using True assms(2) by simp_all
  show ?thesis
    using True rev_digits_text [OF assms(1) l(1)] numeral_text_short [OF assms(1) l(1)] l(2)
    unfolding itoa_def Let_def s by simp
next
  case False
  have l: "nat val < 2 ^ 32" using assms(3) by simp
  have z: "(val = 0) = (nat val = 0)" "int (nat val) = val" using False by auto
  show ?thesis using False rev_digits_text [OF assms(1) l] unfolding itoa_def Let_def z by simp
qed

section \<open>Back to numbers\<close>

definition stops :: "cstring \<Rightarrow> int \<Rightarrow> bool" where
  "stops t base \<longleftrightarrow> (case t of [] \<Rightarrow> True
     | x # _ \<Rightarrow> (case digit_val x of None \<Rightarrow> True | Some d \<Rightarrow> base \<le> d))"

lemma strtol_loop_text:
  assumes "2 \<le> b" "b \<le> 16" "stops t (int b)"
  shows "strtol_loop (numeral_text b v @ t) (int b) 0 valid = (of_nat v, t, True)"
proof -
  have st: "strtol_loop t (int b) acc True = (acc, t, True)" for acc
    using assms(3) by (cases t) (auto simp: stops_def split: option.splits)
  have "digit_val 48 = Some 0" using digit_val_char [of 0] by (simp add: digit_char_def)
  then show ?thesis using strtol_loop_digits [OF assms(1,2), of v t valid] assms(1)
    by (simp add: numeral_text_def st)
qed

lemma digit_char_head:
  assumes "d < 16"
  shows "\<not> isspace (sint (digit_char (int d)))" "sint (digit_char (int d)) \<noteq> 43"
    "sint (digit_char (int d)) \<noteq> 45"
proof -
  have "d \<in> {0, 1, 2, 3, 4, 5, 6, 7, 8, 9, 10, 11, 12, 13, 14, 15}" using assms by simp presburger
  then show "\<not> isspace (sint (digit_char (int d)))" "sint (digit_char (int d)) \<noteq> 43"
    "sint (digit_char (int d)) \<noteq> 45"
    by (elim insertE; simp add: digit_char_def isspace_def isblank_def)+
qed

lemma digits_less: "0 < b \<Longrightarrow> d \<in> set (digits b v) \<Longrightarrow> d < b"
proof (induction v rule: less_induct)
  case (less v)
  then have "0 < v" "2 \<le> b" "d = v mod b \<or> d \<in> set (digits b (v div b))"
    by (auto simp: digits.simps [of b v] split: if_splits)
  then show ?case using less.IH [of "v div b"] less.prems(1) by auto
qed

lemma numeral_text_head:
  assumes "2 \<le> b" "b \<le> 16"
  shows "\<exists>c s. numeral_text b v = c # s \<and> \<not> isspace (sint c) \<and> sint c \<noteq> 43 \<and> sint c \<noteq> 45"
proof -
  have "\<exists>d s. numeral_text b v = digit_char (int d) # s \<and> d < 16"
  proof (cases "v = 0")
    case True
    then have "numeral_text b v = digit_char (int 0) # []" by (simp add: numeral_text_def digit_char_def)
    then show ?thesis by (intro exI [of _ 0]) simp
  next
    case False
    then have "digits b v \<noteq> []" using assms(1) by (subst digits.simps) simp
    then obtain d ds where r: "rev (digits b v) = d # ds" by (cases "rev (digits b v)") auto
    then have "d \<in> set (digits b v)" by (metis list.set_intros(1) set_rev)
    then have "d < 16" using digits_less [of b d v] assms by simp
    then show ?thesis using r False by (intro exI [of _ d]) (simp add: numeral_text_def rev_map)
  qed
  then show ?thesis using digit_char_head by blast
qed

text \<open>C26: what \<open>itoa\<close> writes in a base from 5 to 16, in its buffer of 16 bytes, \<open>strtol\<close> reads
  back to the same number, up to the end of the text, for every \<open>int\<close> but the smallest.\<close>

theorem itoa_strtol:
  assumes "5 \<le> base" "base \<le> 16" "- (2 ^ 31) < val" "val < 2 ^ 31" "stops t base"
  shows "\<exists>s. itoa val base = Some s \<and> strtol (s @ t) base = (val, length s)"
proof -
  define b where "b = nat base"
  have b: "base = int b" "5 \<le> b" "b \<le> 16" "2 \<le> b" using assms(1,2) by (simp_all add: b_def)
  have st: "stops t (int b)" using assms(5) b(1) by simp
  define v where "v = nat \<bar>val\<bar>"
  obtain c s where h: "numeral_text b v = c # s" "\<not> isspace (sint c)" "sint c \<noteq> 43" "sint c \<noteq> 45"
    using numeral_text_head [OF b(4,3)] by blast
  have loop: "strtol_loop (c # s @ t) (int b) 0 False = (of_nat v, t, True)"
    using strtol_loop_text [OF b(4,3) st, of v False] unfolding h(1) by simp
  have nz: "strtol_base x (int b) = int b" for x using b(2) by (simp add: strtol_base_def)
  have v: "sint (of_nat v :: u32) = int v" "sint (- of_nat v :: u32) = - int v"
  proof -
    have "(of_nat v :: u32) = word_of_int (int v)" "- (of_nat v :: u32) = word_of_int (- int v)" by simp_all
    then show "sint (of_nat v :: u32) = int v" "sint (- of_nat v :: u32) = - int v"
      using assms(3,4) by (simp_all only: sint_u32_small v_def)
  qed
  show ?thesis
  proof (cases "val < 0")
    case True
    then have "numeral_text b (nat (- val)) = c # s" using h(1) by (simp add: v_def)
    moreover have "\<not> isspace 45" by (simp add: isspace_def isblank_def)
    ultimately show ?thesis using itoa_text [OF b(2) assms(3,4)] True h loop nz v(2)
      by (simp add: b(1) strtol_def Let_def v_def)
  next
    case False
    then have "numeral_text b (nat val) = c # s" using h(1) by (simp add: v_def)
    then show ?thesis using itoa_text [OF b(2) assms(3,4)] False h loop nz v(1)
      by (simp add: b(1) strtol_def Let_def v_def)
  qed
qed

theorem itoa_strtol_witness:
  "\<exists>s. itoa (-1995) 10 = Some s \<and> strtol (s @ [32]) 10 = (-1995, length s)"
proof -
  have "stops [32] 10" by (simp add: stops_def digit_val_def isdigit_def tolower_def isupper_def Let_def)
  then show ?thesis using itoa_strtol [of 10 "-1995" "[32]"] by simp
qed

text \<open>The smallest \<open>int\<close> has no positive counterpart: its digits come out as other characters,
  \<open>-./,),(-*,(\<close> in base 10. And the prefix of a hexadecimal number is not skipped.\<close>

lemma itoa_int_min: "itoa (- (2 ^ 31)) 10 = Some [45, 46, 47, 44, 41, 44, 40, 45, 42, 44, 40]"
  by code_simp

lemma strtol_hex: "strtol [48, 120, 49, 102] 0 = (0, 1)"
  by code_simp

section \<open>Sorting by insertion\<close>

definition compares :: "('a \<Rightarrow> 'a \<Rightarrow> int) \<Rightarrow> ('a \<Rightarrow> int) \<Rightarrow> 'a set \<Rightarrow> bool" where
  "compares cmp k S \<longleftrightarrow> (\<forall>x \<in> S. \<forall>y \<in> S. cmp x y < 0 \<longleftrightarrow> k x < k y)"

lemma length_swap [simp]: "length (swap arr p q) = length arr"
  by (simp add: swap_def)

lemma mset_swap [simp]: "p < length arr \<Longrightarrow> q < length arr \<Longrightarrow> mset (swap arr p q) = mset arr"
  using Multiset.mset_swap [of q arr p] by (simp add: swap_def)

lemma nth_swap: "p < length arr \<Longrightarrow> q < length arr \<Longrightarrow>
    swap arr p q ! i = (if i = q then arr ! p else if i = p then arr ! q else arr ! i)"
  by (auto simp: swap_def nth_list_update)

lemma ins_down_spec:
  assumes "a < length arr" "compares cmp k (set arr)" "sorted (map k (take a arr))"
  shows "sorted (map k (take (Suc a) (ins_down cmp arr a))) \<and> mset (ins_down cmp arr a) = mset arr
    \<and> drop (Suc a) (ins_down cmp arr a) = drop (Suc a) arr"
  using assms
proof (induction a arbitrary: arr)
  case 0
  then show ?case by (cases arr) simp_all
next
  case (Suc b)
  have tk: "take (Suc b) arr = take b arr @ [arr ! b]" using Suc.prems(1) by (simp add: take_Suc_conv_app_nth)
  have le: "\<forall>x \<in> set (take b arr). k x \<le> k (arr ! b)" using Suc.prems(3) unfolding tk by (simp add: sorted_append)
  show ?case
  proof (cases "cmp (arr ! Suc b) (arr ! b) < 0")
    case False
    then have "k (arr ! b) \<le> k (arr ! Suc b)" using Suc.prems(1,2) by (simp add: compares_def)
    then have "sorted (map k (take (Suc (Suc b)) arr))"
      using Suc.prems(1,3) le tk by (fastforce simp: take_Suc_conv_app_nth [of "Suc b"] sorted_append)
    then show ?thesis using False by simp
  next
    case True
    let ?s = "swap arr (Suc b) b"
    let ?r = "ins_down cmp ?s b"
    have k: "k (arr ! Suc b) < k (arr ! b)" using True Suc.prems(1,2) by (simp add: compares_def)
    have ms: "mset ?s = mset arr" using Suc.prems(1) by simp
    have tb: "take b ?s = take b arr" by (simp add: swap_def)
    have ih: "sorted (map k (take (Suc b) ?r))" "mset ?r = mset arr" "drop (Suc b) ?r = drop (Suc b) ?s"
      using Suc.IH [of ?s] Suc.prems ms tk mset_eq_setD [OF ms] unfolding tb
      by (simp_all add: sorted_append)
    have len: "length ?r = length arr" using ih(2) by (rule mset_eq_length)
    have at: "?r ! Suc b = arr ! b"
    proof -
      have "?r ! Suc b = drop (Suc b) ?r ! 0" using len Suc.prems(1) by simp
      also have "\<dots> = ?s ! Suc b" using ih(3) Suc.prems(1) by simp
      finally show ?thesis using Suc.prems(1) by (simp add: nth_swap)
    qed
    have "mset (take (Suc b) ?r) = mset (take (Suc b) ?s)"
    proof -
      have "mset (take (Suc b) ?r) + mset (drop (Suc b) ?r) = mset (take (Suc b) ?s) + mset (drop (Suc b) ?s)"
        using ih(2) ms by (metis append_take_drop_id mset_append)
      then show ?thesis using ih(3) by simp
    qed
    moreover have "take (Suc b) ?s = take b arr @ [arr ! Suc b]"
      using Suc.prems(1) tb by (simp add: take_Suc_conv_app_nth nth_swap)
    ultimately have "set (take (Suc b) ?r) = set (take b arr @ [arr ! Suc b])"
      by (metis mset_eq_setD)
    then have "\<forall>x \<in> set (take (Suc b) ?r). k x \<le> k (arr ! b)" using le k by auto
    then have "sorted (map k (take (Suc (Suc b)) ?r))"
      using ih(1) at len Suc.prems(1) by (simp add: take_Suc_conv_app_nth [of "Suc b"] sorted_append)
    moreover have "drop (Suc (Suc b)) ?r = drop (Suc (Suc b)) arr"
    proof -
      have "drop (Suc (Suc b)) ?r = drop 1 (drop (Suc b) ?s)" using ih(3) by (metis drop_drop plus_1_eq_Suc)
      also have "\<dots> = drop (Suc (Suc b)) arr" by (simp add: swap_def)
      finally show ?thesis .
    qed
    ultimately show ?thesis using True ih(2) by simp
  qed
qed

lemma ins_sort_spec:
  assumes "compares cmp k (set arr)"
  shows "sorted (map k (ins_sort cmp arr)) \<and> mset (ins_sort cmp arr) = mset arr"
proof -
  have "sorted (map k (take (Suc n) (foldl (ins_down cmp) arr [1..<Suc n]))) \<and>
      mset (foldl (ins_down cmp) arr [1..<Suc n]) = mset arr" if "n < length arr" for n
    using that
  proof (induction n)
    case 0
    then show ?case by (cases arr) simp_all
  next
    case (Suc n)
    let ?f = "foldl (ins_down cmp) arr [1..<Suc n]"
    have ih: "sorted (map k (take (Suc n) ?f))" "mset ?f = mset arr" using Suc by simp_all
    have "length ?f = length arr" "set ?f = set arr" using ih(2) by (metis mset_eq_length, metis mset_eq_setD)
    then show ?case using ins_down_spec [of "Suc n" ?f cmp k] Suc.prems ih assms by simp
  qed
  from this [of "length arr - 1"] show ?thesis
  proof (cases "arr = []")
    case False
    then have "Suc (length arr - 1) = length arr" by simp
    moreover have "sorted (map k (take (length arr) (ins_sort cmp arr))) \<and> mset (ins_sort cmp arr) = mset arr"
      using \<open>length arr - 1 < length arr \<Longrightarrow> _\<close> False calculation by (simp add: ins_sort_def)
    moreover have "length (ins_sort cmp arr) = length arr" using calculation(2) by (metis mset_eq_length)
    ultimately show ?thesis by simp
  qed (simp add: ins_sort_def)
qed

section \<open>Sorting by partition\<close>

lemma compares_first:
  assumes "compares cmp k (set arr)" "i < length arr"
  shows "cmp (arr ! i) (arr ! 0) < 0 \<longleftrightarrow> k (arr ! i) < k (arr ! 0)"
    "cmp (arr ! 0) (arr ! i) < 0 \<longleftrightarrow> k (arr ! 0) < k (arr ! i)"
proof -
  have "arr ! 0 \<in> set arr" "arr ! i \<in> set arr" using assms(2) by (intro nth_mem, linarith)+
  then show "cmp (arr ! i) (arr ! 0) < 0 \<longleftrightarrow> k (arr ! i) < k (arr ! 0)"
    "cmp (arr ! 0) (arr ! i) < 0 \<longleftrightarrow> k (arr ! 0) < k (arr ! i)"
    using assms(1) by (simp_all add: compares_def)
qed

lemma scan_left_spec:
  assumes "compares cmp k (set arr)" "left \<le> j" "j < length arr" "k (arr ! 0) \<le> k (arr ! j)"
  shows "\<exists>l. scan_left cmp arr left = Some l \<and> left \<le> l \<and> l \<le> j \<and> k (arr ! 0) \<le> k (arr ! l)
    \<and> (\<forall>i. left \<le> i \<and> i < l \<longrightarrow> k (arr ! i) < k (arr ! 0))"
  using assms(2)
proof (induction "j - left" arbitrary: left)
  case 0
  then have "j = left" by simp
  then show ?case using assms(3,4) compares_first(1) [OF assms(1,3)] by (subst scan_left.simps) auto
next
  case (Suc n)
  show ?case
  proof (cases "k (arr ! left) < k (arr ! 0)")
    case True
    then have "left \<noteq> j" using assms(4) by auto
    moreover have n: "n = j - (left + 1)" using Suc.hyps(2) by linarith
    ultimately obtain l where l: "scan_left cmp arr (left + 1) = Some l" "left + 1 \<le> l" "l \<le> j" "k (arr ! 0) \<le> k (arr ! l)"
        "\<forall>i. left + 1 \<le> i \<and> i < l \<longrightarrow> k (arr ! i) < k (arr ! 0)"
      using Suc.hyps(1) [of "left + 1"] n Suc.prems by auto
    have "\<forall>i. left \<le> i \<and> i < l \<longrightarrow> k (arr ! i) < k (arr ! 0)"
      using l(5) True by (metis Suc_eq_plus1 Suc_leI le_neq_implies_less)
    moreover have "scan_left cmp arr left = scan_left cmp arr (left + 1)"
      using True assms(3) Suc.prems compares_first(1) [OF assms(1), of left] by (subst scan_left.simps) simp
    ultimately show ?thesis using l by auto
  next
    case False
    then have "scan_left cmp arr left = Some left"
      using assms(3) Suc.prems compares_first(1) [OF assms(1), of left] by (subst scan_left.simps) simp
    then show ?thesis using False Suc.prems by auto
  qed
qed

lemma scan_right_spec:
  assumes "compares cmp k (set arr)" "right < length arr"
  shows "\<exists>r. scan_right cmp arr right = Some r \<and> r \<le> right \<and> k (arr ! r) \<le> k (arr ! 0)
    \<and> (\<forall>i. r < i \<and> i \<le> right \<longrightarrow> k (arr ! 0) < k (arr ! i))"
  using assms(2)
proof (induction right)
  case 0
  then show ?case using assms(1) by (auto simp: compares_def)
next
  case (Suc right)
  then have c: "cmp (arr ! 0) (arr ! Suc right) < 0 \<longleftrightarrow> k (arr ! 0) < k (arr ! Suc right)"
    using compares_first(2) [OF assms(1), of "Suc right"] by simp
  show ?case
  proof (cases "k (arr ! 0) < k (arr ! Suc right)")
    case True
    then show ?thesis using c Suc by (auto simp: le_Suc_eq)
  qed (use c in auto)
qed

text \<open>An array that is partitioned around its first item but for a middle part.\<close>

definition parted :: "('a \<Rightarrow> int) \<Rightarrow> 'a list \<Rightarrow> nat \<Rightarrow> nat \<Rightarrow> bool" where
  "parted k arr left right \<longleftrightarrow> (\<forall>i. 1 \<le> i \<and> i < left \<longrightarrow> k (arr ! i) < k (arr ! 0))
     \<and> (\<forall>i. right < i \<and> i < length arr \<longrightarrow> k (arr ! 0) < k (arr ! i))"

lemma partition_loop_scans:
  assumes "compares cmp k (set arr)" "parted k arr left right" "1 \<le> left" "right + 1 < length arr" "left \<le> right + 1"
  shows "\<exists>l r. scan_left cmp arr left = Some l \<and> scan_right cmp arr right = Some r \<and> left \<le> l \<and> r \<le> right
    \<and> k (arr ! 0) \<le> k (arr ! l) \<and> k (arr ! r) \<le> k (arr ! 0) \<and> parted k arr l r \<and> l \<le> right + 1"
proof -
  have last: "k (arr ! 0) \<le> k (arr ! (right + 1))" using assms(2,4) by (simp add: parted_def less_imp_le)
  obtain l where l: "scan_left cmp arr left = Some l" "left \<le> l" "l \<le> right + 1" "k (arr ! 0) \<le> k (arr ! l)"
      "\<forall>i. left \<le> i \<and> i < l \<longrightarrow> k (arr ! i) < k (arr ! 0)"
    using scan_left_spec [OF assms(1,5) assms(4) last] by blast
  obtain r where r: "scan_right cmp arr right = Some r" "r \<le> right" "k (arr ! r) \<le> k (arr ! 0)"
      "\<forall>i. r < i \<and> i \<le> right \<longrightarrow> k (arr ! 0) < k (arr ! i)"
    using scan_right_spec [OF assms(1), of right] assms(4) by auto
  have "parted k arr l r" using assms(2) l(5) r(4) unfolding parted_def by (meson not_le)
  then show ?thesis using l r by blast
qed

text \<open>Moving a bound over an item that is already on its side changes nothing.\<close>

lemma partition_loop_skip:
  assumes "compares cmp k (set arr)" "left < length arr" "right < length arr" "0 < right"
    "k (arr ! left) < k (arr ! 0)" "k (arr ! 0) < k (arr ! right)"
  shows "partition_loop cmp arr left right = partition_loop cmp arr (left + 1) (right - 1)"
proof -
  have "scan_left cmp arr left = scan_left cmp arr (left + 1)"
    using assms compares_first(1) [OF assms(1,2)] by (subst scan_left.simps) simp
  moreover have "scan_right cmp arr right = scan_right cmp arr (right - 1)"
    using assms compares_first(2) [OF assms(1,3)] by (cases right) simp_all
  ultimately show ?thesis
    unfolding partition_loop.simps [of cmp arr left] partition_loop.simps [of cmp arr "left + 1"]
    by (simp only:)
qed

lemma partition_loop_spec:
  assumes "compares cmp k (set arr)" "distinct (map k arr)" "parted k arr left right" "1 \<le> left"
    "right + 1 < length arr" "left \<le> right + 1"
  shows "\<exists>arr' r. partition_loop cmp arr left right = Some (arr', r) \<and> mset arr' = mset arr \<and> arr' ! 0 = arr ! 0
    \<and> r < length arr \<and> parted k arr' (r + 1) r"
  using assms
proof (induction "right + 1 - left" arbitrary: arr left right rule: less_induct)
  case less
  obtain l r where lr: "scan_left cmp arr left = Some l" "scan_right cmp arr right = Some r" "left \<le> l" "r \<le> right"
      "k (arr ! 0) \<le> k (arr ! l)" "k (arr ! r) \<le> k (arr ! 0)" "parted k arr l r" "l \<le> right + 1"
    using partition_loop_scans [OF less.prems(1,3-6)] by blast
  have ne: "k (arr ! i) \<noteq> k (arr ! 0)" if "0 < i" "i < length arr" for i
  proof -
    have "0 < length arr" using that by linarith
    then show ?thesis using nth_eq_iff_index_eq [OF less.prems(2), of i 0] that by simp
  qed
  have step: "partition_loop cmp arr left right =
      (if r \<le> l then Some (arr, r) else partition_loop cmp (swap arr l r) l r)"
    unfolding partition_loop.simps [of cmp arr left] by (simp add: lr(1,2))
  show ?case
  proof (cases "r \<le> l")
    case True
    have "r \<noteq> l" using ne [of r] lr(3-6) less.prems(4,5) by auto
    have "\<not> r + 1 < l"
    proof
      assume "r + 1 < l"
      then have "k (arr ! (r + 1)) < k (arr ! 0)" "k (arr ! 0) < k (arr ! (r + 1))"
        using lr(7,8) less.prems(5) by (simp_all add: parted_def)
      then show False by simp
    qed
    then have "l = r + 1" using True \<open>r \<noteq> l\<close> by simp
    then show ?thesis using True step lr(4,7) less.prems(5) by auto
  next
    case False
    let ?s = "swap arr l r"
    have b: "0 < l" "l < length arr" "r < length arr" "l < r" using False lr(3,4) less.prems(4,5) by simp_all
    have s: "mset ?s = mset arr" "?s ! 0 = arr ! 0" "?s ! l = arr ! r" "?s ! r = arr ! l"
      using b by (simp_all add: nth_swap)
    have set: "set ?s = set arr" using s(1) by (rule mset_eq_setD)
    have cmp: "compares cmp k (set ?s)" using less.prems(1) set by simp
    have "mset (map k ?s) = mset (map k arr)" using s(1) by simp
    then have dis: "distinct (map k ?s)" using less.prems(2) mset_eq_imp_distinct_iff by blast
    have kl: "k (?s ! l) < k (?s ! 0)" "k (?s ! 0) < k (?s ! r)"
      using s lr(5,6) ne [of l] ne [of r] b by simp_all
    have skip: "partition_loop cmp ?s l r = partition_loop cmp ?s (l + 1) (r - 1)"
      using b kl by (intro partition_loop_skip [OF cmp]) simp_all
    have pt: "parted k ?s (l + 1) (r - 1)"
      unfolding parted_def
    proof (intro conjI allI impI)
      fix i assume "1 \<le> i \<and> i < l + 1"
      then show "k (?s ! i) < k (?s ! 0)" using kl(1) lr(7) b s(2)
        by (cases "i = l") (simp_all add: parted_def nth_swap)
    next
      fix i assume i: "r - 1 < i \<and> i < length ?s"
      show "k (?s ! 0) < k (?s ! i)"
      proof (cases "i = r")
        case False
        then have "r < i" "i < length arr" using i by simp_all linarith
        moreover from this b(4) have "i \<noteq> l" by linarith
        ultimately show ?thesis using False lr(7) b s(2) by (simp add: parted_def nth_swap)
      qed (use kl(2) in simp)
    qed
    have "\<exists>arr' r'. partition_loop cmp ?s (l + 1) (r - 1) = Some (arr', r') \<and> mset arr' = mset ?s \<and> arr' ! 0 = ?s ! 0
      \<and> r' < length ?s \<and> parted k arr' (r' + 1) r'"
      using lr(3,4) b less.prems(5) by (intro less.hyps cmp dis pt) simp_all
    then show ?thesis using step False skip s(1,2) by simp
  qed
qed

lemma pivot_spec:
  assumes "compares cmp k (set arr)" "2 \<le> length arr"
  shows "mset (pivot cmp arr) = mset arr \<and> k (pivot cmp arr ! 0) \<le> k (pivot cmp arr ! (length arr - 1))"
proof -
  define a1 where "a1 = (if cmp (arr ! 0) (arr ! (length arr div 2)) < 0 then swap arr 0 (length arr div 2) else arr)"
  have b: "0 < length arr" "length arr div 2 < length arr" "length arr - 1 < length arr" "length arr - 1 \<noteq> 0"
    using assms(2) by linarith+
  have ms: "mset a1 = mset arr" using b by (simp add: a1_def)
  have len: "length a1 = length arr" using ms by (rule mset_eq_length)
  have "compares cmp k (set a1)" using assms(1) mset_eq_setD [OF ms] by simp
  then have "cmp (a1 ! (length arr - 1)) (a1 ! 0) < 0 \<longleftrightarrow> k (a1 ! (length arr - 1)) < k (a1 ! 0)"
    using compares_first(1) [of cmp k a1] b(3) len by simp
  then show ?thesis using ms b len unfolding pivot_def Let_def a1_def [symmetric]
    by (auto simp: nth_swap)
qed

lemma sorted_parts:
  assumes "sorted (map k l)" "sorted (map k u)" "\<forall>x \<in> set l. k x < k p" "\<forall>x \<in> set u. k p < k x"
  shows "sorted (map k (l @ p # u))"
  using assms by (fastforce simp: sorted_append)

lemma qsort_spec:
  assumes "compares cmp k (set arr)" "distinct (map k arr)"
  shows "\<exists>out. qsort cmp arr = Some out \<and> sorted (map k out) \<and> mset out = mset arr"
  using assms
proof (induction "length arr" arbitrary: arr rule: less_induct)
  case less
  show ?case
  proof (cases "length arr < 4")
    case True
    have "sorted (map k arr)" if "length arr \<le> 1" using that by (cases arr) simp_all
    then show ?thesis using True ins_sort_spec [OF less.prems(1)]
      by (subst qsort.simps) auto
  next
    case False
    define a0 where "a0 = pivot cmp arr"
    have a0: "mset a0 = mset arr" "k (a0 ! 0) \<le> k (a0 ! (length arr - 1))"
      using pivot_spec [OF less.prems(1)] False by (simp_all add: a0_def)
    have len: "length a0 = length arr" using a0(1) by (rule mset_eq_length)
    have cmp: "compares cmp k (set a0)" using less.prems(1) mset_eq_setD [OF a0(1)] by simp
    have "mset (map k a0) = mset (map k arr)" using a0(1) by simp
    then have dis: "distinct (map k a0)" using less.prems(2) mset_eq_imp_distinct_iff by blast
    have l4: "0 < length a0" "length arr - 1 < length a0" "0 \<noteq> length arr - 1" using False len by linarith+
    have "k (a0 ! 0) \<noteq> k (a0 ! (length arr - 1))"
      using nth_eq_iff_index_eq [OF dis, of 0 "length arr - 1"] l4 by simp
    then have last: "k (a0 ! 0) < k (a0 ! (length arr - 1))" using a0(2) by simp
    have "parted k a0 1 (length arr - 2)"
      unfolding parted_def
    proof (intro conjI allI impI)
      fix i assume "length arr - 2 < i \<and> i < length a0"
      then have "i = length arr - 1" using len by linarith
      then show "k (a0 ! 0) < k (a0 ! i)" using last by simp
    qed simp
    moreover have "length arr - 2 + 1 < length a0" "(1 :: nat) \<le> length arr - 2 + 1" using False len by linarith+
    ultimately obtain a1 r where p: "partition_loop cmp a0 1 (length arr - 2) = Some (a1, r)" "mset a1 = mset a0"
        "r < length a0" "parted k a1 (r + 1) r"
      using partition_loop_spec [OF cmp dis, of 1 "length arr - 2"] len False by auto
    define a2 where "a2 = swap a1 0 r"
    have l1: "length a1 = length arr" using p(2) len by (metis mset_eq_length)
    have pos: "0 < length a1" using l1 False by linarith
    have a2: "mset a2 = mset arr" "length a2 = length arr" "a2 ! r = a1 ! 0"
      using p(2,3) a0(1) l1 len pos by (simp_all add: a2_def nth_swap)
    let ?l = "take r a2" and ?u = "drop (r + 1) a2"
    have split: "a2 = ?l @ a2 ! r # ?u" using p(3) len a2(2) by (simp add: id_take_nth_drop)
    have below: "\<forall>x \<in> set ?l. k x < k (a2 ! r)"
    proof
      fix x assume "x \<in> set ?l"
      then obtain i where i: "i < r" "x = a2 ! i" by (auto simp: in_set_conv_nth)
      have "a2 ! i = (if i = 0 then a1 ! r else a1 ! i)" using i(1) p(3) len l1 pos by (simp add: a2_def nth_swap)
      then show "k x < k (a2 ! r)" using i p(4) a2(3) by (auto simp: parted_def)
    qed
    have upper: "\<forall>x \<in> set ?u. k (a2 ! r) < k x"
    proof
      fix x assume "x \<in> set ?u"
      then obtain j where j: "j < length arr - (r + 1)" "x = a2 ! (r + 1 + j)" using a2(2) p(3) len
        by (auto simp: in_set_conv_nth)
      define i where "i = r + 1 + j"
      have i: "r < i" "i < length arr" "x = a2 ! i" using j unfolding i_def by linarith+
      have "a2 ! i = a1 ! i" using i p(3) len l1 pos by (simp add: a2_def nth_swap)
      then show "k (a2 ! r) < k x" using i p(4) a2(3) l1 by (auto simp: parted_def)
    qed
    have cmp2: "compares cmp k (set ?l)" "compares cmp k (set ?u)"
      using less.prems(1) mset_eq_setD [OF a2(1)] set_take_subset [of r a2] set_drop_subset [of "r + 1" a2]
      unfolding compares_def by (metis subsetD)+
    have "mset (map k a2) = mset (map k arr)" using a2(1) by simp
    then have "distinct (map k a2)" using less.prems(2) mset_eq_imp_distinct_iff by blast
    then have dis2: "distinct (map k ?l)" "distinct (map k ?u)"
      by (simp_all add: take_map [symmetric] drop_map [symmetric] distinct_take distinct_drop)
    obtain l u where lu: "qsort cmp ?l = Some l" "sorted (map k l)" "mset l = mset ?l"
        "qsort cmp ?u = Some u" "sorted (map k u)" "mset u = mset ?u"
      using less.hyps [OF _ cmp2(1) dis2(1)] less.hyps [OF _ cmp2(2) dis2(2)] p(3) len a2(2) by force
    have run: "qsort cmp arr = Some (l @ a2 ! r # u)"
      using False p(1) lu(1,4) unfolding qsort.simps [of cmp arr] a0_def [symmetric]
      by (simp add: a2_def [symmetric])
    have "sorted (map k (l @ a2 ! r # u))"
      using lu(2,3,5,6) below upper mset_eq_setD [OF lu(3)] mset_eq_setD [OF lu(6)] by (intro sorted_parts) simp_all
    moreover have "mset (l @ a2 ! r # u) = mset arr"
      using lu(3,6) a2(1) split by (metis mset.simps(2) mset_append)
    ultimately show ?thesis using run by blast
  qed
qed

text \<open>C23: \<open>qsort\<close> ends and leaves the items of the array in order, when no two of them are
  equal to the comparison.\<close>

theorem qsort_sorts:
  assumes "compares cmp k (set arr)" "distinct (map k arr)"
  shows "\<exists>out. qsort cmp arr = Some out \<and> sorted (map k out) \<and> mset out = mset arr"
  by (rule qsort_spec [OF assms])

theorem qsort_sorts_witness:
  "\<exists>out. qsort (\<lambda>x y. x - y) [5, 3, 9, 1, 7, 8, 2] = Some out \<and> sorted out \<and> mset out = mset [5, 3, 9, 1, 7, 8, 2 :: int]"
proof -
  have "compares (\<lambda>x y. x - y) (\<lambda>x. x) (set [5, 3, 9, 1, 7, 8, 2 :: int])" by (simp add: compares_def)
  from qsort_sorts [OF this] show ?thesis by simp
qed

lemma partition_loop_stuck:
  assumes "scan_left cmp arr left = Some left" "scan_right cmp arr right = Some right" "left < right"
    "swap arr left right = arr"
  shows "partition_loop cmp arr left right = None"
proof -
  have "\<not> (scan_left cmp arr left = Some left \<and> scan_right cmp arr right = Some right \<and> left < right \<and> swap arr left right = arr)"
    if "partition_loop cmp arr left right = Some y" for y
    by (rule partition_loop.raw_induct [OF _ that]) (auto split: option.splits if_splits)
  then show ?thesis using assms by (cases "partition_loop cmp arr left right") auto
qed

text \<open>With four or more items that are equal to the comparison \<open>qsort\<close> does not end: both
  scans of the partition stop at once, and the swap between them changes nothing.\<close>

theorem qsort_equal_items:
  assumes "4 \<le> n" "\<not> cmp x x < 0"
  shows "qsort cmp (replicate n x) = None"
proof -
  let ?r = "replicate n x"
  have sw: "swap ?r p q = ?r" if "p < n" "q < n" for p q
    using that by (auto simp: swap_def nth_list_update intro: nth_equalityI)
  have pv: "pivot cmp ?r = ?r" using assms by (simp add: pivot_def Let_def)
  have "scan_left cmp ?r 1 = Some 1" using assms by (subst scan_left.simps) simp
  moreover have "scan_right cmp ?r (n - 2) = Some (n - 2)"
  proof -
    obtain m where "n - 2 = Suc m" using assms(1) by (cases "n - 2") simp_all
    moreover from this have "Suc m < n" using assms(1) by linarith
    ultimately show ?thesis using assms(2) by simp
  qed
  ultimately have "partition_loop cmp ?r 1 (n - 2) = None"
    using assms(1) sw [of 1 "n - 2"] by (intro partition_loop_stuck) simp_all
  then show ?thesis using assms(1) pv by (subst qsort.simps) simp
qed

theorem qsort_equal_items_witness: "qsort (\<lambda>x y. x - y) [7, 7, 7, 7 :: int] = None"
  using qsort_equal_items [of 4 "\<lambda>x y. x - y" "7 :: int"] by (simp add: numeral_eq_Suc)

end
