(* ===== verification/Stdio.thy ===== *)
theory Stdio
  imports Stdlib
begin

text \<open>
  \<open>src/libc/stdio.c\<close>: the \<open>printf\<close> family over one interpreter of format strings. Characters
  go to the terminal, to the serial port or to memory; a \<open>sink\<close> is the three together. The
  arguments are a list of integers (or addresses, for \<open>%n\<close>) and strings; a missing one, one of
  the wrong kind, and a number that does not fit its conversion buffer are \<open>None\<close>.
\<close>

datatype out = OUT_DEF | OUT_BUF | OUT_SCR | OUT_SER

datatype arg = IntArg u32 | StrArg cstring

record sink =
  s_con :: cstring
  s_ser :: cstring
  s_mem :: ram

fun put_bytes :: "ram \<Rightarrow> u32 \<Rightarrow> u8 list \<Rightarrow> ram" where
  "put_bytes m a [] = m"
| "put_bytes m a (c # s) = put_bytes (m(a := c)) (a + 1) s"

definition bwrite :: "out \<Rightarrow> u32 \<Rightarrow> u32 \<Rightarrow> cstring \<Rightarrow> sink \<Rightarrow> sink" where
  "bwrite out buf buf_sz str s =
     (case out of
        OUT_BUF \<Rightarrow>
          let sz = (if buf_sz \<noteq> 0 \<and> unat buf_sz \<le> length str then unat buf_sz else length str)
          in s\<lparr>s_mem := put_bytes ((s_mem s)(buf + of_nat sz := 0)) buf (take sz str)\<rparr>
      | OUT_DEF \<Rightarrow> s\<lparr>s_con := s_con s @ str\<rparr>
      | OUT_SER \<Rightarrow> s\<lparr>s_ser := s_ser s @ str\<rparr>
      | OUT_SCR \<Rightarrow> s)"

section \<open>The interpreter\<close>

text \<open>Its local variables; \<open>dest\<close> holds the three parameters that say where the text goes.\<close>

type_synonym dest = "out \<times> u32 \<times> u32"

record pf =
  cnum :: nat
  base :: int
  alt :: bool
  fwidth :: int
  padc :: u8
  sign :: bool
  left_align :: bool
  hex_caps :: bool
  unsig :: bool
  to :: sink

text \<open>A \<open>bwrite\<close> to \<open>BUF(buf)\<close> with \<open>SZ(sz)\<close>, and the count of what was written.\<close>

definition emit_to :: "dest \<Rightarrow> cstring \<Rightarrow> nat \<times> sink \<Rightarrow> nat \<times> sink" where
  "emit_to d str c =
     (case d of (out, buf, sz) \<Rightarrow> case c of (n, s) \<Rightarrow>
        (n + length str,
         bwrite out (if buf \<noteq> 0 then buf + of_nat n else buf) (if sz \<noteq> 0 then sz - of_nat n else sz) str s))"

definition emit :: "dest \<Rightarrow> cstring \<Rightarrow> pf \<Rightarrow> pf" where
  "emit d str p = (case emit_to d str (cnum p, to p) of (n, s) \<Rightarrow> p\<lparr>cnum := n, to := s\<rparr>)"

fun pad :: "dest \<Rightarrow> nat \<Rightarrow> pf \<Rightarrow> pf" where
  "pad d 0 p = p"
| "pad d (Suc n) p = pad d n (emit d [padc p] p)"

definition fmt_int :: "dest \<Rightarrow> u32 \<Rightarrow> pf \<Rightarrow> pf option" where
  "fmt_int d v p =
     (case (if unsig p then utoa v (base p) else itoa (sint v) (base p)) of
        None \<Rightarrow> None
      | Some conv \<Rightarrow>
          let conv_buf = (if hex_caps p then map (\<lambda>c. word_of_int (toupper (sint c))) conv else conv);
              slen = length conv_buf;
              plus = (\<not> unsig p \<and> sign p \<and> 0 \<le> sint v);
              p = (if left_align p then (emit d conv_buf (if plus then emit d [43] p else p))\<lparr>padc := 32\<rparr> else p);
              p = pad d (nat (fwidth p - int slen)) p
          in Some (if left_align p then p else emit d conv_buf (if plus then emit d [43] p else p)))"

definition fmt_str :: "dest \<Rightarrow> cstring \<Rightarrow> pf \<Rightarrow> pf" where
  "fmt_str d str p = (
     let slen = length str;
         p = (if left_align p then (emit d str p)\<lparr>padc := 32\<rparr> else p);
         p = pad d (nat (fwidth p - int slen)) p
     in if left_align p then p else emit d str p)"

definition convc :: cstring where
  "convc = [100, 105, 111, 120, 88, 117, 99, 115, 102, 101, 69, 103, 71, 112, 110, 37]"

definition IS_CONV :: "u8 \<Rightarrow> bool" where "IS_CONV c \<longleftrightarrow> strchr convc (sint c) \<noteq> None"

definition with_int :: "arg list \<Rightarrow> (u32 \<Rightarrow> pf option) \<Rightarrow> (arg list \<times> pf) option" where
  "with_int args f =
     (case args of IntArg v # rest \<Rightarrow> map_option (\<lambda>p. (rest, p)) (f v) | _ \<Rightarrow> None)"

text \<open>The cases of the inner switch; \<open>X\<close> runs into \<open>x\<close>, that into \<open>u\<close>, and \<open>u\<close> and \<open>o\<close> into \<open>d\<close>.\<close>

definition convert :: "dest \<Rightarrow> u8 \<Rightarrow> arg list \<Rightarrow> pf \<Rightarrow> (arg list \<times> pf) option" where
  "convert d c args p =
     (if c = 88 \<or> c = 120 \<or> c = 112 then
        let p = p\<lparr>hex_caps := hex_caps p \<or> c = 88, base := 16\<rparr>;
            p = (if alt p then emit d [48, 120] p else p)
        in with_int args (\<lambda>v. fmt_int d v (p\<lparr>unsig := True\<rparr>))
      else if c = 117 then with_int args (\<lambda>v. fmt_int d v (p\<lparr>unsig := True\<rparr>))
      else if c = 111 then
        let p = p\<lparr>base := 8\<rparr>; p = (if alt p then emit d [48] p else p)
        in with_int args (\<lambda>v. fmt_int d v p)
      else if c = 100 \<or> c = 105 then with_int args (\<lambda>v. fmt_int d v p)
      else if c = 99 then with_int args (\<lambda>v. Some (emit d [ucast v] p))
      else if c = 115 then (case args of StrArg str # rest \<Rightarrow> Some (rest, fmt_str d str p) | _ \<Rightarrow> None)
      else if c = 110 then
        with_int args (\<lambda>a. Some (p\<lparr>to := (to p)\<lparr>s_mem := store32 (s_mem (to p)) a (of_nat (cnum p))\<rparr>\<rparr>))
      else Some (args, p))"

definition restore_state :: "pf \<Rightarrow> pf" where
  "restore_state p = p\<lparr>base := 10, alt := False, fwidth := 0, padc := 32, hex_caps := False\<rparr>"

function printf_loop :: "dest \<Rightarrow> cstring \<Rightarrow> bool \<Rightarrow> arg list \<Rightarrow> pf \<Rightarrow> pf option" where
  "printf_loop d [] fstart args p = Some p"
| "printf_loop d (c # fmt) fstart args p =
     (if c = 37 then printf_loop d fmt True args p
      else if fstart then
        if IS_CONV c then
          (case convert d c args p of
             None \<Rightarrow> None
           | Some (args, p) \<Rightarrow> printf_loop d fmt False args (restore_state p))
        else if c = 35 then printf_loop d fmt True args (p\<lparr>alt := True\<rparr>)
        else if c = 43 then printf_loop d fmt True args (p\<lparr>sign := True\<rparr>)
        else if c = 45 then printf_loop d fmt True args (p\<lparr>left_align := True\<rparr>)
        else if c = 108 \<or> c = 76 then printf_loop d fmt True args p
        else if c = 48 then printf_loop d fmt True args (p\<lparr>padc := 48\<rparr>)
        else if isdigit (sint c) then
          printf_loop d (dropWhile (\<lambda>x. isdigit (sint x)) fmt) True args (p\<lparr>fwidth := atoi (c # fmt)\<rparr>)
        else printf_loop d fmt True args p
      else printf_loop d fmt False args (emit d [c] p))"
  by pat_completeness auto
termination
  by (relation "measure (\<lambda>(d, fmt, fstart, args, p). length fmt)") (auto simp: less_Suc_eq_le length_dropWhile_le)

declare printf_loop.simps(2) [simp del]

definition intern_printf :: "dest \<Rightarrow> cstring \<Rightarrow> arg list \<Rightarrow> sink \<Rightarrow> (nat \<times> sink) option" where
  "intern_printf d fmt args s =
     map_option (\<lambda>p. (cnum p, to p))
       (printf_loop d fmt False args
         \<lparr>cnum = 0, base = 10, alt = False, fwidth = 0, padc = 32, sign = False, left_align = False,
          hex_caps = False, unsig = False, to = s\<rparr>)"

definition printf :: "cstring \<Rightarrow> arg list \<Rightarrow> sink \<Rightarrow> (nat \<times> sink) option" where
  "printf = intern_printf (OUT_DEF, 0, 0)"

definition sprintf :: "u32 \<Rightarrow> cstring \<Rightarrow> arg list \<Rightarrow> sink \<Rightarrow> (nat \<times> sink) option" where
  "sprintf buf = intern_printf (OUT_BUF, buf, 0)"

definition snprintf :: "u32 \<Rightarrow> u32 \<Rightarrow> cstring \<Rightarrow> arg list \<Rightarrow> sink \<Rightarrow> (nat \<times> sink) option" where
  "snprintf buf sz = intern_printf (OUT_BUF, buf, sz)"

definition ser_printf :: "cstring \<Rightarrow> arg list \<Rightarrow> sink \<Rightarrow> (nat \<times> sink) option" where
  "ser_printf = intern_printf (OUT_SER, 0, 0)"

text \<open>\<open>stdout\<close> and \<open>stderr\<close> are the file pointers 1 and 2.\<close>

definition vfprintf :: "u32 \<Rightarrow> cstring \<Rightarrow> arg list \<Rightarrow> sink \<Rightarrow> (fault + nat \<times> sink) option" where
  "vfprintf fp fmt args s =
     (if fp = 1 \<or> fp = 2 then map_option Inr (printf fmt args s)
      else Some (Inl (Panic ''*fprintf for anything other than stdout/stderr, not implemented yet'')))"

definition puts :: "cstring \<Rightarrow> sink \<Rightarrow> sink" where
  "puts str s = s\<lparr>s_con := s_con s @ str @ [10]\<rparr>"

definition putchar :: "int \<Rightarrow> sink \<Rightarrow> int \<times> sink" where
  "putchar c s = (c, s\<lparr>s_con := s_con s @ [word_of_int c]\<rparr>)"

text \<open>\<open>fputc\<close> and \<open>fflush\<close> of \<open>libc/file.c\<close> know no other streams either.\<close>

definition fputc :: "int \<Rightarrow> u32 \<Rightarrow> sink \<Rightarrow> fault + int \<times> sink" where
  "fputc c fp s =
     (if fp = 1 \<or> fp = 2 then Inr (putchar c s)
      else Inl (Panic ''fputc on anything other than stdout/stderr not implemented yet''))"

definition fflush :: "u32 \<Rightarrow> fault + int" where
  "fflush fp =
     (if fp = 1 \<or> fp = 2 then Inr 0
      else Inl (Panic ''fflush on anything other than stdout/stderr not implemented yet''))"

section \<open>What a format prints\<close>

text \<open>A format as its parts: text, and conversions with an optional zero flag and width.\<close>

datatype piece =
    Lit cstring
  | Dec bool nat u32
  | Uns bool nat u32
  | Hex bool nat u32
  | Str bool nat cstring
  | Chr u32

definition flags :: "bool \<Rightarrow> nat \<Rightarrow> cstring" where
  "flags z w = (if z then [48] else []) @ (if w = 0 then [] else numeral_text 10 w)"

fun piece_fmt :: "piece \<Rightarrow> cstring" where
  "piece_fmt (Lit s) = s"
| "piece_fmt (Dec z w v) = 37 # flags z w @ [100]"
| "piece_fmt (Uns z w v) = 37 # flags z w @ [117]"
| "piece_fmt (Hex z w v) = 37 # flags z w @ [120]"
| "piece_fmt (Str z w s) = 37 # flags z w @ [115]"
| "piece_fmt (Chr v) = [37, 99]"

fun piece_args :: "piece \<Rightarrow> arg list" where
  "piece_args (Lit s) = []"
| "piece_args (Dec z w v) = [IntArg v]"
| "piece_args (Uns z w v) = [IntArg v]"
| "piece_args (Hex z w v) = [IntArg v]"
| "piece_args (Str z w s) = [StrArg s]"
| "piece_args (Chr v) = [IntArg v]"

definition padded :: "bool \<Rightarrow> nat \<Rightarrow> cstring \<Rightarrow> cstring" where
  "padded z w s = replicate (w - length s) (if z then 48 else 32) @ s"

definition int_text :: "int \<Rightarrow> cstring" where
  "int_text v = (if v < 0 then 45 # numeral_text 10 (nat (- v)) else numeral_text 10 (nat v))"

text \<open>\<open>u\<close>: a conversion of an unsigned number came before.\<close>

fun piece_text :: "bool \<Rightarrow> piece \<Rightarrow> cstring" where
  "piece_text u (Lit s) = s"
| "piece_text u (Dec z w v) = padded z w (if u then numeral_text 10 (unat v) else int_text (sint v))"
| "piece_text u (Uns z w v) = padded z w (numeral_text 10 (unat v))"
| "piece_text u (Hex z w v) = padded z w (numeral_text 16 (unat v))"
| "piece_text u (Str z w s) = padded z w s"
| "piece_text u (Chr v) = [ucast v]"

fun piece_unsig :: "piece \<Rightarrow> bool" where
  "piece_unsig (Uns z w v) = True"
| "piece_unsig (Hex z w v) = True"
| "piece_unsig _ = False"

fun good_piece :: "piece \<Rightarrow> bool" where
  "good_piece (Lit s) \<longleftrightarrow> 37 \<notin> set s"
| "good_piece (Dec z w v) \<longleftrightarrow> w < 2 ^ 31 \<and> sint v \<noteq> - (2 ^ 31)"
| "good_piece (Uns z w v) \<longleftrightarrow> w < 2 ^ 31"
| "good_piece (Hex z w v) \<longleftrightarrow> w < 2 ^ 31"
| "good_piece (Str z w s) \<longleftrightarrow> w < 2 ^ 31"
| "good_piece (Chr v) \<longleftrightarrow> True"

fun render :: "bool \<Rightarrow> piece list \<Rightarrow> cstring" where
  "render u [] = []"
| "render u (p # ps) = piece_text u p @ render (u \<or> piece_unsig p) ps"

section \<open>Following the interpreter\<close>

definition runs :: "dest \<Rightarrow> cstring list \<Rightarrow> pf \<Rightarrow> pf" where
  "runs d chunks p = (case foldl (\<lambda>c s. emit_to d s c) (cnum p, to p) chunks of (n, s) \<Rightarrow> p\<lparr>cnum := n, to := s\<rparr>)"

lemma runs_Nil [simp]: "runs d [] p = p"
  by (simp add: runs_def)

lemma runs_Cons [simp]: "runs d (s # ss) p = runs d ss (emit d s p)"
  by (simp add: runs_def emit_def split: prod.split)

lemma runs_append [simp]: "runs d (a @ b) p = runs d b (runs d a p)"
  by (induction a arbitrary: p) simp_all

lemma emit_fields [simp]: "base (emit d s p) = base p" "alt (emit d s p) = alt p" "fwidth (emit d s p) = fwidth p"
  "padc (emit d s p) = padc p" "sign (emit d s p) = sign p" "left_align (emit d s p) = left_align p"
  "hex_caps (emit d s p) = hex_caps p" "unsig (emit d s p) = unsig p"
  by (simp_all add: emit_def split: prod.split)

lemma runs_fields [simp]: "base (runs d ss p) = base p" "alt (runs d ss p) = alt p" "fwidth (runs d ss p) = fwidth p"
  "padc (runs d ss p) = padc p" "sign (runs d ss p) = sign p" "left_align (runs d ss p) = left_align p"
  "hex_caps (runs d ss p) = hex_caps p" "unsig (runs d ss p) = unsig p"
  by (induction ss arbitrary: p) simp_all

lemma pad_runs: "pad d n p = runs d (replicate n [padc p]) p"
  by (induction n arbitrary: p) simp_all

text \<open>The state between conversions: everything but one flag is as at the start.\<close>

definition fresh :: "bool \<Rightarrow> nat \<times> sink \<Rightarrow> pf" where
  "fresh u c = \<lparr>cnum = fst c, base = 10, alt = False, fwidth = 0, padc = 32, sign = False, left_align = False,
     hex_caps = False, unsig = u, to = snd c\<rparr>"

lemma restore_runs:
  "restore_state (runs d chunks ((fresh u c)\<lparr>base := b, fwidth := w, padc := z, unsig := u'\<rparr>))
    = fresh u' (foldl (\<lambda>c s. emit_to d s c) c chunks)"
  by (cases c) (simp add: runs_def restore_state_def fresh_def split: prod.split)

lemma numeral_text_digits:
  "c \<in> set (numeral_text 10 w) \<Longrightarrow> c \<in> {48, 49, 50, 51, 52, 53, 54, 55, 56, 57}"
proof -
  assume c: "c \<in> set (numeral_text 10 w)"
  have "c = 48 \<or> (\<exists>d < 10. c = digit_char (int d))"
    using c digits_less [of 10 _ w] by (auto simp: numeral_text_def split: if_splits)
  then consider "c = 48" | d where "d < 10" "c = digit_char (int d)" by blast
  then show ?thesis
  proof cases
    case (2 d)
    then have "d \<in> {0, 1, 2, 3, 4, 5, 6, 7, 8, 9}" by simp presburger
    then show ?thesis using 2(2) by (elim insertE) (simp_all add: digit_char_def)
  qed simp
qed

lemma last_digits: "0 < v \<Longrightarrow> 2 \<le> b \<Longrightarrow> last (digits b v) \<noteq> 0"
proof (induction v rule: less_induct)
  case (less v)
  show ?case
  proof (cases "v div b = 0")
    case True
    then have "v < b" using less.prems by (simp add: div_eq_0_iff)
    then show ?thesis using less.prems True by (simp add: digits.simps [of b v] digits.simps [of b 0])
  next
    case False
    then have "last (digits b (v div b)) \<noteq> 0" using less.prems by (intro less.IH) simp_all
    moreover have "digits b (v div b) \<noteq> []" using False less.prems by (subst digits.simps) simp
    ultimately show ?thesis using less.prems by (subst digits.simps) simp
  qed
qed

lemma numeral_text_first:
  assumes "0 < w"
  shows "\<exists>h s. numeral_text 10 w = h # s \<and> h \<noteq> 48"
proof -
  have ne: "digits 10 w \<noteq> []" using assms by (subst digits.simps) simp
  then obtain d ds where r: "rev (digits 10 w) = d # ds" by (cases "rev (digits 10 w)") auto
  then have "d = last (digits 10 w)" using ne by (metis list.sel(1) hd_rev)
  then have d: "d \<noteq> 0" "d < 10" using last_digits [OF assms, of 10] digits_less [of 10 d w] ne by simp_all
  then have "d \<in> {1, 2, 3, 4, 5, 6, 7, 8, 9}" by simp presburger
  then have "digit_char (int d) \<noteq> 48" by (elim insertE) (simp_all add: digit_char_def)
  then show ?thesis using r assms by (simp add: numeral_text_def rev_map)
qed

lemma atoi_text:
  assumes "w < 2 ^ 31" "stops t 10"
  shows "atoi (numeral_text 10 w @ t) = int w"
proof -
  obtain c s where h: "numeral_text 10 w = c # s" "\<not> isspace (sint c)" "sint c \<noteq> 43" "sint c \<noteq> 45"
    using numeral_text_head [of 10 w] by auto
  have "strtol_loop (c # s @ t) 10 0 False = (of_nat w, t, True)"
    using strtol_loop_text [of 10 t w False] assms(2) unfolding h(1) by simp
  moreover have "sint (of_nat w :: u32) = int w"
    using sint_u32_small [of "int w"] assms(1) by simp
  ultimately show ?thesis unfolding h(1) using h(2-4)
    by (simp add: atoi_def strtol_def Let_def strtol_base_def)
qed

lemma loop_digit:
  assumes "h \<in> {49, 50, 51, 52, 53, 54, 55, 56, 57}"
  shows "printf_loop d (h # fmt) True args p =
    printf_loop d (dropWhile (\<lambda>x. isdigit (sint x)) fmt) True args (p\<lparr>fwidth := atoi (h # fmt)\<rparr>)"
proof -
  have "\<not> IS_CONV h" "isdigit (sint h)" "h \<noteq> 37" "h \<noteq> 35" "h \<noteq> 43" "h \<noteq> 45" "h \<noteq> 108" "h \<noteq> 76" "h \<noteq> 48"
    using assms by (elim insertE; simp add: IS_CONV_def convc_def isdigit_def)+
  then show ?thesis by (simp add: printf_loop.simps(2))
qed

lemma loop_flags:
  assumes "w < 2 ^ 31" "\<not> isdigit (sint c)" "stops (c # r) 10"
  shows "printf_loop d (flags z w @ c # r) True args (fresh u q) =
    printf_loop d (c # r) True args ((fresh u q)\<lparr>padc := (if z then 48 else 32), fwidth := int w\<rparr>)"
proof -
  have zero: "printf_loop d (48 # s) True args p = printf_loop d s True args (p\<lparr>padc := 48\<rparr>)" for s p
    by (simp add: printf_loop.simps(2) IS_CONV_def convc_def)
  have width: "printf_loop d (numeral_text 10 w @ c # r) True args p = printf_loop d (c # r) True args (p\<lparr>fwidth := int w\<rparr>)"
    if "w \<noteq> 0" for p
  proof -
    obtain h s where h: "numeral_text 10 w = h # s" "h \<noteq> 48" using numeral_text_first [of w] \<open>w \<noteq> 0\<close> by auto
    then have hd: "h \<in> {49, 50, 51, 52, 53, 54, 55, 56, 57}" using numeral_text_digits [of h w] by auto
    have "\<forall>x \<in> set s. isdigit (sint x)"
    proof
      fix x assume "x \<in> set s"
      then have "x \<in> {48, 49, 50, 51, 52, 53, 54, 55, 56, 57}" using numeral_text_digits [of x w] h(1) by simp
      then show "isdigit (sint x)" by (elim insertE) (simp_all add: isdigit_def)
    qed
    then have dw: "dropWhile (\<lambda>x. isdigit (sint x)) (s @ c # r) = c # r" using assms(2) by simp
    show ?thesis using loop_digit [OF hd, of d "s @ c # r" args p] atoi_text [OF assms(1,3)]
      unfolding h(1) dw by (simp add: dw)
  qed
  show ?thesis
    by (cases z; cases "w = 0") (simp_all add: flags_def zero width fresh_def)
qed

lemma conv_char:
  assumes "c \<in> {99, 100, 115, 117, 120}"
  shows "\<not> isdigit (sint c)" "stops (c # r) 10" "IS_CONV c" "c \<noteq> 37"
  using assms by (elim insertE; simp add: isdigit_def stops_def digit_val_def tolower_def isupper_def Let_def
      IS_CONV_def convc_def)+

lemma nat_minus_int: "nat (x - int n) = nat x - n"
  by simp

lemma fmt_int_runs:
  assumes "\<not> left_align p" "\<not> sign p" "\<not> hex_caps p"
    "(if unsig p then utoa v (base p) else itoa (sint v) (base p)) = Some str"
  shows "fmt_int d v p = Some (runs d (replicate (nat (fwidth p) - length str) [padc p] @ [str]) p)"
  unfolding fmt_int_def assms(4) using assms(1-3) by (simp add: pad_runs Let_def nat_minus_int)

lemma fmt_str_runs:
  "\<not> left_align p \<Longrightarrow> fmt_str d s p = runs d (replicate (nat (fwidth p) - length s) [padc p] @ [s]) p"
  by (simp add: fmt_str_def pad_runs Let_def nat_minus_int)

lemma concat_padded: "concat (replicate n [x] @ [s]) = replicate n x @ s"
  by (induction n) simp_all

text \<open>One part at a time: the characters it puts out, in some number of pieces.\<close>

lemma loop_piece:
  assumes "good_piece pc"
  shows "\<exists>chunks. concat chunks = piece_text u pc \<and>
    printf_loop d (piece_fmt pc @ rest) False (piece_args pc @ args) (fresh u q) =
    printf_loop d rest False args (fresh (u \<or> piece_unsig pc) (foldl (\<lambda>c s. emit_to d s c) q chunks))"
proof -
  have conv: "\<exists>chunks. concat chunks = padded z w str \<and>
      printf_loop d (37 # flags z w @ c # rest) False (a @ args) (fresh u q) =
      printf_loop d rest False args (fresh u' (foldl (\<lambda>c s. emit_to d s c) q chunks))"
    if c: "c \<in> {99, 100, 115, 117, 120}" and w: "w < 2 ^ 31"
      and run: "\<And>p. p = (fresh u q)\<lparr>padc := (if z then 48 else 32), fwidth := int w\<rparr> \<Longrightarrow>
        \<exists>b. convert d c (a @ args) p = Some (args, runs d (replicate (w - length str) [padc p] @ [str]) (p\<lparr>base := b, unsig := u'\<rparr>))"
    for c w a z str u'
  proof -
    let ?p = "(fresh u q)\<lparr>padc := (if z then 48 else 32), fwidth := int w\<rparr>"
    let ?ch = "replicate (w - length str) [if z then 48 else 32] @ [str]"
    obtain b where b: "convert d c (a @ args) ?p = Some (args, runs d ?ch (?p\<lparr>base := b, unsig := u'\<rparr>))"
      using run [OF refl] by auto
    have "printf_loop d (37 # flags z w @ c # rest) False (a @ args) (fresh u q)
        = printf_loop d rest False args (restore_state (runs d ?ch (?p\<lparr>base := b, unsig := u'\<rparr>)))"
      using loop_flags [OF w conv_char(1,2) [OF c], where d = d and r = rest and z = z and args = "a @ args" and u = u and q = q] conv_char(3,4) [OF c] b
      by (simp add: printf_loop.simps(2) [of d 37] printf_loop.simps(2) [of d c])
    also have "restore_state (runs d ?ch (?p\<lparr>base := b, unsig := u'\<rparr>)) = fresh u' (foldl (\<lambda>c s. emit_to d s c) q ?ch)"
      using restore_runs [where d = d and chunks = ?ch and u = u and c = q and b = b and w = "int w"
          and z = "if z then 48 else 32" and u' = u'] by (simp add: fresh_def)
    finally have r: "printf_loop d (37 # flags z w @ c # rest) False (a @ args) (fresh u q) =
        printf_loop d rest False args (fresh u' (foldl (\<lambda>c s. emit_to d s c) q ?ch))" .
    show ?thesis by (rule exI [of _ ?ch], rule conjI) (simp only: concat_padded padded_def, rule r)
  qed
  have int: "convert d c (IntArg v # args) p = Some (args, runs d (replicate (w - length str) [padc p] @ [str]) (p\<lparr>base := b, unsig := u'\<rparr>))"
    if "p = (fresh u q)\<lparr>padc := y, fwidth := int w\<rparr>"
      "convert d c (IntArg v # args) p = with_int (IntArg v # args) (\<lambda>v. fmt_int d v (p\<lparr>base := b, unsig := u'\<rparr>))"
      "(if u' then utoa v b else itoa (sint v) b) = Some str" for c v p y w b u' str
  proof -
    have "fmt_int d v (p\<lparr>base := b, unsig := u'\<rparr>) = Some (runs d (replicate (w - length str) [padc p] @ [str]) (p\<lparr>base := b, unsig := u'\<rparr>))"
      using fmt_int_runs [of "p\<lparr>base := b, unsig := u'\<rparr>" v str d] that(3) unfolding that(1)
      by (simp add: fresh_def cong: if_cong)
    then show ?thesis unfolding that(2) with_int_def by simp
  qed
  show ?thesis
  proof (cases pc)
    case (Lit s)
    have "37 \<notin> set s \<Longrightarrow> printf_loop d (s @ rest) False args (fresh u q)
        = printf_loop d rest False args (fresh u (foldl (\<lambda>c s. emit_to d s c) q (map (\<lambda>c. [c]) s)))"
    proof (induction s arbitrary: q)
      case (Cons c s)
      have "emit d [c] (fresh u q) = fresh u (emit_to d [c] q)"
        by (cases q) (simp add: emit_def fresh_def split: prod.split)
      then show ?case using Cons by (simp add: printf_loop.simps(2))
    qed simp
    moreover have "concat (map (\<lambda>c. [c]) s) = s" by (induction s) simp_all
    ultimately show ?thesis using assms unfolding Lit
      by (intro exI [of _ "map (\<lambda>c. [c]) s"]) simp
  next
    case (Dec z w v)
    let ?t = "if u then numeral_text 10 (unat v) else int_text (sint v)"
    have "sint v < 2 ^ 31" "- (2 ^ 31) \<le> sint v" using sint_lt [of v] sint_ge [of v] by simp_all
    then have "(if u then utoa v 10 else itoa (sint v) 10) = Some ?t"
      using utoa_text [of 10 v] itoa_text [of 10 "sint v"] assms by (auto simp: Dec int_text_def)
    then have "\<exists>b. convert d 100 ([IntArg v] @ args) p = Some (args, runs d (replicate (w - length ?t) [padc p] @ [?t]) (p\<lparr>base := b, unsig := u\<rparr>))"
      if "p = (fresh u q)\<lparr>padc := (if z then 48 else 32), fwidth := int w\<rparr>" for p
      unfolding append_Cons append_Nil by (intro exI int [OF that]) (simp_all add: convert_def that fresh_def)
    from conv [OF _ _ this] show ?thesis using assms unfolding Dec by simp
  next
    case (Uns z w v)
    let ?t = "numeral_text 10 (unat v)"
    have "(if True then utoa v 10 else itoa (sint v) 10) = Some ?t" using utoa_text [of 10 v] by simp
    then have "\<exists>b. convert d 117 ([IntArg v] @ args) p = Some (args, runs d (replicate (w - length ?t) [padc p] @ [?t]) (p\<lparr>base := b, unsig := True\<rparr>))"
      if "p = (fresh u q)\<lparr>padc := (if z then 48 else 32), fwidth := int w\<rparr>" for p
      unfolding append_Cons append_Nil by (intro exI int [OF that]) (simp_all add: convert_def that fresh_def)
    from conv [OF _ _ this] show ?thesis using assms unfolding Uns by simp
  next
    case (Hex z w v)
    let ?t = "numeral_text 16 (unat v)"
    have "(if True then utoa v 16 else itoa (sint v) 16) = Some ?t" using utoa_text [of 16 v] by simp
    then have "\<exists>b. convert d 120 ([IntArg v] @ args) p = Some (args, runs d (replicate (w - length ?t) [padc p] @ [?t]) (p\<lparr>base := b, unsig := True\<rparr>))"
      if "p = (fresh u q)\<lparr>padc := (if z then 48 else 32), fwidth := int w\<rparr>" for p
      unfolding append_Cons append_Nil by (intro exI int [OF that]) (simp_all add: convert_def that fresh_def)
    from conv [OF _ _ this] show ?thesis using assms unfolding Hex by simp
  next
    case (Str z w s)
    have "\<exists>b. convert d 115 ([StrArg s] @ args) p = Some (args, runs d (replicate (w - length s) [padc p] @ [s]) (p\<lparr>base := b, unsig := u\<rparr>))"
      if "p = (fresh u q)\<lparr>padc := (if z then 48 else 32), fwidth := int w\<rparr>" for p
      by (intro exI [of _ 10]) (simp add: convert_def that fmt_str_runs fresh_def)
    from conv [OF _ _ this] show ?thesis using assms unfolding Str by simp
  next
    case (Chr v)
    have "\<exists>b. convert d 99 ([IntArg v] @ args) p = Some (args, runs d (replicate (0 - length [ucast v]) [padc p] @ [[ucast v]]) (p\<lparr>base := b, unsig := u\<rparr>))"
      if "p = (fresh u q)\<lparr>padc := (if False then 48 else 32), fwidth := int 0\<rparr>" for p
      by (intro exI [of _ 10]) (simp add: convert_def that with_int_def fresh_def)
    from conv [where z = False, OF _ _ this] show ?thesis unfolding Chr by (simp add: flags_def padded_def)
  qed
qed

lemma intern_printf_pieces:
  assumes "\<forall>pc \<in> set ps. good_piece pc"
  shows "\<exists>chunks. concat chunks = render False ps \<and>
    intern_printf d (concat (map piece_fmt ps)) (concat (map piece_args ps)) s = Some (foldl (\<lambda>c s. emit_to d s c) (0, s) chunks)"
proof -
  have "\<exists>chunks u'. concat chunks = render u ps \<and>
    printf_loop d (concat (map piece_fmt ps)) False (concat (map piece_args ps)) (fresh u q)
      = Some (fresh u' (foldl (\<lambda>c s. emit_to d s c) q chunks))" for u q
    using assms
  proof (induction ps arbitrary: u q)
    case Nil
    show ?case by (rule exI [of _ "[]"], rule exI [of _ u]) simp
  next
    case (Cons pc ps)
    then obtain c1 where c1: "concat c1 = piece_text u pc"
      "printf_loop d (piece_fmt pc @ concat (map piece_fmt ps)) False (piece_args pc @ concat (map piece_args ps)) (fresh u q)
       = printf_loop d (concat (map piece_fmt ps)) False (concat (map piece_args ps)) (fresh (u \<or> piece_unsig pc) (foldl (\<lambda>c s. emit_to d s c) q c1))"
      using loop_piece [of pc u d "concat (map piece_fmt ps)" "concat (map piece_args ps)" q] by auto
    obtain c2 u' where c2: "concat c2 = render (u \<or> piece_unsig pc) ps"
      "printf_loop d (concat (map piece_fmt ps)) False (concat (map piece_args ps)) (fresh (u \<or> piece_unsig pc) (foldl (\<lambda>c s. emit_to d s c) q c1))
       = Some (fresh u' (foldl (\<lambda>c s. emit_to d s c) (foldl (\<lambda>c s. emit_to d s c) q c1) c2))"
      using Cons.IH [of "u \<or> piece_unsig pc" "foldl (\<lambda>c s. emit_to d s c) q c1"] Cons.prems by auto
    show ?case using c1 c2 by (intro exI [of _ "c1 @ c2"] exI [of _ u']) simp
  qed
  from this [of False "(0, s)"] show ?thesis
    unfolding intern_printf_def fresh_def by auto
qed

lemma con_chunks:
  "foldl (\<lambda>c s. emit_to (OUT_DEF, 0, 0) s c) (n, s) chunks
    = (n + length (concat chunks), s\<lparr>s_con := s_con s @ concat chunks\<rparr>)"
  by (induction chunks arbitrary: n s) (simp_all add: emit_to_def bwrite_def)

lemma printf_pieces:
  assumes "\<forall>pc \<in> set ps. good_piece pc"
  shows "printf (concat (map piece_fmt ps)) (concat (map piece_args ps)) s
    = Some (length (render False ps), s\<lparr>s_con := s_con s @ render False ps\<rparr>)"
  using intern_printf_pieces [OF assms, of "(OUT_DEF, 0, 0)" s] by (auto simp: printf_def con_chunks)


abbreviation no_output :: sink where
  "no_output \<equiv> \<lparr>s_con = [], s_ser = [], s_mem = (\<lambda>_. 0)\<rparr>"


section \<open>Text in memory\<close>

lemma put_bytes_apply:
  "length s \<le> 2 ^ 32 \<Longrightarrow> put_bytes m a s x = (if unat (x - a) < length s then s ! unat (x - a) else m x)"
proof (induction s arbitrary: m a)
  case (Cons c s)
  have IH: "put_bytes (m(a := c)) (a + 1) s x = (if unat (x - (a + 1)) < length s then s ! unat (x - (a + 1)) else (m(a := c)) x)"
    using Cons.prems by (intro Cons.IH) simp
  show ?case
  proof (cases "x = a")
    case True
    have "unat (x - (a + 1)) = 2 ^ 32 - 1" using True by (simp add: unsigned_minus_1_eq_mask mask_eq_exp_minus_1)
    then show ?thesis using IH True Cons.prems by simp
  next
    case False
    have "x - a \<noteq> 0" using False by simp
    then have "0 < unat (x - a)" by (simp add: unat_gt_0)
    then have "unat (x - a) = Suc (unat (x - (a + 1)))"
      using unat_minus_one [OF \<open>x - a \<noteq> 0\<close>] by (simp add: diff_diff_eq)
    then show ?thesis using IH False by simp
  qed
qed simp

lemma unat_sub_of_nat:
  fixes y :: u32
  assumes "k < 2 ^ 32"
  shows "unat (y - of_nat k) = (if k \<le> unat y then unat y - k else unat y + 2 ^ 32 - k)"
proof -
  have k: "unat (of_nat k :: u32) = k" using assms by (simp add: take_bit_nat_eq_self unat_of_nat)
  have y: "unat y < 2 ^ 32" using unat_u32_less [of y] by simp
  show ?thesis using k y assms by (simp add: unat_sub_if' word_le_nat_alt)
qed

text \<open>The bytes of a text at \<open>a\<close> with a zero behind it.\<close>

definition text_at :: "ram \<Rightarrow> u32 \<Rightarrow> cstring \<Rightarrow> ram" where
  "text_at m a s = (\<lambda>x. if unat (x - a) < length s then s ! unat (x - a)
     else if unat (x - a) = length s then 0 else m x)"

lemma text_at_append:
  assumes "length s + length t < 2 ^ 32"
  shows "text_at (text_at m a s) (a + of_nat (length s)) t = text_at m a (s @ t)"
proof
  fix x
  define i j where "i = unat (x - a)" and "j = unat (x - (a + of_nat (length s)))"
  have e: "x - (a + of_nat (length s)) = (x - a) - of_nat (length s)" by simp
  have j: "j = (if length s \<le> i then i - length s else i + 2 ^ 32 - length s)"
    unfolding i_def j_def e by (rule unat_sub_of_nat) (use assms in simp)
  show "text_at (text_at m a s) (a + of_nat (length s)) t x = text_at m a (s @ t) x"
  proof (cases "length s \<le> i")
    case True
    then have "j = i - length s" using j by simp
    then show ?thesis using True unfolding text_at_def i_def [symmetric] j_def [symmetric]
      by (auto simp: nth_append)
  next
    case False
    then have "length t < j" using j assms by simp
    then show ?thesis using False unfolding text_at_def i_def [symmetric] j_def [symmetric]
      by (simp add: nth_append)
  qed
qed

lemma bwrite_text:
  assumes "length str < 2 ^ 32" "buf_sz = 0 \<or> length str < unat buf_sz \<or> length str = unat buf_sz"
  shows "bwrite OUT_BUF buf buf_sz str s = s\<lparr>s_mem := text_at (s_mem s) buf str\<rparr>"
proof -
  have sz: "(if buf_sz \<noteq> 0 \<and> unat buf_sz \<le> length str then unat buf_sz else length str) = length str"
    using assms(2) by (cases "buf_sz = 0") auto
  have "put_bytes ((s_mem s)(buf + of_nat (length str) := 0)) buf str = text_at (s_mem s) buf str"
  proof
    fix x
    have "x = buf + of_nat (length str) \<longleftrightarrow> unat (x - buf) = length str"
    proof
      assume "unat (x - buf) = length str"
      moreover have "x - buf = of_nat (unat (x - buf))" by simp
      ultimately have "x - buf = of_nat (length str)" by (simp only:)
      then show "x = buf + of_nat (length str)" by (simp add: algebra_simps)
    qed (use assms(1) in \<open>simp add: unat_of_nat take_bit_nat_eq_self\<close>)
    then show "put_bytes ((s_mem s)(buf + of_nat (length str) := 0)) buf str x = text_at (s_mem s) buf str x"
      using assms(1) by (simp add: put_bytes_apply text_at_def)
  qed
  then show ?thesis unfolding bwrite_def Let_def sz by simp
qed

lemma mem_chunks:
  assumes "buf \<noteq> 0" "n + length (concat chunks) < 2 ^ 32" "n = length pre" "s_mem s = (if pre = [] \<and> \<not> w then m else text_at m buf pre)"
  shows "foldl (\<lambda>c s. emit_to (OUT_BUF, buf, 0) s c) (n, s) chunks = (n + length (concat chunks),
    s\<lparr>s_mem := if pre = [] \<and> \<not> w \<and> chunks = [] then m else text_at m buf (pre @ concat chunks)\<rparr>)"
  using assms(2-4)
proof (induction chunks arbitrary: n s pre w)
  case Nil
  then show ?case by (cases s) simp
next
  case (Cons c chunks)
  have "text_at (s_mem s) (buf + of_nat n) c = text_at m buf (pre @ c)"
  proof (cases "pre = [] \<and> \<not> w")
    case True
    then show ?thesis using Cons.prems by simp
  next
    case False
    then show ?thesis using Cons.prems text_at_append [of pre c m buf] by auto
  qed
  then have one: "emit_to (OUT_BUF, buf, 0) c (n, s) = (n + length c, s\<lparr>s_mem := text_at m buf (pre @ c)\<rparr>)"
    using Cons.prems(1) assms(1) bwrite_text [of c 0] by (simp add: emit_to_def)
  have "foldl (\<lambda>c s. emit_to (OUT_BUF, buf, 0) s c) (n + length c, s\<lparr>s_mem := text_at m buf (pre @ c)\<rparr>) chunks
    = (n + length c + length (concat chunks), (s\<lparr>s_mem := text_at m buf (pre @ c)\<rparr>)
      \<lparr>s_mem := if pre @ c = [] \<and> \<not> True \<and> chunks = [] then m else text_at m buf ((pre @ c) @ concat chunks)\<rparr>)"
    using Cons.prems(1,2) by (intro Cons.IH) simp_all
  then show ?case using one by simp
qed

text \<open>\<open>sprintf\<close> leaves the same text in memory, with a zero behind it and nothing else
  changed, as long as there is any text: an empty result does not terminate the string.\<close>

theorem sprintf_renders:
  assumes "\<forall>pc \<in> set ps. good_piece pc" "buf \<noteq> 0" "render False ps \<noteq> []" "length (render False ps) < 2 ^ 32"
  shows "sprintf buf (concat (map piece_fmt ps)) (concat (map piece_args ps)) s
    = Some (length (render False ps), s\<lparr>s_mem := text_at (s_mem s) buf (render False ps)\<rparr>)
    \<and> sprintf buf [] [] s = Some (0, s)"
proof -
  obtain chunks where c: "concat chunks = render False ps"
    "intern_printf (OUT_BUF, buf, 0) (concat (map piece_fmt ps)) (concat (map piece_args ps)) s
      = Some (foldl (\<lambda>c s. emit_to (OUT_BUF, buf, 0) s c) (0, s) chunks)"
    using intern_printf_pieces [OF assms(1)] by blast
  have "chunks \<noteq> []" using c(1) assms(3) by auto
  then show ?thesis
    using mem_chunks [of buf 0 chunks "[]" s False "s_mem s"] c assms(2,4)
    by (simp add: sprintf_def) (simp add: intern_printf_def)
qed

theorem sprintf_renders_witness:
  "sprintf 0x1000 [120, 61, 37, 99] [IntArg 65] no_output
    = Some (3, no_output\<lparr>s_mem := text_at (\<lambda>_. 0) 0x1000 [120, 61, 65]\<rparr>)"
  using sprintf_renders [of "[Lit [120, 61], Chr 65]" "0x1000" no_output] by simp

text \<open>The size given to \<open>snprintf\<close> has no effect on the text of a format: each character
  is written on its own, and when no room is left the limit has become zero, which means
  none. All of the text and the zero behind it are written, however small the buffer is.\<close>

theorem snprintf_no_limit:
  assumes "37 \<notin> set fmt" "length fmt < 2 ^ 32"
  shows "snprintf buf sz fmt [] s = sprintf buf fmt [] s"
proof -
  have same: "bwrite OUT_BUF b z [c] s = bwrite OUT_BUF b 0 [c] s" for b z c s
  proof -
    have "unat z = 0 \<or> length [c] < unat z \<or> length [c] = unat z" by auto
    then have "z = 0 \<or> length [c] < unat z \<or> length [c] = unat z" by (simp add: unat_eq_0)
    then show ?thesis using bwrite_text [of "[c]" z b s] bwrite_text [of "[c]" 0 b s] by simp
  qed
  have emit: "emit (OUT_BUF, buf, sz) [c] p = emit (OUT_BUF, buf, 0) [c] p" for c p
    unfolding emit_def emit_to_def by (simp add: same [of _ "sz - _"] same [of _ sz])
  have "printf_loop (OUT_BUF, buf, sz) fmt False [] p = printf_loop (OUT_BUF, buf, 0) fmt False [] p" for p
    using assms(1) by (induction fmt arbitrary: p) (simp_all add: printf_loop.simps(2) emit)
  then show ?thesis by (simp add: snprintf_def sprintf_def intern_printf_def)
qed

theorem snprintf_no_limit_witness:
  "snprintf 0x1000 2 [97, 98, 99, 100] [] no_output = sprintf 0x1000 [97, 98, 99, 100] [] no_output"
  using snprintf_no_limit [of "[97, 98, 99, 100]" "0x1000" 2 no_output] by simp

end
