(* ===== verification/Paths.thy ===== *)
theory Paths
  imports Cstring
begin

text \<open>
  Path components (\<open>fs_path_skipsep\<close> and \<open>fs_path_next\<close> of \<open>src/fs.c\<close>), shared by the file
  systems and by \<open>opendir\<close> and friends. Slashes are byte 47.
\<close>

definition fs_path_skipsep :: "cstring \<Rightarrow> cstring" where
  "fs_path_skipsep s = dropWhile (\<lambda>c. c = 47) s"

text \<open>The name is cut to fit its buffer of \<open>bufsz\<close> bytes with the terminating zero.\<close>

definition fs_path_next :: "cstring \<Rightarrow> int \<Rightarrow> cstring \<times> cstring" where
  "fs_path_next s bufsz = (
     let s = fs_path_skipsep s;
         comp = takeWhile (\<lambda>c. c \<noteq> 47) s;
         ptr = dropWhile (\<lambda>c. c \<noteq> 47) s;
         len = (if bufsz \<le> int (length comp) then bufsz - 1 else int (length comp))
     in (take (nat len) comp, fs_path_skipsep ptr))"

lemma skipsep_simps [simp]: "fs_path_skipsep [] = []" "fs_path_skipsep (47 # s) = fs_path_skipsep s"
  "c \<noteq> 47 \<Longrightarrow> fs_path_skipsep (c # s) = c # s"
  by (simp_all add: fs_path_skipsep_def)

lemma skipsep_length: "length (fs_path_skipsep s) \<le> length s"
  by (simp add: fs_path_skipsep_def length_dropWhile_le)

lemma skipsep_hd: "fs_path_skipsep s = c # t \<Longrightarrow> c \<noteq> 47"
  unfolding fs_path_skipsep_def using hd_dropWhile [of "\<lambda>c. c = 47" s] by auto

lemma path_next_shorter:
  assumes "s \<noteq> []"
  shows "length (snd (fs_path_next s n)) < length s"
proof -
  let ?s = "fs_path_skipsep s"
  have le: "length (fs_path_skipsep (dropWhile (\<lambda>c. c \<noteq> 47) ?s)) \<le> length (dropWhile (\<lambda>c. c \<noteq> 47) ?s)"
    by (rule skipsep_length)
  show ?thesis
  proof (cases ?s)
    case Nil
    then show ?thesis using assms by (simp add: fs_path_next_def Let_def)
  next
    case (Cons c t)
    then have "c \<noteq> 47" by (rule skipsep_hd)
    then have "length (dropWhile (\<lambda>c. c \<noteq> 47) ?s) \<le> length t"
      using Cons by (simp add: length_dropWhile_le)
    moreover have "length ?s \<le> length s" by (rule skipsep_length)
    ultimately show ?thesis using le Cons by (simp add: fs_path_next_def Let_def)
  qed
qed

text \<open>The components of a path, as the walks of the file systems see them.\<close>

function path_split :: "cstring \<Rightarrow> int \<Rightarrow> cstring list" where
  "path_split s n = (if s = [] then [] else fst (fs_path_next s n) # path_split (snd (fs_path_next s n)) n)"
  by auto
termination by (relation "measure (length \<circ> fst)") (simp_all add: path_next_shorter)

declare path_split.simps [simp del]

fun path_join :: "cstring list \<Rightarrow> cstring" where
  "path_join [] = []"
| "path_join [c] = c"
| "path_join (c # cs) = c @ 47 # path_join cs"

definition component :: "int \<Rightarrow> cstring \<Rightarrow> bool" where
  "component n c \<longleftrightarrow> c \<noteq> [] \<and> 47 \<notin> set c \<and> 0 \<notin> set c \<and> int (length c) < n"

lemma path_next_component:
  assumes "component n c"
  shows "fs_path_next c n = (c, [])" "fs_path_next (c @ 47 # r) n = (c, fs_path_skipsep r)"
proof -
  have c: "c \<noteq> []" "47 \<notin> set c" "int (length c) < n" using assms by (simp_all add: component_def)
  have s: "fs_path_skipsep (c @ t) = c @ t" for t
    using c by (cases c) (simp_all add: fs_path_skipsep_def)
  have tw: "takeWhile (\<lambda>x. x \<noteq> 47) c = c" "dropWhile (\<lambda>x. x \<noteq> 47) c = []"
    "takeWhile (\<lambda>x. x \<noteq> 47) (c @ 47 # r) = c" "dropWhile (\<lambda>x. x \<noteq> 47) (c @ 47 # r) = 47 # r"
    using c(2) by (auto simp: takeWhile_eq_all_conv takeWhile_append dropWhile_append)
  show "fs_path_next c n = (c, [])"
    using s [of "[]"] tw c(3) by (simp add: fs_path_next_def Let_def del: takeWhile_eq_all_conv dropWhile_eq_Nil_conv)
  show "fs_path_next (c @ 47 # r) n = (c, fs_path_skipsep r)"
    using s [of "47 # r"] tw c(3) by (simp add: fs_path_next_def Let_def)
qed

text \<open>Splitting a path made of components separated by slashes, with or without slashes in
  front, gives back the components, when each fits the name buffer.\<close>

lemma split_join: "\<forall>c \<in> set cs. component n c \<Longrightarrow> path_split (path_join cs) n = cs"
proof (induction cs rule: path_join.induct)
  case (2 c)
  then have "c \<noteq> []" by (simp add: component_def)
  then show ?case using path_next_component(1) [of n c] 2
    by (subst path_split.simps) (simp add: path_split.simps)
next
  case (3 c d cs)
  have j: "fs_path_skipsep (path_join (d # cs)) = path_join (d # cs)"
  proof -
    obtain x t where d: "d = x # t" "x \<noteq> 47" using 3 by (cases d) (auto simp: component_def)
    then show ?thesis by (cases cs) (simp_all add: fs_path_skipsep_def)
  qed
  have "path_split (path_join (c # d # cs)) n = c # path_split (path_join (d # cs)) n"
    using path_next_component(2) [of n c "path_join (d # cs)"] 3 j
    by (subst path_split.simps) simp
  then show ?case using 3 by simp
qed (simp add: path_split.simps)

end
