(* ===== verification/Fat.thy ===== *)
theory Fat
  imports Paths
begin

text \<open>
  The FAT file system of \<open>src/fsfat.c\<close>: mounting, the file allocation table, cluster chains,
  directories with 8.3 and long names, and reading files. Sectors come from
  \<open>bdev_read_range\<close>, here the parameter \<open>rd\<close>: it maps a sector number and a count to the
  value it returns and the bytes it leaves in the buffer. Buffers and tables are byte
  lists; a read outside of one, and a copy of a negative number of bytes, which the C code
  would make of the memory around, is the value \<open>None\<close>. Heap allocations are taken
  to succeed, and the release of directories is not modelled.
\<close>

type_synonym reader = "u64 \<Rightarrow> int \<Rightarrow> int \<times> u8 list"

section \<open>On-disk structures\<close>

definition le16 :: "u8 list \<Rightarrow> nat \<Rightarrow> u16" where
  "le16 b i = ucast (b ! i) OR push_bit 8 (ucast (b ! (i + 1)))"

definition le32 :: "u8 list \<Rightarrow> nat \<Rightarrow> u32" where
  "le32 b i = ucast (b ! i) OR push_bit 8 (ucast (b ! (i + 1)))
     OR push_bit 16 (ucast (b ! (i + 2))) OR push_bit 24 (ucast (b ! (i + 3)))"

text \<open>\<open>struct bparam\<close>, 36 bytes at the start of the boot sector, and the FAT16 and FAT32
  extensions behind it.\<close>

definition bpb_jmp0 :: "u8 list \<Rightarrow> u8" where "bpb_jmp0 s = s ! 0"
definition bpb_jmp2 :: "u8 list \<Rightarrow> u8" where "bpb_jmp2 s = s ! 2"
definition bpb_sect_bytes :: "u8 list \<Rightarrow> u16" where "bpb_sect_bytes s = le16 s 11"
definition bpb_cluster_size :: "u8 list \<Rightarrow> u8" where "bpb_cluster_size s = s ! 13"
definition bpb_reserved_sect :: "u8 list \<Rightarrow> u16" where "bpb_reserved_sect s = le16 s 14"
definition bpb_num_fats :: "u8 list \<Rightarrow> u8" where "bpb_num_fats s = s ! 16"
definition bpb_num_dirent :: "u8 list \<Rightarrow> u16" where "bpb_num_dirent s = le16 s 17"
definition bpb_num_sectors :: "u8 list \<Rightarrow> u16" where "bpb_num_sectors s = le16 s 19"
definition bpb_fat_size :: "u8 list \<Rightarrow> u16" where "bpb_fat_size s = le16 s 22"
definition bpb_num_sectors32 :: "u8 list \<Rightarrow> u32" where "bpb_num_sectors32 s = le32 s 32"
definition bpb16_label :: "u8 list \<Rightarrow> u8 list" where "bpb16_label s = take 11 (drop 43 s)"
definition bpb32_fat_size :: "u8 list \<Rightarrow> u32" where "bpb32_fat_size s = le32 s 36"
definition bpb32_root_clust :: "u8 list \<Rightarrow> u32" where "bpb32_root_clust s = le32 s 44"
definition bpb32_label :: "u8 list \<Rightarrow> u8 list" where "bpb32_label s = take 11 (drop 71 s)"

text \<open>\<open>struct fat_dirent\<close> and \<open>struct fat_lfnent\<close>, 32 bytes each.\<close>

type_synonym fat_dirent = "u8 list"

definition dent_name :: "fat_dirent \<Rightarrow> u8 list" where "dent_name d = take 11 d"
definition dent_attr :: "fat_dirent \<Rightarrow> u8" where "dent_attr d = d ! 11"
definition dent_clust_high :: "fat_dirent \<Rightarrow> u16" where "dent_clust_high d = le16 d 20"
definition dent_clust_low :: "fat_dirent \<Rightarrow> u16" where "dent_clust_low d = le16 d 26"
definition dent_size :: "fat_dirent \<Rightarrow> u32" where "dent_size d = le32 d 28"
definition lfn_seq :: "fat_dirent \<Rightarrow> u8" where "lfn_seq d = d ! 0"

definition lfn_chars :: "fat_dirent \<Rightarrow> u16 list" where
  "lfn_chars d = map (le16 d) ([1, 3, 5, 7, 9] @ [14, 16, 18, 20, 22, 24] @ [28, 30])"

definition DIRENT_UNUSED :: u8 where "DIRENT_UNUSED = 0xe5"
definition DENT_IS_NULL :: "fat_dirent \<Rightarrow> bool" where "DENT_IS_NULL d \<longleftrightarrow> d ! 0 = 0"
definition DENT_IS_UNUSED :: "fat_dirent \<Rightarrow> bool" where "DENT_IS_UNUSED d \<longleftrightarrow> d ! 0 = DIRENT_UNUSED"
definition ATTR_VOLID :: u8 where "ATTR_VOLID = 0x08"
definition ATTR_DIR :: u8 where "ATTR_DIR = 0x10"
definition ATTR_LFN :: u8 where "ATTR_LFN = 0xf"
definition MAX_NAME :: int where "MAX_NAME = 195"

section \<open>State\<close>

datatype fat_type = FAT12 | FAT16 | FAT32 | EXFAT

record fatfs =
  ftype :: fat_type
  dev :: int
  start_sect :: u64
  nsect :: u32
  cluster_size :: int
  fat_size :: int
  fat_sect :: u32
  root_sect :: u32
  root_size :: int
  first_data_sect :: u32
  num_data_sect :: u32
  num_clusters :: u32
  label :: "u8 list"
  fat :: "u8 list"
  clust_mask :: u32
  clust_shift :: int

datatype fs_type = FSNODE_FILE | FSNODE_DIR

record fs_dirent =
  de_name :: cstring
  de_data :: fat_dirent
  de_type :: fs_type
  de_fsize :: u32

record fat_dir =
  ent :: "fat_dirent list"
  fsent :: "fs_dirent list"
  cur_ent :: int

record fat_file =
  f_ent :: fat_dirent
  first_clust :: int
  cur_pos :: int
  cur_clust :: int
  clustbuf :: "u8 list"
  buf_valid :: bool

section \<open>Reading the allocation table\<close>

definition read_fat :: "fatfs \<Rightarrow> u32 \<Rightarrow> u32 option" where
  "read_fat fs addr =
     (case ftype fs of
        FAT12 \<Rightarrow>
          let idx = addr + addr div 2
          in if 2 * unat idx + 2 \<le> length (fat fs) then
               let res = ucast (le16 (fat fs) (2 * unat idx)) :: u32
               in Some (if idx AND 1 \<noteq> 0 then drop_bit 4 res else res AND 0xfff)
             else None
      | FAT16 \<Rightarrow>
          if 2 * unat addr + 2 \<le> length (fat fs) then Some (ucast (le16 (fat fs) (2 * unat addr))) else None
      | _ \<Rightarrow>
          if 4 * unat addr + 4 \<le> length (fat fs) then Some (le32 (fat fs) (4 * unat addr)) else None)"

definition next_cluster :: "fatfs \<Rightarrow> int \<Rightarrow> int option" where
  "next_cluster fs addr =
     (case read_fat fs (word_of_int addr) of
        None \<Rightarrow> None
      | Some fatval \<Rightarrow>
          if fatval = 0 then Some (-1)
          else if (case ftype fs of FAT12 \<Rightarrow> 0xff8 \<le> fatval | FAT16 \<Rightarrow> 0xfff8 \<le> fatval
                   | _ \<Rightarrow> 0xffffff8 \<le> fatval)
          then Some (-1) else Some (sint fatval))"

fun find_cluster :: "fatfs \<Rightarrow> nat \<Rightarrow> int \<Rightarrow> int option" where
  "find_cluster fs 0 clust = Some clust"
| "find_cluster fs (Suc count) clust =
     (case next_cluster fs clust of
        None \<Rightarrow> None
      | Some clust \<Rightarrow> if 0 \<le> clust then find_cluster fs count clust else Some clust)"

section \<open>Sectors and clusters\<close>

definition read_sectors :: "reader \<Rightarrow> int \<Rightarrow> int \<Rightarrow> u64 \<Rightarrow> int \<Rightarrow> int \<times> u8 list" where
  "read_sectors rd boot_drive d sidx count =
     (if d = -1 \<or> d = boot_drive then
        (case rd sidx count of (r, b) \<Rightarrow> if r = -1 then (-1, b) else (0, b))
      else (-1, []))"

definition cluster_sector :: "fatfs \<Rightarrow> u32 \<Rightarrow> u64" where
  "cluster_sector fs addr =
     ucast (addr - 2) * word_of_int (cluster_size fs) + ucast (first_data_sect fs) + start_sect fs"

definition read_cluster :: "reader \<Rightarrow> int \<Rightarrow> fatfs \<Rightarrow> int \<Rightarrow> int \<times> u8 list" where
  "read_cluster rd bd fs addr =
     (case read_sectors rd bd (dev fs) (cluster_sector fs (word_of_int addr)) (cluster_size fs) of
        (r, b) \<Rightarrow> (if r = -1 then -1 else 0, b))"

text \<open>The loops of \<open>fsfat_create\<close> that read \<open>ntotal\<close> sectors, at most \<open>maxc\<close> at a time.\<close>

partial_function (option) read_chunks :: "reader \<Rightarrow> int \<Rightarrow> int \<Rightarrow> u64 \<Rightarrow> int \<Rightarrow> int \<Rightarrow> int \<Rightarrow> u8 list \<Rightarrow> u8 list option" where
  "read_chunks rd bd d first ntotal maxc num_read buf =
     (if num_read < ntotal then
        let count = (if ntotal - num_read > maxc then maxc else ntotal - num_read);
            b = snd (read_sectors rd bd d (first + word_of_int num_read) count)
        in read_chunks rd bd d first ntotal maxc (num_read + count) (buf @ b)
      else Some buf)"

declare read_chunks.simps [code]

section \<open>Directories\<close>

text \<open>\<open>clean_trailws\<close> cuts white space off the end.\<close>

definition clean_trailws :: "cstring \<Rightarrow> cstring" where
  "clean_trailws s = rev (dropWhile (\<lambda>c. isspace (sint c)) (rev s))"

definition until_nul :: "u8 list \<Rightarrow> cstring" where
  "until_nul b = takeWhile (\<lambda>c. c \<noteq> 0) b"

text \<open>The characters an LFN entry adds to the name, and whether the name ends in it: 13
  UTF-16 units up to a zero, of each the low byte.\<close>

definition lfn_part :: "fat_dirent \<Rightarrow> cstring" where
  "lfn_part d = map ucast (takeWhile (\<lambda>u. u \<noteq> 0) (lfn_chars d))"

definition lfn_last :: "fat_dirent \<Rightarrow> bool" where
  "lfn_last d \<longleftrightarrow> length (lfn_part d) < 13 \<or> lfn_seq d AND 0xf0 = 0x40"

text \<open>The loop over the entries in front of entry \<open>i\<close>, down to but not including \<open>prev\<close>.\<close>

fun lfn_loop :: "fat_dirent list \<Rightarrow> int \<Rightarrow> nat \<Rightarrow> cstring \<Rightarrow> cstring" where
  "lfn_loop es prev i buf =
     (let buf = buf @ lfn_part (es ! i)
      in if lfn_last (es ! i) then buf
         else case i of
             0 \<Rightarrow> buf
           | Suc j \<Rightarrow> if prev < int j \<and> dent_attr (es ! j) = ATTR_LFN then lfn_loop es prev j buf else buf)"

declare lfn_loop.simps [simp del]

definition name83 :: "fat_dirent \<Rightarrow> cstring" where
  "name83 d = (
     let buf = clean_trailws (until_nul (take 8 (dent_name d)))
     in if buf = [] then []
        else if dent_name d ! 8 \<noteq> 0 \<and> dent_name d ! 8 \<noteq> 32 then
          buf @ [46] @ clean_trailws (until_nul (drop 8 (dent_name d)))
        else buf)"

text \<open>The name of entry \<open>i\<close>; \<open>prev\<close> is the index of the last entry before it that is not an LFN
  entry, -1 at first. A null pointer to the name and length 0 go together.\<close>

definition dent_filename :: "fat_dirent list \<Rightarrow> nat \<Rightarrow> int \<Rightarrow> cstring" where
  "dent_filename es i prev =
     (if prev < int i - 1 \<and> dent_attr (es ! (i - 1)) = ATTR_LFN then lfn_loop es prev (i - 1) []
      else name83 (es ! i))"

text \<open>A name that does not fit the 195 bytes of \<open>entname\<close> is written past its end. The
  copy of the name ends at the first zero, which a character of a long name can have as its low byte.\<close>

fun parse_loop :: "fat_dirent list \<Rightarrow> nat \<Rightarrow> nat \<Rightarrow> int \<Rightarrow> fs_dirent list option" where
  "parse_loop es i 0 prev = Some []"
| "parse_loop es i (Suc n) prev =
     (let dent = es ! i;
          prev' = (if dent_attr dent \<noteq> ATTR_LFN then int i else prev)
      in if DENT_IS_NULL dent then Some []
         else if \<not> DENT_IS_UNUSED dent \<and> dent_attr dent \<noteq> ATTR_VOLID \<and> dent_attr dent \<noteq> ATTR_LFN then
           let name = dent_filename es i prev
           in if MAX_NAME \<le> int (length name) then None
              else if 0 < length name then
                map_option (\<lambda>r. \<lparr>de_name = until_nul name, de_data = dent,
                    de_type = (if dent_attr dent AND ATTR_DIR \<noteq> 0 then FSNODE_DIR else FSNODE_FILE),
                    de_fsize = dent_size dent\<rparr> # r)
                  (parse_loop es (i + 1) n prev')
              else parse_loop es (i + 1) n prev'
         else parse_loop es (i + 1) n prev')"

fun chunks32 :: "nat \<Rightarrow> u8 list \<Rightarrow> fat_dirent list" where
  "chunks32 0 b = []"
| "chunks32 (Suc n) b = take 32 b # chunks32 n (drop 32 b)"

definition parse_dir_entries :: "fat_dirent list \<Rightarrow> fat_dir option" where
  "parse_dir_entries es =
     map_option (\<lambda>fe. \<lparr>ent = es, fsent = fe, cur_ent = 0\<rparr>) (parse_loop es 0 (length es) (-1))"

text \<open>\<open>load_dir\<close> reads the clusters of the directory: the outer option is a loop that does not
  end or a read outside the table, \<open>Some None\<close> the null pointer it returns.\<close>

partial_function (option) load_clusters :: "reader \<Rightarrow> int \<Rightarrow> fatfs \<Rightarrow> int \<Rightarrow> u8 list \<Rightarrow> u8 list option option" where
  "load_clusters rd bd fs addr buf =
     (case read_cluster rd bd fs addr of
        (r, b) \<Rightarrow>
          if r = -1 then Some None
          else case next_cluster fs addr of
              None \<Rightarrow> None
            | Some addr' \<Rightarrow>
                if 0 \<le> addr' then load_clusters rd bd fs addr' (buf @ b) else Some (Some (buf @ b)))"

declare load_clusters.simps [code]

definition dent_cluster :: "fatfs \<Rightarrow> fat_dirent \<Rightarrow> int" where
  "dent_cluster fs d =
     (let low = ucast (dent_clust_low d) :: u32
      in sint (if ftype fs = FAT32 \<or> ftype fs = EXFAT then low OR push_bit 16 (ucast (dent_clust_high d)) else low))"

definition load_dir :: "reader \<Rightarrow> int \<Rightarrow> fatfs \<Rightarrow> fat_dirent \<Rightarrow> fat_dir option option" where
  "load_dir rd bd fs d =
     (if dent_attr d AND ATTR_DIR = 0 then Some None
      else case load_clusters rd bd fs (dent_cluster fs d) [] of
          None \<Rightarrow> None
        | Some None \<Rightarrow> Some None
        | Some (Some buf) \<Rightarrow> map_option Some (parse_dir_entries (chunks32 (length buf div 32) buf)))"

definition find_entry :: "fat_dir \<Rightarrow> cstring \<Rightarrow> fs_dirent option" where
  "find_entry dir name = find (\<lambda>e. strcasecmp (de_name e) name = 0) (fsent dir)"

definition rewinddir :: "fat_dir \<Rightarrow> fat_dir" where "rewinddir d = d\<lparr>cur_ent := 0\<rparr>"

definition readdir :: "fat_dir \<Rightarrow> fs_dirent option \<times> fat_dir" where
  "readdir d =
     (if int (length (fsent d)) \<le> cur_ent d then (None, d)
      else (Some (fsent d ! nat (cur_ent d)), d\<lparr>cur_ent := cur_ent d + 1\<rparr>))"

section \<open>Mounting\<close>

definition fat_type_of :: "u32 \<Rightarrow> fat_type" where
  "fat_type_of n = (if n < 4085 then FAT12 else if n < 65525 then FAT16
     else if n < 268435445 then FAT32 else EXFAT)"

text \<open>The label without the white space at its end: \<open>*endp-- = 0\<close>, from its 11th byte down.\<close>

definition trim_label :: "u8 list \<Rightarrow> u8 list" where
  "trim_label l = (
     let body = take 11 l; keep = rev (dropWhile (\<lambda>c. isspace (sint c)) (rev body))
     in keep @ replicate (12 - length keep) 0)"

fun shift_for :: "nat \<Rightarrow> int \<Rightarrow> int \<Rightarrow> int" where
  "shift_for 0 sh n = sh"
| "shift_for (Suc k) sh n = (if 2 ^ nat sh < n then shift_for k (sh + 1) n else sh)"

definition max_sect_once :: "int \<Rightarrow> int" where
  "max_sect_once low_mem_buffer =
     (let m = c_div (0xa0000 - low_mem_buffer) 512 in if 127 < m then 127 else m)"

text \<open>The numbers \<open>fsfat_create\<close> takes from the boot sector \<open>sb\<close>; a cluster size of zero is a
  division by zero.\<close>

definition fat_params :: "int \<Rightarrow> int \<Rightarrow> u64 \<Rightarrow> u8 list \<Rightarrow> fatfs option" where
  "fat_params boot_drive d start sb = (
     let fsize = (if bpb_fat_size sb \<noteq> 0 then uint (bpb_fat_size sb) else sint (bpb32_fat_size sb));
         nfats = uint (bpb_num_fats sb);
         reserved = uint (bpb_reserved_sect sb);
         csz = uint (bpb_cluster_size sb);
         nsec = (if bpb_num_sectors sb \<noteq> 0 then ucast (bpb_num_sectors sb) else bpb_num_sectors32 sb);
         rsize = (uint (bpb_num_dirent sb) * 32 + 511) div 512;
         meta = reserved + nfats * fsize + rsize;
         ndata = nsec - word_of_int meta;
         ncl = ndata div word_of_int csz;
         ty = fat_type_of ncl;
         wide = (ty = FAT32 \<or> ty = EXFAT);
         lab = (if ty = FAT16 then bpb16_label sb @ [0] else if wide then bpb32_label sb @ [0] else replicate 12 0)
     in if csz = 0 then None
        else Some \<lparr>ftype = ty, dev = (if d < 0 then boot_drive else d), start_sect = start, nsect = nsec,
          cluster_size = csz, fat_size = fsize, fat_sect = ucast (bpb_reserved_sect sb),
          root_sect = (if wide then bpb32_root_clust sb div word_of_int csz
                       else ucast (bpb_reserved_sect sb) + word_of_int (fsize * nfats)),
          root_size = (if wide then 0 else rsize),
          first_data_sect = word_of_int meta, num_data_sect = ndata, num_clusters = ncl,
          label = trim_label lab, fat = [], clust_mask = 0, clust_shift = 0\<rparr>)"

definition root_dirent :: "u8 list \<Rightarrow> fat_dirent" where
  "root_dirent sb = replicate 11 0 @ [ATTR_DIR] @ replicate 8 0
     @ [sb ! 46, sb ! 47] @ replicate 4 0 @ [sb ! 44, sb ! 45] @ replicate 4 0"

text \<open>\<open>Some None\<close> when the device holds no FAT file system; otherwise the file system and its
  root directory, or the panic.\<close>

definition fsfat_create :: "reader \<Rightarrow> int \<Rightarrow> int \<Rightarrow> int \<Rightarrow> u64 \<Rightarrow> (fault + fatfs \<times> fat_dir) option option" where
  "fsfat_create rd bd low_mem_buffer d start = (
     let maxc = max_sect_once low_mem_buffer;
         (r, sb) = read_sectors rd bd d start 1
     in if r = -1 then Some None
        else if bpb_jmp0 sb \<noteq> 0xeb \<or> bpb_jmp2 sb \<noteq> 0x90 then Some None
        else if bpb_sect_bytes sb \<noteq> 512 then Some None
        else case fat_params bd d start sb of
            None \<Rightarrow> None
          | Some fs \<Rightarrow>
              (case read_chunks rd bd d (start_sect fs + ucast (fat_sect fs)) (fat_size fs) maxc 0 [] of
                 None \<Rightarrow> None
               | Some table \<Rightarrow>
                   let fs = fs\<lparr>fat := table\<rparr>;
                       root = (if ftype fs = FAT32 then load_dir rd bd fs (root_dirent sb)
                               else case read_chunks rd bd d (start_sect fs + ucast (root_sect fs)) (root_size fs) maxc 0 [] of
                                   None \<Rightarrow> None
                                 | Some buf \<Rightarrow> map_option Some
                                     (parse_dir_entries (chunks32 (nat (root_size fs) * 512 div 32) buf)))
                   in case root of
                        None \<Rightarrow> None
                      | Some None \<Rightarrow> Some (Some (Inl (Panic ''FAT: failed to load FAT32 root directory'')))
                      | Some (Some rootdir) \<Rightarrow>
                          Some (Some (Inr (fs\<lparr>clust_mask := word_of_int (cluster_size fs * 512 - 1),
                            clust_shift := shift_for 32 0 (cluster_size fs * 512)\<rparr>, rootdir)))))"

section \<open>Opening\<close>

datatype fat_node = FileNode fat_file | DirNode fat_dir

definition ENOENT :: int where "ENOENT = 8"
definition ENOTDIR :: int where "ENOTDIR = 12"
definition EPERM :: int where "EPERM = 11"

definition init_file :: "fat_dirent \<Rightarrow> fat_file" where
  "init_file d = (
     let fc = sint (ucast (dent_clust_low d) OR push_bit 16 (ucast (dent_clust_high d)) :: u32)
     in \<lparr>f_ent = d, first_clust = fc, cur_pos = 0, cur_clust = fc, clustbuf = [], buf_valid = False\<rparr>)"

text \<open>The walk: the directory reached, or none when the last component was a file, and the
  entry of the last component; or the null pointer with the \<open>errno\<close> it sets, if any.\<close>

datatype walk = Walked "fat_dir option" "fat_dirent option" | NoNode "int option"

function open_walk :: "reader \<Rightarrow> int \<Rightarrow> fatfs \<Rightarrow> fat_dir \<Rightarrow> fat_dir option \<Rightarrow> fat_dirent option \<Rightarrow> cstring \<Rightarrow> walk option" where
  "open_walk rd bd fs rootdir dir dent path =
     (if path = [] then Some (Walked dir dent)
      else case dir of
          None \<Rightarrow> Some (NoNode (Some ENOTDIR))
        | Some d \<Rightarrow>
            let name = fst (fs_path_next path MAX_NAME); rest = snd (fs_path_next path MAX_NAME)
            in if name = [46] then open_walk rd bd fs rootdir dir dent rest
               else case find_entry d name of
                   None \<Rightarrow> Some (NoNode (Some ENOENT))
                 | Some e \<Rightarrow>
                     let fe = de_data e
                     in if dent_clust_low fe OR dent_clust_high fe = 0 then
                          if dent_attr fe AND ATTR_DIR \<noteq> 0 then open_walk rd bd fs rootdir (Some rootdir) (Some fe) rest
                          else Some (NoNode None)
                        else if dent_attr fe AND ATTR_DIR \<noteq> 0 then
                          (case load_dir rd bd fs fe of
                             None \<Rightarrow> None
                           | Some newdir \<Rightarrow> open_walk rd bd fs rootdir newdir (Some fe) rest)
                        else open_walk rd bd fs rootdir None (Some fe) rest)"
  by auto
termination
  by (relation "measure (\<lambda>(rd, bd, fs, r, d, e, path). length path)") (simp_all add: path_next_shorter)

declare open_walk.simps [simp del]

text \<open>\<open>cwd\<close> is the directory of the current node, \<open>None\<close> when it is of another file system. A
  path that a component of which is a directory that cannot be read ends as if that were a file.\<close>

definition fat_open :: "reader \<Rightarrow> int \<Rightarrow> fatfs \<Rightarrow> fat_dir \<Rightarrow> fat_dir option \<Rightarrow> cstring \<Rightarrow> (int option + fat_node) option" where
  "fat_open rd bd fs rootdir cwd path = (
     let start = (if path \<noteq> [] \<and> hd path = 47 then Some (Some rootdir, fs_path_skipsep path)
                  else case cwd of None \<Rightarrow> None | Some d \<Rightarrow> Some (Some d, path))
     in case start of
          None \<Rightarrow> Some (Inl None)
        | Some (dir, path) \<Rightarrow>
            (case open_walk rd bd fs rootdir dir None path of
               None \<Rightarrow> None
             | Some (NoNode e) \<Rightarrow> Some (Inl e)
             | Some (Walked (Some d) _) \<Rightarrow> Some (Inr (DirNode (d\<lparr>cur_ent := 0\<rparr>)))
             | Some (Walked None (Some e)) \<Rightarrow> Some (Inr (FileNode (init_file e)))
             | Some (Walked None None) \<Rightarrow> None))"

section \<open>Files\<close>

definition fsize :: "fat_node \<Rightarrow> int" where
  "fsize n = (case n of FileNode f \<Rightarrow> sint (dent_size (f_ent f)) | DirNode _ \<Rightarrow> -1)"

datatype whence = FSSEEK_SET | FSSEEK_CUR | FSSEEK_END

text \<open>The cluster a position lies in, as an \<open>unsigned int\<close>.\<close>

definition clust_idx :: "fatfs \<Rightarrow> int \<Rightarrow> int" where
  "clust_idx fs pos = (pos div 2 ^ nat (clust_shift fs)) mod 2 ^ 32"

text \<open>A count is passed to \<open>find_cluster\<close> as an \<open>int\<close>. The size in \<open>FSSEEK_END\<close> is an unsigned
  number of 32 bits, and so is its sum with the offset.\<close>

definition int_count :: "int \<Rightarrow> nat" where
  "int_count n = nat (sint (word_of_int n :: u32))"

definition seek :: "fatfs \<Rightarrow> fat_file \<Rightarrow> int \<Rightarrow> whence \<Rightarrow> fat_file option" where
  "seek fs f offs whence = (
     let new_pos = (case whence of FSSEEK_SET \<Rightarrow> offs | FSSEEK_CUR \<Rightarrow> cur_pos f + offs
                    | FSSEEK_END \<Rightarrow> uint (dent_size (f_ent f) + word_of_int offs));
         new_pos = (if new_pos < 0 then 0 else new_pos);
         cur_idx = clust_idx fs (cur_pos f);
         new_idx = clust_idx fs new_pos;
         moved = (if new_idx = cur_idx then Some f
                  else map_option (\<lambda>c. f\<lparr>cur_clust := c, buf_valid := False\<rparr>)
                    (if new_idx < cur_idx then find_cluster fs (int_count new_idx) (first_clust f)
                     else find_cluster fs (int_count (new_idx - cur_idx)) (cur_clust f)))
     in map_option (\<lambda>f. f\<lparr>cur_pos := new_pos\<rparr>) moved)"

definition tell :: "fat_file \<Rightarrow> int" where "tell f = cur_pos f"

text \<open>The loop of \<open>read\<close>: the cluster buffer is filled when it is not valid, then the bytes from
  the position to the end of the cluster, of the request or of the file are copied.\<close>

definition fill_buf :: "reader \<Rightarrow> int \<Rightarrow> fatfs \<Rightarrow> fat_file \<Rightarrow> fat_file" where
  "fill_buf rd bd fs f =
     (if buf_valid f then f
      else f\<lparr>clustbuf := snd (read_cluster rd bd fs (cur_clust f)), buf_valid := True\<rparr>)"

definition clust_offs :: "fatfs \<Rightarrow> int \<Rightarrow> int" where
  "clust_offs fs pos = pos AND uint (clust_mask fs)"

definition copy_len :: "fatfs \<Rightarrow> fat_file \<Rightarrow> int \<Rightarrow> int" where
  "copy_len fs f rd_left = (
     let buf_left = cluster_size fs * 512 - clust_offs fs (cur_pos f);
         len = (if buf_left < rd_left then buf_left else rd_left)
     in if cur_pos f + len > uint (dent_size (f_ent f)) then uint (dent_size (f_ent f)) - cur_pos f else len)"

partial_function (option) read_loop ::
    "reader \<Rightarrow> int \<Rightarrow> fatfs \<Rightarrow> fat_file \<Rightarrow> int \<Rightarrow> int \<Rightarrow> int \<Rightarrow> u8 list \<Rightarrow> (int \<times> u8 list \<times> fat_file) option" where
  "read_loop rd bd fs f idx sz num_read out =
     (if num_read < sz then
        let f = fill_buf rd bd fs f;
            len = copy_len fs f (sz - num_read)
        in if len < 0 then None
           else
             let out = out @ take (nat len) (drop (nat (clust_offs fs (cur_pos f))) (clustbuf f));
                 num_read = num_read + len;
                 f = f\<lparr>cur_pos := cur_pos f + len\<rparr>
             in if cur_pos f \<ge> uint (dent_size (f_ent f)) then
                  Some (num_read, out, f\<lparr>cur_clust := -1, buf_valid := False\<rparr>)
                else
                  let new_idx = clust_idx fs (cur_pos f)
                  in if new_idx \<noteq> idx then
                       (case next_cluster fs (cur_clust f) of
                          None \<Rightarrow> None
                        | Some c \<Rightarrow>
                            let f = f\<lparr>buf_valid := False, cur_clust := c\<rparr>
                            in if c < 0 then Some (num_read, out, f)
                               else read_loop rd bd fs f new_idx sz num_read out)
                     else read_loop rd bd fs f idx sz num_read out
      else Some (num_read, out, f))"

declare read_loop.simps [code]

definition fat_read :: "reader \<Rightarrow> int \<Rightarrow> fatfs \<Rightarrow> fat_file \<Rightarrow> int \<Rightarrow> (int \<times> u8 list \<times> fat_file) option" where
  "fat_read rd bd fs f sz =
     (if sz < 0 then Some (-1, [], f)
      else if cur_clust f < 0 then Some (0, [], f)
      else read_loop rd bd fs f (clust_idx fs (cur_pos f)) sz 0 [])"

end
