(* ===== verification/Fat_Dirs.thy ===== *)
theory Fat_Dirs
  imports Fat
begin

text \<open>
  Directories of \<open>src/fsfat.c\<close>: what \<open>parse_dir_entries\<close> makes of a directory written in the
  format of the FAT specification, with long names in runs of 13 characters in front of
  the entry they belong to, and the reading of tables larger than the transfer buffer.
\<close>

section \<open>Writing long names\<close>

definition le_bytes :: "u16 \<Rightarrow> u8 list" where
  "le_bytes u = [ucast u, ucast (drop_bit 8 u)]"

definition lfn_units :: "cstring \<Rightarrow> u16 list" where
  "lfn_units part = (let u = map ucast part
     in if length u < 13 then u @ 0 # replicate (12 - length u) 0xffff else u)"

definition lfn_ent :: "u8 \<Rightarrow> cstring \<Rightarrow> fat_dirent" where
  "lfn_ent seq part = (let b = \<lambda>us. concat (map le_bytes us); u = lfn_units part
     in seq # b (take 5 u) @ [ATTR_LFN, 0, 0] @ b (take 6 (drop 5 u)) @ [0, 0] @ b (drop 11 u))"

text \<open>The entries of a name from the first 13 characters on; on disk they stand in reverse,
  the last one with bit 6 set in its number.\<close>

fun lfn_ents :: "nat \<Rightarrow> cstring \<Rightarrow> fat_dirent list" where
  "lfn_ents n name =
     (if length name \<le> 13 then [lfn_ent (of_nat n OR 0x40) name]
      else lfn_ent (of_nat n) (take 13 name) # lfn_ents (n + 1) (drop 13 name))"

declare lfn_ents.simps [simp del]

definition lfn_encode :: "cstring \<Rightarrow> fat_dirent list" where
  "lfn_encode name = rev (lfn_ents 1 name)"

section \<open>Reading them back\<close>

lemma le16_bytes: "ucast (ucast u :: u8) OR push_bit 8 (ucast (ucast (drop_bit 8 u) :: u8)) = (u :: u16)"
  by (rule bit_word_eqI) (auto simp: bit_simps)

lemma length_lfn_units: "length part \<le> 13 \<Longrightarrow> length (lfn_units part) = 13"
  by (simp add: lfn_units_def Let_def)

lemma list13: "length us = 13 \<Longrightarrow> \<exists>a b c d e f g h i j k l m. us = [a, b, c, d, e, f, g, h, i, j, k, l, m]"
  by (simp add: numeral_eq_Suc length_Suc_conv) blast

lemma lfn_chars_ent:
  assumes "length part \<le> 13"
  shows "lfn_chars (lfn_ent seq part) = lfn_units part"
proof -
  obtain a b c d e f g h i j k l m where "lfn_units part = [a, b, c, d, e, f, g, h, i, j, k, l, m]"
    using list13 [OF length_lfn_units [OF assms]] by blast
  then show ?thesis by (simp add: lfn_chars_def lfn_ent_def Let_def le_bytes_def le16_def le16_bytes)
qed

lemma lfn_ent_fields [simp]:
  assumes "length part \<le> 13"
  shows "dent_attr (lfn_ent seq part) = ATTR_LFN" "lfn_seq (lfn_ent seq part) = seq" "lfn_ent seq part ! 0 = seq"
proof -
  obtain a b c d e f g h i j k l m where "lfn_units part = [a, b, c, d, e, f, g, h, i, j, k, l, m]"
    using list13 [OF length_lfn_units [OF assms]] by blast
  then show "dent_attr (lfn_ent seq part) = ATTR_LFN"
    by (simp add: dent_attr_def lfn_ent_def Let_def le_bytes_def)
qed (simp_all add: lfn_seq_def lfn_ent_def Let_def)

lemma ucast_u8_u16 [simp]: "ucast (ucast (c :: u8) :: u16) = c"
  by (rule bit_word_eqI) (simp add: bit_simps)

lemma ucast_u8_zero: "(ucast (c :: u8) :: u16) = 0 \<longleftrightarrow> c = 0"
proof
  assume "(ucast c :: u16) = 0"
  then show "c = 0" using ucast_u8_u16 [of c] by (simp del: ucast_u8_u16)
qed simp

lemma takeWhile_units:
  "0 \<notin> set part \<Longrightarrow> takeWhile (\<lambda>u. u \<noteq> 0) (map ucast part @ 0 # r) = (map ucast (part :: u8 list) :: u16 list)"
  "0 \<notin> set part \<Longrightarrow> takeWhile (\<lambda>u. u \<noteq> 0) (map ucast part) = (map ucast (part :: u8 list) :: u16 list)"
  by (induction part) (auto simp: ucast_u8_zero)

lemma lfn_part_ent:
  assumes "length part \<le> 13" "0 \<notin> set part"
  shows "lfn_part (lfn_ent seq part) = part"
  by (simp add: lfn_part_def lfn_chars_ent [OF assms(1)] lfn_units_def Let_def takeWhile_units [OF assms(2)]
      comp_def)

lemma lfn_ents_small:
  "n < 16 \<Longrightarrow> (of_nat n :: u8) AND 0xf0 = 0"
  "n < 16 \<Longrightarrow> (of_nat n OR 0x40 :: u8) AND 0xf0 = 0x40"
  by (simp_all add: numeral_eq_Suc less_Suc_eq) (elim disjE; simp)+

lemma lfn_ents_len_pos: "0 < length (lfn_ents n name)"
  by (subst lfn_ents.simps) simp

lemma lfn_ents_attr: "e \<in> set (lfn_ents n name) \<Longrightarrow> dent_attr e = ATTR_LFN"
proof (induction n name rule: lfn_ents.induct)
  case (1 n name)
  then show ?case by (subst (asm) (2) lfn_ents.simps) (auto split: if_splits)
qed

text \<open>The loop collects the name from its first run on, wherever the entries stand.\<close>

lemma lfn_loop_ents:
  assumes "prev < int (length pre)" "0 \<notin> set name" "length name + 13 * n \<le> 208"
  shows "lfn_loop (pre @ rev (lfn_ents n name) @ rest) prev (length pre + length (lfn_ents n name) - 1) buf = buf @ name"
  using assms
proof (induction n name arbitrary: rest buf rule: lfn_ents.induct)
  case (1 n name)
  show ?case
  proof (cases "length name \<le> 13")
    case True
    then have e: "lfn_ents n name = [lfn_ent (of_nat n OR 0x40) name]" by (simp add: lfn_ents.simps)
    have "n < 16 \<or> length name < 13" using 1(4) by linarith
    then have "lfn_last (lfn_ent (of_nat n OR 0x40) name)"
      using True lfn_part_ent [OF True 1(3)] lfn_ents_small(2) [of n] by (auto simp: lfn_last_def)
    then show ?thesis using True lfn_part_ent [OF True 1(3)] unfolding e
      by (subst lfn_loop.simps) (simp add: Let_def)
  next
    case False
    let ?e = "lfn_ent (of_nat n) (take 13 name)" and ?es = "lfn_ents (n + 1) (drop 13 name)"
    have e: "lfn_ents n name = ?e # ?es" using False by (simp add: lfn_ents.simps [of n name])
    have part: "lfn_part ?e = take 13 name"
      using lfn_part_ent [of "take 13 name"] 1(3) by (auto dest: in_set_takeD)
    have "n < 16" using False 1(4) by linarith
    then have nl: "\<not> lfn_last ?e" using False lfn_ents_small(1) [of n] by (simp add: lfn_last_def part)
    obtain m where m: "length ?es = Suc m" using lfn_ents_len_pos [of "n + 1" "drop 13 name"] by (cases "length ?es") auto
    have at: "(pre @ rev (?e # ?es) @ rest) ! (length pre + Suc m) = ?e"
      using m by (simp add: nth_append)
    have "(pre @ rev (?e # ?es) @ rest) ! (length pre + m) = rev ?es ! m" using m by (simp add: nth_append)
    moreover have "rev ?es ! m \<in> set ?es" using m by (metis length_rev lessI nth_mem set_rev)
    ultimately have attr: "dent_attr ((pre @ rev (?e # ?es) @ rest) ! (length pre + m)) = ATTR_LFN"
      using lfn_ents_attr by simp
    have ih: "lfn_loop (pre @ rev ?es @ (?e # rest)) prev (length pre + length ?es - 1) (buf @ take 13 name)
        = (buf @ take 13 name) @ drop 13 name"
      using 1(3,4) False by (intro 1(1)) (auto simp: 1(2) dest: in_set_dropD)
    have "lfn_loop (pre @ rev (?e # ?es) @ rest) prev (length pre + Suc m) buf
        = lfn_loop (pre @ rev (?e # ?es) @ rest) prev (length pre + m) (buf @ take 13 name)"
      using 1(2) nl attr by (subst lfn_loop.simps) (simp only: at part Let_def, simp)
    then show ?thesis using ih m unfolding e by simp
  qed
qed

section \<open>Directories\<close>

text \<open>What a directory can hold: a live entry with or without a long name, and entries that
  are skipped, deleted ones with what is left of their long names and volume labels.\<close>

datatype item = Live "cstring option" fat_dirent | Dead "fat_dirent list" fat_dirent

fun item_ents :: "item \<Rightarrow> fat_dirent list" where
  "item_ents (Live None d) = [d]"
| "item_ents (Live (Some s) d) = lfn_encode s @ [d]"
| "item_ents (Dead ls d) = ls @ [d]"

fun good_name :: "cstring option \<Rightarrow> fat_dirent \<Rightarrow> bool" where
  "good_name None d \<longleftrightarrow> name83 d \<noteq> []"
| "good_name (Some s) d \<longleftrightarrow> s \<noteq> [] \<and> 0 \<notin> set s \<and> length s < 195"

fun good_item :: "item \<Rightarrow> bool" where
  "good_item (Live ln d) \<longleftrightarrow> \<not> DENT_IS_NULL d \<and> \<not> DENT_IS_UNUSED d \<and> dent_attr d \<noteq> ATTR_VOLID
     \<and> dent_attr d \<noteq> ATTR_LFN \<and> good_name ln d"
| "good_item (Dead ls d) \<longleftrightarrow> (\<forall>l \<in> set ls. \<not> DENT_IS_NULL l \<and> dent_attr l = ATTR_LFN)
     \<and> \<not> DENT_IS_NULL d \<and> dent_attr d \<noteq> ATTR_LFN \<and> (DENT_IS_UNUSED d \<or> dent_attr d = ATTR_VOLID)"

fun item_files :: "item \<Rightarrow> fs_dirent list" where
  "item_files (Live ln d) = [\<lparr>de_name = (case ln of None \<Rightarrow> name83 d | Some s \<Rightarrow> s), de_data = d,
     de_type = (if dent_attr d AND ATTR_DIR \<noteq> 0 then FSNODE_DIR else FSNODE_FILE), de_fsize = dent_size d\<rparr>]"
| "item_files (Dead ls d) = []"

lemma length_name83: "length (name83 d) \<le> 12"
proof -
  have tw: "length (clean_trailws s) \<le> length s" for s
    using length_dropWhile_le [of _ "rev s"] by (simp add: clean_trailws_def)
  have un: "length (until_nul s) \<le> length s" for s by (simp add: until_nul_def length_takeWhile_le)
  have "length (clean_trailws (until_nul (take 8 (dent_name d)))) \<le> 8"
    by (rule order_trans [OF tw order_trans [OF un]]) simp
  moreover have "length (clean_trailws (until_nul (drop 8 (dent_name d)))) \<le> 3"
    by (rule order_trans [OF tw order_trans [OF un]]) (simp add: dent_name_def)
  ultimately show ?thesis by (simp add: name83_def Let_def)
qed

lemma until_nul_id: "0 \<notin> set s \<Longrightarrow> until_nul s = s"
  by (auto simp: until_nul_def takeWhile_eq_all_conv)

lemma until_nul_no_nul: "0 \<notin> set (until_nul s)"
  by (auto simp: until_nul_def dest: set_takeWhileD)

lemma clean_no_nul: "0 \<notin> set (clean_trailws (until_nul s))"
  using until_nul_no_nul [of s] by (auto simp: clean_trailws_def dest: set_dropWhileD)

lemma until_nul_name83 [simp]: "until_nul (name83 d) = name83 d"
  by (rule until_nul_id) (simp add: name83_def Let_def clean_no_nul)

lemma parse_skip_lfn:
  assumes "\<forall>l \<in> set ls. \<not> DENT_IS_NULL l \<and> dent_attr l = ATTR_LFN"
  shows "parse_loop (pre @ ls @ rest) (length pre) (length ls + n) prev
    = parse_loop (pre @ ls @ rest) (length pre + length ls) n prev"
  using assms
proof (induction ls arbitrary: pre)
  case (Cons l ls)
  from Cons.IH [of "pre @ [l]"] Cons.prems show ?case by (simp add: Let_def nth_append)
qed simp

lemma parse_dead:
  assumes "good_item (Dead ls d)"
  shows "parse_loop (pre @ ls @ d # rest) (length pre) (Suc (length ls + n)) prev
    = parse_loop (pre @ ls @ d # rest) (Suc (length pre + length ls)) n (int (length pre + length ls))"
proof -
  have "parse_loop (pre @ ls @ d # rest) (length pre) (length ls + Suc n) prev
    = parse_loop (pre @ ls @ d # rest) (length pre + length ls) (Suc n) prev"
    using assms by (intro parse_skip_lfn) simp
  then show ?thesis using assms by (auto simp: Let_def nth_append)
qed

lemma lfn_number_not_zero:
  assumes "1 \<le> n" "n \<le> 16"
  shows "(of_nat n :: u8) \<noteq> 0" "(of_nat n OR 0x40 :: u8) \<noteq> 0"
proof -
  have "n \<in> {1, 2, 3, 4, 5, 6, 7, 8, 9, 10, 11, 12, 13, 14, 15, 16}" using assms by simp presburger
  then show "(of_nat n :: u8) \<noteq> 0" "(of_nat n OR 0x40 :: u8) \<noteq> 0" by (elim insertE; simp)+
qed

lemma lfn_ents_not_null:
  "l \<in> set (lfn_ents n name) \<Longrightarrow> 1 \<le> n \<Longrightarrow> length name + 13 * n \<le> 208 \<Longrightarrow> \<not> DENT_IS_NULL l"
proof (induction n name rule: lfn_ents.induct)
  case (1 n name)
  have n: "n \<le> 16" using 1(4) by linarith
  show ?case
  proof (cases "length name \<le> 13")
    case True
    then show ?thesis using 1(2) lfn_number_not_zero [OF 1(3) n]
      by (simp add: lfn_ents.simps [of n name] DENT_IS_NULL_def)
  next
    case False
    then have "l = lfn_ent (of_nat n) (take 13 name) \<or> l \<in> set (lfn_ents (n + 1) (drop 13 name))"
      using 1(2) by (simp add: lfn_ents.simps [of n name])
    then show ?thesis using 1(1,4) False lfn_number_not_zero [OF 1(3) n] by (auto simp: DENT_IS_NULL_def)
  qed
qed

lemma dent_filename_encode:
  assumes "good_name (Some s) d" "prev = int (length pre) - 1"
  shows "dent_filename (pre @ lfn_encode s @ d # rest) (length pre + length (lfn_encode s)) prev = s"
proof -
  have e: "lfn_encode s = rev (lfn_ents 1 s)" by (simp add: lfn_encode_def)
  obtain m where m: "length (lfn_ents 1 s) = Suc m" using lfn_ents_len_pos [of 1 s] by (cases "length (lfn_ents 1 s)") auto
  have "rev (lfn_ents 1 s) ! m \<in> set (lfn_ents 1 s)" using m by (metis length_rev lessI nth_mem set_rev)
  then have attr: "dent_attr ((pre @ rev (lfn_ents 1 s) @ d # rest) ! (length pre + m)) = ATTR_LFN"
    using lfn_ents_attr m by (simp add: nth_append)
  have "lfn_loop (pre @ rev (lfn_ents 1 s) @ (d # rest)) prev (length pre + length (lfn_ents 1 s) - 1) [] = [] @ s"
    using assms by (intro lfn_loop_ents) auto
  then show ?thesis using attr assms(2) m unfolding e dent_filename_def by simp
qed

lemma parse_live:
  assumes "good_item (Live ln d)" "prev = int (length pre) - 1"
  shows "parse_loop (pre @ item_ents (Live ln d) @ rest) (length pre) (length (item_ents (Live ln d)) + n) prev
    = map_option (\<lambda>r. item_files (Live ln d) @ r)
       (parse_loop (pre @ item_ents (Live ln d) @ rest) (length pre + length (item_ents (Live ln d))) n
         (int (length pre + length (item_ents (Live ln d))) - 1))"
proof (cases ln)
  case None
  have "dent_filename (pre @ d # rest) (length pre) prev = name83 d"
    using assms(2) by (simp add: dent_filename_def)
  moreover have "name83 d \<noteq> []" using assms(1) None by simp
  ultimately show ?thesis using assms(1) None length_name83 [of d]
    by (simp add: Let_def MAX_NAME_def)
next
  case (Some s)
  let ?l = "lfn_encode s"
  have s: "good_name (Some s) d" using assms(1) Some by simp
  have skip: "\<forall>l \<in> set ?l. \<not> DENT_IS_NULL l \<and> dent_attr l = ATTR_LFN"
    using lfn_ents_not_null [of _ 1 s] lfn_ents_attr [of _ 1 s] s by (auto simp: lfn_encode_def)
  have "parse_loop (pre @ ?l @ d # rest) (length pre) (length ?l + Suc n) prev
    = parse_loop (pre @ ?l @ d # rest) (length pre + length ?l) (Suc n) prev"
    by (rule parse_skip_lfn [OF skip])
  moreover have "(pre @ ?l @ d # rest) ! (length pre + length ?l) = d" by (simp add: nth_append)
  ultimately show ?thesis using assms(1) Some s dent_filename_encode [OF s assms(2), of rest] until_nul_id [of s]
    by (simp add: Let_def MAX_NAME_def)
qed

fun entries :: "item list \<Rightarrow> fat_dirent list" where
  "entries [] = []"
| "entries (it # its) = item_ents it @ entries its"

lemma parse_items:
  assumes "\<forall>it \<in> set its. good_item it" "prev = int (length pre) - 1" "rest = [] \<or> DENT_IS_NULL (hd rest)"
  shows "parse_loop (pre @ entries its @ rest) (length pre) (length (entries its @ rest)) prev
    = Some (concat (map item_files its))"
  using assms
proof (induction its arbitrary: pre prev)
  case Nil
  then show ?case by (cases rest) (simp_all add: Let_def)
next
  case (Cons it its)
  have ih: "parse_loop ((pre @ item_ents it) @ entries its @ rest) (length (pre @ item_ents it))
      (length (entries its @ rest)) (int (length (pre @ item_ents it)) - 1) = Some (concat (map item_files its))"
    using Cons.prems by (intro Cons.IH) simp_all
  show ?case
  proof (cases it)
    case (Live ln d)
    have g: "good_item (Live ln d)" using Cons.prems(1) Live by simp
    show ?thesis using ih parse_live [OF g Cons.prems(2), of "entries its @ rest" "length (entries its @ rest)"]
      unfolding Live by (simp add: add.assoc)
  next
    case (Dead ls d)
    have g: "good_item (Dead ls d)" using Cons.prems(1) Dead by simp
    show ?thesis using ih parse_dead [OF g, of pre "entries its @ rest" "length (entries its @ rest)" prev]
      unfolding Dead by simp
  qed
qed


section \<open>Paths\<close>

text \<open>The walk of \<open>open\<close> over the components of a path.\<close>

fun walk_comps :: "reader \<Rightarrow> int \<Rightarrow> fatfs \<Rightarrow> fat_dir \<Rightarrow> fat_dir option \<Rightarrow> fat_dirent option \<Rightarrow> cstring list \<Rightarrow> walk option" where
  "walk_comps rd bd fs rootdir dir dent [] = Some (Walked dir dent)"
| "walk_comps rd bd fs rootdir dir dent (name # names) =
     (case dir of
        None \<Rightarrow> Some (NoNode (Some ENOTDIR))
      | Some d \<Rightarrow>
          if name = [46] then walk_comps rd bd fs rootdir dir dent names
          else case find_entry d name of
              None \<Rightarrow> Some (NoNode (Some ENOENT))
            | Some e \<Rightarrow>
                let fe = de_data e; isdir = (dent_attr fe AND ATTR_DIR \<noteq> 0);
                    newdir = (if dent_clust_low fe OR dent_clust_high fe = 0 then Some (Some rootdir)
                              else if isdir then load_dir rd bd fs fe else Some None)
                in if dent_clust_low fe OR dent_clust_high fe = 0 \<and> \<not> isdir then Some (NoNode None)
                   else case newdir of None \<Rightarrow> None
                     | Some nd \<Rightarrow> walk_comps rd bd fs rootdir nd (Some fe) names)"

lemma open_walk_comps:
  "open_walk rd bd fs rootdir dir dent path = walk_comps rd bd fs rootdir dir dent (path_split path MAX_NAME)"
proof (induction rd bd fs rootdir dir dent path rule: open_walk.induct)
  case (1 rd bd fs rootdir dir dent path)
  show ?case
  proof (cases "path = [] \<or> dir = None")
    case True
    then show ?thesis by (auto simp: open_walk.simps [of rd bd fs rootdir dir dent path] path_split.simps [of path])
  next
    case False
    then obtain d where p: "path \<noteq> []" and d: "dir = Some d" by auto
    let ?name = "fst (fs_path_next path MAX_NAME)" and ?rest = "snd (fs_path_next path MAX_NAME)"
    note ih = 1 [OF p d refl refl]
    show ?thesis
    proof (cases "?name = [46]")
      case True
      then show ?thesis unfolding open_walk.simps [of rd bd fs rootdir dir dent path] path_split.simps [of path]
        using ih(1) p d by simp
    next
      case ndot: False
      show ?thesis
      proof (cases "find_entry d ?name")
        case None
        then show ?thesis unfolding open_walk.simps [of rd bd fs rootdir dir dent path] path_split.simps [of path]
          using ndot p d by simp
      next
        case (Some e)
        show ?thesis unfolding open_walk.simps [of rd bd fs rootdir dir dent path] path_split.simps [of path]
          using ih(2-4) [OF ndot Some refl] ndot Some p d
          by (auto simp: Let_def split: option.splits)
      qed
    qed
  qed
qed

text \<open>\<open>leads rd bd fs root d names d'\<close>: following directories by name leads from \<open>d\<close> to \<open>d'\<close>; an
  entry with cluster 0 is a way back to the root.\<close>

inductive leads :: "reader \<Rightarrow> int \<Rightarrow> fatfs \<Rightarrow> fat_dir \<Rightarrow> fat_dir \<Rightarrow> cstring list \<Rightarrow> fat_dir \<Rightarrow> bool"
  for rd bd fs root where
  here: "leads rd bd fs root d [] d"
| dot: "leads rd bd fs root d ns d' \<Longrightarrow> leads rd bd fs root d ([46] # ns) d'"
| down: "n \<noteq> [46] \<Longrightarrow> find_entry d n = Some e \<Longrightarrow> dent_attr (de_data e) AND ATTR_DIR \<noteq> 0 \<Longrightarrow>
    dent_clust_low (de_data e) OR dent_clust_high (de_data e) \<noteq> 0 \<Longrightarrow>
    load_dir rd bd fs (de_data e) = Some (Some d1) \<Longrightarrow> leads rd bd fs root d1 ns d' \<Longrightarrow> leads rd bd fs root d (n # ns) d'"
| up: "n \<noteq> [46] \<Longrightarrow> find_entry d n = Some e \<Longrightarrow> dent_attr (de_data e) AND ATTR_DIR \<noteq> 0 \<Longrightarrow>
    dent_clust_low (de_data e) OR dent_clust_high (de_data e) = 0 \<Longrightarrow>
    leads rd bd fs root root ns d' \<Longrightarrow> leads rd bd fs root d (n # ns) d'"

lemma walk_leads:
  "leads rd bd fs root d ns d' \<Longrightarrow>
   \<exists>dent'. walk_comps rd bd fs root (Some d) dent (ns @ ms) = walk_comps rd bd fs root (Some d') dent' ms"
proof (induction arbitrary: dent rule: leads.induct)
  case (down n d e d1 ns d')
  then show ?case by (simp add: Let_def)
next
  case (up n d e ns d')
  then show ?case by (simp add: Let_def)
qed auto

text \<open>Opening an absolute path of a directory that can be reached and one more component
  gives the file of that name, from its start; \<open>ENOENT\<close> when there is no entry of that name;
  and for a file without a cluster, which is how every empty file is stored, nothing.\<close>

theorem fat_open_path:
  assumes "leads rd bd fs root root ns d" "\<forall>c \<in> set (ns @ [n]). component MAX_NAME c" "n \<noteq> [46]"
    "\<forall>e. find_entry d n = Some e \<longrightarrow> dent_attr (de_data e) AND ATTR_DIR = 0"
  shows "fat_open rd bd fs root cwd (47 # path_join (ns @ [n])) = Some (case find_entry d n of
      None \<Rightarrow> Inl (Some ENOENT)
    | Some e \<Rightarrow> if dent_clust_low (de_data e) OR dent_clust_high (de_data e) = 0 then Inl None
        else Inr (FileNode (init_file (de_data e))))"
proof -
  have skip: "fs_path_skipsep (path_join (ns @ [n])) = path_join (ns @ [n])"
  proof (cases "ns @ [n]")
    case (Cons c cs)
    then have "c \<in> set (ns @ [n])" by simp
    then have "component MAX_NAME c" using assms(2) by blast
    then obtain x t where "c = x # t" "x \<noteq> 47" by (cases c) (auto simp: component_def)
    then show ?thesis unfolding Cons by (cases cs) (simp_all add: fs_path_skipsep_def)
  qed simp
  obtain dent where w: "open_walk rd bd fs root (Some root) None (path_join (ns @ [n]))
      = walk_comps rd bd fs root (Some d) dent [n]"
    using walk_leads [OF assms(1)] unfolding open_walk_comps split_join [OF assms(2)] by blast
  show ?thesis using assms(3,4)
    by (cases "find_entry d n") (simp_all add: fat_open_def skip w Let_def)
qed

end
