(* ===== verification/Fat_Props.thy ===== *)
theory Fat_Props
  imports Fat
begin

text \<open>
  What \<open>src/fsfat.c\<close> does, stated against the contents of a file: the bytes of the clusters of
  its chain, in order, cut to its size. The lemmas follow a file descriptor through reads
  and seeks; the properties give the result of a read anywhere in a file, the round trip
  of long names, and the places where the code strays.
\<close>

section \<open>Blocks of equal length\<close>

lemma drop_concat_blocks:
  "\<forall>d \<in> set ds. length d = B \<Longrightarrow> drop (i * B) (concat ds) = concat (drop i ds)"
proof (induction ds arbitrary: i)
  case (Cons d ds)
  then show ?case by (cases i) simp_all
qed simp

lemma slice_block:
  assumes "\<forall>d \<in> set ds. length d = B" "i < length ds" "j + l \<le> B"
  shows "take l (drop (i * B + j) (concat ds)) = take l (drop j (ds ! i))"
proof -
  have "drop (i * B + j) (concat ds) = drop j (drop (i * B) (concat ds))" by (simp add: add.commute)
  also have "\<dots> = drop j (ds ! i @ concat (drop (Suc i) ds))"
    using drop_concat_blocks [OF assms(1), of i] Cons_nth_drop_Suc [OF assms(2)]
    by (metis concat.simps(2))
  finally show ?thesis using assms by simp
qed

section \<open>The contents of a file\<close>

definition geometry :: "fatfs \<Rightarrow> nat \<Rightarrow> bool" where
  "geometry fs k \<longleftrightarrow> k < 32 \<and> cluster_size fs * 512 = 2 ^ k \<and> clust_shift fs = int k \<and> uint (clust_mask fs) = 2 ^ k - 1"

definition chain :: "fatfs \<Rightarrow> int list \<Rightarrow> bool" where
  "chain fs cs \<longleftrightarrow> (\<forall>i < length cs. 0 \<le> cs ! i)
     \<and> (\<forall>i. Suc i < length cs \<longrightarrow> next_cluster fs (cs ! i) = Some (cs ! Suc i))"

definition cluster_data :: "reader \<Rightarrow> int \<Rightarrow> fatfs \<Rightarrow> int \<Rightarrow> u8 list" where
  "cluster_data rd bd fs c = snd (read_cluster rd bd fs c)"

definition file_size :: "fat_file \<Rightarrow> nat" where "file_size f = unat (dent_size (f_ent f))"

text \<open>\<open>stored rd bd fs k cs n\<close>: a file of \<open>n\<close> bytes lies in the clusters \<open>cs\<close> of \<open>2^k\<close> bytes.\<close>

definition stored :: "reader \<Rightarrow> int \<Rightarrow> fatfs \<Rightarrow> nat \<Rightarrow> int list \<Rightarrow> nat \<Rightarrow> bool" where
  "stored rd bd fs k cs n \<longleftrightarrow> geometry fs k \<and> chain fs cs \<and> n \<le> length cs * 2 ^ k \<and> n < 2 ^ 32
     \<and> (\<forall>c \<in> set cs. length (cluster_data rd bd fs c) = 2 ^ k)"

definition contents :: "reader \<Rightarrow> int \<Rightarrow> fatfs \<Rightarrow> int list \<Rightarrow> nat \<Rightarrow> u8 list" where
  "contents rd bd fs cs n = take n (concat (map (cluster_data rd bd fs) cs))"

text \<open>A descriptor at position \<open>p\<close>, in front of the end of the file.\<close>

definition at_pos :: "reader \<Rightarrow> int \<Rightarrow> fatfs \<Rightarrow> nat \<Rightarrow> int list \<Rightarrow> fat_file \<Rightarrow> nat \<Rightarrow> bool" where
  "at_pos rd bd fs k cs f p \<longleftrightarrow> p < file_size f \<and> cur_pos f = int p \<and> first_clust f = cs ! 0
     \<and> cur_clust f = cs ! (p div 2 ^ k)
     \<and> (buf_valid f \<longrightarrow> clustbuf f = cluster_data rd bd fs (cs ! (p div 2 ^ k)))"

lemma length_concat_blocks:
  "\<forall>c \<in> set cs. length (g c) = B \<Longrightarrow> length (concat (map g cs)) = length cs * B"
  by (induction cs) simp_all

lemma length_contents:
  assumes "stored rd bd fs k cs n"
  shows "length (contents rd bd fs cs n) = n"
  using assms length_concat_blocks [of cs "cluster_data rd bd fs" "2 ^ k"]
  by (simp add: contents_def stored_def)

lemma clust_idx_eq:
  assumes "geometry fs k" "p < 2 ^ 32"
  shows "clust_idx fs (int p) = int (p div 2 ^ k)"
proof -
  have "p div 2 ^ k < 2 ^ 32" using assms(2) by (meson div_le_dividend le_less_trans)
  then have "int (p div 2 ^ k) mod 2 ^ 32 = int (p div 2 ^ k)" by (intro mod_pos_pos_trivial) simp_all
  then show ?thesis using assms(1) by (simp add: clust_idx_def geometry_def zdiv_int)
qed

lemma offs_eq:
  assumes "geometry fs k"
  shows "int p AND uint (clust_mask fs) = int (p mod 2 ^ k)"
proof -
  have "uint (clust_mask fs) = 2 ^ k - 1" using assms by (simp add: geometry_def)
  then show ?thesis using int_and_mask [of "int p" k] by (simp add: zmod_int)
qed

lemma pos_clust_less:
  assumes "stored rd bd fs k cs n" "p < n"
  shows "p div 2 ^ k < length cs"
proof -
  have "p < length cs * 2 ^ k" using assms unfolding stored_def by linarith
  then show ?thesis by (simp add: div_less_iff_less_mult)
qed

section \<open>Reading\<close>

lemma next_block_div:
  fixes p q :: nat
  assumes "p mod 2 ^ k + l = 2 ^ k"
  shows "(p + l) div 2 ^ k = Suc (p div 2 ^ k)"
proof -
  have "p + l = p div 2 ^ k * 2 ^ k + (p mod 2 ^ k + l)"
    using div_mult_mod_eq [of p "2 ^ k"] by linarith
  then show ?thesis unfolding assms by simp
qed

lemma same_block_div:
  fixes p q :: nat
  assumes "p mod 2 ^ k + l < 2 ^ k"
  shows "(p + l) div 2 ^ k = p div 2 ^ k"
proof -
  have "p + l = p div 2 ^ k * 2 ^ k + (p mod 2 ^ k + l)"
    using div_mult_mod_eq [of p "2 ^ k"] by linarith
  moreover have "(q * 2 ^ k + m) div 2 ^ k = q" if "m < 2 ^ k" for q m :: nat using that by simp
  ultimately show ?thesis using assms by metis
qed

lemma len_eq:
  assumes "geometry fs k" "p < n" "num < sz"
  shows "(let len = (if cluster_size fs * 512 - int (p mod 2 ^ k) < sz - num then cluster_size fs * 512 - int (p mod 2 ^ k) else sz - num)
    in if int p + len > int n then int n - int p else len) = int (min (min (2 ^ k - p mod 2 ^ k) (nat (sz - num))) (n - p))"
proof -
  have c: "cluster_size fs * 512 = int (2 ^ k)" using assms(1) by (simp add: geometry_def)
  have m: "p mod 2 ^ k < 2 ^ k" by simp
  define B r where "B = (2 :: nat) ^ k" and "r = p mod 2 ^ k"
  have "r < B" using m by (simp add: B_def r_def)
  then show ?thesis using assms(2,3) unfolding c Let_def B_def [symmetric] r_def [symmetric]
    by (auto simp: min_def)
qed

definition eof_at :: "fat_file \<Rightarrow> bool" where
  "eof_at f \<longleftrightarrow> cur_clust f = -1 \<and> \<not> buf_valid f \<and> cur_pos f = int (file_size f)"

lemma read_loop_spec:
  assumes "stored rd bd fs k cs (file_size f)" "at_pos rd bd fs k cs f p" "0 \<le> num" "num \<le> sz"
  shows "\<exists>f'. read_loop rd bd fs f (int (p div 2 ^ k)) sz num out =
      Some (num + min (sz - num) (int (file_size f) - int p),
        out @ take (nat (sz - num)) (drop p (contents rd bd fs cs (file_size f))), f')
    \<and> f_ent f' = f_ent f \<and> first_clust f' = first_clust f
    \<and> (if int p + (sz - num) < int (file_size f) then at_pos rd bd fs k cs f' (p + nat (sz - num)) else eof_at f')"
  using assms
proof (induction "nat (sz - num)" arbitrary: f p num out rule: less_induct)
  case less
  let ?n = "file_size f" and ?B = "2 ^ k :: nat" and ?i = "p div 2 ^ k"
  have geo: "geometry fs k" and n32: "?n < 2 ^ 32" using less.prems(1) by (simp_all add: stored_def)
  have pn: "p < ?n" and f: "cur_pos f = int p" "first_clust f = cs ! 0" "cur_clust f = cs ! ?i"
      "buf_valid f \<longrightarrow> clustbuf f = cluster_data rd bd fs (cs ! ?i)"
    using less.prems(2) by (simp_all add: at_pos_def)
  show ?case
  proof (cases "num < sz")
    case False
    then have "num = sz" using less.prems(4) by simp
    then show ?thesis using less.prems(2) pn by (subst read_loop.simps) simp
  next
    case True
    define g where "g = fill_buf rd bd fs f"
    have g: "cur_pos g = int p" "cur_clust g = cs ! ?i" "clustbuf g = cluster_data rd bd fs (cs ! ?i)"
        "f_ent g = f_ent f" "first_clust g = cs ! 0" "buf_valid g"
      using f by (auto simp: g_def fill_buf_def cluster_data_def)
    have i: "?i < length cs" by (rule pos_clust_less [OF less.prems(1) pn])
    have dl: "length (cluster_data rd bd fs (cs ! ?i)) = ?B"
      using less.prems(1) i by (simp add: stored_def)
    define l where "l = min (min (?B - p mod ?B) (nat (sz - num))) (?n - p)"
    have mB: "p mod ?B < ?B" by simp
    have l: "1 \<le> l" "l \<le> ?B - p mod ?B" "int l \<le> sz - num" "l \<le> ?n - p"
    proof -
      have "1 \<le> ?B - p mod ?B" "1 \<le> nat (sz - num)" "1 \<le> ?n - p" using True pn mB by linarith+
      then show "1 \<le> l" "l \<le> ?B - p mod ?B" "int l \<le> sz - num" "l \<le> ?n - p"
        unfolding l_def by linarith+
    qed
    have sizeq: "uint (dent_size (f_ent f)) = int ?n" by (simp add: file_size_def)
    have offs: "clust_offs fs (int p) = int (p mod ?B)" unfolding clust_offs_def by (rule offs_eq [OF geo])
    have len: "copy_len fs g (sz - num) = int l"
      unfolding copy_len_def Let_def g(1,4) sizeq offs l_def
      by (rule len_eq [OF geo pn True, unfolded Let_def])
    define piece where "piece = take l (drop (p mod ?B) (cluster_data rd bd fs (cs ! ?i)))"
    have piece: "piece = take l (drop p (contents rd bd fs cs ?n))"
    proof -
      have pe: "?i * ?B + p mod ?B = p" by (rule div_mult_mod_eq)
      have "\<forall>d \<in> set (map (cluster_data rd bd fs) cs). length d = ?B"
        using less.prems(1) by (simp add: stored_def)
      moreover have "?i < length (map (cluster_data rd bd fs) cs)" using i by simp
      moreover have "p mod ?B + l \<le> ?B" using l(2) mB by linarith
      ultimately have "take l (drop (?i * ?B + p mod ?B) (concat (map (cluster_data rd bd fs) cs)))
          = take l (drop (p mod ?B) (map (cluster_data rd bd fs) cs ! ?i))"
        by (rule slice_block)
      then have "take l (drop p (concat (map (cluster_data rd bd fs) cs))) = piece"
        unfolding pe piece_def nth_map [OF i] .
      then show ?thesis using l(4) unfolding contents_def
        by (simp add: drop_take min_def)
    qed
    let ?h = "g\<lparr>cur_pos := int p + int l\<rparr>"
    have step: "read_loop rd bd fs f (int ?i) sz num out =
       (if int ?n \<le> int p + int l then Some (num + int l, out @ piece, ?h\<lparr>cur_clust := -1, buf_valid := False\<rparr>)
        else if clust_idx fs (int p + int l) \<noteq> int ?i then
               (case next_cluster fs (cs ! ?i) of None \<Rightarrow> None
                | Some c \<Rightarrow> (let f = ?h\<lparr>buf_valid := False, cur_clust := c\<rparr>
                    in if c < 0 then Some (num + int l, out @ piece, f)
                       else read_loop rd bd fs f (clust_idx fs (int p + int l)) sz (num + int l) (out @ piece)))
             else read_loop rd bd fs ?h (int ?i) sz (num + int l) (out @ piece))"
      unfolding read_loop.simps [of rd bd fs f "int ?i"] Let_def g_def [symmetric]
      using True g sizeq by (simp add: len offs piece_def cong: if_cong option.case_cong)
    let ?c = "contents rd bd fs cs ?n"
    have lc: "length ?c = ?n" by (rule length_contents [OF less.prems(1)])
    show ?thesis
    proof (cases "?n \<le> p + l")
      case True
      then have ln: "l = ?n - p" using l(4) by simp
      have "take (nat (sz - num)) (drop p ?c) = piece"
        using lc l(3) pn unfolding piece ln by simp
      moreover have "num + min (sz - num) (int ?n - int p) = num + int l" using l(3) ln pn by simp
      moreover have "\<not> int p + (sz - num) < int ?n" using l(3) ln pn by simp
      moreover have "eof_at (?h\<lparr>cur_clust := -1, buf_valid := False\<rparr>)"
        using ln pn g(4) by (simp add: eof_at_def file_size_def)
      ultimately show ?thesis using step True g(4,5) f(2) by auto
    next
      case False
      have p32: "p + l < 2 ^ 32" using False n32 by linarith
      define f2 where "f2 = (if l = ?B - p mod ?B then ?h\<lparr>buf_valid := False, cur_clust := cs ! Suc ?i\<rparr> else ?h)"
      have f2: "f_ent f2 = f_ent f" "first_clust f2 = cs ! 0" "file_size f2 = ?n" "cur_pos f2 = int (p + l)"
        using g(4,5) by (simp_all add: f2_def file_size_def)
      have *: "read_loop rd bd fs f (int ?i) sz num out
            = read_loop rd bd fs f2 (int ((p + l) div ?B)) sz (num + int l) (out @ piece)
          \<and> at_pos rd bd fs k cs f2 (p + l)"
      proof (cases "l = ?B - p mod ?B")
        case True
        then have div: "(p + l) div ?B = Suc ?i" using next_block_div [of p k l] mB by simp
        have "Suc ?i < length cs" using pos_clust_less [OF less.prems(1), of "p + l"] False div by simp
        then have nx: "next_cluster fs (cs ! ?i) = Some (cs ! Suc ?i)" "0 \<le> cs ! Suc ?i"
          using less.prems(1) by (simp_all add: stored_def chain_def)
        have "clust_idx fs (int p + int l) = int (Suc ?i)" using clust_idx_eq [OF geo p32] div by simp
        then show ?thesis using step False True nx f2 div g
          by (simp add: f2_def at_pos_def)
      next
        case lB: False
        then have div: "(p + l) div ?B = ?i" using l(2) by (intro same_block_div) simp
        have "clust_idx fs (int p + int l) = int ?i" using clust_idx_eq [OF geo p32] div by simp
        then show ?thesis using step False lB f2 div g
          by (simp add: f2_def at_pos_def)
      qed
      have st2: "stored rd bd fs k cs (file_size f2)" using less.prems(1) f2(3) by simp
      have dec: "nat (sz - (num + int l)) < nat (sz - num)" using l(1,3) by simp
      have n2: "0 \<le> num + int l" "num + int l \<le> sz" using less.prems(3) l(3) by simp_all
      obtain f' where r: "read_loop rd bd fs f2 (int ((p + l) div ?B)) sz (num + int l) (out @ piece) =
          Some (num + int l + min (sz - (num + int l)) (int ?n - int (p + l)),
            (out @ piece) @ take (nat (sz - (num + int l))) (drop (p + l) ?c), f')"
        "f_ent f' = f_ent f2" "first_clust f' = first_clust f2"
        "if int (p + l) + (sz - (num + int l)) < int ?n
         then at_pos rd bd fs k cs f' (p + l + nat (sz - (num + int l))) else eof_at f'"
        using less.hyps [OF dec st2 conjunct2 [OF *] n2, of "out @ piece"] f2(3) by auto
      have "nat (sz - num) = l + nat (sz - (num + int l))" using l(3) by simp
      then have tk: "take (nat (sz - num)) (drop p ?c) = piece @ take (nat (sz - (num + int l))) (drop (p + l) ?c)"
        unfolding piece by (simp add: take_add add.commute)
      have cnt: "num + min (sz - num) (int ?n - int p) = num + int l + min (sz - (num + int l)) (int ?n - int (p + l))"
        by (simp add: min_def)
      have fin: "int (p + l) + (sz - (num + int l)) = int p + (sz - num)"
        "p + l + nat (sz - (num + int l)) = p + nat (sz - num)" using l(3) by simp_all
      have "read_loop rd bd fs f (int ?i) sz num out =
          Some (num + min (sz - num) (int ?n - int p), out @ take (nat (sz - num)) (drop p ?c), f')"
        using conjunct1 [OF *] r(1) unfolding tk cnt by simp
      then show ?thesis using r(2-4) f2(1,2) f(2) unfolding fin by auto
    qed
  qed
qed

section \<open>Seeking\<close>

lemma find_cluster_chain:
  "chain fs cs \<Longrightarrow> i + n < length cs \<Longrightarrow> find_cluster fs n (cs ! i) = Some (cs ! (i + n))"
proof (induction n arbitrary: i)
  case (Suc n)
  then have "next_cluster fs (cs ! i) = Some (cs ! Suc i)" "0 \<le> cs ! Suc i" by (simp_all add: chain_def)
  then show ?case using Suc.IH [of "Suc i"] Suc.prems by simp
qed simp

text \<open>Where a seek goes: in front of the file means its start, unless it is counted from the
  end, which goes round at 4 GB.\<close>

definition seek_target :: "fat_file \<Rightarrow> int \<Rightarrow> whence \<Rightarrow> int" where
  "seek_target f offs whence = max 0 (case whence of FSSEEK_SET \<Rightarrow> offs
     | FSSEEK_CUR \<Rightarrow> cur_pos f + offs | FSSEEK_END \<Rightarrow> (int (file_size f) + offs) mod 2 ^ 32)"

lemma int_count_small: "0 \<le> n \<Longrightarrow> n < 2 ^ 31 \<Longrightarrow> int_count n = nat n"
  by (simp add: int_count_def sint_u32_small)

lemma cluster_bits: "geometry fs k \<Longrightarrow> 9 \<le> k"
proof (rule ccontr)
  assume g: "geometry fs k" and "\<not> 9 \<le> k"
  then have "(2 :: int) ^ k < 2 ^ 9" by (intro power_strict_increasing) simp_all
  moreover have "cluster_size fs * 512 = 2 ^ k" using g by (simp add: geometry_def)
  moreover have "(0 :: int) < 2 ^ k" by simp
  ultimately have "0 < cluster_size fs * 512" "cluster_size fs * 512 < 512" by (simp_all only:)  simp
  then show False by simp
qed

lemma seek_spec:
  assumes "stored rd bd fs k cs (file_size f)" "at_pos rd bd fs k cs f p"
    "seek_target f offs whence = int q" "q < file_size f"
  shows "\<exists>f'. seek fs f offs whence = Some f' \<and> at_pos rd bd fs k cs f' q \<and> f_ent f' = f_ent f"
proof -
  have geo: "geometry fs k" and ch: "chain fs cs" and n32: "file_size f < 2 ^ 32"
    using assms(1) by (simp_all add: stored_def)
  have p: "p < file_size f" "cur_pos f = int p" "first_clust f = cs ! 0" "cur_clust f = cs ! (p div 2 ^ k)"
    using assms(2) by (simp_all add: at_pos_def)
  let ?i = "p div 2 ^ k" and ?j = "q div 2 ^ k"
  have idx: "clust_idx fs (int p) = int ?i" "clust_idx fs (int q) = int ?j"
    using clust_idx_eq [OF geo] p(1) assms(4) n32 by simp_all
  have j: "?j < length cs" "?i < length cs"
    using pos_clust_less [OF assms(1)] p(1) assms(4) by blast+
  have tgt: "(let np = (case whence of FSSEEK_SET \<Rightarrow> offs | FSSEEK_CUR \<Rightarrow> cur_pos f + offs
      | FSSEEK_END \<Rightarrow> uint (dent_size (f_ent f) + word_of_int offs)) in if np < 0 then 0 else np) = int q"
    using assms(3) unfolding seek_target_def file_size_def by (cases whence) (auto simp: uint_word_ariths(1) uint_word_of_int mod_simps max_def Let_def split: if_splits)
  define c where "c = (if int ?j < int ?i then find_cluster fs (int_count (int ?j)) (first_clust f)
     else find_cluster fs (int_count (int ?j - int ?i)) (cur_clust f))"
  have small: "int ?i < 2 ^ 31" "int ?j < 2 ^ 31"
  proof -
    have "(2 :: nat) ^ 9 \<le> 2 ^ k" using cluster_bits [OF geo] by (intro power_increasing) simp_all
    then have "x div 2 ^ k < 2 ^ 31" if "x < 2 ^ 32" for x :: nat
      using that by (intro div_less_iff_less_mult [THEN iffD2]) simp_all
    then have "?i < 2 ^ 31" "?j < 2 ^ 31" using p(1) assms(4) n32 by simp_all
    then show "int ?i < 2 ^ 31" "int ?j < 2 ^ 31" by simp_all
  qed
  have c: "c = Some (cs ! ?j)"
  proof (cases "?j < ?i")
    case True
    then show ?thesis using find_cluster_chain [OF ch, of 0 ?j] j p(3) small by (simp add: c_def int_count_small)
  next
    case False
    then show ?thesis using find_cluster_chain [OF ch, of ?i "?j - ?i"] j p(4)
      small by (simp add: c_def int_count_small nat_diff_distrib)
  qed
  have "seek fs f offs whence = map_option (\<lambda>f. f\<lparr>cur_pos := int q\<rparr>)
      (if int ?j = int ?i then Some f else map_option (\<lambda>c. f\<lparr>cur_clust := c, buf_valid := False\<rparr>) c)"
    unfolding seek_def Let_def
    unfolding tgt [unfolded Let_def]
    unfolding p(2) idx c_def by (rule refl)
  then show ?thesis using c assms(2,4) by (auto simp: at_pos_def file_size_def)
qed

section \<open>Properties: reading files\<close>

lemma fat_read_spec:
  assumes "stored rd bd fs k cs (file_size f)" "at_pos rd bd fs k cs f p" "0 \<le> sz"
  shows "\<exists>f'. fat_read rd bd fs f sz =
      Some (min sz (int (file_size f) - int p), take (nat sz) (drop p (contents rd bd fs cs (file_size f))), f')
    \<and> f_ent f' = f_ent f
    \<and> (if int p + sz < int (file_size f) then at_pos rd bd fs k cs f' (p + nat sz) else eof_at f')"
proof -
  have geo: "geometry fs k" and n32: "file_size f < 2 ^ 32" using assms(1) by (simp_all add: stored_def)
  have p: "p < file_size f" "cur_pos f = int p" "cur_clust f = cs ! (p div 2 ^ k)"
    using assms(2) by (simp_all add: at_pos_def)
  have "0 \<le> cs ! (p div 2 ^ k)"
    using assms(1) pos_clust_less [OF assms(1) p(1)] by (simp add: stored_def chain_def)
  then have "fat_read rd bd fs f sz = read_loop rd bd fs f (int (p div 2 ^ k)) sz 0 []"
    using assms(3) p clust_idx_eq [OF geo, of p] n32 by (simp add: fat_read_def)
  then show ?thesis using read_loop_spec [OF assms(1,2) _ assms(3), of "[]"] by auto
qed

text \<open>C6: reading from anywhere in front of the end of a file returns the bytes of the file
  there, as many as were asked for or as the file has left, and leaves the descriptor
  behind them; the request may span any number of clusters.\<close>

theorem fat_read_contents:
  assumes "stored rd bd fs k cs (file_size f)" "at_pos rd bd fs k cs f p" "0 \<le> sz"
  shows "\<exists>f'. fat_read rd bd fs f sz =
      Some (min sz (int (file_size f) - int p), take (nat sz) (drop p (contents rd bd fs cs (file_size f))), f')
    \<and> (if int p + sz < int (file_size f) then at_pos rd bd fs k cs f' (p + nat sz) else eof_at f')"
  using fat_read_spec [OF assms] by blast

text \<open>A seek to a position in front of the end, from another one, followed by a read
  returns the bytes of the file at that position.\<close>

theorem fat_seek_then_read:
  assumes "stored rd bd fs k cs (file_size f)" "at_pos rd bd fs k cs f p"
    "seek_target f offs whence = int q" "q < file_size f" "0 \<le> sz"
  shows "\<exists>f' f''. seek fs f offs whence = Some f' \<and> tell f' = int q \<and> fat_read rd bd fs f' sz =
      Some (min sz (int (file_size f) - int q), take (nat sz) (drop q (contents rd bd fs cs (file_size f))), f'')"
proof -
  obtain f' where f': "seek fs f offs whence = Some f'" "at_pos rd bd fs k cs f' q" "f_ent f' = f_ent f"
    using seek_spec [OF assms(1-4)] by blast
  have e: "file_size f' = file_size f" using f'(3) by (simp add: file_size_def)
  have st: "stored rd bd fs k cs (file_size f')" using assms(1) e by simp
  obtain n bytes f'' where "fat_read rd bd fs f' sz = Some (n, bytes, f'')"
    "n = min sz (int (file_size f) - int q)" "bytes = take (nat sz) (drop q (contents rd bd fs cs (file_size f)))"
  proof -
    have geo: "geometry fs k" and n32: "file_size f < 2 ^ 32" using assms(1) by (simp_all add: stored_def)
    have q: "cur_pos f' = int q" "cur_clust f' = cs ! (q div 2 ^ k)" using f'(2) by (simp_all add: at_pos_def)
    have "0 \<le> cs ! (q div 2 ^ k)"
      using assms(1) pos_clust_less [OF assms(1,4)] by (simp add: stored_def chain_def)
    then have "fat_read rd bd fs f' sz = read_loop rd bd fs f' (int (q div 2 ^ k)) sz 0 []"
      using assms(4,5) q clust_idx_eq [OF geo, of q] n32 by (simp add: fat_read_def)
    then show ?thesis using that read_loop_spec [OF st f'(2) _ assms(5), of "[]"] e by auto
  qed
  moreover have "tell f' = int q" using f'(2) by (simp add: tell_def at_pos_def)
  ultimately show ?thesis using f'(1) by blast
qed

text \<open>After the end of a file has been reached, a seek into the cluster the end lies in, to
  the start of a file of one cluster for instance, does not look up the cluster again: the
  position is right and every read returns nothing.\<close>

theorem fat_seek_after_eof:
  assumes "geometry fs k" "eof_at f" "file_size f < 2 ^ 32" "q div 2 ^ k = file_size f div 2 ^ k" "q < 2 ^ 31" "0 \<le> sz"
  shows "\<exists>f'. seek fs f (int q) FSSEEK_SET = Some f' \<and> tell f' = int q \<and> fat_read rd bd fs f' sz = Some (0, [], f')"
proof -
  have pos: "cur_pos f = int (file_size f)" "cur_clust f = -1" using assms(2) by (simp_all add: eof_at_def)
  have "clust_idx fs (int (file_size f)) = clust_idx fs (int q)"
    using clust_idx_eq [OF assms(1)] assms(3-5) by simp
  then have "seek fs f (int q) FSSEEK_SET = Some (f\<lparr>cur_pos := int q\<rparr>)"
    using pos by (simp add: seek_def)
  then show ?thesis using pos assms(6) by (simp add: tell_def fat_read_def)
qed

text \<open>A position behind the end of the file but in its last cluster makes \<open>read\<close> copy a
  negative number of bytes.\<close>

theorem fat_read_behind_eof:
  assumes "geometry fs k" "0 \<le> cur_clust f" "cur_pos f = int q" "file_size f < q" "0 < sz"
  shows "fat_read rd bd fs f sz = None"
proof -
  have g: "cur_pos (fill_buf rd bd fs f) = int q" "f_ent (fill_buf rd bd fs f) = f_ent f"
    using assms(3) by (simp_all add: fill_buf_def)
  have sizeq: "uint (dent_size (f_ent f)) = int (file_size f)" by (simp add: file_size_def)
  have off: "clust_offs fs (int q) = int (q mod 2 ^ k)" unfolding clust_offs_def by (rule offs_eq [OF assms(1)])
  have "int (q mod 2 ^ k) < cluster_size fs * 512"
  proof -
    have "cluster_size fs * 512 = int (2 ^ k)" using assms(1) by (simp add: geometry_def)
    then show ?thesis by (simp only: of_nat_less_iff) simp
  qed
  then have "copy_len fs (fill_buf rd bd fs f) sz = int (file_size f) - int q"
    using g off assms(4,5) sizeq by (simp add: copy_len_def Let_def)
  then have neg: "copy_len fs (fill_buf rd bd fs f) (sz - 0) < 0" using assms(4) by simp
  have "read_loop rd bd fs f i sz 0 [] = None" for i
    unfolding read_loop.simps [of rd bd fs f i sz 0 "[]"] Let_def using assms(5) neg by simp
  then show ?thesis using assms(2,5) by (simp add: fat_read_def)
qed

section \<open>A small volume\<close>

text \<open>FAT16 with clusters of one sector; a file of 700 bytes in clusters 2 and 3. A sector is
  filled with the low byte of its number.\<close>

definition demo_rd :: reader where "demo_rd s n = (0, replicate 512 (ucast s))"

definition demo_fs :: fatfs where
  "demo_fs = \<lparr>ftype = FAT16, dev = 0x80, start_sect = 0, nsect = 5000, cluster_size = 1, fat_size = 1,
     fat_sect = 1, root_sect = 2, root_size = 8, first_data_sect = 10, num_data_sect = 4990,
     num_clusters = 4990, label = [], fat = [0xf8, 0xff, 0xff, 0xff, 3, 0, 0xff, 0xff],
     clust_mask = 511, clust_shift = 9\<rparr>"

definition demo_dent :: fat_dirent where
  "demo_dent = [65, 32, 32, 32, 32, 32, 32, 32, 32, 32, 32, 0x20, 0, 0, 0, 0, 0, 0, 0, 0, 0, 0, 0, 0, 0, 0,
     2, 0, 0xbc, 2, 0, 0]"

lemma demo_file_facts:
  "file_size (init_file demo_dent) = 700" "cur_pos (init_file demo_dent) = 0"
  "first_clust (init_file demo_dent) = 2" "cur_clust (init_file demo_dent) = 2" "\<not> buf_valid (init_file demo_dent)"
  by (simp_all add: init_file_def demo_dent_def file_size_def dent_size_def dent_clust_low_def
      dent_clust_high_def le16_def le32_def)

lemma demo_clusters: "cluster_data demo_rd 0x80 demo_fs 2 = replicate 512 10"
  "cluster_data demo_rd 0x80 demo_fs 3 = replicate 512 11"
  by (simp_all add: cluster_data_def read_cluster_def read_sectors_def demo_rd_def demo_fs_def cluster_sector_def)

lemma demo_stored: "stored demo_rd 0x80 demo_fs 9 [2, 3] 700"
proof -
  have "next_cluster demo_fs 2 = Some 3" by code_simp
  then have "chain demo_fs [2, 3]" by (simp add: chain_def less_Suc_eq nth_Cons split: nat.splits)
  moreover have "geometry demo_fs 9" by (simp add: geometry_def demo_fs_def)
  ultimately show ?thesis by (simp add: stored_def demo_clusters)
qed

lemma demo_at: "at_pos demo_rd 0x80 demo_fs 9 [2, 3] (init_file demo_dent) 0"
  by (simp add: at_pos_def demo_file_facts)

theorem fat_read_contents_witness:
  "\<exists>f'. fat_read demo_rd 0x80 demo_fs (init_file demo_dent) 600 = Some (600, replicate 512 10 @ replicate 88 11, f')"
  using fat_read_contents [of demo_rd "0x80" demo_fs 9 "[2, 3]" "init_file demo_dent" 0 600] demo_stored demo_at
  by (auto simp: demo_file_facts contents_def demo_clusters)

theorem fat_seek_then_read_witness:
  "\<exists>f' f''. seek demo_fs (init_file demo_dent) (-100) FSSEEK_END = Some f'
     \<and> fat_read demo_rd 0x80 demo_fs f' 200 = Some (100, replicate 100 11, f'')"
  using fat_seek_then_read [of demo_rd "0x80" demo_fs 9 "[2, 3]" "init_file demo_dent" 0 "-100" FSSEEK_END 600 200]
    demo_stored demo_at
  by (auto simp: demo_file_facts contents_def demo_clusters seek_target_def)

theorem fat_seek_after_eof_witness:
  "\<exists>f f'. fat_read demo_rd 0x80 demo_fs (init_file (demo_dent[29 := 1])) 1000 = Some (444, replicate 444 10, f)
     \<and> seek demo_fs f 0 FSSEEK_SET = Some f' \<and> fat_read demo_rd 0x80 demo_fs f' 1000 = Some (0, [], f')"
proof -
  let ?f = "init_file (demo_dent[29 := 1])"
  have f: "file_size ?f = 444" "cur_pos ?f = 0" "first_clust ?f = 2" "cur_clust ?f = 2" "\<not> buf_valid ?f"
    by (simp_all add: init_file_def demo_dent_def file_size_def dent_size_def dent_clust_low_def
        dent_clust_high_def le16_def le32_def)
  have st: "stored demo_rd 0x80 demo_fs 9 [2, 3] (file_size ?f)"
    using demo_stored unfolding f(1) by (simp add: stored_def)
  have "at_pos demo_rd 0x80 demo_fs 9 [2, 3] ?f 0" by (simp add: at_pos_def f)
  from read_loop_spec [OF st this, of 0 1000 "[]"] obtain f' where
    r: "fat_read demo_rd 0x80 demo_fs ?f 1000 = Some (444, replicate 444 10, f')" "eof_at f'" "f_ent f' = f_ent ?f"
    by (auto simp: f contents_def demo_clusters fat_read_def clust_idx_def)
  have "geometry demo_fs 9" by (simp add: geometry_def demo_fs_def)
  moreover have "file_size f' = 444" using r(3) f(1) by (simp add: file_size_def)
  ultimately show ?thesis
    using fat_seek_after_eof [of demo_fs 9 f' 0 1000 demo_rd "0x80"] r by auto
qed

theorem fat_read_behind_eof_witness:
  "fat_read demo_rd 0x80 demo_fs ((init_file demo_dent)\<lparr>cur_pos := 701, cur_clust := 3\<rparr>) 1 = None"
proof -
  have "geometry demo_fs 9" by (simp add: geometry_def demo_fs_def)
  moreover have "file_size ((init_file demo_dent)\<lparr>cur_pos := 701, cur_clust := 3\<rparr>) = 700"
    using demo_file_facts(1) by (simp add: file_size_def)
  ultimately show ?thesis
    using fat_read_behind_eof [of demo_fs 9 "(init_file demo_dent)\<lparr>cur_pos := 701, cur_clust := 3\<rparr>" 701 1] by simp
qed

section \<open>FAT12\<close>

text \<open>In a FAT12 table the entry of cluster \<open>n\<close> lies in bytes \<open>n + n / 2\<close> and the next.
  \<open>read_fat\<close> does not look at them: whatever they are, it returns the same value.\<close>

theorem fat12_entry_ignored:
  assumes "ftype fs = FAT12" "2 \<le> unat addr" "unat addr < 2 ^ 30" "i = unat addr + unat addr div 2"
  shows "read_fat (fs\<lparr>fat := b[i := x, i + 1 := y]\<rparr>) addr = read_fat (fs\<lparr>fat := b\<rparr>) addr"
proof -
  have "unat (addr + addr div 2) = i"
    using assms(3) unfolding assms(4) by (subst unat_add_no_wrap) (simp_all add: unat_div)
  moreover have "i + 2 \<le> 2 * i" using assms(2,4) by linarith
  ultimately show ?thesis using assms(1) by (simp add: read_fat_def Let_def le16_def)
qed

theorem fat12_entry_ignored_witness:
  "read_fat (demo_fs\<lparr>ftype := FAT12, fat := (replicate 30 0)[3 := 0xab, 4 := 0xcd]\<rparr>) 2 = Some 0"
proof -
  have "read_fat ((demo_fs\<lparr>ftype := FAT12\<rparr>)\<lparr>fat := (replicate 30 0)[3 := 0xab, 3 + 1 := 0xcd]\<rparr>) 2
      = read_fat ((demo_fs\<lparr>ftype := FAT12\<rparr>)\<lparr>fat := replicate 30 0\<rparr>) 2"
    by (rule fat12_entry_ignored) simp_all
  moreover have "read_fat ((demo_fs\<lparr>ftype := FAT12\<rparr>)\<lparr>fat := replicate 30 0\<rparr>) 2 = Some 0" by code_simp
  ultimately show ?thesis by simp
qed

end
