(* ===== verification/Fat_Mount.thy ===== *)
theory Fat_Mount
  imports Fat_Dirs Fat_Props
begin

text \<open>
  Mounting a FAT12 or FAT16 volume (\<open>fsfat_create\<close>): the table and the root directory are
  read in pieces that fit the transfer buffer, and what comes out is the directory that
  was written. The last property follows a file from the disk to the bytes a read returns.
\<close>

section \<open>Reading in pieces\<close>

text \<open>A device whose sectors are \<open>sector\<close>: reading \<open>n\<close> of them gives their bytes one after the other.\<close>

definition span :: "(u64 \<Rightarrow> u8 list) \<Rightarrow> u64 \<Rightarrow> nat \<Rightarrow> u8 list" where
  "span sector s n = concat (map (\<lambda>i. sector (s + of_nat i)) [0..<n])"

definition device :: "reader \<Rightarrow> (u64 \<Rightarrow> u8 list) \<Rightarrow> bool" where
  "device rd sector \<longleftrightarrow> (\<forall>s. length (sector s) = 512) \<and> (\<forall>s n. 0 \<le> n \<and> n \<le> 127 \<longrightarrow> rd s n = (0, span sector s (nat n)))"

lemma span_add: "span sector s (a + b) = span sector s a @ span sector (s + of_nat a) b"
  unfolding span_def by (induction b) (simp_all add: add.assoc)

lemma read_chunks_span:
  assumes "device rd sector" "d = -1 \<or> d = bd" "0 < maxc" "maxc \<le> 127" "0 \<le> num_read"
  shows "read_chunks rd bd d first ntotal maxc num_read buf
    = Some (buf @ span sector (first + word_of_int num_read) (nat (ntotal - num_read)))"
  using assms(5)
proof (induction "nat (ntotal - num_read)" arbitrary: num_read buf rule: less_induct)
  case less
  show ?case
  proof (cases "num_read < ntotal")
    case False
    then show ?thesis by (subst read_chunks.simps) (simp add: span_def)
  next
    case True
    define count where "count = (if ntotal - num_read > maxc then maxc else ntotal - num_read)"
    have c: "0 < count" "count \<le> 127" "count \<le> ntotal - num_read" using True assms(3,4) by (simp_all add: count_def)
    have r: "snd (read_sectors rd bd d (first + word_of_int num_read) count)
        = span sector (first + word_of_int num_read) (nat count)"
      using assms(1,2) c by (auto simp: read_sectors_def device_def)
    have "read_chunks rd bd d first ntotal maxc num_read buf
        = read_chunks rd bd d first ntotal maxc (num_read + count) (buf @ span sector (first + word_of_int num_read) (nat count))"
      using True unfolding read_chunks.simps [of rd bd d first ntotal maxc num_read] Let_def count_def [symmetric] r
      by simp
    also have "\<dots> = Some ((buf @ span sector (first + word_of_int num_read) (nat count))
        @ span sector (first + word_of_int (num_read + count)) (nat (ntotal - (num_read + count))))"
      using c less.prems by (intro less.hyps) simp_all
    also have "\<dots> = Some (buf @ span sector (first + word_of_int num_read) (nat count + nat (ntotal - (num_read + count))))"
      using c(1) by (simp add: span_add add.assoc)
    also have "nat count + nat (ntotal - (num_read + count)) = nat (ntotal - num_read)" using c by simp
    finally show ?thesis .
  qed
qed

lemma length_span: "\<forall>s. length (sector s) = 512 \<Longrightarrow> length (span sector s n) = 512 * n"
  unfolding span_def by (induction n) simp_all

lemma chunks32_concat:
  "\<forall>e \<in> set es. length e = 32 \<Longrightarrow> chunks32 (length es) (concat es) = es"
  by (induction es) simp_all

lemma max_sect_once_bounds:
  assumes "low \<le> 0xa0000 - 512"
  shows "0 < max_sect_once low" "max_sect_once low \<le> 127"
proof -
  have "1 \<le> (0xa0000 - low) div 512" using assms by simp
  then show "0 < max_sect_once low" "max_sect_once low \<le> 127"
    using assms by (simp_all add: max_sect_once_def Let_def)
qed

lemma shift_for_pow:
  "i \<le> k \<Longrightarrow> k \<le> i + m \<Longrightarrow> shift_for m (int i) (2 ^ k) = int k"
proof (induction m arbitrary: i)
  case (Suc m)
  show ?case
  proof (cases "i = k")
    case False
    then have "(2 :: int) ^ i < 2 ^ k" using Suc.prems by (intro power_strict_increasing) simp_all
    moreover have "shift_for m (int (Suc i)) (2 ^ k) = int k" using False Suc.prems by (intro Suc.IH) simp_all
    ultimately show ?thesis by (simp add: add.commute)
  qed simp
qed simp

section \<open>Mounting\<close>

text \<open>A boot sector that \<open>fsfat_create\<close> accepts, with clusters of \<open>2^j\<close> sectors.\<close>

definition boot_ok :: "u8 list \<Rightarrow> nat \<Rightarrow> bool" where
  "boot_ok sb j \<longleftrightarrow> bpb_jmp0 sb = 0xeb \<and> bpb_jmp2 sb = 0x90 \<and> bpb_sect_bytes sb = 512
     \<and> uint (bpb_cluster_size sb) = 2 ^ j"

text \<open>The volume that starts at sector \<open>start\<close>: \<open>p\<close> are its numbers, \<open>its\<close> the entries of its root
  directory, \<open>tail\<close> what follows them in its sectors.\<close>

definition volume :: "(u64 \<Rightarrow> u8 list) \<Rightarrow> int \<Rightarrow> int \<Rightarrow> u64 \<Rightarrow> nat \<Rightarrow> fatfs \<Rightarrow> item list \<Rightarrow> fat_dirent list \<Rightarrow> bool" where
  "volume sector bd d start j p its tail \<longleftrightarrow> boot_ok (sector start) j
     \<and> fat_params bd d start (sector start) = Some p \<and> (ftype p = FAT12 \<or> ftype p = FAT16)
     \<and> span sector (start + ucast (root_sect p)) (nat (root_size p)) = concat (entries its @ tail)
     \<and> (\<forall>e \<in> set (entries its @ tail). length e = 32)
     \<and> (\<forall>it \<in> set its. good_item it) \<and> (tail = [] \<or> DENT_IS_NULL (hd tail))"

definition mounted :: "(u64 \<Rightarrow> u8 list) \<Rightarrow> u64 \<Rightarrow> fatfs \<Rightarrow> fatfs" where
  "mounted sector start p = p\<lparr>fat := span sector (start + ucast (fat_sect p)) (nat (fat_size p)),
     clust_mask := word_of_int (cluster_size p * 512 - 1),
     clust_shift := shift_for 32 0 (cluster_size p * 512)\<rparr>"

lemma fat_params_fields:
  assumes "fat_params bd d start sb = Some p"
  shows "start_sect p = start" "cluster_size p = uint (bpb_cluster_size sb)"
    "0 \<le> root_size p" "dev p = (if d < 0 then bd else d)"
proof -
  have "0 \<le> (uint (bpb_num_dirent sb) * 32 + 511) div 512" by (simp add: pos_imp_zdiv_nonneg_iff)
  then show "start_sect p = start" "cluster_size p = uint (bpb_cluster_size sb)"
    "0 \<le> root_size p" "dev p = (if d < 0 then bd else d)"
    using assms by (cases "uint (bpb_cluster_size sb) = 0"; clarsimp simp: fat_params_def Let_def)+
qed

lemma mounted_geometry:
  assumes "fat_params bd d start sb = Some p" "boot_ok sb j"
  shows "geometry (mounted sector start p) (j + 9)"
proof -
  have c: "cluster_size p = 2 ^ j" using assms fat_params_fields(2) by (simp add: boot_ok_def)
  then have k: "cluster_size p * 512 = 2 ^ (j + 9)" by (simp add: power_add)
  have "uint (bpb_cluster_size sb) < 2 ^ 8" using uint_lt2p [of "bpb_cluster_size sb"] by simp
  then have "(2 :: int) ^ j < 2 ^ 8" using assms(2) by (simp add: boot_ok_def)
  then have j: "j < 8" by (rule power_less_imp_less_exp [rotated]) simp
  have sh: "shift_for 32 0 (2 ^ (j + 9)) = int (j + 9)" using shift_for_pow [of 0 "j + 9" 32] j by simp
  have pos: "(1 :: int) \<le> 2 ^ (j + 9)" by simp
  have "(2 :: int) ^ (j + 9) < 2 ^ 32" using j by (intro power_strict_increasing) simp_all
  then have "uint (word_of_int (2 ^ (j + 9) - 1) :: u32) = 2 ^ (j + 9) - 1"
    using pos by (simp only: uint_word_of_int) (intro mod_pos_pos_trivial, simp_all)
  then show ?thesis using j k sh unfolding geometry_def mounted_def by simp
qed

lemma create_volume:
  assumes "device rd sector" "d = -1 \<or> d = bd" "low_mem_buffer \<le> 0xa0000 - 512"
    "volume sector bd d start j p its tail"
  shows "fsfat_create rd bd low_mem_buffer d start = Some (Some (Inr (mounted sector start p,
      \<lparr>ent = entries its @ tail, fsent = concat (map item_files its), cur_ent = 0\<rparr>)))
    \<and> geometry (mounted sector start p) (j + 9)"
proof -
  let ?es = "entries its @ tail" and ?sb = "sector start"
  have v: "boot_ok ?sb j" "fat_params bd d start ?sb = Some p" "ftype p = FAT12 \<or> ftype p = FAT16"
    "span sector (start + ucast (root_sect p)) (nat (root_size p)) = concat ?es"
    "\<forall>e \<in> set ?es. length e = 32" "\<forall>it \<in> set its. good_item it" "tail = [] \<or> DENT_IS_NULL (hd tail)"
    using assms(4) by (simp_all add: volume_def)
  have one: "span sector start 1 = ?sb" by (simp add: span_def)
  have rs: "read_sectors rd bd d start 1 = (0, ?sb)"
    using assms(1,2) one by (auto simp: read_sectors_def device_def)
  note mx = max_sect_once_bounds [OF assms(3)]
  have fields: "start_sect p = start" "0 \<le> root_size p" using fat_params_fields [OF v(2)] by simp_all
  have table: "read_chunks rd bd d (start + ucast (fat_sect p)) (fat_size p) (max_sect_once low_mem_buffer) 0 []
      = Some (span sector (start + ucast (fat_sect p)) (nat (fat_size p)))"
    using read_chunks_span [OF assms(1,2) mx, of 0 "start + ucast (fat_sect p)" "fat_size p" "[]"] by simp
  have root: "read_chunks rd bd d (start + ucast (root_sect p)) (root_size p) (max_sect_once low_mem_buffer) 0 []
      = Some (concat ?es)"
    using read_chunks_span [OF assms(1,2) mx, of 0 "start + ucast (root_sect p)" "root_size p" "[]"] v(4) by simp
  have l512: "\<forall>s. length (sector s) = 512" using assms(1) by (simp add: device_def)
  have "length (concat ?es) = 512 * nat (root_size p)"
    using length_span [OF l512, of "start + ucast (root_sect p)" "nat (root_size p)"] unfolding v(4) .
  moreover have "length (concat ?es) = length ?es * 32"
    using length_concat_blocks [of ?es "\<lambda>e. e" 32] v(5) by simp
  ultimately have len: "nat (root_size p) * 512 div 32 = length ?es" by simp
  have parsed: "parse_dir_entries (chunks32 (nat (root_size p) * 512 div 32) (concat ?es)) =
      Some \<lparr>ent = ?es, fsent = concat (map item_files its), cur_ent = 0\<rparr>"
    unfolding len chunks32_concat [OF v(5)] parse_dir_entries_def
    using parse_items [OF v(6) _ v(7), of "-1" "[]"] by simp
  have parsed': "parse_dir_entries (chunks32 (16 * nat (root_size p)) (concat (entries its) @ concat tail)) =
      Some \<lparr>ent = ?es, fsent = concat (map item_files its), cur_ent = 0\<rparr>"
  proof -
    have "nat (root_size p) * 512 div 32 = 16 * nat (root_size p)" by simp
    then show ?thesis using parsed by simp
  qed
  have nt: "ftype p \<noteq> FAT32" using v(3) by auto
  have "fsfat_create rd bd low_mem_buffer d start = Some (Some (Inr (mounted sector start p,
      \<lparr>ent = ?es, fsent = concat (map item_files its), cur_ent = 0\<rparr>)))"
    using v(1) nt unfolding fsfat_create_def Let_def rs boot_ok_def
    by (simp add: v(2) fields table root parsed' mounted_def)
  then show ?thesis using mounted_geometry [OF v(2,1)] by blast
qed

text \<open>Mounting a FAT12 or FAT16 volume gives its numbers, its whole allocation table,
  read in pieces of at most 127 sectors, the mask and the shift of its cluster size, and a
  root directory with the files that were written to it.\<close>

theorem fsfat_create_mounts:
  assumes "device rd sector" "d = -1 \<or> d = bd" "low_mem_buffer \<le> 0xa0000 - 512"
    "volume sector bd d start j p its tail"
  shows "fsfat_create rd bd low_mem_buffer d start = Some (Some (Inr (mounted sector start p,
      \<lparr>ent = entries its @ tail, fsent = concat (map item_files its), cur_ent = 0\<rparr>)))
    \<and> geometry (mounted sector start p) (j + 9)"
  by (rule create_volume [OF assms])

lemma mount_open_read:
  assumes "device rd sector" "d = -1 \<or> d = bd" "low_mem_buffer \<le> 0xa0000 - 512"
    "volume sector bd d start j p its tail"
    "find (\<lambda>e. strcasecmp (de_name e) name = 0) (concat (map item_files its)) = Some e"
    "component MAX_NAME name" "name \<noteq> [46]" "dent_attr (de_data e) AND ATTR_DIR = 0"
    "dent_clust_low (de_data e) OR dent_clust_high (de_data e) \<noteq> 0"
    "first_clust (init_file (de_data e)) = cs ! 0" "0 < unat (dent_size (de_data e))"
    "stored rd bd (mounted sector start p) (j + 9) cs (unat (dent_size (de_data e)))" "0 \<le> sz"
  shows "\<exists>root f f'. fsfat_create rd bd low_mem_buffer d start = Some (Some (Inr (mounted sector start p, root)))
    \<and> fat_open rd bd (mounted sector start p) root cwd (47 # name) = Some (Inr (FileNode f))
    \<and> fat_read rd bd (mounted sector start p) f sz = Some (min sz (uint (dent_size (de_data e))),
        take (nat sz) (contents rd bd (mounted sector start p) cs (unat (dent_size (de_data e)))), f')"
proof -
  let ?n = "unat (dent_size (de_data e))" and ?fs = "mounted sector start p" and ?f = "init_file (de_data e)"
  define root where "root = \<lparr>ent = entries its @ tail, fsent = concat (map item_files its), cur_ent = 0\<rparr>"
  have created: "fsfat_create rd bd low_mem_buffer d start = Some (Some (Inr (?fs, root)))"
    using create_volume [OF assms(1-4)] by (simp add: root_def)
  have fe: "find_entry root name = Some e" using assms(5) by (simp add: find_entry_def root_def)
  have f: "file_size ?f = ?n" "cur_pos ?f = 0" "cur_clust ?f = cs ! 0" "first_clust ?f = cs ! 0" "\<not> buf_valid ?f"
    using assms(10) by (simp_all add: init_file_def file_size_def Let_def)
  have at: "at_pos rd bd ?fs (j + 9) cs ?f 0" using f assms(11) by (simp add: at_pos_def)
  have st: "stored rd bd ?fs (j + 9) cs (file_size ?f)" using assms(12) f(1) by simp
  have "fs_path_skipsep name = name"
    using assms(6) by (cases name) (auto simp: component_def)
  then have opened: "fat_open rd bd ?fs root cwd (47 # name) = Some (Inr (FileNode ?f))"
    using assms(6-9) fe split_join [of "[name]" MAX_NAME]
    by (simp add: fat_open_def open_walk_comps Let_def)
  have "0 \<le> cs ! 0" using pos_clust_less [OF st, of 0] assms(11) f(1) st
    by (simp add: stored_def chain_def)
  moreover have "clust_idx ?fs 0 = 0" by (simp add: clust_idx_def)
  ultimately have "fat_read rd bd ?fs ?f sz = read_loop rd bd ?fs ?f (int (0 div 2 ^ (j + 9))) sz 0 []"
    using assms(13) f by (simp add: fat_read_def)
  moreover have "uint (dent_size (de_data e)) = int ?n" by simp
  ultimately have "\<exists>f'. fat_read rd bd ?fs ?f sz = Some (min sz (uint (dent_size (de_data e))),
        take (nat sz) (contents rd bd ?fs cs ?n), f')"
    using read_loop_spec [OF st at _ assms(13), of "[]"] f(1) by auto
  then show ?thesis using created opened by blast
qed

lemma clust_offs_zero: "geometry fs k \<Longrightarrow> clust_offs fs 0 = 0"
  by (simp add: clust_offs_def)

text \<open>An empty file gives no bytes.\<close>

lemma fat_read_empty:
  assumes "cur_pos f = 0" "dent_size (f_ent f) = 0" "0 \<le> sz" "geometry fs k"
  shows "\<exists>f'. fat_read rd bd fs f sz = Some (0, [], f')"
proof (cases "cur_clust f < 0 \<or> sz = 0")
  case True
  then show ?thesis using assms(3) by (auto simp: fat_read_def read_loop.simps [of rd bd fs f _ 0 0])
next
  case False
  let ?f = "fill_buf rd bd fs f"
  have f: "cur_pos ?f = 0" "dent_size (f_ent ?f) = 0" using assms(1,2) by (simp_all add: fill_buf_def Let_def split: prod.splits)
  have "0 < cluster_size fs * 512" using assms(4) by (simp add: geometry_def)
  then have "copy_len fs ?f sz = 0" using f False assms(3) clust_offs_zero [OF assms(4)] by (simp add: copy_len_def Let_def)
  then show ?thesis using False assms(3) f by (subst fat_read_def, subst read_loop.simps) (simp add: Let_def)
qed


section \<open>A volume\<close>

text \<open>A FAT16 volume of 5000 sectors: the boot sector, one sector of table, one of root
  directory with the file \<open>Read Me\<close> of 700 bytes in clusters 2 and 3, then data.\<close>

definition vol_sector :: "u64 \<Rightarrow> u8 list" where
  "vol_sector s =
     (if s = 0 then (replicate 512 0)[0 := 0xeb, 2 := 0x90, 12 := 2, 13 := 1, 14 := 1, 16 := 1, 17 := 16,
        19 := 0x88, 20 := 0x13, 22 := 1]
      else if s = 1 then [0xf8, 0xff, 0xff, 0xff, 3, 0, 0xff, 0xff] @ replicate 504 0
      else if s = 2 then concat (entries [Live (Some [82, 101, 97, 100, 32, 77, 101]) demo_dent] @ replicate 14 (replicate 32 0))
      else replicate 512 (ucast s))"

definition vol_rd :: reader where "vol_rd s n = (0, span vol_sector s (nat n))"

definition vol_params :: fatfs where
  "vol_params = \<lparr>ftype = FAT16, dev = 0x80, start_sect = 0, nsect = 5000, cluster_size = 1, fat_size = 1,
     fat_sect = 1, root_sect = 2, root_size = 1, first_data_sect = 3, num_data_sect = 4997,
     num_clusters = 4997, label = replicate 12 0, fat = [], clust_mask = 0, clust_shift = 0\<rparr>"

abbreviation vol_items :: "item list" where
  "vol_items \<equiv> [Live (Some [82, 101, 97, 100, 32, 77, 101]) demo_dent]"

lemma length_lfn_ent:
  assumes "length part \<le> 13"
  shows "length (lfn_ent seq part) = 32"
proof -
  obtain a b c d e f g h i j k l m where "lfn_units part = [a, b, c, d, e, f, g, h, i, j, k, l, m]"
    using list13 [OF length_lfn_units [OF assms]] by blast
  then show ?thesis by (simp add: lfn_ent_def Let_def le_bytes_def)
qed

lemma vol_entries: "\<forall>e \<in> set (entries vol_items @ replicate 14 (replicate 32 0)). length e = 32"
  "length (entries vol_items @ replicate 14 (replicate 32 0)) = 16"
  using length_lfn_ent by (simp_all add: lfn_encode_def lfn_ents.simps demo_dent_def)

lemma vol_device: "device vol_rd vol_sector"
proof -
  have "length (concat (entries vol_items @ replicate 14 (replicate 32 (0 :: u8)))) = 16 * 32"
    using length_concat_blocks [of "entries vol_items @ replicate 14 (replicate 32 0)" "\<lambda>e. e" 32] vol_entries
    by simp
  then have "length (vol_sector s) = 512" for s by (simp add: vol_sector_def)
  then show ?thesis by (simp add: device_def vol_rd_def)
qed

lemma vol_boot_nth:
  "i < 512 \<Longrightarrow> vol_sector 0 ! i = (if i = 22 then 1 else if i = 20 then 0x13 else if i = 19 then 0x88
     else if i = 17 then 16 else if i = 16 then 1 else if i = 14 then 1 else if i = 13 then 1
     else if i = 12 then 2 else if i = 2 then 0x90 else if i = 0 then 0xeb else 0)"
  by (simp add: vol_sector_def nth_list_update)

lemma vol_bpb: "bpb_jmp0 (vol_sector 0) = 0xeb" "bpb_jmp2 (vol_sector 0) = 0x90" "bpb_sect_bytes (vol_sector 0) = 512"
  "bpb_cluster_size (vol_sector 0) = 1" "bpb_reserved_sect (vol_sector 0) = 1" "bpb_num_fats (vol_sector 0) = 1"
  "bpb_num_dirent (vol_sector 0) = 16" "bpb_num_sectors (vol_sector 0) = 5000" "bpb_fat_size (vol_sector 0) = 1"
  by (simp_all add: bpb_jmp0_def bpb_jmp2_def bpb_sect_bytes_def bpb_cluster_size_def bpb_reserved_sect_def
      bpb_num_fats_def bpb_num_dirent_def bpb_num_sectors_def bpb_fat_size_def le16_def vol_boot_nth)

lemma vol_label: "trim_label (bpb16_label (vol_sector 0) @ [0]) = replicate 12 0"
proof -
  have "replicate 11 (0 :: u8) @ [0] = replicate 12 0" by (simp add: numeral_eq_Suc)
  then show ?thesis
    by (simp add: bpb16_label_def vol_sector_def trim_label_def isspace_def isblank_def Let_def)
qed

lemma vol_boot: "fat_params 0x80 (-1) 0 (vol_sector 0) = Some vol_params" "boot_ok (vol_sector 0) 0"
  by (simp_all add: fat_params_def boot_ok_def vol_params_def vol_bpb vol_label fat_type_of_def Let_def)

lemma vol_volume: "volume vol_sector 0x80 (-1) 0 0 vol_params vol_items (replicate 14 (replicate 32 0))"
proof -
  have "span vol_sector (0 + ucast (root_sect vol_params)) (nat (root_size vol_params))
      = concat (entries vol_items @ replicate 14 (replicate 32 0))"
    by (simp add: vol_params_def span_def vol_sector_def)
  moreover have "\<forall>it \<in> set vol_items. good_item it"
    by (simp add: demo_dent_def DENT_IS_NULL_def DENT_IS_UNUSED_def DIRENT_UNUSED_def dent_attr_def ATTR_VOLID_def ATTR_LFN_def)
  moreover have "DENT_IS_NULL (hd (replicate 14 (replicate 32 (0 :: u8))))"
    by (simp add: DENT_IS_NULL_def)
  ultimately show ?thesis using vol_boot vol_entries(1) unfolding volume_def by (simp add: vol_params_def)
qed

theorem fsfat_create_mounts_witness:
  "\<exists>fs root. fsfat_create vol_rd 0x80 0x10000 (-1) 0 = Some (Some (Inr (fs, root)))
     \<and> map de_name (fsent root) = [[82, 101, 97, 100, 32, 77, 101]] \<and> geometry fs 9"
  using fsfat_create_mounts [OF vol_device _ _ vol_volume, of "0x10000"] by simp

lemma vol_stored: "stored vol_rd 0x80 (mounted vol_sector 0 vol_params) 9 [2, 3] 700"
proof -
  let ?fs = "mounted vol_sector 0 vol_params"
  have "fat ?fs = vol_sector 1" by (simp add: mounted_def vol_params_def span_def)
  moreover have "ftype ?fs = FAT16" by (simp add: mounted_def vol_params_def)
  ultimately have "next_cluster ?fs 2 = Some 3"
    by (simp add: next_cluster_def read_fat_def vol_sector_def le16_def)
  then have "chain ?fs [2, 3]" by (simp add: chain_def less_Suc_eq nth_Cons split: nat.splits)
  moreover have "geometry ?fs (0 + 9)" by (rule mounted_geometry [OF vol_boot])
  moreover have "length (cluster_data vol_rd 0x80 ?fs c) = 2 ^ 9" for c
    using vol_device length_span [of vol_sector _ 1]
    by (simp add: cluster_data_def read_cluster_def read_sectors_def mounted_def vol_params_def vol_rd_def device_def)
  ultimately show ?thesis by (simp add: stored_def)
qed



theorem fat_open_path_witness:
  "fat_open vol_rd 0x80 (mounted vol_sector 0 vol_params)
      \<lparr>ent = [], fsent = [\<lparr>de_name = [101], de_data = replicate 32 0, de_type = FSNODE_FILE, de_fsize = 0\<rparr>], cur_ent = 0\<rparr>
      None [47, 46, 47, 101] = Some (Inl None)"
proof -
  let ?e = "\<lparr>de_name = [101], de_data = replicate 32 0, de_type = FSNODE_FILE, de_fsize = 0\<rparr> :: fs_dirent"
  let ?r = "\<lparr>ent = [], fsent = [?e], cur_ent = 0\<rparr>"
  have f: "find_entry ?r [101] = Some ?e"
  proof -
    have "strcasecmp [101] [101] = 0" by code_simp
    then show ?thesis by (simp add: find_entry_def)
  qed
  have l: "leads vol_rd 0x80 (mounted vol_sector 0 vol_params) ?r ?r [[46]] ?r" by (intro leads.intros)
  have z: "dent_clust_low (replicate 32 0) OR dent_clust_high (replicate 32 0) = 0" "dent_attr (replicate 32 0) = 0"
    by (simp_all add: dent_clust_low_def dent_clust_high_def dent_attr_def le16_def)
  show ?thesis
    using fat_open_path [OF l, of "[101]" None] f z by (simp add: component_def MAX_NAME_def)
qed

end
