(* ===== verification/Fsmem.thy ===== *)
theory Fsmem
  imports Fat
begin

text \<open>
  The memory file system of \<open>src/fsmem.c\<close>. Its nodes lie in a store and point to each other by
  number: to the parent, to the next entry of the same directory, a directory to its first
  and last entry. The bytes of a file are an allocated block; a byte that was never written is \<open>None\<close>. The \<open>max_size\<close> of a file
  is the length of this list, and \<open>n_block\<close> is the size the heap has recorded for the block, its descriptor included. A node that is not in
  the store, a block that was released, a copy of a negative length and one that ends behind the block are \<open>None\<close> as
  results. Sizes and positions are \<open>int\<close>s below 2 GB.
\<close>

type_synonym nid = nat
type_synonym hid = nat
type_synonym fsid = nat

definition MEM_MAX_NAME :: nat where "MEM_MAX_NAME = 120"

record memfs_node =
  n_type :: fs_type
  n_name :: cstring
  n_parent :: "nid option"
  n_next :: "nid option"
  n_clist :: "nid option"
  n_ctail :: "nid option"
  n_data :: "u8 option list option"
  n_size :: int
  n_block :: int
  n_fsnode :: "hid option"

type_synonym store = "nid \<Rightarrow> memfs_node option"

section \<open>Nodes and directories\<close>

definition alloc_node :: "fs_type \<Rightarrow> memfs_node" where
  "alloc_node ty = \<lparr>n_type = ty, n_name = [], n_parent = None, n_next = None, n_clist = None,
     n_ctail = None, n_data = Some [], n_size = 0, n_block = 0, n_fsnode = None\<rparr>"

definition upd :: "store \<Rightarrow> nid \<Rightarrow> (memfs_node \<Rightarrow> memfs_node) \<Rightarrow> store" where
  "upd N n f = (case N n of None \<Rightarrow> N | Some nd \<Rightarrow> N(n \<mapsto> f nd))"

partial_function (option) find_child :: "store \<Rightarrow> nid option \<Rightarrow> cstring \<Rightarrow> nid option option" where
  "find_child N ptr name =
     (case ptr of
        None \<Rightarrow> Some None
      | Some n \<Rightarrow>
          (case N n of
             None \<Rightarrow> None
           | Some nd \<Rightarrow> if strcasecmp (n_name nd) name = 0 then Some (Some n) else find_child N (n_next nd) name))"

declare find_child.simps [code]

definition mem_find_entry :: "store \<Rightarrow> nid \<Rightarrow> cstring \<Rightarrow> nid option option" where
  "mem_find_entry N d name =
     (case N d of
        None \<Rightarrow> None
      | Some dnode \<Rightarrow>
          if strcmp name [46] = 0 then Some (Some d)
          else if strcmp name [46, 46] = 0 then Some (n_parent dnode)
          else find_child N (n_clist dnode) name)"

definition add_child :: "store \<Rightarrow> nid \<Rightarrow> nid \<Rightarrow> store option" where
  "add_child N d n =
     (case N d of
        None \<Rightarrow> None
      | Some dnode \<Rightarrow>
          (case n_clist dnode of
             Some _ \<Rightarrow>
               (case n_ctail dnode of
                  None \<Rightarrow> None
                | Some t \<Rightarrow>
                    Some (upd (upd (upd N t (\<lambda>nd. nd\<lparr>n_next := Some n\<rparr>)) d (\<lambda>nd. nd\<lparr>n_ctail := Some n\<rparr>))
                      n (\<lambda>nd. nd\<lparr>n_parent := Some d\<rparr>)))
           | None \<Rightarrow>
               Some (upd (upd N d (\<lambda>nd. nd\<lparr>n_clist := Some n, n_ctail := Some n\<rparr>))
                 n (\<lambda>nd. nd\<lparr>n_parent := Some d\<rparr>))))"

text \<open>\<open>open\<close> makes a new node \<open>n\<close> in the directory \<open>d\<close>.\<close>

definition mem_create :: "store \<Rightarrow> nid \<Rightarrow> nid \<Rightarrow> fs_type \<Rightarrow> cstring \<Rightarrow> store option" where
  "mem_create N d n ty name = add_child (N(n \<mapsto> (alloc_node ty)\<lparr>n_name := name\<rparr>)) d n"

text \<open>Only the bytes of a file are released; a directory's entries follow each other.\<close>

definition free_file_data :: "store \<Rightarrow> nid \<Rightarrow> store" where
  "free_file_data N n = upd N n (\<lambda>nd. if n_type nd = FSNODE_FILE then nd\<lparr>n_data := None\<rparr> else nd)"

text \<open>The loop of \<open>remove\<close> over the entries of \<open>par\<close>; \<open>prev\<close> is \<open>None\<close> at the dummy in front of them.\<close>

partial_function (option) unlink_loop :: "store \<Rightarrow> nid \<Rightarrow> nid \<Rightarrow> nid option \<Rightarrow> nid option \<Rightarrow> (store \<times> bool) option" where
  "unlink_loop N par n prev ptr =
     (case ptr of
        None \<Rightarrow> Some (N, False)
      | Some c \<Rightarrow>
          (case N c of
             None \<Rightarrow> None
           | Some nd \<Rightarrow>
               if c = n then
                 let N = upd N par (\<lambda>d. if n_ctail d = Some n then d\<lparr>n_ctail := prev\<rparr> else d);
                     N = (case prev of None \<Rightarrow> upd N par (\<lambda>d. d\<lparr>n_clist := n_next nd\<rparr>)
                          | Some p \<Rightarrow> upd N p (\<lambda>d. d\<lparr>n_next := n_next nd\<rparr>))
                 in Some (free_file_data N n, True)
               else unlink_loop N par n (Some c) (n_next nd)))"

declare unlink_loop.simps [code]

definition EEXIST :: int where "EEXIST = 14"
definition EBUSY :: int where "EBUSY = 5"

text \<open>The result of \<open>remove\<close> with the \<open>errno\<close> it sets.\<close>

definition mem_remove :: "store \<Rightarrow> nid \<Rightarrow> (int \<times> int option \<times> store) option" where
  "mem_remove N n =
     (case N n of
        None \<Rightarrow> None
      | Some nd \<Rightarrow>
          if n_type nd = FSNODE_DIR \<and> n_clist nd \<noteq> None then Some (-1, Some EEXIST, N)
          else (case n_parent nd of
              None \<Rightarrow> Some (-1, Some EBUSY, N)
            | Some par \<Rightarrow>
                (case N par of
                   None \<Rightarrow> None
                 | Some pnd \<Rightarrow>
                     map_option (\<lambda>(N, found). (if found then 0 else -1, None, N))
                       (unlink_loop N par n None (n_clist pnd)))))"

definition mem_rename :: "store \<Rightarrow> nid \<Rightarrow> cstring \<Rightarrow> store" where
  "mem_rename N n name = upd N n (\<lambda>nd. nd\<lparr>n_name := take MEM_MAX_NAME name\<rparr>)"

section \<open>Open files and directories\<close>

text \<open>\<open>struct ofile\<close> and \<open>struct odir\<close>.\<close>

record ofile =
  of_file :: nid
  of_pos :: int

record odir =
  od_dir :: nid
  od_cur :: "nid option"

definition mem_seek :: "memfs_node \<Rightarrow> ofile \<Rightarrow> int \<Rightarrow> whence \<Rightarrow> ofile" where
  "mem_seek nd f offs whence = (
     let new_pos = (case whence of FSSEEK_SET \<Rightarrow> offs | FSSEEK_CUR \<Rightarrow> of_pos f + offs | FSSEEK_END \<Rightarrow> n_size nd + offs)
     in f\<lparr>of_pos := if new_pos < 0 then 0 else new_pos\<rparr>)"

definition mem_tell :: "ofile \<Rightarrow> int" where "mem_tell f = of_pos f"

definition mem_fsize :: "memfs_node \<Rightarrow> int" where "mem_fsize nd = n_size nd"

definition mem_read :: "memfs_node \<Rightarrow> ofile \<Rightarrow> int \<Rightarrow> (int \<times> u8 option list \<times> ofile) option" where
  "mem_read nd f sz =
     (if sz < 0 then Some (-1, [], f)
      else
        let sz = (if n_size nd - of_pos f < sz then n_size nd - of_pos f else sz)
        in case n_data nd of
             None \<Rightarrow> None
           | Some data \<Rightarrow>
               if sz < 0 then None
               else Some (sz, take (nat sz) (drop (nat (of_pos f)) data), f\<lparr>of_pos := of_pos f + sz\<rparr>))"

definition ENOSPC :: int where "ENOSPC = 10"

text \<open>The size of a block with its descriptor, as \<open>malloc\<close> records it, and the \<open>max_size\<close> of a file that grows.\<close>

definition block_size :: "int \<Rightarrow> int" where "block_size n = (n + 15) div 4 * 4"

definition grown_max :: "int \<Rightarrow> int \<Rightarrow> int" where
  "grown_max max_size total_sz = (if total_sz < max_size * 2 then max_size * 2 else total_sz)"

text \<open>\<open>realloc\<close> compares the request with the size of the block including its descriptor, and keeps the block when it is
  not larger; otherwise \<open>room\<close> says whether the heap gives a new one. The copy may end behind a block that was kept.\<close>

definition mem_write :: "(int \<Rightarrow> bool) \<Rightarrow> memfs_node \<Rightarrow> ofile \<Rightarrow> u8 list \<Rightarrow> (int \<times> int option \<times> memfs_node \<times> ofile) option" where
  "mem_write room nd f buf =
     (case n_data nd of
        None \<Rightarrow> None
      | Some data \<Rightarrow>
          let sz = int (length buf); max_size = int (length data);
              total_sz = of_pos f + sz;
              new_max_sz = grown_max max_size total_sz;
              moves = max_size < total_sz \<and> n_block nd < new_max_sz
          in if moves \<and> \<not> room new_max_sz then Some (-1, Some ENOSPC, nd, f)
             else
               let block = (if moves then block_size new_max_sz else n_block nd);
                   data = (if max_size < total_sz then data @ replicate (nat (new_max_sz - max_size)) None else data);
                   data = take (nat (of_pos f)) data @ map Some buf @ drop (nat (of_pos f) + length buf) data;
                   pos = of_pos f + sz
               in if 0 < sz \<and> block < pos + 12 then None
                  else Some (sz, None, nd\<lparr>n_data := Some data, n_size := if n_size nd < pos then pos else n_size nd, n_block := block\<rparr>,
                    f\<lparr>of_pos := pos\<rparr>))"

text \<open>\<open>rewinddir\<close> and \<open>readdir\<close>: the name, the type and the size of the next entry. The size of a directory is \<open>None\<close>: what is read is the
  address of its last entry, which shares its place with the size of a file.\<close>

definition mem_rewinddir :: "store \<Rightarrow> odir \<Rightarrow> odir option" where
  "mem_rewinddir N od = map_option (\<lambda>d. od\<lparr>od_cur := n_clist d\<rparr>) (N (od_dir od))"

definition mem_readdir :: "store \<Rightarrow> odir \<Rightarrow> ((cstring \<times> fs_type \<times> int option) option \<times> odir) option" where
  "mem_readdir N od =
     (case od_cur od of
        None \<Rightarrow> Some (None, od)
      | Some n \<Rightarrow>
          map_option (\<lambda>nd. (Some (n_name nd, n_type nd, if n_type nd = FSNODE_FILE then Some (n_size nd) else None),
            od\<lparr>od_cur := n_next nd\<rparr>)) (N n))"

section \<open>Files\<close>

text \<open>Nothing is written behind the size of a file, and nothing behind its block; \<open>bytes\<close> are its contents.\<close>

definition file_ok :: "memfs_node \<Rightarrow> bool" where
  "file_ok nd \<longleftrightarrow> 0 \<le> n_size nd \<and> (\<exists>data. n_data nd = Some data \<and> nat (n_size nd) \<le> length data
     \<and> (\<forall>i. nat (n_size nd) \<le> i \<and> i < length data \<longrightarrow> data ! i = None)
     \<and> (\<forall>i < length data. n_block nd \<le> int i + 12 \<longrightarrow> data ! i = None))"

definition bytes :: "memfs_node \<Rightarrow> u8 option list" where
  "bytes nd = take (nat (n_size nd)) (the (n_data nd))"

definition overwrite :: "nat \<Rightarrow> u8 option list \<Rightarrow> u8 list \<Rightarrow> u8 option list" where
  "overwrite p old new = take p (old @ replicate (p - length old) None) @ map Some new @ drop (p + length new) old"

lemma length_bytes: "file_ok nd \<Longrightarrow> length (bytes nd) = nat (n_size nd)"
  by (auto simp: file_ok_def bytes_def)

lemma mem_read_spec:
  assumes "file_ok nd" "0 \<le> of_pos f" "of_pos f \<le> n_size nd" "0 \<le> sz"
  shows "mem_read nd f sz = Some (min sz (n_size nd - of_pos f), take (nat sz) (drop (nat (of_pos f)) (bytes nd)),
    f\<lparr>of_pos := of_pos f + min sz (n_size nd - of_pos f)\<rparr>)"
proof -
  obtain data where d: "n_data nd = Some data" "nat (n_size nd) \<le> length data" using assms(1) by (auto simp: file_ok_def)
  define l where "l = (if n_size nd - of_pos f < sz then n_size nd - of_pos f else sz)"
  have l: "l = min sz (n_size nd - of_pos f)" "0 \<le> l" using assms(3,4) by (auto simp: l_def)
  have "take (nat sz) (drop (nat (of_pos f)) (bytes nd)) = take (nat l) (drop (nat (of_pos f)) data)"
  proof -
    have "nat l = min (nat sz) (nat (n_size nd) - nat (of_pos f))" using assms(2-4) unfolding l(1) by simp
    then show ?thesis using d by (simp add: bytes_def drop_take min.commute)
  qed
  then show ?thesis using d l assms(4) unfolding mem_read_def l_def [symmetric] by (simp add: Let_def)
qed

lemma mem_read_behind: "0 \<le> sz \<Longrightarrow> n_size nd < of_pos f \<Longrightarrow> mem_read nd f sz = None"
  by (simp add: mem_read_def Let_def split: option.split)

lemma nth_overwrite:
  "i < max (length old) (p + length new) \<Longrightarrow> overwrite p old new ! i =
    (if i < p then (if i < length old then old ! i else None)
     else if i < p + length new then Some (new ! (i - p)) else old ! i)"
proof -
  assume i: "i < max (length old) (p + length new)"
  define h where "h = take p (old @ replicate (p - length old) None)"
  have h: "length h = p" "\<And>j. j < p \<Longrightarrow> h ! j = (if j < length old then old ! j else None)"
    by (auto simp: h_def nth_append)
  show ?thesis using i h unfolding overwrite_def h_def [symmetric] by (auto simp: nth_append)
qed

lemma length_overwrite: "length (overwrite p old new) = max (length old) (p + length new)"
  by (auto simp: overwrite_def)

text \<open>A write of \<open>k\<close> bytes at \<open>p\<close> does not end behind the block: \<open>realloc\<close> gives a new one or the old one is large enough.\<close>

definition write_fits :: "memfs_node \<Rightarrow> int \<Rightarrow> nat \<Rightarrow> bool" where
  "write_fits nd p k \<longleftrightarrow> k = 0 \<or> p + int k + 12 \<le> n_block nd
     \<or> (let m = int (length (the (n_data nd))) in m < p + int k \<and> n_block nd < grown_max m (p + int k))"

lemma block_size_ge: "n + 12 \<le> block_size n" "block_size n \<le> n + 15"
  by (simp_all add: block_size_def)

lemma grown_max_ge: "t \<le> grown_max m t"
  by (simp add: grown_max_def)

text \<open>A write is refused, ends behind the block, or is done, and then \<open>realloc\<close> has not failed.\<close>

lemma mem_write_cases:
  assumes "n_data nd = Some data"
    "m = int (length data)" "t = of_pos f + int (length buf)" "moves \<longleftrightarrow> m < t \<and> n_block nd < grown_max m t"
  shows "moves \<and> \<not> room (grown_max m t) \<and> mem_write room nd f buf = Some (-1, Some ENOSPC, nd, f)
    \<or> \<not> write_fits nd (of_pos f) (length buf) \<and> mem_write room nd f buf = None
    \<or> write_fits nd (of_pos f) (length buf) \<and> (\<exists>d z. mem_write room nd f buf = Some (int (length buf), None,
        nd\<lparr>n_data := Some d, n_size := z, n_block := if moves then block_size (grown_max m t) else n_block nd\<rparr>, f\<lparr>of_pos := t\<rparr>)
      \<and> mem_write (\<lambda>_. True) nd f buf = mem_write room nd f buf)"
proof (cases "moves \<and> \<not> room (grown_max m t)")
  case True
  then show ?thesis by (simp add: mem_write_def assms(1) Let_def assms(2,3) [symmetric] assms(4) [symmetric])
next
  case False
  define b where "b = (if moves then block_size (grown_max m t) else n_block nd)"
  have w: "write_fits nd (of_pos f) (length buf) \<longleftrightarrow> \<not> (0 < int (length buf) \<and> b < t + 12)"
    using block_size_ge(1) [of "grown_max m t"] grown_max_ge [of t m]
    by (auto simp: write_fits_def b_def assms(1-3) assms(4) Let_def)
  have n: "\<not> (moves \<and> \<not> True)" by simp
  note u = mem_write_def assms(1) option.case Let_def assms(2,3) [symmetric] assms(4) [symmetric] b_def [symmetric]
  show ?thesis
  proof (cases "0 < int (length buf) \<and> b < t + 12")
    case True
    then show ?thesis using w unfolding u if_not_P [OF False] by simp
  next
    case F: False
    have "write_fits nd (of_pos f) (length buf)" using w F by blast
    then show ?thesis unfolding u if_not_P [OF False] if_not_P [OF n] if_not_P [OF F]
      by (intro disjI2 conjI exI) (assumption | rule refl)+
  qed
qed

lemma mem_write_defined:
  assumes "mem_write room nd f buf = Some (r, err, nd', f')"
  shows "err = Some ENOSPC \<and> nd' = nd \<and> n_data nd \<noteq> None
    \<or> err = None \<and> write_fits nd (of_pos f) (length buf) \<and> mem_write (\<lambda>_. True) nd f buf = mem_write room nd f buf
      \<and> n_data nd \<noteq> None \<and> (\<exists>d z b. nd' = nd\<lparr>n_data := Some d, n_size := z, n_block := b\<rparr>)"
proof (cases "n_data nd")
  case None
  then show ?thesis using assms by (simp add: mem_write_def)
next
  case (Some data)
  then show ?thesis using mem_write_cases [OF Some refl refl refl, where room = room and f = f and buf = buf] assms by auto
qed

text \<open>When \<open>realloc\<close> keeps a block that is too small, the copy ends behind it.\<close>

lemma mem_write_overruns:
  assumes "\<not> write_fits nd (of_pos f) (length buf)"
  shows "mem_write room nd f buf = None"
proof (cases "n_data nd")
  case None
  then show ?thesis by (simp add: mem_write_def)
next
  case (Some data)
  have "0 < length buf" "\<not> (int (length data) < of_pos f + int (length buf) \<and> n_block nd < grown_max (int (length data)) (of_pos f + int (length buf)))"
    using assms Some by (auto simp: write_fits_def Let_def)
  then show ?thesis using mem_write_cases [OF Some refl refl refl, where room = room and f = f and buf = buf] assms by auto
qed

lemma mem_write_spec:
  assumes "file_ok nd" "0 \<le> of_pos f" "write_fits nd (of_pos f) (length buf)"
    "of_pos f + int (length buf) \<le> int (length (the (n_data nd))) \<or> (\<forall>n. room n)"
  shows "\<exists>nd'. mem_write room nd f buf = Some (int (length buf), None, nd', f\<lparr>of_pos := of_pos f + int (length buf)\<rparr>)
    \<and> file_ok nd' \<and> bytes nd' = overwrite (nat (of_pos f)) (bytes nd) buf
    \<and> (n_data nd = Some [] \<and> n_block nd = 0 \<and> of_pos f = 0 \<longrightarrow> length (the (n_data nd')) = length buf
       \<and> n_block nd' = (if buf = [] then 0 else block_size (int (length buf))))"
proof -
  obtain data where d: "n_data nd = Some data" "nat (n_size nd) \<le> length data" "0 \<le> n_size nd"
      "\<forall>i. nat (n_size nd) \<le> i \<and> i < length data \<longrightarrow> data ! i = None"
      "\<forall>i < length data. n_block nd \<le> int i + 12 \<longrightarrow> data ! i = None"
    using assms(1) by (auto simp: file_ok_def)
  define p s where "p = nat (of_pos f)" and "s = nat (n_size nd)"
  have ps: "of_pos f = int p" "n_size nd = int s" using assms(2) d(3) by (simp_all add: p_def s_def)
  define mx where "mx = grown_max (int (length data)) (int p + int (length buf))"
  define data1 where "data1 = (if int (length data) < int p + int (length buf)
      then data @ replicate (nat (mx - int (length data))) None else data)"
  have l1: "p + length buf \<le> length data1" "length data \<le> length data1"
    by (auto simp: data1_def mx_def grown_max_def)
  have n1: "data1 ! i = (if i < length data then data ! i else None)" if "i < length data1" for i
    using that by (auto simp: data1_def nth_append)
  define data2 where "data2 = take p data1 @ map Some buf @ drop (p + length buf) data1"
  have l2: "length data2 = length data1" using l1 by (simp add: data2_def)
  have n2: "data2 ! i = (if i < p then data1 ! i else if i < p + length buf then Some (buf ! (i - p)) else data1 ! i)"
    if "i < length data1" for i
    using that l1 by (auto simp: data2_def nth_append)
  define s' where "s' = max s (p + length buf)"
  define mv where "mv \<longleftrightarrow> int (length data) < int p + int (length buf) \<and> n_block nd < mx"
  define blk where "blk = (if mv then block_size mx else n_block nd)"
  have blk: "n_block nd \<le> blk" "0 < length buf \<Longrightarrow> int p + int (length buf) + 12 \<le> blk"
    using block_size_ge(1) [of mx] grown_max_ge [of "int p + int (length buf)" "int (length data)"] assms(3) d(1) ps(1)
    by (auto simp: blk_def mv_def write_fits_def mx_def [symmetric] Let_def)
  let ?nd = "nd\<lparr>n_data := Some data2, n_size := int s', n_block := blk\<rparr>"
  have "mem_write room nd f buf = Some (int (length buf), None, ?nd, f\<lparr>of_pos := int p + int (length buf)\<rparr>)"
  proof -
    have fits: "\<not> (mv \<and> \<not> room mx)" using assms(4) d(1) ps(1) by (auto simp: mv_def)
    have inside: "\<not> (0 < int (length buf) \<and> blk < int p + int (length buf) + 12)" using blk(2) by auto
    have "(if int s < int p + int (length buf) then int p + int (length buf) else int s) = int s'"
      by (simp add: s'_def max_def)
    then show ?thesis
      unfolding mem_write_def ps d(1) option.case Let_def mx_def [symmetric] mv_def [symmetric] blk_def [symmetric] if_not_P [OF fits] if_not_P [OF inside]
      by (simp add: data2_def data1_def)
  qed
  moreover have s': "s' \<le> length data2" using l1 l2 d(2) s_def by (simp add: s'_def)
  moreover have "file_ok ?nd"
  proof -
    have "data2 ! i = None" if "i < length data2" "blk \<le> int i + 12" for i
      using that n2 [of i] n1 [of i] l2 blk d(5) by (cases "buf = []") auto
    then show ?thesis using s' n2 n1 d(4) l2 by (auto simp: file_ok_def s'_def s_def [symmetric])
  qed
  moreover have "bytes ?nd = overwrite p (bytes nd) buf"
  proof (rule nth_equalityI)
    have lb: "length (bytes nd) = s" using length_bytes [OF assms(1)] by (simp add: s_def)
    show "length (bytes ?nd) = length (overwrite p (bytes nd) buf)"
      using s' lb by (simp add: bytes_def length_overwrite s'_def)
    fix i assume "i < length (bytes ?nd)"
    then have i: "i < s'" using s' by (simp add: bytes_def)
    have "bytes ?nd ! i = data2 ! i" using i by (simp add: bytes_def)
    also have "\<dots> = (if i < p then data1 ! i else if i < p + length buf then Some (buf ! (i - p)) else data1 ! i)"
      using i s' l2 by (intro n2) simp
    also have "\<dots> = overwrite p (bytes nd) buf ! i"
      using i s' l2 lb d(1,2,4) n1 [of i] nth_overwrite [of i "bytes nd" p buf]
      by (auto simp: s'_def bytes_def s_def [symmetric])
    finally show "bytes ?nd ! i = overwrite p (bytes nd) buf ! i" .
  qed
  moreover have "length data2 = length buf \<and> blk = (if buf = [] then 0 else block_size (int (length buf)))"
    if "n_data nd = Some []" "n_block nd = 0" "of_pos f = 0"
    using that d(1) ps l2 by (cases "buf = []") (auto simp: data1_def blk_def mv_def mx_def grown_max_def)
  ultimately show ?thesis using ps by (intro exI [of _ ?nd]) (auto simp: p_def [symmetric])
qed

end
