(* ===== verification/Fsmem_Tree.thy ===== *)
theory Fsmem_Tree
  imports Fsmem
begin

text \<open>
  The directories of the memory file system as linked lists: which lists of entries the
  pointers stand for, what the operations do to them, and the invariant that creating,
  removing, renaming and writing keep.
\<close>

section \<open>Lists of entries\<close>

fun seg :: "store \<Rightarrow> nid option \<Rightarrow> nid list \<Rightarrow> bool" where
  "seg N p [] \<longleftrightarrow> p = None"
| "seg N p (n # ns) \<longleftrightarrow> p = Some n \<and> (case N n of None \<Rightarrow> False | Some nd \<Rightarrow> seg N (n_next nd) ns)"

definition last_opt :: "nid list \<Rightarrow> nid option" where
  "last_opt ns = (if ns = [] then None else Some (last ns))"

text \<open>The directory \<open>d\<close> has the entries \<open>ns\<close>.\<close>

definition dir_has :: "store \<Rightarrow> nid \<Rightarrow> nid list \<Rightarrow> bool" where
  "dir_has N d ns \<longleftrightarrow> (case N d of None \<Rightarrow> False | Some dn \<Rightarrow>
     seg N (n_clist dn) ns \<and> n_ctail dn = last_opt ns \<and> distinct ns
     \<and> (\<forall>n \<in> set ns. \<exists>nd. N n = Some nd \<and> n_parent nd = Some d))"

lemma seg_cong:
  "(\<And>n. n \<in> set ns \<Longrightarrow> map_option n_next (N' n) = map_option n_next (N n)) \<Longrightarrow> seg N' p ns = seg N p ns"
proof (induction ns arbitrary: p)
  case (Cons n ns)
  then have "map_option n_next (N' n) = map_option n_next (N n)" by simp
  then show ?case using Cons by (cases "N n"; cases "N' n") simp_all
qed simp

lemma seg_in: "seg N p ns \<Longrightarrow> n \<in> set ns \<Longrightarrow> N n \<noteq> None"
  by (induction ns arbitrary: p) (auto split: option.splits)

lemma find_child_seg:
  "seg N p ns \<Longrightarrow> find_child N p name =
    Some (find (\<lambda>n. strcasecmp (n_name (the (N n))) name = 0) ns)"
proof (induction ns arbitrary: p)
  case (Cons n ns)
  then show ?case by (subst find_child.simps) (auto split: option.splits)
qed (subst find_child.simps, simp)

lemma seg_append_one:
  assumes "seg N p ns" "ns \<noteq> []" "distinct ns" "n \<notin> set ns" "N n = Some nd" "n_next nd = None"
  shows "seg (upd N (last ns) (\<lambda>nd. nd\<lparr>n_next := Some n\<rparr>)) p (ns @ [n])"
  using assms
proof (induction ns arbitrary: p)
  case (Cons m ns)
  obtain md where m: "N m = Some md" "p = Some m" "seg N (n_next md) ns" using Cons.prems(1) by (auto split: option.splits)
  show ?case
  proof (cases "ns = []")
    case True
    then show ?thesis using m Cons.prems by (auto simp: upd_def)
  next
    case False
    have "seg (upd N (last ns) (\<lambda>nd. nd\<lparr>n_next := Some n\<rparr>)) (n_next md) (ns @ [n])"
      using False Cons.prems m by (intro Cons.IH) auto
    moreover have "m \<noteq> last ns" using Cons.prems(3) False by auto
    ultimately show ?thesis using False m by (auto simp: upd_def split: option.splits)
  qed
qed simp

lemma upd_same: "upd N n f m = (if m = n then map_option f (N n) else N m)"
  by (auto simp: upd_def split: option.splits)

lemma upd_field: "(\<And>x. g (f x) = g x) \<Longrightarrow> map_option g (upd N n f m) = map_option g (N m)"
  by (simp add: upd_same option.map_comp comp_def)

lemma upd_other: "m \<noteq> n \<Longrightarrow> upd N n f m = N m"
  by (simp add: upd_same)

text \<open>Taking an entry out: the loop of \<open>remove\<close> from the entry in front on.\<close>

lemma unlink_from:
  assumes "seg N ptr (xs @ n # ys)" "distinct (xs @ n # ys)" "par \<notin> set (xs @ n # ys)" "N n = Some nd"
  shows "unlink_loop N par n prev ptr = Some (free_file_data
     (case last_opt ((case prev of None \<Rightarrow> [] | Some p \<Rightarrow> [p]) @ xs) of
        None \<Rightarrow> upd (upd N par (\<lambda>d. if n_ctail d = Some n then d\<lparr>n_ctail := None\<rparr> else d)) par (\<lambda>d. d\<lparr>n_clist := n_next nd\<rparr>)
      | Some p \<Rightarrow> upd (upd N par (\<lambda>d. if n_ctail d = Some n then d\<lparr>n_ctail := Some p\<rparr> else d)) p (\<lambda>d. d\<lparr>n_next := n_next nd\<rparr>)) n, True)"
  using assms
proof (induction xs arbitrary: ptr prev)
  case Nil
  then have "ptr = Some n" by simp
  then show ?case using Nil(4) by (cases prev) (simp_all add: unlink_loop.simps [of N par n _ "Some n"] last_opt_def Let_def)
next
  case (Cons x xs)
  then obtain xd where x: "ptr = Some x" "N x = Some xd" "seg N (n_next xd) (xs @ n # ys)" "x \<noteq> n"
    by (auto split: option.splits)
  have "unlink_loop N par n prev ptr = unlink_loop N par n (Some x) (n_next xd)"
    using x by (simp add: unlink_loop.simps [of N par n prev "Some x"])
  also have "\<dots> = Some (free_file_data
     (case last_opt ([x] @ xs) of
        None \<Rightarrow> upd (upd N par (\<lambda>d. if n_ctail d = Some n then d\<lparr>n_ctail := None\<rparr> else d)) par (\<lambda>d. d\<lparr>n_clist := n_next nd\<rparr>)
      | Some p \<Rightarrow> upd (upd N par (\<lambda>d. if n_ctail d = Some n then d\<lparr>n_ctail := Some p\<rparr> else d)) p (\<lambda>d. d\<lparr>n_next := n_next nd\<rparr>)) n, True)"
    using Cons.IH [OF x(3), of "Some x"] Cons.prems by simp
  also have "last_opt ([x] @ xs) = last_opt ((case prev of None \<Rightarrow> [] | Some p \<Rightarrow> [p]) @ x # xs)"
    by (cases prev) (simp_all add: last_opt_def)
  finally show ?case .
qed

lemma seg_split: "seg N p (xs @ ys) \<Longrightarrow>
    \<exists>q. seg N q ys \<and> (if xs = [] then q = p else \<exists>ld. N (last xs) = Some ld \<and> q = n_next ld)"
proof (induction xs arbitrary: p)
  case (Cons x xs)
  then obtain xd where x: "N x = Some xd" "seg N (n_next xd) (xs @ ys)" by (auto split: option.splits)
  then show ?case using Cons.IH [OF x(2)] by (auto split: if_splits)
qed simp

lemma seg_unlink:
  assumes "seg N p (xs @ n # ys)" "distinct (xs @ n # ys)" "xs \<noteq> []" "N n = Some nd"
    "\<And>m. m \<in> set (xs @ ys) \<Longrightarrow> m \<noteq> last xs \<Longrightarrow> map_option n_next (N' m) = map_option n_next (N m)"
    "map_option n_next (N' (last xs)) = Some (n_next nd)"
  shows "seg N' p (xs @ ys)"
  using assms
proof (induction xs arbitrary: p)
  case (Cons x xs)
  then obtain xd where x: "N x = Some xd" "p = Some x" "seg N (n_next xd) (xs @ n # ys)" by (auto split: option.splits)
  show ?case
  proof (cases "xs = []")
    case True
    then have "seg N (n_next nd) ys" using x(3) Cons.prems(4) by simp
    then have "seg N' (n_next nd) ys"
      using Cons.prems(2,5) True by (subst seg_cong [of ys N' N]) auto
    then show ?thesis using Cons.prems(6) True x(2) by (cases "N' x") auto
  next
    case False
    have "seg N' (n_next xd) (xs @ ys)" using Cons.prems False x(3) by (intro Cons.IH) auto
    moreover have "x \<noteq> last xs" using last_in_set [OF False] Cons.prems(2) by auto
    then have "map_option n_next (N' x) = Some (n_next xd)"
      using Cons.prems(5) [of x] False x(1) by auto
    ultimately show ?thesis using x(2) by (cases "N' x") auto
  qed
qed simp

section \<open>The tree\<close>

lemma dir_has_cong:
  assumes "dir_has N d ns" "map_option n_clist (N' d) = map_option n_clist (N d)" "map_option n_ctail (N' d) = map_option n_ctail (N d)"
    "\<And>m. m \<in> set ns \<Longrightarrow> map_option n_next (N' m) = map_option n_next (N m) \<and> map_option n_parent (N' m) = map_option n_parent (N m)"
  shows "dir_has N' d ns"
proof -
  have "seg N' p ns = seg N p ns" for p by (rule seg_cong) (use assms(4) in blast)
  moreover have "\<forall>n \<in> set ns. \<exists>nd. N' n = Some nd \<and> n_parent nd = Some d"
  proof
    fix n assume n: "n \<in> set ns"
    then obtain nd where "N n = Some nd" "n_parent nd = Some d" using assms(1) by (auto simp: dir_has_def split: option.splits)
    then show "\<exists>nd. N' n = Some nd \<and> n_parent nd = Some d" using assms(4) [OF n] by (cases "N' n") auto
  qed
  ultimately show ?thesis using assms(1-3) by (auto simp: dir_has_def split: option.splits)
qed

text \<open>Every directory is a list of entries that point back to it; \<open>kids\<close> gives the lists.\<close>

definition tree :: "store \<Rightarrow> (nid \<Rightarrow> nid list) \<Rightarrow> bool" where
  "tree N kids \<longleftrightarrow> (\<forall>d. case N d of None \<Rightarrow> kids d = []
     | Some dn \<Rightarrow> n_parent dn \<noteq> Some d \<and> (if n_type dn = FSNODE_DIR then dir_has N d (kids d) else kids d = []))"

lemma tree_at:
  assumes "tree N kids" "N d = Some dn"
  shows "n_parent dn \<noteq> Some d \<and> (if n_type dn = FSNODE_DIR then dir_has N d (kids d) else kids d = [])"
  using spec [OF assms(1) [unfolded tree_def], of d] unfolding assms(2) option.case .

lemma tree_none:
  assumes "tree N kids" "N d = None"
  shows "kids d = []"
  using spec [OF assms(1) [unfolded tree_def], of d] unfolding assms(2) by (simp only: option.case)

lemma treeI:
  assumes "\<And>d. N d = None \<Longrightarrow> kids d = []"
    "\<And>d dn. N d = Some dn \<Longrightarrow> n_parent dn \<noteq> Some d \<and> (if n_type dn = FSNODE_DIR then dir_has N d (kids d) else kids d = [])"
  shows "tree N kids"
  unfolding tree_def using assms by (simp split: option.split)

lemma tree_dir: "tree N kids \<Longrightarrow> N d = Some dn \<Longrightarrow> n_type dn = FSNODE_DIR \<Longrightarrow> dir_has N d (kids d)"
  using tree_at by fastforce

lemma tree_kid:
  assumes "tree N kids" "m \<in> set (kids d)"
  obtains md where "N m = Some md" "n_parent md = Some d" "m \<noteq> d"
proof -
  obtain dn where dn: "N d = Some dn" using assms tree_none [OF assms(1)] by (cases "N d") auto
  then have "n_type dn = FSNODE_DIR" using assms tree_at [OF assms(1) dn] by (auto split: if_splits)
  then have "dir_has N d (kids d)" using tree_dir [OF assms(1) dn] by blast
  then obtain md where md: "N m = Some md" "n_parent md = Some d" using assms(2) dn
    by (auto simp: dir_has_def)
  then show ?thesis using that tree_at [OF assms(1) md(1)] by auto
qed

lemma tree_disjoint: "tree N kids \<Longrightarrow> m \<in> set (kids d) \<Longrightarrow> m \<in> set (kids e) \<Longrightarrow> d = e"
  by (metis option.inject tree_kid)

text \<open>What the operations on directories leave of a node.\<close>

definition meta :: "memfs_node \<Rightarrow> nid option \<times> u8 option list option \<times> int \<times> int \<times> fs_type \<times> hid option" where
  "meta nd = (n_parent nd, n_data nd, n_size nd, n_block nd, n_type nd, n_fsnode nd)"

text \<open>A new entry goes to the end of its directory.\<close>

lemma mem_create_tree:
  assumes "tree N kids" "N d = Some dn" "n_type dn = FSNODE_DIR" "N n = None"
  shows "\<exists>N'. mem_create N d n ty name = Some N' \<and> tree N' (kids(d := kids d @ [n]))
    \<and> (\<exists>nd. N' n = Some nd \<and> n_name nd = name \<and> meta nd = (Some d, Some [], 0, 0, ty, None))
    \<and> (\<forall>m. m \<noteq> n \<longrightarrow> map_option n_name (N' m) = map_option n_name (N m) \<and> map_option n_type (N' m) = map_option n_type (N m)
         \<and> map_option meta (N' m) = map_option meta (N m))"
proof -
  have dh: "dir_has N d (kids d)" by (rule tree_dir [OF assms(1-3)])
  have dn: "d \<noteq> n" using assms(2,4) by auto
  let ?new = "(alloc_node ty)\<lparr>n_name := name\<rparr>"
  let ?N1 = "N(n \<mapsto> ?new)"
  have nk: "n \<notin> set (kids e)" for e using tree_kid [OF assms(1), of n e] assms(4) by (metis option.distinct(1))
  have kn: "kids n = []" by (rule tree_none [OF assms(1,4)])
  have dh1: "seg N (n_clist dn) (kids d)" "n_ctail dn = last_opt (kids d)" "distinct (kids d)"
    using dh assms(2) by (simp_all add: dir_has_def)
  define N' where "N' = (if kids d = [] then upd (upd ?N1 d (\<lambda>nd. nd\<lparr>n_clist := Some n, n_ctail := Some n\<rparr>)) n (\<lambda>nd. nd\<lparr>n_parent := Some d\<rparr>)
     else upd (upd (upd ?N1 (last (kids d)) (\<lambda>nd. nd\<lparr>n_next := Some n\<rparr>)) d (\<lambda>nd. nd\<lparr>n_ctail := Some n\<rparr>)) n (\<lambda>nd. nd\<lparr>n_parent := Some d\<rparr>))"
  have "mem_create N d n ty name = Some N'"
  proof (cases "kids d")
    case Nil
    then show ?thesis using dh1 assms(2) dn by (simp add: mem_create_def add_child_def N'_def)
  next
    case (Cons k ks)
    then have "n_clist dn = Some k" "n_ctail dn = Some (last (kids d))" using dh1 by (auto simp: last_opt_def split: option.splits)
    then show ?thesis using Cons assms(2) dn by (simp add: mem_create_def add_child_def N'_def)
  qed
  moreover have at_n: "N' n = Some (?new\<lparr>n_parent := Some d\<rparr>)"
    using dn nk [of d] by (cases "kids d = []") (auto simp: N'_def upd_same dest: last_in_set)
  moreover have other: "map_option n_name (N' m) = map_option n_name (N m) \<and> map_option n_type (N' m) = map_option n_type (N m)
      \<and> map_option meta (N' m) = map_option meta (N m) \<and> map_option n_parent (N' m) = map_option n_parent (N m)" if "m \<noteq> n" for m
    using that by (cases "N m") (auto simp: N'_def upd_same meta_def)
  moreover have "tree N' (kids(d := kids d @ [n]))"
  proof (rule treeI)
    fix e assume "N' e = None"
    moreover from this have "e \<noteq> n" using at_n by auto
    ultimately have "N e = None" using other [of e] by (cases "N e") auto
    then show "(kids(d := kids d @ [n])) e = []" using tree_none [OF assms(1)] assms(2) by auto
  next
    fix e en' assume e': "N' e = Some en'"
    consider "e = n" | "e = d" | "e \<noteq> n" "e \<noteq> d" by blast
    then show "n_parent en' \<noteq> Some e \<and> (if n_type en' = FSNODE_DIR then dir_has N' e ((kids(d := kids d @ [n])) e)
       else (kids(d := kids d @ [n])) e = [])"
    proof cases
      case 1
      then show ?thesis using e' at_n dn kn by (auto simp: alloc_node_def dir_has_def last_opt_def)
    next
      case 2
      have "dir_has N' d (kids d @ [n])"
      proof (cases "kids d = []")
        case True
        then show ?thesis using assms(2) dn by (simp add: dir_has_def N'_def upd_same last_opt_def alloc_node_def)
      next
        case False
        have ld: "last (kids d) \<in> set (kids d)" "last (kids d) \<noteq> n" "last (kids d) \<noteq> d"
          using False nk [of d] last_in_set [OF False] tree_kid [OF assms(1) last_in_set [OF False]] by metis+
        have "seg ?N1 (n_clist dn) (kids d) = seg N (n_clist dn) (kids d)" using nk [of d] by (intro seg_cong) auto
        then have "seg (upd ?N1 (last (kids d)) (\<lambda>nd. nd\<lparr>n_next := Some n\<rparr>)) (n_clist dn) (kids d @ [n])"
          using dh1 False nk [of d] by (intro seg_append_one [where nd = ?new]) (simp_all add: alloc_node_def)
        then have "seg N' (n_clist dn) (kids d @ [n])"
          using False by (subst seg_cong [of _ N' "upd ?N1 (last (kids d)) (\<lambda>nd. nd\<lparr>n_next := Some n\<rparr>)"])
            (auto simp: N'_def upd_same option.map_comp comp_def)
        moreover have "\<exists>nd. N' m = Some nd \<and> n_parent nd = Some d" if "m \<in> set (kids d @ [n])" for m
        proof (cases "m = n")
          case False
          then have "m \<in> set (kids d)" using that by simp
          then obtain md where "N m = Some md" "n_parent md = Some d" by (rule tree_kid [OF assms(1)])
          then show ?thesis using other [OF False] by (cases "N' m") auto
        qed (use at_n in simp)
        moreover have "\<exists>dn'. N' d = Some dn' \<and> n_clist dn' = n_clist dn \<and> n_ctail dn' = Some n"
          using False dn ld assms(2) by (simp add: N'_def upd_same)
        ultimately show ?thesis using False dh1(3) nk [of d] by (auto simp: dir_has_def last_opt_def)
      qed
      then show ?thesis using 2 e' other [of d] dn assms(2,3) tree_at [OF assms(1,2)] by auto
    next
      case 3
      obtain en where Some: "N e = Some en" "n_type en' = n_type en" "n_parent en' = n_parent en"
        using other [OF 3(1)] e' by (cases "N e") auto
      have "dir_has N' e (kids e)" if "dir_has N e (kids e)"
      proof (rule dir_has_cong [OF that])
          show "map_option n_clist (N' e) = map_option n_clist (N e)" "map_option n_ctail (N' e) = map_option n_ctail (N e)"
            using 3 by (cases "kids d = []"; cases "N e"; auto simp: N'_def upd_same)+
          fix m assume m: "m \<in> set (kids e)"
          have "m \<noteq> n" using nk [of e] m by metis
          moreover have "m \<notin> set (kids d)"
          proof
            assume "m \<in> set (kids d)"
            then have "e = d" by (rule tree_disjoint [OF assms(1) m])
            then show False using 3 by simp
          qed
          then have "kids d \<noteq> [] \<Longrightarrow> m \<noteq> last (kids d)" by (metis last_in_set)
          ultimately show "map_option n_next (N' m) = map_option n_next (N m) \<and> map_option n_parent (N' m) = map_option n_parent (N m)"
            by (cases "kids d = []"; cases "N m"; auto simp: N'_def upd_same)
        qed
        then show ?thesis using tree_at [OF assms(1) Some(1)] Some 3 by auto
    qed
  qed
  ultimately show ?thesis by (auto simp: alloc_node_def meta_def)
qed

text \<open>Changing links within one directory \<open>d\<close> leaves the others alone.\<close>

lemma tree_other_dirs:
  assumes "tree N kids" "\<And>m. m \<noteq> d \<Longrightarrow> map_option n_clist (N' m) = map_option n_clist (N m) \<and> map_option n_ctail (N' m) = map_option n_ctail (N m)"
    "\<And>m. m \<notin> set (kids d) \<Longrightarrow> map_option n_next (N' m) = map_option n_next (N m)"
    "\<And>m. map_option n_parent (N' m) = map_option n_parent (N m) \<and> map_option n_type (N' m) = map_option n_type (N m)"
    "N d = Some dn" "n_type dn = FSNODE_DIR" "dir_has N' d ns"
  shows "tree N' (kids(d := ns))"
proof (rule treeI)
  fix e assume "N' e = None"
  then have "N e = None" using assms(4) [of e] by (cases "N e") auto
  then show "(kids(d := ns)) e = []" using tree_none [OF assms(1)] assms(5) by auto
next
  fix e en' assume e': "N' e = Some en'"
  then obtain en where en: "N e = Some en" "n_parent en' = n_parent en" "n_type en' = n_type en"
    using assms(4) [of e] by (cases "N e") auto
  show "n_parent en' \<noteq> Some e \<and> (if n_type en' = FSNODE_DIR then dir_has N' e ((kids(d := ns)) e) else (kids(d := ns)) e = [])"
  proof (cases "e = d")
    case True
    then show ?thesis using en assms(5-7) tree_at [OF assms(1,5)] by simp
  next
    case False
    have "dir_has N' e (kids e)" if "dir_has N e (kids e)"
    proof (rule dir_has_cong [OF that])
      show "map_option n_clist (N' e) = map_option n_clist (N e)" "map_option n_ctail (N' e) = map_option n_ctail (N e)"
        using assms(2) [OF False] by simp_all
      fix m assume m: "m \<in> set (kids e)"
      have "m \<notin> set (kids d)" using tree_disjoint [OF assms(1) m, of d] False by blast
      then show "map_option n_next (N' m) = map_option n_next (N m) \<and> map_option n_parent (N' m) = map_option n_parent (N m)"
        using assms(3,4) by simp
    qed
    then show ?thesis using tree_at [OF assms(1) en(1)] en False by simp
  qed
qed

lemma mem_remove_tree:
  assumes "tree N kids" "n \<in> set (kids d)" "kids n = []"
  shows "\<exists>N'. mem_remove N n = Some (0, None, N') \<and> tree N' (kids(d := remove1 n (kids d)))
    \<and> (\<forall>m. m \<noteq> n \<longrightarrow> map_option n_name (N' m) = map_option n_name (N m) \<and> map_option n_type (N' m) = map_option n_type (N m)
         \<and> map_option meta (N' m) = map_option meta (N m))
    \<and> map_option n_parent (N' n) = map_option n_parent (N n) \<and> map_option n_type (N' n) = map_option n_type (N n) \<and> (\<exists>nd'. N' n = Some nd' \<and> (n_data nd' = None \<or> Some (meta nd') = map_option meta (N n)))"
proof -
  obtain nd where nd: "N n = Some nd" "n_parent nd = Some d" "n \<noteq> d" by (rule tree_kid [OF assms(1,2)])
  obtain dn where dn: "N d = Some dn" using assms(2) tree_none [OF assms(1), of d] by (cases "N d") auto
  then have ty: "n_type dn = FSNODE_DIR" using assms(2) tree_at [OF assms(1) dn] by (auto split: if_splits)
  have dh: "seg N (n_clist dn) (kids d)" "n_ctail dn = last_opt (kids d)" "distinct (kids d)"
    "\<forall>m \<in> set (kids d). \<exists>md. N m = Some md \<and> n_parent md = Some d"
    using tree_dir [OF assms(1) dn ty] dn by (simp_all add: dir_has_def)
  obtain xs ys where xy: "kids d = xs @ n # ys" using assms(2) split_list by fastforce
  have dist: "distinct (xs @ n # ys)" and seg: "seg N (n_clist dn) (xs @ n # ys)" using dh xy by simp_all
  have dk: "d \<notin> set (xs @ n # ys)" using tree_kid [OF assms(1), of d d] unfolding xy by metis
  have r1: "remove1 n (kids d) = xs @ ys" using dist unfolding xy by (simp add: remove1_append)
  define N1 where "N1 = upd N d (\<lambda>x. if n_ctail x = Some n then x\<lparr>n_ctail := last_opt xs\<rparr> else x)"
  define N2 where "N2 = (if xs = [] then upd N1 d (\<lambda>x. x\<lparr>n_clist := n_next nd\<rparr>) else upd N1 (last xs) (\<lambda>x. x\<lparr>n_next := n_next nd\<rparr>))"
  define N' where "N' = free_file_data N2 n"
  have "unlink_loop N d n None (n_clist dn) = Some (N', True)"
    using unlink_from [OF seg dist dk nd(1), of None]
    by (cases "xs = []") (simp_all add: N'_def N2_def N1_def last_opt_def cong: if_cong)
  moreover have "\<not> (n_type nd = FSNODE_DIR \<and> n_clist nd \<noteq> None)"
    using tree_dir [OF assms(1) nd(1)] assms(3) nd(1) by (auto simp: dir_has_def)
  ultimately have run: "mem_remove N n = Some (0, None, N')" using nd dn by (simp add: mem_remove_def)
  have at: "N' m = map_option (\<lambda>x. (if m = n \<and> n_type x = FSNODE_FILE then x\<lparr>n_data := None\<rparr> else x)) (N2 m)" for m
    by (cases "N2 m") (auto simp: N'_def free_file_data_def upd_same)
  have N1_at: "map_option g (N1 m) = map_option g (N m)" if "\<And>x v. g (x\<lparr>n_ctail := v\<rparr>) = g x" for g :: "memfs_node \<Rightarrow> 'b" and m
    unfolding N1_def by (rule upd_field) (simp add: that)
  have N1_d: "N1 m = N m" if "m \<noteq> d" for m unfolding N1_def by (rule upd_other [OF that])
  have N2_nx: "map_option n_next (N2 m) = (if xs \<noteq> [] \<and> m = last xs then map_option (\<lambda>_. n_next nd) (N m) else map_option n_next (N m))" for m
  proof -
    have "map_option n_next (N1 m) = map_option n_next (N m)" by (rule N1_at) simp
    moreover have "map_option (\<lambda>_. n_next nd) (N1 m) = map_option (\<lambda>_. n_next nd) (N m)" by (rule N1_at) simp
    moreover have "map_option n_next (N2 m) = (if xs \<noteq> [] \<and> m = last xs then map_option (\<lambda>_. n_next nd) (N1 m) else map_option n_next (N1 m))"
      by (cases "m = d"; cases "m = last xs") (simp_all add: N2_def upd_same option.map_comp comp_def)
    ultimately show ?thesis by (simp only: if_cancel)
  qed
  have N2_g: "map_option g (N2 m) = map_option g (N m)"
    if "\<And>x v. g (x\<lparr>n_ctail := v\<rparr>) = g x" "\<And>x v. g (x\<lparr>n_clist := v\<rparr>) = g x" "\<And>x v. g (x\<lparr>n_next := v\<rparr>) = g x"
    for g :: "memfs_node \<Rightarrow> 'b" and m
  proof -
    have "map_option g (N2 m) = map_option g (N1 m)"
      unfolding N2_def by (auto intro!: upd_field simp: that)
    then show ?thesis using N1_at [of g m, OF that(1)] by simp
  qed
  have N2_c: "map_option n_clist (N2 m) = map_option n_clist (N m)" "map_option n_ctail (N2 m) = map_option n_ctail (N m)" if "m \<noteq> d" for m
    using that by (simp_all add: N2_def upd_same N1_d option.map_comp comp_def)
  have N2_f: "map_option n_parent (N2 m) = map_option n_parent (N m)" "map_option n_type (N2 m) = map_option n_type (N m)"
    "map_option n_name (N2 m) = map_option n_name (N m)" "map_option meta (N2 m) = map_option meta (N m)" for m
    by (rule N2_g; simp add: meta_def)+
  note N2_at = N2_nx N2_c N2_f
  have proj: "map_option n_next (N' m) = map_option n_next (N2 m)" "map_option n_parent (N' m) = map_option n_parent (N2 m)"
    "map_option n_type (N' m) = map_option n_type (N2 m)" "map_option n_clist (N' m) = map_option n_clist (N2 m)"
    "map_option n_ctail (N' m) = map_option n_ctail (N2 m)" "map_option n_name (N' m) = map_option n_name (N2 m)"
    "m \<noteq> n \<Longrightarrow> map_option meta (N' m) = map_option meta (N2 m)" for m
    by (cases "N2 m"; simp add: at)+
  have "seg N' (if xs = [] then n_next nd else n_clist dn) (xs @ ys)"
  proof (cases "xs = []")
    case True
    then have "seg N (n_next nd) ys" using seg nd(1) by simp
    then have "seg N' (n_next nd) ys" using True by (subst seg_cong [of ys N' N]) (simp_all add: proj N2_at)
    then show ?thesis using True by simp
  next
    case False
    have "seg N' (n_clist dn) (xs @ ys)"
    proof (rule seg_unlink [OF seg dist False nd(1)])
      show "map_option n_next (N' m) = map_option n_next (N m)" if "m \<noteq> last xs" for m
        using that by (simp add: proj N2_at)
      obtain ld where "N (last xs) = Some ld" using dh(4) last_in_set [OF False] unfolding xy by auto
      then show "map_option n_next (N' (last xs)) = Some (n_next nd)" using False by (simp add: proj N2_at)
    qed
    then show ?thesis using False by simp
  qed
  moreover have "\<exists>dn'. N' d = Some dn' \<and> n_clist dn' = (if xs = [] then n_next nd else n_clist dn) \<and> n_ctail dn' = last_opt (xs @ ys)"
  proof -
    have ct: "n_ctail dn = Some (if ys = [] then n else last ys)" using dh(2) xy by (simp add: last_opt_def)
    have ln: "ys \<noteq> [] \<Longrightarrow> last ys \<noteq> n" using dist last_in_set [of ys] by auto
    have ld: "xs \<noteq> [] \<Longrightarrow> last xs \<noteq> d" using dk last_in_set [of xs] by auto
    have tail: "last_opt (xs @ ys) = (if ys = [] then last_opt xs else Some (last ys))" by (simp add: last_opt_def)
    show ?thesis using dn ct ln ld nd(3) unfolding tail at N2_def N1_def by (auto simp: upd_same)
  qed
  moreover have "\<forall>m \<in> set (xs @ ys). \<exists>md. N' m = Some md \<and> n_parent md = Some d"
  proof
    fix m assume "m \<in> set (xs @ ys)"
    then obtain md where "N m = Some md" "n_parent md = Some d" using dh(4) xy by auto
    then have "map_option n_parent (N' m) = Some (Some d)" by (simp add: proj N2_at)
    then show "\<exists>md. N' m = Some md \<and> n_parent md = Some d" by (cases "N' m") auto
  qed
  ultimately have "dir_has N' d (xs @ ys)" using dist by (auto simp: dir_has_def)
  moreover have "map_option n_next (N' m) = map_option n_next (N m)" if "m \<notin> set (kids d)" for m
    using that last_in_set [of xs] by (auto simp: proj N2_at xy)
  ultimately have "tree N' (kids(d := xs @ ys))"
    by (intro tree_other_dirs [OF assms(1) _ _ _ dn ty]) (simp_all add: proj N2_at)
  moreover have "\<exists>nd'. N' n = Some nd' \<and> (n_data nd' = None \<or> Some (meta nd') = map_option meta (N n))"
  proof -
    have m: "map_option meta (N2 n) = Some (meta nd)" using N2_f(4) [of n] nd(1) by simp
    then obtain x where x: "N2 n = Some x" "meta x = meta nd" by (cases "N2 n") auto
    then show ?thesis using nd(1) by (simp add: at)
  qed
  ultimately show ?thesis using run unfolding r1 by (simp add: proj N2_at)
qed

lemma strcasecmp_refl: "strcasecmp s s = 0"
  unfolding strcasecmp_def by (induction s) simp_all

lemma find_entry_tree:
  assumes "tree N kids" "N d = Some dn" "n_type dn = FSNODE_DIR" "strcmp name [46] \<noteq> 0" "strcmp name [46, 46] \<noteq> 0"
  shows "mem_find_entry N d name = Some (find (\<lambda>n. strcasecmp (n_name (the (N n))) name = 0) (kids d))"
  using find_child_seg [of N "n_clist dn" "kids d" name] tree_dir [OF assms(1-3)] assms
  by (simp add: mem_find_entry_def dir_has_def)

lemma find_cong_on: "(\<And>x. x \<in> set xs \<Longrightarrow> P x = Q x) \<Longrightarrow> find P xs = find Q xs"
  by (induction xs) simp_all

text \<open>Creating an entry that is not there makes the name lead to the new node and changes
  what no other name of the directory leads to; removing it makes the name lead nowhere again.\<close>

theorem memfs_create_find_remove:
  assumes "tree N kids" "N d = Some dn" "n_type dn = FSNODE_DIR" "N n = None"
    "mem_find_entry N d name = Some None" "strcmp name [46] \<noteq> 0" "strcmp name [46, 46] \<noteq> 0"
  shows "\<exists>N' N''. mem_create N d n ty name = Some N' \<and> mem_find_entry N' d name = Some (Some n)
    \<and> (\<forall>other. strcasecmp name other \<noteq> 0 \<longrightarrow> strcmp other [46] \<noteq> 0 \<longrightarrow> strcmp other [46, 46] \<noteq> 0 \<longrightarrow>
         mem_find_entry N' d other = mem_find_entry N d other)
    \<and> mem_remove N' n = Some (0, None, N'') \<and> mem_find_entry N'' d name = Some None"
proof -
  obtain N' nd where c: "mem_create N d n ty name = Some N'" "tree N' (kids(d := kids d @ [n]))"
    "N' n = Some nd" "n_name nd = name"
    "\<And>m. m \<noteq> n \<Longrightarrow> map_option n_name (N' m) = map_option n_name (N m) \<and> map_option n_type (N' m) = map_option n_type (N m)"
    using mem_create_tree [OF assms(1-4), of ty name] by blast
  have dn: "d \<noteq> n" using assms(2,4) by auto
  have nk: "n \<notin> set (kids e)" for e using tree_kid [OF assms(1), of n e] assms(4) by (metis option.distinct(1))
  have kn: "kids n = []" by (rule tree_none [OF assms(1,4)])
  obtain dn' where dn': "N' d = Some dn'" "n_type dn' = FSNODE_DIR" using c(5) [of d] dn assms(2,3) by (cases "N' d") auto
  have nm: "n_name (the (N' m)) = n_name (the (N m))" if m: "m \<in> set (kids d)" for m
  proof -
    have "m \<noteq> n" using m nk [of d] by metis
    moreover obtain md where "N m = Some md" by (rule tree_kid [OF assms(1) m])
    ultimately show ?thesis using c(5) [of m] by auto
  qed
  have same: "find (\<lambda>n. strcasecmp (n_name (the (N' n))) s = 0) (kids d) = find (\<lambda>n. strcasecmp (n_name (the (N n))) s = 0) (kids d)" for s
    by (rule find_cong_on) (simp add: nm)
  have none: "find (\<lambda>n. strcasecmp (n_name (the (N n))) name = 0) (kids d) = None"
    using find_entry_tree [OF assms(1-3,6,7)] assms(5) by simp
  have f: "mem_find_entry N' d name = Some (Some n)"
    using find_entry_tree [OF c(2) dn' assms(6,7)] c(3,4) same none by (simp add: find_append strcasecmp_refl)
  have other: "mem_find_entry N' d s = mem_find_entry N d s"
    if "strcasecmp name s \<noteq> 0" "strcmp s [46] \<noteq> 0" "strcmp s [46, 46] \<noteq> 0" for s
    using find_entry_tree [OF c(2) dn' that(2,3)] find_entry_tree [OF assms(1-3) that(2,3)] c(3,4) same that(1)
    by (simp add: find_append split: option.split)
  obtain N'' where r: "mem_remove N' n = Some (0, None, N'')" "tree N'' ((kids(d := kids d @ [n]))(d := remove1 n (kids d @ [n])))"
    "\<And>m. m \<noteq> n \<Longrightarrow> map_option n_name (N'' m) = map_option n_name (N' m) \<and> map_option n_type (N'' m) = map_option n_type (N' m)"
    using mem_remove_tree [OF c(2), of n d] dn kn by auto
  have rm: "remove1 n (kids d @ [n]) = kids d" using nk [of d] by (simp add: remove1_append)
  obtain dn'' where dn'': "N'' d = Some dn''" using r(3) [of d] dn dn' by (cases "N'' d") auto
  have ty: "n_type dn'' = FSNODE_DIR" using r(3) [of d] dn dn' dn'' by simp
  have "n_name (the (N'' m)) = n_name (the (N m))" if m: "m \<in> set (kids d)" for m
  proof -
    have "m \<noteq> n" using m nk [of d] by metis
    moreover obtain md where "N m = Some md" by (rule tree_kid [OF assms(1) m])
    ultimately show ?thesis using c(5) [of m] r(3) [of m] by auto
  qed
  then have "find (\<lambda>n. strcasecmp (n_name (the (N'' n))) name = 0) (kids d) = None"
    using none find_cong_on [of "kids d" "\<lambda>n. strcasecmp (n_name (the (N'' n))) name = 0"] by simp
  then have g: "mem_find_entry N'' d name = Some None"
    using find_entry_tree [OF r(2) dn'' ty assms(6,7)] rm by simp
  show ?thesis using c(1) f other r(1) g by blast
qed

lemma new_tree: "tree [r \<mapsto> alloc_node FSNODE_DIR] (\<lambda>_. [])"
  by (auto simp: alloc_node_def dir_has_def last_opt_def intro!: treeI split: if_splits)

lemma memfs_create_find_remove_witness:
  "\<exists>N' N''. mem_create [0 \<mapsto> alloc_node FSNODE_DIR] 0 1 FSNODE_FILE [97] = Some N' \<and> mem_find_entry N' 0 [97] = Some (Some 1)
    \<and> mem_remove N' 1 = Some (0, None, N'') \<and> mem_find_entry N'' 0 [97] = Some None"
  using memfs_create_find_remove [OF new_tree [of 0], where d = 0 and n = 1 and name = "[97]" and ty = FSNODE_FILE]
  by (simp add: alloc_node_def mem_find_entry_def find_child.simps [of _ None] strcmp_def) blast

section \<open>Reachable stores\<close>

text \<open>What a program can do to a memory file system: create entries in directories, remove,
  rename, write to files, and open (which notes the first open node).\<close>

inductive mem_step :: "store \<Rightarrow> store \<Rightarrow> bool" where
  Create: "N d = Some dn \<Longrightarrow> n_type dn = FSNODE_DIR \<Longrightarrow> N n = None \<Longrightarrow> mem_find_entry N d name = Some None \<Longrightarrow>
    mem_create N d n ty name = Some N' \<Longrightarrow> mem_step N N'"
| Remove: "N n \<noteq> None \<Longrightarrow> mem_remove N n = Some (r, err, N') \<Longrightarrow> mem_step N N'"
| Rename: "mem_step N (mem_rename N n name)"
| Write: "N n = Some nd \<Longrightarrow> n_type nd = FSNODE_FILE \<Longrightarrow> 0 \<le> of_pos f \<Longrightarrow>
    mem_write room nd f buf = Some (r, err, nd', f') \<Longrightarrow> mem_step N (N(n \<mapsto> nd'))"
| Open: "mem_step N (upd N n (\<lambda>nd. nd\<lparr>n_fsnode := h\<rparr>))"

text \<open>The store that \<open>fsmem_create\<close> makes has the root directory \<open>r\<close>.\<close>

definition new_store :: "nid \<Rightarrow> store" where
  "new_store r = [r \<mapsto> alloc_node FSNODE_DIR]"

inductive mem_reach :: "nid \<Rightarrow> store \<Rightarrow> bool" for r where
  "mem_reach r (new_store r)"
| "mem_reach r N \<Longrightarrow> mem_step N N' \<Longrightarrow> mem_reach r N'"

text \<open>Parents are directories, and the files that were not removed hold their bytes.\<close>

definition mem_inv :: "store \<Rightarrow> (nid \<Rightarrow> nid list) \<Rightarrow> bool" where
  "mem_inv N kids \<longleftrightarrow> tree N kids
     \<and> (\<forall>n nd d. N n = Some nd \<longrightarrow> n_parent nd = Some d \<longrightarrow> (\<exists>dn. N d = Some dn \<and> n_type dn = FSNODE_DIR))
     \<and> (\<forall>n nd. N n = Some nd \<longrightarrow> n_data nd = None \<or> file_ok nd)"

lemma tree_fields:
  assumes "tree N kids" "\<And>m. map_option n_parent (N' m) = map_option n_parent (N m) \<and> map_option n_type (N' m) = map_option n_type (N m)
      \<and> map_option n_clist (N' m) = map_option n_clist (N m) \<and> map_option n_ctail (N' m) = map_option n_ctail (N m)
      \<and> map_option n_next (N' m) = map_option n_next (N m)"
  shows "tree N' kids"
proof (rule treeI)
  fix d assume "N' d = None"
  then show "kids d = []" using assms(2) [of d] tree_none [OF assms(1)] by (cases "N d") auto
next
  fix d dn assume d: "N' d = Some dn"
  then obtain dn0 where dn0: "N d = Some dn0" "n_parent dn = n_parent dn0" "n_type dn = n_type dn0"
    using assms(2) [of d] by (cases "N d") auto
  have "dir_has N' d (kids d)" if "dir_has N d (kids d)"
    by (rule dir_has_cong [OF that]) (simp_all add: assms(2))
  then show "n_parent dn \<noteq> Some d \<and> (if n_type dn = FSNODE_DIR then dir_has N' d (kids d) else kids d = [])"
    using tree_at [OF assms(1) dn0(1)] dn0 by simp
qed

lemma unlink_not_found:
  "seg N p ns \<Longrightarrow> n \<notin> set ns \<Longrightarrow> unlink_loop N par n prev p = Some (N, False)"
proof (induction ns arbitrary: p prev)
  case (Cons m ns)
  then show ?case by (subst unlink_loop.simps) (auto split: option.splits)
qed (subst unlink_loop.simps, simp)

lemma meta_eqD:
  assumes "map_option meta (N' m) = map_option meta (N m)" "N' m = Some nd'"
  obtains nd where "N m = Some nd" "n_parent nd' = n_parent nd" "n_type nd' = n_type nd" "file_ok nd' = file_ok nd" "n_data nd' = n_data nd"
  using assms by (cases "N m") (auto simp: meta_def file_ok_def)

text \<open>An operation on directories that leaves the data of nodes as they are, but may release
  those of one, and takes no directory away.\<close>

lemma mem_inv_frame:
  assumes "mem_inv N kids" "tree N' kids'"
    "\<And>m nd'. N' m = Some nd' \<Longrightarrow> m = n \<or> map_option meta (N' m) = map_option meta (N m)"
    "\<And>nd'. N' n = Some nd' \<Longrightarrow> n_data nd' = None \<or> file_ok nd'"
    "\<And>nd' d. N' n = Some nd' \<Longrightarrow> n_parent nd' = Some d \<Longrightarrow> \<exists>dn. N d = Some dn \<and> n_type dn = FSNODE_DIR"
    "\<And>m. map_option n_type (N m) = Some FSNODE_DIR \<Longrightarrow> map_option n_type (N' m) = Some FSNODE_DIR"
  shows "mem_inv N' kids'"
proof -
  have "\<exists>dn. N' d = Some dn \<and> n_type dn = FSNODE_DIR" if a: "N' m = Some nd'" "n_parent nd' = Some d" for m nd' d
  proof -
    have "\<exists>dn. N d = Some dn \<and> n_type dn = FSNODE_DIR"
    proof (cases "m = n")
      case False
      then have "map_option meta (N' m) = map_option meta (N m)" using assms(3) [OF a(1)] by blast
      then obtain nd where "N m = Some nd" "n_parent nd' = n_parent nd" by (rule meta_eqD) (rule a(1))
      then show ?thesis using assms(1) a(2) unfolding mem_inv_def by metis
    qed (use assms(5) a in blast)
    then have "map_option n_type (N' d) = Some FSNODE_DIR" using assms(6) [of d] by auto
    then show ?thesis by (cases "N' d") auto
  qed
  moreover have "n_data nd' = None \<or> file_ok nd'" if a: "N' m = Some nd'" for m nd'
  proof (cases "m = n")
    case False
    then have "map_option meta (N' m) = map_option meta (N m)" using assms(3) [OF a] by blast
    then obtain nd where "N m = Some nd" "file_ok nd' = file_ok nd" "n_data nd' = n_data nd" by (rule meta_eqD) (rule a)
    then show ?thesis using assms(1) unfolding mem_inv_def by metis
  qed (use assms(4) a in blast)
  ultimately show ?thesis using assms(2) unfolding mem_inv_def by blast
qed

lemma inv_create:
  assumes "mem_inv N kids" "N d = Some dn" "n_type dn = FSNODE_DIR" "N n = None" "mem_create N d n ty name = Some N'"
  shows "mem_inv N' (kids(d := kids d @ [n]))"
proof -
  have tr: "tree N kids" using assms(1) by (simp add: mem_inv_def)
  obtain nd where c: "tree N' (kids(d := kids d @ [n]))" "N' n = Some nd" "meta nd = (Some d, Some [], 0, 0, ty, None)"
    "\<And>m. m \<noteq> n \<Longrightarrow> map_option n_type (N' m) = map_option n_type (N m) \<and> map_option meta (N' m) = map_option meta (N m)"
    using mem_create_tree [OF tr assms(2-4), of ty name] assms(5) by auto
  show ?thesis
  proof (rule mem_inv_frame [OF assms(1) c(1), where n = n])
    show "m = n \<or> map_option meta (N' m) = map_option meta (N m)" for m using c(4) by blast
    show "n_data nd' = None \<or> file_ok nd'" if "N' n = Some nd'" for nd'
      using that c(2,3) by (simp add: meta_def file_ok_def)
    show "\<exists>dn. N e = Some dn \<and> n_type dn = FSNODE_DIR" if "N' n = Some nd'" "n_parent nd' = Some e" for nd' e
      using that c(2,3) assms(2,3) by (simp add: meta_def)
    show "map_option n_type (N' m) = Some FSNODE_DIR" if "map_option n_type (N m) = Some FSNODE_DIR" for m
      using that c(4) [of m] assms(4) by (cases "m = n") simp_all
  qed
qed

lemma inv_remove:
  assumes "mem_inv N kids" "mem_remove N n = Some (r, err, N')"
  shows "\<exists>kids'. mem_inv N' kids' \<and> (N' = N \<and> kids' = kids \<or> (\<exists>d. n \<in> set (kids d) \<and> kids' = kids(d := remove1 n (kids d))
    \<and> (\<forall>m. m \<noteq> n \<longrightarrow> map_option meta (N' m) = map_option meta (N m)) \<and> map_option n_type (N' n) = map_option n_type (N n)))"
proof -
  have tr: "tree N kids" using assms(1) by (simp add: mem_inv_def)
  obtain nd where nd: "N n = Some nd" using assms(2) by (cases "N n") (simp_all add: mem_remove_def)
  show ?thesis
  proof (cases "(n_type nd = FSNODE_DIR \<and> n_clist nd \<noteq> None) \<or> n_parent nd = None")
    case True
    then have "N' = N" using assms(2) nd by (auto simp: mem_remove_def split: if_splits option.splits)
    then show ?thesis using assms(1) by blast
  next
    case False
    then obtain d where d: "n_parent nd = Some d" by auto
    then obtain dn where dn: "N d = Some dn" "n_type dn = FSNODE_DIR" using assms(1) nd unfolding mem_inv_def by metis
    have dh: "dir_has N d (kids d)" by (rule tree_dir [OF tr dn])
    show ?thesis
    proof (cases "n \<in> set (kids d)")
      case True
      have "kids n = []"
      proof (cases "n_type nd = FSNODE_DIR")
        case True
        then have "seg N (n_clist nd) (kids n)" using tree_dir [OF tr nd] nd by (simp add: dir_has_def)
        then show ?thesis using True False by (cases "kids n") auto
      qed (use tree_at [OF tr nd] in simp)
      from mem_remove_tree [OF tr True this] assms(2)
      have f: "tree N' (kids(d := remove1 n (kids d)))"
        "\<And>m. m \<noteq> n \<Longrightarrow> map_option n_type (N' m) = map_option n_type (N m) \<and> map_option meta (N' m) = map_option meta (N m)"
        "map_option n_parent (N' n) = map_option n_parent (N n)" "map_option n_type (N' n) = map_option n_type (N n)"
        "\<exists>nd'. N' n = Some nd' \<and> (n_data nd' = None \<or> Some (meta nd') = map_option meta (N n))" by auto
      have "mem_inv N' (kids(d := remove1 n (kids d)))"
      proof (rule mem_inv_frame [OF assms(1) f(1), where n = n])
        show "m = n \<or> map_option meta (N' m) = map_option meta (N m)" for m using f(2) by blast
        show "n_data nd' = None \<or> file_ok nd'" if "N' n = Some nd'" for nd'
        proof -
          have "n_data nd = None \<or> file_ok nd" using assms(1) nd unfolding mem_inv_def by metis
          then show ?thesis using that f(5) nd by (auto simp: meta_def file_ok_def)
        qed
        show "\<exists>dn. N e = Some dn \<and> n_type dn = FSNODE_DIR" if "N' n = Some nd'" "n_parent nd' = Some e" for nd' e
          using that f(3) nd d dn by auto
        show "map_option n_type (N' m) = Some FSNODE_DIR" if "map_option n_type (N m) = Some FSNODE_DIR" for m
          using that f(2) [of m] f(4) by (cases "m = n") simp_all
      qed
      then show ?thesis using f(2,4) True by blast
    next
      case nin: False
      have "seg N (n_clist dn) (kids d)" using dh dn by (simp add: dir_has_def)
      then have "unlink_loop N d n None (n_clist dn) = Some (N, False)" using nin by (intro unlink_not_found)
      then have "N' = N" using assms(2) nd d dn False by (auto simp: mem_remove_def)
      then show ?thesis using assms(1) by blast
    qed
  qed
qed

lemma inv_fields:
  assumes "mem_inv N kids" "\<And>m nd. N m = Some nd \<Longrightarrow> \<exists>nd'. N' m = Some nd' \<and> n_parent nd' = n_parent nd \<and> n_type nd' = n_type nd
      \<and> n_clist nd' = n_clist nd \<and> n_ctail nd' = n_ctail nd \<and> n_next nd' = n_next nd
      \<and> (n_data nd = None \<or> file_ok nd \<longrightarrow> n_data nd' = None \<or> file_ok nd')"
    "\<And>m. N m = None \<Longrightarrow> N' m = None"
  shows "mem_inv N' kids"
proof -
  have "tree N' kids"
  proof (rule tree_fields [of N])
    show "tree N kids" using assms(1) by (simp add: mem_inv_def)
    show "map_option n_parent (N' m) = map_option n_parent (N m) \<and> map_option n_type (N' m) = map_option n_type (N m)
      \<and> map_option n_clist (N' m) = map_option n_clist (N m) \<and> map_option n_ctail (N' m) = map_option n_ctail (N m)
      \<and> map_option n_next (N' m) = map_option n_next (N m)" for m
      using assms(2,3) [of m] by (cases "N m") fastforce+
  qed
  moreover have "\<exists>dn. N' d = Some dn \<and> n_type dn = FSNODE_DIR" if a: "N' m = Some nd'" "n_parent nd' = Some d" for m nd' d
  proof -
    obtain nd where nd: "N m = Some nd" using assms(3) [of m] a(1) by (cases "N m") auto
    then have "n_parent nd = Some d" using assms(2) [OF nd] a by auto
    then obtain dn where "N d = Some dn" "n_type dn = FSNODE_DIR" using assms(1) nd unfolding mem_inv_def by metis
    then show ?thesis using assms(2) [of d dn] by auto
  qed
  moreover have "n_data nd' = None \<or> file_ok nd'" if a: "N' m = Some nd'" for m nd'
  proof -
    obtain nd where nd: "N m = Some nd" using assms(3) [of m] a(1) by (cases "N m") auto
    then have "n_data nd = None \<or> file_ok nd" using assms(1) unfolding mem_inv_def by metis
    then show ?thesis using assms(2) [OF nd] a by auto
  qed
  ultimately show ?thesis unfolding mem_inv_def by blast
qed

lemma mem_write_file_ok:
  assumes "mem_write room nd f buf = Some (r, err, nd', f')" "0 \<le> of_pos f" "file_ok nd"
  shows "file_ok nd'"
  using mem_write_defined [OF assms(1)] assms(1,3) mem_write_spec [OF assms(3,2), of buf "\<lambda>_. True"] by auto

lemma mem_write_fields:
  assumes "mem_write room nd f buf = Some (r, err, nd', f')"
  shows "n_parent nd' = n_parent nd \<and> n_type nd' = n_type nd \<and> n_clist nd' = n_clist nd \<and> n_ctail nd' = n_ctail nd \<and> n_next nd' = n_next nd
    \<and> n_data nd \<noteq> None"
  using mem_write_defined [OF assms] by auto

lemma inv_step:
  assumes "mem_inv N kids" "mem_step N N'"
  shows "\<exists>kids'. mem_inv N' kids'"
  using assms(2)
proof (cases rule: mem_step.cases)
  case (Create d dn n name ty)
  then show ?thesis using inv_create [OF assms(1)] by blast
next
  case (Remove n r err)
  then show ?thesis using inv_remove [OF assms(1)] by blast
next
  case (Rename n name)
  have "mem_inv N' kids" unfolding Rename mem_rename_def
    by (rule inv_fields [OF assms(1)]) (auto simp: upd_same file_ok_def)
  then show ?thesis by blast
next
  case (Write n nd f room buf r err nd' f')
  have w: "n_parent nd' = n_parent nd \<and> n_type nd' = n_type nd \<and> n_clist nd' = n_clist nd \<and> n_ctail nd' = n_ctail nd \<and> n_next nd' = n_next nd
    \<and> n_data nd \<noteq> None" by (rule mem_write_fields [OF Write(5)])
  have "file_ok nd" using assms(1) Write(2) w unfolding mem_inv_def by metis
  then have ok: "file_ok nd'" by (rule mem_write_file_ok [OF Write(5,4)])
  have "mem_inv N' kids" unfolding Write(1)
    by (rule inv_fields [OF assms(1)]) (use Write(2) w ok in auto)
  then show ?thesis by blast
next
  case (Open n h)
  have "mem_inv N' kids" unfolding Open
    by (rule inv_fields [OF assms(1)]) (auto simp: upd_same file_ok_def)
  then show ?thesis by blast
qed

lemma reach_inv:
  assumes "mem_reach r N"
  shows "\<exists>kids. mem_inv N kids"
  using assms
proof (induction rule: mem_reach.induct)
  case 1
  have "mem_inv (new_store r) (\<lambda>_. [])"
    by (auto simp: mem_inv_def new_store_def alloc_node_def file_ok_def dir_has_def last_opt_def intro!: treeI split: if_splits)
  then show ?case by blast
next
  case (2 N N')
  then show ?case using inv_step by blast
qed

text \<open>C21: whatever a program creates, removes, renames and writes, the directories stay well
  formed: the entries of each are a list that ends, without repetition, each pointing back to
  it, with its last entry at hand; the size of a file stays within its \<open>max_size\<close>, and what is written of it
  within its size and within its block on the heap. Writes that overrun a block which \<open>realloc\<close> left too small are
  no steps here, they are those of \<open>mem_write_overruns\<close>.\<close>

theorem memfs_stays_tree:
  assumes "mem_reach r N"
  shows "\<exists>kids. mem_inv N kids"
  by (rule reach_inv [OF assms])

lemma memfs_stays_tree_witness:
  "\<exists>N kids. mem_create (new_store 0) 0 1 FSNODE_FILE [97] = Some N \<and> mem_inv N kids"
proof -
  have f: "mem_find_entry (new_store 0) 0 [97] = Some None"
    by (simp add: new_store_def alloc_node_def mem_find_entry_def find_child.simps [of _ None] strcmp_def)
  have d: "new_store 0 0 = Some (alloc_node FSNODE_DIR)" "n_type (alloc_node FSNODE_DIR) = FSNODE_DIR" "new_store 0 1 = None"
    by (simp_all add: new_store_def alloc_node_def)
  obtain N where N: "mem_create (new_store 0) 0 1 FSNODE_FILE [97] = Some N"
    using mem_create_tree [OF new_tree, of 0 0 _ 1 FSNODE_FILE "[97]"] d by (auto simp: new_store_def)
  have "mem_reach 0 N" using mem_reach.intros(1) mem_step.Create [OF d f N] by (rule mem_reach.intros(2))
  then show ?thesis using N memfs_stays_tree [of 0 N] by blast
qed

end
