(* ===== verification/Mtab.thy ===== *)
theory Mtab
  imports Prelude
begin

text \<open>
  The table of mounts of \<open>src/mtab.c\<close>, a linked list with a pointer to its last element. The
  elements lie in a store; one that was released is no longer in it, and a write to it is
  \<open>None\<close>. The functions are over the mount point \<open>'m\<close> and the file system \<open>'f\<close>.
\<close>

record ('m, 'f) mount =
  m_mpt :: 'm
  m_fs :: 'f
  m_next :: "nat option"

record ('m, 'f) mount_tab =
  m_store :: "nat \<Rightarrow> ('m, 'f) mount option"
  m_fresh :: nat
  mnt_list :: "nat option"
  mnt_tail :: "nat option"
  mnt_count :: int

definition empty_tab :: "('m, 'f) mount_tab" where
  "empty_tab = \<lparr>m_store = (\<lambda>_. None), m_fresh = 0, mnt_list = None, mnt_tail = None, mnt_count = 0\<rparr>"

definition mtab_add :: "'m \<Rightarrow> 'f \<Rightarrow> ('m, 'f) mount_tab \<Rightarrow> ('m, 'f) mount_tab option" where
  "mtab_add node fs t = (
     let m = m_fresh t;
         t = t\<lparr>m_store := (m_store t)(m \<mapsto> \<lparr>m_mpt = node, m_fs = fs, m_next = None\<rparr>), m_fresh := m + 1\<rparr>
     in if mnt_list t \<noteq> None then
          (case mnt_tail t of
             None \<Rightarrow> None
           | Some l \<Rightarrow>
               (case m_store t l of
                  None \<Rightarrow> None
                | Some lm \<Rightarrow> Some (t\<lparr>m_store := (m_store t)(l \<mapsto> lm\<lparr>m_next := Some m\<rparr>), mnt_tail := Some m,
                    mnt_count := mnt_count t + 1\<rparr>)))
        else Some (t\<lparr>mnt_list := Some m, mnt_tail := Some m, mnt_count := mnt_count t + 1\<rparr>))"

text \<open>The loop of \<open>mtab_remove_node\<close>; \<open>prev\<close> is \<open>None\<close> at the dummy in front of the list.\<close>

partial_function (option) remove_loop :: "'m \<Rightarrow> nat option \<Rightarrow> nat option \<Rightarrow> ('m, 'f) mount_tab \<Rightarrow> (int \<times> ('m, 'f) mount_tab) option" where
  "remove_loop node prev ptr t =
     (case ptr of
        None \<Rightarrow> Some (-1, t)
      | Some i \<Rightarrow>
          (case m_store t i of
             None \<Rightarrow> None
           | Some m \<Rightarrow>
               if m_mpt m = node then
                 (case prev of
                    None \<Rightarrow> Some (0, t\<lparr>mnt_list := m_next m, m_store := (m_store t)(i := None)\<rparr>)
                  | Some p \<Rightarrow>
                      (case m_store t p of
                         None \<Rightarrow> None
                       | Some pm \<Rightarrow> Some (0, t\<lparr>m_store := ((m_store t)(p \<mapsto> pm\<lparr>m_next := m_next m\<rparr>))(i := None)\<rparr>)))
               else remove_loop node (Some i) (m_next m) t))"

declare remove_loop.simps [code]

definition mtab_remove_node :: "'m \<Rightarrow> ('m, 'f) mount_tab \<Rightarrow> (int \<times> ('m, 'f) mount_tab) option" where
  "mtab_remove_node node t = remove_loop node None (mnt_list t) t"

section \<open>The list in the store\<close>

fun mseg :: "(nat \<Rightarrow> ('m, 'f) mount option) \<Rightarrow> nat option \<Rightarrow> nat list \<Rightarrow> bool" where
  "mseg S p [] \<longleftrightarrow> p = None"
| "mseg S p (i # is) \<longleftrightarrow> p = Some i \<and> (case S i of None \<Rightarrow> False | Some m \<Rightarrow> mseg S (m_next m) is)"

text \<open>The table holds the elements \<open>is\<close>, in order, and its tail is the last of them.\<close>

definition tab_ok :: "('m, 'f) mount_tab \<Rightarrow> nat list \<Rightarrow> bool" where
  "tab_ok t is \<longleftrightarrow> mseg (m_store t) (mnt_list t) is \<and> distinct is \<and> (\<forall>i \<in> set is. i < m_fresh t)
     \<and> (is \<noteq> [] \<longrightarrow> mnt_tail t = Some (last is))"

definition mounts :: "('m, 'f) mount_tab \<Rightarrow> nat list \<Rightarrow> ('m \<times> 'f) list" where
  "mounts t is = map (\<lambda>i. (m_mpt (the (m_store t i)), m_fs (the (m_store t i)))) is"

lemma mseg_cong: "(\<And>i. i \<in> set is \<Longrightarrow> S' i = S i) \<Longrightarrow> mseg S' p is = mseg S p is"
  by (induction "is" arbitrary: p) (simp_all split: option.split)

lemma mseg_in: "mseg S p is \<Longrightarrow> i \<in> set is \<Longrightarrow> \<exists>m. S i = Some m"
  by (induction "is" arbitrary: p) (auto split: option.splits)

lemma mseg_append:
  assumes "mseg S p is" "is \<noteq> []" "distinct is" "n \<notin> set is" "S (last is) = Some lm" "S n = Some nm" "m_next nm = None"
  shows "mseg (S(last is \<mapsto> lm\<lparr>m_next := Some n\<rparr>)) p (is @ [n])"
  using assms
proof (induction "is" arbitrary: p)
  case (Cons i "is")
  then obtain im where i: "S i = Some im" "p = Some i" "mseg S (m_next im) is" by (auto split: option.splits)
  show ?case
  proof (cases "is = []")
    case True
    then show ?thesis using i Cons.prems by auto
  next
    case False
    have "mseg (S(last is \<mapsto> lm\<lparr>m_next := Some n\<rparr>)) (m_next im) (is @ [n])"
      using False Cons.prems i by (intro Cons.IH) auto
    moreover have "i \<noteq> last is" using last_in_set [OF False] Cons.prems(3) by auto
    ultimately show ?thesis using False i by (simp add: fun_upd_def)
  qed
qed simp

text \<open>Adding appends, as long as no mount was removed before.\<close>

lemma mtab_add_mounts:
  assumes "tab_ok t is"
  shows "\<exists>t'. mtab_add node fs t = Some t' \<and> tab_ok t' (is @ [m_fresh t]) \<and> mounts t' (is @ [m_fresh t]) = mounts t is @ [(node, fs)]
    \<and> mnt_count t' = mnt_count t + 1"
proof (cases "is = []")
  case True
  then show ?thesis using assms by (simp add: mtab_add_def Let_def tab_ok_def mounts_def)
next
  case False
  let ?n = "m_fresh t" and ?new = "\<lparr>m_mpt = node, m_fs = fs, m_next = None\<rparr>" and ?l = "last is"
  let ?S = "(m_store t)(?n \<mapsto> ?new)"
  have ok: "mseg (m_store t) (mnt_list t) is" "distinct is" "\<forall>i \<in> set is. i < ?n" "mnt_tail t = Some ?l"
    using assms False by (simp_all add: tab_ok_def)
  have n: "?n \<notin> set is" using ok(3) by auto
  have l: "?l \<in> set is" "?l \<noteq> ?n" using n last_in_set [OF False] by metis+
  obtain lm where lm: "m_store t ?l = Some lm" using mseg_in [OF ok(1) l(1)] by blast
  have ml: "mnt_list t \<noteq> None" using ok(1) False by (cases "is") auto
  let ?t = "t\<lparr>m_store := ?S(?l \<mapsto> lm\<lparr>m_next := Some ?n\<rparr>), m_fresh := ?n + 1, mnt_tail := Some ?n, mnt_count := mnt_count t + 1\<rparr>"
  have run: "mtab_add node fs t = Some ?t"
    using ml ok(4) lm l(2) by (simp add: mtab_add_def Let_def)
  have "mseg ?S (mnt_list t) is = mseg (m_store t) (mnt_list t) is" by (rule mseg_cong) (use n in auto)
  then have "mseg (?S(?l \<mapsto> lm\<lparr>m_next := Some ?n\<rparr>)) (mnt_list t) (is @ [?n])"
    using ok(1,2) False n lm l(2) by (intro mseg_append [where nm = ?new]) simp_all
  moreover have "\<forall>i \<in> set (is @ [?n]). i < ?n + 1" using ok(3) by auto
  ultimately have "tab_ok ?t (is @ [?n])" using ok(2) n by (simp add: tab_ok_def)
  moreover have "(m_mpt (the (m_store ?t i)), m_fs (the (m_store ?t i))) = (m_mpt (the (m_store t i)), m_fs (the (m_store t i)))" if "i \<in> set is" for i
    using that n lm by (cases "i = ?l") auto
  then have "mounts ?t (is @ [?n]) = mounts t is @ [(node, fs)]" using l(2) unfolding mounts_def by (simp cong: map_cong)
  ultimately show ?thesis using run by simp
qed

text \<open>\<open>mtab_remove_node\<close> leaves \<open>mnt_tail\<close> at the element it releases when that is the last: the
  next \<open>mtab_add\<close> writes to it.\<close>

lemma remove_last_breaks_add:
  assumes "tab_ok t [i, j]" "mounts t [i, j] = [(a, f), (b, g)]" "a \<noteq> b"
  shows "\<exists>t'. mtab_remove_node b t = Some (0, t') \<and> mnt_count t' = mnt_count t \<and> mtab_add c h t' = None"
proof -
  obtain im jm where m: "mnt_list t = Some i" "m_store t i = Some im" "m_next im = Some j" "m_store t j = Some jm" "m_next jm = None"
      "i \<noteq> j" "i < m_fresh t" "j < m_fresh t" "mnt_tail t = Some j" "m_mpt im = a" "m_mpt jm = b"
    using assms(1,2) by (auto simp: tab_ok_def mounts_def split: option.splits)
  have "mtab_remove_node b t = Some (0, t\<lparr>m_store := ((m_store t)(i \<mapsto> im\<lparr>m_next := None\<rparr>))(j := None)\<rparr>)"
    using m assms(3) by (simp add: mtab_remove_node_def remove_loop.simps [of b None "Some i"] remove_loop.simps [of b "Some i" "Some j"])
  then show ?thesis using m by (simp add: mtab_add_def Let_def)
qed

end
