(* ===== verification/Vfs.thy ===== *)
theory Vfs
  imports Fsmem_Tree Mtab
begin

text \<open>
  The file system layer of \<open>src/fs.c\<close> and the calls of \<open>libc/unistd.c\<close> over it, over the memory and
  the FAT file systems: one state with the nodes of all memory file systems, the open
  \<open>fs_node\<close>s, the mounted file systems and the working directory. An \<open>fs_node\<close> that was closed
  is gone; looking at one, which \<open>NODE_IS_MNTPT\<close> can do, is \<open>None\<close>. New numbers for nodes and
  open nodes come from counters. The sectors of FAT volumes come from the reader \<open>rd\<close>.
\<close>

section \<open>State\<close>

datatype filesys = MemFs nid | FatFs fatfs fat_dir

datatype node_data = OFile ofile | ODir odir | FatData fat_node

record fs_node =
  fn_fs :: fsid
  fn_type :: fs_type
  fn_data :: node_data
  fn_mnt :: "fsid option"

record vfs =
  nodes :: store
  next_nid :: nid
  fsnodes :: "hid \<Rightarrow> fs_node option"
  next_hid :: hid
  fss :: "fsid \<Rightarrow> filesys option"
  rootfs :: "fsid option"
  cwdnode :: "hid option"
  cwdpath :: cstring
  next_fsid :: fsid
  mtab :: "(hid, fsid) mount_tab"
  errno :: int

definition FSO_CREATE :: u32 where "FSO_CREATE = 1"
definition FSO_DIR :: u32 where "FSO_DIR = 2"
definition FSO_EXCL :: u32 where "FSO_EXCL = 4"

definition flag :: "u32 \<Rightarrow> u32 \<Rightarrow> bool" where "flag flags f \<longleftrightarrow> flags AND f \<noteq> 0"

section \<open>Opening in a memory file system\<close>

text \<open>\<open>NODE_IS_MNTPT\<close>, with the file system that is mounted.\<close>

definition node_mnt :: "vfs \<Rightarrow> nid \<Rightarrow> fsid option option" where
  "node_mnt st n =
     (case nodes st n of
        None \<Rightarrow> None
      | Some nd \<Rightarrow>
          (case n_fsnode nd of
             None \<Rightarrow> Some None
           | Some h \<Rightarrow> map_option fn_mnt (fsnodes st h)))"

datatype walk_end = At nid | Missing nid cstring | Mounted fsid cstring | Fail int

text \<open>The loop of \<open>open\<close> and the check behind it.\<close>

function mem_walk :: "vfs \<Rightarrow> nid \<Rightarrow> cstring \<Rightarrow> u32 \<Rightarrow> walk_end option" where
  "mem_walk st node path flags =
     (if path = [] then
        (case node_mnt st node of
           None \<Rightarrow> None | Some (Some fs) \<Rightarrow> Some (Mounted fs []) | Some None \<Rightarrow> Some (At node))
      else
        case nodes st node of
          None \<Rightarrow> None
        | Some nd \<Rightarrow>
            if n_type nd \<noteq> FSNODE_DIR then Some (Fail ENOTDIR)
            else (case node_mnt st node of
                None \<Rightarrow> None
              | Some (Some fs) \<Rightarrow> Some (Mounted fs path)
              | Some None \<Rightarrow>
                  let name = fst (fs_path_next path (int MEM_MAX_NAME + 1));
                      rest = snd (fs_path_next path (int MEM_MAX_NAME + 1))
                  in case mem_find_entry (nodes st) node name of
                       None \<Rightarrow> None
                     | Some (Some n) \<Rightarrow> mem_walk st n rest flags
                     | Some None \<Rightarrow>
                         if rest \<noteq> [] \<or> \<not> flag flags FSO_CREATE then Some (Fail ENOENT)
                         else Some (Missing node name)))"
  by auto
termination
  by (relation "measure (\<lambda>(st, node, path, flags). length path)") (simp_all add: path_next_shorter)

declare mem_walk.simps [simp del]

definition new_fsnode :: "fs_node \<Rightarrow> vfs \<Rightarrow> hid \<times> vfs" where
  "new_fsnode fn st = (next_hid st, st\<lparr>fsnodes := (fsnodes st)(next_hid st \<mapsto> fn), next_hid := next_hid st + 1\<rparr>)"

definition create_fsnode :: "fsid \<Rightarrow> nid \<Rightarrow> vfs \<Rightarrow> (hid \<times> vfs) option" where
  "create_fsnode fs n st =
     (case nodes st n of
        None \<Rightarrow> None
      | Some nd \<Rightarrow>
          let d = (if n_type nd = FSNODE_FILE then OFile \<lparr>of_file = n, of_pos = 0\<rparr>
                   else ODir \<lparr>od_dir = n, od_cur = n_clist nd\<rparr>);
              (h, st) = new_fsnode \<lparr>fn_fs = fs, fn_type = n_type nd, fn_data = d, fn_mnt = None\<rparr> st
          in Some (h, st\<lparr>nodes := upd (nodes st) n (\<lambda>nd. if n_fsnode nd = None then nd\<lparr>n_fsnode := Some h\<rparr> else nd)\<rparr>))"

definition null_open :: "int option \<Rightarrow> vfs \<Rightarrow> hid option \<times> vfs" where
  "null_open e st = (None, case e of None \<Rightarrow> st | Some e \<Rightarrow> st\<lparr>errno := e\<rparr>)"

text \<open>Where an absolute or relative path starts in a memory file system.\<close>

definition mem_start :: "vfs \<Rightarrow> nid \<Rightarrow> cstring \<Rightarrow> (nid \<times> cstring) option option" where
  "mem_start st root path =
     (if path \<noteq> [] \<and> hd path = 47 then Some (Some (root, fs_path_skipsep path))
      else case cwdnode st of
          None \<Rightarrow> None
        | Some h \<Rightarrow>
            (case fsnodes st h of
               None \<Rightarrow> None
             | Some cwd \<Rightarrow>
                 (case fss st (fn_fs cwd) of
                    Some (MemFs _) \<Rightarrow>
                      (case fn_data cwd of ODir od \<Rightarrow> Some (Some (od_dir od, path)) | _ \<Rightarrow> None)
                  | Some (FatFs _ _) \<Rightarrow> Some None
                  | None \<Rightarrow> None)))"

definition mem_open_new :: "fsid \<Rightarrow> nid \<Rightarrow> cstring \<Rightarrow> u32 \<Rightarrow> vfs \<Rightarrow> (hid option \<times> vfs) option" where
  "mem_open_new fs d name flags st =
     (case mem_create (nodes st) d (next_nid st) (if flag flags FSO_DIR then FSNODE_DIR else FSNODE_FILE) name of
        None \<Rightarrow> None
      | Some N \<Rightarrow> map_option (\<lambda>(h, st). (Some h, st))
          (create_fsnode fs (next_nid st) (st\<lparr>nodes := N, next_nid := next_nid st + 1\<rparr>)))"

section \<open>Opening\<close>

definition fat_cwd :: "vfs \<Rightarrow> fat_dir option" where
  "fat_cwd st =
     (case cwdnode st of
        None \<Rightarrow> None
      | Some h \<Rightarrow> (case fsnodes st h of
          Some cwd \<Rightarrow> (case fn_data cwd of FatData (DirNode d) \<Rightarrow> Some d | _ \<Rightarrow> None)
        | None \<Rightarrow> None))"

definition fat_node_type :: "fat_node \<Rightarrow> fs_type" where
  "fat_node_type n = (case n of FileNode _ \<Rightarrow> FSNODE_FILE | DirNode _ \<Rightarrow> FSNODE_DIR)"

text \<open>The \<open>open\<close> of a file system; \<open>open_mount\<close> puts a slash in front of the rest of the path.\<close>

partial_function (option) fsop_open :: "reader \<Rightarrow> int \<Rightarrow> fsid \<Rightarrow> cstring \<Rightarrow> u32 \<Rightarrow> vfs \<Rightarrow> (hid option \<times> vfs) option" where
  "fsop_open rd bd fs path flags st =
     (case fss st fs of
        None \<Rightarrow> None
      | Some (FatFs fatfs rootdir) \<Rightarrow>
          (case fat_open rd bd fatfs rootdir (fat_cwd st) path of
             None \<Rightarrow> None
           | Some (Inl e) \<Rightarrow> Some (null_open e st)
           | Some (Inr n) \<Rightarrow>
               let (h, st) = new_fsnode \<lparr>fn_fs = fs, fn_type = fat_node_type n, fn_data = FatData n, fn_mnt = None\<rparr> st
               in Some (Some h, st))
      | Some (MemFs root) \<Rightarrow>
          (case mem_start st root path of
             None \<Rightarrow> None
           | Some None \<Rightarrow> Some (null_open None st)
           | Some (Some (node, path)) \<Rightarrow>
               (case mem_walk st node path flags of
                  None \<Rightarrow> None
                | Some (Fail e) \<Rightarrow> Some (null_open (Some e) st)
                | Some (Mounted fs' path) \<Rightarrow> fsop_open rd bd fs' (47 # path) flags st
                | Some (Missing d name) \<Rightarrow> mem_open_new fs d name flags st
                | Some (At n) \<Rightarrow>
                    if flag flags FSO_EXCL then Some (null_open (Some EEXIST) st)
                    else map_option (\<lambda>(h, st). (Some h, st)) (create_fsnode fs n st))))"

declare fsop_open.simps [code]

definition fs_open :: "reader \<Rightarrow> int \<Rightarrow> cstring \<Rightarrow> u32 \<Rightarrow> vfs \<Rightarrow> (hid option \<times> vfs) option" where
  "fs_open rd bd path flags st =
     (if path = [] then Some (None, st)
      else if hd path = 47 then
        (case rootfs st of None \<Rightarrow> None | Some fs \<Rightarrow> fsop_open rd bd fs path flags st)
      else
        case cwdnode st of
          None \<Rightarrow> Some (None, st)
        | Some h \<Rightarrow> (case fsnodes st h of None \<Rightarrow> None | Some cwd \<Rightarrow> fsop_open rd bd (fn_fs cwd) path flags st))"

definition fs_close :: "hid option \<Rightarrow> vfs \<Rightarrow> (int \<times> vfs) option" where
  "fs_close node st =
     (case node of
        None \<Rightarrow> Some (-1, st)
      | Some h \<Rightarrow> (case fsnodes st h of None \<Rightarrow> None | Some _ \<Rightarrow> Some (0, st\<lparr>fsnodes := (fsnodes st)(h := None)\<rparr>)))"

section \<open>The working directory\<close>

fun up_scan :: "cstring \<Rightarrow> nat \<Rightarrow> nat" where
  "up_scan s 0 = 0"
| "up_scan s (Suc n) = (if s ! n = 47 then n else up_scan s n)"

text \<open>The path one level up: to its last slash, or the slash alone.\<close>

definition up_path :: "cstring \<Rightarrow> cstring" where
  "up_path s = (let n = up_scan s (length s) in take (if n = 0 then 1 else n) s)"

text \<open>What becomes of the path; a text that does not fit the 1024 bytes with its zero is \<open>None\<close>.\<close>

definition new_cwdpath :: "cstring \<Rightarrow> cstring \<Rightarrow> (fault + cstring) option" where
  "new_cwdpath cwd path =
     (if 1024 < length cwd + length path then Some (Inl (Panic ''fs_chdir: path too long''))
      else
        let p = (if hd path = 47 then path else if 1 < length cwd then cwd @ 47 # path else cwd @ path)
        in if 1024 < length p + 1 then None else Some (Inr p))"

definition fs_chdir :: "reader \<Rightarrow> int \<Rightarrow> cstring \<Rightarrow> vfs \<Rightarrow> (fault + int \<times> vfs) option" where
  "fs_chdir rd bd path st =
     (if path = [] then Some (Inr (-1, st))
      else if strcmp path [46] = 0 then Some (Inr (0, st))
      else
        let up = (strcmp path [46, 46] = 0)
        in if up \<and> length (cwdpath st) \<le> 1 then Some (Inr (-1, st))
           else
             let path = (if up then up_path (cwdpath st) else path)
             in case fs_open rd bd path 0 st of
                  None \<Rightarrow> None
                | Some (None, st) \<Rightarrow> Some (Inr (-1, st))
                | Some (Some h, st) \<Rightarrow>
                    (case fsnodes st h of
                       None \<Rightarrow> None
                     | Some fn \<Rightarrow>
                         if fn_type fn \<noteq> FSNODE_DIR then map_option (\<lambda>(_, st). Inr (-1, st)) (fs_close (Some h) st)
                         else
                           (case (if up then Some (Inr path) else new_cwdpath (cwdpath st) path) of
                              None \<Rightarrow> None
                            | Some (Inl f) \<Rightarrow> Some (Inl f)
                            | Some (Inr p) \<Rightarrow>
                                map_option (\<lambda>(_, st). Inr (0, st\<lparr>cwdpath := p, cwdnode := Some h\<rparr>)) (fs_close (cwdnode st) st))))"

definition fs_getcwd :: "vfs \<Rightarrow> cstring" where "fs_getcwd st = cwdpath st"

section \<open>Operations on open nodes\<close>

text \<open>The node of a memory file system that an open node stands for; \<open>rename\<close> and \<open>remove\<close> get at it
  through the first member of both \<open>struct ofile\<close> and \<open>struct odir\<close>.\<close>

definition data_nid :: "node_data \<Rightarrow> nid option" where
  "data_nid d = (case d of OFile f \<Rightarrow> Some (of_file f) | ODir od \<Rightarrow> Some (od_dir od) | FatData _ \<Rightarrow> None)"

definition set_data :: "hid \<Rightarrow> fs_node \<Rightarrow> node_data \<Rightarrow> vfs \<Rightarrow> vfs" where
  "set_data h fn d st = st\<lparr>fsnodes := (fsnodes st)(h \<mapsto> fn\<lparr>fn_data := d\<rparr>)\<rparr>"

definition fs_filesize :: "hid \<Rightarrow> vfs \<Rightarrow> int option" where
  "fs_filesize h st =
     (case fsnodes st h of
        None \<Rightarrow> None
      | Some fn \<Rightarrow>
          if fn_type fn \<noteq> FSNODE_FILE then Some (-1)
          else (case fn_data fn of
              OFile f \<Rightarrow> map_option mem_fsize (nodes st (of_file f))
            | ODir _ \<Rightarrow> None
            | FatData n \<Rightarrow> Some (fsize n)))"

definition fs_seek :: "hid \<Rightarrow> int \<Rightarrow> whence \<Rightarrow> vfs \<Rightarrow> (int \<times> vfs) option" where
  "fs_seek h offs whence st =
     (case fsnodes st h of
        None \<Rightarrow> None
      | Some fn \<Rightarrow>
          if fn_type fn \<noteq> FSNODE_FILE then Some (-1, st)
          else (case fn_data fn of
              OFile f \<Rightarrow> map_option (\<lambda>nd. (0, set_data h fn (OFile (mem_seek nd f offs whence)) st)) (nodes st (of_file f))
            | FatData (FileNode f) \<Rightarrow>
                (case fss st (fn_fs fn) of
                   Some (FatFs fs _) \<Rightarrow> map_option (\<lambda>f. (0, set_data h fn (FatData (FileNode f)) st)) (seek fs f offs whence)
                 | _ \<Rightarrow> None)
            | _ \<Rightarrow> None))"

definition fs_tell :: "hid \<Rightarrow> vfs \<Rightarrow> int option" where
  "fs_tell h st =
     (case fsnodes st h of
        None \<Rightarrow> None
      | Some fn \<Rightarrow>
          if fn_type fn \<noteq> FSNODE_FILE then Some (-1)
          else (case fn_data fn of
              OFile f \<Rightarrow> Some (mem_tell f)
            | FatData (FileNode f) \<Rightarrow> Some (tell f)
            | _ \<Rightarrow> None))"

definition fs_read :: "reader \<Rightarrow> int \<Rightarrow> hid \<Rightarrow> int \<Rightarrow> vfs \<Rightarrow> (int \<times> u8 option list \<times> vfs) option" where
  "fs_read rd bd h sz st =
     (case fsnodes st h of
        None \<Rightarrow> None
      | Some fn \<Rightarrow>
          if fn_type fn \<noteq> FSNODE_FILE then Some (-1, [], st)
          else (case fn_data fn of
              OFile f \<Rightarrow>
                (case nodes st (of_file f) of
                   None \<Rightarrow> None
                 | Some nd \<Rightarrow> map_option (\<lambda>(r, out, f). (r, out, set_data h fn (OFile f) st)) (mem_read nd f sz))
            | FatData (FileNode f) \<Rightarrow>
                (case fss st (fn_fs fn) of
                   Some (FatFs fs _) \<Rightarrow>
                     map_option (\<lambda>(r, out, f). (r, map Some out, set_data h fn (FatData (FileNode f)) st)) (fat_read rd bd fs f sz)
                 | _ \<Rightarrow> None)
            | _ \<Rightarrow> None))"

definition set_errno :: "int option \<Rightarrow> vfs \<Rightarrow> vfs" where
  "set_errno e st = (case e of None \<Rightarrow> st | Some e \<Rightarrow> st\<lparr>errno := e\<rparr>)"

text \<open>The \<open>write\<close> of the FAT file system only returns -1, and so does its \<open>rename\<close>.\<close>

definition fs_write :: "(int \<Rightarrow> bool) \<Rightarrow> hid \<Rightarrow> u8 list \<Rightarrow> vfs \<Rightarrow> (int \<times> vfs) option" where
  "fs_write room h buf st =
     (case fsnodes st h of
        None \<Rightarrow> None
      | Some fn \<Rightarrow>
          if fn_type fn \<noteq> FSNODE_FILE then Some (-1, st)
          else (case fn_data fn of
              OFile f \<Rightarrow>
                (case nodes st (of_file f) of
                   None \<Rightarrow> None
                 | Some nd \<Rightarrow>
                     map_option (\<lambda>(r, err, nd, f'). (r, set_errno err (set_data h fn (OFile f')
                       (st\<lparr>nodes := (nodes st)(of_file f \<mapsto> nd)\<rparr>)))) (mem_write room nd f buf))
            | FatData _ \<Rightarrow> Some (-1, st)
            | ODir _ \<Rightarrow> None))"

definition fs_rewinddir :: "hid \<Rightarrow> vfs \<Rightarrow> (int \<times> vfs) option" where
  "fs_rewinddir h st =
     (case fsnodes st h of
        None \<Rightarrow> None
      | Some fn \<Rightarrow>
          if fn_type fn \<noteq> FSNODE_DIR then Some (-1, st)
          else (case fn_data fn of
              ODir od \<Rightarrow> map_option (\<lambda>od. (0, set_data h fn (ODir od) st)) (mem_rewinddir (nodes st) od)
            | FatData (DirNode d) \<Rightarrow> Some (0, set_data h fn (FatData (DirNode (rewinddir d))) st)
            | _ \<Rightarrow> None))"

type_synonym vfs_dirent = "cstring \<times> fs_type \<times> int option"

definition fs_readdir :: "hid \<Rightarrow> vfs \<Rightarrow> (vfs_dirent option \<times> vfs) option" where
  "fs_readdir h st =
     (case fsnodes st h of
        None \<Rightarrow> None
      | Some fn \<Rightarrow>
          if fn_type fn \<noteq> FSNODE_DIR then Some (None, st)
          else (case fn_data fn of
              ODir od \<Rightarrow> map_option (\<lambda>(e, od). (e, set_data h fn (ODir od) st)) (mem_readdir (nodes st) od)
            | FatData (DirNode d) \<Rightarrow>
                Some (map_option (\<lambda>e. (de_name e, de_type e, Some (sint (de_fsize e)))) (fst (readdir d)),
                  set_data h fn (FatData (DirNode (snd (readdir d)))) st)
            | _ \<Rightarrow> None))"

definition fs_rename :: "hid \<Rightarrow> cstring \<Rightarrow> vfs \<Rightarrow> (int \<times> vfs) option" where
  "fs_rename h name st =
     (case fsnodes st h of
        None \<Rightarrow> None
      | Some fn \<Rightarrow>
          (case data_nid (fn_data fn) of
             None \<Rightarrow> Some (-1, st)
           | Some n \<Rightarrow> Some (0, st\<lparr>nodes := mem_rename (nodes st) n name\<rparr>)))"

definition fs_remove :: "hid \<Rightarrow> vfs \<Rightarrow> (int \<times> vfs) option" where
  "fs_remove h st =
     (case fsnodes st h of
        None \<Rightarrow> None
      | Some fn \<Rightarrow>
          (case data_nid (fn_data fn) of
             None \<Rightarrow> Some (-1, st\<lparr>errno := EPERM\<rparr>)
           | Some n \<Rightarrow> map_option (\<lambda>(r, err, N). (r, set_errno err (st\<lparr>nodes := N\<rparr>))) (mem_remove (nodes st) n)))"

section \<open>Mounting\<close>

definition DEV_MEMDISK :: int where "DEV_MEMDISK = 0x10000"

definition fsmem_create :: "int \<Rightarrow> vfs \<Rightarrow> (filesys \<times> vfs) option" where
  "fsmem_create d st =
     (if d \<noteq> DEV_MEMDISK then None
      else Some (MemFs (next_nid st),
        st\<lparr>nodes := (nodes st)(next_nid st \<mapsto> alloc_node FSNODE_DIR), next_nid := next_nid st + 1\<rparr>))"

text \<open>The table \<open>createfs\<close>: the first of the two that makes a file system.\<close>

definition create_any :: "reader \<Rightarrow> int \<Rightarrow> int \<Rightarrow> int \<Rightarrow> u64 \<Rightarrow> vfs \<Rightarrow> (fault + filesys option \<times> vfs) option" where
  "create_any rd bd low d start st =
     (case fsmem_create d st of
        Some (fs, st) \<Rightarrow> Some (Inr (Some fs, st))
      | None \<Rightarrow>
          (case fsfat_create rd bd low d start of
             None \<Rightarrow> None
           | Some None \<Rightarrow> Some (Inr (None, st))
           | Some (Some (Inl f)) \<Rightarrow> Some (Inl f)
           | Some (Some (Inr (fs, root))) \<Rightarrow> Some (Inr (Some (FatFs fs root), st))))"

definition fs_mount :: "reader \<Rightarrow> int \<Rightarrow> int \<Rightarrow> int \<Rightarrow> u64 \<Rightarrow> hid option \<Rightarrow> vfs \<Rightarrow> (fault + fsid option \<times> vfs) option" where
  "fs_mount rd bd low d start parent st =
     (if parent = None \<and> rootfs st \<noteq> None then Some (Inr (None, st))
      else case create_any rd bd low d start st of
          None \<Rightarrow> None
        | Some (Inl f) \<Rightarrow> Some (Inl f)
        | Some (Inr (None, st)) \<Rightarrow> Some (Inr (None, st))
        | Some (Inr (Some fs, st)) \<Rightarrow>
            let id = next_fsid st;
                st = st\<lparr>fss := (fss st)(id \<mapsto> fs), next_fsid := id + 1\<rparr>
            in (case parent of
                  None \<Rightarrow>
                    (case fs_chdir rd bd [47] (st\<lparr>rootfs := Some id\<rparr>) of
                       None \<Rightarrow> None
                     | Some (Inl f) \<Rightarrow> Some (Inl f)
                     | Some (Inr (_, st)) \<Rightarrow> Some (Inr (Some id, st)))
                | Some h \<Rightarrow>
                    (case fsnodes st h of
                       None \<Rightarrow> None
                     | Some fn \<Rightarrow>
                         map_option (\<lambda>t. Inr (Some id, st\<lparr>fsnodes := (fsnodes st)(h \<mapsto> fn\<lparr>fn_mnt := Some id\<rparr>), mtab := t\<rparr>))
                           (mtab_add h id (mtab st)))))"

text \<open>The state before anything is mounted.\<close>

definition boot_vfs :: vfs where
  "boot_vfs = \<lparr>nodes = (\<lambda>_. None), next_nid = 0, fsnodes = (\<lambda>_. None), next_hid = 0, fss = (\<lambda>_. None), rootfs = None,
     cwdnode = None, cwdpath = [], next_fsid = 0, mtab = empty_tab, errno = 0\<rparr>"

section \<open>unistd.c\<close>

definition ERANGE :: int where "ERANGE = 34"

definition getcwd :: "int \<Rightarrow> vfs \<Rightarrow> cstring option \<times> vfs" where
  "getcwd sz st = (let cwd = fs_getcwd st in if sz < int (length cwd) + 1 then (None, st\<lparr>errno := ERANGE\<rparr>) else (Some cwd, st))"

definition mkdir :: "reader \<Rightarrow> int \<Rightarrow> cstring \<Rightarrow> vfs \<Rightarrow> (int \<times> vfs) option" where
  "mkdir rd bd path st =
     (case fs_open rd bd path (FSO_CREATE OR FSO_DIR OR FSO_EXCL) st of
        None \<Rightarrow> None
      | Some (None, st) \<Rightarrow> Some (-1, st)
      | Some (Some h, st) \<Rightarrow> map_option (\<lambda>(_, st). (0, st)) (fs_close (Some h) st))"

definition rmdir :: "reader \<Rightarrow> int \<Rightarrow> cstring \<Rightarrow> vfs \<Rightarrow> (int \<times> vfs) option" where
  "rmdir rd bd path st =
     (case fs_open rd bd path FSO_DIR st of
        None \<Rightarrow> None
      | Some (None, st) \<Rightarrow> Some (-1, st)
      | Some (Some h, st) \<Rightarrow> Option.bind (fs_remove h st) (\<lambda>(_, st). map_option (\<lambda>(_, st). (0, st)) (fs_close (Some h) st)))"

end
