(* ===== verification/Vfs_Props.thy ===== *)
theory Vfs_Props
  imports Vfs Fat_Mount
begin

text \<open>
  Paths through memory file systems and mounts, files written and read back through the file
  system layer, and the text of the working directory.
\<close>

section \<open>Walks along components\<close>

lemma path_next_join:
  assumes "\<forall>x \<in> set (c # cs). component n x"
  shows "fs_path_next (path_join (c # cs)) n = (c, path_join cs)"
proof (cases cs)
  case Nil
  then show ?thesis using path_next_component(1) assms by simp
next
  case (Cons d ds)
  obtain x t where d: "d = x # t" "x \<noteq> 47" using assms Cons by (cases d) (auto simp: component_def)
  then have "fs_path_skipsep (path_join cs) = path_join cs" using Cons by (cases ds) (simp_all add: fs_path_skipsep_def)
  then show ?thesis using path_next_component(2) [of n c "path_join cs"] assms Cons by simp
qed

lemma path_join_empty: "\<forall>x \<in> set cs. component n x \<Longrightarrow> path_join cs = [] \<longleftrightarrow> cs = []"
  by (cases cs rule: path_join.cases) (auto simp: component_def)

abbreviation memcomp :: "cstring \<Rightarrow> bool" where "memcomp \<equiv> component (int MEM_MAX_NAME + 1)"

text \<open>Where a list of names leads from a directory, without crossing a mount point.\<close>

fun follow :: "vfs \<Rightarrow> nid \<Rightarrow> cstring list \<Rightarrow> nid option" where
  "follow st n [] = Some n"
| "follow st n (c # cs) =
     (case nodes st n of
        None \<Rightarrow> None
      | Some nd \<Rightarrow>
          if n_type nd = FSNODE_DIR \<and> node_mnt st n = Some None then
            (case mem_find_entry (nodes st) n c of Some (Some m) \<Rightarrow> follow st m cs | _ \<Rightarrow> None)
          else None)"

lemma mem_walk_follow:
  assumes "follow st n cs = Some m" "\<forall>x \<in> set (cs @ ds). memcomp x"
  shows "mem_walk st n (path_join (cs @ ds)) flags = mem_walk st m (path_join ds) flags"
  using assms
proof (induction cs arbitrary: n)
  case (Cons c cs)
  obtain nd k where nd: "nodes st n = Some nd" "n_type nd = FSNODE_DIR" "node_mnt st n = Some None"
      "mem_find_entry (nodes st) n c = Some (Some k)" "follow st k cs = Some m"
    using Cons.prems(1) by (auto split: option.splits if_splits)
  have ne: "path_join (c # cs @ ds) \<noteq> []" using path_join_empty [of "c # cs @ ds" "int MEM_MAX_NAME + 1"] Cons.prems(2) by simp
  have "mem_walk st n (path_join (c # cs @ ds)) flags = mem_walk st k (path_join (cs @ ds)) flags"
    using nd ne path_next_join [of c "cs @ ds" "int MEM_MAX_NAME + 1"] Cons.prems(2)
    by (subst mem_walk.simps) (simp add: Let_def)
  then show ?case using Cons.IH [OF nd(5)] Cons.prems(2) by simp
qed simp

lemma hd_join: "\<forall>x \<in> set cs. component n x \<Longrightarrow> fs_path_skipsep (path_join cs) = path_join cs"
proof (cases cs)
  case (Cons c ds)
  assume "\<forall>x \<in> set cs. component n x"
  then obtain x t where "c = x # t" "x \<noteq> 47" using Cons by (cases c) (auto simp: component_def)
  then show ?thesis using Cons by (cases ds) (simp_all add: fs_path_skipsep_def)
qed simp

lemma fs_open_abs:
  assumes "rootfs st = Some r" "fss st r = Some (MemFs n0)" "\<forall>x \<in> set cs. memcomp x"
  shows "fs_open rd bd (47 # path_join cs) flags st =
     (case mem_walk st n0 (path_join cs) flags of
        None \<Rightarrow> None
      | Some (Fail e) \<Rightarrow> Some (null_open (Some e) st)
      | Some (Mounted fs' path) \<Rightarrow> fsop_open rd bd fs' (47 # path) flags st
      | Some (Missing d name) \<Rightarrow> mem_open_new r d name flags st
      | Some (At n) \<Rightarrow>
          if flag flags FSO_EXCL then Some (null_open (Some EEXIST) st)
          else map_option (\<lambda>(h, st). (Some h, st)) (create_fsnode r n st))"
  using assms hd_join [OF assms(3)]
  by (simp add: fs_open_def fsop_open.simps [of rd bd r] mem_start_def)

lemma open_mounted:
  assumes "rootfs st = Some r" "fss st r = Some (MemFs n0)" "follow st n0 cs = Some m"
    "nodes st m = Some md" "n_type md = FSNODE_DIR" "node_mnt st m = Some (Some fs')" "\<forall>x \<in> set (cs @ ds). memcomp x"
  shows "fs_open rd bd (47 # path_join (cs @ ds)) flags st = fsop_open rd bd fs' (47 # path_join ds) flags st"
proof -
  have "mem_walk st m (path_join ds) flags = Some (Mounted fs' (path_join ds))"
    using assms(4-6) by (subst mem_walk.simps) simp
  then show ?thesis using fs_open_abs [OF assms(1,2,7)] mem_walk_follow [OF assms(3,7)] by simp
qed

text \<open>C10: a path that leads through the directories of the root file system to a mount point and
  on opens what the rest of the path names in the file system that is mounted there; in a FAT
  volume this is what its own \<open>open\<close> gives for the rest.\<close>

theorem fs_open_crosses_mount:
  assumes "rootfs st = Some r" "fss st r = Some (MemFs n0)" "follow st n0 cs = Some m"
    "nodes st m = Some md" "n_type md = FSNODE_DIR" "node_mnt st m = Some (Some fs')" "\<forall>x \<in> set (cs @ ds). memcomp x"
    "fss st fs' = Some (FatFs fatfs root)" "fat_open rd bd fatfs root (fat_cwd st) (47 # path_join ds) = Some (Inr node)"
  shows "\<exists>st'. fs_open rd bd (47 # path_join (cs @ ds)) flags st = Some (Some (next_hid st), st')
    \<and> fsnodes st' (next_hid st) = Some \<lparr>fn_fs = fs', fn_type = fat_node_type node, fn_data = FatData node, fn_mnt = None\<rparr>
    \<and> nodes st' = nodes st"
  unfolding open_mounted [OF assms(1-7)] fsop_open.simps [of rd bd fs'] assms(8)
  using assms(9) by (simp add: new_fsnode_def Let_def)

text \<open>A root file system with the directory \<open>m\<close>, an open node of it, and a volume mounted there.\<close>

definition demo_dir :: "nid option \<Rightarrow> nid option \<Rightarrow> cstring \<Rightarrow> hid option \<Rightarrow> memfs_node" where
  "demo_dir par kid name h = (alloc_node FSNODE_DIR)\<lparr>n_parent := par, n_clist := kid, n_ctail := kid, n_name := name, n_fsnode := h\<rparr>"

definition demo_vfs :: "fatfs \<Rightarrow> vfs" where
  "demo_vfs fs = boot_vfs\<lparr>nodes := [0 \<mapsto> demo_dir None (Some 1) [] None, 1 \<mapsto> demo_dir (Some 0) None [109] (Some 0)], next_nid := 2,
     fsnodes := [0 \<mapsto> \<lparr>fn_fs = 0, fn_type = FSNODE_DIR, fn_data = ODir \<lparr>od_dir = 1, od_cur = None\<rparr>, fn_mnt = Some 1\<rparr>],
     next_hid := 1, fss := [0 \<mapsto> MemFs 0, 1 \<mapsto> FatFs fs \<lparr>ent = [], fsent = [], cur_ent = 0\<rparr>], next_fsid := 2, rootfs := Some 0\<rparr>"

lemma fs_open_crosses_mount_witness:
  "\<exists>st'. fs_open vol_rd 0x80 [47, 109] 0 (demo_vfs vol_params) = Some (Some 1, st')
    \<and> fsnodes st' 1 = Some \<lparr>fn_fs = 1, fn_type = FSNODE_DIR, fn_data = FatData (DirNode \<lparr>ent = [], fsent = [], cur_ent = 0\<rparr>), fn_mnt = None\<rparr>
    \<and> nodes st' = nodes (demo_vfs vol_params)"
proof -
  let ?st = "demo_vfs vol_params" and ?root = "\<lparr>ent = [], fsent = [], cur_ent = 0\<rparr> :: fat_dir"
  have "strcasecmp [109] [109] = 0" by (rule strcasecmp_refl)
  then have fo: "follow ?st 0 [[109]] = Some 1"
    by (simp add: demo_vfs_def demo_dir_def alloc_node_def node_mnt_def mem_find_entry_def strcmp_def find_child.simps [of _ "Some (Suc 0)"])
  have st: "rootfs ?st = Some 0" "fss ?st 0 = Some (MemFs 0)" "nodes ?st 1 = Some (demo_dir (Some 0) None [109] (Some 0))"
    "n_type (demo_dir (Some 0) None [109] (Some 0)) = FSNODE_DIR" "node_mnt ?st 1 = Some (Some 1)"
    "fss ?st 1 = Some (FatFs vol_params ?root)" "next_hid ?st = 1"
    by (simp_all add: demo_vfs_def demo_dir_def alloc_node_def node_mnt_def)
  have op: "fat_open vol_rd 0x80 vol_params ?root (fat_cwd ?st) (47 # path_join []) = Some (Inr (DirNode ?root))"
    by (simp add: fat_open_def open_walk.simps)
  have "\<forall>x \<in> set ([[109]] @ []). memcomp x" by (simp add: component_def MEM_MAX_NAME_def)
  from fs_open_crosses_mount [OF st(1,2) fo st(3-5) this st(6) op] st(7)
  show ?thesis by (simp add: fat_node_type_def)
qed

text \<open>The error of opening the components \<open>ds\<close> from the node \<open>m\<close>, if there is one: a file that is taken for a directory, a name
  that is missing and not to be created, and a path that leads to something where it must not.\<close>

definition open_error :: "vfs \<Rightarrow> nid \<Rightarrow> cstring list \<Rightarrow> u32 \<Rightarrow> int option" where
  "open_error st m ds flags =
     (case ds of
        [] \<Rightarrow> if flag flags FSO_EXCL then Some EEXIST else None
      | n # ns \<Rightarrow>
          if map_option n_type (nodes st m) \<noteq> Some FSNODE_DIR then Some ENOTDIR
          else if mem_find_entry (nodes st) m n = Some None \<and> (ns \<noteq> [] \<or> \<not> flag flags FSO_CREATE) then Some ENOENT
          else None)"

text \<open>C14: a path that cannot be opened gives the null pointer and the error that fits: \<open>ENOTDIR\<close> where it goes on behind a file, \<open>ENOENT\<close> where a
  name is missing that is not the last or not to be created, \<open>EEXIST\<close> where it leads to something although it must be new; nothing is
  created or changed on the way, however long the path is.\<close>

theorem fs_open_errors:
  assumes "rootfs st = Some r" "fss st r = Some (MemFs n0)" "follow st n0 cs = Some m" "nodes st m \<noteq> None" "node_mnt st m = Some None"
    "\<forall>x \<in> set (cs @ ds). memcomp x" "open_error st m ds flags = Some e"
  shows "fs_open rd bd (47 # path_join (cs @ ds)) flags st = Some (None, st\<lparr>errno := e\<rparr>)"
proof (cases ds)
  case Nil
  then have "mem_walk st m (path_join ds) flags = Some (At m)" using assms(5) by (subst mem_walk.simps) simp
  then show ?thesis using fs_open_abs [OF assms(1,2,6)] mem_walk_follow [OF assms(3,6)] assms(7) Nil
    by (simp add: open_error_def null_open_def split: if_splits)
next
  case (Cons n ns)
  obtain md where md: "nodes st m = Some md" using assms(4) by blast
  have ne: "path_join (n # ns) \<noteq> []" and nx: "path_join ns = [] \<longleftrightarrow> ns = []"
    using path_join_empty [of "n # ns" "int MEM_MAX_NAME + 1"] path_join_empty [of ns "int MEM_MAX_NAME + 1"] assms(6) Cons by simp_all
  have "mem_walk st m (path_join ds) flags = Some (Fail e)"
    using assms(5,7) md ne nx path_next_join [of n ns "int MEM_MAX_NAME + 1"] assms(6) unfolding Cons
    by (subst mem_walk.simps) (auto simp: open_error_def Let_def split: if_splits)
  then show ?thesis using fs_open_abs [OF assms(1,2,6)] mem_walk_follow [OF assms(3,6)] by (simp add: null_open_def)
qed

lemma fs_open_errors_witness:
  "fs_open vol_rd 0x80 [47, 120] 0 (demo_vfs vol_params) = Some (None, (demo_vfs vol_params)\<lparr>errno := 8\<rparr>)"
proof -
  have "strcasecmp [109] [120] \<noteq> 0" by code_simp
  then have e: "mem_find_entry (nodes (demo_vfs vol_params)) 0 [120] = Some None"
    by (simp add: demo_vfs_def demo_dir_def alloc_node_def mem_find_entry_def strcmp_def find_child.simps)
  have "open_error (demo_vfs vol_params) 0 [[120]] 0 = Some 8"
    using e by (simp add: open_error_def flag_def ENOENT_def) (simp add: demo_vfs_def demo_dir_def alloc_node_def)
  moreover have "rootfs (demo_vfs vol_params) = Some 0" "fss (demo_vfs vol_params) 0 = Some (MemFs 0)"
    "nodes (demo_vfs vol_params) 0 \<noteq> None" "node_mnt (demo_vfs vol_params) 0 = Some None"
    by (simp_all add: demo_vfs_def demo_dir_def alloc_node_def node_mnt_def)
  ultimately show ?thesis
    using fs_open_errors [of "demo_vfs vol_params" 0 0 "[]" 0 "[[120]]" 0 8 vol_rd "0x80"]
    by (simp add: component_def MEM_MAX_NAME_def)
qed

section \<open>Writing a file and reading it back\<close>

lemma follow_append: "follow st n (cs @ ds) = Option.bind (follow st n cs) (\<lambda>m. follow st m ds)"
  by (induction cs arbitrary: n) (simp_all split: option.split)

lemma follow_mono:
  assumes "follow st n cs = Some m"
    "\<And>e en. nodes st e = Some en \<Longrightarrow> n_type en = FSNODE_DIR \<Longrightarrow> node_mnt st e = Some None \<Longrightarrow>
       (\<exists>en'. nodes st' e = Some en' \<and> n_type en' = FSNODE_DIR) \<and> node_mnt st' e = Some None
       \<and> (\<forall>c k. mem_find_entry (nodes st) e c = Some (Some k) \<longrightarrow> mem_find_entry (nodes st') e c = Some (Some k))"
  shows "follow st' n cs = Some m"
  using assms(1)
proof (induction cs arbitrary: n)
  case (Cons c cs)
  obtain nd k where nd: "nodes st n = Some nd" "n_type nd = FSNODE_DIR" "node_mnt st n = Some None"
      "mem_find_entry (nodes st) n c = Some (Some k)" "follow st k cs = Some m"
    using Cons.prems by (auto split: option.splits if_splits)
  then show ?case using Cons.IH [OF nd(5)] assms(2) [OF nd(1-3)] nd(4) by auto
qed simp

lemma create_find:
  assumes "tree N kids" "N d = Some dn" "n_type dn = FSNODE_DIR" "N n = None" "mem_create N d n ty name = Some N'"
    "N e = Some en" "n_type en = FSNODE_DIR" "mem_find_entry N e c = Some (Some k)"
  shows "mem_find_entry N' e c = Some (Some k)"
proof -
  obtain nd where c: "tree N' (kids(d := kids d @ [n]))" "N' n = Some nd"
    "\<And>m. m \<noteq> n \<Longrightarrow> map_option n_name (N' m) = map_option n_name (N m) \<and> map_option n_type (N' m) = map_option n_type (N m)
      \<and> map_option meta (N' m) = map_option meta (N m)"
    using mem_create_tree [OF assms(1-4), of ty name] assms(5) by auto
  have "e \<noteq> n" using assms(4,6) by auto
  then obtain en' where en': "N' e = Some en'" "n_type en' = FSNODE_DIR" "n_parent en' = n_parent en"
    using c(3) [of e] assms(6,7) by (cases "N' e") (auto simp: meta_def)
  show ?thesis
  proof (cases "strcmp c [46] = 0 \<or> strcmp c [46, 46] = 0")
    case True
    then show ?thesis using assms(6,8) en' by (auto simp: mem_find_entry_def split: if_splits)
  next
    case False
    have "find (\<lambda>n. strcasecmp (n_name (the (N' n))) c = 0) (kids e) = find (\<lambda>n. strcasecmp (n_name (the (N n))) c = 0) (kids e)"
    proof (rule find_cong_on)
      fix x assume x: "x \<in> set (kids e)"
      obtain xd where xd: "N x = Some xd" by (rule tree_kid [OF assms(1) x])
      moreover from this assms(4) have "x \<noteq> n" by auto
      ultimately show "(strcasecmp (n_name (the (N' x))) c = 0) = (strcasecmp (n_name (the (N x))) c = 0)"
        using c(3) [of x] by auto
    qed
    moreover have "find (\<lambda>n. strcasecmp (n_name (the (N n))) c = 0) (kids e) = Some k"
      using find_entry_tree [OF assms(1,6,7)] False assms(8) by simp
    ultimately show ?thesis using find_entry_tree [OF c(1) en'(1,2)] False by (auto simp: find_append)
  qed
qed

text \<open>What of a node the walks look at, apart from its open node.\<close>

definition links :: "memfs_node \<Rightarrow> nid option \<times> fs_type \<times> nid option \<times> nid option \<times> nid option \<times> cstring" where
  "links nd = (n_parent nd, n_type nd, n_clist nd, n_ctail nd, n_next nd, n_name nd)"

lemma linksD:
  assumes "map_option links x = map_option links y"
  shows "map_option n_parent x = map_option n_parent y \<and> map_option n_type x = map_option n_type y
      \<and> map_option n_clist x = map_option n_clist y \<and> map_option n_ctail x = map_option n_ctail y
      \<and> map_option n_next x = map_option n_next y \<and> map_option n_name x = map_option n_name y"
  using assms by (cases x; cases y) (simp_all add: links_def)

lemma find_entry_links:
  assumes "tree N kids" "\<And>m. map_option links (N' m) = map_option links (N m)" "N e = Some en" "n_type en = FSNODE_DIR"
  shows "mem_find_entry N' e c = mem_find_entry N e c"
proof -
  note ln = linksD [OF assms(2)]
  have tr: "tree N' kids" by (rule tree_fields [OF assms(1)]) (use ln in blast)
  obtain en' where en': "N' e = Some en'" "n_type en' = FSNODE_DIR" "n_parent en' = n_parent en"
    using ln [of e] assms(3,4) by (cases "N' e") auto
  show ?thesis
  proof (cases "strcmp c [46] = 0 \<or> strcmp c [46, 46] = 0")
    case True
    then show ?thesis using assms(3) en' by (auto simp: mem_find_entry_def)
  next
    case False
    have "find (\<lambda>n. strcasecmp (n_name (the (N' n))) c = 0) (kids e) = find (\<lambda>n. strcasecmp (n_name (the (N n))) c = 0) (kids e)"
    proof (rule find_cong_on)
      fix x assume x: "x \<in> set (kids e)"
      obtain xd where "N x = Some xd" by (rule tree_kid [OF assms(1) x])
      then show "(strcasecmp (n_name (the (N' x))) c = 0) = (strcasecmp (n_name (the (N x))) c = 0)" using ln [of x] by auto
    qed
    then show ?thesis using find_entry_tree [OF assms(1,3,4)] find_entry_tree [OF tr en'(1,2)] False by simp
  qed
qed

lemma follow_links:
  assumes "tree (nodes st) kids" "\<And>m. map_option links (nodes st' m) = map_option links (nodes st m)"
    "\<And>m. node_mnt st m = Some None \<Longrightarrow> node_mnt st' m = Some None" "follow st n cs = Some m"
  shows "follow st' n cs = Some m"
proof (rule follow_mono [OF assms(4)])
  fix e en assume e: "nodes st e = Some en" "n_type en = FSNODE_DIR" "node_mnt st e = Some None"
  have "\<exists>en'. nodes st' e = Some en' \<and> n_type en' = FSNODE_DIR"
    using linksD [OF assms(2) [of e]] e(1,2) by (cases "nodes st' e") auto
  then show "(\<exists>en'. nodes st' e = Some en' \<and> n_type en' = FSNODE_DIR) \<and> node_mnt st' e = Some None
       \<and> (\<forall>c k. mem_find_entry (nodes st) e c = Some (Some k) \<longrightarrow> mem_find_entry (nodes st') e c = Some (Some k))"
    using assms(3) [OF e(3)] find_entry_links [OF assms(1,2) e(1,2)] by simp
qed

text \<open>A new file is created, with its open node, at the place its path names.\<close>

definition free_place :: "vfs \<Rightarrow> fsid \<Rightarrow> nid \<Rightarrow> (nid \<Rightarrow> nid list) \<Rightarrow> cstring list \<Rightarrow> nid \<Rightarrow> cstring \<Rightarrow> bool" where
  "free_place st r n0 kids cs d name \<longleftrightarrow> rootfs st = Some r \<and> fss st r = Some (MemFs n0) \<and> tree (nodes st) kids
     \<and> follow st n0 cs = Some d \<and> map_option n_type (nodes st d) = Some FSNODE_DIR \<and> node_mnt st d = Some None
     \<and> mem_find_entry (nodes st) d name = Some None \<and> strcmp name [46] \<noteq> 0 \<and> strcmp name [46, 46] \<noteq> 0
     \<and> (\<forall>x \<in> set (cs @ [name]). memcomp x) \<and> nodes st (next_nid st) = None \<and> fsnodes st (next_hid st) = None"

text \<open>States that differ in the node \<open>n\<close> and in the open node \<open>h\<close> at most.\<close>

lemma node_mnt_frame:
  assumes "node_mnt st e = Some None" "fsnodes st h = None" "fsnodes st' = (fsnodes st)(h := x)"
    "map_option n_fsnode (nodes st' e) = map_option n_fsnode (nodes st e)"
  shows "node_mnt st' e = Some None"
proof -
  obtain nd where nd: "nodes st e = Some nd" using assms(1) by (auto simp: node_mnt_def split: option.splits)
  then obtain nd' where nd': "nodes st' e = Some nd'" "n_fsnode nd' = n_fsnode nd" using assms(4) by (cases "nodes st' e") auto
  show ?thesis
  proof (cases "n_fsnode nd")
    case (Some k)
    then have "k \<noteq> h" using assms(1,2) nd by (auto simp: node_mnt_def)
    then show ?thesis using assms(1,3) nd nd' Some by (simp add: node_mnt_def)
  qed (use nd nd' in \<open>simp add: node_mnt_def\<close>)
qed

lemma create_new:
  assumes "free_place st r n0 kids cs d name"
  shows "\<exists>st1 nd. fs_open rd bd (47 # path_join (cs @ [name])) FSO_CREATE st = Some (Some (next_hid st), st1)
    \<and> fsnodes st1 = (fsnodes st)(next_hid st \<mapsto> \<lparr>fn_fs = r, fn_type = FSNODE_FILE, fn_data = OFile \<lparr>of_file = next_nid st, of_pos = 0\<rparr>, fn_mnt = None\<rparr>)
    \<and> rootfs st1 = Some r \<and> fss st1 r = Some (MemFs n0) \<and> (\<exists>kids. tree (nodes st1) kids)
    \<and> nodes st1 (next_nid st) = Some nd \<and> n_type nd = FSNODE_FILE \<and> n_data nd = Some [] \<and> n_size nd = 0 \<and> n_block nd = 0 \<and> n_fsnode nd = Some (next_hid st)
    \<and> (\<forall>st' x. nodes st' = nodes st1 \<longrightarrow> fsnodes st' = (fsnodes st)(next_hid st := x) \<longrightarrow> follow st' n0 (cs @ [name]) = Some (next_nid st))"
proof -
  let ?n = "next_nid st" and ?h = "next_hid st"
  note fp = assms [unfolded free_place_def]
  obtain dn where dn: "nodes st d = Some dn" "n_type dn = FSNODE_DIR" using fp by auto
  have d: "tree (nodes st) kids" "mem_find_entry (nodes st) d name = Some None" "strcmp name [46] \<noteq> 0" "strcmp name [46, 46] \<noteq> 0"
      "follow st n0 cs = Some d" "node_mnt st d = Some None" "nodes st ?n = None" "fsnodes st ?h = None" "rootfs st = Some r"
      "fss st r = Some (MemFs n0)" "\<forall>x \<in> set (cs @ [name]). memcomp x"
    using fp by simp_all
  obtain N' nd where c: "mem_create (nodes st) d ?n FSNODE_FILE name = Some N'" "tree N' (kids(d := kids d @ [?n]))"
    "N' ?n = Some nd" "n_name nd = name" "meta nd = (Some d, Some [], 0, 0, FSNODE_FILE, None)"
    "\<And>m. m \<noteq> ?n \<Longrightarrow> map_option n_name (N' m) = map_option n_name (nodes st m) \<and> map_option n_type (N' m) = map_option n_type (nodes st m)
      \<and> map_option meta (N' m) = map_option meta (nodes st m)"
    using mem_create_tree [OF d(1) dn d(7), of FSNODE_FILE name] by blast
  have nd: "n_data nd = Some []" "n_size nd = 0" "n_block nd = 0" "n_type nd = FSNODE_FILE" "n_fsnode nd = None" using c(5) by (simp_all add: meta_def)
  let ?fn = "\<lparr>fn_fs = r, fn_type = FSNODE_FILE, fn_data = OFile \<lparr>of_file = ?n, of_pos = 0\<rparr>, fn_mnt = None\<rparr>"
  define st1 where "st1 = st\<lparr>nodes := N'(?n \<mapsto> nd\<lparr>n_fsnode := Some ?h\<rparr>), next_nid := ?n + 1, fsnodes := (fsnodes st)(?h \<mapsto> ?fn), next_hid := ?h + 1\<rparr>"
  have w: "mem_walk st n0 (path_join (cs @ [name])) FSO_CREATE = Some (Missing d name)"
    unfolding mem_walk_follow [OF d(5,11)]
    using dn d(2,6,11) path_next_join [of name "[]" "int MEM_MAX_NAME + 1"]
    by (subst mem_walk.simps) (simp add: flag_def FSO_CREATE_def component_def Let_def)
  have "create_fsnode r ?n (st\<lparr>nodes := N', next_nid := ?n + 1\<rparr>) = Some (?h, st1)"
    using c(3) nd by (simp add: create_fsnode_def new_fsnode_def upd_def st1_def)
  then have run: "fs_open rd bd (47 # path_join (cs @ [name])) FSO_CREATE st = Some (Some ?h, st1)"
    using fs_open_abs [OF d(9-11)] w c(1) by (simp add: mem_open_new_def flag_def FSO_CREATE_def FSO_DIR_def)
  have lk: "map_option links (nodes st1 m) = map_option links (N' m)" for m using c(3) by (simp add: st1_def links_def)
  have tr: "tree (nodes st1) (kids(d := kids d @ [?n]))"
    by (rule tree_fields [OF c(2)]) (use linksD [OF lk] in blast)
  note kids = tr lk
  have dn': "n_type dn' = FSNODE_DIR" if "N' d = Some dn'" for dn'
  proof -
    have "d \<noteq> ?n" using dn d(7) by auto
    then show ?thesis using that c(6) [of d] dn by simp
  qed
  have fol: "follow st' n0 (cs @ [name]) = Some ?n" if same: "nodes st' = nodes st1" "fsnodes st' = (fsnodes st)(?h := x)" for st' x
  proof -
    have step: "(\<exists>en'. nodes st' e = Some en' \<and> n_type en' = FSNODE_DIR) \<and> node_mnt st' e = Some None
         \<and> (\<forall>c k. mem_find_entry (nodes st) e c = Some (Some k) \<longrightarrow> mem_find_entry (nodes st') e c = Some (Some k))"
      if e: "nodes st e = Some en" "n_type en = FSNODE_DIR" "node_mnt st e = Some None" for e en
    proof -
      have ne: "e \<noteq> ?n" using e(1) d(7) by auto
      obtain en' where en': "N' e = Some en'" "n_type en' = FSNODE_DIR" "n_fsnode en' = n_fsnode en"
        using c(6) [OF ne] e by (cases "N' e") (auto simp: meta_def)
      have "nodes st' e = Some en'" using en'(1) ne by (simp add: same st1_def)
      moreover have "node_mnt st' e = Some None"
        using en' ne e by (intro node_mnt_frame [OF e(3) d(8), where x = x]) (simp_all add: same st1_def)
      ultimately show ?thesis
        using en' create_find [OF d(1) dn d(7) c(1) e(1,2)] find_entry_links [OF c(2) kids(2) en'(1,2)] by (simp add: same)
    qed
    have "follow st' n0 cs = Some d" by (rule follow_mono [OF d(5) step])
    moreover have "follow st' d [name] = Some ?n"
    proof -
      have ne: "d \<noteq> ?n" using dn d(7) by auto
      have "mem_find_entry N' d name = Some (find (\<lambda>n. strcasecmp (n_name (the (N' n))) name = 0) (kids d @ [?n]))"
      proof -
        obtain en' where "N' d = Some en'" using c(6) [OF ne] dn by (cases "N' d") auto
        then show ?thesis using find_entry_tree [OF c(2) _ _ d(3,4), of d en'] dn' by simp
      qed
      moreover have "find (\<lambda>n. strcasecmp (n_name (the (N' n))) name = 0) (kids d) = find (\<lambda>n. strcasecmp (n_name (the (nodes st n))) name = 0) (kids d)"
      proof (rule find_cong_on)
        fix x assume x: "x \<in> set (kids d)"
        obtain xd where xd: "nodes st x = Some xd" by (rule tree_kid [OF d(1) x])
        moreover from this d(7) have "x \<noteq> ?n" by auto
        ultimately show "(strcasecmp (n_name (the (N' x))) name = 0) = (strcasecmp (n_name (the (nodes st x))) name = 0)"
          using c(6) [of x] by auto
      qed
      moreover have "find (\<lambda>n. strcasecmp (n_name (the (nodes st n))) name = 0) (kids d) = None"
        using find_entry_tree [OF d(1) dn d(3,4)] d(2) by simp
      ultimately have "mem_find_entry N' d name = Some (Some ?n)" using c(3,4) by (simp add: find_append strcasecmp_refl)
      moreover obtain en' where en': "N' d = Some en'" using c(6) [OF ne] dn by (cases "N' d") auto
      ultimately have "mem_find_entry (nodes st1) d name = Some (Some ?n)"
        using find_entry_links [OF c(2) kids(2) en'] dn' [OF en'] by simp
      then show ?thesis using step [OF dn d(6)] by (auto simp: same)
    qed
    ultimately show ?thesis by (simp add: follow_append)
  qed
  have "nodes st1 ?n = Some (nd\<lparr>n_fsnode := Some ?h\<rparr>)" "fsnodes st1 = (fsnodes st)(?h \<mapsto> ?fn)" "rootfs st1 = Some r" "fss st1 r = Some (MemFs n0)"
    using d(9,10) by (simp_all add: st1_def)
  then show ?thesis using run nd kids(1) fol by (intro exI [of _ st1] exI [of _ "nd\<lparr>n_fsnode := Some ?h\<rparr>"]) auto
qed

text \<open>Reads, writes and seeks on the open node \<open>h\<close> of a file.\<close>

definition open_file :: "vfs \<Rightarrow> hid \<Rightarrow> ofile \<Rightarrow> memfs_node \<Rightarrow> bool" where
  "open_file st h f nd \<longleftrightarrow> (\<exists>fn. fsnodes st h = Some fn \<and> fn_type fn = FSNODE_FILE \<and> fn_data fn = OFile f)
     \<and> nodes st (of_file f) = Some nd \<and> file_ok nd"

text \<open>What these operations leave as it is.\<close>

definition same_walks :: "vfs \<Rightarrow> vfs \<Rightarrow> bool" where
  "same_walks st st' \<longleftrightarrow> (\<forall>m. map_option links (nodes st' m) = map_option links (nodes st m)
       \<and> map_option n_fsnode (nodes st' m) = map_option n_fsnode (nodes st m))
     \<and> (\<forall>k. map_option fn_mnt (fsnodes st' k) = map_option fn_mnt (fsnodes st k))
     \<and> rootfs st' = rootfs st \<and> fss st' = fss st \<and> next_hid st' = next_hid st"

lemma same_walks_trans: "same_walks a b \<Longrightarrow> same_walks b c \<Longrightarrow> same_walks a c"
  unfolding same_walks_def by metis

lemma node_mnt_same: "same_walks st st' \<Longrightarrow> node_mnt st' m = node_mnt st m"
proof -
  assume s: "same_walks st st'"
  have m: "map_option n_fsnode (nodes st' m) = map_option n_fsnode (nodes st m)" using s by (simp add: same_walks_def)
  have k: "map_option fn_mnt (fsnodes st' k) = map_option fn_mnt (fsnodes st k)" for k using s by (simp add: same_walks_def)
  show ?thesis
    using m k by (cases "nodes st m"; cases "nodes st' m") (auto simp: node_mnt_def split: option.split)
qed

lemma follow_same:
  assumes "same_walks st st'" "tree (nodes st) kids" "follow st n cs = Some m"
  shows "follow st' n cs = Some m"
  by (rule follow_links [OF assms(2) _ _ assms(3)]) (use assms(1) node_mnt_same [OF assms(1)] in \<open>simp_all add: same_walks_def\<close>)

lemma mem_write_links:
  assumes "mem_write room nd f buf = Some (r, err, nd', f')"
  shows "links nd' = links nd \<and> n_fsnode nd' = n_fsnode nd"
  using mem_write_defined [OF assms] by (auto simp: links_def)

lemma fs_write_file:
  assumes "open_file st h f nd" "0 \<le> of_pos f" "\<forall>n. room n" "write_fits nd (of_pos f) (length buf)"
  shows "\<exists>st' nd'. fs_write room h buf st = Some (int (length buf), st')
    \<and> open_file st' h (f\<lparr>of_pos := of_pos f + int (length buf)\<rparr>) nd'
    \<and> bytes nd' = overwrite (nat (of_pos f)) (bytes nd) buf \<and> same_walks st st'
    \<and> (n_data nd = Some [] \<and> n_block nd = 0 \<and> of_pos f = 0 \<longrightarrow> length (the (n_data nd')) = length buf
       \<and> n_block nd' = (if buf = [] then 0 else block_size (int (length buf))))"
proof -
  obtain fn where fn: "fsnodes st h = Some fn" "fn_type fn = FSNODE_FILE" "fn_data fn = OFile f"
    and nd: "nodes st (of_file f) = Some nd" "file_ok nd" using assms(1) by (auto simp: open_file_def)
  obtain nd' where w: "mem_write room nd f buf = Some (int (length buf), None, nd', f\<lparr>of_pos := of_pos f + int (length buf)\<rparr>)"
    "file_ok nd'" "bytes nd' = overwrite (nat (of_pos f)) (bytes nd) buf"
    "n_data nd = Some [] \<and> n_block nd = 0 \<and> of_pos f = 0 \<longrightarrow> length (the (n_data nd')) = length buf
       \<and> n_block nd' = (if buf = [] then 0 else block_size (int (length buf)))"
    using mem_write_spec [OF nd(2) assms(2,4)] assms(3) by blast
  let ?st = "set_data h fn (OFile (f\<lparr>of_pos := of_pos f + int (length buf)\<rparr>)) (st\<lparr>nodes := (nodes st)(of_file f \<mapsto> nd')\<rparr>)"
  have "fs_write room h buf st = Some (int (length buf), ?st)"
    using fn nd w(1) by (simp add: fs_write_def set_errno_def)
  moreover have "open_file ?st h (f\<lparr>of_pos := of_pos f + int (length buf)\<rparr>) nd'"
    using fn w(2) by (simp add: open_file_def set_data_def)
  moreover have "same_walks st ?st"
    using mem_write_links [OF w(1)] nd(1) fn(1) by (simp add: same_walks_def set_data_def)
  ultimately show ?thesis using w(3,4) by blast
qed

lemma fs_write_overruns:
  assumes "open_file st h f nd" "\<not> write_fits nd (of_pos f) (length buf)"
  shows "fs_write room h buf st = None"
  using assms mem_write_overruns by (auto simp: open_file_def fs_write_def)

lemma fs_seek_file:
  assumes "open_file st h f nd" "0 \<le> p"
  shows "\<exists>st'. fs_seek h p FSSEEK_SET st = Some (0, st') \<and> open_file st' h (f\<lparr>of_pos := p\<rparr>) nd \<and> same_walks st st'"
proof -
  obtain fn where fn: "fsnodes st h = Some fn" "fn_type fn = FSNODE_FILE" "fn_data fn = OFile f"
    and nd: "nodes st (of_file f) = Some nd" "file_ok nd" using assms(1) by (auto simp: open_file_def)
  then have "fs_seek h p FSSEEK_SET st = Some (0, set_data h fn (OFile (f\<lparr>of_pos := p\<rparr>)) st)"
    using assms(2) by (simp add: fs_seek_def mem_seek_def)
  then show ?thesis using fn nd by (auto simp: open_file_def set_data_def same_walks_def)
qed

lemma fs_read_file:
  assumes "open_file st h f nd" "0 \<le> of_pos f" "of_pos f \<le> n_size nd" "0 \<le> sz"
  shows "\<exists>st'. fs_read rd bd h sz st = Some (min sz (n_size nd - of_pos f), take (nat sz) (drop (nat (of_pos f)) (bytes nd)), st')
    \<and> open_file st' h (f\<lparr>of_pos := of_pos f + min sz (n_size nd - of_pos f)\<rparr>) nd \<and> same_walks st st'"
proof -
  obtain fn where fn: "fsnodes st h = Some fn" "fn_type fn = FSNODE_FILE" "fn_data fn = OFile f"
    and nd: "nodes st (of_file f) = Some nd" "file_ok nd" using assms(1) by (auto simp: open_file_def)
  then have "fs_read rd bd h sz st = Some (min sz (n_size nd - of_pos f), take (nat sz) (drop (nat (of_pos f)) (bytes nd)),
      set_data h fn (OFile (f\<lparr>of_pos := of_pos f + min sz (n_size nd - of_pos f)\<rparr>)) st)"
    using mem_read_spec [OF nd(2) assms(2-4)] by (simp add: fs_read_def)
  then show ?thesis using fn nd by (auto simp: open_file_def set_data_def same_walks_def)
qed

lemma overwrite_new: "overwrite 0 [] buf = map Some buf"
  by (simp add: overwrite_def)

lemma overwrite_inside: "p \<le> length a \<Longrightarrow> overwrite p (map Some a) b = map Some (take p a @ b @ drop (p + length b) a)"
  by (simp add: overwrite_def take_map drop_map)

lemma open_existing:
  assumes "rootfs st = Some r" "fss st r = Some (MemFs n0)" "follow st n0 cs = Some n" "node_mnt st n = Some None"
    "nodes st n = Some nd" "n_type nd = FSNODE_FILE" "file_ok nd" "n_fsnode nd \<noteq> None" "\<forall>x \<in> set cs. memcomp x"
  shows "\<exists>st'. fs_open rd bd (47 # path_join cs) 0 st = Some (Some (next_hid st), st') \<and> open_file st' (next_hid st) \<lparr>of_file = n, of_pos = 0\<rparr> nd"
proof -
  have "mem_walk st n0 (path_join (cs @ [])) 0 = mem_walk st n (path_join []) 0" by (rule mem_walk_follow [OF assms(3)]) (use assms(9) in simp)
  then have w: "mem_walk st n0 (path_join cs) 0 = Some (At n)"
    using assms(4) by (simp add: mem_walk.simps [of st n "[]"])
  show ?thesis
    using fs_open_abs [OF assms(1,2,9)] w assms(5-8)
    by (simp add: flag_def create_fsnode_def new_fsnode_def open_file_def upd_def)
qed

text \<open>Whether a file of \<open>n\<close> bytes written at once can grow to \<open>t\<close> bytes: its block is large enough, or \<open>realloc\<close> gives another.
  Files of 16 bytes or more can.\<close>

definition regrows :: "nat \<Rightarrow> nat \<Rightarrow> bool" where
  "regrows n t \<longleftrightarrow> t \<le> n \<or> n = 0 \<or> int t + 12 \<le> block_size (int n) \<or> block_size (int n) < grown_max (int n) (int t)"

lemma regrows_large: "16 \<le> n \<Longrightarrow> regrows n t"
  using block_size_ge(2) [of "int n"] by (auto simp: regrows_def grown_max_def)

lemma write_fits_regrows:
  assumes "length (the (n_data nd)) = n" "n_block nd = (if n = 0 then 0 else block_size (int n))" "p \<le> n"
  shows "write_fits nd (int p) k \<longleftrightarrow> regrows n (p + k)"
proof (cases "n = 0")
  case True
  then show ?thesis using assms by (auto simp: write_fits_def regrows_def grown_max_def)
next
  case False
  show ?thesis
  proof (cases "p + k \<le> n")
    case True
    then have "int p + int k + 12 \<le> block_size (int n)" using block_size_ge(1) [of "int n"] by linarith
    then show ?thesis using True False assms by (simp add: write_fits_def regrows_def)
  next
    case gt: False
    then have "k \<noteq> 0" "int n < int p + int k" using assms(3) by linarith+
    then show ?thesis using False gt assms by (simp add: write_fits_def regrows_def Let_def)
  qed
qed

text \<open>C7: what is written to a new file, in two pieces with a seek back in between, is what another
  open of its path reads, as long as the node that created it is open. When the first piece has fewer than 16 bytes and \<open>realloc\<close>
  keeps its block for a second piece that is too long for it, the second write ends behind the block.\<close>

theorem fs_write_then_read:
  assumes "free_place st r n0 kids cs d name" "\<forall>n. room n" "p \<le> length a" "0 \<le> sz"
  shows "\<exists>h st1 st2 st3. fs_open rd bd (47 # path_join (cs @ [name])) FSO_CREATE st = Some (Some h, st1)
    \<and> fs_write room h a st1 = Some (int (length a), st2) \<and> fs_seek h (int p) FSSEEK_SET st2 = Some (0, st3)
    \<and> (if regrows (length a) (p + length b)
       then \<exists>h' st4 st5 st6. fs_write room h b st3 = Some (int (length b), st4)
         \<and> fs_open rd bd (47 # path_join (cs @ [name])) 0 st4 = Some (Some h', st5)
         \<and> fs_read rd bd h' sz st5 = Some (min sz (int (max (length a) (p + length b))),
             map Some (take (nat sz) (take p a @ b @ drop (p + length b) a)), st6)
       else fs_write room h b st3 = None)"
proof -
  let ?path = "47 # path_join (cs @ [name])" and ?n = "next_nid st" and ?h = "next_hid st"
  let ?f = "\<lambda>p. \<lparr>of_file = ?n, of_pos = p\<rparr>" and ?out = "take p a @ b @ drop (p + length b) a"
  obtain st1 nd kids1 where c: "fs_open rd bd ?path FSO_CREATE st = Some (Some ?h, st1)"
    "fsnodes st1 ?h = Some \<lparr>fn_fs = r, fn_type = FSNODE_FILE, fn_data = OFile (?f 0), fn_mnt = None\<rparr>"
    "rootfs st1 = Some r" "fss st1 r = Some (MemFs n0)" "tree (nodes st1) kids1" "nodes st1 ?n = Some nd"
    "n_type nd = FSNODE_FILE" "n_data nd = Some []" "n_size nd = 0" "n_block nd = 0" "n_fsnode nd = Some ?h" "follow st1 n0 (cs @ [name]) = Some ?n"
    using create_new [OF assms(1), of rd bd] by fastforce
  have o1: "open_file st1 ?h (?f 0) nd" using c by (simp add: open_file_def file_ok_def)
  obtain st2 nd2 where w1: "fs_write room ?h a st1 = Some (int (length a), st2)" "open_file st2 ?h (?f (int (length a))) nd2"
      "bytes nd2 = map Some a" "same_walks st1 st2" "length (the (n_data nd2)) = length a"
      "n_block nd2 = (if length a = 0 then 0 else block_size (int (length a)))"
  proof -
    have "write_fits nd (of_pos (?f 0)) (length a)" using write_fits_regrows [of nd 0 0 "length a"] c(8,10) by (simp add: regrows_def)
    from fs_write_file [OF o1 _ assms(2) this] show ?thesis using c(8-10) that by (auto simp: overwrite_new bytes_def)
  qed
  obtain st3 where s: "fs_seek ?h (int p) FSSEEK_SET st2 = Some (0, st3)" "open_file st3 ?h (?f (int p)) nd2" "same_walks st2 st3"
    using fs_seek_file [OF w1(2), of "int p"] by auto
  have fits: "write_fits nd2 (of_pos (?f (int p))) (length b) \<longleftrightarrow> regrows (length a) (p + length b)"
    using write_fits_regrows [OF w1(5,6) assms(3)] by simp
  show ?thesis
  proof (cases "regrows (length a) (p + length b)")
    case False
    then show ?thesis using c(1) w1(1) s(1) fs_write_overruns [OF s(2), of b room] fits by auto
  next
    case True
    obtain st4 nd4 where w2: "fs_write room ?h b st3 = Some (int (length b), st4)" "open_file st4 ?h (?f (int p + int (length b))) nd4"
        "bytes nd4 = map Some ?out" "same_walks st3 st4"
      using fs_write_file [OF s(2) _ assms(2), of b] True fits w1(3) overwrite_inside [OF assms(3), of b] by auto
    have sw: "same_walks st1 st4" using same_walks_trans [OF same_walks_trans [OF w1(4) s(3)] w2(4)] .
    have nd4: "nodes st4 ?n = Some nd4" "file_ok nd4" using w2(2) by (simp_all add: open_file_def)
    have lf: "links nd4 = links nd" "n_fsnode nd4 = n_fsnode nd"
      using sw c(6) nd4(1) unfolding same_walks_def by (metis option.inject option.map(2))+
    have ty: "n_type nd4 = FSNODE_FILE" "n_fsnode nd4 \<noteq> None" using lf c(7,11) by (simp_all add: links_def)
    have mnt: "node_mnt st4 ?n = Some None" using node_mnt_same [OF sw] c(2,6,11) by (simp add: node_mnt_def)
    have comps: "\<forall>x \<in> set (cs @ [name]). memcomp x" using assms(1) by (simp add: free_place_def)
    have roots: "rootfs st4 = Some r" "fss st4 r = Some (MemFs n0)" using sw c(3,4) by (simp_all add: same_walks_def)
    obtain st5 where o2: "fs_open rd bd ?path 0 st4 = Some (Some (next_hid st4), st5)" "open_file st5 (next_hid st4) (?f 0) nd4"
      using open_existing [OF roots follow_same [OF sw c(5,12)] mnt nd4(1) ty(1) nd4(2) ty(2) comps, of rd bd] by blast
    have "nat (n_size nd4) = length ?out" using length_bytes [OF nd4(2)] unfolding w2(3) by simp
    moreover have "0 \<le> n_size nd4" using nd4(2) by (simp add: file_ok_def)
    moreover have "length ?out = max (length a) (p + length b)" using assms(3) by simp
    ultimately have len: "n_size nd4 = int (max (length a) (p + length b))" by linarith
    obtain st6 where "fs_read rd bd (next_hid st4) sz st5 = Some (min sz (n_size nd4 - 0), take (nat sz) (drop 0 (bytes nd4)), st6)"
      using fs_read_file [OF o2(2), of sz rd bd] assms(4) len by auto
    then have "fs_read rd bd (next_hid st4) sz st5 = Some (min sz (int (max (length a) (p + length b))), map Some (take (nat sz) ?out), st6)"
      by (simp add: w2(3) len take_map del: take_append append_take_drop_id map_append)
    then show ?thesis using True c(1) w1(1) s(1) w2(1) o2(1) by auto
  qed
qed

text \<open>Once the node that created a file is closed, \<open>NODE_IS_MNTPT\<close> looks at it in its released
  memory whenever the file is opened again.\<close>

theorem fs_reopen_after_close:
  assumes "free_place st r n0 kids cs d name"
    "fs_open rd bd (47 # path_join (cs @ [name])) FSO_CREATE st = Some (h, st1)" "fs_close h st1 = Some (0, st2)"
  shows "fs_open rd bd (47 # path_join (cs @ [name])) flags st2 = None"
proof -
  let ?n = "next_nid st" and ?h = "next_hid st"
  obtain st1' nd where c: "fs_open rd bd (47 # path_join (cs @ [name])) FSO_CREATE st = Some (Some ?h, st1')"
    "rootfs st1' = Some r" "fss st1' r = Some (MemFs n0)" "nodes st1' ?n = Some nd" "n_fsnode nd = Some ?h"
    "fsnodes st1' = (fsnodes st)(?h \<mapsto> \<lparr>fn_fs = r, fn_type = FSNODE_FILE, fn_data = OFile \<lparr>of_file = ?n, of_pos = 0\<rparr>, fn_mnt = None\<rparr>)"
    "\<And>st' x. nodes st' = nodes st1' \<Longrightarrow> fsnodes st' = (fsnodes st)(?h := x) \<Longrightarrow> follow st' n0 (cs @ [name]) = Some ?n"
    using create_new [OF assms(1), of rd bd] by blast
  have st: "h = Some ?h" "st1' = st1" using c(1) assms(2) by simp_all
  have st2: "st2 = st1\<lparr>fsnodes := (fsnodes st1)(?h := None)\<rparr>" using assms(3) st by (auto simp: fs_close_def split: option.splits)
  have comps: "\<forall>x \<in> set (cs @ [name]). memcomp x" using assms(1) by (simp add: free_place_def)
  have f: "follow st2 n0 (cs @ [name]) = Some ?n" using c(6) st(2) by (intro c(7) [where x = None]) (simp_all add: st2)
  have "node_mnt st2 ?n = None" using c(4,5) st(2) by (simp add: node_mnt_def st2)
  then have "mem_walk st2 n0 (path_join (cs @ [name])) flags = None"
    using mem_walk_follow [OF f, of "[]" flags] comps by (simp add: mem_walk.simps [of st2 ?n "[]"])
  then show ?thesis using c(2,3) st(2) comps by (subst fs_open_abs [of _ r n0]) (simp_all add: st2)
qed

text \<open>What the boot makes of the memory disk: a root file system whose directory is the working one.\<close>

definition root_vfs :: vfs where
  "root_vfs = boot_vfs\<lparr>nodes := [0 \<mapsto> (alloc_node FSNODE_DIR)\<lparr>n_fsnode := Some 0\<rparr>], next_nid := 1,
     fsnodes := [0 \<mapsto> \<lparr>fn_fs = 0, fn_type = FSNODE_DIR, fn_data = ODir \<lparr>od_dir = 0, od_cur = None\<rparr>, fn_mnt = None\<rparr>], next_hid := 1,
     fss := [0 \<mapsto> MemFs 0], rootfs := Some 0, cwdnode := Some 0, cwdpath := [47], next_fsid := 1\<rparr>"

lemma mount_root: "fs_mount rd bd low DEV_MEMDISK start None boot_vfs = Some (Inr (Some 0, root_vfs))"
  by (simp add: fs_mount_def create_any_def fsmem_create_def boot_vfs_def fs_chdir_def fs_open_def fsop_open.simps mem_start_def
      mem_walk.simps node_mnt_def alloc_node_def strcmp_def flag_def create_fsnode_def new_fsnode_def upd_def new_cwdpath_def fs_close_def
      root_vfs_def Let_def)

lemma root_place: "free_place root_vfs 0 0 (\<lambda>_. []) [] 0 [97]"
proof -
  have "tree (nodes root_vfs) (\<lambda>_. [])" by (rule tree_fields [OF new_tree [of 0]]) (simp add: root_vfs_def)
  then show ?thesis
    by (simp add: free_place_def root_vfs_def boot_vfs_def alloc_node_def node_mnt_def mem_find_entry_def find_child.simps [of _ None]
        strcmp_def component_def MEM_MAX_NAME_def)
qed

lemma fs_write_then_read_witness:
  "(\<exists>h st1 st2 st3 h' st4 st5 st6. fs_open vol_rd 0x80 [47, 97] FSO_CREATE root_vfs = Some (Some h, st1)
    \<and> fs_write (\<lambda>_. True) h [1, 2, 3] st1 = Some (3, st2) \<and> fs_seek h 1 FSSEEK_SET st2 = Some (0, st3)
    \<and> fs_write (\<lambda>_. True) h [7, 8, 9] st3 = Some (3, st4) \<and> fs_open vol_rd 0x80 [47, 97] 0 st4 = Some (Some h', st5)
    \<and> fs_read vol_rd 0x80 h' 100 st5 = Some (4, map Some [1, 7, 8, 9], st6))
   \<and> (\<exists>h st1 st2 st3. fs_open vol_rd 0x80 [47, 97] FSO_CREATE root_vfs = Some (Some h, st1)
    \<and> fs_write (\<lambda>_. True) h [1, 2, 3] st1 = Some (3, st2) \<and> fs_seek h 3 FSSEEK_SET st2 = Some (0, st3)
    \<and> fs_write (\<lambda>_. True) h [4, 5, 6] st3 = None)"
proof -
  have r: "regrows 3 4" "\<not> regrows 3 6" by (simp_all add: regrows_def block_size_def grown_max_def)
  show ?thesis
    using fs_write_then_read [OF root_place, of "\<lambda>_. True" 1 "[1, 2, 3]" 100 vol_rd "0x80" "[7, 8, 9]"]
      fs_write_then_read [OF root_place, of "\<lambda>_. True" 3 "[1, 2, 3]" 100 vol_rd "0x80" "[4, 5, 6]"] r
    by (simp add: numeral_eq_Suc)
qed

lemma fs_reopen_after_close_witness:
  "\<exists>h st1 st2. fs_open vol_rd 0x80 [47, 97] FSO_CREATE root_vfs = Some (h, st1) \<and> fs_close h st1 = Some (0, st2)
    \<and> fs_open vol_rd 0x80 [47, 97] 0 st2 = None"
proof -
  obtain st1 where c: "fs_open vol_rd 0x80 (47 # path_join ([] @ [[97]])) FSO_CREATE root_vfs = Some (Some (next_hid root_vfs), st1)"
    "fsnodes st1 (next_hid root_vfs) \<noteq> None"
    using create_new [OF root_place, of vol_rd "0x80"] by fastforce
  then obtain st2 where "fs_close (Some (next_hid root_vfs)) st1 = Some (0, st2)" by (auto simp: fs_close_def)
  from fs_reopen_after_close [OF root_place c(1) this, of 0] this c(1) show ?thesis by auto
qed

section \<open>The working directory\<close>

lemma create_fsnode_cwd: "create_fsnode fs n st = Some (h, st') \<Longrightarrow> cwdpath st' = cwdpath st"
  by (auto simp: create_fsnode_def new_fsnode_def Let_def split: option.splits)

lemma fsop_open_cwd:
  assumes "fsop_open rd bd fs path flags st = Some y"
  shows "cwdpath (snd y) = cwdpath st"
  by (rule fsop_open.raw_induct [where P = "\<lambda>rd bd fs path flags st y. cwdpath (snd y) = cwdpath st", OF _ assms])
    (auto simp: null_open_def new_fsnode_def mem_open_new_def Let_def dest!: create_fsnode_cwd
      split: option.splits filesys.splits sum.splits walk_end.splits if_splits)

lemma fs_open_cwd: "fs_open rd bd path flags st = Some (h, st') \<Longrightarrow> cwdpath st' = cwdpath st"
  using fsop_open_cwd by (fastforce simp: fs_open_def split: if_splits option.splits)

text \<open>A path of the form the working directory has: the slash, or names each with a slash in front.\<close>

lemma up_scan_name: "47 \<notin> set s \<Longrightarrow> up_scan (c @ 47 # s) (length c + 1 + k) = length c" if "k \<le> length s"
  using that
proof (induction k)
  case (Suc k)
  then have "(c @ 47 # s) ! (length c + 1 + k) \<noteq> 47" by (simp add: nth_append nth_Cons' ) (metis Suc_le_lessD nth_mem)
  then show ?case using Suc by simp
qed simp

lemma up_path_name: "47 \<notin> set s \<Longrightarrow> up_path (c @ 47 # s) = (if c = [] then [47] else c)"
  using up_scan_name [of "length s" s c] by (simp add: up_path_def Let_def)

lemma fs_chdir_moves:
  assumes "fs_chdir rd bd path st = Some (Inr (0, st'))" "strcmp path [46] \<noteq> 0"
  obtains h st1 r st2 where "fs_open rd bd (if strcmp path [46, 46] = 0 then up_path (cwdpath st) else path) 0 st = Some (Some h, st1)"
    "(if strcmp path [46, 46] = 0 then cwdpath st' = up_path (cwdpath st) else new_cwdpath (cwdpath st) path = Some (Inr (cwdpath st')))"
    "cwdnode st' = Some h" "fs_close (cwdnode st1) st1 = Some (r, st2)" "st' = st2\<lparr>cwdpath := cwdpath st', cwdnode := Some h\<rparr>"
proof -
  let ?up = "strcmp path [46, 46] = 0"
  obtain h st1 where o: "fs_open rd bd (if ?up then up_path (cwdpath st) else path) 0 st = Some (Some h, st1)"
    using assms by (auto simp: fs_chdir_def Let_def split: if_splits option.splits prod.splits)
  have c: "cwdpath st1 = cwdpath st" by (rule fs_open_cwd [OF o])
  obtain fn where "fsnodes st1 h = Some fn" "fn_type fn = FSNODE_DIR"
    using assms o by (auto simp: fs_chdir_def Let_def split: if_splits option.splits)
  then show ?thesis using assms o c that [OF o]
    by (auto simp: fs_chdir_def Let_def split: if_splits option.splits sum.splits)
qed

lemma new_cwdpath_name:
  assumes "new_cwdpath cwd name = Some (Inr p)" "hd name \<noteq> 47" "cwd = [47] \<or> 1 < length cwd"
  shows "p = (if cwd = [47] then [] else cwd) @ 47 # name \<and> length p < 1024"
  using assms by (auto simp: new_cwdpath_def Let_def split: if_splits)

text \<open>Going into a directory by its name and back with \<open>..\<close> restores the text of the working
  directory, which in between has the name at its end and fits its buffer.\<close>

theorem fs_chdir_and_back:
  assumes "fs_chdir rd bd name st = Some (Inr (0, st1))" "fs_chdir rd' bd [46, 46] st1 = Some (Inr (0, st2))"
    "47 \<notin> set name" "name \<noteq> []" "strcmp name [46] \<noteq> 0" "strcmp name [46, 46] \<noteq> 0" "cwdpath st = [47] \<or> 1 < length (cwdpath st)"
  shows "fs_getcwd st1 = (if cwdpath st = [47] then [] else cwdpath st) @ 47 # name \<and> length (fs_getcwd st1) < 1024
    \<and> fs_getcwd st2 = fs_getcwd st"
proof -
  have p: "new_cwdpath (cwdpath st) name = Some (Inr (cwdpath st1))"
    using assms(6) by (rule_tac fs_chdir_moves [OF assms(1,5)]) simp
  have "hd name \<noteq> 47" using assms(3,4) by (cases name) auto
  note n = new_cwdpath_name [OF p this assms(7)]
  have "strcmp [46, 46] [46] \<noteq> (0 :: int)" "strcmp [46, 46] [46, 46] = (0 :: int)" by (simp_all add: strcmp_def)
  then have "cwdpath st2 = up_path (cwdpath st1)" by (rule_tac fs_chdir_moves [OF assms(2)]) simp_all
  then show ?thesis using n up_path_name [OF assms(3)] assms(7) by (auto simp: fs_getcwd_def)
qed

text \<open>Opening without \<open>FSO_CREATE\<close> changes no node that was open before.\<close>

lemma mem_walk_no_create: "\<not> flag flags FSO_CREATE \<Longrightarrow> mem_walk st n path flags \<noteq> Some (Missing d name)"
proof (induction st n path flags rule: mem_walk.induct)
  case (1 st n path flags)
  then show ?case by (subst mem_walk.simps) (auto simp: Let_def split: option.splits)
qed

definition opened :: "vfs \<Rightarrow> vfs \<Rightarrow> bool" where
  "opened st st' \<longleftrightarrow> rootfs st' = rootfs st \<and> fss st' = fss st \<and> cwdnode st' = cwdnode st
    \<and> (\<forall>n nd. nodes st n = Some nd \<longrightarrow> n_fsnode nd \<noteq> None \<longrightarrow> nodes st' n = Some nd)"

lemma create_fsnode_opened: "create_fsnode fs n st = Some (h, st') \<Longrightarrow> opened st st'"
  by (auto simp: create_fsnode_def new_fsnode_def opened_def upd_def Let_def split: option.splits)

lemma fsop_open_keeps:
  assumes "fsop_open rd bd fs path flags st = Some y" "\<not> flag flags FSO_CREATE"
  shows "opened st (snd y)"
proof -
  have "\<not> flag flags FSO_CREATE \<longrightarrow> opened st (snd y)"
    by (rule fsop_open.raw_induct [where P = "\<lambda>rd bd fs path flags st y. \<not> flag flags FSO_CREATE \<longrightarrow> opened st (snd y)", OF _ assms(1)])
      (auto simp: null_open_def new_fsnode_def Let_def mem_walk_no_create dest!: create_fsnode_opened
        split: option.splits filesys.splits sum.splits walk_end.splits if_splits, auto simp: opened_def)
  then show ?thesis using assms(2) by blast
qed

lemma fs_open_keeps: "fs_open rd bd path flags st = Some (h, st') \<Longrightarrow> \<not> flag flags FSO_CREATE \<Longrightarrow> opened st st'"
  using fsop_open_keeps [of rd bd _ path flags st "(h, st')"]
  by (auto simp: fs_open_def opened_def split: if_splits option.splits)

text \<open>Changing the working directory away from an open node that the root directory noted, as
  the one that \<open>fs_mount\<close> makes, releases it, and every absolute path is then looked up in
  released memory.\<close>

theorem fs_chdir_releases_root:
  assumes "fs_chdir rd bd path st = Some (Inr (0, st1))" "strcmp path [46] \<noteq> 0"
    "rootfs st = Some r" "fss st r = Some (MemFs n0)" "nodes st n0 = Some nd" "n_type nd = FSNODE_DIR"
    "n_fsnode nd = Some k" "cwdnode st = Some k"
  shows "fs_open rd bd (47 # p) flags st1 = None"
proof -
  obtain h st' r' st2 where o: "fs_open rd bd (if strcmp path [46, 46] = 0 then up_path (cwdpath st) else path) 0 st = Some (Some h, st')"
    "fs_close (cwdnode st') st' = Some (r', st2)" "st1 = st2\<lparr>cwdpath := cwdpath st1, cwdnode := Some h\<rparr>"
    by (rule fs_chdir_moves [OF assms(1,2)])
  have op: "opened st st'" by (rule fs_open_keeps [OF o(1)]) (simp add: flag_def)
  have c: "rootfs st' = Some r" "fss st' r = Some (MemFs n0)" "cwdnode st' = Some k" "nodes st' n0 = Some nd"
    using op assms(3-5,7,8) by (auto simp: opened_def)
  have "rootfs st1 = Some r \<and> fss st1 r = Some (MemFs n0) \<and> nodes st1 n0 = Some nd \<and> fsnodes st1 k = None"
    using c o(2) by (subst (1 2 3 4) o(3)) (auto simp: fs_close_def split: option.splits)
  moreover from this have "mem_walk st1 n0 q flags = None" for q
    using assms(6,7) by (subst mem_walk.simps) (simp add: node_mnt_def)
  ultimately show ?thesis by (simp add: fs_open_def fsop_open.simps [of rd bd r] mem_start_def)
qed

definition chdir_vfs :: vfs where
  "chdir_vfs = root_vfs\<lparr>nodes := [0 \<mapsto> demo_dir None (Some 1) [] (Some 0), 1 \<mapsto> demo_dir (Some 0) None [98] None], next_nid := 2\<rparr>"

definition back_vfs :: vfs where
  "back_vfs = chdir_vfs\<lparr>cwdnode := Some 1, next_hid := 2, fsnodes := (fsnodes root_vfs)(1 := fsnodes root_vfs 0)\<rparr>"

lemmas chdir_eval = fs_chdir_def fs_open_def fsop_open.simps mem_start_def mem_walk.simps node_mnt_def alloc_node_def strcmp_def flag_def
  create_fsnode_def new_fsnode_def upd_def new_cwdpath_def fs_close_def demo_dir_def root_vfs_def boot_vfs_def chdir_vfs_def back_vfs_def
  fs_path_next_def mem_find_entry_def Let_def strcasecmp_refl up_path_def

lemma chdir_run: "\<exists>st1. fs_chdir rd bd [98] chdir_vfs = Some (Inr (0, st1))"
  by (simp add: chdir_eval find_child.simps [of _ "Some (Suc 0)"] fs_path_skipsep_def MEM_MAX_NAME_def)

lemma fs_chdir_releases_root_witness:
  "\<exists>st1. fs_chdir vol_rd 0x80 [98] chdir_vfs = Some (Inr (0, st1)) \<and> fs_open vol_rd 0x80 [47] 0 st1 = None"
proof -
  obtain st1 where c: "fs_chdir vol_rd 0x80 [98] chdir_vfs = Some (Inr (0, st1))" using chdir_run by blast
  have "fs_open vol_rd 0x80 (47 # []) 0 st1 = None"
    by (rule fs_chdir_releases_root [OF c, where nd = "demo_dir None (Some 1) [] (Some 0)" and k = 0 and ?n0.0 = 0 and r = 0])
      (simp_all add: strcmp_def chdir_vfs_def root_vfs_def boot_vfs_def demo_dir_def alloc_node_def)
  then show ?thesis using c by blast
qed

lemma back_run: "\<exists>st1 st2. fs_chdir rd bd [98] back_vfs = Some (Inr (0, st1)) \<and> fs_chdir rd bd [46, 46] st1 = Some (Inr (0, st2))"
  by (simp add: chdir_eval find_child.simps [of _ "Some (Suc 0)"] fs_path_skipsep_def MEM_MAX_NAME_def)

lemma fs_chdir_and_back_witness:
  "\<exists>st1 st2. fs_chdir vol_rd 0x80 [98] back_vfs = Some (Inr (0, st1)) \<and> fs_chdir vol_rd 0x80 [46, 46] st1 = Some (Inr (0, st2))
    \<and> fs_getcwd st1 = [47, 98] \<and> fs_getcwd st2 = [47]"
proof -
  obtain st1 st2 where c: "fs_chdir vol_rd 0x80 [98] back_vfs = Some (Inr (0, st1))" "fs_chdir vol_rd 0x80 [46, 46] st1 = Some (Inr (0, st2))"
    using back_run by blast
  have w: "cwdpath back_vfs = [47]" by (simp add: back_vfs_def chdir_vfs_def root_vfs_def)
  show ?thesis using fs_chdir_and_back [OF c] c w by (simp add: strcmp_def fs_getcwd_def)
qed

end
