(* ===== verification/Timer.thy ===== *)
theory Timer
  imports Hw "HOL-Library.Multiset"
begin

text \<open>
  The timer of \<open>src/timer.c\<close>: the 8254's rate, the list of alarms, each with the ticks between it
  and the one in front, and the interrupt handler that counts ticks and calls what is due.
  The functions to call are names \<open>'f\<close> with a meaning \<open>call\<close> on the whole state, timer included.
  \<open>evlist\<close> is \<open>None\<close> once it points to an event that was released; looking at it then is \<open>None\<close>.
\<close>

definition OSC_FREQ_HZ :: int where "OSC_FREQ_HZ = 1193182"
definition TICK_FREQ_HZ :: int where "TICK_FREQ_HZ = 250"

definition DIV_ROUND :: "int \<Rightarrow> int \<Rightarrow> int" where
  "DIV_ROUND a b = c_div a b + c_div (c_mod a b) (c_div b 2)"

text \<open>The interrupt handler is entered in the table of the interrupts elsewhere.\<close>

definition init_timer :: "('z machine_scheme, unit) state" where
  "init_timer = (let reload_count = word_of_int (DIV_ROUND OSC_FREQ_HZ TICK_FREQ_HZ) :: u32 in do {
     outb 0x36 0x43;
     outb (ucast (reload_count AND 0xff)) 0x40;
     outb (ucast (drop_bit 8 reload_count AND 0xff)) 0x40 })"

record 'f event =
  ev_dt :: int
  ev_func :: 'f

record 'f timer =
  nticks :: u32
  evlist :: "'f event list option"
  iflag :: bool

definition MSEC_TO_TICKS :: "u32 \<Rightarrow> u32" where
  "MSEC_TO_TICKS ms = ms * 250 div 1000"

text \<open>The insertion behind an event; \<open>tsum\<close> are the ticks up to that one.\<close>

fun insert_behind :: "int \<Rightarrow> 'f event list \<Rightarrow> int \<Rightarrow> 'f \<Rightarrow> 'f event list" where
  "insert_behind tsum [] ticks f = [\<lparr>ev_dt = ticks - tsum, ev_func = f\<rparr>]"
| "insert_behind tsum (n # ns) ticks f =
     (if tsum + ev_dt n < ticks then n # insert_behind (tsum + ev_dt n) ns ticks f
      else \<lparr>ev_dt = ticks - tsum, ev_func = f\<rparr> # n\<lparr>ev_dt := ev_dt n - (ticks - tsum)\<rparr> # ns)"

fun insert_event :: "'f event list \<Rightarrow> int \<Rightarrow> 'f \<Rightarrow> 'f event list" where
  "insert_event [] ticks f = [\<lparr>ev_dt = ticks, ev_func = f\<rparr>]"
| "insert_event (e # es) ticks f =
     (if ticks < ev_dt e then \<lparr>ev_dt = ticks, ev_func = f\<rparr> # e\<lparr>ev_dt := ev_dt e - ticks\<rparr> # es
      else e # insert_behind (ev_dt e) es ticks f)"

definition set_alarm :: "u32 \<Rightarrow> 'f \<Rightarrow> ('f, 'z) timer_scheme \<Rightarrow> ('f, 'z) timer_scheme option" where
  "set_alarm msec f t = (
     let ticks = sint (MSEC_TO_TICKS msec)
     in if ticks \<le> 0 then Some t
        else
          let saved = iflag t; t = t\<lparr>iflag := False\<rparr>
          in case evlist t of
               None \<Rightarrow> None
             | Some es \<Rightarrow> Some (t\<lparr>evlist := Some (insert_event es ticks f), iflag := saved\<rparr>))"

fun remove_event :: "'f event list \<Rightarrow> 'f \<Rightarrow> 'f event list" where
  "remove_event [] f = []"
| "remove_event (e # es) f =
     (if ev_func e = f then (case es of [] \<Rightarrow> [] | n # ns \<Rightarrow> n\<lparr>ev_dt := ev_dt n + ev_dt e\<rparr> # ns)
      else e # remove_event es f)"

text \<open>The list is unlinked behind a dummy, whose link is not taken over as the new head: when the
  first event goes, \<open>evlist\<close> keeps pointing to it.\<close>

definition cancel_alarm :: "'f \<Rightarrow> ('f, 'z) timer_scheme \<Rightarrow> ('f, 'z) timer_scheme option" where
  "cancel_alarm f t = (
     let saved = iflag t; t = t\<lparr>iflag := False\<rparr>
     in case evlist t of
          None \<Rightarrow> None
        | Some [] \<Rightarrow> Some (t\<lparr>iflag := saved\<rparr>)
        | Some (e # es) \<Rightarrow>
            Some (t\<lparr>evlist := (if ev_func e = f then None else Some (e # remove_event es f)), iflag := saved\<rparr>))"

partial_function (option) fire_loop :: "('f \<Rightarrow> ('f, 'z) timer_scheme \<Rightarrow> ('f, 'z) timer_scheme option) \<Rightarrow>
    ('f, 'z) timer_scheme \<Rightarrow> ('f, 'z) timer_scheme option" where
  "fire_loop call t =
     (case evlist t of
        None \<Rightarrow> None
      | Some [] \<Rightarrow> Some t
      | Some (e # es) \<Rightarrow>
          if ev_dt e \<le> 0 then Option.bind (call (ev_func e) (t\<lparr>evlist := Some es\<rparr>)) (\<lambda>t. fire_loop call t)
          else Some t)"

declare fire_loop.simps [code]

definition timer_handler :: "('f \<Rightarrow> ('f, 'z) timer_scheme \<Rightarrow> ('f, 'z) timer_scheme option) \<Rightarrow>
    ('f, 'z) timer_scheme \<Rightarrow> ('f, 'z) timer_scheme option" where
  "timer_handler call t = (
     let t = t\<lparr>nticks := nticks t + 1\<rparr>
     in case evlist t of
          None \<Rightarrow> None
        | Some [] \<Rightarrow> Some t
        | Some (e # es) \<Rightarrow> fire_loop call (t\<lparr>evlist := Some (e\<lparr>ev_dt := ev_dt e - 1\<rparr> # es)\<rparr>))"

section \<open>Alarms as deadlines\<close>

text \<open>The tick at which each alarm is due, counted from \<open>s\<close>.\<close>

fun deadlines :: "int \<Rightarrow> 'f event list \<Rightarrow> (int \<times> 'f) list" where
  "deadlines s [] = []"
| "deadlines s (e # es) = (s + ev_dt e, ev_func e) # deadlines (s + ev_dt e) es"

definition events_ok :: "'f event list \<Rightarrow> bool" where
  "events_ok es \<longleftrightarrow> (\<forall>e \<in> set es. 0 \<le> ev_dt e) \<and> (es \<noteq> [] \<longrightarrow> 0 < ev_dt (hd es))"

lemma deadlines_ge: "\<forall>e \<in> set es. 0 \<le> ev_dt e \<Longrightarrow> x \<in> set (deadlines s es) \<Longrightarrow> s \<le> fst x"
  by (induction es arbitrary: s) force+

lemma deadlines_sorted: "\<forall>e \<in> set es. 0 \<le> ev_dt e \<Longrightarrow> sorted (map fst (deadlines s es))"
  by (induction es arbitrary: s) (auto dest: deadlines_ge [rotated])

lemma deadlines_shift: "deadlines (s + k) es = map (\<lambda>(d, f). (d + k, f)) (deadlines s es)"
  proof (induction es arbitrary: s)
  case (Cons e es)
  have "deadlines (s + k + ev_dt e) es = deadlines (s + ev_dt e + k) es" by (rule arg_cong [where f = "\<lambda>x. deadlines x es"]) simp
  then show ?case using Cons [of "s + ev_dt e"] by simp
qed simp

lemma insert_behind_deadlines:
  assumes "\<forall>e \<in> set es. 0 \<le> ev_dt e" "tsum \<le> ticks"
  shows "mset (deadlines tsum (insert_behind tsum es ticks f)) = add_mset (ticks, f) (mset (deadlines tsum es))
    \<and> (\<forall>e \<in> set (insert_behind tsum es ticks f). 0 \<le> ev_dt e)"
  using assms
proof (induction es arbitrary: tsum)
  case (Cons e es)
  show ?case
  proof (cases "tsum + ev_dt e < ticks")
    case True
    then show ?thesis using Cons.IH [of "tsum + ev_dt e"] Cons.prems by simp
  next
    case False
    then show ?thesis using Cons.prems by (simp add: add.commute)
  qed
qed simp

lemma insert_event_deadlines:
  assumes "events_ok es" "0 < ticks"
  shows "mset (deadlines 0 (insert_event es ticks f)) = add_mset (ticks, f) (mset (deadlines 0 es))
    \<and> events_ok (insert_event es ticks f)"
proof (cases es)
  case (Cons e rest)
  have ok: "\<forall>x \<in> set rest. 0 \<le> ev_dt x" "0 < ev_dt e" using assms(1) Cons by (auto simp: events_ok_def)
  show ?thesis
  proof (cases "ticks < ev_dt e")
    case False
    then show ?thesis using insert_behind_deadlines [OF ok(1), of "ev_dt e" ticks f] ok Cons by (simp add: events_ok_def)
  qed (use ok assms(2) Cons in \<open>simp add: events_ok_def\<close>)
qed (use assms(2) in \<open>simp add: events_ok_def\<close>)

text \<open>The call does something of its own, on its own part of the state.\<close>

definition plain :: "('f \<Rightarrow> 'z \<Rightarrow> 'z) \<Rightarrow> 'f \<Rightarrow> ('f, 'z) timer_scheme \<Rightarrow> ('f, 'z) timer_scheme option" where
  "plain g f t = Some (timer.more_update (g f) t)"

lemma fire_plain:
  assumes "evlist t = Some es" "\<forall>e \<in> set es. 0 \<le> ev_dt e"
  shows "\<exists>es'. fire_loop (plain g) t = Some (t\<lparr>evlist := Some es', timer.more := fold g (map snd (filter (\<lambda>x. fst x \<le> 0) (deadlines 0 es))) (timer.more t)\<rparr>)
    \<and> events_ok es' \<and> deadlines 0 es' = filter (\<lambda>x. 0 < fst x) (deadlines 0 es)"
  using assms
proof (induction es arbitrary: t)
  case Nil
  then show ?case by (subst fire_loop.simps) (intro exI [of _ "[]"], simp add: events_ok_def)
next
  case (Cons e es)
  show ?case
  proof (cases "ev_dt e \<le> 0")
    case True
    then have z: "ev_dt e = 0" using Cons.prems(2) by auto
    have "fire_loop (plain g) t = fire_loop (plain g) (timer.more_update (g (ev_func e)) (t\<lparr>evlist := Some es\<rparr>))"
      using Cons.prems(1) z by (subst fire_loop.simps) (simp add: plain_def)
    then show ?thesis
      using Cons.IH [of "timer.more_update (g (ev_func e)) (t\<lparr>evlist := Some es\<rparr>)"] Cons.prems(2) z by auto
  next
    case False
    then have "fire_loop (plain g) t = Some t" using Cons.prems(1) by (subst fire_loop.simps) simp
    moreover have "\<forall>x \<in> set (deadlines 0 (e # es)). 0 < fst x"
      using deadlines_ge [of es _ "ev_dt e"] Cons.prems(2) False by force
    then have "filter (\<lambda>x. fst x \<le> 0) (deadlines 0 (e # es)) = []" "filter (\<lambda>x. 0 < fst x) (deadlines 0 (e # es)) = deadlines 0 (e # es)"
      by (auto simp: filter_empty_conv filter_id_conv)
    ultimately show ?thesis using Cons.prems False
      by (intro exI [of _ "e # es"]) (simp add: events_ok_def)
  qed
qed

lemma handler_plain:
  assumes "evlist t = Some es" "events_ok es"
  shows "\<exists>es'. timer_handler (plain g) t = Some (t\<lparr>nticks := nticks t + 1, evlist := Some es',
      timer.more := fold g (map snd (filter (\<lambda>x. fst x \<le> 1) (deadlines 0 es))) (timer.more t)\<rparr>)
    \<and> events_ok es' \<and> deadlines 0 es' = map (\<lambda>(d, f). (d - 1, f)) (filter (\<lambda>x. 1 < fst x) (deadlines 0 es))"
proof (cases es)
  case Nil
  then show ?thesis using assms by (intro exI [of _ "[]"]) (simp add: timer_handler_def events_ok_def)
next
  case (Cons e rest)
  let ?es = "e\<lparr>ev_dt := ev_dt e - 1\<rparr> # rest"
  let ?t = "t\<lparr>nticks := nticks t + 1, evlist := Some ?es\<rparr>"
  have ok: "\<forall>x \<in> set ?es. 0 \<le> ev_dt x" using assms(2) Cons by (simp add: events_ok_def)
  have d: "deadlines 0 ?es = map (\<lambda>(d, f). (d - 1, f)) (deadlines 0 es)"
    using deadlines_shift [of "ev_dt e" "- 1" rest] Cons by simp
  have run: "timer_handler (plain g) t = fire_loop (plain g) ?t" using assms(1) Cons by (simp add: timer_handler_def)
  have f: "map snd (filter (\<lambda>x. fst x \<le> 0) (deadlines 0 ?es)) = map snd (filter (\<lambda>x. fst x \<le> 1) (deadlines 0 es))"
    "filter (\<lambda>x. 0 < fst x) (deadlines 0 ?es) = map (\<lambda>(d, f). (d - 1, f)) (filter (\<lambda>x. 1 < fst x) (deadlines 0 es))"
    unfolding d by (simp_all add: filter_map comp_def case_prod_beta)
  show ?thesis using fire_plain [of ?t ?es g] ok unfolding run f by simp
qed

fun ticks :: "nat \<Rightarrow> ('f \<Rightarrow> ('f, 'z) timer_scheme \<Rightarrow> ('f, 'z) timer_scheme option) \<Rightarrow>
    ('f, 'z) timer_scheme \<Rightarrow> ('f, 'z) timer_scheme option" where
  "ticks 0 call t = Some t"
| "ticks (Suc n) call t = Option.bind (timer_handler call t) (ticks n call)"

lemma fold_split:
  "sorted (map fst xs) \<Longrightarrow> filter (\<lambda>x. fst x \<le> a + b) xs = filter (\<lambda>x. fst x \<le> a) xs @ filter (\<lambda>x. a < fst x \<and> fst x \<le> a + b) xs"
  if "(0 :: int) \<le> b"
proof (induction xs)
  case (Cons x xs)
  have "fst x \<le> a \<or> filter (\<lambda>x. fst x \<le> a) xs = []" using Cons.prems by (force simp: filter_empty_conv)
  then show ?case using Cons that by auto
qed simp

lemma ticks_plain:
  assumes "evlist t = Some es" "events_ok es"
  shows "\<exists>es'. ticks n (plain g) t = Some (t\<lparr>nticks := nticks t + of_nat n, evlist := Some es',
      timer.more := fold g (map snd (filter (\<lambda>x. fst x \<le> int n) (deadlines 0 es))) (timer.more t)\<rparr>)
    \<and> events_ok es' \<and> deadlines 0 es' = map (\<lambda>(d, f). (d - int n, f)) (filter (\<lambda>x. int n < fst x) (deadlines 0 es))"
  using assms
proof (induction n arbitrary: t es)
  case 0
  have "\<forall>x \<in> set (deadlines 0 es). 0 < fst x"
  proof (cases es)
    case (Cons e rest)
    then show ?thesis using 0(2) deadlines_ge [of rest _ "ev_dt e"] by (force simp: events_ok_def)
  qed simp
  then have "filter (\<lambda>x. fst x \<le> 0) (deadlines 0 es) = []" "filter (\<lambda>x. 0 < fst x) (deadlines 0 es) = deadlines 0 es"
    by (auto simp: filter_empty_conv filter_id_conv)
  then show ?case using 0 by (intro exI [of _ es]) simp
next
  case (Suc n)
  let ?ds = "deadlines 0 es"
  obtain es1 where h: "timer_handler (plain g) t = Some (t\<lparr>nticks := nticks t + 1, evlist := Some es1,
      timer.more := fold g (map snd (filter (\<lambda>x. fst x \<le> 1) ?ds)) (timer.more t)\<rparr>)" "events_ok es1"
    "deadlines 0 es1 = map (\<lambda>(d, f). (d - 1, f)) (filter (\<lambda>x. 1 < fst x) ?ds)"
    using handler_plain [OF Suc.prems] by blast
  have sorted: "sorted (map fst ?ds)" using Suc.prems(2) by (intro deadlines_sorted) (simp add: events_ok_def)
  have f: "map snd (filter (\<lambda>x. fst x \<le> int n) (deadlines 0 es1)) = map snd (filter (\<lambda>x. 1 < fst x \<and> fst x \<le> 1 + int n) ?ds)"
    "map (\<lambda>(d, f). (d - int n, f)) (filter (\<lambda>x. int n < fst x) (deadlines 0 es1))
      = map (\<lambda>(d, f). (d - int (Suc n), f)) (filter (\<lambda>x. int (Suc n) < fst x) ?ds)"
    unfolding h(3) by (simp_all add: filter_map comp_def case_prod_beta) (auto intro!: map_cong filter_cong)
  show ?case
    using Suc.IH [of "t\<lparr>nticks := nticks t + 1, evlist := Some es1,
      timer.more := fold g (map snd (filter (\<lambda>x. fst x \<le> 1) ?ds)) (timer.more t)\<rparr>" es1] h(1,2) f
      fold_split [of "int n" ?ds 1] sorted
    by (simp add: add.assoc)
qed

section \<open>Properties\<close>

text \<open>Setting an alarm adds its deadline and leaves the deadlines of the others as they are; the
  deadlines stay in order, and interrupts are on again if they were.\<close>

theorem set_alarm_adds:
  assumes "evlist t = Some es" "events_ok es" "0 < sint (MSEC_TO_TICKS msec)"
  shows "\<exists>es'. set_alarm msec f t = Some (t\<lparr>evlist := Some es'\<rparr>) \<and> events_ok es'
    \<and> mset (deadlines 0 es') = add_mset (sint (MSEC_TO_TICKS msec), f) (mset (deadlines 0 es))
    \<and> sorted (map fst (deadlines 0 es'))"
proof -
  note i = insert_event_deadlines [OF assms(2,3), of f]
  have "\<forall>e \<in> set (insert_event es (sint (MSEC_TO_TICKS msec)) f). 0 \<le> ev_dt e" using i by (simp add: events_ok_def)
  then show ?thesis using i assms(1,3) deadlines_sorted by (auto simp: set_alarm_def Let_def)
qed

lemma set_alarm_adds_witness:
  "\<exists>es'. set_alarm 20 (7 :: nat) \<lparr>nticks = 0, evlist = Some [\<lparr>ev_dt = 9, ev_func = 1\<rparr>], iflag = True\<rparr>
      = Some \<lparr>nticks = 0, evlist = Some es', iflag = True\<rparr> \<and> deadlines 0 es' = [(5, 7), (9, 1)]"
proof -
  have m: "MSEC_TO_TICKS 20 = 5" by (simp add: MSEC_TO_TICKS_def)
  let ?t = "\<lparr>nticks = 0, evlist = Some [\<lparr>ev_dt = 9, ev_func = 1\<rparr>], iflag = True\<rparr> :: nat timer"
  obtain es' where e: "set_alarm 20 7 ?t = Some (?t\<lparr>evlist := Some es'\<rparr>)" "mset (deadlines 0 es') = {#(5, 7), (9, 1)#}"
    "sorted (map fst (deadlines 0 es'))"
    using set_alarm_adds [of ?t "[\<lparr>ev_dt = 9, ev_func = 1\<rparr>]" 20 7] by (auto simp: m events_ok_def)
  have "length (deadlines 0 es') = 2" using arg_cong [OF e(2), of size] by simp
  then obtain a b where "deadlines 0 es' = [a, b]" by (auto simp: length_Suc_conv numeral_2_eq_2)
  then have "deadlines 0 es' = [(5, 7), (9, 1)]" using e(2,3) by (auto simp: add_eq_conv_ex)
  then show ?thesis using e(1) by simp
qed

text \<open>C17: after any number of interrupts exactly the alarms that are due have been called, in the
  order of their deadlines, each once; the others are still set, as many ticks nearer. The
  functions called here do not set alarms themselves.\<close>

theorem alarms_fire:
  assumes "evlist t = Some es" "events_ok es"
  shows "\<exists>es'. ticks n (plain g) t = Some (t\<lparr>nticks := nticks t + of_nat n, evlist := Some es',
      timer.more := fold g (map snd (filter (\<lambda>x. fst x \<le> int n) (deadlines 0 es))) (timer.more t)\<rparr>)
    \<and> events_ok es' \<and> deadlines 0 es' = map (\<lambda>(d, f). (d - int n, f)) (filter (\<lambda>x. int n < fst x) (deadlines 0 es))"
  by (rule ticks_plain [OF assms])

lemma alarms_fire_witness:
  "\<exists>es'. ticks 6 (plain (\<lambda>f w. w @ [f])) \<lparr>nticks = 0, evlist = Some [\<lparr>ev_dt = 5, ev_func = 7\<rparr>, \<lparr>ev_dt = 0, ev_func = 2\<rparr>, \<lparr>ev_dt = 4, ev_func = 1 :: nat\<rparr>], iflag = True, \<dots> = []\<rparr>
    = Some \<lparr>nticks = 6, evlist = Some es', iflag = True, \<dots> = [7, 2]\<rparr> \<and> deadlines 0 es' = [(3, 1)]"
  using alarms_fire [of "\<lparr>nticks = 0, evlist = Some [\<lparr>ev_dt = 5, ev_func = 7\<rparr>, \<lparr>ev_dt = 0, ev_func = 2\<rparr>, \<lparr>ev_dt = 4, ev_func = 1\<rparr>], iflag = True, \<dots> = []\<rparr>"
      "[\<lparr>ev_dt = 5, ev_func = 7\<rparr>, \<lparr>ev_dt = 0, ev_func = 2\<rparr>, \<lparr>ev_dt = 4, ev_func = 1 :: nat\<rparr>]" 6 "\<lambda>f w. w @ [f]"]
  by (simp add: events_ok_def) blast

lemma remove_deadlines:
  "deadlines s (remove_event es f) = takeWhile (\<lambda>x. snd x \<noteq> f) (deadlines s es) @ tl (dropWhile (\<lambda>x. snd x \<noteq> f) (deadlines s es))"
proof (induction es arbitrary: s)
  case (Cons e es)
  have "s + (ev_dt n + ev_dt e) = s + ev_dt e + ev_dt n" for n :: "'a event" by simp
  then show ?case using Cons by (cases es) (simp_all add: add.commute add.left_commute)
qed simp

text \<open>Cancelling an alarm behind the first removes it and leaves the other deadlines as they are;
  cancelling the first leaves \<open>evlist\<close> at the released event, which the next interrupt looks at.\<close>

theorem cancel_alarm_spec:
  assumes "evlist t = Some (e # es)"
  shows "if ev_func e = f then \<exists>t'. cancel_alarm f t = Some t' \<and> timer_handler call t' = None \<and> cancel_alarm k t' = None
    else \<exists>es'. cancel_alarm f t = Some (t\<lparr>evlist := Some es'\<rparr>)
      \<and> deadlines 0 es' = takeWhile (\<lambda>x. snd x \<noteq> f) (deadlines 0 (e # es)) @ tl (dropWhile (\<lambda>x. snd x \<noteq> f) (deadlines 0 (e # es)))"
  using assms by (auto simp: cancel_alarm_def timer_handler_def remove_deadlines Let_def)

lemma cancel_alarm_spec_witness:
  "\<exists>es'. cancel_alarm 1 \<lparr>nticks = 0, evlist = Some [\<lparr>ev_dt = 5, ev_func = 7\<rparr>, \<lparr>ev_dt = 2, ev_func = 1\<rparr>, \<lparr>ev_dt = 3, ev_func = 4 :: nat\<rparr>], iflag = True\<rparr>
    = Some \<lparr>nticks = 0, evlist = Some es', iflag = True\<rparr> \<and> deadlines 0 es' = [(5, 7), (10, 4)]"
  using cancel_alarm_spec [of "\<lparr>nticks = 0, evlist = Some [\<lparr>ev_dt = 5, ev_func = 7\<rparr>, \<lparr>ev_dt = 2, ev_func = 1\<rparr>, \<lparr>ev_dt = 3, ev_func = 4 :: nat\<rparr>], iflag = True\<rparr>"
      "\<lparr>ev_dt = 5, ev_func = 7\<rparr>" "[\<lparr>ev_dt = 2, ev_func = 1\<rparr>, \<lparr>ev_dt = 3, ev_func = 4\<rparr>]" 1] by simp

end
