(* ===== verification/File.thy ===== *)
theory File
  imports Vfs_Props
begin

text \<open>
  Buffered-looking file access of \<open>libc/file.c\<close> over the file system layer: \<open>fopen\<close>, \<open>fread\<close>, \<open>fwrite\<close>,
  \<open>fgetc\<close>, \<open>fgets\<close> and the rest. A \<open>FILE\<close> is a value that is passed in and out; its allocation
  succeeds. The value of a byte that was never written and a division by zero are \<open>None\<close>.
\<close>

definition MODE_READ :: u32 where "MODE_READ = 1"
definition MODE_WRITE :: u32 where "MODE_WRITE = 2"
definition MODE_APPEND :: u32 where "MODE_APPEND = 4"
definition MODE_CREATE :: u32 where "MODE_CREATE = 8"
definition MODE_TRUNCATE :: u32 where "MODE_TRUNCATE = 16"
definition STATUS_EOF :: u32 where "STATUS_EOF = 1"
definition STATUS_ERR :: u32 where "STATUS_ERR = 2"
definition EINVAL :: int where "EINVAL = 3"
definition EISDIR :: int where "EISDIR = 13"

record FILE =
  mode :: u32
  status :: u32
  fsn :: hid

text \<open>The loop over the letters of the mode; an unknown one is an error.\<close>

fun mode_flags :: "cstring \<Rightarrow> u32 \<Rightarrow> u32 option" where
  "mode_flags [] m = Some m"
| "mode_flags (c # cs) m =
     (if c = 114 then
        (case cs of d # ds \<Rightarrow> if d = 43 then mode_flags ds (m OR MODE_READ OR MODE_WRITE) else mode_flags cs (m OR MODE_READ)
                  | [] \<Rightarrow> mode_flags cs (m OR MODE_READ))
      else if c = 119 then
        (case cs of d # ds \<Rightarrow> if d = 43 then mode_flags ds (m OR (MODE_WRITE OR MODE_TRUNCATE) OR (MODE_READ OR MODE_CREATE))
                       else mode_flags cs (m OR (MODE_WRITE OR MODE_TRUNCATE))
                  | [] \<Rightarrow> mode_flags cs (m OR (MODE_WRITE OR MODE_TRUNCATE)))
      else if c = 97 then
        (case cs of d # ds \<Rightarrow> if d = 43 then mode_flags ds (m OR (MODE_WRITE OR MODE_APPEND) OR (MODE_READ OR MODE_CREATE))
                       else mode_flags cs (m OR (MODE_WRITE OR MODE_APPEND))
                  | [] \<Rightarrow> mode_flags cs (m OR (MODE_WRITE OR MODE_APPEND)))
      else if c = 98 then mode_flags cs m
      else None)"

definition fopen :: "reader \<Rightarrow> int \<Rightarrow> cstring \<Rightarrow> cstring \<Rightarrow> vfs \<Rightarrow> (FILE option \<times> vfs) option" where
  "fopen rd bd path md st =
     (case mode_flags md 0 of
        None \<Rightarrow> Some (None, st\<lparr>errno := EINVAL\<rparr>)
      | Some mflags \<Rightarrow>
          (case fs_open rd bd path 0 st of
             None \<Rightarrow> None
           | Some (None, st) \<Rightarrow> Some (None, st\<lparr>errno := ENOENT\<rparr>)
           | Some (Some h, st) \<Rightarrow>
               (case fsnodes st h of
                  None \<Rightarrow> None
                | Some fn \<Rightarrow>
                    if fn_type fn \<noteq> FSNODE_FILE then Some (None, st\<lparr>errno := EISDIR\<rparr>)
                    else Some (Some \<lparr>mode = mflags, status = 0, fsn = h\<rparr>, st))))"

definition fclose :: "FILE option \<Rightarrow> vfs \<Rightarrow> (int \<times> vfs) option" where
  "fclose fp st = (case fp of None \<Rightarrow> Some (-1, st\<lparr>errno := EINVAL\<rparr>) | Some fp \<Rightarrow> map_option (\<lambda>(_, st). (0, st)) (fs_close (Some (fsn fp)) st))"

definition filesize :: "FILE \<Rightarrow> vfs \<Rightarrow> int option" where
  "filesize fp st = fs_filesize (fsn fp) st"

definition whence_of :: "int \<Rightarrow> whence" where
  "whence_of from = (if from = 0 then FSSEEK_SET else if from = 1 then FSSEEK_CUR else FSSEEK_END)"

definition fseek :: "FILE option \<Rightarrow> int \<Rightarrow> int \<Rightarrow> vfs \<Rightarrow> (int \<times> FILE option \<times> vfs) option" where
  "fseek fp offset from st =
     (case fp of
        None \<Rightarrow> Some (-1, None, st\<lparr>errno := EINVAL\<rparr>)
      | Some f \<Rightarrow>
          if from < 0 \<or> 2 < from then Some (-1, fp, st\<lparr>errno := EINVAL\<rparr>)
          else map_option (\<lambda>(_, st). (0, Some (f\<lparr>status := status f AND NOT STATUS_EOF\<rparr>), st))
            (fs_seek (fsn f) offset (whence_of from) st))"

definition rewind_file :: "FILE option \<Rightarrow> vfs \<Rightarrow> (int \<times> FILE option \<times> vfs) option" where
  "rewind_file fp st = fseek fp 0 0 st"

definition ftell :: "FILE option \<Rightarrow> vfs \<Rightarrow> (int \<times> vfs) option" where
  "ftell fp st =
     (case fp of
        None \<Rightarrow> Some (-1, st\<lparr>errno := EINVAL\<rparr>)
      | Some f \<Rightarrow> map_option (\<lambda>r. (r, st)) (fs_tell (fsn f) st))"

definition fread :: "reader \<Rightarrow> int \<Rightarrow> u32 \<Rightarrow> u32 \<Rightarrow> FILE option \<Rightarrow> vfs \<Rightarrow> (u32 \<times> u8 option list \<times> FILE option \<times> vfs) option" where
  "fread rd bd sz count fp st =
     (case fp of
        None \<Rightarrow> Some (0, [], None, st)
      | Some f \<Rightarrow>
          (case fs_read rd bd (fsn f) (sint (sz * count)) st of
             None \<Rightarrow> None
           | Some (res, out, st) \<Rightarrow>
               if res = -1 then Some (0, out, Some (f\<lparr>status := status f OR STATUS_EOF\<rparr>), st)
               else if sz = 0 then None
               else Some (word_of_int res div sz, out, fp, st)))"

definition fwrite :: "(int \<Rightarrow> bool) \<Rightarrow> u8 list \<Rightarrow> u32 \<Rightarrow> u32 \<Rightarrow> FILE option \<Rightarrow> vfs \<Rightarrow> (u32 \<times> FILE option \<times> vfs) option" where
  "fwrite room buf sz count fp st =
     (case fp of
        None \<Rightarrow> Some (0, None, st)
      | Some f \<Rightarrow>
          if mode f AND MODE_WRITE = 0 then Some (0, Some (f\<lparr>status := status f OR STATUS_ERR\<rparr>), st)
          else (case fs_write room (fsn f) (take (unat (sz * count)) buf) st of
              None \<Rightarrow> None
            | Some (res, st) \<Rightarrow>
                if res = -1 then Some (0, fp, st)
                else if sz = 0 then None
                else Some (word_of_int res div sz, fp, st)))"

definition fgetc :: "reader \<Rightarrow> int \<Rightarrow> FILE option \<Rightarrow> vfs \<Rightarrow> (int \<times> FILE option \<times> vfs) option" where
  "fgetc rd bd fp st =
     (case fread rd bd 1 1 fp st of
        None \<Rightarrow> None
      | Some (n, out, fp, st) \<Rightarrow>
          if n < 1 then Some (-1, fp, st)
          else (case out of Some c # _ \<Rightarrow> Some (uint c, fp, st) | _ \<Rightarrow> None))"

text \<open>The loop of \<open>fgets\<close>, with the count of characters there is still room for.\<close>

fun fgets_loop :: "reader \<Rightarrow> int \<Rightarrow> nat \<Rightarrow> FILE option \<Rightarrow> vfs \<Rightarrow> (cstring \<times> FILE option \<times> vfs) option" where
  "fgets_loop rd bd 0 fp st = Some ([], fp, st)"
| "fgets_loop rd bd (Suc n) fp st =
     (case fgetc rd bd fp st of
        None \<Rightarrow> None
      | Some (c, fp, st) \<Rightarrow>
          if c < 0 then Some ([], fp, st)
          else if c = 10 then Some ([word_of_int c], fp, st)
          else map_option (\<lambda>(s, fp, st). (word_of_int c # s, fp, st)) (fgets_loop rd bd n fp st))"

text \<open>What is left in the buffer, and whether the buffer or a null pointer is returned.\<close>

definition fgets :: "reader \<Rightarrow> int \<Rightarrow> int \<Rightarrow> FILE option \<Rightarrow> vfs \<Rightarrow> (u8 list \<times> bool \<times> FILE option \<times> vfs) option" where
  "fgets rd bd n fp st = map_option (\<lambda>(s, fp, st). (s @ [0], s \<noteq> [], fp, st)) (fgets_loop rd bd (nat (n - 1)) fp st)"

definition feof :: "FILE \<Rightarrow> bool" where "feof fp \<longleftrightarrow> status fp AND STATUS_EOF \<noteq> 0"
definition ferror :: "FILE \<Rightarrow> bool" where "ferror fp \<longleftrightarrow> status fp AND STATUS_ERR \<noteq> 0"
definition clearerr :: "FILE \<Rightarrow> FILE" where "clearerr fp = fp\<lparr>status := 0\<rparr>"

section \<open>Lines\<close>

text \<open>The line of at most \<open>n\<close> characters at the start of a text.\<close>

fun line :: "nat \<Rightarrow> u8 list \<Rightarrow> u8 list" where
  "line 0 c = []"
| "line (Suc n) [] = []"
| "line (Suc n) (b # c) = b # (if b = 10 then [] else line n c)"

lemma length_line: "length (line n c) \<le> n" "length (line n c) \<le> length c"
  by (induction n c rule: line.induct) simp_all

lemma line_take: "line n c = take (length (line n c)) c"
  by (induction n c rule: line.induct) simp_all

lemma line_empty: "0 < n \<Longrightarrow> line n c = [] \<longleftrightarrow> c = []"
  by (cases n; cases c) simp_all

lemma line_newline: "10 \<notin> set (butlast (line n c))"
  by (induction n c rule: line.induct) auto

lemma line_full: "line n c \<noteq> [] \<Longrightarrow> length (line n c) < length c \<Longrightarrow> last (line n c) = 10 \<or> length (line n c) = n"
proof (induction n c rule: line.induct)
  case (3 n b c)
  show ?case
  proof (cases "b = 10 \<or> line n c = []")
    case True
    then show ?thesis using 3 by (cases n; cases c) auto
  qed (use 3 in auto)
qed simp_all

text \<open>What a client can rely on: an open node stands at a position of some contents, and reading
  gives the bytes from there. The laws are those of both file systems.\<close>

locale readable_file =
  fixes rd :: reader and bd :: int and at :: "vfs \<Rightarrow> hid \<Rightarrow> u8 list \<Rightarrow> nat \<Rightarrow> bool"
  assumes at_le: "at st h c p \<Longrightarrow> p \<le> length c"
    and read_at: "at st h c p \<Longrightarrow> 0 \<le> n \<Longrightarrow> \<exists>st'. fs_read rd bd h n st =
      Some (min n (int (length c - p)), map Some (take (nat n) (drop p c)), st') \<and> at st' h c (min (length c) (p + nat n))"
begin

lemma fgetc_at:
  assumes "at st (fsn fp) c p"
  shows "\<exists>st'. fgetc rd bd (Some fp) st = Some (if p < length c then uint (c ! p) else -1, Some fp, st')
    \<and> at st' (fsn fp) c (min (length c) (Suc p))"
proof -
  obtain st' where r: "fs_read rd bd (fsn fp) 1 st = Some (min 1 (int (length c - p)), map Some (take 1 (drop p c)), st')"
    "at st' (fsn fp) c (min (length c) (Suc p))"
    using read_at [OF assms, of 1] by auto
  show ?thesis
  proof (cases "p < length c")
    case True
    then have "take 1 (drop p c) = [c ! p]" by (simp add: take_Suc_conv_app_nth hd_drop_conv_nth take_Suc)
    then show ?thesis using r True by (simp add: fgetc_def fread_def)
  next
    case False
    then show ?thesis using r by (simp add: fgetc_def fread_def)
  qed
qed

lemma fgets_loop_at:
  assumes "at st (fsn fp) c p"
  shows "\<exists>st'. fgets_loop rd bd n (Some fp) st = Some (line n (drop p c), Some fp, st') \<and> at st' (fsn fp) c (p + length (line n (drop p c)))"
  using assms
proof (induction n arbitrary: st p)
  case (Suc n)
  obtain st1 where g: "fgetc rd bd (Some fp) st = Some (if p < length c then uint (c ! p) else -1, Some fp, st1)"
    "at st1 (fsn fp) c (min (length c) (Suc p))" using fgetc_at [OF Suc.prems] by blast
  show ?case
  proof (cases "p < length c")
    case True
    then have d: "drop p c = c ! p # drop (Suc p) c" by (simp add: Cons_nth_drop_Suc)
    have m: "min (length c) (Suc p) = Suc p" using True by simp
    show ?thesis
    proof (cases "c ! p = 10")
      case nl: True
      then show ?thesis using g True d m by simp
    next
      case False
      have "uint (c ! p) \<noteq> 10" using False word_uint_eq_iff [of "c ! p" 10] by simp
      then show ?thesis using g True d m False Suc.IH [of st1 "Suc p"] by auto
    qed
  next
    case False
    then have "p = length c" using at_le [OF Suc.prems] by simp
    then show ?thesis using g by simp
  qed
qed simp

lemma fgets_at:
  assumes "at st (fsn fp) c p" "1 < n"
  shows "\<exists>st'. fgets rd bd n (Some fp) st = Some (line (nat (n - 1)) (drop p c) @ [0], p < length c, Some fp, st')
    \<and> at st' (fsn fp) c (p + length (line (nat (n - 1)) (drop p c)))"
proof -
  obtain k where "nat (n - 1) = Suc k" using assms(2) by (cases "nat (n - 1)") auto
  then have "line (nat (n - 1)) (drop p c) \<noteq> [] \<longleftrightarrow> p < length c"
    using line_empty [of "nat (n - 1)" "drop p c"] by (metis drop_eq_Nil2 not_le zero_less_Suc)
  moreover obtain st' where "fgets_loop rd bd (nat (n - 1)) (Some fp) st = Some (line (nat (n - 1)) (drop p c), Some fp, st')"
    "at st' (fsn fp) c (p + length (line (nat (n - 1)) (drop p c)))" using fgets_loop_at [OF assms(1)] by blast
  ultimately show ?thesis by (simp add: fgets_def)
qed

end

text \<open>Reading until \<open>fgets\<close> gives a null pointer, at most \<open>k\<close> lines.\<close>

fun read_lines :: "nat \<Rightarrow> reader \<Rightarrow> int \<Rightarrow> int \<Rightarrow> FILE option \<Rightarrow> vfs \<Rightarrow> cstring list option" where
  "read_lines 0 rd bd n fp st = None"
| "read_lines (Suc k) rd bd n fp st =
     (case fgets rd bd n fp st of
        None \<Rightarrow> None
      | Some (s, ok, fp, st) \<Rightarrow> if ok then map_option ((#) (butlast s)) (read_lines k rd bd n fp st) else Some [])"

text \<open>The lines of a text, cut to pieces of \<open>n\<close> characters.\<close>

definition lines_of :: "nat \<Rightarrow> cstring list \<Rightarrow> u8 list \<Rightarrow> bool" where
  "lines_of n ls c \<longleftrightarrow> concat ls = c \<and> (\<forall>l \<in> set ls. l \<noteq> [] \<and> length l \<le> n \<and> 10 \<notin> set (butlast l))
     \<and> (\<forall>l \<in> set (butlast ls). last l = 10 \<or> length l = n)"

lemma lines_of_Cons:
  assumes "lines_of n ls (drop (length (line n c)) c)" "c \<noteq> []" "0 < n"
  shows "lines_of n (line n c # ls) c"
proof -
  have ne: "line n c \<noteq> []" using line_empty [OF assms(3)] assms(2) by simp
  have "concat (line n c # ls) = c"
    using assms(1) line_take [of n c] append_take_drop_id [of "length (line n c)" c] by (simp add: lines_of_def)
  moreover have "last (line n c) = 10 \<or> length (line n c) = n" if "ls \<noteq> []"
  proof (rule line_full [OF ne])
    have "drop (length (line n c)) c \<noteq> []" using assms(1) that by (cases ls) (auto simp: lines_of_def)
    then show "length (line n c) < length c" by simp
  qed
  ultimately show ?thesis
    using assms(1) ne length_line(1) [of n c] line_newline [of n c] by (auto simp: lines_of_def)
qed

context readable_file begin

lemma read_lines_at:
  assumes "at st (fsn fp) c p" "1 < n" "length c - p < k"
  shows "\<exists>ls. read_lines k rd bd n (Some fp) st = Some ls \<and> lines_of (nat (n - 1)) ls (drop p c)"
  using assms(1,3)
proof (induction k arbitrary: st p)
  case (Suc k)
  let ?l = "line (nat (n - 1)) (drop p c)"
  obtain st1 where g: "fgets rd bd n (Some fp) st = Some (?l @ [0], p < length c, Some fp, st1)" "at st1 (fsn fp) c (p + length ?l)"
    using fgets_at [OF Suc.prems(1) assms(2)] by blast
  have n: "0 < nat (n - 1)" using assms(2) by simp
  show ?case
  proof (cases "p < length c")
    case True
    then have "?l \<noteq> []" using line_empty [OF n] by simp
    then have "length c - (p + length ?l) < k" using Suc.prems(2) True by (cases ?l) auto
    then obtain ls where ls: "read_lines k rd bd n (Some fp) st1 = Some ls" "lines_of (nat (n - 1)) ls (drop (p + length ?l) c)"
      using Suc.IH [OF g(2)] by blast
    have "lines_of (nat (n - 1)) (?l # ls) (drop p c)"
      using ls(2) True n by (intro lines_of_Cons) (simp_all add: add.commute)
    then show ?thesis using g(1) True ls(1) by simp
  next
    case False
    then show ?thesis using g(1) by (simp add: lines_of_def)
  qed
qed simp

lemma fread_at_end:
  assumes "at st (fsn fp) c (length c)" "0 \<le> sint (sz * count)" "sz \<noteq> 0"
  shows "\<exists>st'. fread rd bd sz count (Some fp) st = Some (0, [], Some fp, st')"
  using read_at [OF assms(1,2)] assms(2,3) by (auto simp: fread_def)

end

text \<open>A file of a memory file system, all of whose bytes were written.\<close>

definition mem_at :: "vfs \<Rightarrow> hid \<Rightarrow> u8 list \<Rightarrow> nat \<Rightarrow> bool" where
  "mem_at st h c p \<longleftrightarrow> (\<exists>f nd. open_file st h f nd \<and> of_pos f = int p \<and> bytes nd = map Some c \<and> p \<le> length c)"

interpretation mem: readable_file rd bd mem_at for rd bd
proof
  fix st h c p assume "mem_at st h c p"
  then show "p \<le> length c" by (auto simp: mem_at_def)
next
  fix st h c p and n :: int assume m: "mem_at st h c p" and n: "0 \<le> n"
  obtain f nd where f: "open_file st h f nd" "of_pos f = int p" "bytes nd = map Some c" "p \<le> length c"
    using m by (auto simp: mem_at_def)
  have "file_ok nd" using f(1) by (simp add: open_file_def)
  then have "length c = nat (n_size nd)" "0 \<le> n_size nd"
    using length_bytes [of nd] arg_cong [OF f(3), of length] by (simp_all add: file_ok_def)
  then have sz: "n_size nd = int (length c)" by simp
  obtain st' where r: "fs_read rd bd h n st = Some (min n (n_size nd - of_pos f), take (nat n) (drop (nat (of_pos f)) (bytes nd)), st')"
    "open_file st' h (f\<lparr>of_pos := of_pos f + min n (n_size nd - of_pos f)\<rparr>) nd"
    using fs_read_file [OF f(1) _ _ n, of rd bd] f(2,4) sz by auto
  have "int p + min n (int (length c) - int p) = int (min (length c) (p + nat n))" using n f(4) by (auto simp: min_def)
  then have "mem_at st' h c (min (length c) (p + nat n))"
    using r(2) f sz unfolding mem_at_def by (intro exI [of _ "f\<lparr>of_pos := of_pos f + min n (n_size nd - of_pos f)\<rparr>"] exI [of _ nd]) simp
  moreover have "n_size nd - of_pos f = int (length c - p)" using sz f(2,4) by simp
  ultimately show "\<exists>st'. fs_read rd bd h n st = Some (min n (int (length c - p)), map Some (take (nat n) (drop p c)), st')
      \<and> mem_at st' h c (min (length c) (p + nat n))"
    using r(1) f(2,3) by (simp add: take_map drop_map)
qed

text \<open>A file of a FAT volume, as it is stored, at a position or at its end.\<close>

definition fat_at :: "reader \<Rightarrow> int \<Rightarrow> vfs \<Rightarrow> hid \<Rightarrow> u8 list \<Rightarrow> nat \<Rightarrow> bool" where
  "fat_at rd bd st h c p \<longleftrightarrow> (\<exists>fn f fs root k cs. fsnodes st h = Some fn \<and> fn_type fn = FSNODE_FILE \<and> fn_data fn = FatData (FileNode f)
     \<and> fss st (fn_fs fn) = Some (FatFs fs root) \<and> stored rd bd fs k cs (file_size f) \<and> c = contents rd bd fs cs (file_size f)
     \<and> (at_pos rd bd fs k cs f p \<or> p = file_size f \<and> eof_at f))"

lemma fat_read_end: "eof_at f \<Longrightarrow> 0 \<le> n \<Longrightarrow> fat_read rd bd fs f n = Some (0, [], f)"
  by (simp add: fat_read_def eof_at_def)

interpretation fat: readable_file rd bd "fat_at rd bd" for rd bd
proof
  fix st h c p assume "fat_at rd bd st h c p"
  then show "p \<le> length c" by (auto simp: fat_at_def length_contents at_pos_def)
next
  fix st h c p and n :: int assume m: "fat_at rd bd st h c p" and n: "0 \<le> n"
  obtain fn f fs root k cs where f: "fsnodes st h = Some fn" "fn_type fn = FSNODE_FILE" "fn_data fn = FatData (FileNode f)"
    "fss st (fn_fs fn) = Some (FatFs fs root)" "stored rd bd fs k cs (file_size f)" "c = contents rd bd fs cs (file_size f)"
    "at_pos rd bd fs k cs f p \<or> p = file_size f \<and> eof_at f"
    using m by (auto simp: fat_at_def)
  have len: "length c = file_size f" using length_contents [OF f(5)] f(6) by simp
  have read: "fs_read rd bd h n st = map_option (\<lambda>(r, out, f). (r, map Some out, set_data h fn (FatData (FileNode f)) st)) (fat_read rd bd fs f n)"
    using f(1-4) by (simp add: fs_read_def)
  have at': "fat_at rd bd (set_data h fn (FatData (FileNode f')) st) h c q"
    if "f_ent f' = f_ent f" "at_pos rd bd fs k cs f' q \<or> q = file_size f' \<and> eof_at f'" for f' q
    using f(1-6) that by (auto simp: fat_at_def set_data_def file_size_def)
  show "\<exists>st'. fs_read rd bd h n st = Some (min n (int (length c - p)), map Some (take (nat n) (drop p c)), st')
      \<and> fat_at rd bd st' h c (min (length c) (p + nat n))"
  proof (cases "at_pos rd bd fs k cs f p")
    case True
    obtain f' where r: "fat_read rd bd fs f n = Some (min n (int (file_size f) - int p), take (nat n) (drop p c), f')"
      "f_ent f' = f_ent f" "if int p + n < int (file_size f) then at_pos rd bd fs k cs f' (p + nat n) else eof_at f'"
      using fat_read_spec [OF f(5) True n] f(6) by blast
    have p: "p < file_size f" using True by (simp add: at_pos_def)
    have "at_pos rd bd fs k cs f' (min (length c) (p + nat n)) \<or> min (length c) (p + nat n) = file_size f' \<and> eof_at f'"
    proof (cases "int p + n < int (file_size f)")
      case True
      then have "min (length c) (p + nat n) = p + nat n" using n len by simp
      then show ?thesis using r(3) True by simp
    next
      case False
      then have "min (length c) (p + nat n) = file_size f" using n len by simp
      then show ?thesis using r(2,3) False by (simp add: file_size_def)
    qed
    then show ?thesis using read r(1) at' [OF r(2)] len p by simp
  next
    case False
    then have e: "p = file_size f" "eof_at f" using f(7) by simp_all
    then show ?thesis using read fat_read_end [OF e(2) n] at' [of f p] len n by simp
  qed
qed

text \<open>C27: reading a file with \<open>fgets\<close> until it gives a null pointer, into a buffer of \<open>n\<close> bytes, ends
  and gives the lines of what follows the position of the file, one after the other, each with
  its newline, and those that do not fit cut to \<open>n - 1\<close> characters; so for the files of both
  file systems.\<close>

theorem fgets_lines:
  assumes "mem_at st (fsn fp) c p \<or> fat_at rd bd st (fsn fp) c p" "1 < n" "length c - p < k"
  shows "\<exists>ls. read_lines k rd bd n (Some fp) st = Some ls \<and> lines_of (nat (n - 1)) ls (drop p c)"
  using assms mem.read_lines_at fat.read_lines_at by blast

text \<open>The end of the file does not set the mark that \<open>feof\<close> looks at.\<close>

lemma feof_at_end:
  assumes "mem_at st (fsn fp) c (length c) \<or> fat_at rd bd st (fsn fp) c (length c)" "\<not> feof fp" "0 \<le> sint (sz * count)" "sz \<noteq> 0"
  shows "\<exists>fp' st'. fread rd bd sz count (Some fp) st = Some (0, [], Some fp', st') \<and> \<not> feof fp'"
  using assms mem.fread_at_end [OF _ assms(3,4)] fat.fread_at_end [OF _ assms(3,4)] by blast

definition demo_file :: "u8 list \<Rightarrow> vfs" where
  "demo_file c = boot_vfs\<lparr>nodes := [0 \<mapsto> (alloc_node FSNODE_FILE)\<lparr>n_data := Some (map Some c), n_size := int (length c), n_block := block_size (int (length c))\<rparr>],
     fsnodes := [0 \<mapsto> \<lparr>fn_fs = 0, fn_type = FSNODE_FILE, fn_data = OFile \<lparr>of_file = 0, of_pos = 0\<rparr>, fn_mnt = None\<rparr>]\<rparr>"

lemma demo_file_at: "mem_at (demo_file c) 0 c 0"
  using block_size_ge(1) [of "int (length c)"] by (auto simp: mem_at_def open_file_def demo_file_def alloc_node_def file_ok_def bytes_def)

lemma fgets_lines_witness:
  "\<exists>ls. read_lines 9 vol_rd 0x80 80 (Some \<lparr>mode = MODE_READ, status = 0, fsn = 0\<rparr>) (demo_file [104, 105, 10, 120]) = Some ls
    \<and> concat ls = [104, 105, 10, 120]"
  using fgets_lines [of "demo_file [104, 105, 10, 120]" "\<lparr>mode = MODE_READ, status = 0, fsn = 0\<rparr>" "[104, 105, 10, 120]" 0 vol_rd "0x80" 80 9]
    demo_file_at by (auto simp: lines_of_def)

end
