(* ===== verification/Part.thy ===== *)
theory Part
  imports Fat
begin

text \<open>
  The partition tables of \<open>src/part.c\<close>: the master boot record and the chain of extended boot
  records. Sectors come from \<open>bdev_read_sect\<close>, the parameter \<open>rds\<close>: its value and the bytes
  it leaves. The table is the list of the entries written to it; a write behind its end is \<open>None\<close>.
\<close>

definition PTYPE_EXT :: u8 where "PTYPE_EXT = 5"
definition PTYPE_EXT_LBA :: u8 where "PTYPE_EXT_LBA = 0xf"
definition PART_ACT_BIT :: u32 where "PART_ACT_BIT = push_bit 9 1"
definition PART_PRIM_BIT :: u32 where "PART_PRIM_BIT = push_bit 10 1"
definition BOOTSIG :: u16 where "BOOTSIG = 0xaa55"
definition BOOTSIG_OFFS :: nat where "BOOTSIG_OFFS = 510"
definition PTABLE_OFFS :: nat where "PTABLE_OFFS = 0x1be"

text \<open>\<open>struct part_record\<close>, 16 bytes each from \<open>PTABLE_OFFS\<close> on.\<close>

definition pr_stat :: "u8 list \<Rightarrow> nat \<Rightarrow> u8" where "pr_stat b i = b ! (PTABLE_OFFS + 16 * i)"
definition pr_type :: "u8 list \<Rightarrow> nat \<Rightarrow> u8" where "pr_type b i = b ! (PTABLE_OFFS + 16 * i + 4)"
definition pr_first :: "u8 list \<Rightarrow> nat \<Rightarrow> u32" where "pr_first b i = le32 b (PTABLE_OFFS + 16 * i + 8)"
definition pr_nsect :: "u8 list \<Rightarrow> nat \<Rightarrow> u32" where "pr_nsect b i = le32 b (PTABLE_OFFS + 16 * i + 12)"

record partition =
  p_start :: u32
  p_size :: u32
  p_attr :: u32

definition PART_TYPE :: "u32 \<Rightarrow> u32" where "PART_TYPE attr = attr AND 0xff"
definition PART_IS_ACT :: "u32 \<Rightarrow> bool" where "PART_IS_ACT attr \<longleftrightarrow> attr AND PART_ACT_BIT \<noteq> 0"
definition PART_IS_PRIM :: "u32 \<Rightarrow> bool" where "PART_IS_PRIM attr \<longleftrightarrow> attr AND PART_PRIM_BIT \<noteq> 0"

record pstate =
  sidx :: u64
  first_ebr_offs :: u64
  num_bootrec :: nat
  nparts :: int
  ptab :: "partition list"

definition IS_MBR :: "pstate \<Rightarrow> bool" where "IS_MBR s \<longleftrightarrow> sidx s = 0"
definition IS_FIRST_EBR :: "pstate \<Rightarrow> bool" where "IS_FIRST_EBR s \<longleftrightarrow> \<not> IS_MBR s \<and> first_ebr_offs s = 0"

text \<open>\<open>cap\<close> is the size of the table, or not positive without one.\<close>

definition is_ext :: "u8 \<Rightarrow> bool" where "is_ext t \<longleftrightarrow> t = PTYPE_EXT \<or> t = PTYPE_EXT_LBA"

definition part_of :: "u8 list \<Rightarrow> nat \<Rightarrow> pstate \<Rightarrow> partition" where
  "part_of b i s =
     \<lparr>p_start = pr_first b i + ucast (first_ebr_offs s), p_size = pr_nsect b i,
      p_attr = (ucast (pr_type b i) OR (if pr_stat b i AND 0x80 \<noteq> 0 then PART_ACT_BIT else 0))
        OR (if IS_MBR s then PART_PRIM_BIT else 0)\<rparr>"

fun record_loop :: "u8 list \<Rightarrow> int \<Rightarrow> nat list \<Rightarrow> pstate \<Rightarrow> pstate option" where
  "record_loop b cap [] s = Some s"
| "record_loop b cap (i # is) s =
     (if pr_type b i = 0 then
        (if num_bootrec s > 0 then Some (s\<lparr>sidx := 0\<rparr>) else record_loop b cap is s)
      else if is_ext (pr_type b i) then
        record_loop b cap is (s\<lparr>sidx := first_ebr_offs s + ucast (pr_first b i)\<rparr>)
      else if cap \<le> 0 then record_loop b cap is (s\<lparr>nparts := nparts s + 1\<rparr>)
      else if cap \<le> int (length (ptab s)) then None
      else record_loop b cap is (s\<lparr>nparts := nparts s + 1, ptab := ptab s @ [part_of b i s]\<rparr>))"

text \<open>\<open>bd\<close> is \<open>boot_drive_number\<close>.\<close>

definition read_sector :: "(u64 \<Rightarrow> int \<times> u8 list) \<Rightarrow> int \<Rightarrow> int \<Rightarrow> u64 \<Rightarrow> (u8 list) option" where
  "read_sector rds bd d s =
     (if d = -1 \<or> d = bd then (if fst (rds s) = -1 then None else Some (snd (rds s))) else None)"

partial_function (option) bootrec_loop :: "(u64 \<Rightarrow> int \<times> u8 list) \<Rightarrow> int \<Rightarrow> int \<Rightarrow> int \<Rightarrow> pstate \<Rightarrow> (int \<times> partition list) option" where
  "bootrec_loop rds bd d cap s =
     (let s = (if IS_FIRST_EBR s then s\<lparr>first_ebr_offs := sidx s\<rparr> else s)
      in case read_sector rds bd d (sidx s) of
           None \<Rightarrow> Some (-1, ptab s)
         | Some b \<Rightarrow>
             if le16 b BOOTSIG_OFFS \<noteq> BOOTSIG then Some (-1, ptab s)
             else
               (case record_loop b cap (if IS_MBR s then [0, 1, 2, 3] else [0, 1]) s of
                  None \<Rightarrow> None
                | Some s \<Rightarrow>
                    let s = s\<lparr>num_bootrec := num_bootrec s + 1\<rparr>
                    in if 0 < sidx s \<and> (cap \<le> 0 \<or> nparts s < cap) then bootrec_loop rds bd d cap s
                       else Some (nparts s, ptab s)))"

declare bootrec_loop.simps [code]

definition read_partitions :: "(u64 \<Rightarrow> int \<times> u8 list) \<Rightarrow> int \<Rightarrow> int \<Rightarrow> int \<Rightarrow> (int \<times> partition list) option" where
  "read_partitions rds bd d ptabsz = bootrec_loop rds bd d ptabsz
     \<lparr>sidx = 0, first_ebr_offs = 0, num_bootrec = 0, nparts = 0, ptab = []\<rparr>"

section \<open>What is on the disk\<close>

text \<open>A record as a partition; \<open>prim\<close> says whether it is marked as primary.\<close>

definition entry_of :: "u8 list \<Rightarrow> nat \<Rightarrow> u64 \<Rightarrow> bool \<Rightarrow> partition" where
  "entry_of b i base prim =
     \<lparr>p_start = pr_first b i + ucast base, p_size = pr_nsect b i,
      p_attr = (ucast (pr_type b i) OR (if pr_stat b i AND 0x80 \<noteq> 0 then PART_ACT_BIT else 0))
        OR (if prim then PART_PRIM_BIT else 0)\<rparr>"

text \<open>The partitions of the master boot record, and where its extended partition starts, or 0.
  The code takes those behind an extended one for logical partitions.\<close>

fun mbr_parts :: "u8 list \<Rightarrow> nat list \<Rightarrow> u64 \<Rightarrow> partition list \<times> u64" where
  "mbr_parts b [] x = ([], x)"
| "mbr_parts b (i # is) x =
     (if pr_type b i = 0 then mbr_parts b is x
      else if is_ext (pr_type b i) then mbr_parts b is (ucast (pr_first b i))
      else (entry_of b i 0 (x = 0) # fst (mbr_parts b is x), snd (mbr_parts b is x)))"

definition boot_sector :: "(u64 \<Rightarrow> int \<times> u8 list) \<Rightarrow> u64 \<Rightarrow> bool" where
  "boot_sector rds s \<longleftrightarrow> fst (rds s) \<noteq> -1 \<and> le16 (snd (rds s)) BOOTSIG_OFFS = BOOTSIG"

text \<open>The chain of extended boot records from sector \<open>s\<close> on: each holds a partition and a link,
  relative to the first of them, the last no link.\<close>

fun ebr_chain :: "(u64 \<Rightarrow> int \<times> u8 list) \<Rightarrow> u64 \<Rightarrow> u64 \<Rightarrow> u64 list \<Rightarrow> bool" where
  "ebr_chain rds first s [] \<longleftrightarrow> s = 0"
| "ebr_chain rds first s (t # ts) \<longleftrightarrow> s = t \<and> t \<noteq> 0 \<and> boot_sector rds t
     \<and> pr_type (snd (rds t)) 0 \<noteq> 0 \<and> \<not> is_ext (pr_type (snd (rds t)) 0)
     \<and> (if ts = [] then pr_type (snd (rds t)) 1 = 0
        else is_ext (pr_type (snd (rds t)) 1) \<and> ebr_chain rds first (first + ucast (pr_first (snd (rds t)) 1)) ts)"

definition kept :: "int \<Rightarrow> 'a list \<Rightarrow> 'a list" where "kept cap ps = (if 0 < cap then ps else [])"

lemma record_step:
  assumes "pr_type b i \<noteq> 0" "\<not> is_ext (pr_type b i)" "ptab s = kept cap ps" "0 < cap \<Longrightarrow> int (length ps) < cap"
  shows "record_loop b cap (i # iss) s = record_loop b cap iss (s\<lparr>nparts := nparts s + 1, ptab := kept cap (ps @ [part_of b i s])\<rparr>)"
proof (cases "0 < cap")
  case False
  then have "s\<lparr>nparts := nparts s + 1, ptab := []\<rparr> = s\<lparr>nparts := nparts s + 1\<rparr>"
    using assms(3) by (cases s) (simp add: kept_def)
  then show ?thesis using assms(1,2) False by (simp add: kept_def)
next
  case True
  then show ?thesis using assms(1,2,3) assms(4) [OF True] by (simp add: kept_def)
qed

lemma record_loop_mbr:
  assumes "num_bootrec s = 0" "first_ebr_offs s = 0" "ptab s = kept cap ps"
    "0 < cap \<Longrightarrow> int (length ps + length (fst (mbr_parts b iss (sidx s)))) \<le> cap"
  shows "record_loop b cap iss s = Some (s\<lparr>sidx := snd (mbr_parts b iss (sidx s)),
      nparts := nparts s + int (length (fst (mbr_parts b iss (sidx s)))),
      ptab := kept cap (ps @ fst (mbr_parts b iss (sidx s)))\<rparr>)"
  using assms
proof (induction iss arbitrary: s ps)
  case (Cons i iss)
  consider "pr_type b i = 0" | "pr_type b i \<noteq> 0" "is_ext (pr_type b i)" | "pr_type b i \<noteq> 0" "\<not> is_ext (pr_type b i)" by blast
  then show ?case
  proof cases
    case 1
    then show ?thesis using Cons.IH [of s ps] Cons.prems by simp
  next
    case 2
    then show ?thesis using Cons.IH [of "s\<lparr>sidx := ucast (pr_first b i)\<rparr>" ps] Cons.prems by simp
  next
    case 3
    let ?e = "entry_of b i 0 (sidx s = 0)"
    have e: "part_of b i s = ?e" using Cons.prems(2) by (simp add: part_of_def entry_of_def IS_MBR_def)
    have "0 < cap \<Longrightarrow> int (length ps) < cap" using Cons.prems(4) 3 by simp
    let ?s = "s\<lparr>nparts := nparts s + 1, ptab := kept cap (ps @ [?e])\<rparr>"
    have "record_loop b cap (i # iss) s = record_loop b cap iss ?s"
      using record_step [OF 3 Cons.prems(3) \<open>0 < cap \<Longrightarrow> int (length ps) < cap\<close>, of iss] unfolding e .
    also have "\<dots> = Some (?s\<lparr>sidx := snd (mbr_parts b iss (sidx s)), nparts := nparts ?s + int (length (fst (mbr_parts b iss (sidx s)))),
        ptab := kept cap ((ps @ [?e]) @ fst (mbr_parts b iss (sidx s)))\<rparr>)"
      using Cons.IH [of ?s "ps @ [?e]"] Cons.prems 3 by simp
    finally show ?thesis using 3 by (simp add: add.assoc)
  qed
qed simp

definition ebr_parts :: "(u64 \<Rightarrow> int \<times> u8 list) \<Rightarrow> u64 \<Rightarrow> u64 list \<Rightarrow> partition list" where
  "ebr_parts rds first ts = map (\<lambda>t. entry_of (snd (rds t)) 0 first False) ts"

lemma record_loop_ebr:
  assumes "0 < num_bootrec s" "sidx s \<noteq> 0" "ptab s = kept cap ps" "0 < cap \<Longrightarrow> int (length ps) < cap"
    "pr_type b 0 \<noteq> 0" "\<not> is_ext (pr_type b 0)" "pr_type b 1 = 0 \<or> pr_type b 1 \<noteq> 0 \<and> is_ext (pr_type b 1)"
  shows "record_loop b cap [0, 1] s = Some (s\<lparr>sidx := (if pr_type b 1 = 0 then 0 else first_ebr_offs s + ucast (pr_first b 1)),
      nparts := nparts s + 1, ptab := kept cap (ps @ [entry_of b 0 (first_ebr_offs s) False])\<rparr>)"
proof -
  have e: "part_of b 0 s = entry_of b 0 (first_ebr_offs s) False" using assms(2) by (simp add: part_of_def entry_of_def IS_MBR_def)
  let ?s = "s\<lparr>nparts := nparts s + 1, ptab := kept cap (ps @ [entry_of b 0 (first_ebr_offs s) False])\<rparr>"
  have "record_loop b cap [0, 1] s = record_loop b cap [1] ?s"
    using record_step [OF assms(5,6,3,4), of "[1]"] unfolding e .
  also have "record_loop b cap [1] ?s = Some (?s\<lparr>sidx := (if pr_type b 1 = 0 then 0 else first_ebr_offs s + ucast (pr_first b 1))\<rparr>)"
    using assms(1,7) by auto
  finally show ?thesis by simp
qed

text \<open>The loop over the extended boot records, from one on.\<close>

lemma bootrec_ebrs:
  assumes "ebr_chain rds first (sidx s) ts" "ts \<noteq> []" "0 < num_bootrec s" "ptab s = kept cap ps" "first \<noteq> 0"
    "first_ebr_offs s = first \<or> first_ebr_offs s = 0 \<and> sidx s = first" "d = -1 \<or> d = bd"
    "0 < cap \<Longrightarrow> nparts s = int (length ps) \<and> int (length ps + length ts) \<le> cap"
  shows "bootrec_loop rds bd d cap s = Some (nparts s + int (length ts), kept cap (ps @ ebr_parts rds first ts))"
  using assms
proof (induction ts arbitrary: s ps)
  case (Cons t ts)
  let ?b = "snd (rds t)" and ?s = "s\<lparr>first_ebr_offs := first\<rparr>" and ?e = "entry_of (snd (rds t)) 0 first False"
  have c: "sidx s = t" "t \<noteq> 0" "fst (rds t) \<noteq> -1" "le16 ?b BOOTSIG_OFFS = BOOTSIG" "pr_type ?b 0 \<noteq> 0" "\<not> is_ext (pr_type ?b 0)"
    using Cons.prems(1) by (simp_all add: boot_sector_def)
  have t1: "pr_type ?b 1 = 0 \<or> pr_type ?b 1 \<noteq> 0 \<and> is_ext (pr_type ?b 1)"
    using Cons.prems(1) by (auto simp: is_ext_def PTYPE_EXT_def PTYPE_EXT_LBA_def split: if_splits)
  have s: "(if IS_FIRST_EBR s then s\<lparr>first_ebr_offs := sidx s\<rparr> else s) = ?s"
    using Cons.prems(5,6) c(1,2) by (cases s) (auto simp: IS_FIRST_EBR_def IS_MBR_def)
  have room: "0 < cap \<Longrightarrow> int (length ps) < cap" using Cons.prems(8) by simp
  let ?s1 = "s\<lparr>first_ebr_offs := first, sidx := (if pr_type ?b 1 = 0 then 0 else first + ucast (pr_first ?b 1)),
      nparts := nparts s + 1, ptab := kept cap (ps @ [?e]), num_bootrec := num_bootrec s + 1\<rparr>"
  have "record_loop ?b cap [0, 1] ?s = Some (?s\<lparr>sidx := (if pr_type ?b 1 = 0 then 0 else first_ebr_offs ?s + ucast (pr_first ?b 1)),
      nparts := nparts ?s + 1, ptab := kept cap (ps @ [entry_of ?b 0 (first_ebr_offs ?s) False])\<rparr>)"
    by (rule record_loop_ebr) (use Cons.prems(3,4) c room t1 in simp_all)
  then have run: "bootrec_loop rds bd d cap s = (if 0 < sidx ?s1 \<and> (cap \<le> 0 \<or> nparts ?s1 < cap) then bootrec_loop rds bd d cap ?s1
      else Some (nparts ?s1, ptab ?s1))"
    using c Cons.prems(7) by (subst bootrec_loop.simps) (simp add: s read_sector_def IS_MBR_def Let_def del: record_loop.simps)
  show ?case
  proof (cases "ts = []")
    case True
    then have "sidx ?s1 = 0" using Cons.prems(1) by simp
    then show ?thesis unfolding run using True by (simp add: ebr_parts_def)
  next
    case False
    have nx: "ebr_chain rds first (sidx ?s1) ts" "pr_type ?b 1 \<noteq> 0"
      using Cons.prems(1) False t1 by (auto simp: is_ext_def PTYPE_EXT_def PTYPE_EXT_LBA_def)
    then have "0 < sidx ?s1" using False by (cases ts) (auto simp: word_gt_0)
    moreover have "cap \<le> 0 \<or> nparts ?s1 < cap" using Cons.prems(8) False by (cases "0 < cap"; cases ts) auto
    ultimately have "bootrec_loop rds bd d cap s = bootrec_loop rds bd d cap ?s1" unfolding run by simp
    also have "\<dots> = Some (nparts ?s1 + int (length ts), kept cap ((ps @ [?e]) @ ebr_parts rds first ts))"
      by (rule Cons.IH [OF nx(1) False]) (use Cons.prems in simp_all)
    finally show ?thesis by (simp add: ebr_parts_def)
  qed
qed simp

abbreviation mbr_of :: "(u64 \<Rightarrow> int \<times> u8 list) \<Rightarrow> partition list \<times> u64" where
  "mbr_of rds \<equiv> mbr_parts (snd (rds 0)) [0, 1, 2, 3] 0"

text \<open>C24: on a disk with a master boot record and, from the sector its extended partition names, a
  chain of extended boot records, \<open>read_partitions\<close> ends and gives their number and, with a table
  they fit in, the partitions of both in order: those behind an extended one are not marked as
  primary, and the starts in all extended boot records are taken from the first of them.\<close>

theorem read_partitions_spec:
  assumes "d = -1 \<or> d = bd" "boot_sector rds 0"
    "snd (mbr_of rds) = 0 \<and> ts = [] \<or> ts \<noteq> [] \<and> ebr_chain rds (snd (mbr_of rds)) (snd (mbr_of rds)) ts"
    "0 < cap \<Longrightarrow> int (length (fst (mbr_of rds)) + length ts) \<le> cap"
  shows "read_partitions rds bd d cap = Some (int (length (fst (mbr_of rds)) + length ts),
    kept cap (fst (mbr_of rds) @ ebr_parts rds (snd (mbr_of rds)) ts))"
proof -
  let ?b = "snd (rds 0)" and ?ps = "fst (mbr_of rds)" and ?x = "snd (mbr_of rds)"
  let ?s = "\<lparr>sidx = 0, first_ebr_offs = 0, num_bootrec = 0, nparts = 0, ptab = []\<rparr>"
  let ?s1 = "\<lparr>sidx = ?x, first_ebr_offs = 0, num_bootrec = 1, nparts = int (length ?ps), ptab = kept cap ?ps\<rparr>"
  have b: "fst (rds 0) \<noteq> -1" "le16 ?b BOOTSIG_OFFS = BOOTSIG" using assms(2) by (simp_all add: boot_sector_def)
  have "record_loop ?b cap [0, 1, 2, 3] ?s = Some (?s\<lparr>sidx := snd (mbr_parts ?b [0, 1, 2, 3] (sidx ?s)),
      nparts := nparts ?s + int (length (fst (mbr_parts ?b [0, 1, 2, 3] (sidx ?s)))),
      ptab := kept cap ([] @ fst (mbr_parts ?b [0, 1, 2, 3] (sidx ?s)))\<rparr>)"
    by (rule record_loop_mbr) (use assms(4) in \<open>simp_all add: kept_def\<close>)
  then have r: "record_loop ?b cap [0, 1, 2, 3] ?s = Some (?s1\<lparr>num_bootrec := 0\<rparr>)" by (simp del: record_loop.simps mbr_parts.simps)
  have run: "read_partitions rds bd d cap = (if 0 < ?x \<and> (cap \<le> 0 \<or> int (length ?ps) < cap) then bootrec_loop rds bd d cap ?s1
      else Some (int (length ?ps), kept cap ?ps))"
    unfolding read_partitions_def using b assms(1) r
    by (subst bootrec_loop.simps) (simp add: IS_FIRST_EBR_def IS_MBR_def read_sector_def Let_def del: record_loop.simps mbr_parts.simps, blast)
  show ?thesis
  proof (cases "ts = []")
    case True
    then have "?x = 0" using assms(3) by blast
    then show ?thesis unfolding run using True by (simp add: ebr_parts_def)
  next
    case False
    then have ch: "ebr_chain rds ?x ?x ts" using assms(3) by blast
    then have x: "?x \<noteq> 0" using False by (cases ts) auto
    have "cap \<le> 0 \<or> int (length ?ps) < cap" using assms(4) False by (cases "0 < cap"; cases ts) auto
    then have "read_partitions rds bd d cap = bootrec_loop rds bd d cap ?s1" unfolding run using x by (simp add: word_gt_0)
    also have "\<dots> = Some (nparts ?s1 + int (length ts), kept cap (?ps @ ebr_parts rds ?x ts))"
      by (rule bootrec_ebrs) (use ch False x assms(1,4) in \<open>simp_all del: mbr_parts.simps\<close>)
    finally show ?thesis by (simp del: mbr_parts.simps)
  qed
qed

text \<open>The size of the table is not looked at within one boot record: four partitions in the first
  are written to a table of one, too.\<close>

lemma record_loop_overrun:
  assumes "num_bootrec s = 0" "first_ebr_offs s = 0" "0 < cap" "int (length (ptab s)) \<le> cap" "cap < int (length (ptab s) + length (fst (mbr_parts b iss (sidx s))))"
  shows "record_loop b cap iss s = None"
  using assms
proof (induction iss arbitrary: s)
  case (Cons i iss)
  consider "pr_type b i = 0 \<or> is_ext (pr_type b i)" | "pr_type b i \<noteq> 0" "\<not> is_ext (pr_type b i)" "cap \<le> int (length (ptab s))"
    | "pr_type b i \<noteq> 0" "\<not> is_ext (pr_type b i)" "int (length (ptab s)) < cap" by linarith
  then show ?case
  proof cases
    case 1
    then show ?thesis using Cons.IH [of s] Cons.IH [of "s\<lparr>sidx := first_ebr_offs s + ucast (pr_first b i)\<rparr>"] Cons.prems
      by (auto split: if_splits)
  next
    case 2
    then show ?thesis using Cons.prems(3) by simp
  next
    case 3
    then show ?thesis using Cons.IH [of "s\<lparr>nparts := nparts s + 1, ptab := ptab s @ [part_of b i s]\<rparr>"] Cons.prems by simp
  qed
qed simp

definition demo_disk :: "u64 \<Rightarrow> int \<times> u8 list" where
  "demo_disk s = (0, if s = 0 then (replicate 512 0)[446 := 0x80, 450 := 0x0b, 454 := 63, 458 := 10, 466 := 5, 470 := 100, 510 := 0x55, 511 := 0xaa]
     else (replicate 512 0)[450 := 0x83, 454 := 1, 458 := 20, 510 := 0x55, 511 := 0xaa])"

lemma demo_disk_nth:
  "i < 512 \<Longrightarrow> snd (demo_disk 0) ! i = (if i = 511 then 0xaa else if i = 510 then 0x55 else if i = 470 then 100 else if i = 466 then 5
     else if i = 458 then 10 else if i = 454 then 63 else if i = 450 then 0x0b else if i = 446 then 0x80 else 0)"
  "i < 512 \<Longrightarrow> snd (demo_disk 100) ! i = (if i = 511 then 0xaa else if i = 510 then 0x55 else if i = 458 then 20 else if i = 454 then 1
     else if i = 450 then 0x83 else 0)"
  by (simp_all add: demo_disk_def nth_list_update)

lemma read_partitions_spec_witness:
  "read_partitions demo_disk 0x80 (-1) 2 = Some (2, [\<lparr>p_start = 63, p_size = 10, p_attr = 0x60b\<rparr>, \<lparr>p_start = 101, p_size = 20, p_attr = 0x83\<rparr>])"
proof -
  note ev = pr_type_def pr_stat_def pr_first_def pr_nsect_def PTABLE_OFFS_def demo_disk_nth le32_def le16_def is_ext_def PTYPE_EXT_def
    PTYPE_EXT_LBA_def BOOTSIG_OFFS_def BOOTSIG_def entry_of_def PART_ACT_BIT_def PART_PRIM_BIT_def
  have m: "mbr_of demo_disk = ([\<lparr>p_start = 63, p_size = 10, p_attr = 0x60b\<rparr>], 100)" by (simp add: ev)
  have b: "boot_sector demo_disk 0" "boot_sector demo_disk 100" by (simp_all add: boot_sector_def ev, simp_all add: demo_disk_def)
  have "ebr_chain demo_disk 100 100 [100]" by (simp add: b ev)
  moreover have "ebr_parts demo_disk 100 [100] = [\<lparr>p_start = 101, p_size = 20, p_attr = 0x83\<rparr>]" by (simp add: ebr_parts_def ev)
  ultimately show ?thesis
    using read_partitions_spec [of "-1" "0x80" demo_disk "[100]" 2] b(1) unfolding m by (simp add: kept_def)
qed

end
