(* ===== verification/Bootdev.thy ===== *)
theory Bootdev
  imports Ram Timer Fat_Mount
begin

text \<open>
  Reading and writing the boot drive (\<open>src/bootdev.c\<close>) through the BIOS: with the extensions by
  sector number, without by cylinder, head and sector. The BIOS call \<open>int86\<close> is assembly and
  hardware, here the parameter \<open>bios\<close>: it takes registers, the memory and its own state.
  For a floppy drive each access moves the alarm that turns the motors off. \<open>Inl\<close> is a
  panic; a division by zero and a look at a released alarm are \<open>None\<close>. Messages are left out.
\<close>

record int86regs =
  r_edi :: u32
  r_esi :: u32
  r_ebp :: u32
  r_esp :: u32
  r_ebx :: u32
  r_edx :: u32
  r_ecx :: u32
  r_eax :: u32
  r_flags :: u16
  r_es :: u16
  r_ds :: u16
  r_fs :: u16
  r_gs :: u16

type_synonym 'w bios = "int \<Rightarrow> int86regs \<Rightarrow> 'w \<Rightarrow> ram \<Rightarrow> int86regs \<times> 'w \<times> ram"

definition zero_regs :: int86regs where
  "zero_regs = \<lparr>r_edi = 0, r_esi = 0, r_ebp = 0, r_esp = 0, r_ebx = 0, r_edx = 0, r_ecx = 0, r_eax = 0,
     r_flags = 0, r_es = 0, r_ds = 0, r_fs = 0, r_gs = 0\<rparr>"

definition carry :: "int86regs \<Rightarrow> bool" where "carry r \<longleftrightarrow> r_flags r AND 1 \<noteq> 0"

record chs =
  cyl :: u32
  head :: u32
  tsect :: u32

datatype alarm = floppy_motors_off | Other_func nat

datatype disk_op = OP_READ | OP_WRITE

record 'w bdev =
  bram :: ram
  world :: 'w
  have_bios_ext :: bool
  bdev_is_floppy :: bool
  num_cyl :: u32
  num_heads :: u32
  num_track_sect :: u32
  alarms :: "alarm timer"

definition int86 :: "'w bios \<Rightarrow> int \<Rightarrow> int86regs \<Rightarrow> 'w bdev \<Rightarrow> int86regs \<times> 'w bdev" where
  "int86 bios i regs st = (case bios i regs (world st) (bram st) of (regs, w, m) \<Rightarrow> (regs, st\<lparr>world := w, bram := m\<rparr>))"

text \<open>The drive's geometry; \<open>None\<close> is the error.\<close>

definition get_drive_chs :: "'w bios \<Rightarrow> u32 \<Rightarrow> 'w bdev \<Rightarrow> chs option \<times> 'w bdev" where
  "get_drive_chs bios dv st = (
     let (regs, st) = int86 bios 0x13 (zero_regs\<lparr>r_eax := 0x800, r_edx := dv\<rparr>) st
     in if carry regs then (None, st)
        else (Some \<lparr>cyl = ((drop_bit 8 (r_ecx regs) AND 0xff) OR (push_bit 2 (r_ecx regs) AND 0x300)) + 1,
                    head = drop_bit 8 (r_edx regs) + 1, tsect = r_ecx regs AND 0x3f\<rparr>, st))"

definition bdev_init :: "'w bios \<Rightarrow> u32 \<Rightarrow> 'w bdev \<Rightarrow> fault + 'w bdev" where
  "bdev_init bios bd st = (
     let (regs, st) = int86 bios 0x13 (zero_regs\<lparr>r_eax := 0x4100, r_ebx := 0x55aa, r_edx := bd\<rparr>) st;
         floppy = (bd AND 0x80 = 0)
     in if carry regs \<or> r_ecx regs AND 1 = 0 then
          (case get_drive_chs bios bd (st\<lparr>have_bios_ext := False\<rparr>) of
             (None, st) \<Rightarrow> Inl (Panic ''drive parameter query failed'')
           | (Some c, st) \<Rightarrow> Inr (st\<lparr>num_cyl := cyl c, num_heads := head c, num_track_sect := tsect c, bdev_is_floppy := floppy\<rparr>))
        else Inr (st\<lparr>have_bios_ext := True, bdev_is_floppy := floppy\<rparr>))"

definition calc_chs :: "u64 \<Rightarrow> 'w bdev \<Rightarrow> (fault + chs) option" where
  "calc_chs lba st =
     (if drop_bit 32 lba \<noteq> 0 then Some (Inl (Panic ''calc_chs only supports 32bit LBA''))
      else
        let lba32 = ucast lba :: u32
        in if num_track_sect st = 0 \<or> num_heads st = 0 then None
           else
             let trk = lba32 div num_track_sect st
             in Some (Inr \<lparr>cyl = trk div num_heads st, head = trk mod num_heads st, tsect = lba32 mod num_track_sect st + 1\<rparr>))"

text \<open>\<open>struct disk_access\<close>, at the start of the transfer buffer \<open>lmb\<close>; the data follow it.\<close>

definition put_dap :: "u32 \<Rightarrow> u16 \<Rightarrow> u16 \<Rightarrow> u64 \<Rightarrow> ram \<Rightarrow> ram" where
  "put_dap a n seg lba m =
     store32 (store32 (store16 (store16 (store16 (m(a := 16, a + 1 := 0)) (a + 2) n) (a + 4) 0) (a + 6) seg)
       (a + 8) (ucast lba)) (a + 12) (ucast (drop_bit 32 lba))"

definition bios_rw_sect_lba :: "'w bios \<Rightarrow> u32 \<Rightarrow> u32 \<Rightarrow> u64 \<Rightarrow> int \<Rightarrow> disk_op \<Rightarrow> u32 \<Rightarrow> 'w bdev \<Rightarrow> int \<times> 'w bdev" where
  "bios_rw_sect_lba bios lmb dv lba cnt dop buf st = (
     let xaddr = (lmb + 16 + 15) AND 0xfffffff0;
         len = word_of_int (cnt * 512);
         func = (if dop = OP_READ then 0x42 else 0x43);
         m = (if dop = OP_READ then bram st else memcpy (bram st) xaddr buf len);
         m = put_dap lmb (word_of_int cnt) (ucast (drop_bit 4 xaddr)) lba m;
         (regs, st) = int86 bios 0x13 (zero_regs\<lparr>r_eax := push_bit 8 func, r_ds := ucast (drop_bit 4 lmb), r_edx := dv\<rparr>)
           (st\<lparr>bram := m\<rparr>)
     in if carry regs then (-1, st)
        else
          let st = (if dop = OP_READ then st\<lparr>bram := memcpy (bram st) buf xaddr len\<rparr> else st)
          in (uint (load16 (bram st) (lmb + 2)), st))"

definition bios_rw_sect_chs :: "'w bios \<Rightarrow> u32 \<Rightarrow> u32 \<Rightarrow> chs \<Rightarrow> int \<Rightarrow> disk_op \<Rightarrow> u32 \<Rightarrow> 'w bdev \<Rightarrow> int \<times> 'w bdev" where
  "bios_rw_sect_chs bios lmb dv c cnt dop buf st = (
     let len = word_of_int (cnt * 512);
         func = (if dop = OP_READ then 2 else 3);
         m = (if dop = OP_READ then bram st else memcpy (bram st) lmb buf len);
         (regs, st) = int86 bios 0x13 (zero_regs\<lparr>r_eax := push_bit 8 func OR word_of_int cnt, r_es := ucast (drop_bit 4 lmb),
             r_ecx := (push_bit 8 (cyl c) AND 0xff00) OR (drop_bit 10 (cyl c) AND 0xc0) OR tsect c,
             r_edx := dv OR push_bit 8 (head c)\<rparr>) (st\<lparr>bram := m\<rparr>)
     in if carry regs then (-1, st)
        else (cnt, if dop = OP_READ then st\<lparr>bram := memcpy (bram st) buf lmb len\<rparr> else st))"

definition bios_reset_dev :: "'w bios \<Rightarrow> u32 \<Rightarrow> 'w bdev \<Rightarrow> int \<times> 'w bdev" where
  "bios_reset_dev bios dv st = (
     let (regs, st) = int86 bios 0x13 (zero_regs\<lparr>r_edx := dv\<rparr>) st in (if carry regs then -1 else 0, st))"

definition FLOPPY_MOTOR_OFF_TIMEOUT :: u32 where "FLOPPY_MOTOR_OFF_TIMEOUT = 4000"
definition NRETRIES :: nat where "NRETRIES = 3"

definition touch_motors :: "'w bdev \<Rightarrow> 'w bdev option" where
  "touch_motors st =
     (if bdev_is_floppy st then
        map_option (\<lambda>t. st\<lparr>alarms := t\<rparr>)
          (Option.bind (cancel_alarm floppy_motors_off (alarms st)) (set_alarm FLOPPY_MOTOR_OFF_TIMEOUT floppy_motors_off))
      else Some st)"

text \<open>The loop of \<open>bdev_read_sect\<close>, with the tries that are left.\<close>

fun read_sect_loop :: "nat \<Rightarrow> 'w bios \<Rightarrow> u32 \<Rightarrow> u32 \<Rightarrow> chs \<Rightarrow> u32 \<Rightarrow> 'w bdev \<Rightarrow> int \<times> 'w bdev" where
  "read_sect_loop 0 bios lmb bd c buf st = (-1, st)"
| "read_sect_loop (Suc i) bios lmb bd c buf st = (
     let (r, st) = bios_rw_sect_chs bios lmb bd c 1 OP_READ buf st
     in if r \<noteq> -1 then (0, st) else read_sect_loop i bios lmb bd c buf (snd (bios_reset_dev bios bd st)))"

text \<open>The loop of \<open>bdev_read_range\<close>.\<close>

fun read_range_loop :: "nat \<Rightarrow> 'w bios \<Rightarrow> u32 \<Rightarrow> u32 \<Rightarrow> u64 \<Rightarrow> chs \<Rightarrow> int \<Rightarrow> u32 \<Rightarrow> 'w bdev \<Rightarrow> (fault + int \<times> 'w bdev) option" where
  "read_range_loop 0 bios lmb bd lba c cnt buf st = Some (Inr (-1, st))"
| "read_range_loop (Suc i) bios lmb bd lba c cnt buf st = (
     let (rd, st) = bios_rw_sect_chs bios lmb bd c cnt OP_READ buf st
     in if rd = cnt then Some (Inr (0, st))
        else if 0 < rd then
          (case calc_chs (lba + word_of_int rd) st of
             None \<Rightarrow> None
           | Some (Inl f) \<Rightarrow> Some (Inl f)
           | Some (Inr c) \<Rightarrow> read_range_loop i bios lmb bd (lba + word_of_int rd) c (cnt - rd) (buf + word_of_int (rd * 512))
               (snd (bios_reset_dev bios bd st)))
        else read_range_loop i bios lmb bd lba c cnt buf (snd (bios_reset_dev bios bd st)))"

definition with_chs :: "u64 \<Rightarrow> 'w bdev \<Rightarrow> (chs \<Rightarrow> (fault + int \<times> 'w bdev) option) \<Rightarrow> (fault + int \<times> 'w bdev) option" where
  "with_chs lba st k = (case calc_chs lba st of None \<Rightarrow> None | Some (Inl f) \<Rightarrow> Some (Inl f) | Some (Inr c) \<Rightarrow> k c)"

definition bdev_read_sect :: "'w bios \<Rightarrow> u32 \<Rightarrow> u32 \<Rightarrow> u64 \<Rightarrow> u32 \<Rightarrow> 'w bdev \<Rightarrow> (fault + int \<times> 'w bdev) option" where
  "bdev_read_sect bios lmb bd lba buf st =
     (case touch_motors st of
        None \<Rightarrow> None
      | Some st \<Rightarrow>
          if have_bios_ext st then Some (Inr (bios_rw_sect_lba bios lmb bd lba 1 OP_READ buf st))
          else with_chs lba st (\<lambda>c. Some (Inr (read_sect_loop NRETRIES bios lmb bd c buf st))))"

definition bdev_write_sect :: "'w bios \<Rightarrow> u32 \<Rightarrow> u32 \<Rightarrow> u64 \<Rightarrow> u32 \<Rightarrow> 'w bdev \<Rightarrow> (fault + int \<times> 'w bdev) option" where
  "bdev_write_sect bios lmb bd lba buf st =
     (case touch_motors st of
        None \<Rightarrow> None
      | Some st \<Rightarrow>
          if have_bios_ext st then Some (Inr (bios_rw_sect_lba bios lmb bd lba 1 OP_WRITE buf st))
          else with_chs lba st (\<lambda>c. Some (Inr (bios_rw_sect_chs bios lmb bd c 1 OP_WRITE buf st))))"

definition bdev_read_range :: "'w bios \<Rightarrow> u32 \<Rightarrow> u32 \<Rightarrow> u64 \<Rightarrow> int \<Rightarrow> u32 \<Rightarrow> 'w bdev \<Rightarrow> (fault + int \<times> 'w bdev) option" where
  "bdev_read_range bios lmb bd lba cnt buf st =
     (case touch_motors st of
        None \<Rightarrow> None
      | Some st \<Rightarrow>
          if have_bios_ext st then Some (Inr (bios_rw_sect_lba bios lmb bd lba cnt OP_READ buf st))
          else with_chs lba st (\<lambda>c. read_range_loop NRETRIES bios lmb bd lba c cnt buf st))"

definition bdev_write_range :: "'w bios \<Rightarrow> u32 \<Rightarrow> u32 \<Rightarrow> u64 \<Rightarrow> int \<Rightarrow> u32 \<Rightarrow> 'w bdev \<Rightarrow> (fault + int \<times> 'w bdev) option" where
  "bdev_write_range bios lmb bd lba cnt buf st =
     (case touch_motors st of
        None \<Rightarrow> None
      | Some st \<Rightarrow>
          if have_bios_ext st then Some (Inr (bios_rw_sect_lba bios lmb bd lba cnt OP_WRITE buf st))
          else with_chs lba st (\<lambda>c. Some (Inr (bios_rw_sect_chs bios lmb bd c cnt OP_WRITE buf st))))"

section \<open>Cylinders, heads and sectors\<close>

lemma unat_ucast_low: "drop_bit 32 (x :: u64) = 0 \<Longrightarrow> unat (ucast x :: u32) = unat x"
proof -
  assume "drop_bit 32 x = 0"
  have "unat (drop_bit 32 x) = unat x div 2 ^ 32" by (simp add: drop_bit_eq_div unat_div)
  with \<open>drop_bit 32 x = 0\<close> have "unat x div 2 ^ 32 = 0" by simp
  then have "unat x < 2 ^ 32" by (simp add: div_eq_0_iff)
  then show ?thesis by (simp add: unsigned_ucast_eq take_bit_nat_eq_self)
qed

lemma calc_chs_unat:
  assumes "calc_chs lba st = Some (Inr c)"
  shows "unat (cyl c) = unat lba div unat (num_track_sect st) div unat (num_heads st)
    \<and> unat (head c) = unat lba div unat (num_track_sect st) mod unat (num_heads st)
    \<and> unat (tsect c) = unat lba mod unat (num_track_sect st) + 1
    \<and> num_track_sect st \<noteq> 0 \<and> num_heads st \<noteq> 0 \<and> unat lba < 2 ^ 32"
proof -
  have d: "drop_bit 32 lba = 0" "num_track_sect st \<noteq> 0" "num_heads st \<noteq> 0"
    and c: "c = \<lparr>cyl = ucast lba div num_track_sect st div num_heads st, head = ucast lba div num_track_sect st mod num_heads st,
      tsect = ucast lba mod num_track_sect st + 1\<rparr>"
    using assms by (auto simp: calc_chs_def Let_def split: if_splits)
  have u: "unat (ucast lba :: u32) = unat lba" by (rule unat_ucast_low [OF d(1)])
  have "unat lba < 2 ^ 32" using unat_u32_less [of "ucast lba"] unfolding u by simp
  moreover have "unat lba mod unat (num_track_sect st) + 1 < 2 ^ 32"
  proof -
    have "0 < unat (num_track_sect st)" using d(2) by (simp add: unat_gt_0)
    then have "unat lba mod unat (num_track_sect st) < unat (num_track_sect st)" by simp
    then show ?thesis using unat_u32_less [of "num_track_sect st"] by simp
  qed
  then have "unat (ucast lba mod num_track_sect st + 1) = unat lba mod unat (num_track_sect st) + 1"
    by (simp add: unat_add_no_wrap unat_mod u)
  ultimately show ?thesis using d by (simp add: c unat_div unat_mod u)
qed

text \<open>C29: the sector and the head of a sector number lie on the drive, the cylinder does when the number is below the capacity,
  and together they name that sector.\<close>

theorem calc_chs_names_sector:
  assumes "calc_chs lba st = Some (Inr c)"
    "unat lba < unat (num_cyl st) * unat (num_heads st) * unat (num_track_sect st)"
  shows "1 \<le> unat (tsect c) \<and> unat (tsect c) \<le> unat (num_track_sect st) \<and> unat (head c) < unat (num_heads st)
    \<and> unat (cyl c) < unat (num_cyl st)
    \<and> unat lba = (unat (cyl c) * unat (num_heads st) + unat (head c)) * unat (num_track_sect st) + (unat (tsect c) - 1)"
proof -
  let ?s = "unat (num_track_sect st)" and ?h = "unat (num_heads st)"
  note c = calc_chs_unat [OF assms(1)]
  have pos: "0 < ?s" "0 < ?h" using c by (simp_all add: unat_gt_0)
  then have lt: "unat lba mod ?s < ?s" "unat lba div ?s mod ?h < ?h" by simp_all
  have "unat lba div ?s < unat (num_cyl st) * ?h" using assms(2) pos(1) by (simp add: less_mult_imp_div_less)
  then have "unat lba div ?s div ?h < unat (num_cyl st)" by (rule less_mult_imp_div_less)
  moreover have "(unat lba div ?s div ?h * ?h + unat lba div ?s mod ?h) * ?s + unat lba mod ?s = unat lba"
    by (simp only: div_mult_mod_eq)
  ultimately show ?thesis using c lt by simp
qed

lemma calc_chs_names_sector_witness:
  "\<exists>c. calc_chs 100 \<lparr>bram = (\<lambda>_. 0), world = (), have_bios_ext = False, bdev_is_floppy = True, num_cyl = 80, num_heads = 2, num_track_sect = 18,
      alarms = \<lparr>nticks = 0, evlist = Some [], iflag = True\<rparr>\<rparr> = Some (Inr c)
    \<and> 100 = (unat (cyl c) * 2 + unat (head c)) * 18 + (unat (tsect c) - 1)"
proof -
  let ?st = "\<lparr>bram = (\<lambda>_. 0), world = (), have_bios_ext = False, bdev_is_floppy = True, num_cyl = 80, num_heads = 2, num_track_sect = 18,
      alarms = \<lparr>nticks = 0, evlist = Some [], iflag = True\<rparr>\<rparr>"
  obtain c where "calc_chs 100 ?st = Some (Inr c)" by (simp add: calc_chs_def Let_def drop_bit_eq_div)
  then show ?thesis using calc_chs_names_sector [of 100 ?st c] by simp
qed

text \<open>The registers of the BIOS call lose bits 8 and 9 of the cylinder.\<close>

lemma chs_ecx_wraps:
  fixes k :: u32
  assumes "unat k + 256 < 1024"
  shows "(push_bit 8 (k + 256) AND 0xff00) OR (drop_bit 10 (k + 256) AND 0xc0) OR t = (push_bit 8 k AND 0xff00) OR (drop_bit 10 k AND 0xc0) OR t"
proof -
  have z: "drop_bit 10 x = 0" if "unat x < 1024" for x :: u32
  proof -
    have "unat (drop_bit 10 x) = unat x div 2 ^ 10" by (simp add: drop_bit_eq_div unat_div)
    also have "\<dots> = 0" using that by simp
    finally show ?thesis using unat_eq_zero by blast
  qed
  have "unat (k + 256) < 1024" using assms by (simp add: unat_add_no_wrap)
  moreover have m: "push_bit 8 x AND 0xff00 = push_bit 8 (take_bit 8 x)" for x :: u32
  proof -
    have "push_bit 8 (mask 8) = (0xff00 :: u32)" by (simp add: mask_eq_exp_minus_1 push_bit_eq_mult)
    then show ?thesis by (simp add: take_bit_eq_mask push_bit_and)
  qed
  moreover have "unat (take_bit 8 (k + 256)) = unat (take_bit 8 k)"
    using assms by (simp add: take_bit_eq_mod unat_mod unat_add_no_wrap)
  then have "take_bit 8 (k + 256) = take_bit 8 k" using word_unat_eq_iff by blast
  ultimately show ?thesis using z [of k] z [of "k + 256"] assms by simp
qed

lemma rw_chs_wraps:
  assumes "unat (cyl c) + 256 < 1024"
  shows "bios_rw_sect_chs bios lmb dv (c\<lparr>cyl := cyl c + 256\<rparr>) cnt dop buf st = bios_rw_sect_chs bios lmb dv c cnt dop buf st"
  unfolding bios_rw_sect_chs_def by (simp add: chs_ecx_wraps [OF assms])

lemma read_loop_wraps:
  assumes "unat (cyl c) + 256 < 1024"
  shows "read_sect_loop i bios lmb bd (c\<lparr>cyl := cyl c + 256\<rparr>) buf st = read_sect_loop i bios lmb bd c buf st"
  by (induction i arbitrary: st) (simp_all add: rw_chs_wraps [OF assms] split: prod.split)

lemma calc_chs_next:
  assumes "num_track_sect st \<noteq> 0" "num_heads st \<noteq> 0" "d = 256 * unat (num_heads st) * unat (num_track_sect st)" "unat lba + d < 2 ^ 32"
  shows "\<exists>c. calc_chs lba st = Some (Inr c) \<and> calc_chs (lba + of_nat d) st = Some (Inr (c\<lparr>cyl := cyl c + 256\<rparr>))
    \<and> unat (cyl c) = unat lba div unat (num_track_sect st) div unat (num_heads st)"
proof -
  let ?s = "unat (num_track_sect st)" and ?h = "unat (num_heads st)"
  have pos: "0 < ?s" "0 < ?h" using assms(1,2) by (simp_all add: unat_gt_0)
  have d: "d < 2 ^ 32" using assms(4) by simp
  have lba': "unat (lba + of_nat d) = unat lba + d"
    using assms(4) d by (simp add: unat_add_no_wrap unat_of_nat)
  have ok: "\<exists>c. calc_chs l st = Some (Inr c)" if "unat l < 2 ^ 32" for l
  proof -
    have "unat (drop_bit 32 l) = unat l div 2 ^ 32" by (simp add: drop_bit_eq_div unat_div)
    then have "drop_bit 32 l = 0" using that unat_eq_zero by force
    then show ?thesis using assms(1,2) by (simp add: calc_chs_def Let_def)
  qed
  obtain c where c: "calc_chs lba st = Some (Inr c)" using ok [of lba] assms(4) by auto
  obtain c' where c': "calc_chs (lba + of_nat d) st = Some (Inr c')" using ok [of "lba + of_nat d"] lba' assms(4) by auto
  note u = calc_chs_unat [OF c] and u' = calc_chs_unat [OF c']
  have q: "(unat lba + d) div ?s = unat lba div ?s + 256 * ?h" "(unat lba + d) mod ?s = unat lba mod ?s"
    using pos(1) unfolding assms(3) by simp_all
  have q2: "(unat lba div ?s + 256 * ?h) div ?h = unat lba div ?s div ?h + 256" "(unat lba div ?s + 256 * ?h) mod ?h = unat lba div ?s mod ?h"
    using pos(2) by simp_all
  have "unat (cyl c') = unat (cyl c) + 256" using u u' unfolding lba' q q2 by simp
  moreover from this have "unat (cyl c + 256) = unat (cyl c) + 256" using unat_u32_less [of "cyl c'"] by (simp add: unat_add_no_wrap)
  ultimately have "cyl c' = cyl c + 256" using word_unat_eq_iff [of "cyl c'" "cyl c + 256"] by simp
  moreover have "unat (head c') = unat (head c)" "unat (tsect c') = unat (tsect c)" using u u' unfolding lba' q q2 by simp_all
  then have "head c' = head c" "tsect c' = tsect c" using word_unat_eq_iff by blast+
  ultimately have "c' = c\<lparr>cyl := cyl c + 256\<rparr>" by (cases c; cases c') simp
  then show ?thesis using c c' u by simp
qed

text \<open>Without the BIOS extensions a sector of the cylinders from 256 on is not read: the call is the
  same as for the sector 256 cylinders in front of it.\<close>

theorem bdev_read_wrong_cylinder:
  assumes "\<not> have_bios_ext st" "num_track_sect st \<noteq> 0" "num_heads st \<noteq> 0" "d = 256 * unat (num_heads st) * unat (num_track_sect st)"
    "unat lba + d < 2 ^ 32" "unat lba div unat (num_track_sect st) div unat (num_heads st) + 256 < 1024"
  shows "bdev_read_sect bios lmb bd (lba + of_nat d) buf st = bdev_read_sect bios lmb bd lba buf st"
proof (cases "touch_motors st")
  case (Some st1)
  then have st1: "num_track_sect st1 = num_track_sect st" "num_heads st1 = num_heads st" "\<not> have_bios_ext st1"
    using assms(1) by (auto simp: touch_motors_def split: if_splits)
  obtain c where "calc_chs lba st1 = Some (Inr c)" "calc_chs (lba + of_nat d) st1 = Some (Inr (c\<lparr>cyl := cyl c + 256\<rparr>))"
    "unat (cyl c) + 256 < 1024"
    using calc_chs_next [of st1 d lba] assms(2-6) st1 by auto
  then show ?thesis using Some st1 by (simp add: bdev_read_sect_def with_chs_def read_loop_wraps)
qed (simp add: bdev_read_sect_def)

definition idle_bdev :: "bool \<Rightarrow> bool \<Rightarrow> alarm event list \<Rightarrow> unit bdev" where
  "idle_bdev ext floppy es = \<lparr>bram = (\<lambda>_. 0), world = (), have_bios_ext = ext, bdev_is_floppy = floppy, num_cyl = 1024, num_heads = 2,
     num_track_sect = 18, alarms = \<lparr>nticks = 0, evlist = Some es, iflag = True\<rparr>\<rparr>"

lemma bdev_read_wrong_cylinder_witness:
  "bdev_read_sect (\<lambda>_ r w m. (r, w, m)) 0x1000 0x80 9221 0x100000 (idle_bdev False False [])
    = bdev_read_sect (\<lambda>_ r w m. (r, w, m)) 0x1000 0x80 5 0x100000 (idle_bdev False False [])"
  using bdev_read_wrong_cylinder [of "idle_bdev False False []" 9216 5 "\<lambda>_ r w m. (r, w, m)" "0x1000" "0x80" "0x100000"]
  by (simp add: idle_bdev_def)

text \<open>On a floppy drive, an access while the alarm that turns the motors off is the next one set
  works on released memory: cancelling it leaves the list of alarms at the event that was
  released, and the new alarm is put in relation to it.\<close>

theorem floppy_second_access:
  assumes "bdev_is_floppy st" "evlist (alarms st) = Some (e # es)" "ev_func e = floppy_motors_off"
  shows "bdev_read_sect bios lmb bd lba buf st = None \<and> bdev_read_range bios lmb bd lba cnt buf st = None
    \<and> bdev_write_sect bios lmb bd lba buf st = None \<and> bdev_write_range bios lmb bd lba cnt buf st = None"
proof -
  have "sint (MSEC_TO_TICKS FLOPPY_MOTOR_OFF_TIMEOUT) = 1000" by (simp add: MSEC_TO_TICKS_def FLOPPY_MOTOR_OFF_TIMEOUT_def)
  then have "touch_motors st = None" using assms by (simp add: touch_motors_def cancel_alarm_def set_alarm_def Let_def)
  then show ?thesis by (simp add: bdev_read_sect_def bdev_read_range_def bdev_write_sect_def bdev_write_range_def)
qed

lemma floppy_second_access_witness:
  "bdev_read_sect (\<lambda>_ r w m. (r, w, m)) 0x1000 0 5 0x100000 (idle_bdev False True [\<lparr>ev_dt = 900, ev_func = floppy_motors_off\<rparr>]) = None"
  using floppy_second_access [of "idle_bdev False True [\<lparr>ev_dt = 900, ev_func = floppy_motors_off\<rparr>]" "\<lparr>ev_dt = 900, ev_func = floppy_motors_off\<rparr>" "[]"
      "\<lambda>_ r w m. (r, w, m)" "0x1000" 0 5 "0x100000" 1] by (simp add: idle_bdev_def)

section \<open>Reading through the BIOS extensions\<close>

text \<open>What the BIOS promises for an extended read: the packet at \<open>ds:si\<close> says how many sectors go where, to a place apart from it. Without an error they
  are there afterwards and the packet still has their number; with one, the carry flag is set and nothing is known of the place. Either
  way no other memory changes, but for the packet and the memory \<open>own\<close> that belongs to the BIOS (its data areas and its stack).\<close>

definition dap_of :: "int86regs \<Rightarrow> u32" where
  "dap_of regs = 16 * ucast (r_ds regs) + (r_esi regs AND 0xffff)"

definition dap_count :: "ram \<Rightarrow> u32 \<Rightarrow> nat" where "dap_count m a = unat (load16 m (a + 2))"
definition dap_dest :: "ram \<Rightarrow> u32 \<Rightarrow> u32" where "dap_dest m a = 16 * ucast (load16 m (a + 6)) + ucast (load16 m (a + 4))"
definition dap_lba :: "ram \<Rightarrow> u32 \<Rightarrow> u64" where
  "dap_lba m a = ucast (load32 m (a + 8)) OR push_bit 32 (ucast (load32 m (a + 12)))"

definition bios_reads :: "'w bios \<Rightarrow> u32 \<Rightarrow> (u64 \<Rightarrow> u8 list) \<Rightarrow> u32 set \<Rightarrow> bool" where
  "bios_reads bios dv sector own \<longleftrightarrow> (\<forall>regs w m. r_eax regs = 0x4200 \<longrightarrow> r_edx regs = dv \<longrightarrow> m (dap_of regs) = 16 \<longrightarrow>
     (\<forall>k < 16. 512 * dap_count m (dap_of regs) \<le> unat (dap_of regs + of_nat k - dap_dest m (dap_of regs))) \<longrightarrow>
     (case bios 0x13 regs w m of (regs', w', m') \<Rightarrow> let a = dap_of regs; n = dap_count m a; d = dap_dest m a in
        (\<not> carry regs' \<longrightarrow> load16 m' (a + 2) = load16 m (a + 2) \<and> (\<forall>i < 512 * n. m' (d + of_nat i) = span sector (dap_lba m a) n ! i))
        \<and> (\<forall>x. x \<notin> own \<longrightarrow> 16 \<le> unat (x - a) \<longrightarrow> 512 * n \<le> unat (x - d) \<longrightarrow> m' x = m x)))"

text \<open>The registers of an extended read.\<close>

definition lba_regs :: "u32 \<Rightarrow> u32 \<Rightarrow> int86regs" where
  "lba_regs lmb dv = zero_regs\<lparr>r_eax := 0x4200, r_ds := ucast (drop_bit 4 lmb), r_edx := dv\<rparr>"

lemma bytes_join16: "(ucast (ucast v :: u8) :: u16) OR push_bit 8 (ucast (ucast (drop_bit 8 v) :: u8)) = v" for v :: u16
  by (rule bit_word_eqI) (auto simp: bit_or_iff bit_push_bit_iff bit_ucast_iff bit_drop_bit_eq)

lemma bytes_join64: "(ucast (ucast v :: u32) :: u64) OR push_bit 32 (ucast (ucast (drop_bit 32 v) :: u32)) = v" for v :: u64
  by (rule bit_word_eqI) (auto simp: bit_or_iff bit_push_bit_iff bit_ucast_iff bit_drop_bit_eq)

lemma put_dap_loads:
  "put_dap a n seg lba m a = 16" "load16 (put_dap a n seg lba m) (a + 2) = n" "load16 (put_dap a n seg lba m) (a + 4) = 0"
  "load16 (put_dap a n seg lba m) (a + 6) = seg" "load32 (put_dap a n seg lba m) (a + 8) = ucast lba"
  "load32 (put_dap a n seg lba m) (a + 12) = ucast (drop_bit 32 lba)"
  using bytes_join16 [of n] bytes_join16 [of seg] bytes_join32 [of "ucast lba"] bytes_join32 [of "ucast (drop_bit 32 lba)"]
  by (simp_all add: put_dap_def load16_def load32_def store16_def store32_def add.assoc)

lemma put_dap_other:
  assumes "16 \<le> unat (x - a)"
  shows "put_dap a n seg lba m x = m x"
proof -
  have "x \<noteq> a + of_nat k" if "k < 16" for k
  proof
    assume "x = a + of_nat k"
    then have "unat (x - a) = k" using that by (simp add: unat_of_nat)
    then show False using assms that by simp
  qed
  from this [of 0] this [of 1] this [of 2] this [of 3] this [of 4] this [of 5] this [of 6] this [of 7] this [of 8] this [of 9]
    this [of 10] this [of 11] this [of 12] this [of 13] this [of 14] this [of 15]
  show ?thesis by (simp add: put_dap_def store16_def store32_def add.assoc)
qed

text \<open>The transfer buffer lies on a paragraph in the first megabyte.\<close>

lemma and_not_15: "x AND 0xfffffff0 = push_bit 4 (drop_bit 4 x)" for x :: u32
proof -
  have e: "(0xfffffff0 :: u32) = NOT (mask 4)" by (simp add: mask_eq_exp_minus_1)
  show ?thesis unfolding e
    by (rule bit_word_eqI) (auto simp: bit_and_iff bit_not_iff bit_mask_iff bit_push_bit_iff bit_drop_bit_eq)
qed

lemma unat_u32_div16: "unat (drop_bit 4 x) = unat x div 16" for x :: u32
  by (simp add: drop_bit_eq_div unat_div)

lemma paragraph_addr:
  fixes s :: u16 and lmb :: u32
  assumes "unat s + 1 < 2 ^ 16" "lmb = 16 * ucast s"
  shows "(lmb + 31) AND 0xfffffff0 = lmb + 16" "ucast (drop_bit 4 lmb) = s" "16 * ucast (ucast (drop_bit 4 (lmb + 16)) :: u16) = lmb + 16"
    "unat lmb = 16 * unat s"
proof -
  have us: "unat (ucast x :: u32) = unat x" for x :: u16
    using unat_u16_less [of x] by (simp add: unsigned_ucast_eq take_bit_nat_eq_self)
  have u16: "unat (16 * ucast x :: u32) = 16 * unat x" for x :: u16
    using unat_u16_less [of x] us [of x] by (simp add: unat_word_ariths)
  show l: "unat lmb = 16 * unat s" unfolding assms(2) by (rule u16)
  have l31: "unat (lmb + 31) = 16 * unat s + 31" "unat (lmb + 16) = 16 * unat s + 16"
    using l assms(1) by (simp_all add: unat_add_no_wrap)
  have "unat (drop_bit 4 (lmb + 31)) = unat s + 1" unfolding unat_u32_div16 l31 by simp
  then have "unat (push_bit 4 (drop_bit 4 (lmb + 31))) = 16 * unat s + 16"
    using assms(1) by (simp add: push_bit_eq_mult unat_word_ariths)
  then show "(lmb + 31) AND 0xfffffff0 = lmb + 16" unfolding and_not_15 using l31(2) word_unat_eq_iff by metis
  have low: "unat (ucast y :: u16) = unat y" if "unat y < 2 ^ 16" for y :: u32
    using that by (simp add: unsigned_ucast_eq take_bit_nat_eq_self)
  have "unat (drop_bit 4 lmb) = unat s" unfolding unat_u32_div16 l by simp
  then have "unat (ucast (drop_bit 4 lmb) :: u16) = unat s" using low unat_u16_less [of s] by simp
  then show "ucast (drop_bit 4 lmb) = s" using word_unat_eq_iff by blast
  have "unat (drop_bit 4 (lmb + 16)) = unat s + 1" unfolding unat_u32_div16 l31 by simp
  then have "unat (ucast (drop_bit 4 (lmb + 16)) :: u16) = unat s + 1" using low assms(1) by simp
  then have "unat (16 * ucast (ucast (drop_bit 4 (lmb + 16)) :: u16) :: u32) = unat (lmb + 16)" unfolding u16 l31 by simp
  then show "16 * ucast (ucast (drop_bit 4 (lmb + 16)) :: u16) = lmb + 16" using word_unat_eq_iff by blast
qed

lemma no_overlap:
  fixes src dst :: u32
  assumes "unat dst + k \<le> 2 ^ 32" "unat src + k \<le> 2 ^ 32" "unat dst + k \<le> unat src \<or> unat src + k \<le> unat dst" "j < k"
  shows "k \<le> unat (src + of_nat j - dst)"
proof -
  have j: "unat (src + of_nat j) = unat src + j" using assms by (simp add: unat_add_no_wrap unat_of_nat)
  show ?thesis
  proof (cases "unat dst + k \<le> unat src")
    case True
    then show ?thesis using j by (simp add: unat_sub_no_wrap)
  next
    case False
    then have lt: "unat (src + of_nat j) < unat dst" using assms j by simp
    have "unat (src + of_nat j - dst) = 2 ^ 32 + unat (src + of_nat j) - unat dst"
      using lt unat_u32_less [of dst] by (simp add: unat_sub_if' word_le_nat_alt)
    then show ?thesis using j assms False by simp
  qed
qed

lemma away:
  fixes y b :: u32
  assumes "unat y < unat b \<or> unat b + k \<le> unat y" "unat b + k \<le> 2 ^ 32"
  shows "k \<le> unat (y - b)"
proof (cases "unat y < unat b")
  case True
  then have "unat (y - b) = 2 ^ 32 + unat y - unat b" by (simp add: unat_sub_if' word_le_nat_alt)
  then show ?thesis using assms(2) by simp
next
  case False
  then show ?thesis using assms(1) by (simp add: unat_sub_no_wrap)
qed

lemma touch_motors_frame:
  "touch_motors st = Some st1 \<Longrightarrow> \<exists>t. st1 = st\<lparr>alarms := t\<rparr>"
  by (auto simp: touch_motors_def split: if_splits) (rule exI [of _ "alarms st"], simp)

lemma read_range_lba:
  fixes s :: u16
  assumes "bios_reads bios bd sector own" "have_bios_ext st" "touch_motors st \<noteq> None" "lmb = 16 * ucast s" "unat s < 0xa000" "n \<le> 127"
    "unat buf + 512 * n \<le> 2 ^ 32" "unat buf + 512 * n \<le> unat lmb \<or> unat lmb + 16 + 512 * n \<le> unat buf"
    "err = carry (fst (bios 0x13 (lba_regs lmb bd) (world st) (put_dap lmb (of_nat n) (ucast (drop_bit 4 (lmb + 16))) lba (bram st))))"
  shows "\<exists>st'. bdev_read_range bios lmb bd lba (int n) buf st = Some (Inr (if err then -1 else int n, st'))
    \<and> (\<not> err \<longrightarrow> (\<forall>i < 512 * n. bram st' (buf + of_nat i) = span sector lba n ! i))
    \<and> (\<forall>x. x \<notin> own \<and> 16 + 512 * n \<le> unat (x - lmb) \<and> (err \<or> 512 * n \<le> unat (x - buf)) \<longrightarrow> bram st' x = bram st x)
    \<and> have_bios_ext st' \<and> bdev_is_floppy st' = bdev_is_floppy st"
proof -
  have s: "unat s + 1 < 2 ^ 16" using assms(5) by simp
  note pa = paragraph_addr [OF s assms(4)]
  let ?x = "lmb + 16" and ?len = "word_of_int (int n * 512) :: u32" and ?n = "word_of_int (int n) :: u16"
  let ?seg = "ucast (drop_bit 4 ?x) :: u16"
  define m where "m = put_dap lmb ?n ?seg lba (bram st)"
  have len: "unat ?len = 512 * n"
  proof -
    have "?len = of_nat (512 * n)" by simp
    moreover have "unat (of_nat (512 * n) :: u32) = 512 * n" using assms(6) by (subst unat_of_nat) simp
    ultimately show ?thesis by (simp only:)
  qed
  have n: "unat ?n = n" using assms(6) by (simp add: unat_of_nat)
  let ?regs = "lba_regs lmb bd"
  have a: "dap_of ?regs = lmb" using pa(2) assms(4) by (simp add: lba_regs_def zero_regs_def dap_of_def)
  have dst: "16 * ucast ?seg + ucast (0 :: u16) = ?x" using pa(3) by simp
  note dap = put_dap_loads [of lmb ?n ?seg lba "bram st", folded m_def]
  have d: "dap_count m lmb = n" "dap_dest m lmb = ?x" "dap_lba m lmb = lba"
    unfolding dap_count_def dap_dest_def dap_lba_def dap n dst bytes_join64 by simp_all
  obtain regs' w' m1 where b: "bios 0x13 ?regs (world st) m = (regs', w', m1)" by (cases "bios 0x13 ?regs (world st) m") blast
  have "r_eax ?regs = 0x4200" "r_edx ?regs = bd" "m (dap_of ?regs) = 16" using dap(1) a by (simp_all add: lba_regs_def zero_regs_def)
  moreover have "\<forall>k < 16. 512 * dap_count m (dap_of ?regs) \<le> unat (dap_of ?regs + of_nat k - dap_dest m (dap_of ?regs))"
  proof (intro allI impI)
    fix k :: nat assume k: "k < 16"
    have "unat (lmb + of_nat k) = unat lmb + k" using k pa(4) assms(5) by (simp add: unat_add_no_wrap unat_of_nat)
    moreover have "unat (lmb + 16) = unat lmb + 16" using pa(4) assms(5) by (simp add: unat_add_no_wrap)
    ultimately show "512 * dap_count m (dap_of ?regs) \<le> unat (dap_of ?regs + of_nat k - dap_dest m (dap_of ?regs))"
      unfolding a d using k assms(5,6) pa(4) by (intro away) auto
  qed
  ultimately have c: "(\<not> carry regs' \<longrightarrow> load16 m1 (lmb + 2) = load16 m (lmb + 2) \<and> (\<forall>i < 512 * n. m1 (?x + of_nat i) = span sector lba n ! i))
      \<and> (\<forall>x. x \<notin> own \<longrightarrow> 16 \<le> unat (x - lmb) \<longrightarrow> 512 * n \<le> unat (x - ?x) \<longrightarrow> m1 x = m x)"
    using assms(1) [unfolded bios_reads_def, rule_format, of ?regs m "world st"] b a d by (simp add: Let_def)
  have good: "load16 m1 (lmb + 2) = ?n" "\<And>i. i < 512 * n \<Longrightarrow> m1 (?x + of_nat i) = span sector lba n ! i" if "\<not> carry regs'"
    using c that dap(2) by auto
  have frame: "m1 x = m x" if "x \<notin> own" "16 \<le> unat (x - lmb)" "512 * n \<le> unat (x - ?x)" for x
    using c that by blast
  have err: "err = carry regs'" using assms(9) b by (simp add: m_def)
  obtain t where t: "touch_motors st = Some (st\<lparr>alarms := t\<rparr>)" using assms(3) touch_motors_frame by blast
  define m2 where "m2 = memcpy m1 buf ?x ?len"
  have x16: "unat ?x = unat lmb + 16" using pa(4) assms(5) by (simp add: unat_add_no_wrap)
  have "unat lmb + 16 + 512 * n \<le> 2 ^ 32" using pa(4) assms(5,6) by simp
  then have ov: "unat ?len \<le> unat (?x + of_nat j - buf)" if "j < unat ?len" for j
    unfolding len using that assms(7,8) x16 len by (intro no_overlap) auto
  have m2: "m2 x = (if unat (x - buf) < 512 * n then m1 (?x + (x - buf)) else m1 x)" for x
    unfolding m2_def using memcpy_apply [OF ov] len by simp
  have outside: "m1 x = bram st x" if "x \<notin> own" "16 + 512 * n \<le> unat (x - lmb)" for x
  proof -
    have "unat (x - ?x) = unat (x - lmb) - 16"
    proof -
      have "x - ?x = (x - lmb) - 16" by simp
      moreover have "unat ((x - lmb) - 16) = unat (x - lmb) - 16" using that(2) by (subst unat_sub_no_wrap) simp_all
      ultimately show ?thesis by (simp only:)
    qed
    then have "m1 x = m x" using that by (intro frame) simp_all
    moreover have "m x = bram st x" unfolding m_def using that(2) by (intro put_dap_other) simp
    ultimately show ?thesis by simp
  qed
  have al: "(lmb + 16 + 15) AND 0xfffffff0 = ?x" using pa(1) by (simp add: add.assoc)
  have op: "(if OP_READ = OP_READ then a else b) = a" for a b :: 'b by simp
  have f: "push_bit 8 (0x42 :: u32) = 0x4200" by simp
  let ?st = "st\<lparr>alarms := t\<rparr>"
  have call: "int86 bios 0x13 ?regs (?st\<lparr>bram := m\<rparr>) = (regs', ?st\<lparr>bram := m, world := w', bram := m1\<rparr>)"
    using b by (simp add: int86_def)
  note rw = bios_rw_sect_lba_def [of bios lmb bd lba "int n" OP_READ buf ?st, unfolded al Let_def op f, folded lba_regs_def]
  have mm: "put_dap lmb ?n ?seg lba (bram ?st) = m" by (simp add: m_def)
  show ?thesis
  proof (cases "carry regs'")
    case True
    then have "bios_rw_sect_lba bios lmb bd lba (int n) OP_READ buf ?st = (-1, ?st\<lparr>bram := m, world := w', bram := m1\<rparr>)"
      unfolding rw mm call by simp
    then show ?thesis using True t assms(2) outside err by (simp add: bdev_read_range_def)
  next
    case False
    have "m2 (lmb + of_nat k) = m1 (lmb + of_nat k)" if "k < 16" for k
    proof -
      have "unat (lmb + of_nat k) = unat lmb + k" using that pa(4) assms(5) by (simp add: unat_add_no_wrap unat_of_nat)
      then have "\<not> unat (lmb + of_nat k - buf) < 512 * n"
        using away [of "lmb + of_nat k" buf "512 * n"] assms(5-8) pa(4) x16 that by auto
      then show ?thesis by (simp add: m2)
    qed
    from this [of 2] this [of 3] have count: "uint (load16 m2 (lmb + 2)) = int n"
      using good(1) [OF False] n by (simp add: load16_def add.assoc) (metis uint_nat)
    have "m2 (buf + of_nat i) = span sector lba n ! i" if "i < 512 * n" for i
    proof -
      have "unat (of_nat i :: u32) = i" using that assms(6) by (simp add: unat_of_nat)
      then show ?thesis using that good(2) [OF False that] by (simp add: m2)
    qed
    moreover have "m2 x = bram st x" if "x \<notin> own" "16 + 512 * n \<le> unat (x - lmb)" "512 * n \<le> unat (x - buf)" for x
      using that outside by (simp add: m2)
    moreover have "bios_rw_sect_lba bios lmb bd lba (int n) OP_READ buf ?st = (int n, ?st\<lparr>bram := m, world := w', bram := m2\<rparr>)"
    proof -
      have "memcpy m1 buf ?x (word_of_int (int n * 512)) = m2" by (simp add: m2_def)
      then show ?thesis using False count unfolding rw mm call by simp
    qed
    ultimately show ?thesis using False t assms(2) err by (simp add: bdev_read_range_def)
  qed
qed

text \<open>C28: with the BIOS extensions a read of sectors gives an error exactly when the BIOS reports one, and then the caller's buffer is as it was;
  otherwise the buffer holds the bytes of the sectors and their number is returned. Memory that is neither the buffer, the transfer buffer nor the
  BIOS's own does not change. A floppy drive can be used too, unless its alarm is the first in the list.\<close>

theorem bdev_read_range_lba:
  fixes s :: u16
  assumes "bios_reads bios bd sector own" "have_bios_ext st" "touch_motors st \<noteq> None" "lmb = 16 * ucast s" "unat s < 0xa000" "n \<le> 127"
    "unat buf + 512 * n \<le> 2 ^ 32" "unat buf + 512 * n \<le> unat lmb \<or> unat lmb + 16 + 512 * n \<le> unat buf"
    "err = carry (fst (bios 0x13 (lba_regs lmb bd) (world st) (put_dap lmb (of_nat n) (ucast (drop_bit 4 (lmb + 16))) lba (bram st))))"
  shows "\<exists>st'. bdev_read_range bios lmb bd lba (int n) buf st = Some (Inr (if err then -1 else int n, st'))
    \<and> (\<not> err \<longrightarrow> (\<forall>i < 512 * n. bram st' (buf + of_nat i) = span sector lba n ! i))
    \<and> (\<forall>x. x \<notin> own \<and> 16 + 512 * n \<le> unat (x - lmb) \<and> (err \<or> 512 * n \<le> unat (x - buf)) \<longrightarrow> bram st' x = bram st x)"
  using read_range_lba [OF assms] by blast

text \<open>A BIOS that reads what it is asked for, but for the sectors \<open>bad\<close>, and counts its calls at 0x400.\<close>

definition demo_bios :: "(u64 \<Rightarrow> bool) \<Rightarrow> (u64 \<Rightarrow> u8 list) \<Rightarrow> unit bios" where
  "demo_bios bad sector i regs w m = (let a = dap_of regs; n = dap_count m a; d = dap_dest m a in
     if bad (dap_lba m a) then (zero_regs\<lparr>r_flags := 1\<rparr>, w, \<lambda>x. if x = 0x400 then m x + 1 else m x)
     else (zero_regs, w, \<lambda>x. if unat (x - d) < 512 * n then span sector (dap_lba m a) n ! unat (x - d)
       else if x = 0x400 \<and> 16 \<le> unat (x - a) then m x + 1 else m x))"

definition demo_sector :: "u64 \<Rightarrow> u8 list" where
  "demo_sector s = replicate 512 (ucast s)"

lemma span_first: "0 < k \<Longrightarrow> length (sec l) = 512 \<Longrightarrow> span sec l k ! 0 = sec l ! 0"
  by (simp add: span_def upt_conv_Cons nth_append)

lemma demo_span: "span demo_sector 7 2 ! 0 = 7"
proof -
  have "length (demo_sector 7) = 512" unfolding demo_sector_def by (rule length_replicate)
  then have "span demo_sector 7 2 ! 0 = demo_sector 7 ! 0" by (intro span_first) simp_all
  also have "\<dots> = ucast (7 :: u64)" unfolding demo_sector_def by (rule nth_replicate) simp
  finally show ?thesis by simp
qed

lemma demo_bios_reads: "bios_reads (demo_bios bad sector) dv sector {0x400}"
  unfolding bios_reads_def
proof (intro allI impI)
  fix regs :: int86regs and w :: unit and m :: ram
  let ?a = "dap_of regs" let ?n = "dap_count m ?a" and ?d = "dap_dest m ?a" and ?l = "dap_lba m ?a"
  assume apart: "\<forall>k < 16. 512 * ?n \<le> unat (?a + of_nat k - ?d)"
  have n: "?n < 65536" using unat_u16_less [of "load16 m (?a + 2)"] by (simp add: dap_count_def)
  define m' where "m' = (\<lambda>x. if unat (x - ?d) < 512 * ?n then span sector ?l ?n ! unat (x - ?d) else if x = 0x400 \<and> 16 \<le> unat (x - ?a) then m x + 1 else m x)"
  have "m' (?a + of_nat k) = m (?a + of_nat k)" if "k < 16" for k
  proof -
    have "\<not> unat (?a + of_nat k - ?d) < 512 * ?n" using apart that by (simp add: not_less)
    moreover have "unat (?a + of_nat k - ?a) = k" using that by (simp add: unat_of_nat)
    ultimately show ?thesis using that by (auto simp: m'_def)
  qed
  from this [of 2] this [of 3] have "load16 m' (?a + 2) = load16 m (?a + 2)" by (simp add: load16_def add.assoc)
  moreover have "\<forall>i < 512 * ?n. m' (?d + of_nat i) = span sector ?l ?n ! i"
  proof (intro allI impI)
    fix i assume i: "i < 512 * ?n"
    then have "unat (of_nat i :: u32) = i" using n by (simp add: unat_of_nat)
    then show "m' (?d + of_nat i) = span sector ?l ?n ! i" using i by (simp add: m'_def)
  qed
  ultimately show "case demo_bios bad sector 0x13 regs w m of (regs', w', m') \<Rightarrow> let a = ?a; n = dap_count m a; d = dap_dest m a in
      (\<not> carry regs' \<longrightarrow> load16 m' (a + 2) = load16 m (a + 2) \<and> (\<forall>i < 512 * n. m' (d + of_nat i) = span sector (dap_lba m a) n ! i))
      \<and> (\<forall>x. x \<notin> {0x400} \<longrightarrow> 16 \<le> unat (x - a) \<longrightarrow> 512 * n \<le> unat (x - d) \<longrightarrow> m' x = m x)"
    unfolding m'_def by (cases "bad ?l") (simp_all add: demo_bios_def Let_def carry_def zero_regs_def)
qed

lemma bdev_read_range_lba_witness:
  "\<exists>st' st''. bdev_read_range (demo_bios (\<lambda>l. l = 9) demo_sector) 0x10000 0x80 7 2 0x100000 (idle_bdev True False []) = Some (Inr (2, st'))
    \<and> bram st' 0x100000 = 7 \<and> bdev_read_range (demo_bios (\<lambda>l. l = 9) demo_sector) 0x10000 0 9 2 0x100000 (idle_bdev True True []) = Some (Inr (-1, st''))"
proof -
  let ?b = "demo_bios (\<lambda>l. l = 9) demo_sector"
  have p: "unat (0x1000 :: u16) < 0xa000" "(0x10000 :: u32) = 16 * ucast (0x1000 :: u16)" by simp_all
  have lba: "dap_lba (put_dap 0x10000 2 0x1001 l m) 0x10000 = l" for l and m :: ram
    unfolding dap_lba_def put_dap_loads(5,6) by (rule bytes_join64)
  have r: "dap_of (lba_regs 0x10000 d) = 0x10000" for d by (simp add: dap_of_def lba_regs_def zero_regs_def drop_bit_eq_div word_unat_eq_iff unat_div unsigned_ucast_eq)
  have call: "carry (fst (?b 0x13 (lba_regs 0x10000 d) u (put_dap 0x10000 (of_nat 2) (ucast (drop_bit 4 (0x10000 + 16 :: u32))) l m))) \<longleftrightarrow> l = 9" for d u l m
  proof -
    have "ucast (drop_bit 4 (0x10000 + 16 :: u32)) = (0x1001 :: u16)" by (simp add: drop_bit_eq_div word_unat_eq_iff unat_div unsigned_ucast_eq)
    then show ?thesis by (simp add: demo_bios_def Let_def r lba carry_def zero_regs_def)
  qed
  have m: "touch_motors (idle_bdev True fl []) \<noteq> None" for fl
    by (simp add: touch_motors_def idle_bdev_def cancel_alarm_def set_alarm_def Let_def)
  note br = demo_bios_reads [of "\<lambda>l. l = 9" demo_sector]
  obtain st' where "bdev_read_range ?b 0x10000 0x80 7 (int 2) 0x100000 (idle_bdev True False []) = Some (Inr (int 2, st'))"
    and b: "\<forall>i < 512 * 2. bram st' (0x100000 + of_nat i) = span demo_sector 7 2 ! i"
    using bdev_read_range_lba [OF br _ m [of False] p(2,1), where n = 2 and buf = "0x100000" and bd = "0x80" and lba = 7 and err = False] call by (auto simp: idle_bdev_def)
  moreover have "bram st' 0x100000 = 7" using spec [OF b, of 0] by (simp add: demo_span)
  moreover obtain st'' where "bdev_read_range ?b 0x10000 0 9 (int 2) 0x100000 (idle_bdev True True []) = Some (Inr (-1, st''))"
    using bdev_read_range_lba [OF br _ m [of True] p(2,1), where n = 2 and buf = "0x100000" and bd = 0 and lba = 9 and err = True] call by (auto simp: idle_bdev_def)
  ultimately show ?thesis by auto
qed

end
