(* ===== verification/Calendar.thy ===== *)
theory Calendar
  imports Prelude
begin

text \<open>
  Dates (\<open>src/libc/time.c\<close>): seconds since 1970 to a date and back. \<open>asctime\<close> is in the theory \<open>Reports\<close>;
  the wrappers with a static buffer are left out. The loop over the months is \<open>None\<close> when it would
  look behind the table.
\<close>

definition MINSEC :: int where "MINSEC = 60"
definition HOURSEC :: int where "HOURSEC = 60 * MINSEC"
definition DAYSEC :: int where "DAYSEC = 24 * HOURSEC"
definition EPOCH_WDAY :: int where "EPOCH_WDAY = 4"

lemmas second_counts = MINSEC_def HOURSEC_def DAYSEC_def EPOCH_WDAY_def

record tm =
  tm_sec :: int
  tm_min :: int
  tm_hour :: int
  tm_mday :: int
  tm_mon :: int
  tm_year :: int
  tm_wday :: int
  tm_yday :: int
  tm_isdst :: int

definition is_leap_year :: "int \<Rightarrow> bool" where
  "is_leap_year yr = (if c_mod yr 400 = 0 then True else if c_mod yr 100 = 0 then False else c_mod yr 4 = 0)"

definition YEARDAYS :: "int \<Rightarrow> int" where "YEARDAYS x = (if is_leap_year x then 366 else 365)"

definition mdays :: "bool \<Rightarrow> int list" where
  "mdays leap = (if leap then [31, 29, 31, 30, 31, 30, 31, 31, 30, 31, 30, 31] else [31, 28, 31, 30, 31, 30, 31, 31, 30, 31, 30, 31])"

definition day_of_year :: "int \<Rightarrow> int \<Rightarrow> int \<Rightarrow> int option" where
  "day_of_year year mon day =
     (if 12 < mon then None else Some (fold (\<lambda>i yday. yday + mdays (is_leap_year year) ! i) [0..<nat mon] day))"

definition mktime :: "tm \<Rightarrow> (int \<times> tm) option" where
  "mktime t =
     (case day_of_year (tm_year t + 1900) (tm_mon t) (tm_mday t - 1) of
        None \<Rightarrow> None
      | Some yday \<Rightarrow>
          let num_years = tm_year t - 70;
              days = fold (\<lambda>i days. days + YEARDAYS (1970 + int i)) [0..<nat num_years] yday
          in Some (sint (word_of_int (days * DAYSEC + tm_hour t * HOURSEC + tm_min t * MINSEC + tm_sec t) :: u32),
               t\<lparr>tm_yday := yday, tm_wday := c_mod (days + EPOCH_WDAY) 7\<rparr>))"

lemma yeardays_pos: "0 < YEARDAYS y"
  by (simp add: YEARDAYS_def)

function year_loop :: "int \<Rightarrow> int \<Rightarrow> int \<times> int" where
  "year_loop year days = (if YEARDAYS year \<le> days then year_loop (year + 1) (days - YEARDAYS year) else (year, days))"
  by pat_completeness auto
termination
  by (relation "measure (\<lambda>(year, days). nat days)") (auto simp: YEARDAYS_def split: if_splits)

function month_loop :: "bool \<Rightarrow> nat \<Rightarrow> int \<Rightarrow> (nat \<times> int) option" where
  "month_loop leap mon days =
     (if 12 \<le> mon then None
      else if mdays leap ! mon \<le> days then month_loop leap (mon + 1) (days - mdays leap ! mon)
      else Some (mon, days))"
  by pat_completeness auto
termination
  by (relation "measure (\<lambda>(leap, mon, days). 12 - mon)") auto

declare year_loop.simps [simp del] month_loop.simps [simp del]

definition gmtime_r :: "int \<Rightarrow> tm \<Rightarrow> tm option" where
  "gmtime_r tp t0 = (
     let days = c_div tp DAYSEC; t = c_mod tp DAYSEC; wday = c_mod (days + EPOCH_WDAY) 7;
         (year, days) = year_loop 1970 days
     in case month_loop (is_leap_year year) 0 days of
          None \<Rightarrow> None
        | Some (mon, mday) \<Rightarrow>
            let hour = c_div t HOURSEC; t = c_mod t HOURSEC
            in Some (t0\<lparr>tm_wday := wday, tm_year := year - 1900, tm_yday := days, tm_mon := int mon, tm_mday := mday + 1,
                 tm_hour := hour, tm_min := c_div t MINSEC, tm_sec := c_mod t MINSEC\<rparr>))"

definition localtime_r :: "int \<Rightarrow> int \<Rightarrow> tm \<Rightarrow> tm option" where
  "localtime_r timezone tp t0 = gmtime_r (sint (word_of_int (tp + timezone) :: u32)) t0"

text \<open>\<open>time\<close>, from the tick count and the time read at the start.\<close>

definition time_now :: "int \<Rightarrow> u32 \<Rightarrow> int" where
  "time_now start_time nticks = sint (word_of_int start_time + nticks div 250)"

section \<open>Days and dates\<close>

definition days_before_year :: "nat \<Rightarrow> int" where "days_before_year k = (\<Sum>i<k. YEARDAYS (1970 + int i))"

definition days_before_month :: "bool \<Rightarrow> nat \<Rightarrow> int" where "days_before_month leap m = (\<Sum>i<m. mdays leap ! i)"

lemma fold_sum: "fold (\<lambda>i (s :: int). s + f i) [0..<n] s = s + (\<Sum>i<n. f i)"
  by (induction n) simp_all

lemma year_loop_steps:
  assumes "0 \<le> r" "r < YEARDAYS (y + int k)"
  shows "year_loop y ((\<Sum>i<k. YEARDAYS (y + int i)) + r) = (y + int k, r)"
  using assms
proof (induction k arbitrary: y)
  case 0
  then show ?case by (subst year_loop.simps) simp
next
  case (Suc k)
  have split: "(\<Sum>i<Suc k. YEARDAYS (y + int i)) = YEARDAYS y + (\<Sum>i<k. YEARDAYS (y + 1 + int i))"
    by (simp only: sum.lessThan_Suc_shift) (simp add: algebra_simps)
  have "0 \<le> (\<Sum>i<k. YEARDAYS (y + 1 + int i))" by (intro sum_nonneg less_imp_le yeardays_pos)
  then show ?case unfolding split using Suc.IH [of "y + 1"] Suc.prems
    by (subst year_loop.simps) (simp add: algebra_simps)
qed

lemma year_exists:
  assumes "0 \<le> d"
  shows "\<exists>k r. d = days_before_year k + r \<and> 0 \<le> r \<and> r < YEARDAYS (1970 + int k)"
proof -
  have le: "int k \<le> days_before_year k" for k
    unfolding days_before_year_def
  proof (induction k)
    case (Suc k)
    then show ?case using yeardays_pos [of "1970 + int k"] by simp
  qed simp
  define k where "k = (LEAST k. d < days_before_year (Suc k))"
  have "d < days_before_year (Suc (nat d))" using le [of "Suc (nat d)"] assms by simp
  then have k: "d < days_before_year (Suc k)" unfolding k_def by (rule LeastI)
  have "days_before_year k \<le> d"
  proof (cases k)
    case 0
    then show ?thesis using assms by (simp add: days_before_year_def)
  next
    case (Suc j)
    then have "\<not> d < days_before_year (Suc j)" using not_less_Least [of j "\<lambda>k. d < days_before_year (Suc k)"] k_def by simp
    then show ?thesis using Suc by simp
  qed
  then show ?thesis using k by (intro exI [of _ k] exI [of _ "d - days_before_year k"]) (simp add: days_before_year_def)
qed

lemma month_loop_steps:
  assumes "0 \<le> r" "m + k < 12" "r < mdays leap ! (m + k)"
  shows "month_loop leap m ((\<Sum>i<k. mdays leap ! (m + i)) + r) = Some (m + k, r)"
  using assms
proof (induction k arbitrary: m)
  case 0
  then show ?case by (subst month_loop.simps) simp
next
  case (Suc k)
  have split: "(\<Sum>i<Suc k. mdays leap ! (m + i)) = mdays leap ! m + (\<Sum>i<k. mdays leap ! (Suc m + i))"
    by (simp only: sum.lessThan_Suc_shift) simp
  have "0 \<le> mdays leap ! j" if "j < 12" for j
    using that by (simp add: mdays_def less_Suc_eq numeral_eq_Suc) (elim disjE; simp)
  then have "0 \<le> (\<Sum>i<k. mdays leap ! (Suc m + i))" using Suc.prems(2) by (intro sum_nonneg) simp
  then show ?case unfolding split using Suc.IH [of "Suc m"] Suc.prems
    by (subst month_loop.simps) simp
qed

lemma prefix_sum_exists:
  fixes f :: "nat \<Rightarrow> int"
  assumes "0 \<le> r" "r < (\<Sum>i<n. f i)"
  shows "\<exists>m < n. (\<Sum>i<m. f i) \<le> r \<and> r < (\<Sum>i<Suc m. f i)"
  using assms
proof (induction n)
  case (Suc n)
  show ?case
  proof (cases "r < (\<Sum>i<n. f i)")
    case True
    then show ?thesis using Suc.IH Suc.prems(1) less_SucI by blast
  next
    case False
    then show ?thesis using Suc.prems(2) by (intro exI [of _ n]) simp
  qed
qed simp

lemma mdays_sum: "(\<Sum>i<12. mdays leap ! i) = (if leap then 366 else 365)"
  by (simp add: mdays_def numeral_eq_Suc)

lemma month_exists:
  assumes "0 \<le> r" "r < (if leap then 366 else 365)"
  shows "\<exists>m e. r = days_before_month leap m + e \<and> m < 12 \<and> 0 \<le> e \<and> e < mdays leap ! m"
proof -
  obtain m where "m < 12" "(\<Sum>i<m. mdays leap ! i) \<le> r" "r < (\<Sum>i<Suc m. mdays leap ! i)"
    using prefix_sum_exists [of r "\<lambda>i. mdays leap ! i" 12] assms unfolding mdays_sum by blast
  then show ?thesis by (intro exI [of _ m] exI [of _ "r - days_before_month leap m"]) (simp add: days_before_month_def)
qed

section \<open>There and back\<close>

text \<open>A date from 1970 on, and the seconds up to it.\<close>

definition valid_tm :: "tm \<Rightarrow> bool" where
  "valid_tm t \<longleftrightarrow> 70 \<le> tm_year t \<and> 0 \<le> tm_mon t \<and> tm_mon t < 12
     \<and> 1 \<le> tm_mday t \<and> tm_mday t \<le> mdays (is_leap_year (tm_year t + 1900)) ! nat (tm_mon t)
     \<and> 0 \<le> tm_hour t \<and> tm_hour t < 24 \<and> 0 \<le> tm_min t \<and> tm_min t < 60 \<and> 0 \<le> tm_sec t \<and> tm_sec t < 60"

definition yday_of :: "tm \<Rightarrow> int" where
  "yday_of t = days_before_month (is_leap_year (tm_year t + 1900)) (nat (tm_mon t)) + (tm_mday t - 1)"

definition days_of :: "tm \<Rightarrow> int" where "days_of t = days_before_year (nat (tm_year t - 70)) + yday_of t"

definition seconds_of :: "tm \<Rightarrow> int" where
  "seconds_of t = days_of t * DAYSEC + tm_hour t * HOURSEC + tm_min t * MINSEC + tm_sec t"

definition completed :: "tm \<Rightarrow> tm" where "completed t = t\<lparr>tm_yday := yday_of t, tm_wday := (days_of t + EPOCH_WDAY) mod 7\<rparr>"

lemma mdays_nonneg: "0 \<le> mdays leap ! j" if "j < 12"
  using that by (simp add: mdays_def less_Suc_eq numeral_eq_Suc) (elim disjE; simp)

lemma yday_bounds:
  assumes "valid_tm t"
  shows "0 \<le> yday_of t" "yday_of t < YEARDAYS (tm_year t + 1900)"
proof -
  let ?l = "is_leap_year (tm_year t + 1900)" and ?m = "nat (tm_mon t)"
  have m: "?m < 12" and d: "1 \<le> tm_mday t" "tm_mday t \<le> mdays ?l ! ?m" using assms by (auto simp: valid_tm_def)
  have pos: "0 \<le> (\<Sum>i<?m. mdays ?l ! i)" using m by (intro sum_nonneg mdays_nonneg) simp
  then show "0 \<le> yday_of t" using d by (simp add: yday_of_def days_before_month_def)
  have "(\<Sum>i<Suc ?m. mdays ?l ! i) \<le> (\<Sum>i<12. mdays ?l ! i)"
    using m by (intro sum_mono2) (auto intro: mdays_nonneg)
  then show "yday_of t < YEARDAYS (tm_year t + 1900)"
    using d unfolding mdays_sum by (simp add: yday_of_def days_before_month_def YEARDAYS_def)
qed

lemma days_nonneg: "valid_tm t \<Longrightarrow> 0 \<le> days_of t"
  using yday_bounds [of t] sum_nonneg [of "{..<nat (tm_year t - 70)}" "\<lambda>i. YEARDAYS (1970 + int i)"] yeardays_pos
  by (simp add: days_of_def days_before_year_def less_imp_le)

lemma mktime_valid:
  assumes "valid_tm t" "seconds_of t < 2 ^ 31"
  shows "mktime t = Some (seconds_of t, completed t)"
proof -
  have y: "day_of_year (tm_year t + 1900) (tm_mon t) (tm_mday t - 1) = Some (yday_of t)"
    using assms(1) by (simp add: day_of_year_def fold_sum yday_of_def days_before_month_def valid_tm_def)
  have d: "fold (\<lambda>i days. days + YEARDAYS (1970 + int i)) [0..<nat (tm_year t - 70)] (yday_of t) = days_of t"
    by (simp add: fold_sum days_of_def days_before_year_def)
  note dn = days_nonneg [OF assms(1)]
  have "0 \<le> seconds_of t" using assms(1) dn by (simp add: seconds_of_def second_counts valid_tm_def)
  then have "sint (word_of_int (seconds_of t) :: u32) = seconds_of t" using assms(2) by (intro sint_u32_small) simp_all
  then show ?thesis using dn unfolding mktime_def y option.case Let_def d seconds_of_def [symmetric]
    by (simp add: completed_def second_counts)
qed

lemma gmtime_valid:
  assumes "valid_tm t"
  shows "gmtime_r (seconds_of t) t0 = Some ((completed t)\<lparr>tm_isdst := tm_isdst t0\<rparr>)"
proof -
  let ?y = "tm_year t + 1900" and ?rest = "tm_hour t * HOURSEC + tm_min t * MINSEC + tm_sec t"
  note dn = days_nonneg [OF assms] and yb = yday_bounds [OF assms]
  have v: "0 \<le> tm_hour t" "tm_hour t < 24" "0 \<le> tm_min t" "tm_min t < 60" "0 \<le> tm_sec t" "tm_sec t < 60" "70 \<le> tm_year t"
    "nat (tm_mon t) < 12" "0 \<le> tm_mon t" "1 \<le> tm_mday t" "tm_mday t - 1 < mdays (is_leap_year ?y) ! nat (tm_mon t)"
    using assms by (auto simp: valid_tm_def)
  have rest: "0 \<le> ?rest" "?rest < DAYSEC" using v by (simp_all add: second_counts)
  have s: "seconds_of t = days_of t * DAYSEC + ?rest" by (simp add: seconds_of_def)
  have sec: "c_div (seconds_of t) DAYSEC = days_of t" "c_mod (seconds_of t) DAYSEC = ?rest"
    using rest dn unfolding s by (simp_all add: second_counts)
  have "(h * n + r) mod n = r" if "0 \<le> r" "r < n" for h n r :: int using that by simp
  from this [of "tm_min t * 60 + tm_sec t" 3600 "tm_hour t"]
  have hm: "(tm_hour t * 3600 + (tm_min t * 60 + tm_sec t)) mod 3600 = tm_min t * 60 + tm_sec t" using v by simp
  have tod: "c_div ?rest HOURSEC = tm_hour t" "c_mod ?rest HOURSEC = tm_min t * MINSEC + tm_sec t"
    "c_div (tm_min t * MINSEC + tm_sec t) MINSEC = tm_min t" "c_mod (tm_min t * MINSEC + tm_sec t) MINSEC = tm_sec t"
    using v hm by (simp_all add: second_counts add.assoc)
  have "year_loop 1970 (days_of t) = (?y, yday_of t)"
    using year_loop_steps [of "yday_of t" 1970 "nat (tm_year t - 70)"] yb v(7) by (simp add: days_of_def days_before_year_def add.commute [of 1900])
  moreover have "month_loop (is_leap_year ?y) 0 (yday_of t) = Some (nat (tm_mon t), tm_mday t - 1)"
    using month_loop_steps [of "tm_mday t - 1" 0 "nat (tm_mon t)" "is_leap_year ?y"] v(8,10,11)
    by (simp add: yday_of_def days_before_month_def)
  ultimately show ?thesis
    using dn v(9) unfolding gmtime_r_def Let_def sec tod by (simp add: completed_def second_counts)
qed

text \<open>For a date from 1970 up to the end of 32-bit time, \<open>mktime\<close> gives a time that \<open>gmtime_r\<close> turns
  back into the date, with the day of the year and of the week that \<open>mktime\<close> has entered.\<close>

theorem mktime_gmtime:
  assumes "valid_tm t" "seconds_of t < 2 ^ 31"
  shows "\<exists>c t'. mktime t = Some (c, t') \<and> gmtime_r c t = Some t'"
  using mktime_valid [OF assms] gmtime_valid [OF assms(1), of t] by (simp add: completed_def)

definition demo_tm :: tm where
  "demo_tm = \<lparr>tm_sec = 30, tm_min = 45, tm_hour = 13, tm_mday = 29, tm_mon = 1, tm_year = 100, tm_wday = 0, tm_yday = 0, tm_isdst = 0\<rparr>"

lemma demo_years: "days_before_year 30 = 10957"
  unfolding days_before_year_def by (simp add: numeral_eq_Suc YEARDAYS_def is_leap_year_def)

lemma leap_2000: "is_leap_year 2000"
  by (simp add: is_leap_year_def)

lemma demo_tm_valid: "valid_tm demo_tm" "seconds_of demo_tm = 951831930"
  using demo_years by (simp_all add: valid_tm_def demo_tm_def leap_2000 mdays_def seconds_of_def days_of_def yday_of_def
      days_before_month_def second_counts numeral_2_eq_2)

lemma mktime_gmtime_witness: "\<exists>c t'. mktime demo_tm = Some (c, t') \<and> gmtime_r c demo_tm = Some t'"
  using mktime_gmtime [of demo_tm] demo_tm_valid by simp

text \<open>Every time is the time of a date.\<close>

lemma seconds_exists:
  assumes "0 \<le> c"
  shows "\<exists>t. valid_tm t \<and> seconds_of t = c"
proof -
  define d s where "d = c div DAYSEC" and "s = c mod DAYSEC"
  have d: "0 \<le> d" using assms by (simp add: d_def second_counts pos_imp_zdiv_nonneg_iff)
  have s: "0 \<le> s" "s < DAYSEC" by (simp_all add: s_def second_counts)
  obtain k r where k: "d = days_before_year k + r" "0 \<le> r" "r < YEARDAYS (1970 + int k)" using year_exists [OF d] by blast
  obtain m e where m: "r = days_before_month (is_leap_year (1970 + int k)) m + e" "m < 12" "0 \<le> e" "e < mdays (is_leap_year (1970 + int k)) ! m"
    using month_exists [OF k(2)] k(3) unfolding YEARDAYS_def by blast
  let ?t = "demo_tm\<lparr>tm_year := 70 + int k, tm_mon := int m, tm_mday := e + 1, tm_hour := s div HOURSEC,
    tm_min := s mod HOURSEC div MINSEC, tm_sec := s mod HOURSEC mod MINSEC\<rparr>"
  have y: "tm_year ?t + 1900 = 1970 + int k" "nat (tm_year ?t - 70) = k" "nat (tm_mon ?t) = m" by simp_all
  have h: "0 \<le> s div HOURSEC" "s div HOURSEC < 24" "0 \<le> s mod HOURSEC div MINSEC" "s mod HOURSEC div MINSEC < 60"
    "0 \<le> s mod HOURSEC mod MINSEC" "s mod HOURSEC mod MINSEC < 60"
    using s by (simp_all add: second_counts pos_imp_zdiv_nonneg_iff div_less_iff_less_mult)
  have "valid_tm ?t" unfolding valid_tm_def y using m h by simp
  moreover have "days_of ?t = d" unfolding days_of_def yday_of_def y using k m by simp
  then have "seconds_of ?t = d * DAYSEC + (s div HOURSEC * HOURSEC + (s mod HOURSEC div MINSEC * MINSEC + s mod HOURSEC mod MINSEC))"
    by (simp add: seconds_of_def)
  then have "seconds_of ?t = c" unfolding div_mult_mod_eq d_def s_def .
  ultimately show ?thesis by blast
qed

text \<open>C25: every time from 1970 on that fits 32 bits comes back from \<open>mktime\<close> for the date that \<open>gmtime_r\<close>
  gives for it, which leaves the date as it is.\<close>

theorem gmtime_mktime:
  assumes "0 \<le> c" "c < 2 ^ 31"
  shows "\<exists>t. gmtime_r c t0 = Some t \<and> mktime t = Some (c, t)"
proof -
  obtain u where u: "valid_tm u" "seconds_of u = c" using seconds_exists [OF assms(1)] by blast
  let ?t = "(completed u)\<lparr>tm_isdst := tm_isdst t0\<rparr>"
  have g: "gmtime_r c t0 = Some ?t" using gmtime_valid [OF u(1), of t0] u(2) by simp
  have "valid_tm ?t" "seconds_of ?t = c" "completed ?t = ?t"
    using u by (simp_all add: valid_tm_def completed_def seconds_of_def days_of_def yday_of_def)
  then show ?thesis using g mktime_valid [of ?t] assms(2) by simp
qed

lemma gmtime_mktime_witness: "\<exists>t. gmtime_r 951831930 demo_tm = Some t \<and> mktime t = Some (951831930, t)"
  using gmtime_mktime [of 951831930 demo_tm] by simp

end
