(* ===== verification/Rtc.thy ===== *)
theory Rtc
  imports Hw Calendar
begin

text \<open>
  The real-time clock (\<open>src/rtc.c\<close>): reading its registers, which hold binary or decimal digits and hours
  up to 12 or 24, and the time the system starts with. Messages are left out.
\<close>

definition PORT_CTL :: u16 where "PORT_CTL = 0x70"
definition PORT_DATA :: u16 where "PORT_DATA = 0x71"
definition REG_SEC :: u8 where "REG_SEC = 0"
definition REG_MIN :: u8 where "REG_MIN = 2"
definition REG_HOUR :: u8 where "REG_HOUR = 4"
definition REG_DAY :: u8 where "REG_DAY = 7"
definition REG_MONTH :: u8 where "REG_MONTH = 8"
definition REG_YEAR :: u8 where "REG_YEAR = 9"
definition REG_STATA :: u8 where "REG_STATA = 10"
definition REG_STATB :: u8 where "REG_STATB = 11"
definition STATA_BUSY :: int where "STATA_BUSY = push_bit 7 1"
definition STATB_24HR :: int where "STATB_24HR = push_bit 1 1"
definition STATB_BIN :: int where "STATB_BIN = push_bit 2 1"
definition HOUR_PM_BIT :: int where "HOUR_PM_BIT = push_bit 7 1"

lemmas rtc_regs = REG_SEC_def REG_MIN_def REG_HOUR_def REG_DAY_def REG_MONTH_def REG_YEAR_def REG_STATA_def REG_STATB_def
lemmas rtc_bits = STATA_BUSY_def STATB_24HR_def STATB_BIN_def HOUR_PM_BIT_def

definition BCD_TO_BIN :: "int \<Rightarrow> int" where "BCD_TO_BIN x = (drop_bit 4 x AND 0xf) * 10 + (x AND 0xf)"

definition read_reg :: "u8 \<Rightarrow> ('z machine_scheme, int) state" where
  "read_reg reg = do { outb reg PORT_CTL; iodelay; val \<leftarrow> inb PORT_DATA; iodelay; ret (uint val) }"

partial_function (option) wait_update :: "'z machine_scheme \<Rightarrow> 'z machine_scheme option" where
  "wait_update m = (if result_of (read_reg REG_STATA) m AND STATA_BUSY \<noteq> 0 then wait_update (exec (read_reg REG_STATA) m)
     else Some (exec (read_reg REG_STATA) m))"

declare wait_update.simps [code]

definition read_fields :: "tm \<Rightarrow> ('z machine_scheme, tm) state" where
  "read_fields t = do {
     sec \<leftarrow> read_reg REG_SEC;
     min \<leftarrow> read_reg REG_MIN;
     hour \<leftarrow> read_reg REG_HOUR;
     mday \<leftarrow> read_reg REG_DAY;
     mon \<leftarrow> read_reg REG_MONTH;
     year \<leftarrow> read_reg REG_YEAR;
     ret (t\<lparr>tm_sec := sec, tm_min := min, tm_hour := hour, tm_mday := mday, tm_mon := mon, tm_year := year\<rparr>) }"

definition to_binary :: "int \<Rightarrow> tm \<Rightarrow> tm" where
  "to_binary statb t = (if statb AND STATB_BIN = 0 then
       t\<lparr>tm_sec := BCD_TO_BIN (tm_sec t), tm_min := BCD_TO_BIN (tm_min t), tm_hour := BCD_TO_BIN (tm_hour t),
         tm_mday := BCD_TO_BIN (tm_mday t), tm_mon := BCD_TO_BIN (tm_mon t), tm_year := BCD_TO_BIN (tm_year t)\<rparr>
     else t)"

definition to_24h :: "int \<Rightarrow> bool \<Rightarrow> tm \<Rightarrow> tm" where
  "to_24h statb pm t = (if statb AND STATB_24HR = 0 then
       let t = (if tm_hour t = 12 then t\<lparr>tm_hour := 0\<rparr> else t)
       in if pm then t\<lparr>tm_hour := tm_hour t + 12\<rparr> else t
     else t)"

text \<open>What \<open>read_rtc\<close> does with the fields it has read, and with the status register read after them.\<close>

definition rtc_convert :: "int \<Rightarrow> tm \<Rightarrow> tm" where
  "rtc_convert statb t = (
     let pm = (tm_hour t AND HOUR_PM_BIT \<noteq> 0);
         t = to_binary statb (t\<lparr>tm_hour := tm_hour t AND NOT HOUR_PM_BIT\<rparr>);
         t = (if tm_year t < 100 then t\<lparr>tm_year := tm_year t + 100\<rparr> else t\<lparr>tm_year := tm_year t - 1900\<rparr>);
         t = to_24h statb pm t
     in t\<lparr>tm_mon := tm_mon t - 1\<rparr>)"

definition read_rtc :: "tm \<Rightarrow> 'z machine_scheme \<Rightarrow> (tm \<times> 'z machine_scheme) option" where
  "read_rtc t0 m =
     (case wait_update m of
        None \<Rightarrow> None
      | Some m \<Rightarrow>
          let t = result_of (read_fields t0) m; m = exec (read_fields t0) m;
              statb = result_of (read_reg REG_STATB) m; m = exec (read_reg REG_STATB) m
          in Some (rtc_convert statb t, m))"

text \<open>The time the system starts with; \<open>t0\<close> is what the uninitialised \<open>struct tm\<close> holds.\<close>

definition init_rtc :: "tm \<Rightarrow> 'z machine_scheme \<Rightarrow> (int \<times> 'z machine_scheme) option" where
  "init_rtc t0 m = Option.bind (read_rtc t0 m) (\<lambda>(t, m). map_option (\<lambda>(c, t). (c, m)) (mktime t))"

section \<open>A clock\<close>

text \<open>A clock that does not advance while it is read: each read of the data port gives the register that
  was selected. In decimal, each half of a byte is a digit; up to 12, the top bit is for the afternoon.\<close>

definition clock_shows :: "(u8 \<Rightarrow> int) \<Rightarrow> 'z machine_scheme \<Rightarrow> bool" where
  "clock_shows regs m \<longleftrightarrow> (\<forall>r l. uint (dev8 m (Out8 0x80 0 # Out8 PORT_CTL r # l) PORT_DATA) = regs r)"

definition encode :: "bool \<Rightarrow> int \<Rightarrow> int" where "encode binary x = (if binary then x else x div 10 * 16 + x mod 10)"

definition encode_hour :: "bool \<Rightarrow> bool \<Rightarrow> int \<Rightarrow> int" where
  "encode_hour binary h24 h = (if h24 then encode binary h
     else encode binary (if h mod 12 = 0 then 12 else h mod 12) + (if 12 \<le> h then 128 else 0))"

definition clock_regs :: "bool \<Rightarrow> bool \<Rightarrow> tm \<Rightarrow> u8 \<Rightarrow> int" where
  "clock_regs binary h24 t r =
     (if r = REG_SEC then encode binary (tm_sec t) else if r = REG_MIN then encode binary (tm_min t)
      else if r = REG_HOUR then encode_hour binary h24 (tm_hour t) else if r = REG_DAY then encode binary (tm_mday t)
      else if r = REG_MONTH then encode binary (tm_mon t + 1) else if r = REG_YEAR then encode binary (tm_year t mod 100)
      else if r = REG_STATA then 0x26
      else if r = REG_STATB then (if binary then 4 else 0) + (if h24 then 2 else 0)
      else 0)"

lemma read_reg_exec: "exec (read_reg r) m = logs [Out8 0x80 0, In8 PORT_DATA, Out8 0x80 0, Out8 PORT_CTL r] m"
  by (simp add: read_reg_def run_simps)

lemma read_reg_clock:
  assumes "clock_shows regs m"
  shows "result_of (read_reg r) (logs es m) = regs r" "result_of (read_reg r) m = regs r"
  using assms by (simp_all add: read_reg_def run_simps clock_shows_def)

lemma bcd_encode:
  assumes "0 \<le> x" "x < 100"
  shows "BCD_TO_BIN (encode False x) = x"
proof -
  have "x div 10 < 10" "0 \<le> x div 10" "0 \<le> x mod 10" "x mod 10 < 10" using assms by simp_all
  then have q: "(x div 10 * 16 + x mod 10) div 16 = x div 10" "(x div 10 * 16 + x mod 10) mod 16 = x mod 10" "x div 10 mod 16 = x div 10"
    by simp_all
  have "BCD_TO_BIN (encode False x) = x div 10 * 10 + x mod 10"
    using int_and_mask [of "drop_bit 4 (x div 10 * 16 + x mod 10)" 4] int_and_mask [of "x div 10 * 16 + x mod 10" 4] q
    by (simp add: BCD_TO_BIN_def encode_def drop_bit_eq_div)
  then show ?thesis by simp
qed

lemma hour_decode:
  assumes "0 \<le> h" "h < 24"
  shows "let e = encode_hour binary h24 h; f = e AND NOT HOUR_PM_BIT; g = (if binary then f else BCD_TO_BIN f)
    in (if h24 then g else (if g = 12 then 0 else g) + (if e AND HOUR_PM_BIT \<noteq> 0 then 12 else 0)) = h"
proof -
  have "h \<in> set [0..23]" using assms by simp
  also have "[0..23] = [0, 1, 2, 3, 4, 5, 6, 7, 8, 9, 10, 11, 12, 13, 14, 15, 16, 17, 18, 19, 20, 21, 22, 23 :: int]"
    by (simp add: upto_rec1)
  finally show ?thesis
    unfolding encode_hour_def encode_def BCD_TO_BIN_def HOUR_PM_BIT_def Let_def set_simps
    by (elim insertE emptyE; cases binary; cases h24; simp)
qed

definition rtc_date :: "tm \<Rightarrow> bool" where
  "rtc_date t \<longleftrightarrow> valid_tm t \<and> 100 \<le> tm_year t \<and> tm_year t < 200"

lemma read_fields_clock:
  assumes "clock_shows regs m"
  shows "result_of (read_fields t0) (logs es m) = t0\<lparr>tm_sec := regs REG_SEC, tm_min := regs REG_MIN, tm_hour := regs REG_HOUR,
      tm_mday := regs REG_DAY, tm_mon := regs REG_MONTH, tm_year := regs REG_YEAR\<rparr>"
    "\<exists>fs. exec (read_fields t0) (logs es m) = logs fs m"
  by (simp_all add: read_fields_def run_simps read_reg_exec read_reg_clock [OF assms] exI)

lemma encode_range: "0 \<le> x \<Longrightarrow> x < 100 \<Longrightarrow> (if binary then encode binary x else BCD_TO_BIN (encode binary x)) = x"
  using bcd_encode by (cases binary) (simp_all add: encode_def)

lemma mdays_le: "j < 12 \<Longrightarrow> mdays leap ! j \<le> 31"
  by (simp add: mdays_def less_Suc_eq numeral_eq_Suc) (elim disjE; simp)

lemma to_24h_hour: "to_24h statb pm x = x\<lparr>tm_hour := (if statb AND STATB_24HR = 0
    then (if tm_hour x = 12 then 0 else tm_hour x) + (if pm then 12 else 0) else tm_hour x)\<rparr>"
  by (cases x) (simp add: to_24h_def Let_def)

text \<open>Reading the clock gives the date it shows, in each of the four formats.\<close>

lemma read_rtc_clock:
  assumes "rtc_date t" "clock_shows (clock_regs binary h24 t) m"
  shows "\<exists>es. read_rtc t0 m = Some (t\<lparr>tm_wday := tm_wday t0, tm_yday := tm_yday t0, tm_isdst := tm_isdst t0\<rparr>, logs es m)"
proof -
  let ?regs = "clock_regs binary h24 t"
  have v: "0 \<le> tm_sec t" "tm_sec t < 60" "0 \<le> tm_min t" "tm_min t < 60" "0 \<le> tm_hour t" "tm_hour t < 24" "1 \<le> tm_mday t"
    "tm_mday t \<le> mdays (is_leap_year (tm_year t + 1900)) ! nat (tm_mon t)"
    "0 \<le> tm_mon t" "tm_mon t < 12" "100 \<le> tm_year t" "tm_year t < 200"
    using assms(1) by (auto simp: rtc_date_def valid_tm_def)
  have "nat (tm_mon t) < 12" using v(9,10) by linarith
  from mdays_le [OF this] v(8) have v31: "tm_mday t \<le> 31" by (rule order_trans [rotated])
  have r: "?regs REG_SEC = encode binary (tm_sec t)" "?regs REG_MIN = encode binary (tm_min t)" "?regs REG_HOUR = encode_hour binary h24 (tm_hour t)"
    "?regs REG_DAY = encode binary (tm_mday t)" "?regs REG_MONTH = encode binary (tm_mon t + 1)" "?regs REG_YEAR = encode binary (tm_year t mod 100)"
    "?regs REG_STATA = 0x26" "?regs REG_STATB = (if binary then 4 else 0) + (if h24 then 2 else 0)"
    by (simp_all add: clock_regs_def rtc_regs)
  have b: "(?regs REG_STATB AND STATB_BIN = 0) = (\<not> binary)" "(?regs REG_STATB AND STATB_24HR = 0) = (\<not> h24)"
    unfolding r rtc_bits by (cases binary; cases h24; simp)+
  have y: "tm_year t mod 100 = tm_year t - 100"
  proof -
    have "(tm_year t - 100 + 100) mod 100 = (tm_year t - 100) mod 100" by (rule mod_add_self2)
    also have "\<dots> = tm_year t - 100" using v(11,12) by (intro mod_pos_pos_trivial) simp_all
    finally show ?thesis by simp
  qed
  define e where "e = ?regs REG_HOUR"
  define g where "g = (if binary then e AND NOT HOUR_PM_BIT else BCD_TO_BIN (e AND NOT HOUR_PM_BIT))"
  have h: "(if h24 then g else (if g = 12 then 0 else g) + (if e AND HOUR_PM_BIT \<noteq> 0 then 12 else 0)) = tm_hour t"
    using hour_decode [OF v(5,6), of binary h24] unfolding e_def g_def r Let_def .
  have dec: "(if binary then ?regs REG_SEC else BCD_TO_BIN (?regs REG_SEC)) = tm_sec t"
    "(if binary then ?regs REG_MIN else BCD_TO_BIN (?regs REG_MIN)) = tm_min t"
    "(if binary then ?regs REG_DAY else BCD_TO_BIN (?regs REG_DAY)) = tm_mday t"
    "(if binary then ?regs REG_MONTH else BCD_TO_BIN (?regs REG_MONTH)) = tm_mon t + 1"
    "(if binary then ?regs REG_YEAR else BCD_TO_BIN (?regs REG_YEAR)) = tm_year t - 100"
    unfolding r y using v(1-4,7,9-12) v31 by (simp_all add: encode_range)
  let ?raw = "t0\<lparr>tm_sec := ?regs REG_SEC, tm_min := ?regs REG_MIN, tm_hour := e,
      tm_mday := ?regs REG_DAY, tm_mon := ?regs REG_MONTH, tm_year := ?regs REG_YEAR\<rparr>"
  let ?bin = "t0\<lparr>tm_sec := tm_sec t, tm_min := tm_min t, tm_hour := g, tm_mday := tm_mday t, tm_mon := tm_mon t + 1, tm_year := tm_year t - 100\<rparr>"
  have bin: "to_binary (?regs REG_STATB) (?raw\<lparr>tm_hour := e AND NOT HOUR_PM_BIT\<rparr>) = ?bin"
    using dec unfolding to_binary_def b g_def by (cases binary) simp_all
  let ?x = "?bin\<lparr>tm_year := tm_year t\<rparr>"
  have x: "tm_hour ?x = g" by simp
  have h': "(if \<not> h24 then (if g = 12 then 0 else g) + (if e AND HOUR_PM_BIT \<noteq> 0 then 12 else 0) else g) = tm_hour t"
    using h by (simp only: if_not_P if_P split: if_splits) blast+
  have h24: "to_24h (?regs REG_STATB) (e AND HOUR_PM_BIT \<noteq> 0) ?x = ?x\<lparr>tm_hour := tm_hour t\<rparr>"
    unfolding to_24h_hour b x h' ..
  have "rtc_convert (?regs REG_STATB) ?raw = t\<lparr>tm_wday := tm_wday t0, tm_yday := tm_yday t0, tm_isdst := tm_isdst t0\<rparr>"
    using bin h24 v(12) by (simp add: rtc_convert_def Let_def)
  moreover have w: "wait_update m = Some (logs [Out8 0x80 0, In8 PORT_DATA, Out8 0x80 0, Out8 PORT_CTL REG_STATA] m)"
    using read_reg_clock [OF assms(2)] r(7) by (subst wait_update.simps) (simp add: read_reg_exec STATA_BUSY_def)
  moreover obtain fs where fs: "exec (read_fields t0) (logs [Out8 0x80 0, In8 PORT_DATA, Out8 0x80 0, Out8 PORT_CTL REG_STATA] m) = logs fs m"
    using read_fields_clock(2) [OF assms(2)] by blast
  ultimately show ?thesis
    by (simp add: read_rtc_def read_fields_clock(1) [OF assms(2)] read_reg_clock [OF assms(2)] read_reg_exec fs exI e_def)
qed

lemma fields_only:
  "valid_tm (t\<lparr>tm_wday := a, tm_yday := b, tm_isdst := c\<rparr>) = valid_tm t"
  "seconds_of (t\<lparr>tm_wday := a, tm_yday := b, tm_isdst := c\<rparr>) = seconds_of t"
  by (simp_all add: valid_tm_def seconds_of_def days_of_def yday_of_def)

text \<open>C36: whichever format the clock of the machine uses, the system starts with a time whose date is the
  one the clock shows.\<close>

theorem init_rtc_date:
  assumes "rtc_date t" "clock_shows (clock_regs binary h24 t) m" "seconds_of t < 2 ^ 31"
  shows "\<exists>c m' u'. init_rtc t0 m = Some (c, m') \<and> gmtime_r c u = Some u' \<and> tm_year u' = tm_year t \<and> tm_mon u' = tm_mon t
    \<and> tm_mday u' = tm_mday t \<and> tm_hour u' = tm_hour t \<and> tm_min u' = tm_min t \<and> tm_sec u' = tm_sec t"
proof -
  obtain es where r: "read_rtc t0 m = Some (t\<lparr>tm_wday := tm_wday t0, tm_yday := tm_yday t0, tm_isdst := tm_isdst t0\<rparr>, logs es m)"
    using read_rtc_clock [OF assms(1,2), of t0] by blast
  have v: "valid_tm t" using assms(1) by (simp add: rtc_date_def)
  have "mktime (t\<lparr>tm_wday := tm_wday t0, tm_yday := tm_yday t0, tm_isdst := tm_isdst t0\<rparr>)
      = Some (seconds_of t, completed (t\<lparr>tm_wday := tm_wday t0, tm_yday := tm_yday t0, tm_isdst := tm_isdst t0\<rparr>))"
    using mktime_valid [of "t\<lparr>tm_wday := tm_wday t0, tm_yday := tm_yday t0, tm_isdst := tm_isdst t0\<rparr>"] v assms(3)
    by (simp only: fields_only)
  then have "init_rtc t0 m = Some (seconds_of t, logs es m)" using r by (simp add: init_rtc_def)
  then show ?thesis using gmtime_valid [OF v, of u] by (simp add: completed_def)
qed

definition demo_clock :: "(u8 \<Rightarrow> int) \<Rightarrow> machine" where
  "demo_clock regs = \<lparr>io_log = [], dev8 = (\<lambda>l p. case l of Out8 _ _ # Out8 _ r # _ \<Rightarrow> word_of_int (regs r) | _ \<Rightarrow> 0),
     dev16 = (\<lambda>_ _. 0), dev32 = (\<lambda>_ _. 0), intr_on = False\<rparr>"

lemma init_rtc_date_witness:
  "\<exists>c m' u'. init_rtc demo_tm (demo_clock (clock_regs False False demo_tm)) = Some (c, m') \<and> gmtime_r c demo_tm = Some u'
    \<and> tm_year u' = 100 \<and> tm_hour u' = 13"
proof -
  have "0 \<le> clock_regs False False demo_tm r \<and> clock_regs False False demo_tm r < 256" for r
    by (simp add: clock_regs_def demo_tm_def encode_def encode_hour_def)
  then have "clock_shows (clock_regs False False demo_tm) (demo_clock (clock_regs False False demo_tm))"
    by (simp add: clock_shows_def demo_clock_def unsigned_of_int take_bit_int_eq_self)
  moreover have "rtc_date demo_tm" using demo_tm_valid by (simp add: rtc_date_def demo_tm_def)
  ultimately show ?thesis
    using init_rtc_date [of demo_tm False False "demo_clock (clock_regs False False demo_tm)" demo_tm demo_tm] demo_tm_valid(2)
    by (auto simp: demo_tm_def)
qed

end
