(* ===== verification/Segm.thy ===== *)
theory Segm
  imports Prelude
begin

text \<open>
  The global descriptor table (\<open>src/segm.c\<close>, with \<open>desc.h\<close>, \<open>segm.h\<close>, \<open>tss.h\<close>): the constructors of
  the descriptors, checked against what the processor reads from one. Loading the table and the
  task register is assembly and left out: the operations return the table they would load.
\<close>

record desc_t =
  d0 :: u16
  d1 :: u16
  d2 :: u16
  d3 :: u16

definition null_desc :: desc_t where "null_desc = \<lparr>d0 = 0, d1 = 0, d2 = 0, d3 = 0\<rparr>"

definition BIT_WR :: u32 where "BIT_WR = push_bit 9 1"
definition BIT_RD :: u32 where "BIT_RD = push_bit 9 1"
definition BIT_CODE :: u32 where "BIT_CODE = push_bit 11 1"
definition BIT_NOSYS :: u32 where "BIT_NOSYS = push_bit 12 1"
definition BIT_PRESENT :: u32 where "BIT_PRESENT = push_bit 15 1"
definition BIT_BIG :: u32 where "BIT_BIG = push_bit 6 1"
definition BIT_GRAN :: u32 where "BIT_GRAN = push_bit 7 1"
definition TSS_TYPE_BITS :: u32 where "TSS_TYPE_BITS = push_bit 8 9"

lemmas desc_bits = BIT_WR_def BIT_RD_def BIT_CODE_def BIT_NOSYS_def BIT_PRESENT_def BIT_BIG_def BIT_GRAN_def TSS_TYPE_BITS_def

datatype segm_type = TYPE_DATA | TYPE_CODE

definition SEGM_KCODE :: nat where "SEGM_KCODE = 1"
definition SEGM_KDATA :: nat where "SEGM_KDATA = 2"
definition SEGM_UCODE :: nat where "SEGM_UCODE = 3"
definition SEGM_UDATA :: nat where "SEGM_UDATA = 4"
definition SEGM_TASK :: nat where "SEGM_TASK = 5"
definition SEGM_CODE16 :: nat where "SEGM_CODE16 = 6"
definition NUM_SEGMENTS :: nat where "NUM_SEGMENTS = 7"

lemmas segm_numbers = SEGM_KCODE_def SEGM_KDATA_def SEGM_UCODE_def SEGM_UDATA_def SEGM_TASK_def SEGM_CODE16_def NUM_SEGMENTS_def

definition selector :: "nat \<Rightarrow> u16 \<Rightarrow> u16" where
  "selector idx rpl = push_bit 3 (of_nat idx) OR (rpl AND 3)"

definition segm_desc :: "u32 \<Rightarrow> u32 \<Rightarrow> u32 \<Rightarrow> segm_type \<Rightarrow> desc_t" where
  "segm_desc base limit dpl type =
     \<lparr>d0 = ucast (limit AND 0xffff), d1 = ucast (base AND 0xffff),
      d2 = ucast ((drop_bit 16 base AND 0xff) OR push_bit 13 (dpl AND 3) OR BIT_PRESENT OR BIT_NOSYS OR
             (if type = TYPE_DATA then BIT_WR else BIT_RD OR BIT_CODE)),
      d3 = ucast ((drop_bit 16 limit AND 0xf) OR (drop_bit 16 base AND 0xff00) OR BIT_GRAN OR BIT_BIG)\<rparr>"

definition segm_desc16 :: "u32 \<Rightarrow> u32 \<Rightarrow> u32 \<Rightarrow> segm_type \<Rightarrow> desc_t" where
  "segm_desc16 base limit dpl type =
     \<lparr>d0 = ucast (limit AND 0xffff), d1 = ucast (base AND 0xffff),
      d2 = ucast ((drop_bit 16 base AND 0xff) OR push_bit 13 (dpl AND 3) OR BIT_PRESENT OR BIT_NOSYS OR
             (if type = TYPE_DATA then BIT_WR else BIT_RD OR BIT_CODE)),
      d3 = 0\<rparr>"

definition task_desc :: "u32 \<Rightarrow> u32 \<Rightarrow> u32 \<Rightarrow> desc_t" where
  "task_desc base limit dpl =
     \<lparr>d0 = ucast (limit AND 0xffff), d1 = ucast (base AND 0xffff),
      d2 = ucast ((drop_bit 16 base AND 0xff) OR push_bit 13 (dpl AND 3) OR BIT_PRESENT OR TSS_TYPE_BITS),
      d3 = ucast ((drop_bit 16 limit AND 0xf) OR (drop_bit 16 base AND 0xff00) OR BIT_GRAN)\<rparr>"

text \<open>The table after \<open>init_segm\<close>, which zeroes it first.\<close>

definition init_segm :: "desc_t list" where
  "init_segm = (replicate NUM_SEGMENTS null_desc)
     [SEGM_KCODE := segm_desc 0 0xffffffff 0 TYPE_CODE,
      SEGM_KDATA := segm_desc 0 0xffffffff 0 TYPE_DATA,
      SEGM_UCODE := segm_desc 0 0xffffffff 3 TYPE_CODE,
      SEGM_UDATA := segm_desc 0 0xffffffff 3 TYPE_DATA,
      SEGM_CODE16 := segm_desc16 0 0xffff 0 TYPE_CODE]"

text \<open>\<open>struct task_state\<close> is 25 words and two half-words.\<close>

definition sizeof_task_state :: u32 where "sizeof_task_state = 25 * 4 + 2 * 2"

definition set_tss :: "u32 \<Rightarrow> desc_t list \<Rightarrow> desc_t list" where
  "set_tss addr gdt = gdt[SEGM_TASK := task_desc addr (sizeof_task_state - 1) 3]"

section \<open>What the processor reads\<close>

definition desc_base :: "desc_t \<Rightarrow> u32" where
  "desc_base d = ucast (d1 d) OR push_bit 16 (ucast (d2 d AND 0xff)) OR push_bit 24 (ucast (drop_bit 8 (d3 d)))"

definition desc_limit :: "desc_t \<Rightarrow> u32" where
  "desc_limit d = ucast (d0 d) OR push_bit 16 (ucast (d3 d AND 0xf))"

definition desc_dpl :: "desc_t \<Rightarrow> u16" where "desc_dpl d = drop_bit 13 (d2 d) AND 3"
definition desc_present :: "desc_t \<Rightarrow> bool" where "desc_present d \<longleftrightarrow> bit (d2 d) 15"
definition desc_user :: "desc_t \<Rightarrow> bool" where "desc_user d \<longleftrightarrow> bit (d2 d) 12"
definition desc_type :: "desc_t \<Rightarrow> u16" where "desc_type d = drop_bit 8 (d2 d) AND 0xf"
definition desc_gran :: "desc_t \<Rightarrow> bool" where "desc_gran d \<longleftrightarrow> bit (d3 d) 7"
definition desc_big :: "desc_t \<Rightarrow> bool" where "desc_big d \<longleftrightarrow> bit (d3 d) 6"

text \<open>The last byte of the segment, counted from its base: with the granularity bit the limit counts
  pages of 4096 bytes.\<close>

definition desc_last :: "desc_t \<Rightarrow> u32" where
  "desc_last d = (if desc_gran d then push_bit 12 (desc_limit d) OR 0xfff else desc_limit d)"

lemmas desc_fields = desc_base_def desc_limit_def desc_dpl_def desc_present_def desc_user_def desc_type_def desc_gran_def desc_big_def

text \<open>Masks with the bits below some number, and one byte of them.\<close>

lemma low_masks:
  "(0xffff :: u32) = mask 16" "(0xf :: u32) = mask 4" "(3 :: u32) = mask 2" "(0xff :: u32) = mask 8" "(0xff00 :: u32) = push_bit 8 (mask 8)"
  "(0xff :: u16) = mask 8" "(0xf :: u16) = mask 4" "(3 :: u16) = mask 2" "(0xfff :: u32) = mask 12" "(0xfffff :: u32) = mask 20"
  by (simp_all add: mask_eq_exp_minus_1 push_bit_eq_mult)

text \<open>The third word of a descriptor, with the type bits \<open>c\<close>, and the fourth, with the flags \<open>f\<close>.\<close>

definition access_word :: "u32 \<Rightarrow> u32 \<Rightarrow> u32 \<Rightarrow> u16" where
  "access_word base dpl c = ucast ((drop_bit 16 base AND mask 8) OR push_bit 13 (dpl AND mask 2) OR push_bit 8 c)"

definition high_word :: "u32 \<Rightarrow> u32 \<Rightarrow> u32 \<Rightarrow> u16" where
  "high_word base limit f = ucast ((drop_bit 16 limit AND mask 4) OR (drop_bit 16 base AND push_bit 8 (mask 8)) OR push_bit 4 f)"

lemma bit_access_word:
  "bit (access_word base dpl c) n \<longleftrightarrow> n < 16 \<and> (n < 8 \<and> bit base (n + 16) \<or> 13 \<le> n \<and> n < 15 \<and> bit dpl (n - 13) \<or> 8 \<le> n \<and> bit c (n - 8))"
  by (cases "n < 16") (auto simp: access_word_def bit_simps ac_simps)

lemma bit_high_word:
  "bit (high_word base limit f) n \<longleftrightarrow> n < 16 \<and> (n < 4 \<and> bit limit (n + 16) \<or> 8 \<le> n \<and> bit base (n + 16) \<or> 4 \<le> n \<and> bit f (n - 4))"
  by (cases "n < 16") (auto simp: high_word_def bit_simps ac_simps)

lemma base_low: "(ucast (ucast (base AND mask 16 :: u32) :: u16) :: u32) = take_bit 16 base"
  by (rule bit_word_eqI) (auto simp: bit_simps)

lemma base_middle: "push_bit 16 (ucast (access_word base dpl c AND mask 8)) = (push_bit 16 (take_bit 8 (drop_bit 16 base)) :: u32)"
  by (rule bit_word_eqI) (auto simp: bit_push_bit_iff bit_ucast_iff bit_and_iff bit_mask_iff bit_access_word bit_take_bit_iff bit_drop_bit_eq ac_simps)

lemma base_high:
  assumes "take_bit 4 f = f"
  shows "push_bit 24 (ucast (drop_bit 8 (high_word base limit f))) = (push_bit 24 (drop_bit 24 base) :: u32)"
proof (rule bit_word_eqI)
  fix n assume n: "n < LENGTH(32)"
  have f: "\<not> bit f m" if "4 \<le> m" for m using assms that by (metis bit_take_bit_iff not_le)
  show "bit (push_bit 24 (ucast (drop_bit 8 (high_word base limit f))) :: u32) n \<longleftrightarrow> bit (push_bit 24 (drop_bit 24 base)) n"
    using n f [of "n - 20"] by (auto simp: bit_push_bit_iff bit_ucast_iff bit_drop_bit_eq bit_high_word)
qed

lemma split_base: "take_bit 16 base OR push_bit 16 (take_bit 8 (drop_bit 16 base)) OR push_bit 24 (drop_bit 24 base) = base" for base :: u32
proof (rule bit_word_eqI)
  fix n assume n: "n < LENGTH(32)"
  show "bit (take_bit 16 base OR push_bit 16 (take_bit 8 (drop_bit 16 base)) OR push_bit 24 (drop_bit 24 base)) n \<longleftrightarrow> bit base n"
    using n by (cases "n < 16"; cases "n < 24") (auto simp: bit_or_iff bit_push_bit_iff bit_take_bit_iff bit_drop_bit_eq)
qed

lemma segm_desc_words:
  "d2 (segm_desc base limit dpl type) = access_word base dpl (if type = TYPE_DATA then 0x92 else 0x9a)"
  "d3 (segm_desc base limit dpl type) = high_word base limit 0xc"
  "d2 (task_desc base limit dpl) = access_word base dpl 0x89"
  "d3 (task_desc base limit dpl) = high_word base limit 0x8"
  by (simp_all add: segm_desc_def task_desc_def access_word_def high_word_def desc_bits low_masks or.assoc)

lemma desc_base_words:
  assumes "take_bit 4 f = f" "d1 d = ucast (base AND 0xffff)" "d2 d = access_word base dpl c" "d3 d = high_word base limit f"
  shows "desc_base d = base"
  unfolding desc_base_def assms(2-4) low_masks base_low base_middle base_high [OF assms(1)] by (rule split_base)

lemma desc_limit_words:
  assumes "d0 d = ucast (limit AND 0xffff)" "d3 d = high_word base limit f"
  shows "desc_limit d = limit AND 0xfffff"
proof (rule bit_word_eqI)
  fix n assume n: "n < LENGTH(32)"
  show "bit (desc_limit d) n \<longleftrightarrow> bit (limit AND 0xfffff) n"
    unfolding desc_limit_def assms low_masks using n
    by (cases "n < 16"; cases "n < 20") (auto simp: bit_or_iff bit_push_bit_iff bit_ucast_iff bit_and_iff bit_mask_iff bit_high_word ac_simps)
qed

lemma desc_dpl_words:
  assumes "d2 d = access_word base dpl c" "\<not> bit c 5" "\<not> bit c 6"
  shows "desc_dpl d = ucast dpl AND 3"
proof (rule bit_word_eqI)
  fix n assume n: "n < LENGTH(16)"
  have "\<not> bit c m" if "5 \<le> m" "m < 7" for m
  proof -
    have "m = 5 \<or> m = 6" using that by linarith
    then show ?thesis using assms(2,3) by auto
  qed
  from this [of "n + 5"] show "bit (desc_dpl d) n \<longleftrightarrow> bit (ucast dpl AND 3 :: u16) n"
    unfolding desc_dpl_def assms(1) low_masks using n
    by (cases "n < 2") (auto simp: bit_and_iff bit_mask_iff bit_drop_bit_eq bit_access_word bit_ucast_iff ac_simps)
qed

lemma desc_type_words:
  assumes "d2 d = access_word base dpl c"
  shows "desc_type d = ucast c AND 0xf"
proof (rule bit_word_eqI)
  fix n assume n: "n < LENGTH(16)"
  show "bit (desc_type d) n \<longleftrightarrow> bit (ucast c AND 0xf :: u16) n"
    unfolding desc_type_def assms low_masks using n
    by (cases "n < 4") (auto simp: bit_and_iff bit_mask_iff bit_drop_bit_eq bit_access_word bit_ucast_iff ac_simps)
qed

lemma segm_desc_roundtrip':
  "desc_base (segm_desc base limit dpl type) = base \<and> desc_limit (segm_desc base limit dpl type) = limit AND 0xfffff
    \<and> desc_dpl (segm_desc base limit dpl type) = ucast dpl AND 3 \<and> desc_type (segm_desc base limit dpl type) = (if type = TYPE_DATA then 2 else 10)
    \<and> desc_present (segm_desc base limit dpl type) \<and> desc_user (segm_desc base limit dpl type)
    \<and> desc_gran (segm_desc base limit dpl type) \<and> desc_big (segm_desc base limit dpl type)"
proof -
  let ?d = "segm_desc base limit dpl type" and ?c = "if type = TYPE_DATA then 0x92 else 0x9a :: u32"
  have f: "take_bit 4 0xc = (0xc :: u32)" and c: "\<not> bit ?c 5" "\<not> bit ?c 6" by (simp_all add: take_bit_eq_mod bit_iff_odd)
  have d: "d0 ?d = ucast (limit AND 0xffff)" "d1 ?d = ucast (base AND 0xffff)" by (simp_all add: segm_desc_def)
  note w = segm_desc_words(1,2) [of base limit dpl type]
  have t: "desc_type ?d = ucast ?c AND 0xf" by (rule desc_type_words [OF w(1)])
  have "desc_type ?d = (if type = TYPE_DATA then 2 else 10)" unfolding t by (cases type) simp_all
  moreover have "bit ?c 7" "bit ?c 4" "bit (0xc :: u32) 3" "bit (0xc :: u32) 2" by (simp_all add: bit_iff_odd)
  then have "desc_present ?d \<and> desc_user ?d \<and> desc_gran ?d \<and> desc_big ?d"
    unfolding desc_present_def desc_user_def desc_gran_def desc_big_def w bit_access_word bit_high_word by simp
  ultimately show ?thesis
    using desc_base_words [OF f d(2) w] desc_limit_words [OF d(1) w(2)] desc_dpl_words [OF w(1) c] by simp
qed

text \<open>Reading back a descriptor made by \<open>segm_desc\<close> gives the base, the low 20 bits of the limit, in
  pages, the privilege level and the type it was made from.\<close>

theorem segm_desc_roundtrip:
  "desc_base (segm_desc base limit dpl type) = base \<and> desc_limit (segm_desc base limit dpl type) = limit AND 0xfffff
    \<and> desc_dpl (segm_desc base limit dpl type) = ucast dpl AND 3 \<and> desc_type (segm_desc base limit dpl type) = (if type = TYPE_DATA then 2 else 10)
    \<and> desc_present (segm_desc base limit dpl type) \<and> desc_user (segm_desc base limit dpl type)
    \<and> desc_gran (segm_desc base limit dpl type) \<and> desc_big (segm_desc base limit dpl type)"
  by (rule segm_desc_roundtrip')

lemma task_desc_roundtrip:
  "desc_base (task_desc base limit dpl) = base" "desc_limit (task_desc base limit dpl) = limit AND 0xfffff"
  "desc_gran (task_desc base limit dpl)" "desc_type (task_desc base limit dpl) = 9"
proof -
  let ?d = "task_desc base limit dpl"
  have f: "take_bit 4 0x8 = (0x8 :: u32)" by (simp add: take_bit_eq_mod)
  have d: "d0 ?d = ucast (limit AND 0xffff)" "d1 ?d = ucast (base AND 0xffff)" by (simp_all add: task_desc_def)
  note w = segm_desc_words(3,4) [of base limit dpl]
  show "desc_base ?d = base" by (rule desc_base_words [OF f d(2) w])
  show "desc_limit ?d = limit AND 0xfffff" by (rule desc_limit_words [OF d(1) w(2)])
  have "bit (0x8 :: u32) 3" by (simp add: bit_iff_odd)
  then show "desc_gran ?d" unfolding desc_gran_def w bit_high_word by simp
  show "desc_type ?d = 9" unfolding desc_type_words [OF w(1)] by simp
qed

text \<open>The four segments of the kernel and the user cover all addresses.\<close>

lemma init_segm_flat:
  assumes "i \<in> {SEGM_KCODE, SEGM_KDATA, SEGM_UCODE, SEGM_UDATA}"
  shows "desc_base (init_segm ! i) = 0 \<and> desc_last (init_segm ! i) = - 1
    \<and> desc_dpl (init_segm ! i) = (if i = SEGM_UCODE \<or> i = SEGM_UDATA then 3 else 0)"
proof -
  have n: "init_segm ! SEGM_KCODE = segm_desc 0 0xffffffff 0 TYPE_CODE" "init_segm ! SEGM_KDATA = segm_desc 0 0xffffffff 0 TYPE_DATA"
    "init_segm ! SEGM_UCODE = segm_desc 0 0xffffffff 3 TYPE_CODE" "init_segm ! SEGM_UDATA = segm_desc 0 0xffffffff 3 TYPE_DATA"
    by (simp_all add: init_segm_def segm_numbers)
  have "desc_last (segm_desc base 0xffffffff dpl type) = - 1" for base dpl type
    using segm_desc_roundtrip' [of base "0xffffffff" dpl type] by (simp add: desc_last_def)
  moreover have "desc_base (segm_desc 0 limit dpl type) = 0" "desc_dpl (segm_desc 0 limit dpl type) = ucast dpl AND 3" for limit dpl type
    using segm_desc_roundtrip' by blast+
  ultimately show ?thesis using assms by (elim insertE emptyE) (simp_all add: n, simp_all add: segm_numbers)
qed

text \<open>The limit of the task segment is counted in bytes, but read in pages.\<close>

lemma set_tss_limit:
  assumes "length gdt = NUM_SEGMENTS"
  shows "desc_base (set_tss addr gdt ! SEGM_TASK) = addr \<and> desc_last (set_tss addr gdt ! SEGM_TASK) = 0x67fff"
  using assms task_desc_roundtrip [of addr "sizeof_task_state - 1" 3]
  by (simp add: set_tss_def segm_numbers desc_last_def sizeof_task_state_def)

lemma set_tss_limit_witness: "desc_last (set_tss 0x5000 init_segm ! SEGM_TASK) = 0x67fff"
  using set_tss_limit [of init_segm "0x5000"] by (simp add: init_segm_def)

end
