(* ===== verification/Intr.thy ===== *)
theory Intr
  imports Hw Segm
begin

text \<open>
  Interrupts (\<open>src/intr.c\<close>, \<open>intr.h\<close>, \<open>intrtab.h\<close>): the gates of the descriptor table, the table of
  handlers, the dispatcher all entry points call, and the two interrupt controllers. The entry
  points are assembly, their addresses parameters. A handler is a name \<open>'h\<close> with a meaning \<open>call\<close>
  on the whole state, which may panic; so an interrupt that arrives while a handler runs is a
  handler that dispatches another one.
\<close>

definition IRQ_OFFSET :: u32 where "IRQ_OFFSET = 32"
definition IRQ_TO_INTR :: "u32 \<Rightarrow> u32" where "IRQ_TO_INTR x = x + IRQ_OFFSET"
definition INTR_TO_IRQ :: "u32 \<Rightarrow> u32" where "INTR_TO_IRQ x = x - IRQ_OFFSET"
definition IS_IRQ :: "u32 \<Rightarrow> bool" where "IS_IRQ n \<longleftrightarrow> IRQ_OFFSET \<le> n \<and> n < IRQ_OFFSET + 16"
definition IS_TRAP :: "u32 \<Rightarrow> bool" where "IS_TRAP n \<longleftrightarrow> 32 \<le> n \<and> \<not> IS_IRQ n"

definition SYSCALL_INT :: u32 where "SYSCALL_INT = 0x80"
definition GATE_INTR :: u16 where "GATE_INTR = push_bit 8 6"
definition GATE_TRAP :: u16 where "GATE_TRAP = push_bit 8 7"
definition GATE_DEFAULT :: u16 where "GATE_DEFAULT = push_bit 11 1"
definition GATE_PRESENT :: u16 where "GATE_PRESENT = push_bit 15 1"

definition PIC1_CMD :: u16 where "PIC1_CMD = 0x20"
definition PIC1_DATA :: u16 where "PIC1_DATA = 0x21"
definition PIC2_CMD :: u16 where "PIC2_CMD = 0xa0"
definition PIC2_DATA :: u16 where "PIC2_DATA = 0xa1"
definition ICW1_ICW4_NEEDED :: u8 where "ICW1_ICW4_NEEDED = 1"
definition ICW1_INIT :: u8 where "ICW1_INIT = push_bit 4 1"
definition ICW4_8086 :: u8 where "ICW4_8086 = 1"
definition OCW2_EOI :: u8 where "OCW2_EOI = push_bit 5 1"

lemmas irq_numbers = IRQ_OFFSET_def IRQ_TO_INTR_def INTR_TO_IRQ_def IS_IRQ_def
lemmas gate_bits = GATE_INTR_def GATE_TRAP_def GATE_DEFAULT_def GATE_PRESENT_def
lemmas pic_ports = PIC1_CMD_def PIC1_DATA_def PIC2_CMD_def PIC2_DATA_def
lemmas pic_words = ICW1_ICW4_NEEDED_def ICW1_INIT_def ICW4_8086_def OCW2_EOI_def

record registers =
  rg_edi :: u32
  rg_esi :: u32
  rg_ebp :: u32
  rg_esp :: u32
  rg_ebx :: u32
  rg_edx :: u32
  rg_ecx :: u32
  rg_eax :: u32

record intr_frame =
  f_regs :: registers
  inum :: u32
  err :: u32
  f_eip :: u32
  f_cs :: u32
  f_eflags :: u32

record 'h intr = machine +
  idt :: "desc_t list"
  intr_func :: "'h option list"
  cur_intr_frame :: "intr_frame option"
  eoi_pending :: u32

section \<open>The descriptor table\<close>

definition gate_desc :: "u16 \<Rightarrow> u32 \<Rightarrow> u16 \<Rightarrow> u16 \<Rightarrow> desc_t" where
  "gate_desc sel addr dpl type =
     \<lparr>d0 = ucast (addr AND 0xffff), d1 = sel, d2 = push_bit 13 (dpl AND 3) OR type OR GATE_DEFAULT OR GATE_PRESENT,
      d3 = ucast (drop_bit 16 (addr AND 0xffff0000))\<rparr>"

definition entry_gate :: "u32 \<Rightarrow> u32 \<Rightarrow> desc_t" where
  "entry_gate num handler =
     gate_desc (selector SEGM_KCODE 0) handler (if num = SYSCALL_INT then 3 else 0) (if IS_TRAP num then GATE_TRAP else GATE_INTR)"

text \<open>The vectors are below 256, in all uses.\<close>

definition set_intr_entry :: "u32 \<Rightarrow> u32 \<Rightarrow> (('h, 'z) intr_scheme, unit) state" where
  "set_intr_entry num handler = modify (\<lambda>s. s\<lparr>idt := (idt s)[unat num := entry_gate num handler]\<rparr>)"

text \<open>The table of \<open>intrtab.h\<close>: the interrupts that have an entry point of their own.\<close>

definition intrtab :: "(u32 \<times> string) list" where
  "intrtab = [(0, ''div''), (1, ''debug''), (2, ''nmi''), (3, ''bp''), (4, ''overflow''), (5, ''bound''), (6, ''ill''), (7, ''nodev''),
     (8, ''dfault''), (9, ''copseg''), (10, ''tss''), (11, ''segpres''), (12, ''stack''), (13, ''prot''), (14, ''page''), (15, ''reserved''),
     (16, ''fpu''), (17, ''align''), (18, ''mce''), (19, ''sse''),
     (32, ''irq0''), (33, ''irq1''), (34, ''irq2''), (35, ''irq3''), (36, ''irq4''), (37, ''irq5''), (38, ''irq6''), (39, ''irq7''),
     (40, ''irq8''), (41, ''irq9''), (42, ''irq10''), (43, ''irq11''), (44, ''irq12''), (45, ''irq13''), (46, ''irq14''), (47, ''irq15''),
     (128, ''syscall''), (255, ''default'')]"

definition interrupt :: "u32 \<Rightarrow> 'h option \<Rightarrow> (('h, 'z) intr_scheme, unit) state" where
  "interrupt intr_num func = do {
     iflag \<leftarrow> get_intr_flag;
     disable_intr;
     modify (\<lambda>s. s\<lparr>intr_func := (intr_func s)[unat intr_num := func]\<rparr>);
     set_intr_flag iflag }"

fun each :: "('a \<Rightarrow> ('s, unit) state) \<Rightarrow> 'a list \<Rightarrow> ('s, unit) state" where
  "each f [] = ret ()"
| "each f (x # xs) = do { f x; each f xs }"

definition prog_pic :: "u8 \<Rightarrow> ('z machine_scheme, unit) state" where
  "prog_pic offs = do {
     outb (ICW1_INIT OR ICW1_ICW4_NEEDED) PIC1_CMD;
     outb (ICW1_INIT OR ICW1_ICW4_NEEDED) PIC2_CMD;
     outb offs PIC1_DATA;
     outb (offs + 8) PIC2_DATA;
     outb 4 PIC1_DATA;
     outb 2 PIC2_DATA;
     outb ICW4_8086 PIC1_DATA;
     outb ICW4_8086 PIC2_DATA;
     outb 0 PIC1_DATA;
     outb 0 PIC2_DATA }"

definition init_pic :: "('z machine_scheme, unit) state" where "init_pic = prog_pic (ucast IRQ_OFFSET)"

text \<open>\<open>entry\<close> gives the addresses of the entry points \<open>intr_entry_...\<close>, the other arguments those of the
  default one and of the two that look for spurious interrupts.\<close>

definition init_intr :: "(string \<Rightarrow> u32) \<Rightarrow> u32 \<Rightarrow> u32 \<Rightarrow> u32 \<Rightarrow> (('h, 'z) intr_scheme, unit) state" where
  "init_intr entry dflt spurious7 spurious15 = do {
     each (\<lambda>i. do { set_intr_entry i dflt; interrupt i None }) (map of_nat [0..<256]);
     each (\<lambda>(n, name). set_intr_entry n (entry name)) intrtab;
     set_intr_entry (IRQ_TO_INTR 7) spurious7;
     set_intr_entry (IRQ_TO_INTR 15) spurious15;
     init_pic;
     modify (\<lambda>s. s\<lparr>eoi_pending := 0\<rparr>) }"

section \<open>The controllers\<close>

definition set_pic_mask :: "int \<Rightarrow> u8 \<Rightarrow> ('z machine_scheme, unit) state" where
  "set_pic_mask pic m = outb m (if 0 < pic then PIC2_DATA else PIC1_DATA)"

definition get_pic_mask :: "int \<Rightarrow> ('z machine_scheme, u8) state" where
  "get_pic_mask pic = inb (if 0 < pic then PIC2_DATA else PIC1_DATA)"

definition mask_irq :: "nat \<Rightarrow> ('z machine_scheme, unit) state" where
  "mask_irq irq = (let (port, irq) = (if irq < 8 then (PIC1_DATA, irq) else (PIC2_DATA, irq - 8)) in do {
     v \<leftarrow> inb port;
     outb (v OR push_bit irq 1) port })"

definition unmask_irq :: "nat \<Rightarrow> ('z machine_scheme, unit) state" where
  "unmask_irq irq = (let (port, irq) = (if irq < 8 then (PIC1_DATA, irq) else (PIC2_DATA, irq - 8)) in do {
     v \<leftarrow> inb port;
     outb (v AND NOT (push_bit irq 1)) port })"

definition end_of_irq :: "int \<Rightarrow> (('h, 'z) intr_scheme, unit) state" where
  "end_of_irq irq = do {
     intr_state \<leftarrow> get_intr_flag;
     disable_intr;
     pending \<leftarrow> gets eoi_pending;
     if pending = 0 then set_intr_flag intr_state
     else do {
       modify (\<lambda>s. s\<lparr>eoi_pending := 0\<rparr>);
       (if 7 < irq then outb OCW2_EOI PIC2_CMD else ret ());
       outb OCW2_EOI PIC1_CMD;
       set_intr_flag intr_state } }"

definition dispatch_intr :: "('h \<Rightarrow> int \<Rightarrow> ('h, 'z) intr_scheme \<Rightarrow> fault + ('h, 'z) intr_scheme) \<Rightarrow> intr_frame \<Rightarrow>
    ('h, 'z) intr_scheme \<Rightarrow> fault + ('h, 'z) intr_scheme" where
  "dispatch_intr call frm s = (
     let s = s\<lparr>cur_intr_frame := Some frm\<rparr>;
         s = (if IS_IRQ (inum frm) then s\<lparr>eoi_pending := inum frm\<rparr> else s)
     in case (case intr_func s ! unat (inum frm) of
                Some f \<Rightarrow> call f (sint (inum frm)) s
              | None \<Rightarrow> if inum frm < 32 then Inl (Panic ''unhandled exception'') else Inr s) of
          Inl p \<Rightarrow> Inl p
        | Inr s \<Rightarrow>
            let s = exec disable_intr s
            in Inr (if eoi_pending s \<noteq> 0 then exec (end_of_irq (sint (INTR_TO_IRQ (eoi_pending s)))) s else s))"

section \<open>Gates\<close>

definition gate_offset :: "desc_t \<Rightarrow> u32" where
  "gate_offset d = ucast (d0 d) OR push_bit 16 (ucast (d3 d))"

definition gate_type :: "desc_t \<Rightarrow> u16" where "gate_type d = drop_bit 8 (d2 d) AND 0x1f"

text \<open>A gate as the processor has to find it for interrupt \<open>i\<close>: present, into the kernel's code segment,
  a 32-bit interrupt or trap gate, open to users only for system calls.\<close>

definition gate_ok :: "nat \<Rightarrow> desc_t \<Rightarrow> bool" where
  "gate_ok i d \<longleftrightarrow> desc_present d \<and> d1 d = selector SEGM_KCODE 0 \<and> desc_dpl d = (if i = 128 then 3 else 0)
    \<and> gate_type d = (if 48 \<le> i then 0xf else 0xe)"

definition idt_ok :: "desc_t list \<Rightarrow> bool" where
  "idt_ok t \<longleftrightarrow> length t = 256 \<and> (\<forall>i < 256. gate_ok i (t ! i))"

lemma entry_gate_offset: "gate_offset (entry_gate num handler) = handler"
proof (rule bit_word_eqI)
  fix n assume n: "n < LENGTH(32)"
  have high: "(0xffff0000 :: u32) = push_bit 16 (mask 16)" by (simp add: mask_eq_exp_minus_1 push_bit_eq_mult)
  show "bit (gate_offset (entry_gate num handler)) n \<longleftrightarrow> bit handler n"
    unfolding gate_offset_def entry_gate_def gate_desc_def low_masks high using n
    by (cases "n < 16") (auto simp: bit_or_iff bit_push_bit_iff bit_ucast_iff bit_and_iff bit_mask_iff bit_drop_bit_eq ac_simps)
qed

lemma u32_nat_less: "num < of_nat k \<longleftrightarrow> unat num < k" if "k < 2 ^ 32" for num :: u32
  using that by (simp add: word_less_nat_alt unat_of_nat)

lemma is_trap_iff: "IS_TRAP num \<longleftrightarrow> 48 \<le> unat num"
  by (simp add: IS_TRAP_def irq_numbers word_less_nat_alt word_le_nat_alt) linarith

lemma syscall_iff: "num = SYSCALL_INT \<longleftrightarrow> unat num = 128"
  by (simp add: SYSCALL_INT_def word_unat_eq_iff)

lemma entry_gate_ok: "gate_ok (unat num) (entry_gate num handler)"
  unfolding gate_ok_def entry_gate_def gate_desc_def is_trap_iff syscall_iff desc_present_def desc_dpl_def gate_type_def gate_bits
  by (simp add: bit_iff_odd)

lemma set_intr_entry_idt: "idt (exec (set_intr_entry num handler) s) = (idt s)[unat num := entry_gate num handler]"
  by (simp add: set_intr_entry_def)

lemma interrupt_exec: "exec (interrupt num f) s = s\<lparr>intr_func := (intr_func s)[unat num := f]\<rparr>"
  by (simp add: interrupt_def run_simps)

lemma idt_okI: "length t = 256 \<Longrightarrow> (\<And>i. i < 256 \<Longrightarrow> gate_ok i (t ! i)) \<Longrightarrow> idt_ok t"
  by (simp add: idt_ok_def)

lemma update_gate_ok:
  assumes "i < length t" "i \<noteq> unat num \<Longrightarrow> gate_ok i (t ! i)"
  shows "gate_ok i (t[unat num := entry_gate num handler] ! i)"
  using assms entry_gate_ok [of num handler] by (cases "i = unat num") simp_all

lemma set_intr_entry_ok [inv_intros]: "idt_ok (idt s) \<Longrightarrow> idt_ok (idt (exec (set_intr_entry num handler) s))"
  unfolding set_intr_entry_idt by (rule idt_okI) (auto simp: idt_ok_def intro: update_gate_ok)

lemma entries_ok: "idt_ok (idt s) \<Longrightarrow> idt_ok (idt (exec (each (\<lambda>(n, a). set_intr_entry n (f a)) es) s))"
proof (induction es arbitrary: s)
  case (Cons e es)
  then show ?case by (cases e) (simp add: run_simps set_intr_entry_ok)
qed simp

text \<open>The first loop fills the whole table.\<close>

lemma default_entries:
  assumes "length (idt s) = 256" "k \<le> 256"
  shows "let t = idt (exec (each (\<lambda>i. do { set_intr_entry i dflt; interrupt i None }) (map of_nat [256 - k..<256])) s)
    in length t = 256 \<and> (\<forall>i < 256. (256 - k \<le> i \<longrightarrow> gate_ok i (t ! i)) \<and> (i < 256 - k \<longrightarrow> t ! i = idt s ! i))"
  using assms
proof (induction k arbitrary: s)
  case (Suc k)
  let ?i = "256 - Suc k"
  let ?s = "exec (interrupt (of_nat ?i) None) (exec (set_intr_entry (of_nat ?i) dflt) s)"
  have "Suc ?i = 256 - k" "?i < 256" using Suc.prems(2) by simp_all
  then have upt: "[?i..<256] = ?i # [256 - k..<256]" by (metis upt_conv_Cons)
  have u: "unat (of_nat ?i :: u32) = ?i" by (simp add: unat_of_nat)
  have t: "idt ?s = (idt s)[?i := entry_gate (of_nat ?i) dflt]" using u by (simp add: interrupt_exec set_intr_entry_idt)
  have g: "gate_ok ?i (entry_gate (of_nat ?i) dflt)" using entry_gate_ok [of "of_nat ?i" dflt] u by simp
  have "length (idt ?s) = 256" "k \<le> 256" using Suc.prems t by simp_all
  note IH = Suc.IH [OF this, unfolded Let_def]
  show ?case unfolding upt Let_def list.map each.simps exec_bind
  proof (intro conjI allI impI)
    show "length (idt (exec (each (\<lambda>i. do { set_intr_entry i dflt; interrupt i None }) (map of_nat [256 - k..<256])) ?s)) = 256"
      using IH by blast
    fix i :: nat assume i: "i < 256"
    let ?t = "idt (exec (each (\<lambda>i. do { set_intr_entry i dflt; interrupt i None }) (map of_nat [256 - k..<256])) ?s)"
    have IHi: "(256 - k \<le> i \<longrightarrow> gate_ok i (?t ! i))" "(i < 256 - k \<longrightarrow> ?t ! i = idt ?s ! i)" using IH i by blast+
    show "gate_ok i (?t ! i)" if "?i \<le> i"
    proof (cases "i = ?i")
      case True
      then show ?thesis using IHi(2) g t i Suc.prems by simp
    next
      case False
      then show ?thesis using IHi(1) that by simp
    qed
    show "?t ! i = idt s ! i" if "i < ?i" using IHi(2) that t by simp
  qed
qed simp

lemma init_pic_exec: "exec init_pic m = logs [Out8 PIC2_DATA 0, Out8 PIC1_DATA 0, Out8 PIC2_DATA 1, Out8 PIC1_DATA 1, Out8 PIC2_DATA 2,
    Out8 PIC1_DATA 4, Out8 PIC2_DATA 40, Out8 PIC1_DATA 32, Out8 PIC2_CMD 17, Out8 PIC1_CMD 17] m"
  by (simp add: init_pic_def prog_pic_def run_simps IRQ_OFFSET_def pic_words)

lemma logs_intr [simp]: "idt (logs es s) = idt s" "intr_func (logs es s) = intr_func s" "eoi_pending (logs es s) = eoi_pending s"
  by (simp_all add: logs_def)

lemma init_intr_ok:
  assumes "length (idt s) = 256"
  shows "idt_ok (idt (exec (init_intr entry dflt spurious7 spurious15) s))"
proof -
  let ?s = "exec (each (\<lambda>i. do { set_intr_entry i dflt; interrupt i None }) (map of_nat [0..<256])) s"
  have "idt_ok (idt ?s)" using default_entries [OF assms, of 256 dflt] by (simp add: Let_def idt_ok_def)
  then show ?thesis
    unfolding init_intr_def exec_bind by (simp add: init_pic_exec set_intr_entry_ok entries_ok del: upt_rec_numeral)
qed

text \<open>C33: after \<open>init_intr\<close>, whatever entry points are installed later, every interrupt has a gate of the
  right kind into the kernel, that users can call for system calls only.\<close>

theorem idt_gates_ok:
  assumes "length (idt s) = 256"
  shows "idt_ok (idt (exec (each (\<lambda>(num, handler). set_intr_entry num handler) es) (exec (init_intr entry dflt spurious7 spurious15) s)))"
  using entries_ok [OF init_intr_ok [OF assms], of "\<lambda>a. a"] by simp

definition idle_intr :: "nat option list \<Rightarrow> nat intr" where
  "idle_intr fs = \<lparr>io_log = [], dev8 = (\<lambda>_ _. 0), dev16 = (\<lambda>_ _. 0), dev32 = (\<lambda>_ _. 0), intr_on = True,
     idt = replicate 256 null_desc, intr_func = fs, cur_intr_frame = None, eoi_pending = 0\<rparr>"

lemma idt_gates_ok_witness:
  "idt_ok (idt (exec (each (\<lambda>(num, handler). set_intr_entry num handler) [(3, 0x100000)]) (exec (init_intr (\<lambda>_. 0x8000) 0x9000 0xa000 0xb000) (idle_intr []))))"
  by (rule idt_gates_ok) (simp add: idle_intr_def)

section \<open>Acknowledging interrupts\<close>

text \<open>The controllers: the lines in service, highest priority first. An end-of-interrupt command ends the
  first. The second controller is on line 2 of the first.\<close>

record pic =
  isr1 :: "nat list"
  isr2 :: "nat list"

definition pic_write :: "u16 \<times> u8 \<Rightarrow> pic \<Rightarrow> pic" where
  "pic_write w p =
     (if w = (PIC1_CMD, OCW2_EOI) then p\<lparr>isr1 := tl (isr1 p)\<rparr>
      else if w = (PIC2_CMD, OCW2_EOI) then p\<lparr>isr2 := tl (isr2 p)\<rparr>
      else p)"

definition pic_run :: "io_event list \<Rightarrow> pic \<Rightarrow> pic" where "pic_run es = fold pic_write (writes es)"

definition deliver :: "nat \<Rightarrow> pic \<Rightarrow> pic" where
  "deliver irq p = (if irq < 8 then p\<lparr>isr1 := insort irq (isr1 p)\<rparr>
     else p\<lparr>isr1 := insort 2 (isr1 p), isr2 := insort (irq - 8) (isr2 p)\<rparr>)"

definition can_deliver :: "nat \<Rightarrow> pic \<Rightarrow> bool" where
  "can_deliver irq p \<longleftrightarrow> irq < 16 \<and> (if irq < 8 then \<forall>i \<in> set (isr1 p). irq < i
     else (\<forall>i \<in> set (isr1 p). 2 < i) \<and> (\<forall>i \<in> set (isr2 p). irq - 8 < i))"

definition acknowledge :: "nat \<Rightarrow> pic \<Rightarrow> pic" where
  "acknowledge irq p = (if 7 < irq then p\<lparr>isr1 := tl (isr1 p), isr2 := tl (isr2 p)\<rparr> else p\<lparr>isr1 := tl (isr1 p)\<rparr>)"

lemma pic_run_append: "pic_run (es @ es') p = pic_run es (pic_run es' p)"
  by (simp add: pic_run_def writes_append)

lemma insort_first: "\<forall>y \<in> set ys. x < y \<Longrightarrow> insort x ys = x # ys" for x :: nat
  by (cases ys) auto

lemma acknowledge_deliver: "can_deliver irq p \<Longrightarrow> acknowledge irq (deliver irq p) = p"
  by (auto simp: can_deliver_def acknowledge_def deliver_def insort_first split: if_splits)

lemma pic_eoi_events:
  "pic_run [Out8 PIC1_CMD OCW2_EOI, Out8 PIC2_CMD OCW2_EOI] p = p\<lparr>isr1 := tl (isr1 p), isr2 := tl (isr2 p)\<rparr>"
  "pic_run [Out8 PIC1_CMD OCW2_EOI] p = p\<lparr>isr1 := tl (isr1 p)\<rparr>"
  by (simp_all add: pic_run_def pic_write_def pic_ports pic_words)

lemma end_of_irq_acks:
  assumes "eoi_pending s \<noteq> 0"
  shows "\<exists>es. exec (end_of_irq irq) s = (logs es s)\<lparr>eoi_pending := 0\<rparr> \<and> pic_run es = acknowledge (nat irq)"
proof -
  let ?es = "if 7 < irq then [Out8 PIC1_CMD OCW2_EOI, Out8 PIC2_CMD OCW2_EOI] else [Out8 PIC1_CMD OCW2_EOI]"
  have "exec (end_of_irq irq) s = (logs ?es s)\<lparr>eoi_pending := 0\<rparr>"
    using assms by (simp add: end_of_irq_def run_simps logs_def)
  moreover have "pic_run ?es = acknowledge (nat irq)"
    by (rule ext) (simp add: pic_eoi_events acknowledge_def)
  ultimately show ?thesis by blast
qed

lemma end_of_irq_idle: "eoi_pending s = 0 \<Longrightarrow> exec (end_of_irq irq) s = s"
  by (simp add: end_of_irq_def run_simps)

text \<open>A handler that returns, and leaves the acknowledging to the dispatcher or does it with \<open>end_of_irq\<close>.\<close>

definition handler_ok :: "('h \<Rightarrow> int \<Rightarrow> ('h, 'z) intr_scheme \<Rightarrow> fault + ('h, 'z) intr_scheme) \<Rightarrow> 'h \<Rightarrow> u32 \<Rightarrow> bool" where
  "handler_ok call f n \<longleftrightarrow> (\<forall>s. eoi_pending s = n \<longrightarrow> (\<exists>es s'. call f (sint n) s = Inr s' \<and> io_log s' = es @ io_log s
     \<and> (eoi_pending s' = n \<and> pic_run es = id
        \<or> eoi_pending s' = 0 \<and> pic_run es = acknowledge (unat (INTR_TO_IRQ n)))))"

lemma irq_range:
  assumes "IS_IRQ n"
  shows "n \<noteq> 0" "32 \<le> unat n" "unat n < 48" "\<not> n < 32" "nat (sint (INTR_TO_IRQ n)) = unat (INTR_TO_IRQ n)"
proof -
  show r: "32 \<le> unat n" "unat n < 48" "n \<noteq> 0" "\<not> n < 32" using assms by (auto simp: irq_numbers word_le_nat_alt word_less_nat_alt)
  have u: "unat (INTR_TO_IRQ n) = unat n - 32" using r(1) unfolding irq_numbers by (subst unat_sub_no_wrap) simp_all
  have "uint (INTR_TO_IRQ n) = int (unat n - 32)" using arg_cong [OF u, of int] by (simp only: int_nat_eq uint_nat)
  then have "uint (INTR_TO_IRQ n) < 2 ^ 31" using r(2) by simp
  then have "sint (INTR_TO_IRQ n) = uint (INTR_TO_IRQ n)" unfolding sint_uint by (intro signed_take_bit_int_eq_self order_trans [OF _ uint_ge_0]) simp_all
  then show "nat (sint (INTR_TO_IRQ n)) = unat (INTR_TO_IRQ n)" by simp
qed

lemma dispatch_acks:
  assumes "IS_IRQ (inum frm)" "\<And>f. intr_func s ! unat (inum frm) = Some f \<Longrightarrow> handler_ok call f (inum frm)"
  shows "\<exists>es s'. dispatch_intr call frm s = Inr s' \<and> io_log s' = es @ io_log s \<and> pic_run es = acknowledge (unat (INTR_TO_IRQ (inum frm)))
    \<and> eoi_pending s' = 0 \<and> \<not> intr_on s'"
proof -
  let ?n = "inum frm" and ?s = "s\<lparr>cur_intr_frame := Some frm, eoi_pending := inum frm\<rparr>"
  note n = irq_range [OF assms(1)]
  have id0: "pic_run [] = id" by (simp add: pic_run_def fun_eq_iff)
  have "\<exists>es s1. (case intr_func s ! unat ?n of Some f \<Rightarrow> call f (sint ?n) ?s | None \<Rightarrow> Inr ?s) = Inr s1 \<and> io_log s1 = es @ io_log s
    \<and> (eoi_pending s1 = ?n \<and> pic_run es = id \<or> eoi_pending s1 = 0 \<and> pic_run es = acknowledge (unat (INTR_TO_IRQ ?n)))"
  proof (cases "intr_func s ! unat ?n")
    case None
    then show ?thesis using id0 by (simp add: exI [of _ "[]"])
  next
    case (Some f)
    have "eoi_pending ?s = ?n" by simp
    from assms(2) [OF Some, unfolded handler_ok_def, rule_format, OF this] show ?thesis using Some by simp
  qed
  then obtain es s1 where s1: "(case intr_func s ! unat ?n of Some f \<Rightarrow> call f (sint ?n) ?s | None \<Rightarrow> Inr ?s) = Inr s1" "io_log s1 = es @ io_log s"
    and eoi: "eoi_pending s1 = ?n \<and> pic_run es = id \<or> eoi_pending s1 = 0 \<and> pic_run es = acknowledge (unat (INTR_TO_IRQ ?n))"
    by blast
  let ?s1 = "s1\<lparr>intr_on := False\<rparr>"
  have d: "dispatch_intr call frm s = Inr (if eoi_pending s1 \<noteq> 0 then exec (end_of_irq (sint (INTR_TO_IRQ (eoi_pending s1)))) ?s1 else ?s1)"
    using s1(1) assms(1) n(4) by (simp add: dispatch_intr_def Let_def)
  show ?thesis
  proof (cases "eoi_pending s1 = 0")
    case True
    then show ?thesis using d s1(2) eoi n(1) by auto
  next
    case False
    then have p: "eoi_pending s1 = ?n" "pic_run es = id" using eoi by auto
    obtain es2 where e2: "exec (end_of_irq (sint (INTR_TO_IRQ ?n))) ?s1 = (logs es2 ?s1)\<lparr>eoi_pending := 0\<rparr>"
      "pic_run es2 = acknowledge (unat (INTR_TO_IRQ ?n))"
      using end_of_irq_acks [of ?s1 "sint (INTR_TO_IRQ ?n)"] p n(1,5) by auto
    have "pic_run (es2 @ es) = acknowledge (unat (INTR_TO_IRQ ?n))"
      using e2(2) p(2) by (simp add: fun_eq_iff pic_run_append)
    then show ?thesis using d p(1) n(1) e2(1) s1(2) by (intro exI [of _ "es2 @ es"]) simp
  qed
qed

text \<open>C32: dispatching a request of either controller whose handler is well-behaved, or that has none, leaves
  the lines in service as they were when it came, nothing pending, and interrupts off until the return.\<close>

theorem dispatch_acknowledges:
  assumes "IS_IRQ (inum frm)" "\<And>f. intr_func s ! unat (inum frm) = Some f \<Longrightarrow> handler_ok call f (inum frm)"
    "can_deliver (unat (INTR_TO_IRQ (inum frm))) p"
  shows "\<exists>es s'. dispatch_intr call frm s = Inr s' \<and> io_log s' = es @ io_log s \<and> pic_run es (deliver (unat (INTR_TO_IRQ (inum frm))) p) = p
    \<and> eoi_pending s' = 0 \<and> \<not> intr_on s'"
proof -
  obtain es s' where "dispatch_intr call frm s = Inr s'" "io_log s' = es @ io_log s" "eoi_pending s' = 0" "\<not> intr_on s'"
    and "pic_run es = acknowledge (unat (INTR_TO_IRQ (inum frm)))"
    using dispatch_acks [OF assms(1,2)] by blast
  then show ?thesis using acknowledge_deliver [OF assms(3)] by (intro exI [of _ es] exI [of _ s']) simp
qed

definition demo_frame :: "u32 \<Rightarrow> intr_frame" where
  "demo_frame n = \<lparr>f_regs = \<lparr>rg_edi = 0, rg_esi = 0, rg_ebp = 0, rg_esp = 0, rg_ebx = 0, rg_edx = 0, rg_ecx = 0, rg_eax = 0\<rparr>,
     inum = n, err = 0, f_eip = 0x100000, f_cs = 8, f_eflags = 0x200\<rparr>"

lemma dispatch_acknowledges_witness:
  "\<exists>es s'. dispatch_intr (\<lambda>_ _. Inr) (demo_frame 44) (idle_intr (replicate 256 (Some 0))) = Inr s'
    \<and> pic_run es \<lparr>isr1 = [2], isr2 = [4]\<rparr> = \<lparr>isr1 = [], isr2 = []\<rparr> \<and> eoi_pending s' = 0"
proof -
  have n: "IS_IRQ (inum (demo_frame 44))" "unat (INTR_TO_IRQ (inum (demo_frame 44))) = 12" by (simp_all add: demo_frame_def irq_numbers)
  have "pic_run [] = id" by (simp add: pic_run_def fun_eq_iff)
  then have h: "handler_ok (\<lambda>_ _. Inr) (0 :: nat) (inum (demo_frame 44))"
    unfolding handler_ok_def by (intro allI impI exI [of _ "[]"]) simp
  have f: "intr_func (idle_intr (replicate 256 (Some 0))) ! unat (inum (demo_frame 44)) = Some 0" by (simp add: idle_intr_def demo_frame_def)
  have p: "can_deliver 12 \<lparr>isr1 = [], isr2 = []\<rparr>" "deliver 12 \<lparr>isr1 = [], isr2 = []\<rparr> = \<lparr>isr1 = [2], isr2 = [4]\<rparr>"
    by (simp_all add: can_deliver_def deliver_def)
  obtain es s' where "dispatch_intr (\<lambda>_ _. Inr) (demo_frame 44) (idle_intr (replicate 256 (Some 0))) = Inr s'"
    "pic_run es (deliver 12 \<lparr>isr1 = [], isr2 = []\<rparr>) = \<lparr>isr1 = [], isr2 = []\<rparr>" "eoi_pending s' = 0"
    using dispatch_acknowledges [of "demo_frame 44" "idle_intr (replicate 256 (Some 0))" "\<lambda>_ _. Inr" "\<lparr>isr1 = [], isr2 = []\<rparr>", OF n(1)]
      h f p(1) n(2) by (simp only: option.inject) blast
  then show ?thesis unfolding p(2) by blast
qed

text \<open>The dispatcher remembers one pending request: when another one is dispatched while a handler
  runs, the command that ends the first is never sent, and its line stays in service.\<close>

theorem nested_irq_not_ended:
  assumes "IS_IRQ (inum a)" "IS_IRQ (inum b)" "intr_func s ! unat (inum a) = Some f" "call f = (\<lambda>n. dispatch_intr call' b)"
    "\<And>g. handler_ok call' g (inum b)" "can_deliver (unat (INTR_TO_IRQ (inum b))) (deliver (unat (INTR_TO_IRQ (inum a))) p)"
  shows "\<exists>es s'. dispatch_intr call a s = Inr s' \<and> io_log s' = es @ io_log s
    \<and> pic_run es (deliver (unat (INTR_TO_IRQ (inum b))) (deliver (unat (INTR_TO_IRQ (inum a))) p)) = deliver (unat (INTR_TO_IRQ (inum a))) p"
proof -
  let ?s = "s\<lparr>cur_intr_frame := Some a, eoi_pending := inum a\<rparr>"
  obtain es s1 where s1: "dispatch_intr call' b ?s = Inr s1" "io_log s1 = es @ io_log s" "eoi_pending s1 = 0"
    and es: "pic_run es = acknowledge (unat (INTR_TO_IRQ (inum b)))"
    using dispatch_acks [OF assms(2), of ?s call'] assms(5) by auto
  have "dispatch_intr call a s = Inr (s1\<lparr>intr_on := False\<rparr>)"
    using s1 assms(1,3,4) by (simp add: dispatch_intr_def Let_def)
  then show ?thesis using s1(2) acknowledge_deliver [OF assms(6)] es
    by (intro exI [of _ es] exI [of _ "s1\<lparr>intr_on := False\<rparr>"]) simp
qed

lemma nested_irq_not_ended_witness:
  "\<exists>es s'. dispatch_intr (\<lambda>f n. dispatch_intr (\<lambda>_ _. Inr) (demo_frame 32)) (demo_frame 33) (idle_intr (replicate 256 (Some 0))) = Inr s'
    \<and> pic_run es \<lparr>isr1 = [0, 1], isr2 = []\<rparr> = \<lparr>isr1 = [1], isr2 = []\<rparr>"
proof -
  have n: "IS_IRQ (inum (demo_frame 32))" "unat (INTR_TO_IRQ (inum (demo_frame 32))) = 0" by (simp_all add: demo_frame_def irq_numbers)
  have n': "IS_IRQ (inum (demo_frame 33))" "unat (INTR_TO_IRQ (inum (demo_frame 33))) = 1" by (simp_all add: demo_frame_def irq_numbers)
  have "pic_run [] = id" by (simp add: pic_run_def fun_eq_iff)
  then have h: "handler_ok (\<lambda>_ _. Inr) g (inum (demo_frame 32))" for g :: nat
    unfolding handler_ok_def by (intro allI impI exI [of _ "[]"]) simp
  have f: "intr_func (idle_intr (replicate 256 (Some 0))) ! unat (inum (demo_frame 33)) = Some 0" by (simp add: idle_intr_def demo_frame_def)
  have p: "deliver 1 \<lparr>isr1 = [], isr2 = []\<rparr> = \<lparr>isr1 = [1], isr2 = []\<rparr>" "can_deliver 0 \<lparr>isr1 = [1], isr2 = []\<rparr>"
    "deliver 0 \<lparr>isr1 = [1], isr2 = []\<rparr> = \<lparr>isr1 = [0, 1], isr2 = []\<rparr>"
    by (simp_all add: can_deliver_def deliver_def)
  have "can_deliver (unat (INTR_TO_IRQ (inum (demo_frame 32)))) (deliver (unat (INTR_TO_IRQ (inum (demo_frame 33)))) \<lparr>isr1 = [], isr2 = []\<rparr>)"
    unfolding n(2) n'(2) p(1) by (rule p(2))
  from nested_irq_not_ended [where call = "\<lambda>f n. dispatch_intr (\<lambda>_ _. Inr) (demo_frame 32)", OF n'(1) n(1) f refl h this]
  show ?thesis unfolding n(2) n'(2) p(1) p(3) by blast
qed

section \<open>Masks\<close>

text \<open>Masking a request writes the mask of its controller with one more bit, unmasking with one less.\<close>

lemma mask_irq_bits:
  assumes "irq < 16" "port = (if irq < 8 then PIC1_DATA else PIC2_DATA)"
  shows "\<exists>v. exec (mask_irq irq) m = logs [Out8 port v, In8 port] m
      \<and> (\<forall>i < 8. bit v i \<longleftrightarrow> i = irq mod 8 \<or> bit (dev8 m (io_log m) port) i)"
    "\<exists>v. exec (unmask_irq irq) m = logs [Out8 port v, In8 port] m
      \<and> (\<forall>i < 8. bit v i \<longleftrightarrow> i \<noteq> irq mod 8 \<and> bit (dev8 m (io_log m) port) i)"
proof -
  have r: "(if irq < 8 then irq else irq - 8) = irq mod 8" using assms(1) by (simp add: le_mod_geq)
  have p: "(if irq < 8 then (PIC1_DATA, irq) else (PIC2_DATA, irq - 8)) = (port, irq mod 8)" unfolding assms(2) r [symmetric] by simp
  let ?v = "dev8 m (io_log m) port"
  have "exec (mask_irq irq) m = logs [Out8 port (?v OR push_bit (irq mod 8) 1), In8 port] m"
    "exec (unmask_irq irq) m = logs [Out8 port (?v AND NOT (push_bit (irq mod 8) 1)), In8 port] m"
    unfolding mask_irq_def unmask_irq_def p by (simp_all add: run_simps)
  then show "\<exists>v. exec (mask_irq irq) m = logs [Out8 port v, In8 port] m \<and> (\<forall>i < 8. bit v i \<longleftrightarrow> i = irq mod 8 \<or> bit ?v i)"
    "\<exists>v. exec (unmask_irq irq) m = logs [Out8 port v, In8 port] m \<and> (\<forall>i < 8. bit v i \<longleftrightarrow> i \<noteq> irq mod 8 \<and> bit ?v i)"
    using bit_set_iff [of "irq mod 8" ?v] bit_clear_iff [of "irq mod 8" ?v] by (auto simp: push_bit_of_1)
qed

end
