(* ===== verification/Serial.thy ===== *)
theory Serial
  imports Intr Ring
begin

text \<open>
  The serial ports (\<open>src/serial.c\<close>): opening a port, sending, the interrupt handler that
  receives into the port's ring of 256 characters, and the readers. Loops that poll the device are
  partial functions. A reader that waits for characters is given what happens between its looks at
  the ring, a list of functions on the state; \<open>Waiting\<close> is that the list ended first, \<open>Overrun\<close> that
  memory behind a buffer would be written. Messages are left out.
\<close>

definition UART1_BASE :: u16 where "UART1_BASE = 0x3f8"
definition UART2_BASE :: u16 where "UART2_BASE = 0x2f8"
definition UART1_IRQ :: u32 where "UART1_IRQ = 4"
definition UART2_IRQ :: u32 where "UART2_IRQ = 3"
definition UART_DATA :: u16 where "UART_DATA = 0"
definition UART_INTR :: u16 where "UART_INTR = 1"
definition UART_DIVLO :: u16 where "UART_DIVLO = 0"
definition UART_DIVHI :: u16 where "UART_DIVHI = 1"
definition UART_FIFO :: u16 where "UART_FIFO = 2"
definition UART_IID :: u16 where "UART_IID = 2"
definition UART_LCTL :: u16 where "UART_LCTL = 3"
definition UART_MCTL :: u16 where "UART_MCTL = 4"
definition UART_LSTAT :: u16 where "UART_LSTAT = 5"

definition INTR_RECV :: u8 where "INTR_RECV = 1"
definition FIFO_ENABLE :: u8 where "FIFO_ENABLE = 0x01"
definition FIFO_RECV_CLEAR :: u8 where "FIFO_RECV_CLEAR = 0x02"
definition FIFO_SEND_CLEAR :: u8 where "FIFO_SEND_CLEAR = 0x04"
definition IID_PENDING :: u8 where "IID_PENDING = 0x01"
definition LCTL_BITS_8 :: u8 where "LCTL_BITS_8 = 0x03"
definition LCTL_STOP_2 :: u8 where "LCTL_STOP_2 = 0x04"
definition LCTL_DLAB :: u8 where "LCTL_DLAB = 0x80"
definition COM_FMT_8N1 :: u8 where "COM_FMT_8N1 = LCTL_BITS_8"
definition COM_FMT_8N2 :: u8 where "COM_FMT_8N2 = LCTL_BITS_8 OR LCTL_STOP_2"
definition MCTL_DTR :: u8 where "MCTL_DTR = 0x01"
definition MCTL_RTS :: u8 where "MCTL_RTS = 0x02"
definition MCTL_OUT2 :: u8 where "MCTL_OUT2 = 0x08"
definition LST_DRDY :: u8 where "LST_DRDY = 0x01"
definition LST_TREG_EMPTY :: u8 where "LST_TREG_EMPTY = 0x20"
definition LST_ERROR :: u8 where "LST_ERROR = 0x80"
definition SER_8N2 :: u32 where "SER_8N2 = 1"

lemmas uart_regs = UART1_BASE_def UART2_BASE_def UART_DATA_def UART_INTR_def UART_DIVLO_def UART_DIVHI_def UART_FIFO_def UART_IID_def
  UART_LCTL_def UART_MCTL_def UART_LSTAT_def
lemmas uart_bits = INTR_RECV_def FIFO_ENABLE_def FIFO_RECV_CLEAR_def FIFO_SEND_CLEAR_def IID_PENDING_def LCTL_BITS_8_def LCTL_STOP_2_def
  LCTL_DLAB_def COM_FMT_8N1_def COM_FMT_8N2_def MCTL_DTR_def MCTL_RTS_def MCTL_OUT2_def LST_DRDY_def LST_TREG_EMPTY_def LST_ERROR_def

record serial_port =
  base :: u16
  intr_line :: u32
  blocking :: bool
  inbuf :: "u8 list"
  inbuf_ridx :: nat
  inbuf_widx :: nat

definition closed_port :: serial_port where
  "closed_port = \<lparr>base = 0, intr_line = 0, blocking = False, inbuf = replicate 256 0, inbuf_ridx = 0, inbuf_widx = 0\<rparr>"

record 'h serial = "'h intr" +
  ports :: "serial_port list"
  num_open :: int
  linebuf :: "u8 list"
  line_widx :: nat

datatype stop = Waiting | Overrun

definition uart_base :: "nat \<Rightarrow> u16" where "uart_base i = [UART1_BASE, UART2_BASE] ! i"
definition uart_irq :: "nat \<Rightarrow> u32" where "uart_irq i = [UART1_IRQ, UART2_IRQ] ! i"

definition BNEXT :: "nat \<Rightarrow> nat" where "BNEXT x = (x + 1) AND 0xff"

definition upd_port :: "nat \<Rightarrow> (serial_port \<Rightarrow> serial_port) \<Rightarrow> ('h, 'z) serial_scheme \<Rightarrow> ('h, 'z) serial_scheme" where
  "upd_port i f s = s\<lparr>ports := (ports s)[i := f (ports s ! i)]\<rparr>"

section \<open>Opening and closing\<close>

text \<open>\<open>recv\<close> names the handler \<open>recv_intr\<close>; the baud rate is not 0.\<close>

definition ser_open :: "'h \<Rightarrow> int \<Rightarrow> int \<Rightarrow> u32 \<Rightarrow> (('h, 'z) serial_scheme, int) state" where
  "ser_open recv pidx baud mode = (
     let dv = word_of_int (c_div 115200 baud) :: u16
     in if pidx < 0 \<or> 1 < pidx then ret (-1)
        else do {
          p \<leftarrow> gets (\<lambda>s. ports s ! nat pidx);
          if base p \<noteq> 0 then ret (-1)
          else do {
            modify (upd_port (nat pidx) (\<lambda>_. closed_port));
            (let b = uart_base (nat pidx); fmt = (if mode AND SER_8N2 \<noteq> 0 then COM_FMT_8N2 else COM_FMT_8N1) in do {
              interrupt (IRQ_TO_INTR (uart_irq (nat pidx))) (Some recv);
              outb LCTL_DLAB (b + UART_LCTL);
              outb (ucast (dv AND 0xff)) (b + UART_DIVLO);
              outb (ucast (drop_bit 8 dv AND 0xff)) (b + UART_DIVHI);
              outb fmt (b + UART_LCTL);
              outb (FIFO_ENABLE OR FIFO_SEND_CLEAR OR FIFO_RECV_CLEAR) (b + UART_FIFO);
              outb (MCTL_DTR OR MCTL_RTS OR MCTL_OUT2) (b + UART_MCTL);
              outb INTR_RECV (b + UART_INTR);
              modify (upd_port (nat pidx) (\<lambda>p. p\<lparr>base := b, intr_line := uart_irq (nat pidx), blocking := True\<rparr>));
              modify (\<lambda>s. s\<lparr>num_open := num_open s + 1\<rparr>);
              ret pidx }) } })"

definition ser_close :: "nat \<Rightarrow> (('h, 'z) serial_scheme, unit) state" where
  "ser_close fd = do {
     modify (\<lambda>s. s\<lparr>num_open := num_open s - 1\<rparr>);
     n \<leftarrow> gets num_open;
     p \<leftarrow> gets (\<lambda>s. ports s ! fd);
     (if n = 0 then do { outb 0 (base p + UART_INTR); outb 0 (base p + UART_MCTL) } else ret ());
     modify (upd_port fd (\<lambda>p. p\<lparr>base := 0\<rparr>)) }"

definition ser_block :: "nat \<Rightarrow> (('h, 'z) serial_scheme, int) state" where
  "ser_block fd = do { modify (upd_port fd (\<lambda>p. p\<lparr>blocking := True\<rparr>)); ret 0 }"

definition ser_nonblock :: "nat \<Rightarrow> (('h, 'z) serial_scheme, int) state" where
  "ser_nonblock fd = do { modify (upd_port fd (\<lambda>p. p\<lparr>blocking := False\<rparr>)); ret 0 }"

section \<open>Sending\<close>

definition can_send :: "u16 \<Rightarrow> ('z machine_scheme, bool) state" where
  "can_send b = do { v \<leftarrow> inb (b + UART_LSTAT); ret (v AND LST_TREG_EMPTY \<noteq> 0) }"

partial_function (option) wait_send :: "u16 \<Rightarrow> 'z machine_scheme \<Rightarrow> 'z machine_scheme option" where
  "wait_send b s = (if result_of (can_send b) s then Some (exec (can_send b) s) else wait_send b (exec (can_send b) s))"

declare wait_send.simps [code]

definition send_byte :: "u16 \<Rightarrow> u8 \<Rightarrow> 'z machine_scheme \<Rightarrow> 'z machine_scheme option" where
  "send_byte b c s = map_option (exec (outb c (b + UART_DATA))) (wait_send b s)"

text \<open>A line feed first sends a carriage return, by a call of \<open>ser_putc\<close> to itself.\<close>

definition ser_putc :: "nat \<Rightarrow> u8 \<Rightarrow> ('h, 'z) serial_scheme \<Rightarrow> ('h, 'z) serial_scheme option" where
  "ser_putc fd c s = (let b = base (ports s ! fd) in Option.bind (if c = 10 then send_byte b 13 s else Some s) (send_byte b c))"

fun ser_write :: "nat \<Rightarrow> u8 list \<Rightarrow> ('h, 'z) serial_scheme \<Rightarrow> ('h, 'z) serial_scheme option" where
  "ser_write fd [] s = Some s"
| "ser_write fd (c # cs) s = Option.bind (ser_putc fd c s) (ser_write fd cs)"

section \<open>Receiving\<close>

definition put_in :: "u8 \<Rightarrow> serial_port \<Rightarrow> serial_port" where
  "put_in c p = (
     let p = p\<lparr>inbuf := (inbuf p)[inbuf_widx p := c], inbuf_widx := BNEXT (inbuf_widx p)\<rparr>
     in if inbuf_widx p = inbuf_ridx p then p\<lparr>inbuf_ridx := BNEXT (inbuf_ridx p)\<rparr> else p)"

text \<open>\<open>have_recv\<close>, whose error is a panic.\<close>

definition have_recv :: "u16 \<Rightarrow> 'z machine_scheme \<Rightarrow> fault + bool" where
  "have_recv b s = (let stat = result_of (inb (b + UART_LSTAT)) s
     in if stat AND LST_ERROR \<noteq> 0 then Inl (Panic ''serial receive error'') else Inr (stat AND LST_DRDY \<noteq> 0))"

partial_function (option) recv_bytes :: "nat \<Rightarrow> ('h, 'z) serial_scheme \<Rightarrow> (fault + ('h, 'z) serial_scheme) option" where
  "recv_bytes i s = (
     let b = uart_base i; s1 = exec (inb (b + UART_LSTAT)) s
     in case have_recv b s of
          Inl f \<Rightarrow> Some (Inl f)
        | Inr have \<Rightarrow>
            if have then recv_bytes i (upd_port i (put_in (result_of (inb (b + UART_DATA)) s1)) (exec (inb (b + UART_DATA)) s1))
            else Some (Inr s1))"

declare recv_bytes.simps [code]

partial_function (option) recv_port :: "nat \<Rightarrow> ('h, 'z) serial_scheme \<Rightarrow> (fault + ('h, 'z) serial_scheme) option" where
  "recv_port i s = (
     let b = uart_base i; idreg = result_of (inb (b + UART_IID)) s; s = exec (inb (b + UART_IID)) s
     in if idreg AND IID_PENDING = 0 then
          Option.bind (recv_bytes i s) (\<lambda>r. case r of Inl f \<Rightarrow> Some (Inl f) | Inr s \<Rightarrow> recv_port i s)
        else Some (Inr s))"

declare recv_port.simps [code]

definition recv_intr :: "('h, 'z) serial_scheme \<Rightarrow> (fault + ('h, 'z) serial_scheme) option" where
  "recv_intr s = Option.bind (recv_port 0 s) (\<lambda>r. case r of Inl f \<Rightarrow> Some (Inl f) | Inr s \<Rightarrow> recv_port 1 s)"

section \<open>Reading\<close>

definition ser_pending :: "nat \<Rightarrow> ('h, 'z) serial_scheme \<Rightarrow> bool" where
  "ser_pending fd s \<longleftrightarrow> inbuf_ridx (ports s ! fd) \<noteq> inbuf_widx (ports s ! fd)"

fun ser_wait :: "(('h, 'z) serial_scheme \<Rightarrow> ('h, 'z) serial_scheme) list \<Rightarrow> nat \<Rightarrow> ('h, 'z) serial_scheme \<Rightarrow>
    stop + (('h, 'z) serial_scheme \<Rightarrow> ('h, 'z) serial_scheme) list \<times> ('h, 'z) serial_scheme" where
  "ser_wait es fd s =
     (if ser_pending fd s then Inr (es, s) else case es of [] \<Rightarrow> Inl Waiting | e # es \<Rightarrow> ser_wait es fd (e s))"

text \<open>The character is a signed \<open>char\<close>.\<close>

definition take_in :: "nat \<Rightarrow> ('h, 'z) serial_scheme \<Rightarrow> int \<times> ('h, 'z) serial_scheme" where
  "take_in fd s =
     (sint (inbuf (ports s ! fd) ! inbuf_ridx (ports s ! fd)), upd_port fd (\<lambda>p. p\<lparr>inbuf_ridx := BNEXT (inbuf_ridx p)\<rparr>) s)"

definition ser_getc :: "(('h, 'z) serial_scheme \<Rightarrow> ('h, 'z) serial_scheme) list \<Rightarrow> nat \<Rightarrow> ('h, 'z) serial_scheme \<Rightarrow>
    stop + (('h, 'z) serial_scheme \<Rightarrow> ('h, 'z) serial_scheme) list \<times> int \<times> ('h, 'z) serial_scheme" where
  "ser_getc es fd s =
     (if blocking (ports s ! fd) then
        (case ser_wait es fd s of Inl e \<Rightarrow> Inl e | Inr (es, s) \<Rightarrow> Inr (es, take_in fd s))
      else if ser_pending fd s then Inr (es, take_in fd s)
      else Inr (es, -1, s))"

text \<open>\<open>ser_read\<close> gives the characters it stores, with the number still wanted as argument.\<close>

fun ser_read :: "(('h, 'z) serial_scheme \<Rightarrow> ('h, 'z) serial_scheme) list \<Rightarrow> nat \<Rightarrow> nat \<Rightarrow> ('h, 'z) serial_scheme \<Rightarrow>
    stop + (('h, 'z) serial_scheme \<Rightarrow> ('h, 'z) serial_scheme) list \<times> u8 list \<times> ('h, 'z) serial_scheme" where
  "ser_read es fd 0 s = Inr (es, [], s)"
| "ser_read es fd (Suc k) s =
     (case ser_getc es fd s of
        Inl e \<Rightarrow> Inl e
      | Inr (es, c, s) \<Rightarrow>
          if c \<noteq> -1 then
            (case ser_read es fd k s of Inl e \<Rightarrow> Inl e | Inr (es, cs, s) \<Rightarrow> Inr (es, word_of_int c # cs, s))
          else Inr (es, [], s))"

lemma ser_read_length: "ser_read es fd k s = Inr (es', cs, s') \<Longrightarrow> length cs \<le> k"
  by (induction k arbitrary: es s es' cs s') (auto split: sum.splits if_splits)

text \<open>The loop of \<open>ser_getline\<close> that fills the line buffer, with the room in it.\<close>

function fill_line :: "(('h, 'z) serial_scheme \<Rightarrow> ('h, 'z) serial_scheme) list \<Rightarrow> nat \<Rightarrow> nat \<Rightarrow> ('h, 'z) serial_scheme \<Rightarrow>
    stop + (('h, 'z) serial_scheme \<Rightarrow> ('h, 'z) serial_scheme) list \<times> ('h, 'z) serial_scheme" where
  "fill_line es fd room s =
     (if room = 0 then Inr (es, s)
      else case ser_read es fd room s of
             Inl e \<Rightarrow> Inl e
           | Inr (es, cs, s) \<Rightarrow>
               if cs = [] then Inr (es, s)
               else fill_line es fd (room - length cs)
                 (s\<lparr>linebuf := take (line_widx s) (linebuf s) @ cs @ drop (line_widx s + length cs) (linebuf s),
                    line_widx := line_widx s + length cs\<rparr>))"
  by pat_completeness auto
termination
  by (relation "measure (\<lambda>(es, fd, room, s). room)") auto

declare fill_line.simps [simp del] ser_wait.simps [simp del]

definition ser_getline :: "(('h, 'z) serial_scheme \<Rightarrow> ('h, 'z) serial_scheme) list \<Rightarrow> nat \<Rightarrow> int \<Rightarrow> ('h, 'z) serial_scheme \<Rightarrow>
    stop + (('h, 'z) serial_scheme \<Rightarrow> ('h, 'z) serial_scheme) list \<times> u8 list option \<times> ('h, 'z) serial_scheme" where
  "ser_getline es fd bsz s =
     (case fill_line es fd (512 - line_widx s) s of
        Inl e \<Rightarrow> Inl e
      | Inr (es, s) \<Rightarrow>
          if 512 \<le> line_widx s then Inl Overrun
          else
            let s = s\<lparr>linebuf := (linebuf s)[line_widx s := 0]\<rparr>
            in case find (\<lambda>i. linebuf s ! i = 13 \<or> linebuf s ! i = 10) [0..<line_widx s] of
                 None \<Rightarrow> Inr (es, None, s)
               | Some i \<Rightarrow>
                   let size = (if bsz \<le> int i then bsz - 1 else int i); offs = i + 1
                   in if size < 0 then Inl Overrun
                      else Inr (es, Some (take (nat size) (linebuf s)),
                        s\<lparr>linebuf := drop offs (take (line_widx s) (linebuf s)) @ drop (line_widx s - offs) (linebuf s),
                          line_widx := line_widx s - offs\<rparr>))"

section \<open>The rings\<close>

definition queue :: "serial_port \<Rightarrow> u8 list" where "queue p = ring_list (inbuf p) (inbuf_ridx p) (inbuf_widx p)"

definition port_ok :: "serial_port \<Rightarrow> bool" where
  "port_ok p \<longleftrightarrow> length (inbuf p) = 256 \<and> ring_ok (inbuf p) (inbuf_ridx p) (inbuf_widx p)"

definition get_in :: "serial_port \<Rightarrow> u8 option \<times> serial_port" where
  "get_in p = (if inbuf_ridx p = inbuf_widx p then (None, p)
     else (Some (inbuf p ! inbuf_ridx p), p\<lparr>inbuf_ridx := BNEXT (inbuf_ridx p)\<rparr>))"

lemma bnext_mod: "BNEXT x = Suc x mod 256"
  unfolding BNEXT_def using nat_and_mask [of "x + 1" 8] by simp

lemma put_in_ok: "port_ok p \<Longrightarrow> port_ok (put_in c p)"
  using ring_advance [of "inbuf p" "inbuf_ridx p" "inbuf_widx p"] by (auto simp: port_ok_def put_in_def ring_ok_def bnext_mod Let_def)

lemma put_in_queue:
  assumes "port_ok p"
  shows "queue (put_in c p) = (if length (queue p) < 255 then queue p @ [c] else tl (queue p) @ [c])"
proof -
  let ?b = "inbuf p" and ?r = "inbuf_ridx p" and ?w = "inbuf_widx p"
  have len: "length ?b = 256" and ok: "ring_ok ?b ?r ?w" using assms by (simp_all add: port_ok_def)
  have full: "Suc ?w mod 256 = ?r \<longleftrightarrow> \<not> length (queue p) < 255"
    using ring_full_iff [OF ok] ring_length_less [OF ok] len by (auto simp: queue_def)
  show ?thesis
  proof (cases "Suc ?w mod 256 = ?r")
    case True
    then show ?thesis using full ring_put_full [OF ok, of c] len by (simp add: put_in_def queue_def bnext_mod)
  next
    case False
    then show ?thesis using full ring_put [OF ok, of c] len by (simp add: put_in_def queue_def bnext_mod)
  qed
qed

interpretation serq: ring_buffer put_in get_in queue 255 port_ok "\<lambda>_. True"
proof unfold_locales
  fix p :: serial_port and c x :: u8 and xs
  show "0 < (255 :: nat)" by simp
  show "port_ok p \<Longrightarrow> length (queue p) \<le> 255"
    using ring_length_less [of "inbuf p" "inbuf_ridx p" "inbuf_widx p"] by (simp add: port_ok_def queue_def)
  show "port_ok p \<Longrightarrow> port_ok (put_in c p)" by (rule put_in_ok)
  show "port_ok p \<Longrightarrow> queue (put_in c p) = (if length (queue p) < 255 then queue p @ [c] else tl (queue p) @ [c])" by (rule put_in_queue)
  have empty: "port_ok p \<Longrightarrow> queue p = [] \<longleftrightarrow> inbuf_ridx p = inbuf_widx p" by (simp add: port_ok_def queue_def ring_empty_iff)
  show "port_ok p \<Longrightarrow> port_ok (snd (get_in p))" by (auto simp: port_ok_def ring_ok_def get_in_def bnext_mod)
  show "port_ok p \<Longrightarrow> queue p = [] \<Longrightarrow> get_in p = (None, p)" using empty by (simp add: get_in_def)
  show "fst (get_in p) = Some x \<and> queue (snd (get_in p)) = xs" if "port_ok p" "queue p = x # xs"
  proof -
    have ne: "inbuf_ridx p \<noteq> inbuf_widx p" using empty that by auto
    then have "queue p = inbuf p ! inbuf_ridx p # ring_list (inbuf p) (Suc (inbuf_ridx p) mod 256) (inbuf_widx p)"
      using ring_get [of "inbuf p" "inbuf_ridx p" "inbuf_widx p"] that(1) by (simp add: port_ok_def queue_def)
    then show ?thesis using ne that(2) by (simp add: get_in_def queue_def bnext_mod)
  qed
qed

section \<open>Open ports\<close>

text \<open>Opening a port installs the handler at the interrupt of its request line and leaves an empty ring;
  opening it again is an error that changes nothing.\<close>

lemma ser_open_installs:
  assumes "pidx \<in> {0, 1}" "base (ports s ! nat pidx) = 0" "length (ports s) = 2" "length (intr_func s) = 256"
  shows "result_of (ser_open recv pidx baud mode) s = pidx
    \<and> ports (exec (ser_open recv pidx baud mode) s) ! nat pidx
        = closed_port\<lparr>base := uart_base (nat pidx), intr_line := uart_irq (nat pidx), blocking := True\<rparr>
    \<and> intr_func (exec (ser_open recv pidx baud mode) s) ! (if pidx = 0 then 36 else 35) = Some recv
    \<and> num_open (exec (ser_open recv pidx baud mode) s) = num_open s + 1"
  using assms
  by (auto simp: ser_open_def run_simps interrupt_exec upd_port_def logs_def Let_def uart_irq_def UART1_IRQ_def UART2_IRQ_def irq_numbers)

lemma ser_open_twice:
  assumes "pidx \<in> {0, 1}" "base (ports s ! nat pidx) \<noteq> 0"
  shows "run_state (ser_open recv pidx baud mode) s = (-1, s)"
proof -
  have "\<not> pidx < 0" "\<not> 1 < pidx" using assms(1) by auto
  then have "result_of (ser_open recv pidx baud mode) s = -1" "exec (ser_open recv pidx baud mode) s = s"
    using assms(2) by (simp_all add: ser_open_def run_simps Let_def)
  then show ?thesis by (metis exec_def result_of_def prod.collapse)
qed

section \<open>What the handler receives\<close>

text \<open>A device with characters to receive: it has no error, says that there are some while there are, and
  gives the next at each read of its data port.\<close>

definition uart_holds :: "u16 \<Rightarrow> u8 list \<Rightarrow> 'z machine_scheme \<Rightarrow> bool" where
  "uart_holds b xs m \<longleftrightarrow> (\<forall>es. let l = es @ io_log m; k = reads b es in
     dev8 m l (b + UART_LSTAT) AND LST_ERROR = 0
     \<and> (dev8 m l (b + UART_LSTAT) AND LST_DRDY \<noteq> 0 \<longleftrightarrow> k < length xs)
     \<and> (dev8 m l (b + UART_IID) AND IID_PENDING = 0 \<longleftrightarrow> k < length xs)
     \<and> (k < length xs \<longrightarrow> dev8 m l (b + UART_DATA) = xs ! k))"

lemma uart_now:
  assumes "uart_holds b xs m"
  shows "dev8 m (io_log m) (b + UART_LSTAT) AND LST_ERROR = 0" "dev8 m (io_log m) (b + UART_LSTAT) AND LST_DRDY \<noteq> 0 \<longleftrightarrow> xs \<noteq> []"
    "dev8 m (io_log m) (b + UART_IID) AND IID_PENDING = 0 \<longleftrightarrow> xs \<noteq> []" "xs \<noteq> [] \<Longrightarrow> dev8 m (io_log m) (b + UART_DATA) = hd xs"
  using assms [unfolded uart_holds_def Let_def, rule_format, of "[]"] by (auto simp: hd_conv_nth)

lemma uart_logs:
  assumes "uart_holds b xs m"
  shows "uart_holds b (drop (reads b es) xs) (logs es m)"
  unfolding uart_holds_def Let_def
proof
  fix es'
  have "(reads b es' < length (drop (reads b es) xs)) = (reads b (es' @ es) < length xs)" by auto
  moreover have "reads b es' < length (drop (reads b es) xs) \<Longrightarrow> drop (reads b es) xs ! reads b es' = xs ! reads b (es' @ es)"
    by (simp add: add.commute)
  ultimately show "dev8 (logs es m) (es' @ io_log (logs es m)) (b + UART_LSTAT) AND LST_ERROR = 0
     \<and> (dev8 (logs es m) (es' @ io_log (logs es m)) (b + UART_LSTAT) AND LST_DRDY \<noteq> 0 \<longleftrightarrow> reads b es' < length (drop (reads b es) xs))
     \<and> (dev8 (logs es m) (es' @ io_log (logs es m)) (b + UART_IID) AND IID_PENDING = 0 \<longleftrightarrow> reads b es' < length (drop (reads b es) xs))
     \<and> (reads b es' < length (drop (reads b es) xs) \<longrightarrow> dev8 (logs es m) (es' @ io_log (logs es m)) (b + UART_DATA) = drop (reads b es) xs ! reads b es')"
    using assms [unfolded uart_holds_def Let_def, rule_format, of "es' @ es"] by simp
qed

lemma upd_port_logs: "logs es (upd_port i f s) = upd_port i f (logs es s)"
  by (simp add: logs_def upd_port_def)

lemma upd_port_simps [simp]:
  "io_log (upd_port i f s) = io_log s" "dev8 (upd_port i f s) = dev8 s" "length (ports (upd_port i f s)) = length (ports s)"
  "i < length (ports s) \<Longrightarrow> ports (upd_port i f s) ! i = f (ports s ! i)" "j \<noteq> i \<Longrightarrow> ports (upd_port i f s) ! j = ports s ! j"
  "ports (logs es s) = ports s"
  by (simp_all add: upd_port_def logs_def)

lemma upd_port_upd: "i < length (ports s) \<Longrightarrow> upd_port i g (upd_port i f s) = upd_port i (g \<circ> f) s"
  by (simp add: upd_port_def)

lemma upd_port_id: "upd_port i id s = s"
  by (simp add: upd_port_def)

lemma uart_upd: "uart_holds b xs (upd_port i f s) = uart_holds b xs s"
  by (simp add: uart_holds_def)

lemma recv_bytes_all:
  assumes "uart_holds (uart_base i) xs s" "i < 2" "length (ports s) = 2"
  shows "\<exists>es. recv_bytes i s = Some (Inr (upd_port i (fold put_in xs) (logs es s))) \<and> reads (uart_base i) es = length xs \<and> reads (uart_base (1 - i)) es = 0"
  using assms
proof (induction xs arbitrary: s)
  case Nil
  note u = uart_now [OF Nil.prems(1)]
  have "recv_bytes i s = Some (Inr (logs [In8 (uart_base i + UART_LSTAT)] s))"
    using u(1,2) by (subst recv_bytes.simps) (simp add: have_recv_def Let_def)
  moreover have "uart_base i + UART_LSTAT \<noteq> uart_base j" if "j < 2" for j
    using that Nil.prems(2) by (auto simp: uart_base_def uart_regs less_2_cases_iff)
  ultimately show ?case using Nil.prems(2)
    by (intro exI [of _ "[In8 (uart_base i + UART_LSTAT)]"]) (simp add: upd_port_id [unfolded id_def] UART_LSTAT_def)
next
  case (Cons x xs)
  let ?b = "uart_base i" and ?es = "[In8 (uart_base i), In8 (uart_base i + UART_LSTAT)]"
  have d: "?b + UART_DATA = ?b" by (simp add: UART_DATA_def)
  have ne: "?b + UART_LSTAT \<noteq> uart_base j" "j \<noteq> i \<Longrightarrow> ?b \<noteq> uart_base j" if "j < 2" for j
    using that Cons.prems(2) by (auto simp: uart_base_def uart_regs less_2_cases_iff)
  have "uart_holds ?b (x # xs) (logs [In8 (?b + UART_LSTAT)] s)"
    using uart_logs [OF Cons.prems(1), of "[In8 (?b + UART_LSTAT)]"] ne(1) [OF Cons.prems(2)] by simp
  from uart_now(4) [OF this] have x: "dev8 s (In8 (?b + UART_LSTAT) # io_log s) ?b = x" by (simp add: d)
  let ?s = "upd_port i (put_in x) (logs ?es s)"
  have "recv_bytes i s = recv_bytes i ?s"
    using uart_now(1,2) [OF Cons.prems(1)] x by (subst recv_bytes.simps) (simp add: have_recv_def Let_def d)
  moreover have "uart_holds ?b xs ?s"
    unfolding uart_upd using uart_logs [OF Cons.prems(1), of ?es] ne(1) [OF Cons.prems(2)] by simp
  then obtain es where es: "recv_bytes i ?s = Some (Inr (upd_port i (fold put_in xs) (logs es ?s)))" "reads ?b es = length xs" "reads (uart_base (1 - i)) es = 0"
    using Cons.IH [of ?s] Cons.prems(2,3) by auto
  moreover have "upd_port i (fold put_in xs) (logs es ?s) = upd_port i (fold put_in (x # xs)) (logs (es @ ?es) s)"
    using Cons.prems(2,3) by (simp add: upd_port_logs upd_port_upd)
  moreover have "?b \<noteq> uart_base (1 - i)" using Cons.prems(2) by (auto simp: uart_base_def uart_regs less_2_cases_iff)
  then have "reads ?b (es @ ?es) = length (x # xs)" "reads (uart_base (1 - i)) (es @ ?es) = 0"
    using es(2,3) ne(1) [of "1 - i"] ne(1) [of i] Cons.prems(2) by simp_all
  ultimately show ?case by metis
qed

lemma recv_port_all:
  assumes "uart_holds (uart_base i) xs s" "i < 2" "length (ports s) = 2"
  shows "\<exists>es. recv_port i s = Some (Inr (upd_port i (fold put_in xs) (logs es s))) \<and> reads (uart_base i) es = length xs \<and> reads (uart_base (1 - i)) es = 0"
proof -
  let ?b = "uart_base i"
  let ?e = "In8 (?b + UART_IID)"
  have ne: "?b + UART_IID \<noteq> uart_base j" if "j < 2" for j
    using that assms(2) by (auto simp: uart_base_def uart_regs less_2_cases_iff)
  have idle: "recv_port i t = Some (Inr (logs [?e] t))" if "uart_holds ?b [] t" for t
    using uart_now(3) [OF that] by (subst recv_port.simps) (simp add: Let_def)
  show ?thesis
  proof (cases xs)
    case Nil
    then show ?thesis using idle assms ne [of i] ne [of "1 - i"]
      by (intro exI [of _ "[?e]"]) (simp add: upd_port_id)
  next
    case (Cons x ys)
    have u: "uart_holds ?b xs (logs [?e] s)" using uart_logs [OF assms(1), of "[?e]"] ne [OF assms(2)] by simp
    obtain es where es: "recv_bytes i (logs [?e] s) = Some (Inr (upd_port i (fold put_in xs) (logs es (logs [?e] s))))"
      "reads ?b es = length xs" "reads (uart_base (1 - i)) es = 0"
      using recv_bytes_all [OF u assms(2)] assms(3) by auto
    let ?t = "upd_port i (fold put_in xs) (logs es (logs [?e] s))"
    have "uart_holds ?b [] ?t" unfolding uart_upd using uart_logs [OF u, of es] es(2) by simp
    then have "recv_port i s = Some (Inr (logs [?e] ?t))"
      using uart_now(3) [OF assms(1)] Cons es(1) idle by (subst recv_port.simps) (simp add: Let_def)
    then show ?thesis using es(2,3) ne [of i] ne [of "1 - i"] assms(2)
      by (intro exI [of _ "[?e] @ es @ [?e]"]) (simp add: upd_port_logs)
  qed
qed

lemma recv_intr_all:
  assumes "uart_holds UART1_BASE xs s" "uart_holds UART2_BASE ys s" "length (ports s) = 2"
  shows "\<exists>es. recv_intr s = Some (Inr (upd_port 1 (fold put_in ys) (upd_port 0 (fold put_in xs) (logs es s))))"
proof -
  have b: "uart_base 0 = UART1_BASE" "uart_base 1 = UART2_BASE" by (simp_all add: uart_base_def)
  obtain es where es: "recv_port 0 s = Some (Inr (upd_port 0 (fold put_in xs) (logs es s)))" "reads UART2_BASE es = 0"
    using recv_port_all [of 0 xs s] assms(1,3) b by auto
  let ?s = "upd_port 0 (fold put_in xs) (logs es s)"
  have "uart_holds UART2_BASE ys ?s" unfolding uart_upd using uart_logs [OF assms(2), of es] es(2) by simp
  then obtain es' where "recv_port 1 ?s = Some (Inr (upd_port 1 (fold put_in ys) (logs es' ?s)))"
    using recv_port_all [of 1 ys ?s] assms(3) b by auto
  then show ?thesis using es(1) by (intro exI [of _ "es' @ es"]) (simp add: recv_intr_def upd_port_logs)
qed

text \<open>C30: the interrupt handler takes the characters of both devices until they have none, and puts them
  into the rings of their ports, each of which keeps the last 255.\<close>

theorem recv_intr_receives:
  assumes "uart_holds UART1_BASE xs s" "uart_holds UART2_BASE ys s" "ports s = [p, q]" "port_ok p" "port_ok q"
  shows "\<exists>s' p' q'. recv_intr s = Some (Inr s') \<and> ports s' = [p', q'] \<and> port_ok p' \<and> port_ok q'
    \<and> queue p' = drop (length (queue p @ xs) - 255) (queue p @ xs) \<and> queue q' = drop (length (queue q @ ys) - 255) (queue q @ ys)"
proof -
  obtain es where "recv_intr s = Some (Inr (upd_port 1 (fold put_in ys) (upd_port 0 (fold put_in xs) (logs es s))))"
    using recv_intr_all [OF assms(1,2)] assms(3) by auto
  moreover have "ports (upd_port 1 (fold put_in ys) (upd_port 0 (fold put_in xs) (logs es s))) = [fold put_in xs p, fold put_in ys q]"
    using assms(3) by (simp add: upd_port_def)
  ultimately show ?thesis
    using serq.puts_queue [OF assms(4), of xs] serq.puts_queue [OF assms(5), of ys] by (simp add: list_all_iff)
qed

text \<open>A device that is not there reads as zeros and never has anything.\<close>

definition demo_uart :: "u16 \<Rightarrow> u8 list \<Rightarrow> io_event list \<Rightarrow> u16 \<Rightarrow> u8" where
  "demo_uart b xs l p =
     (if p = b + UART_LSTAT then if reads b l < length xs then 1 else 0
      else if p = b + UART_DATA then if reads b l < length xs then xs ! reads b l else 0
      else if p = b + UART_IID then if reads b l < length xs then 4 else 1
      else if p = UART2_BASE + UART_IID then 1 else 0)"

definition demo_serial :: "u8 list \<Rightarrow> unit serial" where
  "demo_serial xs = \<lparr>io_log = [], dev8 = demo_uart UART1_BASE xs, dev16 = (\<lambda>_ _. 0), dev32 = (\<lambda>_ _. 0), intr_on = False,
     idt = [], intr_func = [], cur_intr_frame = None, eoi_pending = 0,
     ports = [closed_port, closed_port], num_open = 1, linebuf = replicate 512 0, line_widx = 0\<rparr>"

lemma closed_port_ok: "port_ok closed_port" "queue closed_port = []"
  by (simp_all add: port_ok_def closed_port_def ring_ok_def queue_def ring_list_def)

lemma demo_holds: "uart_holds UART1_BASE xs (demo_serial xs)" "uart_holds UART2_BASE [] (demo_serial xs)"
  by (auto simp: uart_holds_def demo_serial_def demo_uart_def uart_regs uart_bits)

lemma recv_intr_receives_witness:
  "\<exists>s' p' q'. recv_intr (demo_serial [72, 105]) = Some (Inr s') \<and> ports s' = [p', q'] \<and> queue p' = [72, 105] \<and> queue q' = []"
proof -
  have p: "ports (demo_serial [72, 105]) = [closed_port, closed_port]" by (simp add: demo_serial_def)
  from recv_intr_receives [OF demo_holds p closed_port_ok(1) closed_port_ok(1)]
  show ?thesis unfolding closed_port_ok(2) by simp blast
qed

section \<open>What the readers return\<close>

lemma sint_ff: "sint x = -1 \<longleftrightarrow> x = 0xff" for x :: u8
proof -
  have "sint x = -1 \<longleftrightarrow> x = - 1" using signed_word_eqI [of x "- 1"] by auto
  moreover have "(0xff :: u8) = - 1" by simp
  ultimately show ?thesis by (simp only:)
qed

lemma pending_iff:
  assumes "fd < length (ports s)" "port_ok (ports s ! fd)"
  shows "ser_pending fd s \<longleftrightarrow> queue (ports s ! fd) \<noteq> []"
proof -
  have "ring_ok (inbuf (ports s ! fd)) (inbuf_ridx (ports s ! fd)) (inbuf_widx (ports s ! fd))" using assms(2) by (simp add: port_ok_def)
  from ring_empty_iff [OF this] show ?thesis by (simp add: ser_pending_def queue_def)
qed

lemma take_in_get:
  assumes "fd < length (ports s)" "port_ok (ports s ! fd)" "queue (ports s ! fd) = x # xs"
  shows "take_in fd s = (sint x, upd_port fd (snd \<circ> get_in) s)" "queue (snd (get_in (ports s ! fd))) = xs"
    "port_ok (snd (get_in (ports s ! fd)))" "blocking (snd (get_in (ports s ! fd))) = blocking (ports s ! fd)"
proof -
  have "inbuf_ridx (ports s ! fd) \<noteq> inbuf_widx (ports s ! fd)" using pending_iff [OF assms(1,2)] assms(3) by (simp add: ser_pending_def)
  then show "take_in fd s = (sint x, upd_port fd (snd \<circ> get_in) s)" "blocking (snd (get_in (ports s ! fd))) = blocking (ports s ! fd)"
    using serq.get_queue [OF assms(2,3)] by (simp_all add: take_in_def get_in_def upd_port_def)
  show "queue (snd (get_in (ports s ! fd))) = xs" "port_ok (snd (get_in (ports s ! fd)))"
    using serq.get_queue [OF assms(2,3)] serq.get_ok [OF assms(2)] by simp_all
qed

lemma ser_read_queue:
  assumes "fd < length (ports s)" "port_ok (ports s ! fd)" "\<not> blocking (ports s ! fd)" "queue (ports s ! fd) = q"
  shows "\<exists>f. ser_read es fd n s = Inr (es, takeWhile (\<lambda>c. c \<noteq> 0xff) (take n q), upd_port fd f s)
    \<and> port_ok (f (ports s ! fd)) \<and> \<not> blocking (f (ports s ! fd))
    \<and> queue (f (ports s ! fd)) = (let t = takeWhile (\<lambda>c. c \<noteq> 0xff) (take n q)
         in drop (if length t < length (take n q) then length t + 1 else length t) q)"
  using assms
proof (induction n arbitrary: s q)
  case 0
  then show ?case by (intro exI [of _ id]) (simp add: upd_port_id [unfolded id_def])
next
  case (Suc n)
  show ?case
  proof (cases q)
    case Nil
    then show ?thesis using Suc.prems pending_iff [OF Suc.prems(1,2)]
      by (intro exI [of _ id]) (simp add: upd_port_id [unfolded id_def] ser_getc_def)
  next
    case (Cons x xs)
    note t = take_in_get [OF Suc.prems(1,2) Suc.prems(4) [unfolded Cons]]
    let ?s = "upd_port fd (snd \<circ> get_in) s"
    have g: "ser_getc es fd s = Inr (es, sint x, ?s)"
      using Suc.prems Cons pending_iff [OF Suc.prems(1,2)] t(1) by (simp add: ser_getc_def)
    show ?thesis
    proof (cases "x = 0xff")
      case True
      then show ?thesis using g t Suc.prems(1,3) sint_ff [of x] Cons by (intro exI [of _ "snd \<circ> get_in"]) (simp add: comp_def)
    next
      case False
      then have ne: "sint x \<noteq> -1" using sint_ff by blast
      have p: "ports ?s ! fd = snd (get_in (ports s ! fd))" using Suc.prems(1) by simp
      obtain f where f: "ser_read es fd n ?s = Inr (es, takeWhile (\<lambda>c. c \<noteq> 0xff) (take n xs), upd_port fd f ?s)"
        and ok: "port_ok (f (ports ?s ! fd))" "\<not> blocking (f (ports ?s ! fd))"
        and q: "queue (f (ports ?s ! fd)) = (let t = takeWhile (\<lambda>c. c \<noteq> 0xff) (take n xs)
         in drop (if length t < length (take n xs) then length t + 1 else length t) xs)"
        using Suc.IH [of ?s xs] t Suc.prems(1,3) p by auto
      show ?thesis
      proof (intro exI [of _ "f \<circ> (snd \<circ> get_in)"] conjI)
        show "ser_read es fd (Suc n) s = Inr (es, takeWhile (\<lambda>c. c \<noteq> 0xff) (take (Suc n) q), upd_port fd (f \<circ> (snd \<circ> get_in)) s)"
          using g ne f False Cons upd_port_upd [OF Suc.prems(1), of f "snd \<circ> get_in"] by simp
      qed (use ok q p Cons False in \<open>simp_all add: Let_def\<close>)
    qed
  qed
qed

text \<open>A reader that does not wait gets the characters received so far, in their order and at most as many
  as it wants, but only up to the first 0xff, which is taken out of the ring and lost.\<close>

theorem ser_read_returns:
  assumes "fd < length (ports s)" "port_ok (ports s ! fd)" "\<not> blocking (ports s ! fd)"
  shows "\<exists>s'. ser_read es fd n s = Inr (es, takeWhile (\<lambda>c. c \<noteq> 0xff) (take n (queue (ports s ! fd))), s')
    \<and> queue (ports s' ! fd) = (let t = takeWhile (\<lambda>c. c \<noteq> 0xff) (take n (queue (ports s ! fd)))
         in drop (if length t < length (take n (queue (ports s ! fd))) then length t + 1 else length t) (queue (ports s ! fd)))"
  using ser_read_queue [OF assms refl, of es n] assms(1) by (metis upd_port_simps(4))

lemma ser_read_returns_witness:
  "\<exists>s'. ser_read [] 0 3 ((demo_serial [])\<lparr>ports := [fold put_in [65, 0xff, 66] closed_port]\<rparr>) = Inr ([], [65], s') \<and> queue (ports s' ! 0) = [66]"
proof -
  let ?s = "(demo_serial [])\<lparr>ports := [fold put_in [65, 0xff, 66] closed_port]\<rparr>"
  have q: "queue (fold put_in [65, 0xff, 66] closed_port) = [65, 0xff, 66]" "port_ok (fold put_in [65, 0xff, 66] closed_port)"
    using serq.puts_queue [OF closed_port_ok(1), of "[65, 0xff, 66]"] closed_port_ok(2) by simp_all
  have b: "\<not> blocking (fold put_in [65, 0xff, 66] closed_port)" by (simp add: put_in_def closed_port_def Let_def)
  have "fd < length (ports ?s) \<longleftrightarrow> fd = 0" "ports ?s ! 0 = fold put_in [65, 0xff, 66] closed_port" for fd by simp_all
  then show ?thesis using ser_read_returns [of 0 ?s "[]" 3] q b by (simp only: q) simp
qed

lemma ser_read_waits:
  assumes "fd < length (ports s)" "port_ok (ports s ! fd)" "blocking (ports s ! fd)" "length (queue (ports s ! fd)) < n" "0xff \<notin> set (queue (ports s ! fd))"
  shows "ser_read [] fd n s = Inl Waiting"
  using assms
proof (induction n arbitrary: s)
  case (Suc n)
  show ?case
  proof (cases "queue (ports s ! fd)")
    case Nil
    then show ?thesis using Suc.prems pending_iff [OF Suc.prems(1,2)] by (simp add: ser_getc_def ser_wait.simps)
  next
    case (Cons x xs)
    note t = take_in_get [OF Suc.prems(1,2) Cons]
    let ?s = "upd_port fd (snd \<circ> get_in) s"
    have g: "ser_getc [] fd s = Inr ([], sint x, ?s)"
      using Suc.prems Cons pending_iff [OF Suc.prems(1,2)] t(1) by (simp add: ser_getc_def ser_wait.simps)
    moreover have "sint x \<noteq> -1" using Suc.prems(5) Cons sint_ff [of x] by auto
    moreover have "ser_read [] fd n ?s = Inl Waiting"
      by (rule Suc.IH) (use t Suc.prems Cons in simp_all)
    ultimately show ?thesis by simp
  qed
qed simp

text \<open>A reader that waits never gives back fewer characters than it wants: a line that has been received
  completely is not returned by \<open>ser_getline\<close> before 512 characters are there. This is how a port is opened.\<close>

theorem getline_waits_for_full_buffer:
  assumes "fd < length (ports s)" "port_ok (ports s ! fd)" "blocking (ports s ! fd)" "0xff \<notin> set (queue (ports s ! fd))"
    "line_widx s + length (queue (ports s ! fd)) < 512"
  shows "ser_getline [] fd bsz s = Inl Waiting"
proof -
  have r: "length (queue (ports s ! fd)) < 512 - line_widx s" using assms(5) by simp
  have "ser_read [] fd (512 - line_widx s) s = Inl Waiting" by (rule ser_read_waits [OF assms(1-3) r assms(4)])
  then have "fill_line [] fd (512 - line_widx s) s = Inl Waiting" using r by (subst fill_line.simps) simp
  then show ?thesis by (simp add: ser_getline_def)
qed

lemma getline_waits_for_full_buffer_witness:
  "ser_getline [] 0 80 ((demo_serial [])\<lparr>ports := [fold put_in [65, 13] (closed_port\<lparr>blocking := True\<rparr>)]\<rparr>) = Inl Waiting"
proof -
  let ?p = "closed_port\<lparr>blocking := True\<rparr>"
  have "port_ok ?p" "queue ?p = []" using closed_port_ok by (simp_all add: port_ok_def queue_def)
  then have "queue (fold put_in [65, 13] ?p) = [65, 13]" "port_ok (fold put_in [65, 13] ?p)"
    using serq.puts_queue [of ?p "[65, 13]"] by simp_all
  moreover have "blocking (fold put_in [65, 13] ?p)" by (simp add: put_in_def Let_def)
  ultimately show ?thesis
    using getline_waits_for_full_buffer [of 0 "(demo_serial [])\<lparr>ports := [fold put_in [65, 13] ?p]\<rparr>" 80]
    by (simp add: demo_serial_def del: fold_simps)
qed

text \<open>Without waiting, the line buffer takes what was received, and the first line comes off its front.\<close>

lemma fill_line_all:
  assumes "fd < length (ports s)" "port_ok (ports s ! fd)" "\<not> blocking (ports s ! fd)" "0xff \<notin> set (queue (ports s ! fd))"
    "length (queue (ports s ! fd)) < room" "line_widx s + room = 512" "length (linebuf s) = 512"
  shows "\<exists>s'. fill_line es fd room s = Inr (es, s') \<and> queue (ports s' ! fd) = [] \<and> length (linebuf s') = 512
    \<and> line_widx s' = line_widx s + length (queue (ports s ! fd)) \<and> take (line_widx s') (linebuf s') = take (line_widx s) (linebuf s) @ queue (ports s ! fd)"
proof -
  let ?q = "queue (ports s ! fd)"
  have tw: "takeWhile (\<lambda>c. c \<noteq> 0xff) (take room ?q) = ?q"
    using assms(4,5) by (simp add: takeWhile_eq_all_conv) (metis in_set_takeD)
  obtain f where f: "ser_read es fd room s = Inr (es, ?q, upd_port fd f s)" "queue (f (ports s ! fd)) = []"
    "port_ok (f (ports s ! fd))" "\<not> blocking (f (ports s ! fd))"
    using ser_read_queue [OF assms(1-3) refl, of es room] assms(5) unfolding tw by auto
  show ?thesis
  proof (cases "?q = []")
    case True
    then show ?thesis using f assms by (subst fill_line.simps) (simp add: upd_port_def)
  next
    case False
    let ?t = "(upd_port fd f s)\<lparr>linebuf := take (line_widx s) (linebuf s) @ ?q @ drop (line_widx s + length ?q) (linebuf s), line_widx := line_widx s + length ?q\<rparr>"
    have "ser_read es fd (room - length ?q) ?t = Inr (es, [], upd_port fd g ?t) \<and> queue (g (ports ?t ! fd)) = []"
      if "ser_read es fd (room - length ?q) ?t = Inr (es, takeWhile (\<lambda>c. c \<noteq> 0xff) (take (room - length ?q) []), upd_port fd g ?t)"
        "queue (g (ports ?t ! fd)) = drop 0 []" for g
      using that by simp
    then obtain g where g: "ser_read es fd (room - length ?q) ?t = Inr (es, [], upd_port fd g ?t)" "queue (g (ports ?t ! fd)) = []"
      using ser_read_queue [of fd ?t "[]" es "room - length ?q"] f assms(1) by auto
    have "fill_line es fd room s = fill_line es fd (room - length ?q) ?t"
      using f(1) False assms(5,6) by (subst fill_line.simps) (simp add: upd_port_def)
    also have "\<dots> = Inr (es, upd_port fd g ?t)" using g(1) assms(5) by (subst fill_line.simps) simp
    finally show ?thesis using g(2) assms(1,5-7) by (simp add: upd_port_def)
  qed
qed

lemma find_upt: "k < n \<Longrightarrow> P k \<Longrightarrow> (\<And>i. i < k \<Longrightarrow> \<not> P i) \<Longrightarrow> find P [0..<n] = Some k"
  unfolding find_Some_iff by (rule exI [of _ k]) simp

text \<open>Without waiting, \<open>ser_getline\<close> returns the characters in front of the first carriage return or line
  feed, of what it kept from earlier and what has been received since, and keeps what is behind.\<close>

theorem getline_first_line:
  assumes "fd < length (ports s)" "port_ok (ports s ! fd)" "\<not> blocking (ports s ! fd)" "0xff \<notin> set (queue (ports s ! fd))"
    "line_widx s + length (queue (ports s ! fd)) < 512" "length (linebuf s) = 512"
    "take (line_widx s) (linebuf s) @ queue (ports s ! fd) = line @ c # rest" "c = 13 \<or> c = 10" "13 \<notin> set line" "10 \<notin> set line" "int (length line) < bsz"
  shows "\<exists>s'. ser_getline es fd bsz s = Inr (es, Some line, s') \<and> take (line_widx s') (linebuf s') = rest \<and> queue (ports s' ! fd) = []"
proof -
  let ?q = "queue (ports s ! fd)" and ?k = "length line"
  have room: "length ?q < 512 - line_widx s" "line_widx s + (512 - line_widx s) = 512" using assms(5) by simp_all
  obtain t where t: "fill_line es fd (512 - line_widx s) s = Inr (es, t)" "queue (ports t ! fd) = []" "length (linebuf t) = 512"
    "line_widx t = line_widx s + length ?q" "take (line_widx t) (linebuf t) = line @ c # rest"
    using fill_line_all [OF assms(1-4) room assms(6), of es] unfolding assms(7) by blast
  have w: "line_widx t < 512" using t(4) assms(5) by simp
  have "length (line @ c # rest) = line_widx t" using w t(3) unfolding t(5) [symmetric] by simp
  then have k: "?k < line_widx t" "line_widx t = Suc (?k + length rest)" by simp_all
  let ?b = "(linebuf t)[line_widx t := 0]"
  have b: "take (line_widx t) ?b = line @ c # rest" using t(5) by simp
  have nth: "?b ! i = (line @ c # rest) ! i" if "i < line_widx t" for i
    unfolding b [symmetric] using that by simp
  have "find (\<lambda>i. ?b ! i = 13 \<or> ?b ! i = 10) [0..<line_widx t] = Some ?k"
  proof (rule find_upt [OF k(1)])
    show "?b ! ?k = 13 \<or> ?b ! ?k = 10" using nth [OF k(1)] assms(8) by simp
    fix i assume i: "i < ?k"
    then have "?b ! i = line ! i" using nth [of i] k(1) by (simp add: nth_append)
    moreover have "line ! i \<in> set line" using i by simp
    ultimately show "\<not> (?b ! i = 13 \<or> ?b ! i = 10)" using assms(9,10) by metis
  qed
  moreover have "take ?k ?b = line"
  proof -
    have "take ?k ?b = take ?k (take (line_widx t) ?b)" using k(1) by simp
    also have "\<dots> = line" unfolding b by simp
    finally show ?thesis .
  qed
  moreover have "drop (?k + 1) (take (line_widx t) ?b) = rest" unfolding b by simp
  moreover have "length rest = line_widx t - (?k + 1)" using k(2) by simp
  ultimately show ?thesis using t w assms(11) by (simp add: ser_getline_def Let_def)
qed

lemma getline_first_line_witness:
  "\<exists>s'. ser_getline [] 0 80 ((demo_serial [])\<lparr>ports := [fold put_in [104, 105, 13, 10] closed_port]\<rparr>) = Inr ([], Some [104, 105], s')
    \<and> take (line_widx s') (linebuf s') = [10]"
proof -
  let ?p = "fold put_in [104, 105, 13, 10] closed_port" and ?s = "(demo_serial [])\<lparr>ports := [fold put_in [104, 105, 13, 10] closed_port]\<rparr>"
  have q: "queue ?p = [104, 105, 13, 10]" "port_ok ?p"
    using serq.puts_queue [OF closed_port_ok(1), of "[104, 105, 13, 10]"] closed_port_ok(2) by simp_all
  have b: "\<not> blocking ?p" by (simp add: put_in_def closed_port_def Let_def)
  have s: "ports ?s = [?p]" "line_widx ?s = 0" "length (linebuf ?s) = 512" by (simp_all add: demo_serial_def)
  show ?thesis
    using getline_first_line [of 0 ?s "[104, 105]" 13 "[10]" 80 "[]"] q b unfolding s by (simp del: fold_simps) blast
qed

section \<open>What is sent\<close>

definition crlf :: "u8 list \<Rightarrow> u8 list" where "crlf cs = concat (map (\<lambda>c. if c = 10 then [13, 10] else [c]) cs)"

text \<open>A device that becomes ready after it has been asked some times.\<close>

definition uart_sends :: "u16 \<Rightarrow> 'z machine_scheme \<Rightarrow> bool" where
  "uart_sends b m \<longleftrightarrow> (\<forall>es. \<exists>j. dev8 m (replicate j (In8 (b + UART_LSTAT)) @ es @ io_log m) (b + UART_LSTAT) AND LST_TREG_EMPTY \<noteq> 0)"

lemma uart_sends_logs: "uart_sends b m \<Longrightarrow> uart_sends b (logs es m)"
  unfolding uart_sends_def by (simp add: logs_def) (metis append.assoc)

lemma can_send_simps: "result_of (can_send b) s = (dev8 s (io_log s) (b + UART_LSTAT) AND LST_TREG_EMPTY \<noteq> 0)"
  "exec (can_send b) s = logs [In8 (b + UART_LSTAT)] s"
  by (simp_all add: can_send_def run_simps)

lemma wait_send_after:
  assumes "dev8 s (replicate j (In8 (b + UART_LSTAT)) @ io_log s) (b + UART_LSTAT) AND LST_TREG_EMPTY \<noteq> 0"
  shows "\<exists>k. wait_send b s = Some (logs (replicate k (In8 (b + UART_LSTAT))) s)"
  using assms
proof (induction j arbitrary: s)
  case 0
  then show ?case by (subst wait_send.simps) (simp add: can_send_simps exI [of _ 1])
next
  case (Suc j)
  show ?case
  proof (cases "result_of (can_send b) s")
    case True
    then show ?thesis by (subst wait_send.simps) (simp add: can_send_simps exI [of _ 1])
  next
    case False
    obtain k where "wait_send b (logs [In8 (b + UART_LSTAT)] s) = Some (logs (replicate k (In8 (b + UART_LSTAT))) (logs [In8 (b + UART_LSTAT)] s))"
      using Suc.IH [of "logs [In8 (b + UART_LSTAT)] s"] Suc.prems by (auto simp: replicate_app_Cons_same)
    then show ?thesis using False
      by (subst wait_send.simps) (simp add: can_send_simps replicate_append_same exI [of _ "Suc k"])
  qed
qed

lemma send_byte_sends:
  assumes "uart_sends b s"
  shows "\<exists>es. send_byte b c s = Some (logs es s) \<and> writes es = [(b + UART_DATA, c)]"
proof -
  obtain j where "dev8 s (replicate j (In8 (b + UART_LSTAT)) @ io_log s) (b + UART_LSTAT) AND LST_TREG_EMPTY \<noteq> 0"
    using assms unfolding uart_sends_def by (metis append.left_neutral)
  then obtain k where "wait_send b s = Some (logs (replicate k (In8 (b + UART_LSTAT))) s)" using wait_send_after by blast
  moreover have "writes (replicate k (In8 p)) = []" for k p by (induction k) simp_all
  ultimately show ?thesis
    by (intro exI [of _ "Out8 (b + UART_DATA) c # replicate k (In8 (b + UART_LSTAT))"]) (simp add: send_byte_def)
qed

lemma ser_putc_sends:
  assumes "uart_sends (base (ports s ! fd)) s"
  shows "\<exists>es. ser_putc fd c s = Some (logs es s) \<and> writes es = map (Pair (base (ports s ! fd) + UART_DATA)) (crlf [c])"
proof -
  let ?b = "base (ports s ! fd)"
  obtain es where es: "send_byte ?b 13 s = Some (logs es s)" "writes es = [(?b + UART_DATA, 13)]" using send_byte_sends [OF assms] by blast
  obtain fs where fs: "send_byte ?b c (logs es s) = Some (logs fs (logs es s))" "writes fs = [(?b + UART_DATA, c)]"
    using send_byte_sends [OF uart_sends_logs [OF assms]] by blast
  show ?thesis
  proof (cases "c = 10")
    case True
    then show ?thesis using es fs by (simp add: ser_putc_def Let_def crlf_def writes_append exI [of _ "fs @ es"])
  next
    case False
    then show ?thesis using send_byte_sends [OF assms, of c] by (simp add: ser_putc_def Let_def crlf_def)
  qed
qed

text \<open>\<open>ser_write\<close> returns once the device has taken all characters, and sends them in their order, a
  carriage return in front of every line feed.\<close>

theorem ser_write_sends:
  assumes "uart_sends (base (ports s ! fd)) s"
  shows "\<exists>es. ser_write fd cs s = Some (logs es s) \<and> writes es = map (Pair (base (ports s ! fd) + UART_DATA)) (crlf cs)"
  using assms
proof (induction cs arbitrary: s)
  case (Cons c cs)
  obtain es where es: "ser_putc fd c s = Some (logs es s)" "writes es = map (Pair (base (ports s ! fd) + UART_DATA)) (crlf [c])"
    using ser_putc_sends [OF Cons.prems] by blast
  obtain fs where fs: "ser_write fd cs (logs es s) = Some (logs fs (logs es s))"
    "writes fs = map (Pair (base (ports s ! fd) + UART_DATA)) (crlf cs)"
    using Cons.IH [of "logs es s"] uart_sends_logs [OF Cons.prems, of es] by auto
  show ?case using es fs by (intro exI [of _ "fs @ es"]) (simp add: writes_append crlf_def)
qed (simp add: crlf_def exI [of _ "[]"])

lemma ser_write_sends_witness:
  "\<exists>es. ser_write 0 [104, 10] ((demo_serial [])\<lparr>dev8 := \<lambda>_ _. 0x60, ports := [closed_port\<lparr>base := UART1_BASE\<rparr>]\<rparr>)
      = Some (logs es ((demo_serial [])\<lparr>dev8 := \<lambda>_ _. 0x60, ports := [closed_port\<lparr>base := UART1_BASE\<rparr>]\<rparr>))
    \<and> writes es = [(0x3f8, 104), (0x3f8, 13), (0x3f8, 10)]"
proof -
  let ?s = "(demo_serial [])\<lparr>dev8 := \<lambda>_ _. 0x60, ports := [closed_port\<lparr>base := UART1_BASE\<rparr>]\<rparr>"
  have "uart_sends (base (ports ?s ! 0)) ?s" by (simp add: uart_sends_def LST_TREG_EMPTY_def)
  from ser_write_sends [OF this, of "[104, 10]"] show ?thesis by (simp add: crlf_def uart_regs)
qed

end
