(* ===== verification/Contty.thy ===== *)
theory Contty
  imports Serial
begin

text \<open>
  The console (\<open>src/contty.c\<close>), in the configuration that is built: text mode and a copy to the first
  serial port. The text memory is a map from cells, counted from its start, so that writes outside
  the screen are seen. Lines scroll by moving the start of the screen through the memory.
\<close>

definition VIRT_ROWS :: int where "VIRT_ROWS = 200"
definition NCOLS :: int where "NCOLS = 80"
definition NROWS :: int where "NROWS = 25"
definition CRTC_ADDR :: u16 where "CRTC_ADDR = 0x3d4"
definition CRTC_DATA :: u16 where "CRTC_DATA = 0x3d5"
definition CRTC_REG_CURSTART :: u8 where "CRTC_REG_CURSTART = 0x0a"
definition CRTC_REG_CUREND :: u8 where "CRTC_REG_CUREND = 0x0b"
definition CRTC_REG_START_H :: u8 where "CRTC_REG_START_H = 0x0c"
definition CRTC_REG_START_L :: u8 where "CRTC_REG_START_L = 0x0d"
definition CRTC_REG_CURLOC_H :: u8 where "CRTC_REG_CURLOC_H = 0x0e"
definition CRTC_REG_CURLOC_L :: u8 where "CRTC_REG_CURLOC_L = 0x0f"

lemmas con_sizes = VIRT_ROWS_def NCOLS_def NROWS_def

datatype cursor_shape = CON_CURSOR_LINE | CON_CURSOR_BLOCK

record 'h contty = "'h serial" +
  vmem :: "int \<Rightarrow> u16"
  cursor_x :: int
  cursor_y :: int
  txattr :: u8
  start_line :: int
  cy0 :: u8
  cy1 :: u8
  curvis :: bool
  scr_on :: bool

definition VMEM_CHAR :: "int \<Rightarrow> u8 \<Rightarrow> u16" where
  "VMEM_CHAR c attr = (word_of_int c AND 0xff) OR push_bit 8 (ucast attr)"

definition crtc_write :: "u8 \<Rightarrow> u8 \<Rightarrow> ('z machine_scheme, unit) state" where
  "crtc_write reg val = do { outb reg CRTC_ADDR; outb val CRTC_DATA }"

definition crtc_read :: "u8 \<Rightarrow> ('z machine_scheme, u8) state" where
  "crtc_read reg = do { outb reg CRTC_ADDR; inb CRTC_DATA }"

definition crtc_cursor :: "int \<Rightarrow> int \<Rightarrow> (('h, 'z) contty_scheme, unit) state" where
  "crtc_cursor x y = do {
     sl \<leftarrow> gets start_line;
     let addr = word_of_int ((y + sl) * NCOLS + x) :: u32 in do {
       crtc_write CRTC_REG_CURLOC_L (ucast addr);
       crtc_write CRTC_REG_CURLOC_H (ucast (drop_bit 8 addr)) } }"

definition crtc_setstart :: "int \<Rightarrow> ('z machine_scheme, unit) state" where
  "crtc_setstart y = (let addr = word_of_int (y * NCOLS) :: u32 in do {
     crtc_write CRTC_REG_START_L (ucast addr);
     crtc_write CRTC_REG_START_H (ucast (drop_bit 8 addr)) })"

text \<open>\<open>memset16\<close> on the text memory, and \<open>memcpy\<close> to its start of \<open>n\<close> cells from \<open>src\<close>.\<close>

definition fill_cells :: "int \<Rightarrow> u16 \<Rightarrow> int \<Rightarrow> (int \<Rightarrow> u16) \<Rightarrow> int \<Rightarrow> u16" where
  "fill_cells p v n m = (\<lambda>i. if p \<le> i \<and> i < p + n then v else m i)"

definition copy_cells :: "int \<Rightarrow> int \<Rightarrow> (int \<Rightarrow> u16) \<Rightarrow> int \<Rightarrow> u16" where
  "copy_cells src n m = (\<lambda>i. if 0 \<le> i \<and> i < n then m (src + i) else m i)"

section \<open>Operations\<close>

definition con_show_cursor :: "bool \<Rightarrow> (('h, 'z) contty_scheme, unit) state" where
  "con_show_cursor show_it = do {
     v \<leftarrow> gets (\<lambda>s. cy0 s AND 0x1f);
     crtc_write CRTC_REG_CURSTART (if \<not> show_it then v OR 0x20 else v);
     modify (\<lambda>s. s\<lparr>curvis := show_it\<rparr>) }"

definition con_init :: "'h \<Rightarrow> (('h, 'z) contty_scheme, int) state" where
  "con_init recv = do {
     _ \<leftarrow> ser_open recv 0 9600 0;
     a \<leftarrow> crtc_read CRTC_REG_CURSTART;
     modify (\<lambda>s. s\<lparr>curvis := (a AND 0x20 \<noteq> 0), cy0 := a AND 0x1f\<rparr>);
     b \<leftarrow> crtc_read CRTC_REG_CUREND;
     modify (\<lambda>s. s\<lparr>cy1 := b AND 0x1f\<rparr>);
     con_show_cursor True;
     crtc_setstart 0;
     x \<leftarrow> gets cursor_x;
     y \<leftarrow> gets cursor_y;
     crtc_cursor x y;
     modify (\<lambda>s. s\<lparr>scr_on := True\<rparr>);
     ret 0 }"

definition con_scr_enable :: "(('h, 'z) contty_scheme, unit) state" where
  "con_scr_enable = modify (\<lambda>s. s\<lparr>scr_on := True\<rparr>)"

definition con_scr_disable :: "(('h, 'z) contty_scheme, unit) state" where
  "con_scr_disable = modify (\<lambda>s. s\<lparr>scr_on := False\<rparr>)"

definition con_cursor :: "int \<Rightarrow> int \<Rightarrow> (('h, 'z) contty_scheme, unit) state" where
  "con_cursor x y = do { modify (\<lambda>s. s\<lparr>cursor_x := x, cursor_y := y\<rparr>); crtc_cursor x y }"

definition con_curattr :: "cursor_shape \<Rightarrow> bool \<Rightarrow> (('h, 'z) contty_scheme, unit) state" where
  "con_curattr shape blink = do {
     modify (\<lambda>s. s\<lparr>cy0 := (if shape = CON_CURSOR_LINE then 0xd else 0), cy1 := 0xe\<rparr>);
     c \<leftarrow> gets cy0;
     vis \<leftarrow> gets curvis;
     crtc_write CRTC_REG_CURSTART (if vis then c OR 0x20 else c);
     crtc_write CRTC_REG_CUREND c }"

definition con_fgcolor :: "u8 \<Rightarrow> (('h, 'z) contty_scheme, unit) state" where
  "con_fgcolor c = modify (\<lambda>s. s\<lparr>txattr := (txattr s AND 0xf0) OR c\<rparr>)"

definition con_bgcolor :: "u8 \<Rightarrow> (('h, 'z) contty_scheme, unit) state" where
  "con_bgcolor c = modify (\<lambda>s. s\<lparr>txattr := (txattr s AND 0x0f) OR push_bit 4 c\<rparr>)"

definition con_setattr :: "u8 \<Rightarrow> (('h, 'z) contty_scheme, unit) state" where
  "con_setattr attr = modify (\<lambda>s. s\<lparr>txattr := attr\<rparr>)"

definition con_getattr :: "(('h, 'z) contty_scheme, u8) state" where "con_getattr = gets txattr"

definition con_clear :: "(('h, 'z) contty_scheme, unit) state" where
  "con_clear = do {
     modify (\<lambda>s. s\<lparr>vmem := fill_cells 0 (VMEM_CHAR 32 (txattr s)) (NCOLS * NROWS) (vmem s), start_line := 0\<rparr>);
     crtc_setstart 0;
     modify (\<lambda>s. s\<lparr>cursor_x := 0, cursor_y := 0\<rparr>);
     crtc_cursor 0 0 }"

text \<open>The source of the copy is \<open>start_line * NCOLS\<close> bytes into the memory, two bytes to a cell.\<close>

definition scroll :: "(('h, 'z) contty_scheme, unit) state" where
  "scroll = do {
     modify (\<lambda>s. s\<lparr>start_line := start_line s + 1\<rparr>);
     modify (\<lambda>s. if VIRT_ROWS - NROWS < start_line s
       then s\<lparr>vmem := copy_cells (start_line s * NCOLS div 2) ((NROWS - 1) * NCOLS) (vmem s), start_line := 0\<rparr> else s);
     modify (\<lambda>s. s\<lparr>vmem := fill_cells ((start_line s + NROWS - 1) * NCOLS) (VMEM_CHAR 32 (txattr s)) NCOLS (vmem s)\<rparr>);
     sl \<leftarrow> gets start_line;
     crtc_setstart sl }"

definition linefeed :: "(('h, 'z) contty_scheme, unit) state" where
  "linefeed = do {
     modify (\<lambda>s. s\<lparr>cursor_y := cursor_y s + 1\<rparr>);
     y \<leftarrow> gets cursor_y;
     if NROWS \<le> y then do { scroll; modify (\<lambda>s. s\<lparr>cursor_y := cursor_y s - 1\<rparr>) } else ret () }"

definition con_putchar_scr :: "int \<Rightarrow> int \<Rightarrow> int \<Rightarrow> (('h, 'z) contty_scheme, unit) state" where
  "con_putchar_scr x y c = modify (\<lambda>s. s\<lparr>vmem := (vmem s)((y + start_line s) * NCOLS + x := VMEM_CHAR c (txattr s))\<rparr>)"

definition show_cursor_at :: "(('h, 'z) contty_scheme, unit) state" where
  "show_cursor_at = do { x \<leftarrow> gets cursor_x; y \<leftarrow> gets cursor_y; crtc_cursor x y }"

definition wrap_cursor :: "(('h, 'z) contty_scheme, unit) state" where
  "wrap_cursor = do {
     x \<leftarrow> gets cursor_x;
     if NCOLS \<le> x then do { linefeed; modify (\<lambda>s. s\<lparr>cursor_x := 0\<rparr>) } else ret () }"

text \<open>The part of \<open>con_putchar\<close> that writes to the screen.\<close>

definition screen_putchar :: "int \<Rightarrow> (('h, 'z) contty_scheme, unit) state" where
  "screen_putchar c =
     (if c = 10 then do { linefeed; modify (\<lambda>s. s\<lparr>cursor_x := 0\<rparr>); show_cursor_at }
      else if c = 13 then do { modify (\<lambda>s. s\<lparr>cursor_x := 0\<rparr>); show_cursor_at }
      else if c = 9 then do {
        modify (\<lambda>s. s\<lparr>cursor_x := (cursor_x s AND 7) + 8\<rparr>);
        wrap_cursor;
        show_cursor_at }
      else if c = 8 then do {
        modify (\<lambda>s. if 0 < cursor_x s then s\<lparr>cursor_x := cursor_x s - 1\<rparr> else s);
        x \<leftarrow> gets cursor_x; y \<leftarrow> gets cursor_y;
        con_putchar_scr x y 32;
        show_cursor_at }
      else do {
        x \<leftarrow> gets cursor_x; y \<leftarrow> gets cursor_y;
        con_putchar_scr x y c;
        modify (\<lambda>s. s\<lparr>cursor_x := cursor_x s + 1\<rparr>);
        wrap_cursor;
        show_cursor_at })"

definition con_putchar :: "int \<Rightarrow> ('h, 'z) contty_scheme \<Rightarrow> ('h, 'z) contty_scheme option" where
  "con_putchar c s = ser_putc 0 (word_of_int c) (if scr_on s then exec (screen_putchar c) s else s)"

fun con_puts :: "int list \<Rightarrow> ('h, 'z) contty_scheme \<Rightarrow> ('h, 'z) contty_scheme option" where
  "con_puts [] s = Some s"
| "con_puts (c # cs) s = Option.bind (con_putchar c s) (con_puts cs)"

text \<open>\<open>con_printf\<close> after the formatting: \<open>cs\<close> is what \<open>vsnprintf\<close> has put into the buffer.\<close>

fun con_text :: "int \<Rightarrow> int \<Rightarrow> int list \<Rightarrow> (('h, 'z) contty_scheme, int) state" where
  "con_text x y [] = ret 0"
| "con_text x y (c # cs) = (if x < 80 then do { con_putchar_scr x y c; n \<leftarrow> con_text (x + 1) y cs; ret (n + 1) } else ret 0)"

section \<open>The terminal it is\<close>

text \<open>A terminal of 25 rows and 80 columns, without memory behind the screen. A tab goes to the next
  column that is a multiple of 8.\<close>

record terminal =
  cells :: "int \<Rightarrow> int \<Rightarrow> u16"
  cx :: int
  cy :: int
  attr :: u8

definition term_put :: "int \<Rightarrow> terminal \<Rightarrow> terminal" where
  "term_put c t = t\<lparr>cells := (\<lambda>r k. if r = cy t \<and> k = cx t then VMEM_CHAR c (attr t) else cells t r k)\<rparr>"

definition term_linefeed :: "terminal \<Rightarrow> terminal" where
  "term_linefeed t = (if cy t = 24 then t\<lparr>cells := (\<lambda>r k. if r = 24 then VMEM_CHAR 32 (attr t) else cells t (r + 1) k)\<rparr>
     else t\<lparr>cy := cy t + 1\<rparr>)"

definition term_wrap :: "terminal \<Rightarrow> terminal" where
  "term_wrap t = (if 80 \<le> cx t then (term_linefeed t)\<lparr>cx := 0\<rparr> else t)"

definition term_putchar :: "int \<Rightarrow> terminal \<Rightarrow> terminal" where
  "term_putchar c t =
     (if c = 10 then (term_linefeed t)\<lparr>cx := 0\<rparr>
      else if c = 13 then t\<lparr>cx := 0\<rparr>
      else if c = 9 then term_wrap (t\<lparr>cx := (cx t div 8 + 1) * 8\<rparr>)
      else if c = 8 then term_put 32 (t\<lparr>cx := (if 0 < cx t then cx t - 1 else 0)\<rparr>)
      else term_wrap ((term_put c t)\<lparr>cx := cx t + 1\<rparr>))"

text \<open>The display controller: a register is chosen and then written. What it shows starts at the cell in two of its registers,
  and the cursor is at that in two others.\<close>

record crtc =
  reg_idx :: u8
  crtc_reg :: "u8 \<Rightarrow> u8"

definition crtc_step :: "u16 \<times> u8 \<Rightarrow> crtc \<Rightarrow> crtc" where
  "crtc_step w d = (if fst w = 0x3d4 then d\<lparr>reg_idx := snd w\<rparr>
     else if fst w = 0x3d5 then d\<lparr>crtc_reg := (crtc_reg d)(reg_idx d := snd w)\<rparr> else d)"

definition crtc_after :: "'z machine_scheme \<Rightarrow> crtc \<Rightarrow> crtc" where
  "crtc_after m d = fold crtc_step (writes (io_log m)) d"

definition shown_at :: "crtc \<Rightarrow> int" where "shown_at d = 256 * uint (crtc_reg d 0x0c) + uint (crtc_reg d 0x0d)"
definition cursor_at :: "crtc \<Rightarrow> int" where "cursor_at d = 256 * uint (crtc_reg d 0x0e) + uint (crtc_reg d 0x0f)"

text \<open>What the display shows is a terminal: its cells, from the one the controller starts at, and its cursor.\<close>

definition con_shows :: "crtc \<Rightarrow> terminal \<Rightarrow> 'z machine_scheme \<Rightarrow> (int \<Rightarrow> u16) \<Rightarrow> bool" where
  "con_shows d t m v \<longleftrightarrow> 0 \<le> cx t \<and> cx t < 80 \<and> 0 \<le> cy t \<and> cy t < 25
     \<and> (\<forall>r k. 0 \<le> r \<longrightarrow> r < 25 \<longrightarrow> 0 \<le> k \<longrightarrow> k < 80 \<longrightarrow> v (shown_at (crtc_after m d) + r * 80 + k) = cells t r k)
     \<and> cursor_at (crtc_after m d) = shown_at (crtc_after m d) + cy t * 80 + cx t"

text \<open>The variables of the driver agree with it, the console is not switched off, and the serial port sends.\<close>

definition con_ready :: "crtc \<Rightarrow> terminal \<Rightarrow> ('h, 'z) contty_scheme \<Rightarrow> bool" where
  "con_ready d t s \<longleftrightarrow> cursor_x s = cx t \<and> cursor_y s = cy t \<and> txattr s = attr t
     \<and> 0 \<le> start_line s \<and> start_line s \<le> VIRT_ROWS - NROWS \<and> shown_at (crtc_after s d) = start_line s * NCOLS
     \<and> scr_on s \<and> base (ports s ! 0) \<in> {UART1_BASE, UART2_BASE} \<and> uart_sends (base (ports s ! 0)) s"

text \<open>How many lines the terminal moves up for a character, and for a text.\<close>

definition line_moved :: "int \<Rightarrow> terminal \<Rightarrow> int" where
  "line_moved c t = of_bool (cy t = 24 \<and> (c = 10 \<or> c \<notin> {8, 9, 10, 13} \<and> cx t = 79))"

fun lines_moved :: "int list \<Rightarrow> terminal \<Rightarrow> int" where
  "lines_moved [] t = 0"
| "lines_moved (c # cs) t = line_moved c t + lines_moved cs (term_putchar c t)"

lemma lines_moved_range: "0 \<le> lines_moved cs t" "lines_moved cs t \<le> int (length cs)"
  by (induction cs arbitrary: t) (simp_all add: line_moved_def add_mono of_bool_def)

lemma crtc_after_logs: "crtc_after (logs es m) d = fold crtc_step (writes es) (crtc_after m d)"
  by (simp add: crtc_after_def writes_append)

lemma crtc_other: "p \<notin> {0x3d4, 0x3d5} \<Longrightarrow> fold crtc_step (map (Pair p) vs) d = d"
  by (induction vs) (simp_all add: crtc_step_def)

lemma two_bytes:
  fixes a :: int
  assumes "0 \<le> a" "a < 65536"
  shows "256 * uint (ucast (drop_bit 8 (word_of_int a :: u32)) :: u8) + uint (ucast (word_of_int a :: u32) :: u8) = a"
proof -
  have u: "uint (word_of_int a :: u32) = a" using assms by (simp add: uint_word_of_int take_bit_int_eq_self)
  have "uint (drop_bit 8 (word_of_int a :: u32)) = a div 256" by (simp only: unsigned_drop_bit_eq u) (use assms in \<open>simp add: take_bit_int_eq_self drop_bit_eq_div\<close>)
  then have "uint (ucast (drop_bit 8 (word_of_int a :: u32)) :: u8) = a div 256 mod 256" by (simp add: unsigned_ucast_eq take_bit_eq_mod)
  also have "\<dots> = a div 256" using assms by simp
  finally show ?thesis by (simp add: unsigned_ucast_eq take_bit_eq_mod u)
qed

text \<open>The console holds a terminal when its part of the text memory has the same cells.\<close>

definition con_holds :: "terminal \<Rightarrow> ('h, 'z) contty_scheme \<Rightarrow> bool" where
  "con_holds t s \<longleftrightarrow> cursor_x s = cx t \<and> cursor_y s = cy t \<and> txattr s = attr t
     \<and> 0 \<le> cy t \<and> cy t < 25
     \<and> (\<forall>r k. 0 \<le> r \<longrightarrow> r < 25 \<longrightarrow> 0 \<le> k \<longrightarrow> k < 80 \<longrightarrow> vmem s ((start_line s + r) * 80 + k) = cells t r k)"

lemma logs_con [simp]:
  "vmem (logs es s) = vmem s" "cursor_x (logs es s) = cursor_x s" "cursor_y (logs es s) = cursor_y s" "txattr (logs es s) = txattr s"
  "start_line (logs es s) = start_line s" "scr_on (logs es s) = scr_on s"
  "vmem_update f (logs es s) = logs es (vmem_update f s)" "cursor_x_update g (logs es s) = logs es (cursor_x_update g s)"
  "cursor_y_update g (logs es s) = logs es (cursor_y_update g s)" "start_line_update g (logs es s) = logs es (start_line_update g s)"
  by (simp_all add: logs_def)

lemma crtc_exec:
  "\<exists>es. exec (crtc_cursor x y) s = logs es s" "\<exists>es. exec (crtc_setstart y) m = logs es m" "\<exists>es. exec show_cursor_at s = logs es s"
  by (simp_all add: crtc_cursor_def crtc_setstart_def crtc_write_def show_cursor_at_def run_simps Let_def exI)

lemma setstart_shown:
  assumes "0 \<le> y" "y \<le> 175"
  shows "shown_at (crtc_after (exec (crtc_setstart y) m) d) = y * 80"
  using two_bytes [of "y * 80"] assms
  by (simp add: crtc_setstart_def crtc_write_def run_simps Let_def crtc_after_logs crtc_step_def shown_at_def CRTC_ADDR_def CRTC_DATA_def NCOLS_def
      CRTC_REG_START_L_def CRTC_REG_START_H_def)

lemma cursor_shown:
  assumes "0 \<le> start_line s" "start_line s \<le> 175" "0 \<le> y" "y < 25" "0 \<le> x" "x < 80"
  shows "cursor_at (crtc_after (exec (crtc_cursor x y) s) d) = (y + start_line s) * 80 + x"
    "shown_at (crtc_after (exec (crtc_cursor x y) s) d) = shown_at (crtc_after s d)"
  using two_bytes [of "(y + start_line s) * 80 + x"] assms
  by (simp_all add: crtc_cursor_def crtc_write_def run_simps Let_def crtc_after_logs crtc_step_def cursor_at_def shown_at_def CRTC_ADDR_def CRTC_DATA_def NCOLS_def
      CRTC_REG_CURLOC_L_def CRTC_REG_CURLOC_H_def)

lemma crtc_after_update [simp]:
  "crtc_after (vmem_update f s) d = crtc_after s d" "crtc_after (cursor_x_update g s) d = crtc_after s d"
  "crtc_after (cursor_y_update g s) d = crtc_after s d" "crtc_after (start_line_update g s) d = crtc_after s d"
  by (simp_all add: crtc_after_def)

lemma cell_eq:
  fixes r r' k k' :: int
  assumes "0 \<le> k" "k < 80" "0 \<le> k'" "k' < 80"
  shows "r * 80 + k = r' * 80 + k' \<longleftrightarrow> r = r' \<and> k = k'"
proof
  assume e: "r * 80 + k = r' * 80 + k'"
  have "(r * 80 + k) div 80 = r" "(r' * 80 + k') div 80 = r'" using assms by simp_all
  then show "r = r' \<and> k = k'" using e by simp
qed simp

lemma scroll_exec:
  assumes "start_line s < 175"
  shows "exec scroll s = exec (crtc_setstart (start_line s + 1)) (s\<lparr>start_line := start_line s + 1,
    vmem := fill_cells ((start_line s + 25) * 80) (VMEM_CHAR 32 (txattr s)) 80 (vmem s)\<rparr>)"
  using assms by (simp add: scroll_def run_simps con_sizes algebra_simps)

text \<open>What a step on the screen leaves alone, how far the start of the screen moves, and that the controller is told.\<close>

definition screen_step :: "int \<Rightarrow> ('h, 'z) contty_scheme \<Rightarrow> ('h, 'z) contty_scheme \<Rightarrow> bool" where
  "screen_step k s s' \<longleftrightarrow> start_line s' = start_line s + k \<and> scr_on s' = scr_on s
     \<and> dev8 s' = dev8 s \<and> ports s' = ports s \<and> (\<exists>es. io_log s' = es @ io_log s)
     \<and> (\<forall>d. shown_at (crtc_after s d) = start_line s * 80 \<longrightarrow> shown_at (crtc_after s' d) = start_line s' * 80)"

lemma con_holds_simps [simp]: "con_holds t (logs es s) = con_holds t s"
  by (simp add: con_holds_def)

lemma linefeed_shows:
  assumes "con_holds t s" "0 \<le> start_line s" "cy t = 24 \<Longrightarrow> start_line s < 175"
  shows "con_holds (term_linefeed t) (exec linefeed s) \<and> screen_step (of_bool (cy t = 24)) s (exec linefeed s) \<and> cursor_x (exec linefeed s) = cursor_x s"
proof (cases "cy t = 24")
  case False
  then have "exec linefeed s = s\<lparr>cursor_y := cursor_y s + 1\<rparr>"
    using assms(1) by (simp add: linefeed_def run_simps con_sizes con_holds_def)
  then show ?thesis using assms(1) False by (simp add: con_holds_def term_linefeed_def screen_step_def)
next
  case True
  let ?t = "s\<lparr>cursor_y := cursor_y s + 1\<rparr>"
  let ?s = "?t\<lparr>start_line := start_line s + 1, vmem := fill_cells ((start_line s + 25) * 80) (VMEM_CHAR 32 (txattr s)) 80 (vmem s), cursor_y := cursor_y s\<rparr>"
  let ?u = "?t\<lparr>start_line := start_line s + 1, vmem := fill_cells ((start_line s + 25) * 80) (VMEM_CHAR 32 (txattr s)) 80 (vmem s)\<rparr>"
  have sc: "exec scroll ?t = exec (crtc_setstart (start_line s + 1)) ?u" using scroll_exec [of ?t] assms(3) True by simp
  obtain es where es: "exec (crtc_setstart (start_line s + 1)) ?u = logs es ?u" using crtc_exec(2) by blast
  have "shown_at (crtc_after (logs es ?u) d) = (start_line s + 1) * 80" for d
    using setstart_shown [of "start_line s + 1" ?u d] assms(2,3) True unfolding es by simp
  then have shown: "shown_at (crtc_after (logs es ?s) d) = (start_line s + 1) * 80" for d by (simp add: crtc_after_logs)
  have "exec linefeed s = logs es ?s"
    using assms(1) True sc es by (simp add: linefeed_def run_simps con_sizes con_holds_def)
  moreover have "con_holds (term_linefeed t) ?s"
    unfolding con_holds_def
  proof (intro conjI allI impI)
    fix r k :: int assume r: "0 \<le> r" "r < 25" and k: "0 \<le> k" "k < 80"
    have cell: "vmem s ((start_line s + q) * 80 + k) = cells t q k" if "0 \<le> q" "q < 25" for q
      using assms(1) that k unfolding con_holds_def by blast
    show "vmem ?s ((start_line ?s + r) * 80 + k) = cells (term_linefeed t) r k"
    proof (cases "r = 24")
      case True
      then show ?thesis using \<open>cy t = 24\<close> assms(1) k by (simp add: fill_cells_def term_linefeed_def con_holds_def)
    next
      case False
      then have "vmem ?s ((start_line ?s + r) * 80 + k) = vmem s ((start_line s + (r + 1)) * 80 + k)"
        using r k by (simp add: fill_cells_def algebra_simps)
      also have "\<dots> = cells t (r + 1) k" using r False by (intro cell) simp_all
      finally show ?thesis using \<open>cy t = 24\<close> False by (simp add: term_linefeed_def)
    qed
  qed (use assms(1) True in \<open>simp_all add: con_holds_def term_linefeed_def\<close>)
  ultimately show ?thesis using True shown by (simp add: screen_step_def)
qed

lemma screen_step_simps:
  "screen_step 0 s s" "screen_step k s s' \<Longrightarrow> screen_step k s (cursor_x_update f s')"
  "screen_step k (cursor_x_update f s) s' = screen_step k s s'" "screen_step k (vmem_update g s) s' = screen_step k s s'"
  by (auto simp: screen_step_def)

lemma shows_put:
  assumes "con_holds t s" "0 \<le> cx t" "cx t < 80"
  shows "con_holds (term_put c t) (s\<lparr>vmem := (vmem s)((cursor_y s + start_line s) * NCOLS + cursor_x s := VMEM_CHAR c (txattr s))\<rparr>)"
  unfolding con_holds_def
proof (intro conjI allI impI)
  fix r k :: int assume r: "0 \<le> r" "r < 25" and k: "0 \<le> k" "k < 80"
  have c: "0 \<le> cx t" "cx t < 80" "cursor_x s = cx t" "cursor_y s = cy t" "txattr s = attr t" using assms by (simp_all add: con_holds_def)
  have "(start_line s + r) * 80 + k = (cy t + start_line s) * NCOLS + cx t \<longleftrightarrow> r = cy t \<and> k = cx t"
    using cell_eq [OF k c(1,2), of "start_line s + r" "cy t + start_line s"] by (auto simp: NCOLS_def)
  moreover have "vmem s ((start_line s + r) * 80 + k) = cells t r k" using assms r k unfolding con_holds_def by blast
  ultimately show "vmem (s\<lparr>vmem := (vmem s)((cursor_y s + start_line s) * NCOLS + cursor_x s := VMEM_CHAR c (txattr s))\<rparr>)
      ((start_line (s\<lparr>vmem := (vmem s)((cursor_y s + start_line s) * NCOLS + cursor_x s := VMEM_CHAR c (txattr s))\<rparr>) + r) * 80 + k)
    = cells (term_put c t) r k"
    using c by (simp add: term_put_def)
qed (use assms in \<open>simp_all add: con_holds_def term_put_def\<close>)

lemma shows_column: "con_holds t s \<Longrightarrow> con_holds (t\<lparr>cx := x\<rparr>) (s\<lparr>cursor_x := x\<rparr>)"
  by (simp add: con_holds_def)

lemma linefeed_column:
  assumes "con_holds t s" "0 \<le> start_line s" "cy t = 24 \<Longrightarrow> start_line s < 175"
  shows "con_holds ((term_linefeed t)\<lparr>cx := 0\<rparr>) ((exec linefeed s)\<lparr>cursor_x := 0\<rparr>)
    \<and> screen_step (of_bool (cy t = 24)) s ((exec linefeed s)\<lparr>cursor_x := 0\<rparr>)"
  using linefeed_shows [OF assms] shows_column [of "term_linefeed t" "exec linefeed s" 0] by (auto intro: screen_step_simps(2))

lemma wrap_shows:
  assumes "con_holds t s" "0 \<le> start_line s" "80 \<le> cx t \<Longrightarrow> cy t = 24 \<Longrightarrow> start_line s < 175"
  shows "con_holds (term_wrap t) (exec wrap_cursor s) \<and> screen_step (of_bool (80 \<le> cx t \<and> cy t = 24)) s (exec wrap_cursor s)"
proof (cases "80 \<le> cx t")
  case True
  then have "exec wrap_cursor s = (exec linefeed s)\<lparr>cursor_x := 0\<rparr>" using assms(1) by (simp add: wrap_cursor_def run_simps NCOLS_def con_holds_def)
  then show ?thesis using linefeed_column [OF assms(1,2)] assms(3) True by (simp add: term_wrap_def)
next
  case False
  then have "exec wrap_cursor s = s" using assms(1) by (simp add: wrap_cursor_def run_simps NCOLS_def con_holds_def)
  then show ?thesis using assms(1) False screen_step_simps(1) [of s] by (simp add: term_wrap_def)
qed

text \<open>At the end of each character the controller is told where the cursor is.\<close>

definition screen_ok :: "crtc \<Rightarrow> terminal \<Rightarrow> ('h, 'z) contty_scheme \<Rightarrow> bool" where
  "screen_ok d t s \<longleftrightarrow> con_holds t s \<and> 0 \<le> cx t \<and> cx t < 80 \<and> 0 \<le> start_line s \<and> start_line s \<le> 175
     \<and> shown_at (crtc_after s d) = start_line s * 80"

lemma show_cursor_shows:
  assumes "con_holds t u" "screen_step k s u" "0 \<le> start_line s" "start_line s + k \<le> 175" "0 \<le> k" "0 \<le> cx t" "cx t < 80"
    "shown_at (crtc_after s d) = start_line s * 80"
  shows "screen_ok d t (exec show_cursor_at u) \<and> screen_step k s (exec show_cursor_at u)
    \<and> cursor_at (crtc_after (exec show_cursor_at u) d) = (start_line (exec show_cursor_at u) + cy t) * 80 + cx t"
proof -
  have c: "cursor_x u = cx t" "cursor_y u = cy t" "0 \<le> cy t" "cy t < 25" using assms(1) by (simp_all add: con_holds_def)
  have e: "exec show_cursor_at u = exec (crtc_cursor (cx t) (cy t)) u" using c by (simp add: show_cursor_at_def run_simps)
  have sl: "start_line u = start_line s + k" using assms(2) by (simp add: screen_step_def)
  then have b: "0 \<le> start_line u" "start_line u \<le> 175" using assms(3-5) by simp_all
  obtain fs where fs: "exec (crtc_cursor (cx t) (cy t)) u = logs fs u" using crtc_exec(1) by blast
  note cur = cursor_shown [OF b c(3,4) assms(6,7), unfolded fs]
  have "shown_at (crtc_after u d) = start_line u * 80" using assms(2,8) by (simp add: screen_step_def)
  then have "screen_ok d t (logs fs u)" using assms(1,6,7) b cur(2) [of d] by (simp add: screen_ok_def)
  moreover have "screen_step k s (logs fs u)" using assms(2) cur(2) by (auto simp: screen_step_def)
  ultimately show ?thesis unfolding e fs using cur(1) [of d] by (simp add: algebra_simps)
qed

lemma screen_putchar_shows:
  assumes "screen_ok d t s" "start_line s + line_moved c t \<le> 175" "c = 9 \<Longrightarrow> cx t = 0"
  shows "screen_ok d (term_putchar c t) (exec (screen_putchar c) s) \<and> screen_step (line_moved c t) s (exec (screen_putchar c) s)
    \<and> cursor_at (crtc_after (exec (screen_putchar c) s) d)
      = (start_line (exec (screen_putchar c) s) + cy (term_putchar c t)) * 80 + cx (term_putchar c t)"
proof -
  have h: "con_holds t s" and x: "0 \<le> cx t" "cx t < 80" and sl: "0 \<le> start_line s" and sh: "shown_at (crtc_after s d) = start_line s * 80"
    using assms(1) by (simp_all add: screen_ok_def)
  have cur: "cursor_x s = cx t" "cursor_y s = cy t" using h by (simp_all add: con_holds_def)
  have by_cursor: ?thesis if "exec (screen_putchar c) s = exec show_cursor_at u" "con_holds (term_putchar c t) u" "screen_step (line_moved c t) s u"
      "0 \<le> cx (term_putchar c t)" "cx (term_putchar c t) < 80" for u
    using show_cursor_shows [OF that(2,3) sl assms(2) _ that(4,5) sh] that(1) by (simp add: line_moved_def)
  consider "c = 10" | "c = 13" | "c = 9" | "c = 8" | "c \<notin> {8, 9, 10, 13}" by blast
  then show ?thesis
  proof cases
    case 1
    then have "exec (screen_putchar c) s = exec show_cursor_at ((exec linefeed s)\<lparr>cursor_x := 0\<rparr>)"
      by (simp add: screen_putchar_def run_simps)
    moreover have "cy t = 24 \<Longrightarrow> start_line s < 175" using assms(2) 1 by (simp add: line_moved_def)
    ultimately show ?thesis using by_cursor linefeed_column [OF h sl] 1 by (simp add: term_putchar_def line_moved_def)
  next
    case 2
    then have "exec (screen_putchar c) s = exec show_cursor_at (s\<lparr>cursor_x := 0\<rparr>)" by (simp add: screen_putchar_def run_simps)
    then show ?thesis using by_cursor shows_column [OF h, of 0] 2 by (simp add: term_putchar_def line_moved_def screen_step_simps)
  next
    case 3
    then have x: "cx t = 0" using assms(3) by blast
    have "exec wrap_cursor (s\<lparr>cursor_x := 8\<rparr>) = s\<lparr>cursor_x := 8\<rparr>" by (simp add: wrap_cursor_def run_simps NCOLS_def)
    then have "exec (screen_putchar c) s = exec show_cursor_at (s\<lparr>cursor_x := 8\<rparr>)"
      using 3 x cur by (simp add: screen_putchar_def run_simps)
    then show ?thesis using by_cursor shows_column [OF h, of 8] 3 x
      by (simp add: term_putchar_def term_wrap_def line_moved_def screen_step_simps)
  next
    case 4
    let ?x = "if 0 < cx t then cx t - 1 else 0"
    let ?s = "s\<lparr>cursor_x := ?x\<rparr>" and ?t = "t\<lparr>cx := ?x\<rparr>"
    let ?u = "?s\<lparr>vmem := (vmem ?s)((cursor_y ?s + start_line ?s) * NCOLS + cursor_x ?s := VMEM_CHAR 32 (txattr ?s))\<rparr>"
    have m: "(if 0 < cursor_x s then s\<lparr>cursor_x := cursor_x s - 1\<rparr> else s) = ?s" using cur x(1) by (cases s) auto
    have "exec (screen_putchar c) s = exec show_cursor_at ?u"
      using 4 by (simp add: screen_putchar_def run_simps con_putchar_scr_def m del: if_split_asm)
    moreover have "con_holds (term_put 32 ?t) ?u" by (rule shows_put [OF shows_column [OF h]]) (use x in simp_all)
    moreover have "screen_step 0 s ?u" by (simp add: screen_step_def)
    ultimately show ?thesis using by_cursor [of ?u] 4 x by (simp add: term_putchar_def term_put_def line_moved_def)
  next
    case 5
    let ?p = "s\<lparr>vmem := (vmem s)((cursor_y s + start_line s) * NCOLS + cursor_x s := VMEM_CHAR c (txattr s))\<rparr>"
    let ?u = "?p\<lparr>cursor_x := cx t + 1\<rparr>" and ?t = "(term_put c t)\<lparr>cx := cx t + 1\<rparr>"
    have e: "exec (screen_putchar c) s = exec show_cursor_at (exec wrap_cursor ?u)"
      using 5 cur by (simp add: screen_putchar_def run_simps con_putchar_scr_def)
    have u: "con_holds ?t ?u" by (intro shows_column shows_put h x)
    have m: "(80 \<le> cx ?t \<and> cy ?t = 24) = (cy t = 24 \<and> cx t = 79)" using x by (auto simp: term_put_def)
    have lm: "line_moved c t = of_bool (80 \<le> cx ?t \<and> cy ?t = 24)" using 5 unfolding m by (simp add: line_moved_def)
    have "80 \<le> cx ?t \<Longrightarrow> cy ?t = 24 \<Longrightarrow> start_line ?u < 175" using assms(2) unfolding lm by simp
    from wrap_shows [OF u _ this] sl have w: "con_holds (term_wrap ?t) (exec wrap_cursor ?u)" "screen_step (line_moved c t) ?u (exec wrap_cursor ?u)"
      unfolding lm by simp_all
    have "screen_step (line_moved c t) s (exec wrap_cursor ?u)" using w(2) by (simp add: screen_step_def)
    then show ?thesis using by_cursor [OF e] w(1) 5 x by (simp add: term_putchar_def term_wrap_def term_linefeed_def)
  qed
qed

lemma term_putchar_bounds:
  assumes "0 \<le> cx t" "cx t < 80"
  shows "0 \<le> cx (term_putchar c t) \<and> cx (term_putchar c t) < 80"
  using assms by (auto simp: term_putchar_def term_put_def term_wrap_def term_linefeed_def)

lemma con_putchar_shows:
  assumes "con_shows d t s (vmem s)" "con_ready d t s" "start_line s + line_moved c t \<le> 175" "c = 9 \<Longrightarrow> cx t = 0"
  shows "\<exists>s'. con_putchar c s = Some s' \<and> con_shows d (term_putchar c t) s' (vmem s') \<and> con_ready d (term_putchar c t) s'
    \<and> start_line s' = start_line s + line_moved c t"
proof -
  let ?u = "exec (screen_putchar c) s" and ?t = "term_putchar c t"
  have r: "scr_on s" "base (ports s ! 0) \<in> {UART1_BASE, UART2_BASE}" "uart_sends (base (ports s ! 0)) s" using assms(2) by (simp_all add: con_ready_def)
  have "con_holds t s" unfolding con_holds_def
    using assms(1,2) by (simp add: con_shows_def con_ready_def NCOLS_def algebra_simps)
  then have "screen_ok d t s" using assms(1,2) by (simp add: screen_ok_def con_shows_def con_ready_def con_sizes)
  from screen_putchar_shows [OF this assms(3,4)] have u: "screen_ok d ?t ?u" "screen_step (line_moved c t) s ?u"
    "cursor_at (crtc_after ?u d) = (start_line ?u + cy ?t) * 80 + cx ?t" by simp_all
  obtain es where es: "dev8 ?u = dev8 s" "ports ?u = ports s" "io_log ?u = es @ io_log s" using u(2) unfolding screen_step_def by blast
  then have b: "uart_sends (base (ports ?u ! 0)) ?u"
    using uart_sends_logs [OF r(3), of es] by (simp add: uart_sends_def)
  obtain fs where fs: "ser_putc 0 (word_of_int c) ?u = Some (logs fs ?u)" "writes fs = map (Pair (base (ports ?u ! 0) + UART_DATA)) (crlf [word_of_int c])"
    using ser_putc_sends [OF b] by blast
  have "base (ports ?u ! 0) + UART_DATA \<notin> {0x3d4, 0x3d5}" using r(2) es(2) by (auto simp: uart_regs)
  then have same: "crtc_after (logs fs ?u) d = crtc_after ?u d" unfolding crtc_after_logs fs(2) by (rule crtc_other)
  have h: "con_holds ?t ?u" "0 \<le> cx ?t" "cx ?t < 80" "0 \<le> start_line ?u" "start_line ?u \<le> 175" "shown_at (crtc_after ?u d) = start_line ?u * 80"
    using u(1) by (simp_all add: screen_ok_def)
  have "con_shows d ?t (logs fs ?u) (vmem ?u)"
    using h(1-3,6) u(3) unfolding con_shows_def same con_holds_def by (simp add: algebra_simps)
  moreover have "con_ready d ?t (logs fs ?u)"
    using h r(1,2) u(2) b uart_sends_logs [OF b, of fs] same by (simp add: con_ready_def con_holds_def screen_step_def con_sizes)
  moreover have "start_line ?u = start_line s + line_moved c t" using u(2) by (simp add: screen_step_def)
  ultimately show ?thesis using r(1) fs(1) by (intro exI [of _ "logs fs ?u"]) (simp add: con_putchar_def)
qed

text \<open>C22: as long as the lines that move up leave the screen within the text memory, what the display controller shows, its cursor included,
  after a text without tabs is what a terminal shows that is given the same characters, and the console is ready for more.\<close>

theorem con_puts_terminal:
  assumes "con_shows d t s (vmem s)" "con_ready d t s" "start_line s + lines_moved cs t \<le> VIRT_ROWS - NROWS" "9 \<notin> set cs"
  shows "\<exists>s'. con_puts cs s = Some s' \<and> con_shows d (fold term_putchar cs t) s' (vmem s') \<and> con_ready d (fold term_putchar cs t) s'
    \<and> start_line s' = start_line s + lines_moved cs t"
  using assms
proof (induction cs arbitrary: s t)
  case (Cons c cs)
  have "start_line s + line_moved c t \<le> 175" "c = 9 \<Longrightarrow> cx t = 0"
    using Cons.prems(3,4) lines_moved_range(1) [of cs "term_putchar c t"] by (auto simp: con_sizes)
  then obtain s' where s': "con_putchar c s = Some s'" "con_shows d (term_putchar c t) s' (vmem s')" "con_ready d (term_putchar c t) s'"
    "start_line s' = start_line s + line_moved c t" using con_putchar_shows [OF Cons.prems(1,2)] by blast
  from Cons.IH [OF s'(2,3)] Cons.prems(3,4) s'(4) show ?case using s'(1) by (auto simp: add.assoc)
qed simp

text \<open>A console that has been cleared shows an empty terminal.\<close>

lemma con_clear_shows:
  "con_shows d \<lparr>cells = (\<lambda>_ _. VMEM_CHAR 32 (txattr s)), cx = 0, cy = 0, attr = txattr s\<rparr> (exec con_clear s) (vmem (exec con_clear s))"
proof -
  let ?s = "s\<lparr>vmem := fill_cells 0 (VMEM_CHAR 32 (txattr s)) (NCOLS * NROWS) (vmem s), start_line := 0\<rparr>"
  obtain es where es: "exec (crtc_setstart 0) ?s = logs es ?s" using crtc_exec(2) by blast
  let ?u = "(logs es ?s)\<lparr>cursor_x := 0, cursor_y := 0\<rparr>"
  have e: "exec con_clear s = exec (crtc_cursor 0 0) ?u" by (simp add: con_clear_def run_simps es)
  have st: "shown_at (crtc_after ?u d) = 0" using setstart_shown [of 0 ?s d] es by (simp add: crtc_after_logs)
  obtain fs where fs: "exec (crtc_cursor 0 0) ?u = logs fs ?u" using crtc_exec(1) by blast
  have c: "cursor_at (crtc_after (logs fs ?u) d) = 0" "shown_at (crtc_after (logs fs ?u) d) = 0"
    using cursor_shown [of ?u 0 0 d] st unfolding fs by simp_all
  then show ?thesis unfolding e fs by (simp add: con_shows_def fill_cells_def con_sizes)
qed

lemma con_shows_cell:
  "con_shows d t m v \<Longrightarrow> 0 \<le> r \<Longrightarrow> r < 25 \<Longrightarrow> 0 \<le> k \<Longrightarrow> k < 80 \<Longrightarrow> v (shown_at (crtc_after m d) + r * 80 + k) = cells t r k"
  unfolding con_shows_def by (elim conjE) blast

definition idle_con :: "int \<Rightarrow> int \<Rightarrow> int \<Rightarrow> (int \<Rightarrow> u16) \<Rightarrow> unit contty" where
  "idle_con x y line m = \<lparr>io_log = [], dev8 = (\<lambda>_ _. 0x60), dev16 = (\<lambda>_ _. 0), dev32 = (\<lambda>_ _. 0), intr_on = True, idt = [], intr_func = [],
     cur_intr_frame = None, eoi_pending = 0, ports = [closed_port, closed_port], num_open = 1, linebuf = [], line_widx = 0,
     vmem = m, cursor_x = x, cursor_y = y, txattr = 7, start_line = line, cy0 = 13, cy1 = 14, curvis = True, scr_on = True\<rparr>"

text \<open>A console that has been cleared after its port was opened.\<close>

definition clear_con :: "unit contty" where
  "clear_con = exec con_clear ((idle_con 7 3 9 (\<lambda>_. 0))\<lparr>ports := [closed_port\<lparr>base := UART1_BASE\<rparr>, closed_port]\<rparr>)"

lemma clear_con_ready: "con_ready d \<lparr>cells = (\<lambda>_ _. VMEM_CHAR 32 7), cx = 0, cy = 0, attr = 7\<rparr> clear_con"
proof -
  let ?i = "(idle_con 7 3 9 (\<lambda>_. 0))\<lparr>ports := [closed_port\<lparr>base := UART1_BASE\<rparr>, closed_port]\<rparr>"
  let ?s = "?i\<lparr>vmem := fill_cells 0 (VMEM_CHAR 32 7) (NCOLS * NROWS) (\<lambda>_. 0), start_line := 0\<rparr>"
  obtain es where es: "exec (crtc_setstart 0) ?s = logs es ?s" using crtc_exec(2) by blast
  let ?u = "(logs es ?s)\<lparr>cursor_x := 0, cursor_y := 0\<rparr>"
  obtain fs where fs: "exec (crtc_cursor 0 0) ?u = logs fs ?u" using crtc_exec(1) by blast
  have c: "clear_con = logs fs ?u" unfolding clear_con_def using es fs by (simp add: con_clear_def run_simps idle_con_def)
  have sh: "shown_at (crtc_after clear_con d) = 0"
  proof -
    have "shown_at (crtc_after ?u d) = 0" using setstart_shown [of 0 ?s d] es by (simp add: crtc_after_logs)
    then show ?thesis using cursor_shown(2) [of ?u 0 0 d] unfolding fs c by simp
  qed
  then show ?thesis unfolding con_ready_def sh
    unfolding c by (simp add: con_sizes idle_con_def uart_sends_def LST_TREG_EMPTY_def)
qed

definition crtc0 :: crtc where "crtc0 = \<lparr>reg_idx = 0, crtc_reg = (\<lambda>_. 0)\<rparr>"

lemma con_puts_terminal_witness:
  "\<exists>s'. con_puts [72, 105, 10] clear_con = Some s' \<and> vmem s' (shown_at (crtc_after s' crtc0) + 0 * 80 + 1) = 0x769
    \<and> cursor_at (crtc_after s' crtc0) = shown_at (crtc_after s' crtc0) + 80"
proof -
  let ?t = "\<lparr>cells = (\<lambda>_ _. VMEM_CHAR 32 7), cx = 0, cy = 0, attr = 7\<rparr>"
  have a: "txattr ((idle_con 7 3 9 (\<lambda>_. 0))\<lparr>ports := [closed_port\<lparr>base := UART1_BASE\<rparr>, closed_port]\<rparr>) = 7" by (simp add: idle_con_def)
  have c: "con_shows crtc0 ?t clear_con (vmem clear_con)" unfolding clear_con_def using con_clear_shows [of crtc0] a by metis
  have "lines_moved [72, 105, 10] ?t = 0" by (simp add: line_moved_def term_putchar_def term_put_def term_wrap_def term_linefeed_def)
  moreover have "start_line clear_con + 0 \<le> VIRT_ROWS - NROWS" using clear_con_ready [of crtc0] by (simp add: con_ready_def)
  ultimately obtain s' where s': "con_puts [72, 105, 10] clear_con = Some s'" "con_shows crtc0 (fold term_putchar [72, 105, 10] ?t) s' (vmem s')"
    using con_puts_terminal [OF c clear_con_ready, of "[72, 105, 10]"] by auto
  let ?f = "fold term_putchar [72, 105, 10] ?t"
  have "vmem s' (shown_at (crtc_after s' crtc0) + 0 * 80 + 1) = cells ?f 0 1" by (rule con_shows_cell [OF s'(2)]) simp_all
  moreover have "cursor_at (crtc_after s' crtc0) = shown_at (crtc_after s' crtc0) + cy ?f * 80 + cx ?f" using s'(2) unfolding con_shows_def by (elim conjE)
  moreover have "cells ?f 0 1 = 0x769" "cx ?f = 0" "cy ?f = 1"
    by (simp_all add: term_putchar_def term_wrap_def term_linefeed_def term_put_def VMEM_CHAR_def)
  ultimately show ?thesis using s'(1) by simp
qed

section \<open>Where it is not\<close>

lemma screen_tab:
  assumes "0 \<le> cursor_x s"
  shows "cursor_x (exec (screen_putchar 9) s) = (cursor_x s mod 8) + 8"
proof -
  have m: "cursor_x s AND 7 = cursor_x s mod 8" using int_and_mask [of "cursor_x s" 3] by simp
  let ?s = "s\<lparr>cursor_x := cursor_x s mod 8 + 8\<rparr>"
  have "cursor_x s mod 8 + 8 < 80" by (simp add: pos_mod_bound [THEN order.strict_trans])
  then have "exec wrap_cursor ?s = ?s" by (simp add: wrap_cursor_def run_simps NCOLS_def)
  then have "exec (screen_putchar 9) s = exec show_cursor_at ?s" by (simp add: screen_putchar_def run_simps m)
  then show ?thesis using crtc_exec(3) [of ?s] by auto
qed

text \<open>A tab puts the cursor into one of the columns 8 to 15, in front of where it was from column 16 on.\<close>

theorem con_tab_goes_back:
  assumes "16 \<le> cursor_x s"
  shows "8 \<le> cursor_x (exec (screen_putchar 9) s) \<and> cursor_x (exec (screen_putchar 9) s) < cursor_x s"
proof -
  have "0 \<le> cursor_x s mod 8" "cursor_x s mod 8 < 8" by simp_all
  then show ?thesis using screen_tab [of s] assms by simp
qed

lemma con_tab_goes_back_witness: "cursor_x (exec (screen_putchar 9) (idle_con 41 0 0 (\<lambda>_. 0))) < 41"
  using con_tab_goes_back [of "idle_con 41 0 0 (\<lambda>_. 0)"] by (simp add: idle_con_def)

text \<open>When the screen has reached the end of the text memory, the line feed on the last row shows, in place
  of the 24 rows that were below the first, rows that had been scrolled off 88 rows before.\<close>

theorem con_wrap_shows_old_rows:
  assumes "start_line s = 175" "cursor_y s = 24" "0 \<le> r" "r < 24" "0 \<le> k" "k < 80"
  shows "start_line (exec (screen_putchar 10) s) = 0
    \<and> vmem (exec (screen_putchar 10) s) (r * 80 + k) = vmem s ((88 + r) * 80 + k)"
proof -
  let ?m = "fill_cells (24 * 80) (VMEM_CHAR 32 (txattr s)) 80 (copy_cells (176 * 80 div 2) (24 * 80) (vmem s))"
  let ?u = "s\<lparr>cursor_y := 25, start_line := 0, vmem := ?m\<rparr>"
  have "exec scroll (s\<lparr>cursor_y := 25\<rparr>) = exec (crtc_setstart 0) ?u"
    using assms(1) by (simp add: scroll_def run_simps con_sizes)
  then obtain es where "exec scroll (s\<lparr>cursor_y := 25\<rparr>) = logs es ?u" using crtc_exec(2) [of 0 ?u] by auto
  then have "exec linefeed s = logs es (?u\<lparr>cursor_y := 24\<rparr>)"
    using assms(2) by (simp add: linefeed_def run_simps NROWS_def)
  then have "exec (screen_putchar 10) s = exec show_cursor_at (logs es (?u\<lparr>cursor_y := 24, cursor_x := 0\<rparr>))"
    by (simp add: screen_putchar_def run_simps)
  then obtain fs where "exec (screen_putchar 10) s = logs fs (?u\<lparr>cursor_y := 24, cursor_x := 0\<rparr>)"
    using crtc_exec(3) [of "logs es (?u\<lparr>cursor_y := 24, cursor_x := 0\<rparr>)"] by auto
  moreover have "?m (r * 80 + k) = vmem s ((88 + r) * 80 + k)"
    using assms(3-6) by (simp add: fill_cells_def copy_cells_def algebra_simps)
  ultimately show ?thesis by simp
qed

lemma con_wrap_shows_old_rows_witness: "vmem (exec (screen_putchar 10) (idle_con 0 24 175 word_of_int)) (3 * 80 + 5) = word_of_int ((88 + 3) * 80 + 5)"
  using con_wrap_shows_old_rows [of "idle_con 0 24 175 word_of_int" 3 5] by (simp add: idle_con_def)

end
