(* ===== verification/Psaux.thy ===== *)
theory Psaux
  imports Keyboard Intr
begin

text \<open>
  The mouse on the second port of the keyboard controller (\<open>src/psaux.c\<close>): its set-up, the packets of
  three bytes that the interrupt handler or polling puts together, and the position they move within
  bounds. Messages are left out.
\<close>

definition KB_CMD_AUX_ENABLE :: u8 where "KB_CMD_AUX_ENABLE = 0xa8"
definition KB_CMD_PSAUX :: u8 where "KB_CMD_PSAUX = 0xd4"
definition KB_CCB_AUX_INTREN :: u8 where "KB_CCB_AUX_INTREN = 0x02"
definition KB_CCB_AUX_DISABLE :: u8 where "KB_CCB_AUX_DISABLE = 0x20"
definition AUX_CMD_READ_MOUSE :: u8 where "AUX_CMD_READ_MOUSE = 0xeb"
definition AUX_CMD_ENABLE :: u8 where "AUX_CMD_ENABLE = 0xf4"
definition AUX_CMD_DEFAULTS :: u8 where "AUX_CMD_DEFAULTS = 0xf6"
definition AUX_PKT0_LEFTBN :: u8 where "AUX_PKT0_LEFTBN = 0x01"
definition AUX_PKT0_RIGHTBN :: u8 where "AUX_PKT0_RIGHTBN = 0x02"
definition AUX_PKT0_MIDDLEBN :: u8 where "AUX_PKT0_MIDDLEBN = 0x04"
definition AUX_PKT0_XSIGN :: u8 where "AUX_PKT0_XSIGN = 0x10"
definition AUX_PKT0_YSIGN :: u8 where "AUX_PKT0_YSIGN = 0x20"
definition AUX_PKT0_XOVF :: u8 where "AUX_PKT0_XOVF = 0x40"
definition AUX_PKT0_YOVF :: u8 where "AUX_PKT0_YOVF = 0x80"
definition AUX_PKT0_OVF_BITS :: u8 where "AUX_PKT0_OVF_BITS = AUX_PKT0_XOVF OR AUX_PKT0_YOVF"
definition AUX_PKT0_BUTTON_BITS :: u8 where "AUX_PKT0_BUTTON_BITS = AUX_PKT0_LEFTBN OR AUX_PKT0_RIGHTBN OR AUX_PKT0_MIDDLEBN"
definition STAT_AUX_PENDING :: u8 where "STAT_AUX_PENDING = KB_STAT_OUTBUF_FULL OR KB_STAT_AUX"

lemmas pkt_bits = AUX_PKT0_LEFTBN_def AUX_PKT0_RIGHTBN_def AUX_PKT0_MIDDLEBN_def AUX_PKT0_XSIGN_def AUX_PKT0_YSIGN_def
  AUX_PKT0_XOVF_def AUX_PKT0_YOVF_def AUX_PKT0_OVF_BITS_def AUX_PKT0_BUTTON_BITS_def

record 'h psaux = "'h intr" +
  mx :: int
  my :: int
  bnstate :: u32
  present :: bool
  bounds :: "int list"
  intr_mode :: bool
  intr_data :: "u8 list"
  intr_idx :: nat
  poll_state :: nat
  poll_pkt :: "u8 list"

definition set_mouse_bounds :: "int \<Rightarrow> int \<Rightarrow> int \<Rightarrow> int \<Rightarrow> (('h, 'z) psaux_scheme, unit) state" where
  "set_mouse_bounds x0 y0 x1 y1 = modify (\<lambda>s. s\<lparr>bounds := [x0, y0, x1, y1]\<rparr>)"

definition init_mouse :: "(('h, 'z) psaux_scheme, unit) state" where
  "init_mouse = do {
     kb_send_cmd KB_CMD_AUX_ENABLE;
     ok \<leftarrow> kb_wait_read;
     (if ok then do { _ \<leftarrow> kb_read_data; ret () } else ret ());
     kb_send_cmd KB_CMD_GET_CMDBYTE;
     val \<leftarrow> kb_read_data;
     kb_send_cmd KB_CMD_SET_CMDBYTE;
     kb_send_data ((val AND NOT KB_CCB_AUX_DISABLE) OR KB_CCB_AUX_INTREN);
     ok \<leftarrow> kb_wait_read;
     (if ok then do { _ \<leftarrow> kb_read_data; ret () } else ret ());
     modify (\<lambda>s. s\<lparr>intr_mode := True\<rparr>);
     kb_send_cmd KB_CMD_PSAUX;
     kb_send_data AUX_CMD_DEFAULTS;
     _ \<leftarrow> kb_read_data;
     kb_send_cmd KB_CMD_PSAUX;
     kb_send_data AUX_CMD_ENABLE;
     val \<leftarrow> kb_read_data;
     modify (\<lambda>s. s\<lparr>present := (val = KB_ACK)\<rparr>) }"

definition init_psaux :: "'h \<Rightarrow> (('h, 'z) psaux_scheme, unit) state" where
  "init_psaux handler = do {
     interrupt (IRQ_TO_INTR 12) (Some handler);
     init_mouse;
     set_mouse_bounds 0 0 319 199 }"

definition have_mouse :: "(('h, 'z) psaux_scheme, bool) state" where "have_mouse = gets present"

text \<open>A movement is a byte with the sign in the first byte of the packet.\<close>

definition movement :: "u8 \<Rightarrow> bool \<Rightarrow> int" where
  "movement b sign = (let d = ucast b :: u32 in sint (if sign then d OR 0xffffff00 else d))"

definition proc_mouse_data :: "u8 list \<Rightarrow> ('h, 'z) psaux_scheme \<Rightarrow> ('h, 'z) psaux_scheme" where
  "proc_mouse_data data s =
     (if data ! 0 AND AUX_PKT0_OVF_BITS \<noteq> 0 then s
      else
        let s = s\<lparr>bnstate := ucast (data ! 0 AND AUX_PKT0_BUTTON_BITS)\<rparr>;
            dx = movement (data ! 1) (data ! 0 AND AUX_PKT0_XSIGN \<noteq> 0);
            dy = movement (data ! 2) (data ! 0 AND AUX_PKT0_YSIGN \<noteq> 0);
            s = s\<lparr>mx := mx s + dx, my := my s - dy\<rparr>;
            s = (if mx s < bounds s ! 0 then s\<lparr>mx := bounds s ! 0\<rparr> else s);
            s = (if mx s > bounds s ! 2 then s\<lparr>mx := bounds s ! 2\<rparr> else s);
            s = (if my s < bounds s ! 1 then s\<lparr>my := bounds s ! 1\<rparr> else s)
        in if my s > bounds s ! 3 then s\<lparr>my := bounds s ! 3\<rparr> else s)"

definition psaux_intr :: "(('h, 'z) psaux_scheme, unit) state" where
  "psaux_intr = do {
     st \<leftarrow> inb KB_STATUS_PORT;
     if st AND KB_STAT_AUX = 0 then ret ()
     else do {
       d \<leftarrow> kb_read_data;
       modify (\<lambda>s. s\<lparr>intr_data := (intr_data s)[intr_idx s := d], intr_idx := intr_idx s + 1\<rparr>);
       modify (\<lambda>s. if 3 \<le> intr_idx s then proc_mouse_data (intr_data s) (s\<lparr>intr_idx := 0\<rparr>) else s) } }"

definition aux_pending :: "('z machine_scheme, bool) state" where
  "aux_pending = do { st \<leftarrow> inb KB_STATUS_PORT; ret (st AND STAT_AUX_PENDING = STAT_AUX_PENDING) }"

definition poll_mouse :: "(('h, 'z) psaux_scheme, unit) state" where
  "poll_mouse = do {
     ps \<leftarrow> gets poll_state;
     if ps = 0 then do {
       kb_send_cmd KB_CMD_PSAUX;
       kb_send_data AUX_CMD_READ_MOUSE;
       modify (\<lambda>s. s\<lparr>poll_state := poll_state s + 1\<rparr>) }
     else if ps = 1 then do {
       ok \<leftarrow> kb_wait_read;
       if ok then do {
         rd \<leftarrow> kb_read_data;
         modify (\<lambda>s. if rd = KB_ACK then s\<lparr>poll_state := poll_state s + 1\<rparr> else s) }
       else ret () }
     else if ps \<le> 4 then do {
       ok \<leftarrow> kb_wait_read;
       pend \<leftarrow> (if ok then aux_pending else ret False);
       (if pend then do {
          modify (\<lambda>s. s\<lparr>poll_state := poll_state s + 1\<rparr>);
          rd \<leftarrow> kb_read_data;
          modify (\<lambda>s. s\<lparr>poll_pkt := (poll_pkt s)[ps - 2 := rd]\<rparr>) }
        else ret ());
       modify (\<lambda>s. if poll_state s = 5 then (proc_mouse_data (poll_pkt s) s)\<lparr>poll_state := 0\<rparr> else s) }
     else ret () }"

definition mouse_state :: "(('h, 'z) psaux_scheme, u32 \<times> int \<times> int) state" where
  "mouse_state = do {
     im \<leftarrow> gets intr_mode;
     (if \<not> im then poll_mouse else ret ());
     gets (\<lambda>s. (bnstate s, mx s, my s)) }"

section \<open>Packets\<close>

lemma movement_value: "movement b sign = (if sign then int (unat b) - 256 else int (unat b))"
proof -
  have b: "unat b < 256" by (rule unat_u8_less)
  have u: "(ucast b :: u32) = word_of_int (int (unat b))" by (simp only: ucast_eq uint_nat)
  have i: "- (2 ^ 31) \<le> int k" "int k < 2 ^ 31" "- (2 ^ 31) \<le> int k - 256" "int k - 256 < 2 ^ 31" if "k < 256" for k
    using that by simp_all
  have pos: "sint (ucast b :: u32) = int (unat b)" unfolding u by (rule sint_u32_small [OF i(1,2) [OF b]])
  have "(ucast b :: u32) AND 0xffffff00 = 0"
  proof (rule bit_word_eqI)
    fix n assume n: "n < LENGTH(32)"
    have high: "(0xffffff00 :: u32) = push_bit 8 (mask 24)" by (simp add: mask_eq_exp_minus_1 push_bit_eq_mult)
    show "bit ((ucast b :: u32) AND 0xffffff00) n \<longleftrightarrow> bit (0 :: u32) n" unfolding high
      by (auto simp: bit_and_iff bit_ucast_iff bit_push_bit_iff dest: bit_imp_le_length)
  qed
  then have "(ucast b :: u32) OR 0xffffff00 = ucast b + 0xffffff00" by (rule disjunctive_add_eq_or [symmetric])
  also have "\<dots> = word_of_int (int (unat b) - 256)" unfolding u by simp
  finally have "sint ((ucast b :: u32) OR 0xffffff00) = sint (word_of_int (int (unat b) - 256) :: u32)" by (rule arg_cong)
  also have "\<dots> = int (unat b) - 256" by (rule sint_u32_small [OF i(3,4) [OF b]])
  finally show ?thesis using pos by (simp add: movement_def)
qed

definition clamp :: "int \<Rightarrow> int \<Rightarrow> int \<Rightarrow> int" where "clamp lo hi x = min hi (max lo x)"

definition overflow :: "u8 \<Rightarrow> bool" where "overflow b \<longleftrightarrow> b AND AUX_PKT0_OVF_BITS \<noteq> 0"

lemma clamp_steps:
  "(if mx s < b then s\<lparr>mx := b\<rparr> else s) = s\<lparr>mx := max b (mx s)\<rparr>" "(if b < mx s then s\<lparr>mx := b\<rparr> else s) = s\<lparr>mx := min b (mx s)\<rparr>"
  "(if my s < b then s\<lparr>my := b\<rparr> else s) = s\<lparr>my := max b (my s)\<rparr>" "(if b < my s then s\<lparr>my := b\<rparr> else s) = s\<lparr>my := min b (my s)\<rparr>"
  by (simp_all add: min_def max_def)

lemma proc_mouse_eq:
  "proc_mouse_data data s = (if overflow (data ! 0) then s
    else s\<lparr>bnstate := ucast (data ! 0 AND AUX_PKT0_BUTTON_BITS),
      mx := clamp (bounds s ! 0) (bounds s ! 2) (mx s + movement (data ! 1) (data ! 0 AND AUX_PKT0_XSIGN \<noteq> 0)),
      my := clamp (bounds s ! 1) (bounds s ! 3) (my s - movement (data ! 2) (data ! 0 AND AUX_PKT0_YSIGN \<noteq> 0))\<rparr>)"
  unfolding proc_mouse_data_def Let_def clamp_steps overflow_def clamp_def by (rule if_cong) simp_all

lemma proc_mouse_frame:
  "bounds (proc_mouse_data data s) = bounds s" "io_log (proc_mouse_data data s) = io_log s" "dev8 (proc_mouse_data data s) = dev8 s"
  "intr_idx (proc_mouse_data data s) = intr_idx s" "intr_data (proc_mouse_data data s) = intr_data s"
  by (simp_all add: proc_mouse_eq)

text \<open>What the handler does with the byte that it reads.\<close>

definition take_byte :: "u8 \<Rightarrow> ('h, 'z) psaux_scheme \<Rightarrow> ('h, 'z) psaux_scheme" where
  "take_byte d s = (let s = s\<lparr>intr_data := (intr_data s)[intr_idx s := d], intr_idx := intr_idx s + 1\<rparr>
     in if 3 \<le> intr_idx s then proc_mouse_data (intr_data s) (s\<lparr>intr_idx := 0\<rparr>) else s)"

lemma logs_psaux [simp]:
  "take_byte d (logs es s) = logs es (take_byte d s)" "mx (logs es s) = mx s" "my (logs es s) = my s" "bounds (logs es s) = bounds s"
  "bnstate (logs es s) = bnstate s" "intr_idx (logs es s) = intr_idx s" "intr_data (logs es s) = intr_data s"
  by (simp_all add: logs_def take_byte_def proc_mouse_eq Let_def)

lemma psaux_intr_exec:
  "\<exists>es. exec psaux_intr s = logs es s \<or> (\<exists>d. exec psaux_intr s = logs es (take_byte d s))"
proof -
  let ?s = "logs [In8 KB_STATUS_PORT] s"
  show ?thesis
  proof (cases "dev8 s (io_log s) KB_STATUS_PORT AND KB_STAT_AUX = 0")
    case True
    then have "exec psaux_intr s = ?s" by (simp add: psaux_intr_def run_simps)
    then show ?thesis by blast
  next
    case False
    obtain es where "exec kb_read_data ?s = logs es ?s" using only_logsE [OF only_logs_kbc(5), of ?s] by blast
    then have "exec psaux_intr s = logs (es @ [In8 KB_STATUS_PORT]) (take_byte (result_of kb_read_data ?s) s)"
      using False by (simp add: psaux_intr_def run_simps take_byte_def logs_def Let_def proc_mouse_eq)
    then show ?thesis by blast
  qed
qed

section \<open>The position\<close>

text \<open>The states the driver gets into after \<open>init_psaux\<close>, whatever the devices answer: the interrupt
  handler runs, the mouse is polled, or the bounds are changed to some that contain the position.\<close>

definition in_bounds :: "('h, 'z) psaux_scheme \<Rightarrow> bool" where
  "in_bounds s \<longleftrightarrow> bounds s ! 0 \<le> mx s \<and> mx s \<le> bounds s ! 2 \<and> bounds s ! 1 \<le> my s \<and> my s \<le> bounds s ! 3 \<and> intr_idx s < 3"

inductive mouse_step :: "('h, 'z) psaux_scheme \<Rightarrow> ('h, 'z) psaux_scheme \<Rightarrow> bool" where
  interrupted: "mouse_step s (exec psaux_intr s)"
| polled: "mouse_step s (exec poll_mouse s)"
| moved_bounds: "x0 \<le> mx s \<Longrightarrow> mx s \<le> x1 \<Longrightarrow> y0 \<le> my s \<Longrightarrow> my s \<le> y1 \<Longrightarrow> mouse_step s (exec (set_mouse_bounds x0 y0 x1 y1) s)"

inductive_cases mouse_stepE: "mouse_step s s'"

lemma clamp_between: "lo \<le> hi \<Longrightarrow> lo \<le> clamp lo hi x \<and> clamp lo hi x \<le> hi"
  by (simp add: clamp_def)

lemma in_bounds_logs [simp]: "in_bounds (logs es s) = in_bounds s"
  by (simp add: in_bounds_def)

lemma proc_mouse_bounds: "in_bounds s \<Longrightarrow> in_bounds (proc_mouse_data data s)"
  unfolding in_bounds_def proc_mouse_eq by (simp add: clamp_between)

lemma take_byte_bounds: "in_bounds s \<Longrightarrow> in_bounds (take_byte d s)"
proof -
  assume s: "in_bounds s"
  let ?s = "s\<lparr>intr_data := (intr_data s)[intr_idx s := d], intr_idx := intr_idx s + 1\<rparr>"
  have "in_bounds (?s\<lparr>intr_idx := 0\<rparr>)" "intr_idx ?s < 3 \<Longrightarrow> in_bounds ?s" using s by (simp_all add: in_bounds_def)
  then show ?thesis using proc_mouse_bounds [of "?s\<lparr>intr_idx := 0\<rparr>" "intr_data ?s"] by (simp add: take_byte_def Let_def)
qed

definition keeps :: "(('h, 'z) psaux_scheme, 'a) state \<Rightarrow> bool" where
  "keeps p \<longleftrightarrow> (\<forall>s. in_bounds s \<longrightarrow> in_bounds (exec p s))"

lemma keeps_logs: "only_logs p \<Longrightarrow> keeps p"
  unfolding keeps_def only_logs_def by (metis in_bounds_logs)

lemma keeps_intros [inv_intros]:
  "keeps p \<Longrightarrow> (\<And>x. keeps (q x)) \<Longrightarrow> keeps (p \<bind> q)"
  "keeps p \<Longrightarrow> keeps p' \<Longrightarrow> keeps (if b then p else p')"
  "keeps (gets f)" "keeps (ret x)"
  "(\<And>s. in_bounds s \<Longrightarrow> in_bounds (f s)) \<Longrightarrow> keeps (modify f)"
  by (auto simp: keeps_def run_simps)

lemma poll_pkt_bounds: "in_bounds s \<Longrightarrow> in_bounds (poll_state_update f s)" "in_bounds s \<Longrightarrow> in_bounds (poll_pkt_update g s)"
  by (simp_all add: in_bounds_def)

lemma poll_keeps: "keeps poll_mouse"
  unfolding poll_mouse_def aux_pending_def
  by (intro keeps_intros keeps_logs only_logs_kbc only_logs_base)
    (auto intro: poll_pkt_bounds proc_mouse_bounds)

lemma mouse_step_bounds: "mouse_step s s' \<Longrightarrow> in_bounds s \<Longrightarrow> in_bounds s'"
proof (erule mouse_stepE)
  assume s: "in_bounds s"
  show "s' = exec psaux_intr s \<Longrightarrow> in_bounds s'"
    using psaux_intr_exec [of s] s take_byte_bounds by force
  show "s' = exec poll_mouse s \<Longrightarrow> in_bounds s'" using poll_keeps s unfolding keeps_def by blast
  show "in_bounds s'" if "s' = exec (set_mouse_bounds x0 y0 x1 y1) s" "x0 \<le> mx s" "mx s \<le> x1" "y0 \<le> my s" "my s \<le> y1" for x0 y0 x1 y1
    using that s by (simp add: set_mouse_bounds_def in_bounds_def)
qed

text \<open>C34: the position never leaves the bounds, whatever bytes the controller delivers, in whatever order
  interrupts and polling come, as long as the bounds are only changed to some around it.\<close>

theorem mouse_stays_in_bounds:
  assumes "mouse_step\<^sup>*\<^sup>* s s'" "in_bounds s"
  shows "in_bounds s'"
  using assms by (induction rule: rtranclp_induct) (auto intro: mouse_step_bounds)

definition demo_mouse :: "(io_event list \<Rightarrow> u16 \<Rightarrow> u8) \<Rightarrow> unit psaux" where
  "demo_mouse dv = \<lparr>io_log = [], dev8 = dv, dev16 = (\<lambda>_ _. 0), dev32 = (\<lambda>_ _. 0), intr_on = False, idt = [], intr_func = [],
     cur_intr_frame = None, eoi_pending = 0, mx = 0, my = 0, bnstate = 0, present = True, bounds = [0, 0, 319, 199], intr_mode = True,
     intr_data = [0, 0, 0], intr_idx = 0, poll_state = 0, poll_pkt = [0, 0, 0]\<rparr>"

lemma mouse_stays_in_bounds_witness: "in_bounds (exec psaux_intr (exec psaux_intr (demo_mouse (\<lambda>_ _. 0xff))))"
  using mouse_stays_in_bounds [of "demo_mouse (\<lambda>_ _. 0xff)" "exec psaux_intr (exec psaux_intr (demo_mouse (\<lambda>_ _. 0xff)))"]
  by (auto simp: in_bounds_def demo_mouse_def intro: converse_rtranclp_into_rtranclp mouse_step.intros)

text \<open>The controller with bytes of the mouse to be read.\<close>

definition aux_holds :: "u8 list \<Rightarrow> 'z machine_scheme \<Rightarrow> bool" where
  "aux_holds bs m \<longleftrightarrow> (\<forall>es. let l = es @ io_log m; k = reads KB_DATA_PORT es in k < length bs \<longrightarrow>
     dev8 m l KB_STATUS_PORT AND KB_STAT_AUX \<noteq> 0 \<and> dev8 m l KB_STATUS_PORT AND KB_STAT_OUTBUF_FULL \<noteq> 0 \<and> dev8 m l KB_DATA_PORT = bs ! k)"

lemma aux_logs:
  assumes "aux_holds bs m"
  shows "aux_holds (drop (reads KB_DATA_PORT es) bs) (logs es m)"
  unfolding aux_holds_def Let_def
proof (intro allI impI)
  fix es'
  assume "reads KB_DATA_PORT es' < length (drop (reads KB_DATA_PORT es) bs)"
  then have "reads KB_DATA_PORT (es' @ es) < length bs" "drop (reads KB_DATA_PORT es) bs ! reads KB_DATA_PORT es' = bs ! reads KB_DATA_PORT (es' @ es)"
    by (simp_all add: add.commute)
  then show "dev8 (logs es m) (es' @ io_log (logs es m)) KB_STATUS_PORT AND KB_STAT_AUX \<noteq> 0
     \<and> dev8 (logs es m) (es' @ io_log (logs es m)) KB_STATUS_PORT AND KB_STAT_OUTBUF_FULL \<noteq> 0
     \<and> dev8 (logs es m) (es' @ io_log (logs es m)) KB_DATA_PORT = drop (reads KB_DATA_PORT es) bs ! reads KB_DATA_PORT es'"
    using assms [unfolded aux_holds_def Let_def, rule_format, of "es' @ es"] by simp
qed

lemma aux_now:
  assumes "aux_holds (b # bs) m" "reads KB_DATA_PORT es = 0"
  shows "dev8 m (es @ io_log m) KB_STATUS_PORT AND KB_STAT_AUX \<noteq> 0" "dev8 m (es @ io_log m) KB_STATUS_PORT AND KB_STAT_OUTBUF_FULL \<noteq> 0"
    "dev8 m (es @ io_log m) KB_DATA_PORT = b"
  using assms(1) [unfolded aux_holds_def Let_def, rule_format, of es] assms(2) by simp_all

lemma poll_ready:
  assumes "0 < n" "P (dev8 m (io_log m) port)"
  shows "exec (poll_port n port P) m = logs [In8 port] m"
  using assms by (cases n) (simp_all add: run_simps)

lemma reads_replicate: "reads p (replicate n e) = (if e = In8 p then n else 0)"
  by (induction n) simp_all

lemma psaux_intr_byte:
  assumes "aux_holds (b # bs) s"
  shows "\<exists>es. exec psaux_intr s = logs es (take_byte b s) \<and> aux_holds bs (logs es s)"
proof -
  let ?st = "In8 KB_STATUS_PORT" and ?d = "replicate 7 (Out8 0x80 0)"
  have r0: "reads KB_DATA_PORT [?st] = 0" "reads KB_DATA_PORT (?d @ [?st, ?st]) = 0" by (simp_all add: KB_DATA_PORT_def KB_STATUS_PORT_def reads_replicate)
  note now = aux_now [OF assms r0(1)] and later = aux_now(3) [OF assms r0(2)]
  have w: "exec kb_wait_read (logs [?st] s) = logs [?st, ?st] s"
    unfolding kb_wait_read_def using poll_ready [of 32768 "\<lambda>st. st AND KB_STAT_OUTBUF_FULL \<noteq> 0" "logs [?st] s" KB_STATUS_PORT] now(2) by simp
  have x: "exec kb_read_data (logs [?st] s) = logs ([In8 KB_DATA_PORT] @ ?d @ [?st, ?st]) s"
    unfolding kb_read_data_def by (simp add: run_simps w del: replicate.simps)
  have y: "result_of kb_read_data (logs [?st] s) = b"
    unfolding kb_read_data_def using later by (simp add: run_simps w)
  let ?es = "[In8 KB_DATA_PORT] @ ?d @ [?st, ?st]"
  have "exec psaux_intr s = logs ?es (take_byte b s)"
    using aux_now(1) [OF assms, of "[]"] x y
    by (simp add: psaux_intr_def run_simps) (simp add: take_byte_def logs_def Let_def proc_mouse_eq)
  moreover have "reads KB_DATA_PORT ?es = 1" using r0(2) by simp
  then have "aux_holds bs (logs ?es s)" using aux_logs [OF assms, of ?es] by simp
  ultimately show ?thesis by blast
qed

lemma take_bytes_packet:
  assumes "intr_idx s = 0" "length (intr_data s) = 3"
  shows "\<exists>t. take_byte b2 (take_byte b1 (take_byte b0 s)) = proc_mouse_data [b0, b1, b2] (t\<lparr>intr_idx := 0\<rparr>)
    \<and> mx t = mx s \<and> my t = my s \<and> bounds t = bounds s"
proof -
  obtain x y z where d: "intr_data s = [x, y, z]" using assms(2) by (auto simp: numeral_eq_Suc length_Suc_conv)
  let ?t = "s\<lparr>intr_data := [b0, b1, b2], intr_idx := 3\<rparr>"
  have "take_byte b0 s = s\<lparr>intr_data := [b0, y, z], intr_idx := 1\<rparr>" using d assms(1) by (simp add: take_byte_def)
  moreover have "take_byte b1 (s\<lparr>intr_data := [b0, y, z], intr_idx := 1\<rparr>) = s\<lparr>intr_data := [b0, b1, z], intr_idx := 2\<rparr>"
    by (simp add: take_byte_def)
  moreover have "take_byte b2 (s\<lparr>intr_data := [b0, b1, z], intr_idx := 2\<rparr>) = proc_mouse_data [b0, b1, b2] (?t\<lparr>intr_idx := 0\<rparr>)"
    by (simp add: take_byte_def)
  ultimately show ?thesis by (intro exI [of _ ?t]) simp
qed

text \<open>Three interrupts that deliver a packet move the position by the packet's 9-bit movements, up to the
  bounds, and take over its buttons; the next byte begins a new packet.\<close>

theorem packet_moves_mouse:
  assumes "aux_holds [b0, b1, b2] s" "intr_idx s = 0" "length (intr_data s) = 3" "b0 AND 0xc0 = 0"
  shows "\<exists>s'. s' = exec psaux_intr (exec psaux_intr (exec psaux_intr s))
    \<and> mx s' = clamp (bounds s ! 0) (bounds s ! 2) (mx s + int (unat b1) - (if b0 AND 0x10 \<noteq> 0 then 256 else 0))
    \<and> my s' = clamp (bounds s ! 1) (bounds s ! 3) (my s - int (unat b2) + (if b0 AND 0x20 \<noteq> 0 then 256 else 0))
    \<and> bnstate s' = ucast (b0 AND 7) \<and> intr_idx s' = 0"
proof -
  obtain e1 where e1: "exec psaux_intr s = logs e1 (take_byte b0 s)" "aux_holds [b1, b2] (logs e1 s)" using psaux_intr_byte [OF assms(1)] by blast
  have same: "aux_holds bs (logs es (take_byte b u)) = aux_holds bs (logs es u)" for bs es b and u :: "('a, 'b) psaux_scheme"
    by (simp add: aux_holds_def take_byte_def Let_def proc_mouse_frame)
  obtain e2 where e2: "exec psaux_intr (logs e1 (take_byte b0 s)) = logs e2 (take_byte b1 (logs e1 (take_byte b0 s)))"
    "aux_holds [b2] (logs e2 (logs e1 (take_byte b0 s)))"
    using psaux_intr_byte [of b1 "[b2]" "logs e1 (take_byte b0 s)"] e1(2) same by blast
  obtain e3 where e3: "exec psaux_intr (logs e2 (take_byte b1 (logs e1 (take_byte b0 s)))) = logs e3 (take_byte b2 (logs e2 (take_byte b1 (logs e1 (take_byte b0 s)))))"
    using psaux_intr_byte [of b2 "[]" "logs e2 (take_byte b1 (logs e1 (take_byte b0 s)))"] e2(2) same by fastforce
  have all: "exec psaux_intr (exec psaux_intr (exec psaux_intr s)) = logs (e3 @ e2 @ e1) (take_byte b2 (take_byte b1 (take_byte b0 s)))"
    unfolding e1(1) e2(1) e3 by simp
  have "\<not> overflow b0" using assms(4) by (simp add: overflow_def pkt_bits)
  moreover obtain t where "take_byte b2 (take_byte b1 (take_byte b0 s)) = proc_mouse_data [b0, b1, b2] (t\<lparr>intr_idx := 0\<rparr>)"
    "mx t = mx s" "my t = my s" "bounds t = bounds s"
    using take_bytes_packet [OF assms(2,3)] by blast
  ultimately show ?thesis
    unfolding all by (simp add: proc_mouse_eq movement_value pkt_bits add_diff_eq diff_diff_eq2 diff_add_eq)
qed

definition aux_device :: "u8 list \<Rightarrow> io_event list \<Rightarrow> u16 \<Rightarrow> u8" where
  "aux_device bs l p = (if p = KB_STATUS_PORT then 0x21 else if reads KB_DATA_PORT l < length bs then bs ! reads KB_DATA_PORT l else 0)"

lemma packet_moves_mouse_witness:
  "\<exists>s'. s' = exec psaux_intr (exec psaux_intr (exec psaux_intr (demo_mouse (aux_device [0x29, 10, 0xfb])))) \<and> mx s' = 10 \<and> my s' = 5 \<and> bnstate s' = 1"
proof -
  let ?s = "demo_mouse (aux_device [0x29, 10, 0xfb])"
  have "aux_holds [0x29, 10, 0xfb] ?s"
    by (simp add: aux_holds_def demo_mouse_def aux_device_def KB_STATUS_PORT_def KB_DATA_PORT_def KB_STAT_AUX_def KB_STAT_OUTBUF_FULL_def)
  moreover have "intr_idx ?s = 0" "length (intr_data ?s) = 3" "(0x29 :: u8) AND 0xc0 = 0" "bounds ?s = [0, 0, 319, 199]" "mx ?s = 0" "my ?s = 0"
    by (simp_all add: demo_mouse_def)
  ultimately show ?thesis using packet_moves_mouse [of "0x29" 10 "0xfb" ?s] by (simp add: clamp_def)
qed

end
