(* ===== verification/Rand.thy ===== *)
theory Rand
  imports Prelude
begin

text \<open>
  Random numbers (\<open>src/libc/rand.c\<close>): a ring of 34 words with two positions in it. Arithmetic on
  \<open>int32_t\<close> wraps. \<open>rand\<close> and \<open>srand\<close> call each other, but \<open>srand\<close> only after it has set \<open>init_done\<close>:
  \<open>rand_step\<close> is \<open>rand\<close> without its first test.
\<close>

definition RAND_MAX :: int where "RAND_MAX = 2147483647"

record rand_state =
  init_done :: bool
  rng :: "u32 list"
  ptr0 :: nat
  ptr1 :: nat

definition rand_step :: "rand_state \<Rightarrow> int \<times> rand_state" where
  "rand_step s = (
     let v = rng s ! ptr1 s + rng s ! ptr0 s;
         res = sint (drop_bit 1 v);
         p0 = ptr0 s + 1; p1 = ptr1 s + 1
     in (res, s\<lparr>rng := (rng s)[ptr1 s := v], ptr0 := (if 34 \<le> p0 then 0 else p0), ptr1 := (if 34 \<le> p1 then 0 else p1)\<rparr>))"

definition next_seed :: "u32 \<Rightarrow> u32" where
  "next_seed x = (let r = c_mod (sint (16807 * x)) RAND_MAX in word_of_int (if r < 0 then r + RAND_MAX else r))"

text \<open>The three loops of \<open>srand\<close>.\<close>

definition fill_seeds :: "u32 list \<Rightarrow> u32 list" where
  "fill_seeds r = fold (\<lambda>i r. r[i := next_seed (r ! (i - 1))]) [1..<31] r"

definition copy_seeds :: "u32 list \<Rightarrow> u32 list" where
  "copy_seeds r = fold (\<lambda>i r. r[i := r ! (i - 31)]) [31..<34] r"

fun skip_rands :: "nat \<Rightarrow> rand_state \<Rightarrow> rand_state" where
  "skip_rands 0 s = s"
| "skip_rands (Suc n) s = skip_rands n (snd (rand_step s))"

definition srand :: "u32 \<Rightarrow> rand_state \<Rightarrow> rand_state" where
  "srand seed s = (
     let seed = (if seed = 0 then 1 else seed);
         r = copy_seeds (fill_seeds ((rng s)[0 := seed]))
     in skip_rands 310 (s\<lparr>init_done := True, rng := r, ptr0 := 3, ptr1 := 31\<rparr>))"

definition rand :: "rand_state \<Rightarrow> int \<times> rand_state" where
  "rand s = rand_step (if \<not> init_done s then srand 1 s else s)"

section \<open>What the generator computes\<close>

text \<open>The positions keep their distance: \<open>ptr0\<close> is 6 ahead of \<open>ptr1\<close>.\<close>

definition rand_ok :: "rand_state \<Rightarrow> bool" where
  "rand_ok s \<longleftrightarrow> length (rng s) = 34 \<and> ptr1 s < 34 \<and> ptr0 s = (ptr1 s + 6) mod 34"

lemma wrap34: "(if 34 \<le> Suc p then 0 else Suc p) = Suc p mod 34" if "p < 34" for p :: nat
  using that by (auto simp: le_Suc_eq)

lemma rand_step_pos:
  assumes "rand_ok s"
  shows "ptr1 (snd (rand_step s)) = Suc (ptr1 s) mod 34" "ptr0 (snd (rand_step s)) = Suc (ptr0 s) mod 34"
proof -
  have p: "ptr1 s < 34" "ptr0 s < 34" using assms by (simp_all add: rand_ok_def)
  show "ptr1 (snd (rand_step s)) = Suc (ptr1 s) mod 34" "ptr0 (snd (rand_step s)) = Suc (ptr0 s) mod 34"
    unfolding wrap34 [OF p(1), symmetric] wrap34 [OF p(2), symmetric] by (simp_all add: rand_step_def Let_def)
qed

lemma rand_step_ok: "rand_ok s \<Longrightarrow> rand_ok (snd (rand_step s))"
proof -
  assume s: "rand_ok s"
  have "Suc ((ptr1 s + 6) mod 34) mod 34 = (Suc (ptr1 s) mod 34 + 6) mod 34" by (simp add: mod_Suc_eq mod_add_left_eq)
  moreover have "length (rng (snd (rand_step s))) = length (rng s)" by (simp add: rand_step_def Let_def)
  ultimately show ?thesis using s unfolding rand_ok_def rand_step_pos [OF s] by simp
qed

lemma rand_step_range: "0 \<le> fst (rand_step s) \<and> fst (rand_step s) \<le> RAND_MAX"
proof -
  let ?v = "rng s ! ptr1 s + rng s ! ptr0 s"
  have "uint (drop_bit 1 ?v) = uint ?v div 2" by (simp add: drop_bit_eq_div uint_div_distrib)
  moreover have "uint ?v < 2 ^ 32" using uint_lt2p [of ?v] by simp
  ultimately have u: "uint (drop_bit 1 ?v) < 2 ^ 31" by simp
  then have "sint (drop_bit 1 ?v) = uint (drop_bit 1 ?v)"
    unfolding sint_uint by (intro signed_take_bit_int_eq_self order_trans [OF _ uint_ge_0]) simp_all
  then show ?thesis using u by (simp add: rand_step_def Let_def RAND_MAX_def)
qed

text \<open>The words in the order in which they are replaced, and the sequence they start.\<close>

definition window :: "rand_state \<Rightarrow> u32 list" where "window s = map (\<lambda>k. rng s ! ((ptr1 s + k) mod 34)) [0..<34]"

fun lagged :: "u32 list \<Rightarrow> nat \<Rightarrow> u32" where
  "lagged w n = (if n < 34 then w ! n else lagged w (n - 34) + lagged w (n - 28))"

declare lagged.simps [simp del]

lemma window_step:
  assumes "rand_ok s"
  shows "window (snd (rand_step s)) = tl (window s) @ [window s ! 0 + window s ! 6]" "fst (rand_step s) = sint (drop_bit 1 (window s ! 0 + window s ! 6))"
proof -
  have s: "length (rng s) = 34" "ptr1 s < 34" "ptr0 s = (ptr1 s + 6) mod 34" using assms by (simp_all add: rand_ok_def)
  have w: "window s ! 0 = rng s ! ptr1 s" "window s ! 6 = rng s ! ptr0 s" using s by (simp_all add: window_def)
  show "fst (rand_step s) = sint (drop_bit 1 (window s ! 0 + window s ! 6))" unfolding w by (simp add: rand_step_def Let_def)
  have step: "rng (snd (rand_step s)) = (rng s)[ptr1 s := window s ! 0 + window s ! 6]" "ptr1 (snd (rand_step s)) = Suc (ptr1 s) mod 34"
    using rand_step_pos [OF assms] unfolding w by (simp_all add: rand_step_def Let_def)
  show "window (snd (rand_step s)) = tl (window s) @ [window s ! 0 + window s ! 6]"
  proof (rule nth_equalityI)
    show "length (window (snd (rand_step s))) = length (tl (window s) @ [window s ! 0 + window s ! 6])" by (simp add: window_def)
    fix k assume "k < length (window (snd (rand_step s)))"
    then have k: "k < 34" by (simp add: window_def)
    have e: "window (snd (rand_step s)) ! k = (rng s)[ptr1 s := window s ! 0 + window s ! 6] ! ((ptr1 s + Suc k) mod 34)"
      using k unfolding window_def [of "snd (rand_step s)"] step by (simp add: mod_add_left_eq)
    show "window (snd (rand_step s)) ! k = (tl (window s) @ [window s ! 0 + window s ! 6]) ! k"
    proof (cases "k = 33")
      case True
      then have "(ptr1 s + Suc k) mod 34 = ptr1 s" using s(2) by simp
      then show ?thesis unfolding e using True s(1,2) by (simp add: nth_append window_def)
    next
      case False
      then have k': "Suc k < 34" using k by simp
      have "(ptr1 s + Suc k) mod 34 \<noteq> ptr1 s"
      proof
        assume "(ptr1 s + Suc k) mod 34 = ptr1 s"
        then show False using k' s(2) by (cases "ptr1 s + Suc k < 34") (simp_all add: le_mod_geq)
      qed
      then show ?thesis unfolding e using k' by (simp add: nth_append window_def nth_tl)
    qed
  qed
qed

fun rands :: "nat \<Rightarrow> rand_state \<Rightarrow> int list" where
  "rands 0 s = []"
| "rands (Suc n) s = fst (rand s) # rands n (snd (rand s))"

lemma lagged_start: "n < 34 \<Longrightarrow> lagged w n = w ! n"
  by (simp add: lagged.simps)

lemma lagged_step: "lagged w (n + 34) = lagged w n + lagged w (n + 6)"
  by (simp add: lagged.simps [of w "n + 34"] add.commute [of n 6])

lemma lagged_shift:
  assumes "length w = 34"
  shows "lagged (tl w @ [w ! 0 + w ! 6]) n = lagged w (Suc n)"
proof (induction n rule: less_induct)
  case (less n)
  show ?case
  proof (cases "n < 34")
    case True
    show ?thesis
    proof (cases "n = 33")
      case True
      then show ?thesis using assms lagged_step [of w 0] by (simp add: lagged_start nth_append)
    next
      case False
      then show ?thesis using True assms by (simp add: lagged_start nth_append nth_tl)
    qed
  next
    case False
    then obtain m where m: "n = m + 34" using le_Suc_ex [of 34 n] by (auto simp: add.commute)
    have "lagged w (Suc n) = lagged w (Suc m) + lagged w (Suc (m + 6))" using lagged_step [of w "Suc m"] m by simp
    then show ?thesis using less.IH [of m] less.IH [of "m + 6"] lagged_step [of "tl w @ [w ! 0 + w ! 6]" m] m by simp
  qed
qed

lemma rands_lagged:
  assumes "rand_ok s" "init_done s"
  shows "rands n s = map (\<lambda>k. sint (drop_bit 1 (lagged (window s) (34 + k)))) [0..<n]"
  using assms
proof (induction n arbitrary: s)
  case (Suc n)
  let ?t = "snd (rand_step s)"
  have "init_done ?t" using Suc.prems(2) by (simp add: rand_step_def Let_def)
  note IH = Suc.IH [OF rand_step_ok [OF Suc.prems(1)] this]
  have len: "length (window s) = 34" by (simp add: window_def)
  have sh: "lagged (window ?t) n = lagged (window s) (Suc n)" for n
    unfolding window_step(1) [OF Suc.prems(1)] by (rule lagged_shift [OF len])
  have "fst (rand_step s) = sint (drop_bit 1 (lagged (window s) 34))"
    using window_step(2) [OF Suc.prems(1)] lagged_step [of "window s" 0] by (simp add: lagged_start)
  then show ?case using IH Suc.prems(2) by (simp add: rand_def sh upt_conv_Cons map_Suc_upt [symmetric] del: upt_Suc)
qed simp

lemma skip_rands_ok: "rand_ok s \<Longrightarrow> init_done s \<Longrightarrow> rand_ok (skip_rands n s) \<and> init_done (skip_rands n s)"
proof (induction n arbitrary: s)
  case (Suc n)
  have "init_done (snd (rand_step s))" using Suc.prems(2) by (simp add: rand_step_def Let_def)
  then show ?case using Suc.IH rand_step_ok [OF Suc.prems(1)] by simp
qed simp

lemma fold_update_length: "(\<And>i r. length (f i r) = length r) \<Longrightarrow> length (fold f xs r) = length r"
  by (induction xs arbitrary: r) simp_all

lemma srand_ok:
  assumes "length (rng s) = 34"
  shows "rand_ok (srand seed s)" "init_done (srand seed s)"
proof -
  have l: "length (copy_seeds (fill_seeds r)) = length r" for r
    by (simp add: copy_seeds_def fill_seeds_def fold_update_length)
  show "rand_ok (srand seed s)" "init_done (srand seed s)"
    unfolding srand_def Let_def
    using skip_rands_ok [of "s\<lparr>init_done := True, rng := copy_seeds (fill_seeds ((rng s)[0 := if seed = 0 then 1 else seed])), ptr0 := 3, ptr1 := 31\<rparr>" 310]
    by (simp_all add: rand_ok_def l assms)
qed

section \<open>What a seed gives\<close>

text \<open>The reference: the first 31 words follow each other by a multiplication, taken in 32 bits and then reduced by \<open>2 ^ 31 - 1\<close>; the
  next three repeat the first three. From there on a word is the sum of those 34 and 28 places before it, where the places are counted from
  the repeated words on, which the ring holds in front of the first.\<close>

fun seed_word :: "u32 \<Rightarrow> nat \<Rightarrow> u32" where
  "seed_word x 0 = x"
| "seed_word x (Suc n) = word_of_int (sint (16807 * seed_word x n) mod (2 ^ 31 - 1))"

definition seed_words :: "u32 \<Rightarrow> u32 list" where
  "seed_words seed = (let x = (if seed = 0 then 1 else seed) in map (seed_word x) [0, 1, 2] @ map (seed_word x) [0..<31])"

lemma next_seed_mod: "next_seed x = word_of_int (sint (16807 * x) mod (2 ^ 31 - 1))"
proof -
  let ?v = "sint (16807 * x)" and ?m = "2147483647 :: int"
  have "(if c_mod ?v ?m < 0 then c_mod ?v ?m + ?m else c_mod ?v ?m) = ?v mod ?m"
  proof (cases "0 \<le> ?v")
    case True
    then have "c_mod ?v ?m = ?v mod ?m" by (cases "?v = 0") (simp_all add: c_mod_def c_div_def minus_mult_div_eq_mod)
    then show ?thesis by (simp add: not_less)
  next
    case False
    define k where "k = (- ?v) div ?m"
    have k: "- ?v = k * ?m + (- ?v) mod ?m" unfolding k_def by simp
    have c: "c_mod ?v ?m = - ((- ?v) mod ?m)" using False k by (simp add: c_mod_def c_div_def k_def [symmetric])
    have r: "0 \<le> (- ?v) mod ?m" "(- ?v) mod ?m < ?m" by simp_all
    show ?thesis
    proof (cases "(- ?v) mod ?m = 0")
      case True
      then have "?v = (- k) * ?m" using k by simp
      then have "?v mod ?m = 0" by simp
      then show ?thesis using True c by simp
    next
      case False
      have v: "?v = (?m - (- ?v) mod ?m) + (- k - 1) * ?m" using k by (simp add: algebra_simps)
      have "?v mod ?m = (?m - (- ?v) mod ?m) mod ?m" by (subst v) (rule mod_mult_self1)
      also have "\<dots> = ?m - (- ?v) mod ?m" using r False by (intro mod_pos_pos_trivial) linarith+
      finally show ?thesis using c r False by simp
    qed
  qed
  moreover have "(2 :: int) ^ 31 - 1 = ?m" by simp
  ultimately show ?thesis unfolding next_seed_def Let_def RAND_MAX_def by (simp only:)
qed

lemma fill_seeds_nth:
  assumes "length r = 34" "n \<le> 30"
  shows "length (fold (\<lambda>i r. r[i := next_seed (r ! (i - 1))]) [1..<Suc n] r) = 34
    \<and> (\<forall>k \<le> n. fold (\<lambda>i r. r[i := next_seed (r ! (i - 1))]) [1..<Suc n] r ! k = seed_word (r ! 0) k)"
  using assms(2)
proof (induction n)
  case 0
  then show ?case using assms(1) by simp
next
  case (Suc n)
  let ?f = "\<lambda>i r. r[i := next_seed (r ! (i - 1))]"
  let ?r = "fold ?f [1..<Suc n] r"
  have ih: "length ?r = 34" "\<forall>k \<le> n. ?r ! k = seed_word (r ! 0) k" using Suc by simp_all
  have e: "fold ?f [1..<Suc (Suc n)] r = ?r[Suc n := next_seed (?r ! n)]" by simp
  show ?case unfolding e using ih Suc.prems by (auto simp: nth_list_update le_Suc_eq next_seed_mod)
qed

lemma srand_seeds:
  assumes "length r = 34" "k < 34"
  shows "copy_seeds (fill_seeds r) ! k = seed_word (r ! 0) (if k < 31 then k else k - 31)"
proof -
  have f: "length (fill_seeds r) = 34" "\<And>k. k < 31 \<Longrightarrow> fill_seeds r ! k = seed_word (r ! 0) k"
    using fill_seeds_nth [OF assms(1), of 30] by (simp_all add: fill_seeds_def)
  have u: "[31..<34] = [31, 32, 33 :: nat]" by (simp add: upt_rec)
  have "k < 31 \<or> k = 31 \<or> k = 32 \<or> k = 33" using assms(2) by auto
  then show ?thesis using f unfolding copy_seeds_def u by (elim disjE) simp_all
qed

lemma skip_rands_lagged:
  assumes "rand_ok s"
  shows "lagged (window (skip_rands n s)) k = lagged (window s) (n + k)"
  using assms
proof (induction n arbitrary: s)
  case (Suc n)
  have "length (window s) = 34" by (simp add: window_def)
  then have "lagged (window (snd (rand_step s))) m = lagged (window s) (Suc m)" for m
    unfolding window_step(1) [OF Suc.prems] by (rule lagged_shift)
  then show ?case using Suc.IH [OF rand_step_ok [OF Suc.prems]] by simp
qed simp

lemma srand_lagged:
  assumes "length (rng s) = 34"
  shows "lagged (window (srand seed s)) k = lagged (seed_words seed) (310 + k)"
proof -
  let ?x = "if seed = 0 then 1 else seed"
  let ?r = "(rng s)[0 := ?x]"
  let ?t = "s\<lparr>init_done := True, rng := copy_seeds (fill_seeds ?r), ptr0 := 3, ptr1 := 31\<rparr>"
  have l: "length (copy_seeds (fill_seeds ?r)) = 34" "length ?r = 34"
    using assms by (simp_all add: copy_seeds_def fill_seeds_def fold_update_length)
  have x: "?r ! 0 = ?x" using assms by simp
  have ok: "rand_ok ?t" using l by (simp add: rand_ok_def)
  have "window ?t = seed_words seed"
  proof (rule nth_equalityI)
    show "length (window ?t) = length (seed_words seed)" by (simp add: window_def seed_words_def Let_def)
    fix k assume "k < length (window ?t)"
    then have k: "k < 34" by (simp add: window_def)
    have w: "window ?t ! k = seed_word ?x (if (31 + k) mod 34 < 31 then (31 + k) mod 34 else (31 + k) mod 34 - 31)"
      using k srand_seeds [OF l(2), of "(31 + k) mod 34"] unfolding x by (simp add: window_def)
    show "window ?t ! k = seed_words seed ! k"
    proof (cases "k < 3")
      case True
      then have "k = 0 \<or> k = 1 \<or> k = 2" by auto
      then show ?thesis unfolding w by (elim disjE) (simp_all add: seed_words_def Let_def)
    next
      case False
      then have "(31 + k) mod 34 = k - 3" using k by (simp add: le_mod_geq)
      then show ?thesis unfolding w using False k by (simp add: seed_words_def Let_def nth_append numeral_3_eq_3)
    qed
  qed
  then show ?thesis using skip_rands_lagged [OF ok, of 310 k] by (simp add: srand_def Let_def)
qed



lemma rand_range: "0 \<le> fst (rand s) \<and> fst (rand s) \<le> RAND_MAX"
  unfolding rand_def by (rule rand_step_range)

text \<open>The products of \<open>srand\<close> overflow: the fourth seed from 1 is not 16807 times the third modulo \<open>RAND_MAX\<close>.\<close>

lemma seed_overflow: "next_seed 1 = 16807" "next_seed 16807 = 282475249" "next_seed 282475249 \<noteq> word_of_int (16807 * 282475249 mod RAND_MAX)"
  by (simp_all add: next_seed_def RAND_MAX_def c_mod_def c_div_def Let_def)

end
