(* ===== verification/Pci.thy ===== *)
theory Pci
  imports Hw Bootdev
begin

text \<open>
  The PCI bus (\<open>src/pci.c\<close>): finding the BIOS, reading the configuration space, counting the devices, and
  the names of their classes. The BIOS call is the parameter \<open>bios\<close>; messages are left out. A panic is
  \<open>Inl\<close>, a look behind a table of names is \<open>None\<close>.
\<close>

definition CONFIG_ADDR_PORT :: u16 where "CONFIG_ADDR_PORT = 0xcf8"
definition CONFIG_DATA_PORT :: u16 where "CONFIG_DATA_PORT = 0xcfc"
definition ADDR_ENABLE :: u32 where "ADDR_ENABLE = 0x80000000"
definition ADDR_BUSID :: "u32 \<Rightarrow> u32" where "ADDR_BUSID x = push_bit 16 (x AND 0xff)"
definition ADDR_DEVID :: "u32 \<Rightarrow> u32" where "ADDR_DEVID x = push_bit 11 (x AND 0x1f)"
definition ADDR_FUNC :: "u32 \<Rightarrow> u32" where "ADDR_FUNC x = push_bit 8 (x AND 3)"
definition PCI_SIG :: u32 where "PCI_SIG = 0x20494350"
definition TYPE_MULTIFUNC :: u8 where "TYPE_MULTIFUNC = 0x80"

section \<open>Configuration space\<close>

text \<open>\<open>struct config_data\<close> is filled as 16 words; the fields the driver looks at.\<close>

type_synonym config_data = "u32 list"

definition vendor :: "config_data \<Rightarrow> u16" where "vendor d = ucast (d ! 0)"
definition hdr_type :: "config_data \<Rightarrow> u8" where "hdr_type d = ucast (drop_bit 16 (d ! 3))"

datatype mechanism = cfg_read32_m1 | cfg_read32_m2

definition read_m1 :: "u32 \<Rightarrow> u32 \<Rightarrow> u32 \<Rightarrow> u32 \<Rightarrow> ('z machine_scheme, u32) state" where
  "read_m1 bus dv func reg = do {
     outl (ADDR_ENABLE OR ADDR_BUSID bus OR ADDR_DEVID dv OR ADDR_FUNC func OR reg) CONFIG_ADDR_PORT;
     inl CONFIG_DATA_PORT }"

definition cfg_read32 :: "mechanism \<Rightarrow> u32 \<Rightarrow> u32 \<Rightarrow> u32 \<Rightarrow> u32 \<Rightarrow> 'z machine_scheme \<Rightarrow> fault + u32 \<times> 'z machine_scheme" where
  "cfg_read32 mech bus dv func reg m =
     (case mech of
        cfg_read32_m1 \<Rightarrow> Inr (run_state (read_m1 bus dv func reg) m)
      | cfg_read32_m2 \<Rightarrow> Inl (Panic ''BUG: PCI mess mechanism #2 not implemented yet!''))"

fun read_regs :: "mechanism \<Rightarrow> u32 \<Rightarrow> u32 \<Rightarrow> u32 \<Rightarrow> nat list \<Rightarrow> 'z machine_scheme \<Rightarrow> fault + u32 list \<times> 'z machine_scheme" where
  "read_regs mech bus dv func [] m = Inr ([], m)"
| "read_regs mech bus dv func (i # js) m =
     (case cfg_read32 mech bus dv func (of_nat (i * 4)) m of
        Inl f \<Rightarrow> Inl f
      | Inr (v, m) \<Rightarrow> (case read_regs mech bus dv func js m of Inl f \<Rightarrow> Inl f | Inr (vs, m) \<Rightarrow> Inr (v # vs, m)))"

text \<open>\<open>None\<close> is the \<open>-1\<close> for no device.\<close>

definition read_dev_info :: "mechanism \<Rightarrow> u32 \<Rightarrow> u32 \<Rightarrow> u32 \<Rightarrow> 'z machine_scheme \<Rightarrow> fault + config_data option \<times> 'z machine_scheme" where
  "read_dev_info mech bus dv func m =
     (case cfg_read32 mech bus dv func 0 m of
        Inl f \<Rightarrow> Inl f
      | Inr (v, m) \<Rightarrow>
          if vendor [v] = 0xffff then Inr (None, m)
          else (case read_regs mech bus dv func [1..<16] m of Inl f \<Rightarrow> Inl f | Inr (vs, m) \<Rightarrow> Inr (Some (v # vs), m)))"

fun count_funcs :: "mechanism \<Rightarrow> u32 \<Rightarrow> u32 \<Rightarrow> nat list \<Rightarrow> nat \<Rightarrow> 'z machine_scheme \<Rightarrow> fault + nat \<times> 'z machine_scheme" where
  "count_funcs mech bus dv [] cnt m = Inr (cnt, m)"
| "count_funcs mech bus dv (i # js) cnt m =
     (case read_dev_info mech bus dv (of_nat i) m of
        Inl f \<Rightarrow> Inl f
      | Inr (None, m) \<Rightarrow> count_funcs mech bus dv js cnt m
      | Inr (Some _, m) \<Rightarrow> count_funcs mech bus dv js (cnt + 1) m)"

definition enum_dev :: "mechanism \<Rightarrow> u32 \<Rightarrow> u32 \<Rightarrow> 'z machine_scheme \<Rightarrow> fault + nat \<times> 'z machine_scheme" where
  "enum_dev mech bus dv m =
     (case cfg_read32 mech bus dv 0 0 m of
        Inl f \<Rightarrow> Inl f
      | Inr (v, m) \<Rightarrow>
          if v AND 0xffff = 0xffff then Inr (0, m)
          else (case read_dev_info mech bus dv 0 m of
                  Inl f \<Rightarrow> Inl f
                | Inr (None, m) \<Rightarrow> Inr (0, m)
                | Inr (Some info, m) \<Rightarrow>
                    if hdr_type info AND TYPE_MULTIFUNC \<noteq> 0 then count_funcs mech bus dv [1..<8] 1 m else Inr (1, m)))"

fun enum_bus :: "mechanism \<Rightarrow> u32 \<Rightarrow> nat list \<Rightarrow> 'z machine_scheme \<Rightarrow> fault + nat \<times> 'z machine_scheme" where
  "enum_bus mech bus [] m = Inr (0, m)"
| "enum_bus mech bus (i # js) m =
     (case enum_dev mech bus (of_nat i) m of
        Inl f \<Rightarrow> Inl f
      | Inr (n, m) \<Rightarrow> (case enum_bus mech bus js m of Inl f \<Rightarrow> Inl f | Inr (k, m) \<Rightarrow> Inr (n + k, m)))"

fun enum_buses :: "mechanism \<Rightarrow> nat list \<Rightarrow> 'z machine_scheme \<Rightarrow> fault + nat \<times> 'z machine_scheme" where
  "enum_buses mech [] m = Inr (0, m)"
| "enum_buses mech (b # bs) m =
     (case enum_bus mech (of_nat b) [0..<32] m of
        Inl f \<Rightarrow> Inl f
      | Inr (n, m) \<Rightarrow> (case enum_buses mech bs m of Inl f \<Rightarrow> Inl f | Inr (k, m) \<Rightarrow> Inr (n + k, m)))"

text \<open>The number of devices, or \<open>None\<close> when \<open>init_pci\<close> returns early.\<close>

definition init_pci :: "(int86regs \<Rightarrow> 'z machine_scheme \<Rightarrow> int86regs \<times> 'z machine_scheme) \<Rightarrow> 'z machine_scheme \<Rightarrow>
    fault + nat option \<times> 'z machine_scheme" where
  "init_pci bios m = (
     let intrflag = result_of get_intr_flag m;
         (regs, m) = bios (zero_regs\<lparr>r_eax := 0xb101\<rparr>) m;
         m = exec (set_intr_flag intrflag) m
     in if carry regs \<or> r_eax regs AND 0xff00 \<noteq> 0 \<or> r_edx regs \<noteq> PCI_SIG then Inr (None, m)
        else if r_eax regs AND 1 = 0 \<and> r_eax regs AND 2 = 0 then Inr (None, m)
        else (case enum_buses (if r_eax regs AND 1 \<noteq> 0 then cfg_read32_m1 else cfg_read32_m2) [0..<256] m of
                Inl f \<Rightarrow> Inl f
              | Inr (k, m) \<Rightarrow> Inr (Some k, m)))"

section \<open>Names\<close>

definition class_names :: "string list" where
  "class_names = [
    ''unknown'', ''mass storage controller'', ''network controller'', ''display controller'', ''multimedia device'',
    ''memory controller'', ''bridge device'', ''simple communication controller'', ''base system peripheral'',
    ''input device'', ''docking station'', ''processor'', ''serial bus controller'', ''wireless controller'',
    ''intelligent I/O controller'', ''satellite communication controller'', ''encryption/decryption controller'',
    ''data acquisition & signal processing controller'']"

definition class_mass_names :: "string list" where
  "class_mass_names = [
    ''SCSI bus controller'', ''IDE controller'', ''floppy disk controller'', ''IPI bus controller'', ''RAID controller'']"

definition class_net_names :: "string list" where
  "class_net_names = [
    ''ethernet controller'', ''token ring controller'', ''FDDI controller'', ''ATM controller'', ''ISDN controller'']"

definition class_disp_names :: "string list" where
  "class_disp_names = [
    ''VGA-compatible controller'', ''XGA controller'', ''3D controller'']"

definition class_mm_names :: "string list" where
  "class_mm_names = [
    ''video device'', ''audio device'', ''telephony device'']"

definition class_bridge_names :: "string list" where
  "class_bridge_names = [
    ''host bridge'', ''ISA bridge'', ''EISA bridge'', ''MCA bridge'', ''PCI-to-PCI bridge'',
    ''Subtractive decode PCI-to-PCI bridge'', ''PCMCIA bridge'', ''NuBus bridge'', ''CardBus bridge'',
    ''RACEway bridge'']"

definition class_comm_names :: "string list" where
  "class_comm_names = [
    ''serial controller'', ''parallel/IEEE1284'', ''multiport serial controller'', ''modem'']"

definition class_base_names :: "string list" where
  "class_base_names = [
    ''interrupt controller'', ''DMA controller'', ''timer'', ''RTC'', ''PCI hot-plug controller'']"

definition class_input_names :: "string list" where
  "class_input_names = [
    ''keyboard controller'', ''digitizer'', ''mouse controller'', ''scanner controller'', ''gameport controller'']"

definition class_ser_names :: "string list" where
  "class_ser_names = [
    ''firewire'', ''ACCESS.bus'', ''SSA'', ''USB'', ''Fibre Channel'', ''SMBus'']"

definition class_sat_names :: "string list" where
  "class_sat_names = [
    ''TV'', ''audio'', ''voice'', ''data'']"


definition look_up :: "string list \<Rightarrow> nat \<Rightarrow> string option" where
  "look_up names i = (if i < length names then Some (names ! i) else None)"

definition class_str :: "nat \<Rightarrow> string option" where
  "class_str cc = (if cc = 0xff then Some ''other'' else if 0x12 \<le> cc then Some ''unknown'' else look_up class_names cc)"

definition subclass_str :: "nat \<Rightarrow> nat \<Rightarrow> string option" where
  "subclass_str cc sub =
     (if sub = 0x80 then Some ''other''
      else if cc = 0 then if sub = 1 then Some ''VGA-compatible device'' else Some ''unknown''
      else if cc = 1 then if 4 < sub then Some ''unknown'' else look_up class_mass_names sub
      else if cc = 2 then if 4 < sub then Some ''unknown'' else look_up class_net_names sub
      else if cc = 3 then if 2 < sub then Some ''unknown'' else look_up class_disp_names sub
      else if cc = 4 then if 2 < sub then Some ''unknown'' else look_up class_mm_names sub
      else if cc = 5 then if sub = 0 then Some ''RAM'' else if sub = 1 then Some ''flash'' else Some ''unknown''
      else if cc = 6 then if 8 < sub then Some ''unknown'' else look_up class_bridge_names sub
      else if cc = 7 then if 3 < sub then Some ''unknown'' else look_up class_comm_names sub
      else if cc = 8 then if 4 < sub then Some ''unknown'' else look_up class_base_names sub
      else if cc = 9 then if 4 < sub then Some ''unknown'' else look_up class_input_names sub
      else if cc = 10 then if sub = 0 then Some ''generic docking station'' else Some ''unknown''
      else if cc = 11 then
        if sub = 0 then Some ''386'' else if sub = 1 then Some ''486'' else if sub = 2 then Some ''pentium''
        else if sub = 0x10 then Some ''alpha'' else if sub = 0x20 then Some ''powerpc'' else if sub = 0x30 then Some ''mips''
        else if sub = 0x40 then Some ''co-processor'' else Some ''unknown''
      else if cc = 12 then if 5 < sub then Some ''unknown'' else look_up class_ser_names sub
      else if cc = 13 then
        if sub = 0 then Some ''irda controller'' else if sub = 1 then Some ''IR controller''
        else if sub = 0x10 then Some ''RF controller'' else Some ''unknonw''
      else if cc = 15 then if 4 < sub then Some ''unknown'' else look_up class_sat_names sub
      else if cc = 16 then if sub = 0 then Some ''network & computing crypto'' else if sub = 1 then Some ''entertainment crypto'' else Some ''unknown''
      else if cc = 17 then if sub = 0 then Some ''DPIO module'' else Some ''unknown''
      else Some ''unknown'')"

lemmas class_tables = class_names_def class_mass_names_def class_net_names_def class_disp_names_def class_mm_names_def class_bridge_names_def
  class_comm_names_def class_base_names_def class_input_names_def class_ser_names_def class_sat_names_def

text \<open>The tables have as many names as they are looked up for, with one exception.\<close>

lemma table_lengths:
  "length class_names = 18" "length class_mass_names = 5" "length class_net_names = 5" "length class_disp_names = 3" "length class_mm_names = 3"
  "length class_bridge_names = 10" "length class_comm_names = 4" "length class_base_names = 5" "length class_input_names = 5"
  "length class_ser_names = 6" "length class_sat_names = 4"
  by (simp_all add: class_tables)

lemma if_None: "((if c then A else B) = None) = (if c then A = None else B = None)"
  by (rule if_distrib [where f = "\<lambda>x. x = None"])

text \<open>Naming a device of any class and subclass stays within the tables of names, except for subclass 4
  of class 15, which reads behind the table of satellite controllers.\<close>

theorem pci_names_in_tables: "(class_str cc = None \<or> subclass_str cc sub = None) = (cc = 15 \<and> sub = 4)"
proof -
  have look: "(look_up t i = None) = (length t \<le> i)" for t i by (simp add: look_up_def)
  have inside: "(if 4 < sub then False else 5 \<le> sub) = False" "(if 2 < sub then False else 3 \<le> sub) = False"
    "(if 8 < sub then False else 10 \<le> sub) = False" "(if 3 < sub then False else 4 \<le> sub) = False"
    "(if 5 < sub then False else 6 \<le> sub) = False" by simp_all
  have behind: "(if 4 < sub then False else 4 \<le> sub) = (sub = 4)" by auto
  have "class_str cc \<noteq> None" by (simp add: class_str_def look_up_def table_lengths)
  moreover have "(subclass_str cc sub = None) = (cc = 15 \<and> sub = 4)"
    unfolding subclass_str_def if_None look table_lengths option.distinct
    by (simp only: inside behind if_cancel option.distinct simp_thms) auto
  ultimately show ?thesis by (simp del: not_None_eq)
qed

section \<open>Functions of a device\<close>

text \<open>The address of a register keeps two of the three bits of the function number: functions 4 to 7 of a
  device are read as its functions 0 to 3.\<close>

theorem pci_functions_alias: "cfg_read32 mech bus dv (func + 4) reg m = cfg_read32 mech bus dv func reg m"
proof -
  have "take_bit 2 (4 :: u32) = 0" by simp
  then have "take_bit 2 (func + 4) = take_bit 2 func" by transfer (simp add: take_bit_eq_mod)
  then have "(func + 4) AND mask 2 = func AND mask 2" unfolding take_bit_eq_mask .
  then have "ADDR_FUNC (func + 4) = ADDR_FUNC func" by (simp add: ADDR_FUNC_def mask_eq_exp_minus_1)
  then show ?thesis by (simp add: cfg_read32_def read_m1_def split: mechanism.split)
qed

end
