(* ===== verification/Dma.thy ===== *)
theory Dma
  imports Hw
begin

text \<open>
  The DMA controllers (\<open>src/dma.c\<close>): the writes that set a channel up for a transfer, and the registers
  of two controllers that receive them.
\<close>

definition DMA_0_ADDR :: u16 where "DMA_0_ADDR = 0x00"
definition DMA_0_COUNT :: u16 where "DMA_0_COUNT = 0x01"
definition DMA_4_ADDR :: u16 where "DMA_4_ADDR = 0xc0"
definition DMA_4_COUNT :: u16 where "DMA_4_COUNT = 0xc2"
definition DMA8_MASK :: u16 where "DMA8_MASK = 0x0a"
definition DMA8_MODE :: u16 where "DMA8_MODE = 0x0b"
definition DMA8_CLR_FLIPFLOP :: u16 where "DMA8_CLR_FLIPFLOP = 0x0c"
definition DMA16_MASK :: u16 where "DMA16_MASK = 0xd4"
definition DMA16_MODE :: u16 where "DMA16_MODE = 0xd6"
definition DMA16_CLR_FLIPFLOP :: u16 where "DMA16_CLR_FLIPFLOP = 0xd8"
definition DMA_0_PAGE :: u16 where "DMA_0_PAGE = 0x87"
definition DMA_1_PAGE :: u16 where "DMA_1_PAGE = 0x83"
definition DMA_2_PAGE :: u16 where "DMA_2_PAGE = 0x81"
definition DMA_3_PAGE :: u16 where "DMA_3_PAGE = 0x82"
definition DMA_4_PAGE :: u16 where "DMA_4_PAGE = 0x8f"
definition DMA_5_PAGE :: u16 where "DMA_5_PAGE = 0x8b"
definition DMA_6_PAGE :: u16 where "DMA_6_PAGE = 0x89"
definition DMA_7_PAGE :: u16 where "DMA_7_PAGE = 0x8a"
definition MODE_WRITE_dma :: u32 where "MODE_WRITE_dma = 0x04"
definition MODE_READ_dma :: u32 where "MODE_READ_dma = 0x08"
definition MODE_AUTO :: u32 where "MODE_AUTO = 0x10"
definition MODE_DECR :: u32 where "MODE_DECR = 0x20"
definition MASK_DISABLE :: u8 where "MASK_DISABLE = 0x04"
definition DMA_SINGLE :: u32 where "DMA_SINGLE = 0x01"
definition DMA_BLOCK :: u32 where "DMA_BLOCK = 0x02"
definition DMA_DECR :: u32 where "DMA_DECR = 0x08"
definition DMA_AUTO :: u32 where "DMA_AUTO = 0x10"

definition DMA_ADDR :: "nat \<Rightarrow> u16" where
  "DMA_ADDR c = (if c < 4 then DMA_0_ADDR + of_nat (push_bit 1 c) else DMA_4_ADDR + of_nat (push_bit 2 c))"
definition DMA_COUNT :: "nat \<Rightarrow> u16" where
  "DMA_COUNT c = (if c < 4 then DMA_0_COUNT + of_nat (push_bit 1 c) else DMA_4_COUNT + of_nat (push_bit 2 c))"
definition DMA_MASK :: "nat \<Rightarrow> u16" where "DMA_MASK c = (if c < 4 then DMA8_MASK else DMA16_MASK)"
definition DMA_MODE :: "nat \<Rightarrow> u16" where "DMA_MODE c = (if c < 4 then DMA8_MODE else DMA16_MODE)"
definition DMA_CLR_FLIPFLOP :: "nat \<Rightarrow> u16" where "DMA_CLR_FLIPFLOP c = (if c < 4 then DMA8_CLR_FLIPFLOP else DMA16_CLR_FLIPFLOP)"
definition MODE_CHAN :: "nat \<Rightarrow> u32" where "MODE_CHAN x = of_nat x AND 3"
definition MASK_CHAN :: "nat \<Rightarrow> u8" where "MASK_CHAN x = of_nat x AND 3"
definition IS_16BIT :: "nat \<Rightarrow> bool" where "IS_16BIT c \<longleftrightarrow> 4 \<le> c"

definition page_port :: "u16 list" where
  "page_port = [DMA_0_PAGE, DMA_1_PAGE, DMA_2_PAGE, DMA_3_PAGE, DMA_4_PAGE, DMA_5_PAGE, DMA_6_PAGE, DMA_7_PAGE]"

lemmas dma_ports = DMA_0_ADDR_def DMA_0_COUNT_def DMA_4_ADDR_def DMA_4_COUNT_def DMA8_MASK_def DMA8_MODE_def DMA8_CLR_FLIPFLOP_def
  DMA16_MASK_def DMA16_MODE_def DMA16_CLR_FLIPFLOP_def DMA_0_PAGE_def DMA_1_PAGE_def DMA_2_PAGE_def DMA_3_PAGE_def
  DMA_4_PAGE_def DMA_5_PAGE_def DMA_6_PAGE_def DMA_7_PAGE_def page_port_def
  DMA_ADDR_def DMA_COUNT_def DMA_MASK_def DMA_MODE_def DMA_CLR_FLIPFLOP_def
lemmas dma_bits = MODE_WRITE_dma_def MODE_READ_dma_def MODE_AUTO_def MODE_DECR_def MASK_DISABLE_def DMA_SINGLE_def DMA_BLOCK_def
  DMA_DECR_def DMA_AUTO_def MODE_CHAN_def MASK_CHAN_def

definition mask_chan :: "nat \<Rightarrow> ('z machine_scheme, unit) state" where
  "mask_chan chan = outb (MASK_CHAN chan OR MASK_DISABLE) (DMA_MASK chan)"

definition unmask_chan :: "nat \<Rightarrow> ('z machine_scheme, unit) state" where
  "unmask_chan chan = outb (MASK_CHAN chan) (DMA_MASK chan)"

definition dma_mode :: "nat \<Rightarrow> u32 \<Rightarrow> u32 \<Rightarrow> u32" where
  "dma_mode chan flags dir = (
     let mode = push_bit 6 (flags AND 3) OR dir OR MODE_CHAN chan;
         mode = (if flags AND DMA_DECR \<noteq> 0 then mode OR MODE_DECR else mode)
     in if flags AND DMA_AUTO \<noteq> 0 then mode OR MODE_AUTO else mode)"

definition dma_io :: "nat \<Rightarrow> u32 \<Rightarrow> int \<Rightarrow> u32 \<Rightarrow> u32 \<Rightarrow> ('z machine_scheme, unit) state" where
  "dma_io chan phyaddr sz flags dir = do {
     mask_chan chan;
     outb 0 (DMA_CLR_FLIPFLOP chan);
     outb (ucast (dma_mode chan flags dir)) (DMA_MODE chan);
     (let (phyaddr, sz) = (if IS_16BIT chan then (drop_bit 1 phyaddr, drop_bit 1 sz) else (phyaddr, sz));
          sz' = sz - 1
      in do {
        outb (ucast (phyaddr AND 0xff)) (DMA_ADDR chan);
        outb (ucast (drop_bit 8 phyaddr AND 0xff)) (DMA_ADDR chan);
        outb (ucast (drop_bit 16 phyaddr AND 0xff)) (page_port ! chan);
        outb (word_of_int (sz' AND 0xff)) (DMA_COUNT chan);
        outb (word_of_int (drop_bit 8 sz' AND 0xff)) (DMA_COUNT chan) });
     unmask_chan chan }"

definition dma_out :: "nat \<Rightarrow> u32 \<Rightarrow> int \<Rightarrow> u32 \<Rightarrow> ('z machine_scheme, unit) state" where
  "dma_out chan phyaddr sz flags = dma_io chan phyaddr sz flags MODE_READ_dma"

definition dma_in :: "nat \<Rightarrow> u32 \<Rightarrow> int \<Rightarrow> u32 \<Rightarrow> ('z machine_scheme, unit) state" where
  "dma_in chan phyaddr sz flags = dma_io chan phyaddr sz flags MODE_WRITE_dma"

section \<open>The controllers\<close>

text \<open>
  The registers of the two controllers as their data sheet describes them. A controller has 16 registers,
  on neighbouring ports (channels 0 to 3) or on every second port from 0xc0 (channels 4 to 7). Registers 0
  to 7 are the addresses and counts of its channels, written low byte first as its flip-flop says.
\<close>

record channel =
  c_addr :: u16
  c_count :: u16
  c_page :: u8
  c_mode :: u8
  c_masked :: bool

record dmac =
  flip :: "nat \<Rightarrow> bool"
  chans :: "nat \<Rightarrow> channel"

definition put_byte :: "bool \<Rightarrow> u8 \<Rightarrow> u16 \<Rightarrow> u16" where
  "put_byte high v w = (if high then (w AND 0xff) OR push_bit 8 (ucast v) else (w AND 0xff00) OR ucast v)"

definition upd_chan :: "nat \<Rightarrow> (channel \<Rightarrow> channel) \<Rightarrow> dmac \<Rightarrow> dmac" where
  "upd_chan c f d = d\<lparr>chans := (chans d)(c := f (chans d c))\<rparr>"

definition mask_all :: "nat \<Rightarrow> (nat \<Rightarrow> bool) \<Rightarrow> dmac \<Rightarrow> dmac" where
  "mask_all b f d = d\<lparr>chans := (\<lambda>c. if b \<le> c \<and> c < b + 4 then (chans d c)\<lparr>c_masked := f (c - b)\<rparr> else chans d c)\<rparr>"

definition reg_write :: "nat \<Rightarrow> nat \<Rightarrow> u8 \<Rightarrow> dmac \<Rightarrow> dmac" where
  "reg_write b r v d =
     (if r < 8 then
        let c = b + r div 2; h = flip d b; d = d\<lparr>flip := (flip d)(b := \<not> h)\<rparr>
        in if even r then upd_chan c (\<lambda>x. x\<lparr>c_addr := put_byte h v (c_addr x)\<rparr>) d
           else upd_chan c (\<lambda>x. x\<lparr>c_count := put_byte h v (c_count x)\<rparr>) d
      else if r = 10 then upd_chan (b + unat (v AND 3)) (\<lambda>x. x\<lparr>c_masked := bit v 2\<rparr>) d
      else if r = 11 then upd_chan (b + unat (v AND 3)) (\<lambda>x. x\<lparr>c_mode := v\<rparr>) d
      else if r = 12 then d\<lparr>flip := (flip d)(b := False)\<rparr>
      else if r = 13 then mask_all b (\<lambda>_. True) (d\<lparr>flip := (flip d)(b := False)\<rparr>)
      else if r = 14 then mask_all b (\<lambda>_. False) d
      else if r = 15 then mask_all b (bit v) d
      else d)"

definition page_chan :: "u16 \<Rightarrow> nat option" where
  "page_chan = map_of [(0x87, 0), (0x83, 1), (0x81, 2), (0x82, 3), (0x8f, 4), (0x8b, 5), (0x89, 6), (0x8a, 7)]"

definition dmac_step :: "u16 \<times> u8 \<Rightarrow> dmac \<Rightarrow> dmac" where
  "dmac_step w d = (case w of (p, v) \<Rightarrow>
     if p < 0x10 then reg_write 0 (unat p) v d
     else if 0xc0 \<le> p \<and> p < 0xe0 then reg_write 4 ((unat p - 0xc0) div 2) v d
     else (case page_chan p of Some c \<Rightarrow> upd_chan c (\<lambda>x. x\<lparr>c_page := v\<rparr>) d | None \<Rightarrow> d))"

definition dmac_after :: "'z machine_scheme \<Rightarrow> dmac \<Rightarrow> dmac" where
  "dmac_after m d = fold dmac_step (writes (io_log m)) d"

lemma dmac_after_logs: "dmac_after (logs es m) d = fold dmac_step (writes es) (dmac_after m d)"
  by (simp add: dmac_after_def writes_append)

lemma put_word: "put_byte True (ucast (drop_bit 8 a AND 0xff)) (put_byte False (ucast (a AND 0xff)) w) = ucast a" for a :: u32
proof (rule bit_word_eqI)
  fix n assume "n < LENGTH(16)"
  have m: "(0xff :: u16) = mask 8" "(0xff :: u32) = mask 8" "(0xff00 :: u16) = push_bit 8 (mask 8)"
    by (simp_all add: mask_eq_exp_minus_1 push_bit_eq_mult)
  show "bit (put_byte True (ucast (drop_bit 8 a AND 0xff)) (put_byte False (ucast (a AND 0xff)) w)) n \<longleftrightarrow> bit (ucast a :: u16) n"
    unfolding put_byte_def m using \<open>n < LENGTH(16)\<close>
    by (cases "n < 8") (auto simp: bit_or_iff bit_push_bit_iff bit_ucast_iff bit_and_iff bit_mask_iff bit_drop_bit_eq ac_simps)
qed

lemma put_int: "put_byte True (word_of_int (drop_bit 8 k AND 0xff)) (put_byte False (word_of_int (k AND 0xff)) w) = word_of_int k" for k :: int
proof (rule bit_word_eqI)
  fix n assume "n < LENGTH(16)"
  have m: "(0xff :: u16) = mask 8" "(0xff :: int) = mask 8" "(0xff00 :: u16) = push_bit 8 (mask 8)"
    by (simp_all add: mask_eq_exp_minus_1 push_bit_eq_mult)
  show "bit (put_byte True (word_of_int (drop_bit 8 k AND 0xff)) (put_byte False (word_of_int (k AND 0xff)) w)) n \<longleftrightarrow> bit (word_of_int k :: u16) n"
    unfolding put_byte_def m using \<open>n < LENGTH(16)\<close>
    by (cases "n < 8") (auto simp: bit_or_iff bit_push_bit_iff bit_ucast_iff bit_and_iff bit_mask_iff bit_drop_bit_eq bit_word_of_int_iff ac_simps)
qed

lemma dma_mode_chan:
  assumes "dir AND 3 = 0"
  shows "dma_mode chan flags dir AND 3 = of_nat chan AND 3"
  using assms by (simp add: dma_mode_def dma_bits Let_def bit.conj_disj_distrib2 and.assoc)

lemma ucast_and3: "(ucast w :: u8) AND 3 = ucast (w AND 3)" for w :: u32
  by (rule bit_word_eqI) (auto simp: bit_and_iff bit_ucast_iff)

lemma dma_io_log: "exec (dma_io chan a sz flags dir) m = logs [
    Out8 (DMA_MASK chan) (MASK_CHAN chan),
    Out8 (DMA_COUNT chan) (word_of_int (drop_bit 8 ((if IS_16BIT chan then drop_bit 1 sz else sz) - 1) AND 0xff)),
    Out8 (DMA_COUNT chan) (word_of_int (((if IS_16BIT chan then drop_bit 1 sz else sz) - 1) AND 0xff)),
    Out8 (page_port ! chan) (ucast (drop_bit 16 (if IS_16BIT chan then drop_bit 1 a else a) AND 0xff)),
    Out8 (DMA_ADDR chan) (ucast (drop_bit 8 (if IS_16BIT chan then drop_bit 1 a else a) AND 0xff)),
    Out8 (DMA_ADDR chan) (ucast ((if IS_16BIT chan then drop_bit 1 a else a) AND 0xff)),
    Out8 (DMA_MODE chan) (ucast (dma_mode chan flags dir)),
    Out8 (DMA_CLR_FLIPFLOP chan) 0,
    Out8 (DMA_MASK chan) (MASK_CHAN chan OR MASK_DISABLE)] m"
  by (simp add: dma_io_def mask_chan_def unmask_chan_def run_simps Let_def)

text \<open>The channel that a transfer uses, as the controller then has it.\<close>

definition set_up :: "nat \<Rightarrow> u32 \<Rightarrow> int \<Rightarrow> u32 \<Rightarrow> u32 \<Rightarrow> dmac \<Rightarrow> dmac" where
  "set_up chan a sz flags dir d = d\<lparr>flip := (flip d)(0 := False),
     chans := (chans d)(chan := \<lparr>c_addr = ucast a, c_count = word_of_int (sz - 1), c_page = ucast (drop_bit 16 a),
       c_mode = ucast (dma_mode chan flags dir), c_masked = False\<rparr>)\<rparr>"

lemma dma_io_low:
  assumes "chan < 4" "dir AND 3 = 0"
  shows "dmac_after (exec (dma_io chan a sz flags dir) m) d = set_up chan a sz flags dir (dmac_after m d)"
proof -
  have mode: "unat (ucast (dma_mode chan flags dir) AND (3 :: u8)) = unat (ucast (of_nat chan AND (3 :: u32)) :: u8)"
    using dma_mode_chan [OF assms(2)] ucast_and3 [of "dma_mode chan flags dir"] by simp
  have byte: "(ucast (drop_bit 16 a AND 0xff) :: u8) = ucast (drop_bit 16 a)"
  proof (rule bit_word_eqI)
    fix n have m: "(0xff :: u32) = mask 8" by (simp add: mask_eq_exp_minus_1)
    assume "n < LENGTH(8)"
    then show "bit (ucast (drop_bit 16 a AND 0xff) :: u8) n \<longleftrightarrow> bit (ucast (drop_bit 16 a) :: u8) n"
      unfolding m by (auto simp: bit_and_iff bit_ucast_iff bit_mask_iff)
  qed
  have two: "Suc (Suc 0) = 2" by simp
  have c: "chan = 0 \<or> chan = 1 \<or> chan = 2 \<or> chan = 3" using assms(1) by linarith
  show ?thesis
    unfolding dmac_after_logs dma_io_log set_up_def
    using c mode by (cases "chans (dmac_after m d) chan"; elim disjE) (simp_all add: dma_ports dma_bits IS_16BIT_def dmac_step_def reg_write_def upd_chan_def page_chan_def
      Let_def put_word put_int byte two)
qed

text \<open>C31: \<open>dma_out\<close> sets one of the channels 0 to 3 up: the address, its page, one less than the size, and the
  mode, unmasked; nothing else changes but the flip-flop.\<close>

theorem dma_out_sets_up:
  assumes "chan < 4"
  shows "dmac_after (exec (dma_out chan a sz flags) m) d = set_up chan a sz flags MODE_READ_dma (dmac_after m d)"
  unfolding dma_out_def by (rule dma_io_low [OF assms]) (simp add: MODE_READ_dma_def)

definition idle_dmac :: dmac where
  "idle_dmac = \<lparr>flip = (\<lambda>_. True), chans = (\<lambda>_. \<lparr>c_addr = 0, c_count = 0, c_page = 0, c_mode = 0, c_masked = True\<rparr>)\<rparr>"

definition quiet :: machine where
  "quiet = \<lparr>io_log = [], dev8 = (\<lambda>_ _. 0), dev16 = (\<lambda>_ _. 0), dev32 = (\<lambda>_ _. 0), intr_on = False\<rparr>"

lemma dma_out_sets_up_witness:
  "dmac_after (exec (dma_out 1 0x1f0000 65536 DMA_SINGLE) quiet) idle_dmac = set_up 1 0x1f0000 65536 DMA_SINGLE MODE_READ_dma (dmac_after quiet idle_dmac)"
  by (rule dma_out_sets_up) simp

lemma dma_in_sets_up: "chan < 4 \<Longrightarrow> dmac_after (exec (dma_in chan a sz flags) m) d = set_up chan a sz flags MODE_WRITE_dma (dmac_after m d)"
  unfolding dma_in_def by (rule dma_io_low) (simp_all add: MODE_WRITE_dma_def)

text \<open>The ports that \<open>dma_io\<close> computes for the address and count of channels 5 to 7 are not theirs: a transfer
  leaves both as they were.\<close>

theorem dma_16bit_not_set_up:
  assumes "chan \<in> {5, 6, 7}"
  shows "let d' = dmac_after (exec (dma_io chan a sz flags dir) m) d; c = chans (dmac_after m d) chan
    in (c_addr (chans d' chan), c_count (chans d' chan)) = (c_addr c, c_count c)"
  unfolding dmac_after_logs dma_io_log Let_def
  using assms by (elim insertE emptyE) (simp_all add: dma_ports dma_bits IS_16BIT_def dmac_step_def reg_write_def upd_chan_def mask_all_def page_chan_def Let_def)

lemma dma_16bit_not_set_up_witness:
  "let d' = dmac_after (exec (dma_io 5 0x20000 512 DMA_SINGLE MODE_READ_dma) quiet) idle_dmac; c = chans (dmac_after quiet idle_dmac) 5
    in (c_addr (chans d' 5), c_count (chans d' 5)) = (c_addr c, c_count c)"
  by (rule dma_16bit_not_set_up) simp

text \<open>The count of channel 6 goes to the port that resets the controller, which masks all its channels.\<close>

lemma dma_6_resets: "c_masked (chans (dmac_after (exec (dma_io 6 a sz flags dir) m) d) 7)"
  unfolding dmac_after_logs dma_io_log
  by (simp add: dma_ports dma_bits IS_16BIT_def dmac_step_def reg_write_def upd_chan_def mask_all_def page_chan_def Let_def)

end
