(* ===== verification/Au_sb.thy ===== *)
theory Au_sb
  imports Intr Dma
begin

text \<open>
  The Sound Blaster driver (\<open>src/au_sb.c\<close>): finding and configuring the card, starting and stopping the
  output, and the interrupt handler that asks for more data. The client's function is the parameter \<open>cb\<close>, a
  meaning for the name it was registered under. \<open>None\<close> is a call that does not return: it waits for a card
  that is never ready, or divides by zero. Messages are left out.
\<close>

definition REG_MIXPORT :: u16 where "REG_MIXPORT = 0x4"
definition REG_MIXDATA :: u16 where "REG_MIXDATA = 0x5"
definition REG_RESET :: u16 where "REG_RESET = 0x6"
definition REG_RDATA :: u16 where "REG_RDATA = 0xa"
definition REG_WDATA :: u16 where "REG_WDATA = 0xc"
definition REG_WSTAT :: u16 where "REG_WSTAT = 0xc"
definition REG_RSTAT :: u16 where "REG_RSTAT = 0xe"
definition REG_INTACK :: u16 where "REG_INTACK = 0xe"
definition WSTAT_BUSY :: u8 where "WSTAT_BUSY = 0x80"
definition RSTAT_RDY :: u8 where "RSTAT_RDY = 0x80"
definition CMD_RATE :: u8 where "CMD_RATE = 0x40"
definition CMD_SB16_OUT_RATE :: u8 where "CMD_SB16_OUT_RATE = 0x41"
definition CMD_GET_VER :: u8 where "CMD_GET_VER = 0xe1"
definition CMD_START_DMA8 :: u8 where "CMD_START_DMA8 = 0xc0"
definition CMD_PAUSE_DMA8 :: u8 where "CMD_PAUSE_DMA8 = 0xd0"
definition CMD_ENABLE_OUTPUT :: u8 where "CMD_ENABLE_OUTPUT = 0xd1"
definition CMD_DISABLE_OUTPUT :: u8 where "CMD_DISABLE_OUTPUT = 0xd3"
definition CMD_CONT_DMA8 :: u8 where "CMD_CONT_DMA8 = 0xd4"
definition CMD_END_DMA8 :: u8 where "CMD_END_DMA8 = 0xda"
definition CMD_MODE_SIGNED :: u8 where "CMD_MODE_SIGNED = 0x10"
definition CMD_MODE_STEREO :: u8 where "CMD_MODE_STEREO = 0x20"
definition MIX_IRQ_SEL :: u8 where "MIX_IRQ_SEL = 0x80"
definition MIX_DMA_SEL :: u8 where "MIX_DMA_SEL = 0x81"
definition VER_MAJOR :: "int \<Rightarrow> int" where "VER_MAJOR x = drop_bit 8 x"
definition VER_MINOR :: "int \<Rightarrow> int" where "VER_MINOR x = x AND 0xff"

lemmas sb_regs = REG_MIXPORT_def REG_MIXDATA_def REG_RESET_def REG_RDATA_def REG_WDATA_def REG_WSTAT_def REG_RSTAT_def REG_INTACK_def
lemmas sb_cmds = CMD_RATE_def CMD_SB16_OUT_RATE_def CMD_GET_VER_def CMD_START_DMA8_def CMD_PAUSE_DMA8_def CMD_ENABLE_OUTPUT_def
  CMD_DISABLE_OUTPUT_def CMD_CONT_DMA8_def CMD_END_DMA8_def CMD_MODE_SIGNED_def CMD_MODE_STEREO_def MIX_IRQ_SEL_def MIX_DMA_SEL_def

text \<open>The variables of \<open>au_sb.c\<close> and of \<open>audio.c\<close>; \<open>drv\<close> is \<open>None\<close> while its pointers are null.\<close>

datatype audrv = sb_driver

record ('h, 'c) audio = "'h intr" +
  base_port :: u16
  irq :: nat
  dma_chan :: int
  dma16_chan :: int
  sb16 :: bool
  buffer :: u32
  xfer_mode :: u8
  drv :: "audrv option"
  cbfunc :: "'c option"
  cbcls :: u32

section \<open>The ports of the card\<close>

partial_function (option) wait_port :: "u16 \<Rightarrow> (u8 \<Rightarrow> bool) \<Rightarrow> 'z machine_scheme \<Rightarrow> 'z machine_scheme option" where
  "wait_port port busy m = (if busy (result_of (inb port) m) then wait_port port busy (exec (inb port) m) else Some (exec (inb port) m))"

declare wait_port.simps [code]

definition write_dsp :: "u8 \<Rightarrow> ('h, 'c, 'z) audio_scheme \<Rightarrow> ('h, 'c, 'z) audio_scheme option" where
  "write_dsp val s = map_option (exec (outb val (base_port s + REG_WDATA))) (wait_port (base_port s + REG_WSTAT) (\<lambda>v. v AND WSTAT_BUSY \<noteq> 0) s)"

definition read_dsp :: "('h, 'c, 'z) audio_scheme \<Rightarrow> (u8 \<times> ('h, 'c, 'z) audio_scheme) option" where
  "read_dsp s = map_option (run_state (inb (base_port s + REG_RDATA))) (wait_port (base_port s + REG_RSTAT) (\<lambda>v. v AND RSTAT_RDY = 0) s)"

definition write_mix :: "u8 \<Rightarrow> u8 \<Rightarrow> (('h, 'c, 'z) audio_scheme, unit) state" where
  "write_mix val reg = do {
     b \<leftarrow> gets base_port;
     outb reg (b + REG_MIXPORT);
     outb val (b + REG_MIXDATA) }"

definition read_mix :: "u8 \<Rightarrow> (('h, 'c, 'z) audio_scheme, u8) state" where
  "read_mix reg = do {
     b \<leftarrow> gets base_port;
     outb reg (b + REG_MIXPORT);
     inb (b + REG_MIXDATA) }"

section \<open>Finding a card\<close>

fun await_reset :: "nat \<Rightarrow> u16 \<Rightarrow> ('z machine_scheme, bool) state" where
  "await_reset 0 b = ret False"
| "await_reset (Suc n) b = do {
     st \<leftarrow> inb (b + REG_RSTAT);
     if st AND RSTAT_RDY \<noteq> 0 then do {
       d \<leftarrow> inb (b + REG_RDATA);
       if d = 0xaa then ret True else await_reset n b }
     else await_reset n b }"

text \<open>\<open>True\<close> is the result 0.\<close>

definition sb_reset_dsp :: "(('h, 'c, 'z) audio_scheme, bool) state" where
  "sb_reset_dsp = do {
     b \<leftarrow> gets base_port;
     outb 1 (b + REG_RESET);
     iodelays 3;
     outb 0 (b + REG_RESET);
     await_reset 128 b }"

definition get_dsp_version :: "('h, 'c, 'z) audio_scheme \<Rightarrow> (int \<times> ('h, 'c, 'z) audio_scheme) option" where
  "get_dsp_version s = do {
     s \<leftarrow> write_dsp CMD_GET_VER s;
     (major, s) \<leftarrow> read_dsp s;
     (minor, s) \<leftarrow> read_dsp s;
     Some (push_bit 8 (uint major) OR uint minor, s) }"

definition irqtab :: "nat list" where "irqtab = [2, 5, 7, 10]"

text \<open>The first of the bits \<open>js\<close> that is set.\<close>

definition first_set :: "u8 \<Rightarrow> nat list \<Rightarrow> nat option" where
  "first_set sel js = find (\<lambda>i. sel AND push_bit i 1 \<noteq> 0) js"

definition sb16_detect_irq :: "(('h, 'c, 'z) audio_scheme, int) state" where
  "sb16_detect_irq = do {
     modify (\<lambda>s. s\<lparr>irq := 0\<rparr>);
     irqsel \<leftarrow> read_mix MIX_IRQ_SEL;
     modify (\<lambda>s. case first_set irqsel [0..<4] of Some i \<Rightarrow> s\<lparr>irq := irqtab ! i\<rparr> | None \<Rightarrow> s);
     n \<leftarrow> gets irq;
     if n = 0 then do {
       write_mix 2 MIX_IRQ_SEL;
       irqsel \<leftarrow> read_mix MIX_IRQ_SEL;
       if irqsel \<noteq> 2 then ret (-1)
       else do { modify (\<lambda>s. s\<lparr>irq := 5\<rparr>); ret 5 } }
     else ret (int n) }"

definition dmatab :: "int list" where "dmatab = [0, 1, -1, 3, -1, 5, 6, 7]"

definition sb16_detect_dma :: "(('h, 'c, 'z) audio_scheme, int) state" where
  "sb16_detect_dma = do {
     modify (\<lambda>s. s\<lparr>dma_chan := -1, dma16_chan := -1\<rparr>);
     dmasel \<leftarrow> read_mix MIX_DMA_SEL;
     modify (\<lambda>s. case first_set dmasel [0..<4] of Some i \<Rightarrow> s\<lparr>dma_chan := dmatab ! i\<rparr> | None \<Rightarrow> s);
     modify (\<lambda>s. case first_set dmasel [5..<8] of Some i \<Rightarrow> s\<lparr>dma16_chan := dmatab ! i\<rparr> | None \<Rightarrow> s);
     c \<leftarrow> gets dma_chan;
     c16 \<leftarrow> gets dma16_chan;
     (let dmasel = (if c = -1 then dmasel OR 2 else dmasel);
          dmasel = (if c16 = -1 then dmasel OR 0x20 else dmasel)
      in if c = -1 \<or> c16 = -1 then do {
           write_mix dmasel MIX_DMA_SEL;
           tmp \<leftarrow> read_mix MIX_DMA_SEL;
           if tmp \<noteq> dmasel then ret (-1)
           else do { modify (\<lambda>s. s\<lparr>dma_chan := 1, dma16_chan := 5\<rparr>); ret 1 } }
         else ret c) }"

definition configure :: "int \<Rightarrow> (('h, 'c, 'z) audio_scheme, bool) state" where
  "configure ver = do {
     modify (\<lambda>s. s\<lparr>sb16 := 4 \<le> VER_MAJOR ver\<rparr>);
     if 4 \<le> VER_MAJOR ver then do {
       r \<leftarrow> sb16_detect_irq;
       if r = -1 then ret False
       else do { r \<leftarrow> sb16_detect_dma; ret (r \<noteq> -1) } }
     else do { modify (\<lambda>s. s\<lparr>irq := 5, dma_chan := 1, dma16_chan := -1\<rparr>); ret True } }"

fun probe :: "nat list \<Rightarrow> ('h, 'c, 'z) audio_scheme \<Rightarrow> (bool \<times> ('h, 'c, 'z) audio_scheme) option" where
  "probe [] s = Some (False, s)"
| "probe (i # js) s =
     (let s = s\<lparr>base_port := 0x200 + push_bit 4 (of_nat (i + 1))\<rparr>; found = result_of sb_reset_dsp s; s = exec sb_reset_dsp s
      in if found then do { (ver, s) \<leftarrow> get_dsp_version s; Some (run_state (configure ver) s) }
         else probe js s)"

definition sb_detect :: "('h, 'c, 'z) audio_scheme \<Rightarrow> (bool \<times> ('h, 'c, 'z) audio_scheme) option" where
  "sb_detect s = probe [0..<6] s"

definition sbname :: "int \<Rightarrow> string" where
  "sbname ver = (let major = VER_MAJOR ver; minor = VER_MINOR ver in
     if major = 1 then if minor = 5 then ''Sound Blaster 1.5'' else ''Sound Blaster 1.0''
     else if major = 2 \<and> (minor = 1 \<or> minor = 2) then ''Sound Blaster 2.0''
     else if major = 3 \<and> minor = 0 then ''Sound Blaster Pro''
     else if major = 3 \<and> (minor = 1 \<or> minor = 2) then ''Sound Blaster Pro 2''
     else if major = 3 \<and> minor = 5 then ''Gallant SC-6000''
     else if major = 4 \<and> (minor = 4 \<or> minor = 5) then ''Sound Blaster 16''
     else if major = 4 \<and> minor = 11 then ''Sound Blaster 16 SCSI-2''
     else if major = 4 \<and> minor = 12 then ''Sound Blaster AWE 32''
     else if major = 4 \<and> minor = 13 then ''Sound Blaster ViBRA16C''
     else if major = 4 \<and> minor = 16 then ''Sound Blaster AWE 64''
     else ''Unknown Sound Blaster'')"

section \<open>Output\<close>

definition sb_set_output_rate :: "int \<Rightarrow> ('h, 'c, 'z) audio_scheme \<Rightarrow> ('h, 'c, 'z) audio_scheme option" where
  "sb_set_output_rate rate s =
     (if sb16 s then do {
        s \<leftarrow> write_dsp CMD_SB16_OUT_RATE s;
        s \<leftarrow> write_dsp (word_of_int (drop_bit 8 rate)) s;
        write_dsp (word_of_int (rate AND 0xff)) s }
      else if rate = 0 then None
      else do {
        s \<leftarrow> write_dsp CMD_RATE s;
        write_dsp (word_of_int (256 - c_div 1000000 rate)) s })"

definition sb_buffer :: "('h, 'c, 'z) audio_scheme \<Rightarrow> u32 \<times> int" where "sb_buffer s = (buffer s, 65536)"

definition start_dma_transfer :: "u32 \<Rightarrow> int \<Rightarrow> ('h, 'c, 'z) audio_scheme \<Rightarrow> ('h, 'c, 'z) audio_scheme option" where
  "start_dma_transfer addr sz s = do {
     s \<leftarrow> write_dsp CMD_START_DMA8 (exec (dma_out (nat (dma_chan s)) addr sz DMA_SINGLE) s);
     s \<leftarrow> write_dsp (xfer_mode s) s;
     s \<leftarrow> write_dsp (word_of_int ((sz - 1) AND 0xff)) s;
     write_dsp (word_of_int (drop_bit 8 (sz - 1) AND 0xff)) s }"

definition sb_pause :: "('h, 'c, 'z) audio_scheme \<Rightarrow> ('h, 'c, 'z) audio_scheme option" where "sb_pause s = write_dsp CMD_PAUSE_DMA8 s"
definition sb_continue :: "('h, 'c, 'z) audio_scheme \<Rightarrow> ('h, 'c, 'z) audio_scheme option" where "sb_continue s = write_dsp CMD_CONT_DMA8 s"

definition sb_stop :: "('h, 'c, 'z) audio_scheme \<Rightarrow> ('h, 'c, 'z) audio_scheme option" where
  "sb_stop s = do { s \<leftarrow> write_dsp CMD_END_DMA8 s; write_dsp CMD_DISABLE_OUTPUT s }"

text \<open>\<open>audio_callback\<close> of \<open>audio.c\<close>: the client fills a buffer and gives the size it filled, 0 for the end.\<close>

type_synonym ('h, 'c, 'z) client = "'c \<Rightarrow> u32 \<Rightarrow> int \<Rightarrow> u32 \<Rightarrow> ('h, 'c, 'z) audio_scheme \<Rightarrow> int \<times> ('h, 'c, 'z) audio_scheme"

definition audio_callback :: "('h, 'c, 'z) client \<Rightarrow> u32 \<Rightarrow> int \<Rightarrow> ('h, 'c, 'z) audio_scheme \<Rightarrow> int \<times> ('h, 'c, 'z) audio_scheme" where
  "audio_callback cb buf sz s = (case cbfunc s of None \<Rightarrow> (0, s) | Some f \<Rightarrow> cb f buf sz (cbcls s) s)"

text \<open>\<open>lmb\<close> is the address of \<open>low_mem_buffer\<close>, \<open>handler\<close> the name of the interrupt handler.\<close>

definition sb_start :: "u32 \<Rightarrow> 'h \<Rightarrow> ('h, 'c, 'z) client \<Rightarrow> int \<Rightarrow> int \<Rightarrow> ('h, 'c, 'z) audio_scheme \<Rightarrow> ('h, 'c, 'z) audio_scheme option" where
  "sb_start lmb handler cb rate nchan s = (
     let addr = (lmb + 0xffff) AND 0xffff0000;
         s = s\<lparr>buffer := addr, xfer_mode := CMD_MODE_SIGNED\<rparr>;
         s = (if 1 < nchan then s\<lparr>xfer_mode := xfer_mode s OR CMD_MODE_STEREO\<rparr> else s);
         (sz, s) = audio_callback cb (buffer s) 65536 s
     in if sz = 0 then Some s
        else do {
          s \<leftarrow> write_dsp CMD_ENABLE_OUTPUT (exec (interrupt (IRQ_TO_INTR (of_nat (irq s))) (Some handler)) s);
          s \<leftarrow> sb_set_output_rate rate s;
          start_dma_transfer addr sz s })"

definition intr_handler :: "('h, 'c, 'z) client \<Rightarrow> ('h, 'c, 'z) audio_scheme \<Rightarrow> ('h, 'c, 'z) audio_scheme option" where
  "intr_handler cb s = (
     let (sz, s) = audio_callback cb (buffer s) 65536 s
     in if sz = 0 then sb_stop s
        else do { s \<leftarrow> start_dma_transfer (buffer s) sz s; Some (exec (inb (base_port s + REG_INTACK)) s) })"

section \<open>What reaches the card\<close>

text \<open>The bytes written to a port, oldest first.\<close>

definition bytes_to :: "u16 \<Rightarrow> io_event list \<Rightarrow> u8 list" where "bytes_to p es = map snd (filter (\<lambda>w. fst w = p) (writes es))"

lemma bytes_to_simps: "bytes_to p (es @ es') = bytes_to p es' @ bytes_to p es" "bytes_to p [] = []"
  by (simp_all add: bytes_to_def writes_append)

text \<open>A card at port \<open>b\<close> that may be busy, but whatever has been done is ready after some number of looks at its status.\<close>

definition busy_at :: "u16 \<Rightarrow> 'z machine_scheme \<Rightarrow> io_event list \<Rightarrow> bool" where
  "busy_at b m es \<longleftrightarrow> dev8 m (es @ io_log m) (b + REG_WSTAT) AND WSTAT_BUSY \<noteq> 0"

definition takes_commands :: "u16 \<Rightarrow> 'z machine_scheme \<Rightarrow> bool" where
  "takes_commands b m \<longleftrightarrow> (\<forall>es. \<exists>k. \<not> busy_at b m (replicate k (In8 (b + REG_WSTAT)) @ es))"

lemma busy_at_logs: "busy_at b (logs es m) fs = busy_at b m (fs @ es)"
  by (simp add: busy_at_def)

lemma takes_commands_logs [simp]: "takes_commands b m \<Longrightarrow> takes_commands b (logs es m)"
  unfolding takes_commands_def busy_at_logs by (metis append.assoc)

text \<open>A log in which a byte is sent to the card only right after a look at a status that is not busy.\<close>

fun obeys_busy :: "u16 \<Rightarrow> 'z machine_scheme \<Rightarrow> io_event list \<Rightarrow> bool" where
  "obeys_busy b m [] = True"
| "obeys_busy b m (e # es) = (obeys_busy b m es \<and> (case e of
     Out8 p v \<Rightarrow> p = b + REG_WDATA \<longrightarrow> es \<noteq> [] \<and> hd es = In8 (b + REG_WSTAT) \<and> \<not> busy_at b m (tl es)
   | _ \<Rightarrow> True))"

lemma obeys_append: "obeys_busy b (logs es m) fs \<Longrightarrow> obeys_busy b m es \<Longrightarrow> obeys_busy b m (fs @ es)"
  by (induction fs) (auto simp: busy_at_logs hd_append split: io_event.splits)

lemma obeys_silent: "bytes_to (b + REG_WDATA) es = [] \<Longrightarrow> obeys_busy b m es"
  by (induction es rule: writes.induct) (auto simp: bytes_to_def split: if_splits)

lemma obeys_looks: "obeys_busy b m (replicate k (In8 p))"
  by (induction k) simp_all

lemma audio_logs [simp]: "base_port (logs es s) = base_port s" "dma_chan (logs es s) = dma_chan s" "dma16_chan (logs es s) = dma16_chan s" "buffer (logs es s) = buffer s"
  "xfer_mode (logs es s) = xfer_mode s" "irq (logs es s) = irq s" "sb16 (logs es s) = sb16 s"
  for s :: "('h, 'c, 'z) audio_scheme"
  by (simp_all add: logs_def)

lemma wait_looks:
  assumes "\<not> busy_at b m (replicate k (In8 (b + REG_WSTAT)))"
  shows "\<exists>j. wait_port (b + REG_WSTAT) (\<lambda>v. v AND WSTAT_BUSY \<noteq> 0) m = Some (logs (replicate (Suc j) (In8 (b + REG_WSTAT))) m)
    \<and> \<not> busy_at b m (replicate j (In8 (b + REG_WSTAT)))"
  using assms
proof (induction k arbitrary: m)
  case 0
  then have "wait_port (b + REG_WSTAT) (\<lambda>v. v AND WSTAT_BUSY \<noteq> 0) m = Some (logs [In8 (b + REG_WSTAT)] m)"
    by (simp add: wait_port.simps [of "b + REG_WSTAT"] busy_at_def)
  then show ?case using 0 by (intro exI [of _ 0]) simp
next
  case (Suc k)
  let ?e = "In8 (b + REG_WSTAT)"
  show ?case
  proof (cases "busy_at b m []")
    case False
    then have "wait_port (b + REG_WSTAT) (\<lambda>v. v AND WSTAT_BUSY \<noteq> 0) m = Some (logs [?e] m)"
      by (simp add: wait_port.simps [of "b + REG_WSTAT"] busy_at_def)
    then show ?thesis using False by (intro exI [of _ 0]) simp
  next
    case True
    have "\<not> busy_at b (logs [?e] m) (replicate k ?e)"
      using Suc.prems unfolding busy_at_logs by (simp add: replicate_append_same)
    then obtain j where j: "wait_port (b + REG_WSTAT) (\<lambda>v. v AND WSTAT_BUSY \<noteq> 0) (logs [?e] m) = Some (logs (replicate (Suc j) ?e) (logs [?e] m))"
      "\<not> busy_at b (logs [?e] m) (replicate j ?e)" using Suc.IH by blast
    have "wait_port (b + REG_WSTAT) (\<lambda>v. v AND WSTAT_BUSY \<noteq> 0) m = wait_port (b + REG_WSTAT) (\<lambda>v. v AND WSTAT_BUSY \<noteq> 0) (logs [?e] m)"
      using True by (simp add: wait_port.simps [of "b + REG_WSTAT" _ m] busy_at_def)
    then show ?thesis using j unfolding busy_at_logs
      by (intro exI [of _ "Suc j"]) (simp add: replicate_append_same)
  qed
qed

lemma reads_looks: "p \<noteq> q \<Longrightarrow> reads p (replicate k (In8 q)) = 0"
  by (induction k) simp_all

lemma writes_looks: "writes (replicate k (In8 q)) = []"
  by (induction k) simp_all

lemma write_dsp_log:
  assumes "takes_commands (base_port s) s"
  shows "\<exists>es. write_dsp v s = Some (logs es s) \<and> bytes_to (base_port s + REG_WDATA) es = [v] \<and> reads (base_port s + REG_INTACK) es = 0
    \<and> obeys_busy (base_port s) s es \<and> writes es = [(base_port s + REG_WDATA, v)]"
proof -
  let ?b = "base_port s" and ?e = "In8 (base_port s + REG_WSTAT)"
  obtain k where "\<not> busy_at ?b s (replicate k ?e @ [])" using assms unfolding takes_commands_def by blast
  then obtain j where j: "wait_port (?b + REG_WSTAT) (\<lambda>v. v AND WSTAT_BUSY \<noteq> 0) s = Some (logs (replicate (Suc j) ?e) s)"
    "\<not> busy_at ?b s (replicate j ?e)" using wait_looks [of ?b s k] by auto
  let ?es = "Out8 (?b + REG_WDATA) v # replicate (Suc j) ?e"
  have "write_dsp v s = Some (logs ?es s)" unfolding write_dsp_def j(1) by (simp del: replicate.simps)
  moreover have "writes ?es = [(?b + REG_WDATA, v)]" by (simp add: writes_looks del: replicate.simps)
  moreover have "reads (?b + REG_INTACK) ?es = 0"
    using reads_looks [of "?b + REG_INTACK" "?b + REG_WSTAT" "Suc j"] by (simp add: sb_regs del: replicate.simps)
  moreover have "obeys_busy ?b s ?es" using j(2) obeys_looks [of ?b s "Suc j" "?b + REG_WSTAT"] by simp
  ultimately show ?thesis by (intro exI [of _ ?es]) (simp add: bytes_to_def del: replicate.simps)
qed

definition card_port :: "u16 \<Rightarrow> bool" where "card_port b \<longleftrightarrow> b \<in> {0x210, 0x220, 0x230, 0x240, 0x250, 0x260}"

definition sb_ok :: "('h, 'c, 'z) audio_scheme \<Rightarrow> bool" where
  "sb_ok s \<longleftrightarrow> card_port (base_port s) \<and> dma_chan s \<in> {0, 1, 3} \<and> irq s \<in> {2, 5, 7, 10}"

text \<open>Bytes for the card do not reach the DMA controllers, and those for a DMA channel not the card.\<close>

lemma dmac_step_card: "card_port b \<Longrightarrow> dmac_step (b + REG_WDATA, v) d = d"
  unfolding card_port_def by (elim insertE emptyE) (simp_all add: dmac_step_def page_chan_def sb_regs)

lemma dma_io_log_card:
  assumes "card_port b" "chan \<in> {0, 1, 3}"
  shows "\<exists>es. exec (dma_out chan a sz flags) m = logs es m \<and> bytes_to (b + REG_WDATA) es = [] \<and> reads (b + REG_INTACK) es = 0"
proof -
  have low: "DMA_MASK chan < 0x100" "DMA_COUNT chan < 0x100" "page_port ! chan < 0x100" "DMA_ADDR chan < 0x100"
      "DMA_MODE chan < 0x100" "DMA_CLR_FLIPFLOP chan < 0x100"
    using assms(2) by (elim insertE emptyE; simp add: dma_ports)+
  have "0x100 \<le> b + REG_WDATA" using assms(1) unfolding card_port_def by (elim insertE emptyE) (simp_all add: sb_regs)
  then have ne: "p < 0x100 \<Longrightarrow> p \<noteq> b + REG_WDATA" for p by (metis not_less)
  show ?thesis
    unfolding dma_out_def
    by (rule exI, rule conjI, rule dma_io_log) (simp add: bytes_to_def low [THEN ne])
qed

text \<open>The commands that start a transfer.\<close>

definition start_bytes :: "u8 \<Rightarrow> int \<Rightarrow> u8 list" where
  "start_bytes mode sz = [CMD_START_DMA8, mode, word_of_int ((sz - 1) AND 0xff), word_of_int (drop_bit 8 (sz - 1) AND 0xff)]"

text \<open>A sequence of commands.\<close>

fun write_all :: "u8 list \<Rightarrow> ('h, 'c, 'z) audio_scheme \<Rightarrow> ('h, 'c, 'z) audio_scheme option" where
  "write_all [] s = Some s"
| "write_all (v # vs) s = Option.bind (write_dsp v s) (write_all vs)"

lemma write_all_fun: "write_all [v] = write_dsp v" "write_all (v # w # vs) = (\<lambda>s. Option.bind (write_dsp v s) (write_all (w # vs)))"
  by (rule ext, case_tac "write_dsp v x") (auto intro: ext)

lemma write_all_log:
  assumes "takes_commands (base_port s) s" "card_port (base_port s)"
  shows "\<exists>es. write_all vs s = Some (logs es s) \<and> bytes_to (base_port s + REG_WDATA) es = vs \<and> reads (base_port s + REG_INTACK) es = 0
    \<and> obeys_busy (base_port s) s es \<and> (\<forall>d. dmac_after (logs es s) d = dmac_after s d)"
  using assms
proof (induction vs arbitrary: s)
  case Nil
  then show ?case by (intro exI [of _ "[]"]) (simp add: bytes_to_simps logs_def)
next
  case (Cons v vs)
  let ?b = "base_port s"
  obtain e1 where e1: "write_dsp v s = Some (logs e1 s)" "bytes_to (?b + REG_WDATA) e1 = [v]" "reads (?b + REG_INTACK) e1 = 0"
    "obeys_busy ?b s e1" "writes e1 = [(?b + REG_WDATA, v)]" using write_dsp_log [OF Cons.prems(1)] by blast
  have "takes_commands (base_port (logs e1 s)) (logs e1 s)" "card_port (base_port (logs e1 s))" using Cons.prems by simp_all
  from Cons.IH [OF this] obtain e2 where e2: "write_all vs (logs e1 s) = Some (logs e2 (logs e1 s))" "bytes_to (?b + REG_WDATA) e2 = vs"
    "reads (?b + REG_INTACK) e2 = 0" "obeys_busy ?b (logs e1 s) e2" "\<forall>d. dmac_after (logs e2 (logs e1 s)) d = dmac_after (logs e1 s) d" by auto
  have "dmac_after (logs e1 s) d = dmac_after s d" for d by (simp add: dmac_after_logs e1(5) dmac_step_card [OF Cons.prems(2)])
  then show ?case using e1 e2 obeys_append [OF e2(4) e1(4)] by (intro exI [of _ "e2 @ e1"]) (simp add: bytes_to_simps)
qed

lemma start_dma_transfer_log:
  assumes "sb_ok s" "takes_commands (base_port s) s"
  shows "\<exists>es. start_dma_transfer a sz s = Some (logs es s) \<and> bytes_to (base_port s + REG_WDATA) es = start_bytes (xfer_mode s) sz
    \<and> reads (base_port s + REG_INTACK) es = 0 \<and> obeys_busy (base_port s) s es
    \<and> dmac_after (logs es s) d = set_up (nat (dma_chan s)) a sz DMA_SINGLE MODE_READ_dma (dmac_after s d)"
proof -
  let ?b = "base_port s" and ?c = "nat (dma_chan s)"
  have b: "card_port ?b" and c: "?c \<in> {0, 1, 3}" "?c < 4" using assms(1) by (auto simp: sb_ok_def)
  obtain es where es: "exec (dma_out ?c a sz DMA_SINGLE) s = logs es s" "bytes_to (?b + REG_WDATA) es = []" "reads (?b + REG_INTACK) es = 0"
    using dma_io_log_card [OF b c(1)] by blast
  have "takes_commands (base_port (logs es s)) (logs es s)" "card_port (base_port (logs es s))" using assms(2) b by simp_all
  from write_all_log [OF this, of "start_bytes (xfer_mode s) sz"] obtain ws where
    ws: "write_all (start_bytes (xfer_mode s) sz) (logs es s) = Some (logs ws (logs es s))" "bytes_to (?b + REG_WDATA) ws = start_bytes (xfer_mode s) sz"
      "reads (?b + REG_INTACK) ws = 0" "obeys_busy ?b (logs es s) ws" "dmac_after (logs ws (logs es s)) d = dmac_after (logs es s) d" by auto
  obtain e1 where m: "write_dsp CMD_START_DMA8 (logs es s) = Some (logs e1 (logs es s))"
    using write_dsp_log [of "logs es s" CMD_START_DMA8] assms(2) by auto
  have "start_dma_transfer a sz s = write_all (start_bytes (xfer_mode s) sz) (logs es s)"
    unfolding start_dma_transfer_def es(1) start_bytes_def
    by (simp add: m write_all_fun del: write_all.simps logs_simps)
  then have "start_dma_transfer a sz s = Some (logs (ws @ es) s)" using ws(1) by simp
  moreover have "dmac_after (logs (ws @ es) s) d = set_up ?c a sz DMA_SINGLE MODE_READ_dma (dmac_after s d)"
    using ws(5) dma_io_low [OF c(2), of MODE_READ_dma a sz DMA_SINGLE s d] es(1) by (simp add: dma_out_def MODE_READ_dma_def)
  moreover have "obeys_busy ?b s (ws @ es)" by (rule obeys_append [OF ws(4) obeys_silent [OF es(2)]])
  ultimately show ?thesis using ws(2,3) es(2,3) by (intro exI [of _ "ws @ es"]) (simp add: bytes_to_simps)
qed

text \<open>C18: when the client has more data, the interrupt handler waits for a card that is busy, however long that lasts, sets the DMA channel up for the
  data, sends the card their size, each byte only when the card is not busy, and acknowledges the interrupt, once.\<close>

theorem sb_handler_continues:
  assumes "audio_callback cb (buffer s) 65536 s = (sz, s')" "sz \<noteq> 0" "sb_ok s'" "takes_commands (base_port s') s'"
  shows "\<exists>es. intr_handler cb s = Some (logs es s') \<and> bytes_to (base_port s' + REG_WDATA) es = start_bytes (xfer_mode s') sz
    \<and> reads (base_port s' + REG_INTACK) es = 1 \<and> obeys_busy (base_port s') s' es
    \<and> dmac_after (logs es s') d = set_up (nat (dma_chan s')) (buffer s') sz DMA_SINGLE MODE_READ_dma (dmac_after s' d)"
proof -
  obtain es where es: "start_dma_transfer (buffer s') sz s' = Some (logs es s')" "bytes_to (base_port s' + REG_WDATA) es = start_bytes (xfer_mode s') sz"
    "reads (base_port s' + REG_INTACK) es = 0" "obeys_busy (base_port s') s' es"
    "dmac_after (logs es s') d = set_up (nat (dma_chan s')) (buffer s') sz DMA_SINGLE MODE_READ_dma (dmac_after s' d)"
    using start_dma_transfer_log [OF assms(3,4)] by blast
  let ?es = "In8 (base_port s' + REG_INTACK) # es"
  have "intr_handler cb s = Some (logs ?es s')" using assms(1,2) es(1) by (simp add: intr_handler_def)
  moreover have "bytes_to (base_port s' + REG_WDATA) ?es = start_bytes (xfer_mode s') sz" using es(2) by (simp add: bytes_to_def)
  moreover have "dmac_after (logs ?es s') d = dmac_after (logs es s') d" by (simp add: dmac_after_logs)
  ultimately show ?thesis using es(3-5) by (intro exI [of _ ?es]) simp
qed

text \<open>When it has none, the handler tells the card to end and to disable the output, and returns without
  acknowledging the interrupt.\<close>

theorem sb_handler_ends:
  assumes "audio_callback cb (buffer s) 65536 s = (0, s')" "takes_commands (base_port s') s'" "card_port (base_port s')"
  shows "\<exists>es. intr_handler cb s = Some (logs es s') \<and> bytes_to (base_port s' + REG_WDATA) es = [CMD_END_DMA8, CMD_DISABLE_OUTPUT]
    \<and> reads (base_port s' + REG_INTACK) es = 0"
proof -
  obtain es where es: "write_all [CMD_END_DMA8, CMD_DISABLE_OUTPUT] s' = Some (logs es s')"
    "bytes_to (base_port s' + REG_WDATA) es = [CMD_END_DMA8, CMD_DISABLE_OUTPUT]" "reads (base_port s' + REG_INTACK) es = 0"
    using write_all_log [OF assms(2,3)] by blast
  have "intr_handler cb s = write_all [CMD_END_DMA8, CMD_DISABLE_OUTPUT] s'" using assms(1)
    by (simp add: intr_handler_def sb_stop_def write_all_fun del: write_all.simps)
  then show ?thesis using es by auto
qed

text \<open>A card to run the driver on, and clients that fill a part of the buffer.\<close>

definition demo_card :: "(io_event list \<Rightarrow> u16 \<Rightarrow> u8) \<Rightarrow> (unit, unit) audio" where
  "demo_card f = \<lparr>io_log = [], dev8 = f, dev16 = (\<lambda>_ _. 0), dev32 = (\<lambda>_ _. 0), intr_on = False, idt = [], intr_func = replicate 256 None,
     cur_intr_frame = None, eoi_pending = 0, base_port = 0x220, irq = 5, dma_chan = 1, dma16_chan = 5, sb16 = True, buffer = 0x20000,
     xfer_mode = 0x10, drv = None, cbfunc = Some (), cbcls = 0\<rparr>"

definition fills :: "int \<Rightarrow> (unit, unit, unit) client" where "fills n = (\<lambda>_ _ _ _ s. (n, s))"

text \<open>One that is always ready, and one that is busy until its status has been read twice in a row.\<close>

abbreviation ready_card :: "(unit, unit) audio" where "ready_card \<equiv> demo_card (\<lambda>_ _. 0)"

abbreviation slow_card :: "(unit, unit) audio" where
  "slow_card \<equiv> demo_card (\<lambda>es p. if p = 0x22c \<and> take 2 es \<noteq> [In8 0x22c, In8 0x22c] then 0x80 else 0)"

lemma never_busy: "(\<And>es. \<not> busy_at b m es) \<Longrightarrow> takes_commands b m"
  by (simp add: takes_commands_def)

lemma demo_card_ok: "sb_ok (demo_card f)" "base_port (demo_card f) = 0x220" "card_port (base_port (demo_card f))" "takes_commands 0x220 ready_card"
  by (simp_all add: sb_ok_def card_port_def demo_card_def never_busy busy_at_def)

lemma slow_card_ok: "takes_commands 0x220 slow_card" "busy_at 0x220 slow_card []"
proof -
  have "\<not> busy_at 0x220 slow_card (replicate 2 (In8 (0x220 + REG_WSTAT)) @ es)" for es
    by (simp add: busy_at_def demo_card_def REG_WSTAT_def WSTAT_BUSY_def numeral_2_eq_2)
  then show "takes_commands 0x220 slow_card" unfolding takes_commands_def by blast
  show "busy_at 0x220 slow_card []" by (simp add: busy_at_def demo_card_def REG_WSTAT_def WSTAT_BUSY_def)
qed

lemma sb_handler_continues_witness:
  "busy_at 0x220 slow_card [] \<and> (\<exists>es. intr_handler (fills 4096) slow_card = Some (logs es slow_card)
    \<and> bytes_to (base_port slow_card + REG_WDATA) es = start_bytes (xfer_mode slow_card) 4096
    \<and> reads (base_port slow_card + REG_INTACK) es = 1 \<and> obeys_busy (base_port slow_card) slow_card es
    \<and> dmac_after (logs es slow_card) idle_dmac = set_up (nat (dma_chan slow_card)) (buffer slow_card) 4096 DMA_SINGLE MODE_READ_dma (dmac_after slow_card idle_dmac))"
proof -
  have "audio_callback (fills 4096) (buffer slow_card) 65536 slow_card = (4096, slow_card)"
    by (simp add: audio_callback_def demo_card_def fills_def)
  then show ?thesis
    using sb_handler_continues [of "fills 4096" slow_card 4096 slow_card idle_dmac] slow_card_ok demo_card_ok by simp
qed

lemma sb_handler_ends_witness:
  "\<exists>es. intr_handler (fills 0) ready_card = Some (logs es ready_card) \<and> bytes_to (base_port ready_card + REG_WDATA) es = [CMD_END_DMA8, CMD_DISABLE_OUTPUT]
    \<and> reads (base_port ready_card + REG_INTACK) es = 0"
proof -
  have "audio_callback (fills 0) (buffer ready_card) 65536 ready_card = (0, ready_card)"
    by (simp add: audio_callback_def demo_card_def fills_def)
  then show ?thesis using sb_handler_ends [of "fills 0" ready_card ready_card] demo_card_ok by simp
qed

section \<open>The buffer\<close>

lemma align_64k:
  fixes lmb :: u32
  assumes "lmb \<le> 0xffff0000"
  shows "lmb \<le> (lmb + 0xffff) AND 0xffff0000" "unat ((lmb + 0xffff) AND 0xffff0000) mod 65536 = 0" "ucast ((lmb + 0xffff) AND 0xffff0000) = (0 :: u16)"
proof -
  let ?a = "(lmb + 0xffff) AND (0xffff0000 :: u32)"
  have high: "(0xffff0000 :: u32) = push_bit 16 (mask 16)" by (simp add: mask_eq_exp_minus_1 push_bit_eq_mult)
  have eq: "x AND push_bit 16 (mask 16) = push_bit 16 (drop_bit 16 x)" for x :: u32
    by (rule bit_word_eqI) (auto simp: bit_and_iff bit_push_bit_iff bit_mask_iff bit_drop_bit_eq)
  have "unat lmb \<le> 0xffff0000" using assms unfolding word_le_nat_alt by simp
  then have sum: "unat (lmb + 0xffff) = unat lmb + 0xffff" by (simp add: unat_word_ariths)
  have d: "unat (drop_bit 16 (lmb + 0xffff)) = (unat lmb + 0xffff) div 65536" unfolding unat_drop_bit_eq sum by (simp add: drop_bit_eq_div)
  have "(unat lmb + 0xffff) div 65536 * 65536 < 2 ^ 32" using \<open>unat lmb \<le> 0xffff0000\<close> by simp
  then have a: "unat ?a = (unat lmb + 0xffff) div 65536 * 65536"
    unfolding high eq using d by (simp add: push_bit_eq_mult unat_word_ariths)
  show "lmb \<le> ?a" unfolding word_le_nat_alt a by simp
  show m: "unat ?a mod 65536 = 0" unfolding a by simp
  show "ucast ?a = (0 :: u16)" unfolding word_unat_eq_iff unsigned_ucast_eq using m by (simp add: take_bit_eq_mod)
qed

lemma interrupt_audio [simp]: "base_port (s\<lparr>intr_func := t\<rparr>) = base_port s" "dma_chan (s\<lparr>intr_func := t\<rparr>) = dma_chan s"
  "irq (s\<lparr>intr_func := t\<rparr>) = irq s" "sb16 (s\<lparr>intr_func := t\<rparr>) = sb16 s" "takes_commands b (s\<lparr>intr_func := t\<rparr>) = takes_commands b s"
  for s :: "('h, 'c, 'z) audio_scheme"
  by (simp_all add: takes_commands_def busy_at_def)

lemma set_rate_log:
  assumes "takes_commands (base_port s) s" "rate \<noteq> 0"
  shows "\<exists>es. sb_set_output_rate rate s = Some (logs es s)"
proof -
  have w: "\<exists>es. write_dsp v (logs fs s) = Some (logs es s)" for v fs
    using write_dsp_log [of "logs fs s" v] assms(1) by auto
  have s: "s = logs [] s" by (simp add: logs_def)
  have "\<exists>es. sb_set_output_rate rate (logs fs s) = Some (logs es s)" for fs
  proof (cases "sb16 s")
    case True
    obtain e1 e2 where "write_dsp CMD_SB16_OUT_RATE (logs fs s) = Some (logs e1 s)"
      "write_dsp (word_of_int (drop_bit 8 rate)) (logs e1 s) = Some (logs e2 s)" using w by metis
    then show ?thesis using True w by (simp add: sb_set_output_rate_def)
  next
    case False
    obtain e1 where "write_dsp CMD_RATE (logs fs s) = Some (logs e1 s)" using w by metis
    then show ?thesis using False assms(2) w by (simp add: sb_set_output_rate_def)
  qed
  from this [of "[]"] show ?thesis using s by simp
qed

lemma intr_func_logs [simp]: "intr_func (logs es s) = intr_func s" for s :: "('h, 'z) intr_scheme"
  by (simp add: logs_def)

lemma u16_int:
  assumes "0 \<le> k" "k < 65536"
  shows "int (unat (word_of_int k :: u16)) = k"
  using assms by (simp add: unsigned_of_int take_bit_int_eq_self)

text \<open>The first transfer starts at the beginning of a 64k page at or after \<open>low_mem_buffer\<close> and has the
  size the client gave, so it stays within its page; the handler is installed for the next.\<close>

theorem sb_start_in_page:
  assumes "lmb \<le> 0xffff0000" "rate \<noteq> 0"
    and "audio_callback cb ((lmb + 0xffff) AND 0xffff0000) 65536
      (s\<lparr>buffer := (lmb + 0xffff) AND 0xffff0000, xfer_mode := CMD_MODE_SIGNED OR (if 1 < nchan then CMD_MODE_STEREO else 0)\<rparr>) = (sz, s')"
    and "0 < sz" "sz \<le> 65536" "sb_ok s'" "takes_commands (base_port s') s'" "length (intr_func s') = 256"
  shows "\<exists>t. sb_start lmb handler cb rate nchan s = Some t \<and> intr_func t ! (32 + irq s') = Some handler
    \<and> c_addr (chans (dmac_after t d) (nat (dma_chan s'))) = 0
    \<and> c_page (chans (dmac_after t d) (nat (dma_chan s'))) = ucast (drop_bit 16 ((lmb + 0xffff) AND 0xffff0000))
    \<and> int (unat (c_count (chans (dmac_after t d) (nat (dma_chan s'))))) + 1 = sz"
proof -
  let ?a = "(lmb + 0xffff) AND (0xffff0000 :: u32)" and ?b = "base_port s'"
  let ?s1 = "s'\<lparr>intr_func := (intr_func s')[unat (IRQ_TO_INTR (of_nat (irq s'))) := Some handler]\<rparr>"
  have "takes_commands (base_port ?s1) ?s1" using assms(7) by simp
  then obtain e0 where e0: "write_dsp CMD_ENABLE_OUTPUT ?s1 = Some (logs e0 ?s1)" using write_dsp_log by blast
  let ?s2 = "logs e0 ?s1"
  have "takes_commands (base_port ?s2) ?s2" using assms(7) by simp
  then obtain e1 where e1: "sb_set_output_rate rate ?s2 = Some (logs e1 ?s2)" using set_rate_log [OF _ assms(2)] by blast
  let ?s3 = "logs e1 ?s2"
  have "sb_ok ?s3" "takes_commands (base_port ?s3) ?s3" using assms(6,7) by (simp_all add: sb_ok_def)
  then obtain e2 where e2: "start_dma_transfer ?a sz ?s3 = Some (logs e2 ?s3)"
    "dmac_after (logs e2 ?s3) d = set_up (nat (dma_chan ?s3)) ?a sz DMA_SINGLE MODE_READ_dma (dmac_after ?s3 d)"
    using start_dma_transfer_log by blast
  have mode: "(if 1 < nchan then x\<lparr>xfer_mode := xfer_mode x OR CMD_MODE_STEREO\<rparr> else x)
      = s\<lparr>buffer := ?a, xfer_mode := CMD_MODE_SIGNED OR (if 1 < nchan then CMD_MODE_STEREO else 0)\<rparr>"
    if "x = s\<lparr>buffer := ?a, xfer_mode := CMD_MODE_SIGNED\<rparr>" for x using that by simp
  have "sb_start lmb handler cb rate nchan s = Some (logs e2 ?s3)"
    using assms(3,4) e0 e1 e2(1) unfolding sb_start_def Let_def mode [OF refl] by (simp add: interrupt_exec del: logs_simps)
  moreover have "intr_func (logs e2 ?s3) ! (32 + irq s') = Some handler"
  proof -
    have "unat (IRQ_TO_INTR (of_nat (irq s'))) = 32 + irq s'" using assms(6) unfolding sb_ok_def by (auto simp: irq_numbers)
    moreover have "32 + irq s' < 256" using assms(6) unfolding sb_ok_def by auto
    ultimately show ?thesis using assms(8) by simp
  qed
  moreover have "int (unat (word_of_int (sz - 1) :: u16)) + 1 = sz" using u16_int [of "sz - 1"] assms(4,5) by linarith
  ultimately show ?thesis using e2(2) align_64k(3) [OF assms(1)]
    by (intro exI [of _ "logs e2 ?s3"]) (simp add: set_up_def del: logs_simps)
qed

lemma sb_start_in_page_witness:
  "\<exists>t. sb_start 0x12345 () (fills 4096) 44100 1 ready_card = Some t \<and> intr_func t ! (32 + 5) = Some ()
    \<and> c_addr (chans (dmac_after t idle_dmac) 1) = 0 \<and> c_page (chans (dmac_after t idle_dmac) 1) = 2
    \<and> int (unat (c_count (chans (dmac_after t idle_dmac) 1))) + 1 = 4096"
proof -
  have "sb_ok (ready_card\<lparr>buffer := b, xfer_mode := x\<rparr>)" "takes_commands 0x220 (ready_card\<lparr>buffer := b, xfer_mode := x\<rparr>)" for b x
    by (simp_all add: sb_ok_def card_port_def never_busy busy_at_def demo_card_def)
  then show ?thesis
    using sb_start_in_page [where lmb = "0x12345" and rate = 44100 and cb = "fills 4096" and s = ready_card and nchan = 1 and sz = 4096
        and s' = "ready_card\<lparr>buffer := 0x20000, xfer_mode := CMD_MODE_SIGNED\<rparr>" and handler = "()" and d = idle_dmac]
    by (simp add: audio_callback_def demo_card_def fills_def)
qed

section \<open>The configuration of the card\<close>

lemma mix_exec: "exec (write_mix v r) s = logs [Out8 (base_port s + REG_MIXDATA) v, Out8 (base_port s + REG_MIXPORT) r] s"
  "exec (read_mix r) s = logs [In8 (base_port s + REG_MIXDATA), Out8 (base_port s + REG_MIXPORT) r] s"
  "result_of (read_mix r) s = dev8 s (Out8 (base_port s + REG_MIXPORT) r # io_log s) (base_port s + REG_MIXDATA)"
  by (simp_all add: write_mix_def read_mix_def run_simps)

lemma first_set_mem: "first_set sel js = Some i \<Longrightarrow> i \<in> set js \<and> sel AND push_bit i 1 \<noteq> 0"
  unfolding first_set_def by (auto simp: find_Some_iff)

lemma first_set_less4:
  assumes "first_set sel [0..<4] = Some i"
  shows "i = 0 \<or> i = 1 \<or> i = 2 \<or> i = 3"
  using first_set_mem [OF assms] by auto

lemma detect_irq_ok:
  assumes "result_of sb16_detect_irq s \<noteq> -1"
  shows "irq (exec sb16_detect_irq s) \<in> {2, 5, 7, 10}" "base_port (exec sb16_detect_irq s) = base_port s"
proof -
  let ?sel = "dev8 s (Out8 (base_port s + REG_MIXPORT) MIX_IRQ_SEL # io_log s) (base_port s + REG_MIXDATA)"
  have tab: "irqtab ! i \<in> {2, 5, 7, 10} \<and> irqtab ! i \<noteq> 0" if "first_set ?sel [0..<4] = Some i" for i
    using first_set_less4 [OF that] by (auto simp: irqtab_def)
  show "irq (exec sb16_detect_irq s) \<in> {2, 5, 7, 10}"
    using assms tab by (cases "first_set ?sel [0..<4]") (auto simp: sb16_detect_irq_def run_simps mix_exec split: if_splits)
  show "base_port (exec sb16_detect_irq s) = base_port s"
    by (cases "first_set ?sel [0..<4]") (auto simp: sb16_detect_irq_def run_simps mix_exec split: if_splits)
qed

lemma detect_dma_ok:
  assumes "result_of sb16_detect_dma s \<noteq> -1"
  shows "dma_chan (exec sb16_detect_dma s) \<in> {0, 1, 3}" "base_port (exec sb16_detect_dma s) = base_port s"
    "irq (exec sb16_detect_dma s) = irq s"
proof -
  let ?sel = "dev8 s (Out8 (base_port s + REG_MIXPORT) MIX_DMA_SEL # io_log s) (base_port s + REG_MIXDATA)"
  have tab: "dmatab ! i \<in> {0, 1, 3} \<or> dmatab ! i = -1" if "first_set ?sel [0..<4] = Some i" for i
    using first_set_less4 [OF that] by (auto simp: dmatab_def)
  show "dma_chan (exec sb16_detect_dma s) \<in> {0, 1, 3}"
    using assms tab by (cases "first_set ?sel [0..<4]"; cases "first_set ?sel [5..<8]")
      (auto simp: sb16_detect_dma_def run_simps mix_exec Let_def split: if_splits)
  show "base_port (exec sb16_detect_dma s) = base_port s" "irq (exec sb16_detect_dma s) = irq s"
    by (cases "first_set ?sel [0..<4]"; cases "first_set ?sel [5..<8]";
      simp add: sb16_detect_dma_def run_simps mix_exec Let_def split: if_splits)+
qed

lemma configure_ok:
  assumes "result_of (configure ver) s" "card_port (base_port s)"
  shows "sb_ok (exec (configure ver) s)"
proof (cases "4 \<le> VER_MAJOR ver")
  case True
  let ?s = "exec sb16_detect_irq (s\<lparr>sb16 := True\<rparr>)"
  have r: "result_of sb16_detect_irq (s\<lparr>sb16 := True\<rparr>) \<noteq> -1" "result_of sb16_detect_dma ?s \<noteq> -1"
    using assms(1) True by (auto simp: configure_def run_simps split: if_splits)
  have "exec (configure ver) s = exec sb16_detect_dma ?s" using True r by (simp add: configure_def run_simps)
  then show ?thesis using detect_irq_ok [OF r(1)] detect_dma_ok [OF r(2)] assms(2) by (simp add: sb_ok_def)
next
  case False
  then show ?thesis using assms(2) by (simp add: configure_def run_simps sb_ok_def)
qed

lemma wait_port_logs:
  assumes "wait_port p B m = Some m'"
  shows "\<exists>es. m' = logs es m"
  by (rule wait_port.raw_induct [where P = "\<lambda>p B m m'. \<exists>es. m' = logs es m", OF _ assms])
    (metis exec_in(1) logs_simps(2) option.sel)

lemma get_version_base:
  assumes "get_dsp_version s = Some (v, s')"
  shows "base_port s' = base_port s"
proof -
  have w: "base_port s' = base_port s" if "write_dsp c s = Some s'" for c and s s' :: "('a, 'b, 'c) audio_scheme"
    using that wait_port_logs by (fastforce simp: write_dsp_def)
  have r: "base_port s' = base_port s" if h: "read_dsp s = Some (c, s')" for c and s s' :: "('a, 'b, 'c) audio_scheme"
  proof -
    obtain t where "wait_port (base_port s + REG_RSTAT) (\<lambda>v. v AND RSTAT_RDY = 0) s = Some t" "s' = exec (inb (base_port s + REG_RDATA)) t"
      using h by (cases "wait_port (base_port s + REG_RSTAT) (\<lambda>v. v AND RSTAT_RDY = 0) s") (simp_all add: read_dsp_def exec_def)
    then show ?thesis using wait_port_logs by fastforce
  qed
  show ?thesis using assms w r by (auto simp: get_dsp_version_def bind_eq_Some_conv)
qed

lemma only_logs_reset: "only_logs (await_reset n b)"
  by (induction n) (auto intro!: only_logs_bind)

lemma reset_base [simp]: "base_port (exec sb_reset_dsp s) = base_port s"
proof -
  have "only_logs sb_reset_dsp" unfolding sb_reset_dsp_def by (intro only_logs_bind only_logs_base only_logs_reset)
  then show ?thesis by (rule only_logsE [where m = s]) simp
qed

lemma probe_ok:
  assumes "probe js s = Some (True, s')" "\<forall>i \<in> set js. i < 6"
  shows "sb_ok s'"
  using assms
proof (induction js arbitrary: s)
  case (Cons i js)
  let ?s = "s\<lparr>base_port := 0x200 + push_bit 4 (of_nat (i + 1))\<rparr>"
  have "i = 0 \<or> i = 1 \<or> i = 2 \<or> i = 3 \<or> i = 4 \<or> i = 5" using Cons.prems(2) by simp linarith
  then have port: "card_port (base_port ?s)" by (elim disjE) (simp_all add: card_port_def)
  show ?case
  proof (cases "result_of sb_reset_dsp ?s")
    case True
    then obtain v t where t: "get_dsp_version (exec sb_reset_dsp ?s) = Some (v, t)" "run_state (configure v) t = (True, s')"
      using Cons.prems(1) by (auto simp: Let_def bind_eq_Some_conv)
    have "base_port t = base_port ?s" using get_version_base [OF t(1)] by simp
    then show ?thesis using configure_ok [of v t] t(2) port by (simp add: result_of_def exec_def)
  next
    case False
    then show ?thesis using Cons.IH [of "exec sb_reset_dsp ?s"] Cons.prems by (simp add: Let_def)
  qed
qed simp

text \<open>When a card is found, its port, channel and interrupt are among those a card can have.\<close>

theorem sb_detect_ok: "sb_detect s = Some (True, s') \<Longrightarrow> sb_ok s'"
  unfolding sb_detect_def by (erule probe_ok) (metis atLeastLessThan_iff set_upt)

text \<open>When the card has channel 3 selected and no 16-bit channel, the driver selects channel 5 as well and
  then takes channel 1 for channel 3: it sets up a channel that the card has not selected.\<close>

theorem sb_channel_not_selected:
  assumes "sel = dev8 s (Out8 (base_port s + REG_MIXPORT) MIX_DMA_SEL # io_log s) (base_port s + REG_MIXDATA)"
    and "\<And>v l. dev8 s (Out8 (base_port s + REG_MIXPORT) MIX_DMA_SEL # Out8 (base_port s + REG_MIXDATA) v # l) (base_port s + REG_MIXDATA) = v"
    and "first_set sel [0..<4] = Some 3" "first_set sel [5..<8] = None"
  shows "dma_chan (exec sb16_detect_dma s) = 1 \<and> (sel OR 0x20) AND push_bit 1 1 = 0"
proof
  show "dma_chan (exec sb16_detect_dma s) = 1"
    using assms by (simp add: sb16_detect_dma_def run_simps mix_exec Let_def dmatab_def split: if_splits)
  have "sel AND push_bit 1 1 = 0" using assms(3) by (simp add: first_set_def upt_rec split: if_splits)
  then show "(sel OR 0x20) AND push_bit 1 1 = 0" by (simp add: bit.conj_disj_distrib2)
qed

definition old_card :: "io_event list \<Rightarrow> u16 \<Rightarrow> u8" where
  "old_card l p = (if p = 0x22a then if Out8 0x22c CMD_GET_VER \<in> set l then 2 else 0xaa else if p = 0x22e then 0x80 else 0)"

lemma sb_detect_ok_witness: "\<exists>s'. sb_detect (demo_card old_card) = Some (True, s') \<and> sb_ok s'"
proof -
  have "map_option fst (sb_detect (demo_card old_card)) = Some True" by code_simp
  then obtain s' where "sb_detect (demo_card old_card) = Some (True, s')" by auto
  then show ?thesis using sb_detect_ok by blast
qed

definition odd_mixer :: "io_event list \<Rightarrow> u16 \<Rightarrow> u8" where
  "odd_mixer l p = (case l of Out8 _ _ # Out8 q v # _ \<Rightarrow> if q = 0x225 then v else 8 | _ \<Rightarrow> 8)"

lemma sb_channel_not_selected_witness: "dma_chan (exec sb16_detect_dma (demo_card odd_mixer)) = 1 \<and> (8 OR 0x20) AND push_bit 1 1 = (0 :: u8)"
proof (rule sb_channel_not_selected)
  show "8 = dev8 (demo_card odd_mixer) (Out8 (base_port (demo_card odd_mixer) + REG_MIXPORT) MIX_DMA_SEL # io_log (demo_card odd_mixer))
      (base_port (demo_card odd_mixer) + REG_MIXDATA)" by (simp add: demo_card_def odd_mixer_def)
  show "dev8 (demo_card odd_mixer) (Out8 (base_port (demo_card odd_mixer) + REG_MIXPORT) MIX_DMA_SEL #
      Out8 (base_port (demo_card odd_mixer) + REG_MIXDATA) v # l) (base_port (demo_card odd_mixer) + REG_MIXDATA) = v" for v l
    by (simp add: demo_card_def odd_mixer_def sb_regs)
  show "first_set (8 :: u8) [0..<4] = Some 3" "first_set (8 :: u8) [5..<8] = None" by (simp_all add: first_set_def upt_rec)
qed

end
