(* ===== verification/Audio.thy ===== *)
theory Audio
  imports Au_sb
begin

text \<open>
  The audio interface (\<open>src/audio.c\<close>): the driver that \<open>audio_init\<close> chooses, the client's function, and the
  calls that go to the driver. A call through a pointer that is still null is \<open>None\<close>, as is one that
  does not return.
\<close>

definition audio_init :: "('h, 'c, 'z) audio_scheme \<Rightarrow> ('h, 'c, 'z) audio_scheme option" where
  "audio_init s = do {
     (found, s) \<leftarrow> sb_detect s;
     Some (if found then s\<lparr>drv := Some sb_driver\<rparr> else s) }"

definition audio_set_callback :: "'c option \<Rightarrow> u32 \<Rightarrow> ('h, 'c, 'z) audio_scheme \<Rightarrow> ('h, 'c, 'z) audio_scheme" where
  "audio_set_callback func cls s = s\<lparr>cbfunc := func, cbcls := cls\<rparr>"

definition audio_play :: "u32 \<Rightarrow> 'h \<Rightarrow> ('h, 'c, 'z) client \<Rightarrow> int \<Rightarrow> int \<Rightarrow> ('h, 'c, 'z) audio_scheme \<Rightarrow> ('h, 'c, 'z) audio_scheme option" where
  "audio_play lmb handler cb rate nchan s = (case drv s of None \<Rightarrow> None | Some sb_driver \<Rightarrow> sb_start lmb handler cb rate nchan s)"

definition audio_pause :: "('h, 'c, 'z) audio_scheme \<Rightarrow> ('h, 'c, 'z) audio_scheme option" where
  "audio_pause s = (case drv s of None \<Rightarrow> None | Some sb_driver \<Rightarrow> sb_pause s)"

definition audio_resume :: "('h, 'c, 'z) audio_scheme \<Rightarrow> ('h, 'c, 'z) audio_scheme option" where
  "audio_resume s = (case drv s of None \<Rightarrow> None | Some sb_driver \<Rightarrow> sb_continue s)"

definition audio_stop :: "('h, 'c, 'z) audio_scheme \<Rightarrow> ('h, 'c, 'z) audio_scheme option" where
  "audio_stop s = (case drv s of None \<Rightarrow> None | Some sb_driver \<Rightarrow> sb_stop s)"

definition sb_volume :: "int \<Rightarrow> ('h, 'c, 'z) audio_scheme \<Rightarrow> ('h, 'c, 'z) audio_scheme" where "sb_volume vol s = s"

definition audio_volume :: "int \<Rightarrow> ('h, 'c, 'z) audio_scheme \<Rightarrow> ('h, 'c, 'z) audio_scheme option" where
  "audio_volume vol s = (case drv s of None \<Rightarrow> None | Some sb_driver \<Rightarrow> Some (sb_volume vol s))"

section \<open>The driver that is installed\<close>

text \<open>A driver is installed only with a card it can use.\<close>

definition audio_ok :: "('h, 'c, 'z) audio_scheme \<Rightarrow> bool" where "audio_ok s \<longleftrightarrow> (drv s \<noteq> None \<longrightarrow> sb_ok s)"

lemma write_dsp_logs:
  assumes "write_dsp v s = Some s'"
  shows "\<exists>es. s' = logs es s"
proof (cases "wait_port (base_port s + REG_WSTAT) (\<lambda>v. v AND WSTAT_BUSY \<noteq> 0) s")
  case None
  then show ?thesis using assms by (simp add: write_dsp_def)
next
  case (Some t)
  then obtain es where "t = logs es s" using wait_port_logs by blast
  then have "s' = logs (Out8 (base_port s + REG_WDATA) v # es) s" using assms Some by (simp add: write_dsp_def)
  then show ?thesis by blast
qed

lemma audio_ok_logs [simp]: "audio_ok (logs es s) = audio_ok s" for s :: "('h, 'c, 'z) audio_scheme"
  by (simp add: audio_ok_def sb_ok_def logs_def)

lemma write_dsp_ok: "write_dsp v s = Some s' \<Longrightarrow> audio_ok s \<Longrightarrow> audio_ok s'"
  by (drule write_dsp_logs) (elim exE, simp)

lemma sb_stop_ok: "sb_stop s = Some s' \<Longrightarrow> audio_ok s \<Longrightarrow> audio_ok s'"
  unfolding sb_stop_def bind_eq_Some_conv by (elim exE conjE) (blast intro: write_dsp_ok)

lemma commands_keep_ok [inv_intros]:
  assumes "audio_ok s"
  shows "audio_pause s = Some s' \<Longrightarrow> audio_ok s'" "audio_resume s = Some s' \<Longrightarrow> audio_ok s'" "audio_stop s = Some s' \<Longrightarrow> audio_ok s'"
proof -
  have "audio_pause s = Some s' \<Longrightarrow> write_dsp CMD_PAUSE_DMA8 s = Some s'"
    by (simp add: audio_pause_def sb_pause_def split: option.splits audrv.splits)
  then show "audio_pause s = Some s' \<Longrightarrow> audio_ok s'" using write_dsp_ok [OF _ assms] by blast
  have "audio_resume s = Some s' \<Longrightarrow> write_dsp CMD_CONT_DMA8 s = Some s'"
    by (simp add: audio_resume_def sb_continue_def split: option.splits audrv.splits)
  then show "audio_resume s = Some s' \<Longrightarrow> audio_ok s'" using write_dsp_ok [OF _ assms] by blast
  have "audio_stop s = Some s' \<Longrightarrow> sb_stop s = Some s'" by (simp add: audio_stop_def split: option.splits audrv.splits)
  then show "audio_stop s = Some s' \<Longrightarrow> audio_ok s'" using sb_stop_ok [OF _ assms] by blast
qed

lemma audio_init_found:
  assumes "sb_detect s = Some (True, t)"
  shows "audio_init s = Some (t\<lparr>drv := Some sb_driver\<rparr>)" "audio_ok (t\<lparr>drv := Some sb_driver\<rparr>)"
proof -
  have "sb_ok t" using probe_ok [of "[0..<6]" s t] assms unfolding sb_detect_def by (metis atLeastLessThan_iff set_upt)
  then show "audio_ok (t\<lparr>drv := Some sb_driver\<rparr>)" by (simp add: audio_ok_def sb_ok_def)
  show "audio_init s = Some (t\<lparr>drv := Some sb_driver\<rparr>)" using assms by (simp add: audio_init_def)
qed

end
