(* ===== verification/Vbe.thy ===== *)
theory Vbe
  imports Bootdev
begin

text \<open>
  The VESA BIOS extensions (\<open>src/vbe.c\<close>): queries that the BIOS answers in \<open>low_mem_buffer\<close>, whose address
  is \<open>lmb\<close>, the mode switch, and the description of the monitor. The machine is that of the boot drive:
  memory, and a BIOS with a state of its own. The functions that print a description are left out.
\<close>

section \<open>Structures\<close>

text \<open>The fields of \<open>struct vbe_info\<close>, \<open>struct vbe_mode_info\<close> and \<open>struct vbe_edid\<close> at an address, all packed.\<close>

definition vi_version :: "ram \<Rightarrow> u32 \<Rightarrow> u16" where "vi_version m a = load16 m (a + 4)"
definition vi_vid_mode_ptr :: "ram \<Rightarrow> u32 \<Rightarrow> u32" where "vi_vid_mode_ptr m a = load32 m (a + 14)"
definition vi_total_mem :: "ram \<Rightarrow> u32 \<Rightarrow> u16" where "vi_total_mem m a = load16 m (a + 18)"
definition vi_oem_vendor_name_ptr :: "ram \<Rightarrow> u32 \<Rightarrow> u32" where "vi_oem_vendor_name_ptr m a = load32 m (a + 22)"

definition mi_xres :: "ram \<Rightarrow> u32 \<Rightarrow> u16" where "mi_xres m a = load16 m (a + 18)"
definition mi_yres :: "ram \<Rightarrow> u32 \<Rightarrow> u16" where "mi_yres m a = load16 m (a + 20)"
definition mi_bpp :: "ram \<Rightarrow> u32 \<Rightarrow> u8" where "mi_bpp m a = m (a + 25)"
definition mi_rmask_size :: "ram \<Rightarrow> u32 \<Rightarrow> u8" where "mi_rmask_size m a = m (a + 31)"
definition mi_rpos :: "ram \<Rightarrow> u32 \<Rightarrow> u8" where "mi_rpos m a = m (a + 32)"
definition mi_gmask_size :: "ram \<Rightarrow> u32 \<Rightarrow> u8" where "mi_gmask_size m a = m (a + 33)"
definition mi_gpos :: "ram \<Rightarrow> u32 \<Rightarrow> u8" where "mi_gpos m a = m (a + 34)"
definition mi_bmask_size :: "ram \<Rightarrow> u32 \<Rightarrow> u8" where "mi_bmask_size m a = m (a + 35)"
definition mi_bpos :: "ram \<Rightarrow> u32 \<Rightarrow> u8" where "mi_bpos m a = m (a + 36)"
definition mi_fb_addr :: "ram \<Rightarrow> u32 \<Rightarrow> u32" where "mi_fb_addr m a = load32 m (a + 40)"

lemmas mi_fields = mi_xres_def mi_yres_def mi_bpp_def mi_rmask_size_def mi_rpos_def mi_gmask_size_def mi_gpos_def
  mi_bmask_size_def mi_bpos_def mi_fb_addr_def

definition VBE_MODE_LFB :: u32 where "VBE_MODE_LFB = push_bit 14 1"
definition VBE_EDID_MAGIC :: "u8 list" where "VBE_EDID_MAGIC = [0, 0xff, 0xff, 0xff, 0xff, 0xff, 0xff, 0]"

text \<open>\<open>struct vbe_edid\<close> has 8 + 12 + 5 bytes before the chroma fields, 10 of those, and 5 more bytes before its
  four timings of 18 bytes each.\<close>

definition edid_timing :: u32 where "edid_timing = 40"
definition sizeof_edid :: u32 where "sizeof_edid = 114"

section \<open>BIOS calls\<close>

text \<open>A pointer to the result, or 0.\<close>

definition vbe_get_info :: "'w bios \<Rightarrow> u32 \<Rightarrow> 'w bdev \<Rightarrow> u32 \<times> 'w bdev" where
  "vbe_get_info bios lmb st = (
     let st = st\<lparr>bram := (bram st)(lmb := 0x56, lmb + 1 := 0x42, lmb + 2 := 0x45, lmb + 3 := 0x32)\<rparr>;
         (regs, st) = int86 bios 0x10 (zero_regs\<lparr>r_es := ucast (drop_bit 4 lmb), r_eax := 0x4f00\<rparr>) st
     in (if r_eax regs AND 0xffff \<noteq> 0x4f then 0 else lmb, st))"

definition vbe_get_mode_info :: "'w bios \<Rightarrow> u32 \<Rightarrow> u32 \<Rightarrow> 'w bdev \<Rightarrow> u32 \<times> 'w bdev" where
  "vbe_get_mode_info bios lmb mode st = (
     let mi = lmb + 512;
         (regs, st) = int86 bios 0x10 (zero_regs\<lparr>r_es := ucast (drop_bit 4 mi), r_eax := 0x4f01, r_ecx := mode\<rparr>) st
     in (if r_eax regs AND 0xffff \<noteq> 0x4f then 0 else mi, st))"

definition vbe_set_mode :: "'w bios \<Rightarrow> u32 \<Rightarrow> 'w bdev \<Rightarrow> int \<times> 'w bdev" where
  "vbe_set_mode bios mode st = (
     let (regs, st) = int86 bios 0x10 (zero_regs\<lparr>r_eax := 0x4f02, r_ebx := mode\<rparr>) st
     in (if r_eax regs = 0x100 then -1 else 0, st))"

definition vbe_get_edid :: "'w bios \<Rightarrow> u32 \<Rightarrow> u32 \<Rightarrow> 'w bdev \<Rightarrow> int \<times> 'w bdev" where
  "vbe_get_edid bios lmb edid st = (
     let (regs, st) = int86 bios 0x10 (zero_regs\<lparr>r_es := ucast (drop_bit 4 lmb), r_eax := 0x4f15, r_ebx := 1\<rparr>) st
     in if r_eax regs AND 0xffff \<noteq> 0x4f then (-1, st)
        else (0, st\<lparr>bram := memcpy (bram st) edid lmb sizeof_edid\<rparr>))"

definition set_vga_mode :: "'w bios \<Rightarrow> u32 \<Rightarrow> 'w bdev \<Rightarrow> 'w bdev" where
  "set_vga_mode bios mode st = snd (int86 bios 0x10 (zero_regs\<lparr>r_eax := mode\<rparr>) st)"

text \<open>\<open>None\<close> is the \<open>-1\<close> for a block that is not an EDID.\<close>

definition edid_preferred_resolution :: "ram \<Rightarrow> u32 \<Rightarrow> (int \<times> int) option" where
  "edid_preferred_resolution m edid = (
     let t = edid + edid_timing
     in if map (\<lambda>i. m (edid + of_nat i)) [0..<8] \<noteq> VBE_EDID_MAGIC then None
        else Some (uint (m (t + 2)) OR push_bit 4 (uint (m (t + 4)) AND 0xf0), uint (m (t + 5)) OR push_bit 4 (uint (m (t + 7)) AND 0xf0)))"

section \<open>The preferred resolution\<close>

text \<open>In a block of the EDID standard the detailed timings start at byte 54, after eight standard timings of two
  bytes each; \<open>struct vbe_edid\<close> has room for one.\<close>

definition edid_block :: "(nat \<Rightarrow> u8) \<Rightarrow> u32 \<Rightarrow> ram \<Rightarrow> bool" where
  "edid_block b a m \<longleftrightarrow> (\<forall>i < 128. m (a + of_nat i) = b i)"

definition first_timing :: "(nat \<Rightarrow> u8) \<Rightarrow> int \<times> int" where
  "first_timing b = (uint (b 56) OR push_bit 4 (uint (b 58) AND 0xf0), uint (b 59) OR push_bit 4 (uint (b 61) AND 0xf0))"

text \<open>The resolution is read from the bytes of the standard timings: blocks that differ only in their detailed
  timings, and so in the resolution that the monitor prefers, give the same answer.\<close>

theorem edid_ignores_detailed_timings:
  assumes "edid_block b a m" "edid_block b' a m'" "\<forall>i < 54. b i = b' i"
  shows "edid_preferred_resolution m a = edid_preferred_resolution m' a"
proof -
  have eq: "m (a + of_nat i) = m' (a + of_nat i)" if "i < 54" for i
    using assms that by (simp add: edid_block_def)
  have "map (\<lambda>i. m (a + of_nat i)) [0..<8] = map (\<lambda>i. m' (a + of_nat i)) [0..<8]"
    by (rule map_cong [OF refl], rule eq) simp
  moreover have "a + edid_timing + 2 = a + of_nat 42" "a + edid_timing + 4 = a + of_nat 44" "a + edid_timing + 5 = a + of_nat 45"
    "a + edid_timing + 7 = a + of_nat 47" by (simp_all add: edid_timing_def)
  ultimately show ?thesis unfolding edid_preferred_resolution_def Let_def by (simp only: eq)
qed

definition edid_of :: "u8 \<Rightarrow> nat \<Rightarrow> u8" where
  "edid_of x i = (if i < 8 then VBE_EDID_MAGIC ! i else if i = 56 then x else if i = 58 then 0x40 else 1)"

lemma edid_ignores_detailed_timings_witness:
  "edid_preferred_resolution (\<lambda>x. edid_of 0 (unat x)) 0 = edid_preferred_resolution (\<lambda>x. edid_of 0x80 (unat x)) 0
    \<and> first_timing (edid_of 0) \<noteq> first_timing (edid_of 0x80)"
proof
  have b: "edid_block (edid_of x) 0 (\<lambda>y. edid_of x (unat y))" for x by (simp add: edid_block_def unat_of_nat)
  show "edid_preferred_resolution (\<lambda>x. edid_of 0 (unat x)) 0 = edid_preferred_resolution (\<lambda>x. edid_of 0x80 (unat x)) 0"
    by (rule edid_ignores_detailed_timings [OF b b]) (simp add: edid_of_def)
  show "first_timing (edid_of 0) \<noteq> first_timing (edid_of 0x80)" by (simp add: first_timing_def edid_of_def)
qed

end
