(* ===== verification/Video.thy ===== *)
theory Video
  imports Vbe
begin

text \<open>
  Video modes (\<open>src/video.c\<close>): the list of modes the BIOS gives, finding a mode by size and depth, setting it,
  and the layout of its pixels. Pointers are addresses, 0 the null pointer. Undefined behaviour is \<open>None\<close>: a
  look behind the table of masks, and a shift by 32 or more. Messages are left out.
\<close>

definition VBEPTR :: "u32 \<Rightarrow> u32" where "VBEPTR x = push_bit 4 (drop_bit 16 (x AND 0xffff0000)) + (x AND 0xffff)"

definition SAME_BPP :: "int \<Rightarrow> int \<Rightarrow> bool" where
  "SAME_BPP a b \<longleftrightarrow> a = b \<or> a = 16 \<and> b = 15 \<or> a = 15 \<and> b = 16 \<or> a = 32 \<and> b = 24 \<or> a = 24 \<and> b = 32"

record 'w video =
  hw :: "'w bdev"
  vbe_info :: u32
  modes :: u32
  mode_count :: nat
  mode_info :: u32
  done_init :: bool

record video_mode =
  v_mode :: u16
  width :: u16
  height :: u16
  v_bpp :: u8
  rbits :: u8
  gbits :: u8
  bbits :: u8
  rshift :: u8
  gshift :: u8
  bshift :: u8
  rmask :: u32
  gmask :: u32
  bmask :: u32

definition mode_at :: "'w video \<Rightarrow> nat \<Rightarrow> u16" where "mode_at v i = load16 (bram (hw v)) (modes v + of_nat (2 * i))"

text \<open>The modes before the end of the list, at most 1024.\<close>

fun count_modes :: "ram \<Rightarrow> u32 \<Rightarrow> nat \<Rightarrow> nat" where
  "count_modes m a 0 = 0"
| "count_modes m a (Suc n) = (if load16 m a = 0xffff then 0 else Suc (count_modes m (a + 2) n))"

definition init_once :: "'w bios \<Rightarrow> u32 \<Rightarrow> 'w video \<Rightarrow> int \<times> 'w video" where
  "init_once bios lmb v =
     (if done_init v then (if vbe_info v \<noteq> 0 \<and> modes v \<noteq> 0 then 0 else -1, v)
      else
        let v = v\<lparr>done_init := True\<rparr>;
            (p, st) = vbe_get_info bios lmb (hw v);
            v = v\<lparr>hw := st, vbe_info := p\<rparr>
        in if p = 0 then (-1, v)
           else if vi_version (bram st) p < 0x200 then (-1, v)
           else
             let a = VBEPTR (vi_vid_mode_ptr (bram st) p)
             in (0, v\<lparr>modes := a, mode_count := count_modes (bram st) a 1024\<rparr>))"

definition get_mode_info :: "'w bios \<Rightarrow> u32 \<Rightarrow> u32 \<Rightarrow> 'w video \<Rightarrow> u32 \<times> 'w video" where
  "get_mode_info bios lmb mode v = (let (p, st) = vbe_get_mode_info bios lmb mode (hw v) in (p, v\<lparr>hw := st\<rparr>))"

text \<open>The address of the frame buffer, or 0.\<close>

definition set_video_mode :: "'w bios \<Rightarrow> u32 \<Rightarrow> u32 \<Rightarrow> 'w video \<Rightarrow> u32 \<times> 'w video" where
  "set_video_mode bios lmb mode v = (
     let (r, v) = init_once bios lmb v
     in if r = -1 then (0, v)
        else if sint mode < 0 then (0, v)
        else
          let (p, v) = get_mode_info bios lmb mode v; v = v\<lparr>mode_info := p\<rparr>
          in if p = 0 then (0, v)
             else
               let (r, st) = vbe_set_mode bios (mode OR VBE_MODE_LFB) (hw v); v = v\<lparr>hw := st\<rparr>
               in if r = -1 then (0, v) else (mi_fb_addr (bram st) p, v))"

fun find_loop :: "'w bios \<Rightarrow> u32 \<Rightarrow> int \<Rightarrow> int \<Rightarrow> int \<Rightarrow> nat list \<Rightarrow> int \<times> int \<Rightarrow> 'w video \<Rightarrow> (int \<times> int) \<times> 'w video" where
  "find_loop bios lmb xsz ysz bpp [] best v = (best, v)"
| "find_loop bios lmb xsz ysz bpp (i # js) (best, best_bpp) v = (
     let (p, v) = get_mode_info bios lmb (ucast (mode_at v i) OR VBE_MODE_LFB) v; m = bram (hw v)
     in if p = 0 \<or> uint (mi_xres m p) \<noteq> xsz \<or> uint (mi_yres m p) \<noteq> ysz then find_loop bios lmb xsz ysz bpp js (best, best_bpp) v
        else if bpp \<le> 0 \<and> uint (mi_bpp m p) > best_bpp \<or> SAME_BPP (uint (mi_bpp m p)) bpp
        then find_loop bios lmb xsz ysz bpp js (int i, uint (mi_bpp m p)) v
        else find_loop bios lmb xsz ysz bpp js (best, best_bpp) v)"

definition find_video_mode_idx :: "'w bios \<Rightarrow> u32 \<Rightarrow> int \<Rightarrow> int \<Rightarrow> int \<Rightarrow> 'w video \<Rightarrow> int \<times> 'w video" where
  "find_video_mode_idx bios lmb xsz ysz bpp v = (
     let (r, v) = init_once bios lmb v
     in if r = -1 then (-1, v)
        else let ((best, _), v) = find_loop bios lmb xsz ysz bpp [0..<mode_count v] (-1, 0) v in (best, v))"

definition video_mode_count :: "'w bios \<Rightarrow> u32 \<Rightarrow> 'w video \<Rightarrow> nat \<times> 'w video" where
  "video_mode_count bios lmb v = (let (r, v) = init_once bios lmb v in (if r = -1 then 0 else mode_count v, v))"

definition maskbits :: "u32 list" where "maskbits = [0, 1, 3, 7, 0xf, 0x1f, 0x3f, 0x7f, 0xff]"

definition color_mask :: "u8 \<Rightarrow> u8 \<Rightarrow> u32 option" where
  "color_mask nbits pos = (if unat nbits < length maskbits \<and> pos < 32 then Some (push_bit (unat pos) (maskbits ! unat nbits)) else None)"

text \<open>The inner option is the \<open>-1\<close>.\<close>

definition video_mode_info :: "'w bios \<Rightarrow> u32 \<Rightarrow> nat \<Rightarrow> 'w video \<Rightarrow> (video_mode option \<times> 'w video) option" where
  "video_mode_info bios lmb n v = (
     let (r, v) = init_once bios lmb v
     in if r = -1 then Some (None, v)
        else
          let (p, v) = get_mode_info bios lmb (ucast (mode_at v n) OR VBE_MODE_LFB) v; m = bram (hw v)
          in if p = 0 then Some (None, v)
             else do {
               r \<leftarrow> color_mask (mi_rmask_size m p) (mi_rpos m p);
               g \<leftarrow> color_mask (mi_gmask_size m p) (mi_gpos m p);
               b \<leftarrow> color_mask (mi_bmask_size m p) (mi_bpos m p);
               Some (Some \<lparr>v_mode = mode_at v n, width = mi_xres m p, height = mi_yres m p, v_bpp = mi_bpp m p,
                 rbits = mi_rmask_size m p, gbits = mi_gmask_size m p, bbits = mi_bmask_size m p,
                 rshift = mi_rpos m p, gshift = mi_gpos m p, bshift = mi_bpos m p, rmask = r, gmask = g, bmask = b\<rparr>, v) })"

definition get_color_bits :: "'w video \<Rightarrow> (u8 \<times> u8 \<times> u8) option" where
  "get_color_bits v = (let m = bram (hw v); p = mode_info v in
     if p = 0 then None else Some (mi_rmask_size m p, mi_gmask_size m p, mi_bmask_size m p))"

definition get_color_shift :: "'w video \<Rightarrow> (u8 \<times> u8 \<times> u8) option" where
  "get_color_shift v = (let m = bram (hw v); p = mode_info v in
     if p = 0 then None else Some (mi_rpos m p, mi_gpos m p, mi_bpos m p))"

definition get_color_mask :: "'w video \<Rightarrow> (u32 \<times> u32 \<times> u32) option option" where
  "get_color_mask v = (let m = bram (hw v); p = mode_info v in
     if p = 0 then Some None
     else do {
       r \<leftarrow> color_mask (mi_rmask_size m p) (mi_rpos m p);
       g \<leftarrow> color_mask (mi_gmask_size m p) (mi_gpos m p);
       b \<leftarrow> color_mask (mi_bmask_size m p) (mi_bpos m p);
       Some (Some (r, g, b)) })"

definition get_video_vendor :: "'w bios \<Rightarrow> u32 \<Rightarrow> 'w video \<Rightarrow> u32 \<times> 'w video" where
  "get_video_vendor bios lmb v = (
     let (r, v) = init_once bios lmb v
     in (if r = -1 then 0 else VBEPTR (vi_oem_vendor_name_ptr (bram (hw v)) (vbe_info v)), v))"

definition get_video_mem_size :: "'w bios \<Rightarrow> u32 \<Rightarrow> 'w video \<Rightarrow> int \<times> 'w video" where
  "get_video_mem_size bios lmb v = (
     let (r, v) = init_once bios lmb v
     in (if r = -1 then 0 else push_bit 6 (uint (vi_total_mem (bram (hw v)) (vbe_info v))), v))"

section \<open>Masks\<close>

lemma maskbits_mask: "n < 9 \<Longrightarrow> maskbits ! n = mask n"
proof -
  assume "n < 9"
  then have "n \<in> {0, 1, 2, 3, 4, 5, 6, 7, 8}" by auto
  then show ?thesis unfolding maskbits_def by (elim insertE emptyE) (simp_all add: mask_eq_exp_minus_1)
qed

text \<open>A mask covers the bits of its component.\<close>

lemma color_mask_bits:
  assumes "color_mask nbits pos = Some w"
  shows "bit w i \<longleftrightarrow> i < 32 \<and> unat pos \<le> i \<and> i < unat pos + unat nbits"
proof -
  have n: "unat nbits < 9" and w: "w = push_bit (unat pos) (mask (unat nbits))"
    using assms maskbits_mask by (auto simp: color_mask_def maskbits_def split: if_splits)
  show ?thesis unfolding w by (auto simp: bit_push_bit_iff bit_mask_iff)
qed

section \<open>A BIOS\<close>

text \<open>What the BIOS promises: the mode numbers it supports have a description of 256 bytes, which a query puts
  at \<open>es:di\<close>; other queries fail and change nothing.\<close>

definition put_block :: "u32 \<Rightarrow> (nat \<Rightarrow> u8) \<Rightarrow> ram \<Rightarrow> ram" where
  "put_block a b m = (\<lambda>x. if unat (x - a) < 256 then b (unat (x - a)) else m x)"

definition bios_modes :: "'w bios \<Rightarrow> (u32 \<Rightarrow> (nat \<Rightarrow> u8) option) \<Rightarrow> bool" where
  "bios_modes bios info \<longleftrightarrow> (\<forall>regs w m. r_eax regs = 0x4f01 \<longrightarrow> (\<exists>regs' w'.
     case info (r_ecx regs) of
       None \<Rightarrow> bios 0x10 regs w m = (regs', w', m) \<and> r_eax regs' AND 0xffff \<noteq> 0x4f
     | Some b \<Rightarrow> bios 0x10 regs w m = (regs', w', put_block (16 * ucast (r_es regs) + (r_edi regs AND 0xffff)) b m) \<and> r_eax regs' AND 0xffff = 0x4f))"

text \<open>The buffer is on a paragraph in the first megabyte.\<close>

definition paragraph_ok :: "u32 \<Rightarrow> bool" where "paragraph_ok a \<longleftrightarrow> 16 * ucast (ucast (drop_bit 4 a) :: u16) = a"

lemma get_mode_info_some:
  assumes "bios_modes bios info" "paragraph_ok (lmb + 512)" "lmb + 512 \<noteq> 0" "info mode = Some b"
  shows "\<exists>w. get_mode_info bios lmb mode v = (lmb + 512, v\<lparr>hw := (hw v)\<lparr>world := w, bram := put_block (lmb + 512) b (bram (hw v))\<rparr>\<rparr>)"
proof -
  let ?r = "zero_regs\<lparr>r_es := ucast (drop_bit 4 (lmb + 512)), r_eax := 0x4f01, r_ecx := mode\<rparr>"
  have r: "r_eax ?r = 0x4f01" "r_ecx ?r = mode" "16 * ucast (r_es ?r) + (r_edi ?r AND 0xffff) = lmb + 512"
    using assms(2) by (simp_all add: zero_regs_def paragraph_ok_def)
  have "\<exists>r' w'. bios 0x10 ?r (world (hw v)) (bram (hw v)) = (r', w', put_block (lmb + 512) b (bram (hw v))) \<and> r_eax r' AND 0xffff = 0x4f"
    using assms(1) [unfolded bios_modes_def, rule_format, OF r(1), of "world (hw v)" "bram (hw v)"] unfolding r(2,3) assms(4) by simp
  then show ?thesis by (auto simp: get_mode_info_def vbe_get_mode_info_def int86_def Let_def)
qed

lemma get_mode_info_none:
  assumes "bios_modes bios info" "info mode = None"
  shows "\<exists>w. get_mode_info bios lmb mode v = (0, v\<lparr>hw := (hw v)\<lparr>world := w\<rparr>\<rparr>)"
proof -
  let ?r = "zero_regs\<lparr>r_es := ucast (drop_bit 4 (lmb + 512)), r_eax := 0x4f01, r_ecx := mode\<rparr>"
  have r: "r_eax ?r = 0x4f01" "r_ecx ?r = mode" by (simp_all add: zero_regs_def)
  have "\<exists>r' w'. bios 0x10 ?r (world (hw v)) (bram (hw v)) = (r', w', bram (hw v)) \<and> r_eax r' AND 0xffff \<noteq> 0x4f"
    using assms(1) [unfolded bios_modes_def, rule_format, OF r(1), of "world (hw v)" "bram (hw v)"] unfolding r(2) assms(2) by simp
  then show ?thesis by (auto simp: get_mode_info_def vbe_get_mode_info_def int86_def Let_def)
qed

section \<open>The search for a mode\<close>

text \<open>Queries change only the buffer and the state of the BIOS.\<close>

definition queried :: "u32 \<Rightarrow> 'w video \<Rightarrow> 'w video \<Rightarrow> bool" where
  "queried a v v' \<longleftrightarrow> (\<exists>w m. v' = v\<lparr>hw := (hw v)\<lparr>world := w, bram := m\<rparr>\<rparr> \<and> (\<forall>x. 256 \<le> unat (x - a) \<longrightarrow> m x = bram (hw v) x))"

lemma queried_refl: "queried a v v"
  unfolding queried_def by (rule exI [of _ "world (hw v)"], rule exI [of _ "bram (hw v)"]) simp

lemma queried_step:
  assumes "queried a v v'"
  shows "queried a v (v'\<lparr>hw := (hw v')\<lparr>world := w, bram := put_block a b (bram (hw v'))\<rparr>\<rparr>)" "queried a v (v'\<lparr>hw := (hw v')\<lparr>world := w\<rparr>\<rparr>)"
proof -
  obtain w' m where v': "v' = v\<lparr>hw := (hw v)\<lparr>world := w', bram := m\<rparr>\<rparr>" and m: "\<And>x. 256 \<le> unat (x - a) \<Longrightarrow> m x = bram (hw v) x"
    using assms by (auto simp: queried_def)
  have "v'\<lparr>hw := (hw v')\<lparr>world := w, bram := put_block a b (bram (hw v'))\<rparr>\<rparr> = v\<lparr>hw := (hw v)\<lparr>world := w, bram := put_block a b m\<rparr>\<rparr>"
    "v'\<lparr>hw := (hw v')\<lparr>world := w\<rparr>\<rparr> = v\<lparr>hw := (hw v)\<lparr>world := w, bram := m\<rparr>\<rparr>"
    unfolding v' by simp_all
  moreover have "\<forall>x. 256 \<le> unat (x - a) \<longrightarrow> put_block a b m x = bram (hw v) x" using m by (simp add: put_block_def)
  ultimately show "queried a v (v'\<lparr>hw := (hw v')\<lparr>world := w, bram := put_block a b (bram (hw v'))\<rparr>\<rparr>)" "queried a v (v'\<lparr>hw := (hw v')\<lparr>world := w\<rparr>\<rparr>)"
    using m unfolding queried_def by metis+
qed

text \<open>The list of modes is not in the part of the buffer that the queries use.\<close>

definition list_outside :: "u32 \<Rightarrow> 'w video \<Rightarrow> bool" where
  "list_outside a v \<longleftrightarrow> (\<forall>i < mode_count v. 256 \<le> unat (modes v + of_nat (2 * i) - a) \<and> 256 \<le> unat (modes v + of_nat (2 * i) + 1 - a))"

lemma queried_mode_at:
  assumes "queried a v v'" "list_outside a v" "i < mode_count v"
  shows "mode_at v' i = mode_at v i"
proof -
  obtain w m where v': "v' = v\<lparr>hw := (hw v)\<lparr>world := w, bram := m\<rparr>\<rparr>" and m: "\<And>x. 256 \<le> unat (x - a) \<Longrightarrow> m x = bram (hw v) x"
    using assms(1) by (auto simp: queried_def)
  have "m (modes v + of_nat (2 * i)) = bram (hw v) (modes v + of_nat (2 * i))"
    "m (modes v + of_nat (2 * i) + 1) = bram (hw v) (modes v + of_nat (2 * i) + 1)"
    using assms(2,3) m by (simp_all add: list_outside_def)
  then show ?thesis unfolding v' by (simp add: mode_at_def load16_def)
qed

text \<open>The fields of a description.\<close>

definition block16 :: "(nat \<Rightarrow> u8) \<Rightarrow> nat \<Rightarrow> int" where "block16 b k = uint ((ucast (b k) :: u16) OR push_bit 8 (ucast (b (k + 1))))"

definition has_size :: "(nat \<Rightarrow> u8) \<Rightarrow> int \<Rightarrow> int \<Rightarrow> bool" where "has_size b xsz ysz \<longleftrightarrow> block16 b 18 = xsz \<and> block16 b 20 = ysz"

definition depth :: "(nat \<Rightarrow> u8) \<Rightarrow> int" where "depth b = uint (b 25)"

lemma put_block_at: "k < 256 \<Longrightarrow> put_block a b m (a + of_nat k) = b k"
  by (simp add: put_block_def unat_of_nat)

lemma put_block_fields:
  "uint (mi_xres (put_block a b m) a) = block16 b 18" "uint (mi_yres (put_block a b m) a) = block16 b 20" "uint (mi_bpp (put_block a b m) a) = depth b"
  using put_block_at [of 18 a b m] put_block_at [of 19 a b m] put_block_at [of 20 a b m] put_block_at [of 21 a b m] put_block_at [of 25 a b m]
  by (simp_all add: mi_fields load16_def block16_def depth_def add.assoc)

definition pick :: "(nat \<Rightarrow> (nat \<Rightarrow> u8) option) \<Rightarrow> int \<Rightarrow> int \<Rightarrow> int \<Rightarrow> nat \<Rightarrow> int \<times> int \<Rightarrow> int \<times> int" where
  "pick d xsz ysz bpp i acc = (case d i of
     None \<Rightarrow> acc
   | Some b \<Rightarrow> if has_size b xsz ysz \<and> (bpp \<le> 0 \<and> depth b > snd acc \<or> SAME_BPP (depth b) bpp) then (int i, depth b) else acc)"

lemma find_loop_pick:
  assumes "bios_modes bios info" "paragraph_ok (lmb + 512)" "lmb + 512 \<noteq> 0" "list_outside (lmb + 512) v"
    and "queried (lmb + 512) v v'" "\<forall>i \<in> set js. i < mode_count v"
  shows "fst (find_loop bios lmb xsz ysz bpp js acc v') = fold (pick (\<lambda>i. info (ucast (mode_at v i) OR VBE_MODE_LFB)) xsz ysz bpp) js acc"
  using assms(5,6)
proof (induction js arbitrary: acc v')
  case (Cons i js)
  let ?mode = "ucast (mode_at v i) OR VBE_MODE_LFB"
  obtain best bb where acc: "acc = (best, bb)" by (cases acc)
  have mode: "mode_at v' i = mode_at v i" using queried_mode_at [OF Cons.prems(1) assms(4)] Cons.prems(2) by simp
  have js: "\<forall>i \<in> set js. i < mode_count v" using Cons.prems(2) by simp
  show ?case
  proof (cases "info ?mode")
    case None
    obtain w where w: "get_mode_info bios lmb ?mode v' = (0, v'\<lparr>hw := (hw v')\<lparr>world := w\<rparr>\<rparr>)"
      using get_mode_info_none [OF assms(1) None] by blast
    then show ?thesis using Cons.IH [OF queried_step(2) [OF Cons.prems(1)] js] None by (simp add: acc mode pick_def)
  next
    case (Some b)
    obtain w where w: "get_mode_info bios lmb ?mode v' = (lmb + 512, v'\<lparr>hw := (hw v')\<lparr>world := w, bram := put_block (lmb + 512) b (bram (hw v'))\<rparr>\<rparr>)"
      using get_mode_info_some [OF assms(1-3) Some] by blast
    note IH = Cons.IH [OF queried_step(1) [OF Cons.prems(1)] js]
    show ?thesis
      using assms(3) by (simp add: acc mode w Some pick_def IH put_block_fields has_size_def Let_def) 
  qed
qed simp

text \<open>The modes of the size asked for: of the depth asked for, too, or with any depth when it is negative.\<close>

definition fits :: "(nat \<Rightarrow> (nat \<Rightarrow> u8) option) \<Rightarrow> int \<Rightarrow> int \<Rightarrow> int \<Rightarrow> nat \<Rightarrow> bool" where
  "fits d xsz ysz bpp i \<longleftrightarrow> (case d i of None \<Rightarrow> False
     | Some b \<Rightarrow> has_size b xsz ysz \<and> (if bpp < 0 then 0 < depth b else SAME_BPP (depth b) bpp))"

definition depth_of :: "(nat \<Rightarrow> (nat \<Rightarrow> u8) option) \<Rightarrow> nat \<Rightarrow> int" where "depth_of d i = (case d i of None \<Rightarrow> 0 | Some b \<Rightarrow> depth b)"

definition best_of :: "(nat \<Rightarrow> (nat \<Rightarrow> u8) option) \<Rightarrow> int \<Rightarrow> int \<Rightarrow> int \<Rightarrow> nat \<Rightarrow> int \<times> int \<Rightarrow> bool" where
  "best_of d xsz ysz bpp n acc \<longleftrightarrow>
     (if \<exists>i < n. fits d xsz ysz bpp i
      then \<exists>i < n. acc = (int i, depth_of d i) \<and> fits d xsz ysz bpp i \<and> (bpp < 0 \<longrightarrow> (\<forall>j < n. fits d xsz ysz bpp j \<longrightarrow> depth_of d j \<le> depth_of d i))
      else acc = (-1, 0))"

lemma pick_best:
  assumes "bpp \<noteq> 0" "best_of d xsz ysz bpp n acc"
  shows "best_of d xsz ysz bpp (Suc n) (pick d xsz ysz bpp n acc)"
proof -
  have d0: "0 \<le> depth b" for b by (simp add: depth_def)
  have neg: "\<not> SAME_BPP (depth b) bpp" if "bpp < 0" for b using d0 [of b] that by (auto simp: SAME_BPP_def)
  show ?thesis
  proof (cases "fits d xsz ysz bpp n")
    case False
    have same: "pick d xsz ysz bpp n acc = acc"
    proof (cases "d n")
      case (Some b)
      have "0 \<le> snd acc" using assms(2) d0 by (auto simp: best_of_def depth_of_def split: if_splits option.splits)
      then show ?thesis using False Some assms(1) neg by (auto simp: pick_def fits_def split: if_splits)
    qed (simp add: pick_def)
    have "(\<exists>i < Suc n. fits d xsz ysz bpp i) = (\<exists>i < n. fits d xsz ysz bpp i)" using False less_Suc_eq by blast
    then show ?thesis using assms(2) False unfolding same best_of_def by (auto simp: less_Suc_eq split: if_splits)
  next
    case True
    then obtain b where b: "d n = Some b" "has_size b xsz ysz" "if bpp < 0 then 0 < depth b else SAME_BPP (depth b) bpp"
      by (auto simp: fits_def split: option.splits)
    have dn: "depth_of d n = depth b" using b(1) by (simp add: depth_of_def)
    have ex: "\<exists>i < Suc n. fits d xsz ysz bpp i" using True by blast
    show ?thesis
    proof (cases "\<exists>i < n. fits d xsz ysz bpp i")
      case False
      then have acc: "acc = (-1, 0)" using assms(2) by (simp add: best_of_def)
      have "pick d xsz ysz bpp n acc = (int n, depth b)" using b assms(1) by (auto simp: pick_def acc split: if_splits)
      then show ?thesis unfolding best_of_def using ex True dn False by (auto simp: less_Suc_eq)
    next
      case older: True
      then obtain i where i: "i < n" "acc = (int i, depth_of d i)" "fits d xsz ysz bpp i"
        and top: "bpp < 0 \<Longrightarrow> \<forall>j < n. fits d xsz ysz bpp j \<longrightarrow> depth_of d j \<le> depth_of d i"
        using assms(2) by (auto simp: best_of_def)
      show ?thesis
      proof (cases "bpp < 0")
        case False
        then have "pick d xsz ysz bpp n acc = (int n, depth b)" using b assms(1) by (simp add: pick_def)
        then show ?thesis unfolding best_of_def using ex True dn False by (auto intro!: exI [of _ n])
      next
        case lt: True
        show ?thesis
        proof (cases "depth b > depth_of d i")
          case gt: True
          have "pick d xsz ysz bpp n acc = (int n, depth b)" using b lt gt by (simp add: pick_def i(2))
          moreover have "depth_of d j \<le> depth_of d n" if "j < Suc n" "fits d xsz ysz bpp j" for j
          proof (cases "j = n")
            case False
            then have "depth_of d j \<le> depth_of d i" using top [OF lt] that by simp
            then show ?thesis using gt dn by simp
          qed simp
          ultimately show ?thesis unfolding best_of_def using ex True dn by (auto intro!: exI [of _ n])
        next
          case le: False
          have "pick d xsz ysz bpp n acc = acc" using b lt le neg [OF lt] by (simp add: pick_def i(2))
          moreover have "depth_of d j \<le> depth_of d i" if "j < Suc n" "fits d xsz ysz bpp j" for j
            using top [OF lt] that le dn by (cases "j = n") auto
          ultimately show ?thesis unfolding best_of_def using ex i by (auto intro!: exI [of _ i])
        qed
      qed
    qed
  qed
qed

lemma fold_best: "bpp \<noteq> 0 \<Longrightarrow> best_of d xsz ysz bpp n (fold (pick d xsz ysz bpp) [0..<n] (-1, 0))"
proof (induction n)
  case 0
  then show ?case by (simp add: best_of_def)
next
  case (Suc n)
  then show ?case using pick_best [OF Suc.prems Suc.IH] by simp
qed

definition described :: "(u32 \<Rightarrow> (nat \<Rightarrow> u8) option) \<Rightarrow> 'w video \<Rightarrow> nat \<Rightarrow> (nat \<Rightarrow> u8) option" where
  "described info v = (\<lambda>i. info (ucast (mode_at v i) OR VBE_MODE_LFB))"

text \<open>C15: \<open>find_video_mode_idx\<close> gives a mode of the size and depth asked for, the deepest of that size when the
  depth is negative, and \<open>-1\<close> only when the BIOS has none.\<close>

theorem find_video_mode_idx_best:
  assumes "init_once bios lmb v = (0, v')" "bios_modes bios info" "paragraph_ok (lmb + 512)" "lmb + 512 \<noteq> 0" "list_outside (lmb + 512) v'" "bpp \<noteq> 0"
  shows "if \<exists>i < mode_count v'. fits (described info v') xsz ysz bpp i
    then \<exists>i < mode_count v'. fst (find_video_mode_idx bios lmb xsz ysz bpp v) = int i \<and> fits (described info v') xsz ysz bpp i
      \<and> (bpp < 0 \<longrightarrow> (\<forall>j < mode_count v'. fits (described info v') xsz ysz bpp j \<longrightarrow> depth_of (described info v') j \<le> depth_of (described info v') i))
    else fst (find_video_mode_idx bios lmb xsz ysz bpp v) = -1"
proof -
  have "fst (find_loop bios lmb xsz ysz bpp [0..<mode_count v'] (-1, 0) v') = fold (pick (described info v') xsz ysz bpp) [0..<mode_count v'] (-1, 0)"
    unfolding described_def by (rule find_loop_pick [OF assms(2-5) queried_refl]) simp
  then have "fst (find_video_mode_idx bios lmb xsz ysz bpp v) = fst (fold (pick (described info v') xsz ysz bpp) [0..<mode_count v'] (-1, 0))"
    by (cases "fold (pick (described info v') xsz ysz bpp) [0..<mode_count v'] (-1, 0)") (auto simp: find_video_mode_idx_def assms(1) split: prod.splits)
  then show ?thesis using fold_best [OF assms(6), of "described info v'" xsz ysz "mode_count v'"] unfolding best_of_def by (auto split: if_splits)
qed

text \<open>A BIOS with two modes of 640 by 480, of 8 and 16 bits.\<close>

definition demo_block :: "u8 \<Rightarrow> nat \<Rightarrow> u8" where
  "demo_block bpp k = (if k = 18 then 0x80 else if k = 19 then 2 else if k = 20 then 0xe0 else if k = 21 then 1 else if k = 25 then bpp
     else if k = 31 then bpp - 11 else if k = 33 then bpp - 10 else if k = 35 then bpp - 11 else 0)"

definition demo_info :: "u32 \<Rightarrow> (nat \<Rightarrow> u8) option" where
  "demo_info mode = (if mode = 0x4101 then Some (demo_block 8) else if mode = 0x4111 then Some (demo_block 16) else None)"

definition vbe_bios :: "unit bios" where
  "vbe_bios i regs w m =
     (if r_eax regs = 0x4f01 then
        (case demo_info (r_ecx regs) of
           None \<Rightarrow> (regs\<lparr>r_eax := 0\<rparr>, w, m)
         | Some b \<Rightarrow> (regs\<lparr>r_eax := 0x4f\<rparr>, w, put_block (16 * ucast (r_es regs) + (r_edi regs AND 0xffff)) b m))
      else (regs, w, m))"

lemma vbe_bios_modes: "bios_modes vbe_bios demo_info"
  unfolding bios_modes_def vbe_bios_def by (auto split: option.split)

definition demo_video :: "unit video" where
  "demo_video = \<lparr>hw = (idle_bdev True False [])\<lparr>bram := (\<lambda>_. 0)(0x8000 := 1, 0x8001 := 1, 0x8002 := 0x11, 0x8003 := 1, 0x8004 := 0xff, 0x8005 := 0xff)\<rparr>,
     vbe_info = 0x10000, modes = 0x8000, mode_count = 2, mode_info = 0x10200, done_init = True\<rparr>"

lemma demo_buffer: "paragraph_ok (0x10000 + 512)" "(0x10000 :: u32) + 512 \<noteq> 0"
  by (simp_all add: paragraph_ok_def)

lemma less2: "i < 2 \<longleftrightarrow> i = 0 \<or> i = (1 :: nat)" by auto

lemma demo_described: "described demo_info demo_video 0 = Some (demo_block 8)" "described demo_info demo_video (Suc 0) = Some (demo_block 16)"
  by (simp_all add: described_def demo_info_def mode_at_def demo_video_def load16_def VBE_MODE_LFB_def)

lemma find_video_mode_idx_best_witness:
  "\<exists>i < 2. fst (find_video_mode_idx vbe_bios 0x10000 640 480 16 demo_video) = int i \<and> fits (described demo_info demo_video) 640 480 16 i"
proof -
  have init: "init_once vbe_bios 0x10000 demo_video = (0, demo_video)" by (simp add: init_once_def demo_video_def)
  have out: "list_outside (0x10000 + 512) demo_video" by (simp add: list_outside_def demo_video_def less2)
  have fit: "fits (described demo_info demo_video) 640 480 16 1"
    by (simp add: fits_def demo_described has_size_def block16_def depth_def demo_block_def SAME_BPP_def)
  then have ex: "\<exists>i < 2. fits (described demo_info demo_video) 640 480 16 i" by (intro exI [of _ 1]) simp
  have n: "mode_count demo_video = 2" by (simp add: demo_video_def)
  show ?thesis
    using find_video_mode_idx_best [OF init vbe_bios_modes demo_buffer out, of 16 640 480] unfolding n by (simp only: ex if_True) force
qed

section \<open>The layout of the pixels\<close>

text \<open>The driver keeps the description of the mode that is set only in the buffer of the BIOS: after a query for another
  mode, \<open>get_color_bits\<close> gives the sizes of that mode's components.\<close>

theorem color_bits_of_queried_mode:
  assumes "bios_modes bios info" "paragraph_ok (lmb + 512)" "lmb + 512 \<noteq> 0" "mode_info v = lmb + 512"
    and "init_once bios lmb v = (0, v)" "described info v n = Some b" "video_mode_info bios lmb n v = Some (Some vm, v')"
  shows "get_color_bits v' = Some (b 31, b 33, b 35)"
proof -
  obtain w where w: "get_mode_info bios lmb (ucast (mode_at v n) OR VBE_MODE_LFB) v
      = (lmb + 512, v\<lparr>hw := (hw v)\<lparr>world := w, bram := put_block (lmb + 512) b (bram (hw v))\<rparr>\<rparr>)"
    using get_mode_info_some [OF assms(1-3)] assms(6) unfolding described_def by blast
  have "v' = v\<lparr>hw := (hw v)\<lparr>world := w, bram := put_block (lmb + 512) b (bram (hw v))\<rparr>\<rparr>"
    using assms(3,7) by (auto simp: video_mode_info_def assms(5) w Let_def bind_eq_Some_conv)
  then show ?thesis using assms(3,4) put_block_at [of 31 "lmb + 512" b] put_block_at [of 33 "lmb + 512" b] put_block_at [of 35 "lmb + 512" b]
    by (simp add: get_color_bits_def Let_def mi_fields)
qed

lemma color_bits_of_queried_mode_witness:
  "\<exists>vm v'. video_mode_info vbe_bios 0x10000 1 demo_video = Some (Some vm, v') \<and> get_color_bits v' = Some (5, 6, 5)"
proof -
  have init: "init_once vbe_bios 0x10000 demo_video = (0, demo_video)" by (simp add: init_once_def demo_video_def)
  have d: "described demo_info demo_video 1 = Some (demo_block 16)" using demo_described by simp
  obtain w where w: "get_mode_info vbe_bios 0x10000 (ucast (mode_at demo_video 1) OR VBE_MODE_LFB) demo_video
      = (0x10000 + 512, demo_video\<lparr>hw := (hw demo_video)\<lparr>world := w, bram := put_block (0x10000 + 512) (demo_block 16) (bram (hw demo_video))\<rparr>\<rparr>)"
    using get_mode_info_some [OF vbe_bios_modes demo_buffer] d unfolding described_def by blast
  have f: "color_mask (put_block a (demo_block 16) m (a + of_nat k)) (put_block a (demo_block 16) m (a + of_nat (Suc k))) \<noteq> None"
    if "k \<in> {31, 33, 35}" for a m k
    using that by (elim insertE emptyE) (simp_all add: put_block_at demo_block_def color_mask_def maskbits_def del: of_nat_numeral of_nat_Suc)
  have "\<exists>vm v'. video_mode_info vbe_bios 0x10000 1 demo_video = Some (Some vm, v')"
    using f [of 31 "0x10200" "bram (hw demo_video)"] f [of 33 "0x10200" "bram (hw demo_video)"] f [of 35 "0x10200" "bram (hw demo_video)"]
    by (auto simp: video_mode_info_def init w [simplified] Let_def mi_fields)
  then obtain vm v' where vm: "video_mode_info vbe_bios 0x10000 1 demo_video = Some (Some vm, v')" by blast
  have "mode_info demo_video = 0x10000 + 512" by (simp add: demo_video_def)
  note color_bits_of_queried_mode [OF vbe_bios_modes demo_buffer this init d vm]
  then show ?thesis using vm by (auto simp: demo_block_def)
qed

end
