(* ===== verification/Dirent.thy ===== *)
theory Dirent
  imports Malloc File
begin

text \<open>
  Directory streams (\<open>src/libc/dirent.c\<close>) over the file system layer. A \<open>DIR\<close> is a value that is passed in and
  out; \<open>room\<close> says whether its allocation succeeds. A name that does not fit \<open>d_name\<close> is \<open>None\<close>. The size of an
  entry is \<open>None\<close> where the file system leaves it as it was.
\<close>

definition DT_DIR :: u8 where "DT_DIR = 4"
definition DT_REG :: u8 where "DT_REG = 8"

record dirent =
  d_name :: cstring
  d_type :: u8
  d_fsize :: "int option"

record DIR =
  dir_fsn :: hid
  dent :: "dirent option"

definition opendir :: "reader \<Rightarrow> int \<Rightarrow> bool \<Rightarrow> cstring option \<Rightarrow> vfs \<Rightarrow> (DIR option \<times> vfs) option" where
  "opendir rd bd room path st =
     (case path of
        None \<Rightarrow> Some (None, st\<lparr>errno := EINVAL\<rparr>)
      | Some path \<Rightarrow>
          (case fs_open rd bd path 0 st of
             None \<Rightarrow> None
           | Some (None, st) \<Rightarrow> Some (None, st\<lparr>errno := ENOENT\<rparr>)
           | Some (Some h, st) \<Rightarrow>
               (case fsnodes st h of
                  None \<Rightarrow> None
                | Some fn \<Rightarrow>
                    if fn_type fn \<noteq> FSNODE_DIR then map_option (\<lambda>(_, st). (None, st)) (fs_close (Some h) (st\<lparr>errno := ENOTDIR\<rparr>))
                    else if \<not> room then map_option (\<lambda>(_, st). (None, st)) (fs_close (Some h) (st\<lparr>errno := ENOMEM\<rparr>))
                    else Some (Some \<lparr>dir_fsn = h, dent = None\<rparr>, st))))"

definition closedir :: "DIR option \<Rightarrow> vfs \<Rightarrow> (int \<times> vfs) option" where
  "closedir dir st = (case dir of None \<Rightarrow> Some (-1, st\<lparr>errno := EINVAL\<rparr>) | Some d \<Rightarrow> map_option (\<lambda>(_, st). (0, st)) (fs_close (Some (dir_fsn d)) st))"

definition rewinddir_stream :: "DIR option \<Rightarrow> vfs \<Rightarrow> vfs option" where
  "rewinddir_stream dir st = (case dir of None \<Rightarrow> Some (st\<lparr>errno := EINVAL\<rparr>) | Some d \<Rightarrow> map_option snd (fs_rewinddir (dir_fsn d) st))"

definition readdir_stream :: "DIR option \<Rightarrow> vfs \<Rightarrow> (dirent option \<times> DIR option \<times> vfs) option" where
  "readdir_stream dir st =
     (case dir of
        None \<Rightarrow> Some (None, None, st\<lparr>errno := EINVAL\<rparr>)
      | Some d \<Rightarrow>
          (case fs_readdir (dir_fsn d) st of
             None \<Rightarrow> None
           | Some (None, st) \<Rightarrow> Some (None, Some d, st)
           | Some (Some (name, ty, sz), st) \<Rightarrow>
               if 256 \<le> length name then None
               else let e = \<lparr>d_name = name, d_type = (if ty = FSNODE_DIR then DT_DIR else DT_REG), d_fsize = sz\<rparr>
                 in Some (Some e, Some (d\<lparr>dent := Some e\<rparr>), st)))"

section \<open>Reading a directory\<close>

text \<open>Reading up to the end: all entries, in order.\<close>

partial_function (option) read_entries :: "DIR option \<Rightarrow> vfs \<Rightarrow> (dirent list \<times> DIR option \<times> vfs) option" where
  "read_entries dir st =
     (case readdir_stream dir st of
        None \<Rightarrow> None
      | Some (None, dir, st) \<Rightarrow> Some ([], dir, st)
      | Some (Some e, dir, st) \<Rightarrow> Option.bind (read_entries dir st) (\<lambda>(es, r). Some (e # es, r)))"

declare read_entries.simps [code]

definition list_dir :: "DIR \<Rightarrow> vfs \<Rightarrow> (dirent list \<times> DIR option \<times> vfs) option" where
  "list_dir dir st = Option.bind (rewinddir_stream (Some dir) st) (read_entries (Some dir))"

definition dirent_of :: "memfs_node \<Rightarrow> dirent" where
  "dirent_of nd = \<lparr>d_name = n_name nd, d_type = (if n_type nd = FSNODE_DIR then DT_DIR else DT_REG),
     d_fsize = (if n_type nd = FSNODE_FILE then Some (n_size nd) else None)\<rparr>"

definition stream_at :: "DIR \<Rightarrow> nid \<Rightarrow> nid option \<Rightarrow> vfs \<Rightarrow> bool" where
  "stream_at dir d cur st \<longleftrightarrow> (\<exists>fn. fsnodes st (dir_fsn dir) = Some fn \<and> fn_type fn = FSNODE_DIR \<and> fn_data fn = ODir \<lparr>od_dir = d, od_cur = cur\<rparr>)"

lemma readdir_at_end:
  assumes "stream_at dir d None st"
  shows "\<exists>st'. readdir_stream (Some dir) st = Some (None, Some dir, st') \<and> nodes st' = nodes st \<and> stream_at dir d None st'"
  using assms by (auto simp: stream_at_def readdir_stream_def fs_readdir_def mem_readdir_def set_data_def)

lemma readdir_at_node:
  assumes "stream_at dir d (Some n) st" "nodes st n = Some nd" "length (n_name nd) < 256"
  shows "\<exists>dir' st'. readdir_stream (Some dir) st = Some (Some (dirent_of nd), Some dir', st') \<and> nodes st' = nodes st \<and> dir_fsn dir' = dir_fsn dir
    \<and> stream_at dir' d (n_next nd) st'"
  using assms by (auto simp: stream_at_def readdir_stream_def fs_readdir_def mem_readdir_def set_data_def dirent_of_def Let_def)

lemma read_entries_seg:
  assumes "stream_at dir d p st" "seg (nodes st) p ns" "\<forall>n \<in> set ns. length (n_name (the (nodes st n))) < 256"
  shows "\<exists>dir' st'. read_entries (Some dir) st = Some (map (\<lambda>n. dirent_of (the (nodes st n))) ns, Some dir', st')"
  using assms
proof (induction ns arbitrary: dir p st)
  case Nil
  then have "p = None" by simp
  then show ?case using readdir_at_end [of dir d st] Nil.prems(1) by (auto simp: read_entries.simps [of "Some dir"])
next
  case (Cons n ns)
  obtain nd where nd: "p = Some n" "nodes st n = Some nd" "seg (nodes st) (n_next nd) ns"
    using Cons.prems(2) by (auto split: option.splits)
  have "length (n_name nd) < 256" using Cons.prems(3) nd(2) by simp
  then obtain dir' st' where s: "readdir_stream (Some dir) st = Some (Some (dirent_of nd), Some dir', st')" "nodes st' = nodes st"
      "dir_fsn dir' = dir_fsn dir" "stream_at dir' d (n_next nd) st'"
    using readdir_at_node [of dir d n st nd] Cons.prems(1) nd(1,2) by blast
  have "seg (nodes st') (n_next nd) ns" "\<forall>n \<in> set ns. length (n_name (the (nodes st' n))) < 256" using nd(3) Cons.prems(3) s(2) by simp_all
  then show ?case using Cons.IH [OF s(4)] s nd(2) by (auto simp: read_entries.simps [of "Some dir"])
qed

definition dir_open :: "DIR \<Rightarrow> nid \<Rightarrow> vfs \<Rightarrow> bool" where
  "dir_open dir d st \<longleftrightarrow> (\<exists>fn od. fsnodes st (dir_fsn dir) = Some fn \<and> fn_type fn = FSNODE_DIR \<and> fn_data fn = ODir od \<and> od_dir od = d)"

lemma list_dir_has:
  assumes "dir_open dir d st" "dir_has (nodes st) d ns" "\<forall>n \<in> set ns. length (n_name (the (nodes st n))) < 256"
  shows "\<exists>r. list_dir dir st = Some (map (\<lambda>n. dirent_of (the (nodes st n))) ns, r)"
proof -
  obtain fn od where f: "fsnodes st (dir_fsn dir) = Some fn" "fn_type fn = FSNODE_DIR" "fn_data fn = ODir od" "od_dir od = d"
    using assms(1) by (auto simp: dir_open_def)
  obtain dn where dn: "nodes st d = Some dn" "seg (nodes st) (n_clist dn) ns"
    using assms(2) by (auto simp: dir_has_def split: option.splits)
  define st1 where "st1 = set_data (dir_fsn dir) fn (ODir (od\<lparr>od_cur := n_clist dn\<rparr>)) st"
  have rw: "rewinddir_stream (Some dir) st = Some st1"
    using f dn(1) by (simp add: rewinddir_stream_def fs_rewinddir_def mem_rewinddir_def st1_def)
  have "stream_at dir (od_dir od) (n_clist dn) st1" "nodes st1 = nodes st"
    using f(2) by (simp_all add: stream_at_def st1_def set_data_def)
  then show ?thesis using read_entries_seg [of dir "od_dir od" "n_clist dn" st1 ns] dn(2) assms(3) rw by (auto simp: list_dir_def)
qed

section \<open>Making entries\<close>

text \<open>Entries made one after the other in the directory \<open>d\<close>, each a new node with a name that is not there.\<close>

fun make_entries :: "nid \<Rightarrow> (nid \<times> fs_type \<times> cstring) list \<Rightarrow> store \<Rightarrow> store option" where
  "make_entries d [] N = Some N"
| "make_entries d ((n, ty, name) # xs) N =
     (if N n = None \<and> mem_find_entry N d name = Some None then Option.bind (mem_create N d n ty name) (make_entries d xs) else None)"

text \<open>What a listing shows of a new entry.\<close>

definition new_entry :: "nid \<times> fs_type \<times> cstring \<Rightarrow> dirent" where
  "new_entry x = (case x of (n, ty, name) \<Rightarrow>
     \<lparr>d_name = name, d_type = (if ty = FSNODE_DIR then DT_DIR else DT_REG), d_fsize = (if ty = FSNODE_FILE then Some 0 else None)\<rparr>)"

definition entries_of :: "store \<Rightarrow> nid list \<Rightarrow> dirent list" where
  "entries_of N ns = map (\<lambda>n. dirent_of (the (N n))) ns"

lemma make_entries_kids:
  assumes "make_entries d xs N = Some N'" "tree N kids" "N d = Some dn" "n_type dn = FSNODE_DIR"
  shows "\<exists>kids' dn'. tree N' kids' \<and> N' d = Some dn' \<and> n_type dn' = FSNODE_DIR
    \<and> entries_of N' (kids' d) = entries_of N (kids d) @ map new_entry xs"
  using assms
proof (induction xs arbitrary: N kids dn)
  case Nil
  then show ?case by auto
next
  case (Cons x xs)
  obtain n ty name where x: "x = (n, ty, name)" by (cases x)
  have fresh: "N n = None" "mem_find_entry N d name = Some None" using Cons.prems(1) by (simp_all add: x split: if_splits)
  obtain N1 nd where c: "mem_create N d n ty name = Some N1" "tree N1 (kids(d := kids d @ [n]))" "N1 n = Some nd" "n_name nd = name"
      "meta nd = (Some d, Some [], 0, 0, ty, None)"
      "\<And>m. m \<noteq> n \<Longrightarrow> map_option n_name (N1 m) = map_option n_name (N m) \<and> map_option n_type (N1 m) = map_option n_type (N m)
        \<and> map_option meta (N1 m) = map_option meta (N m)"
    using mem_create_tree [OF Cons.prems(2-4) fresh(1), of ty name] by blast
  have dn: "d \<noteq> n" using Cons.prems(3) fresh(1) by auto
  obtain dn1 where dn1: "N1 d = Some dn1" "n_type dn1 = FSNODE_DIR" using c(6) [OF dn] Cons.prems(3,4) by (cases "N1 d") auto
  have "make_entries d xs N1 = Some N'" using Cons.prems(1) fresh c(1) by (simp add: x)
  from Cons.IH [OF this c(2) dn1] obtain kids' dn' where
    k: "tree N' kids'" "N' d = Some dn'" "n_type dn' = FSNODE_DIR" "entries_of N' (kids' d) = entries_of N1 (kids d @ [n]) @ map new_entry xs"
    by auto
  have old: "dirent_of (the (N1 m)) = dirent_of (the (N m))" if m: "m \<in> set (kids d)" for m
  proof -
    obtain md where md: "N m = Some md" using tree_kid [OF Cons.prems(2) m] by blast
    then have "m \<noteq> n" using fresh(1) by auto
    then obtain md1 where "N1 m = Some md1" "n_name md1 = n_name md" "meta md1 = meta md" using c(6) [of m] md by (cases "N1 m") auto
    then show ?thesis using md by (simp add: dirent_of_def meta_def)
  qed
  have "dirent_of nd = new_entry x" using c(4,5) by (simp add: dirent_of_def new_entry_def x meta_def)
  then have "entries_of N1 (kids d @ [n]) = entries_of N (kids d) @ [new_entry x]" using c(3) old by (simp add: entries_of_def)
  then show ?case using k by (intro exI [of _ kids'] exI [of _ dn']) simp
qed

lemma dir_open_nodes: "dir_open dir d (st\<lparr>nodes := N\<rparr>) = dir_open dir d st"
  by (simp add: dir_open_def)

text \<open>C20: when entries are made one after the other in a directory of a memory file system that has any history, a listing of the directory, rewound, ends
  and gives what it gave before, each entry once and in the same order, and behind it the new entries in the order in which they were made.
  Names are shorter than the 256 bytes of \<open>d_name\<close>.\<close>

theorem readdir_lists_directory:
  assumes "mem_reach r (nodes st)" "nodes st d = Some dn" "n_type dn = FSNODE_DIR" "dir_open dir d st" "make_entries d xs (nodes st) = Some N"
    "\<forall>n nd. nodes st n = Some nd \<longrightarrow> length (n_name nd) < 256" "\<forall>(n, ty, name) \<in> set xs. length name < 256"
  shows "\<exists>es r r'. list_dir dir st = Some (es, r) \<and> list_dir dir (st\<lparr>nodes := N\<rparr>) = Some (es @ map new_entry xs, r')"
proof -
  obtain kids where t: "tree (nodes st) kids" using reach_inv [OF assms(1)] by (auto simp: mem_inv_def)
  obtain kids' dn' where k: "tree N kids'" "N d = Some dn'" "n_type dn' = FSNODE_DIR"
    "entries_of N (kids' d) = entries_of (nodes st) (kids d) @ map new_entry xs"
    using make_entries_kids [OF assms(5) t assms(2,3)] by blast
  have old: "length (n_name (the (nodes st n))) < 256" if n: "n \<in> set (kids d)" for n
    by (rule tree_kid [OF t n]) (use assms(6) in simp)
  have "\<forall>e \<in> set (entries_of (nodes st) (kids d) @ map new_entry xs). length (d_name e) < 256"
    using old assms(7) by (auto simp: entries_of_def dirent_of_def new_entry_def split: prod.splits)
  then have new: "\<forall>n \<in> set (kids' d). length (n_name (the (N n))) < 256"
    unfolding k(4) [symmetric] by (auto simp: entries_of_def dirent_of_def)
  obtain r where "list_dir dir st = Some (entries_of (nodes st) (kids d), r)"
    using list_dir_has [OF assms(4) tree_dir [OF t assms(2,3)]] old by (auto simp: entries_of_def)
  moreover obtain r' where "list_dir dir (st\<lparr>nodes := N\<rparr>) = Some (entries_of N (kids' d), r')"
    using list_dir_has [of dir d "st\<lparr>nodes := N\<rparr>" "kids' d"] assms(4) tree_dir [OF k(1-3)] new
    unfolding dir_open_nodes entries_of_def by (simp add: that) (metis that)
  ultimately show ?thesis unfolding k(4) by (intro exI conjI) assumption+
qed

text \<open>An empty directory, opened as node 0, and a file and a directory made in it.\<close>

definition demo_dirs :: vfs where
  "demo_dirs = boot_vfs\<lparr>nodes := new_store 0,
     fsnodes := [0 \<mapsto> \<lparr>fn_fs = 0, fn_type = FSNODE_DIR, fn_data = ODir \<lparr>od_dir = 0, od_cur = None\<rparr>, fn_mnt = None\<rparr>]\<rparr>"

lemma readdir_lists_directory_witness:
  "\<exists>N r r'. make_entries 0 [(1, FSNODE_FILE, [98]), (2, FSNODE_DIR, [97])] (new_store 0) = Some N
    \<and> list_dir \<lparr>dir_fsn = 0, dent = None\<rparr> demo_dirs = Some ([], r)
    \<and> list_dir \<lparr>dir_fsn = 0, dent = None\<rparr> (demo_dirs\<lparr>nodes := N\<rparr>)
      = Some ([\<lparr>d_name = [98], d_type = DT_REG, d_fsize = Some 0\<rparr>, \<lparr>d_name = [97], d_type = DT_DIR, d_fsize = None\<rparr>], r')"
proof -
  let ?xs = "[(1, FSNODE_FILE, [98]), (2, FSNODE_DIR, [97])] :: (nid \<times> fs_type \<times> cstring) list" and ?d = "\<lparr>dir_fsn = 0, dent = None\<rparr>"
  have d: "nodes demo_dirs = new_store 0" "dir_open ?d 0 demo_dirs" by (simp_all add: demo_dirs_def dir_open_def)
  have "\<not> Option.is_none (make_entries 0 ?xs (new_store 0))" by code_simp
  then obtain N where N: "make_entries 0 ?xs (new_store 0) = Some N" by (auto simp: Option.is_none_def)
  have l: "list_dir ?d demo_dirs = Some ([], Some ?d, demo_dirs)"
    by (simp add: list_dir_def demo_dirs_def rewinddir_stream_def fs_rewinddir_def mem_rewinddir_def set_data_def read_entries.simps [of "Some _"]
        readdir_stream_def fs_readdir_def mem_readdir_def new_store_def alloc_node_def)
  have "\<forall>n nd. nodes demo_dirs n = Some nd \<longrightarrow> length (n_name nd) < 256" by (simp add: d new_store_def alloc_node_def)
  then show ?thesis
    using readdir_lists_directory [of 0 demo_dirs 0 _ ?d ?xs N] mem_reach.intros(1) [of 0] d N l
    by (auto simp: new_entry_def new_store_def alloc_node_def)
qed

end
