(* ===== verification/Vbetest.thy ===== *)
theory Vbetest
  imports Video
begin

text \<open>
  The graphics test (\<open>src/test/vbetest.c\<close>): the picture it draws, the mouse cursor that is drawn over it and
  taken away again, the buttons, and the sound it plays. Memory from \<open>framebuf\<close> on is a function on
  the distance in pixels. The loop of \<open>vbetest\<close> is in \<open>Vbe_Loop\<close>.
\<close>

definition CURSOR_XSZ :: nat where "CURSOR_XSZ = 12"
definition CURSOR_YSZ :: nat where "CURSOR_YSZ = 16"

definition cursor :: "u16 list" where "cursor = [
	0xffff, 0x0000, 0x0000, 0x0000, 0x0000, 0x0000, 0x0000, 0x0000, 0x0000, 0x0000, 0x0000, 0x0000,
	0xffff, 0xffff, 0x0000, 0x0000, 0x0000, 0x0000, 0x0000, 0x0000, 0x0000, 0x0000, 0x0000, 0x0000,
	0xffff, 0x0001, 0xffff, 0x0000, 0x0000, 0x0000, 0x0000, 0x0000, 0x0000, 0x0000, 0x0000, 0x0000,
	0xffff, 0x0001, 0x0001, 0xffff, 0x0000, 0x0000, 0x0000, 0x0000, 0x0000, 0x0000, 0x0000, 0x0000,
	0xffff, 0x0001, 0x0001, 0x0001, 0xffff, 0x0000, 0x0000, 0x0000, 0x0000, 0x0000, 0x0000, 0x0000,
	0xffff, 0x0001, 0x0001, 0x0001, 0x0001, 0xffff, 0x0000, 0x0000, 0x0000, 0x0000, 0x0000, 0x0000,
	0xffff, 0x0001, 0x0001, 0x0001, 0x0001, 0x0001, 0xffff, 0x0000, 0x0000, 0x0000, 0x0000, 0x0000,
	0xffff, 0x0001, 0x0001, 0x0001, 0x0001, 0x0001, 0x0001, 0xffff, 0x0000, 0x0000, 0x0000, 0x0000,
	0xffff, 0x0001, 0x0001, 0x0001, 0x0001, 0x0001, 0x0001, 0x0001, 0xffff, 0x0000, 0x0000, 0x0000,
	0xffff, 0x0001, 0x0001, 0x0001, 0x0001, 0x0001, 0xffff, 0xffff, 0xffff, 0xffff, 0x0000, 0x0000,
	0xffff, 0x0001, 0x0001, 0x0001, 0x0001, 0xffff, 0x0000, 0x0000, 0x0000, 0x0000, 0x0000, 0x0000,
	0xffff, 0x0001, 0x0001, 0xffff, 0x0001, 0x0001, 0xffff, 0x0000, 0x0000, 0x0000, 0x0000, 0x0000,
	0xffff, 0x0001, 0xffff, 0xffff, 0x0001, 0x0001, 0xffff, 0x0000, 0x0000, 0x0000, 0x0000, 0x0000,
	0xffff, 0xffff, 0x0000, 0x0000, 0xffff, 0x0001, 0x0001, 0xffff, 0x0000, 0x0000, 0x0000, 0x0000,
	0xffff, 0x0000, 0x0000, 0x0000, 0xffff, 0x0001, 0x0001, 0xffff, 0x0000, 0x0000, 0x0000, 0x0000,
	0x0000, 0x0000, 0x0000, 0x0000, 0x0000, 0xffff, 0xffff, 0x0000, 0x0000, 0x0000, 0x0000, 0x0000]"

type_synonym pixels = "int \<Rightarrow> u16"

record screen =
  framebuf :: pixels
  saved :: "nat \<Rightarrow> u16"
  saved_x :: int
  saved_y :: int
  saved_w :: nat
  saved_h :: nat

section \<open>The cursor\<close>

text \<open>The loops over the columns of a row and over the rows, with the pointers they move on.\<close>

fun restore_row :: "nat \<Rightarrow> int \<Rightarrow> nat \<Rightarrow> (nat \<Rightarrow> u16) \<Rightarrow> pixels \<Rightarrow> pixels" where
  "restore_row 0 dest src sv fb = fb"
| "restore_row (Suc j) dest src sv fb = restore_row j (dest + 1) (src + 1) sv (fb(dest := sv src))"

fun restore_rows :: "nat \<Rightarrow> nat \<Rightarrow> int \<Rightarrow> nat \<Rightarrow> (nat \<Rightarrow> u16) \<Rightarrow> pixels \<Rightarrow> pixels" where
  "restore_rows 0 w dest src sv fb = fb"
| "restore_rows (Suc i) w dest src sv fb =
     restore_rows i w (dest + int w + (640 - int w)) (src + w + (CURSOR_XSZ - w)) sv (restore_row w dest src sv fb)"

fun draw_row :: "nat \<Rightarrow> u16 \<Rightarrow> int \<Rightarrow> nat \<Rightarrow> (nat \<Rightarrow> u16) \<times> pixels \<Rightarrow> (nat \<Rightarrow> u16) \<times> pixels" where
  "draw_row 0 col dest src s = s"
| "draw_row (Suc j) col dest src (sv, fb) = (
     let c = cursor ! src; sv = sv(src := fb dest)
     in draw_row j col (dest + 1) (src + 1) (sv, if c \<noteq> 0 then fb(dest := if c = 1 then col else c) else fb))"

fun draw_rows :: "nat \<Rightarrow> nat \<Rightarrow> u16 \<Rightarrow> int \<Rightarrow> nat \<Rightarrow> (nat \<Rightarrow> u16) \<times> pixels \<Rightarrow> (nat \<Rightarrow> u16) \<times> pixels" where
  "draw_rows 0 w col dest src s = s"
| "draw_rows (Suc i) w col dest src s =
     draw_rows i w col (dest + int w + (640 - int w)) (src + w + (CURSOR_XSZ - w)) (draw_row w col dest src s)"

text \<open>\<open>src\<close> and \<open>savp\<close> move on together.\<close>

definition draw_cursor :: "int \<Rightarrow> int \<Rightarrow> u16 \<Rightarrow> screen \<Rightarrow> screen" where
  "draw_cursor x y col s = (
     let s = (if 0 \<le> saved_x s then
                s\<lparr>framebuf := restore_rows (saved_h s) (saved_w s) (saved_y s * 640 + saved_x s) 0 (saved s) (framebuf s)\<rparr>
              else s);
         w = 640 - x; w = (if w > int CURSOR_XSZ then int CURSOR_XSZ else w);
         h = 480 - y; h = (if h > int CURSOR_YSZ then int CURSOR_YSZ else h);
         s = s\<lparr>saved_x := x, saved_y := y, saved_w := nat w, saved_h := nat h\<rparr>;
         (sv, fb) = draw_rows (nat h) (nat w) col (y * 640 + x) 0 (saved s, framebuf s)
     in s\<lparr>saved := sv, framebuf := fb\<rparr>)"

section \<open>What the cursor leaves behind\<close>

text \<open>The pixels of a rectangle at distance \<open>d\<close>, and the picture with the cursor in it.\<close>

definition inside :: "int \<Rightarrow> nat \<Rightarrow> nat \<Rightarrow> int \<Rightarrow> bool" where
  "inside d w h p \<longleftrightarrow> d \<le> p \<and> (p - d) div 640 < int h \<and> (p - d) mod 640 < int w"

definition slot :: "int \<Rightarrow> int \<Rightarrow> nat" where "slot d p = CURSOR_XSZ * nat ((p - d) div 640) + nat ((p - d) mod 640)"

definition shade :: "u16 \<Rightarrow> u16 \<Rightarrow> u16 \<Rightarrow> u16" where "shade col c old = (if c = 0 then old else if c = 1 then col else c)"

definition with_cursor :: "pixels \<Rightarrow> int \<Rightarrow> int \<Rightarrow> u16 \<Rightarrow> pixels" where
  "with_cursor pic x y col = (\<lambda>p. let d = y * 640 + x in
     if inside d (nat (min (640 - x) 12)) (nat (min (480 - y) 16)) p then shade col (cursor ! slot d p) (pic p) else pic p)"

lemma step_in: "p \<noteq> d \<Longrightarrow> (d + 1 \<le> p \<and> p < d + 1 + int w) = (d \<le> p \<and> p < d + int (Suc w))"
  by auto

lemma step_nat: "d + 1 \<le> p \<Longrightarrow> k + 1 + nat (p - (d + 1)) = k + nat (p - d)"
  by simp

lemma step_nat': "p \<noteq> d \<Longrightarrow> d \<le> p \<and> p < d + int (Suc w) \<Longrightarrow> k + 1 + nat (p - (d + 1)) = k + nat (p - d)"
  by (rule step_nat) simp

lemma restore_row_at: "restore_row w d k sv fb p = (if d \<le> p \<and> p < d + int w then sv (k + nat (p - d)) else fb p)"
proof (induction w arbitrary: d k fb)
  case (Suc w)
  show ?case
  proof (cases "p = d")
    case False
    show ?thesis unfolding restore_row.simps Suc.IH step_in [OF False]
    proof (intro if_cong refl)
      assume h: "d \<le> p \<and> p < d + int (Suc w)"
      show "sv (k + 1 + nat (p - (d + 1))) = sv (k + nat (p - d))" unfolding step_nat' [OF False h] by (rule refl)
    qed (simp add: False)
  next
    case True
    show ?thesis unfolding restore_row.simps Suc.IH using True by simp
  qed
qed auto

lemma draw_row_fb:
  "snd (draw_row w col d k (sv, fb)) p = (if d \<le> p \<and> p < d + int w then shade col (cursor ! (k + nat (p - d))) (fb p) else fb p)"
proof (induction w arbitrary: d k sv fb)
  case (Suc w)
  show ?case
  proof (cases "p = d")
    case False
    show ?thesis unfolding draw_row.simps Let_def Suc.IH step_in [OF False]
    proof (intro if_cong refl)
      assume h: "d \<le> p \<and> p < d + int (Suc w)"
      then show "shade col (cursor ! (k + 1 + nat (p - (d + 1)))) ((if cursor ! k \<noteq> 0 then fb(d := if cursor ! k = 1 then col else cursor ! k) else fb) p)
          = shade col (cursor ! (k + nat (p - d))) (fb p)"
        unfolding step_nat' [OF False h] using False by simp
    qed (simp add: False)
  next
    case True
    show ?thesis unfolding draw_row.simps Let_def Suc.IH using True by (simp add: shade_def)
  qed
qed auto

lemma draw_row_sv:
  "fst (draw_row w col d k (sv, fb)) j = (if k \<le> j \<and> j < k + w then fb (d + int (j - k)) else sv j)"
proof (induction w arbitrary: d k sv fb)
  case (Suc w)
  show ?case
  proof (cases "j = k")
    case False
    have c: "(k + 1 \<le> j \<and> j < k + 1 + w) = (k \<le> j \<and> j < k + Suc w)" using False by auto
    show ?thesis unfolding draw_row.simps Let_def Suc.IH c
    proof (intro if_cong refl)
      assume "k \<le> j \<and> j < k + Suc w"
      then have "d + 1 + int (j - (k + 1)) = d + int (j - k)" "d + int (j - k) \<noteq> d" using False by auto
      then show "(if cursor ! k \<noteq> 0 then fb(d := if cursor ! k = 1 then col else cursor ! k) else fb) (d + 1 + int (j - (k + 1))) = fb (d + int (j - k))"
        by simp
    qed (simp add: False)
  next
    case True
    show ?thesis unfolding draw_row.simps Let_def Suc.IH using True by simp
  qed
qed auto

lemma row_split:
  assumes "w \<le> 640" "\<not> (d \<le> p \<and> p < d + int w)"
  shows "inside (d + 640) w h p = inside d w (Suc h) p"
proof (cases "d \<le> p \<and> p < d + 640")
  case True
  then have "(p - d) div 640 = 0" "(p - d) mod 640 = p - d" "\<not> d + 640 \<le> p" by simp_all
  then show ?thesis using assms(2) True by (simp add: inside_def)
next
  case False
  show ?thesis
  proof (cases "d \<le> p")
    case True
    define q where "q = p - (d + 640)"
    have q: "p - d = q + 640" "d + 640 \<le> p" using True False by (simp_all add: q_def)
    have "(q + 640) div 640 = q div 640 + 1" by (rule div_add_self2) simp
    then show ?thesis unfolding inside_def q(1) q_def [symmetric] using q(2) True by simp
  qed (simp add: inside_def)
qed

lemma row_first:
  assumes "w \<le> 640" "d \<le> p \<and> p < d + int w"
  shows "inside d w (Suc h) p \<and> \<not> inside (d + 640) w h p \<and> slot d p = nat (p - d)"
proof (intro conjI)
  have "(p - d) div 640 = 0" "(p - d) mod 640 = p - d" using assms by simp_all
  then show "inside d w (Suc h) p" "slot d p = nat (p - d)" using assms(2) by (simp_all add: inside_def slot_def)
  show "\<not> inside (d + 640) w h p" using assms by (simp add: inside_def)
qed

lemma slot_next:
  assumes "inside (d + 640) w h p"
  shows "CURSOR_XSZ + slot (d + 640) p = slot d p"
proof -
  define q where "q = p - (d + 640)"
  have q: "0 \<le> q" "p - d = q + 640" using assms by (simp_all add: inside_def q_def)
  have "nat (q div 640 + 1) = nat (q div 640) + 1" using q(1) by (simp add: nat_add_distrib pos_imp_zdiv_nonneg_iff)
  moreover have "(q + 640) div 640 = q div 640 + 1" by (rule div_add_self2) simp
  ultimately show ?thesis unfolding slot_def q(2) q_def [symmetric] by (simp add: algebra_simps)
qed

lemma restore_rows_at:
  assumes "w \<le> CURSOR_XSZ"
  shows "restore_rows h w d k sv fb p = (if inside d w h p then sv (k + slot d p) else fb p)"
proof (induction h arbitrary: d k fb)
  case 0
  have "\<not> inside d w 0 p" by (simp add: inside_def pos_imp_zdiv_neg_iff)
  then show ?case by simp
next
  case (Suc h)
  have w: "w \<le> 640" "k + w + (CURSOR_XSZ - w) = k + CURSOR_XSZ" "d + int w + (640 - int w) = d + 640" using assms by (simp_all add: CURSOR_XSZ_def)
  show ?case
  proof (cases "d \<le> p \<and> p < d + int w")
    case True
    then show ?thesis unfolding restore_rows.simps Suc.IH w(2,3) restore_row_at using row_first [OF w(1) True, of h] by simp
  next
    case False
    then show ?thesis unfolding restore_rows.simps Suc.IH w(2,3) restore_row_at using row_split [OF w(1) False, of h] slot_next [of d w h p] False
      by (cases "inside (d + 640) w h p") (auto simp: add.assoc)
  qed
qed

lemma draw_rows_fb:
  assumes "w \<le> CURSOR_XSZ"
  shows "snd (draw_rows h w col d k s) p = (if inside d w h p then shade col (cursor ! (k + slot d p)) (snd s p) else snd s p)"
proof (induction h arbitrary: d k s)
  case 0
  have "\<not> inside d w 0 p" by (simp add: inside_def pos_imp_zdiv_neg_iff)
  then show ?case by simp
next
  case (Suc h)
  obtain sv fb where s: "s = (sv, fb)" by (cases s)
  have w: "w \<le> 640" "k + w + (CURSOR_XSZ - w) = k + CURSOR_XSZ" "d + int w + (640 - int w) = d + 640" using assms by (simp_all add: CURSOR_XSZ_def)
  show ?case
  proof (cases "d \<le> p \<and> p < d + int w")
    case True
    then show ?thesis unfolding draw_rows.simps Suc.IH w(2,3) s draw_row_fb using row_first [OF w(1) True, of h] by simp
  next
    case False
    then show ?thesis unfolding draw_rows.simps Suc.IH w(2,3) s draw_row_fb using row_split [OF w(1) False, of h] slot_next [of d w h p] False
      by (cases "inside (d + 640) w h p") (auto simp: add.assoc)
  qed
qed

lemma draw_rows_below:
  assumes "w \<le> CURSOR_XSZ" "j < k"
  shows "fst (draw_rows h w col d k s) j = fst s j"
  using assms(2)
proof (induction h arbitrary: d k s)
  case (Suc h)
  obtain sv fb where s: "s = (sv, fb)" by (cases s)
  have "j < k + w + (CURSOR_XSZ - w)" using Suc.prems by simp
  then show ?case unfolding draw_rows.simps Suc.IH [OF \<open>j < k + w + (CURSOR_XSZ - w)\<close>] s draw_row_sv using Suc.prems by simp
qed simp

lemma draw_rows_sv:
  assumes "w \<le> CURSOR_XSZ" "inside d w h p"
  shows "fst (draw_rows h w col d k s) (k + slot d p) = snd s p"
  using assms(2)
proof (induction h arbitrary: d k s)
  case 0
  then show ?case by (auto simp: inside_def pos_imp_zdiv_neg_iff)
next
  case (Suc h)
  obtain sv fb where s: "s = (sv, fb)" by (cases s)
  have w: "w \<le> 640" "k + w + (CURSOR_XSZ - w) = k + CURSOR_XSZ" "d + int w + (640 - int w) = d + 640" using assms(1) by (simp_all add: CURSOR_XSZ_def)
  show ?case
  proof (cases "d \<le> p \<and> p < d + int w")
    case True
    have sl: "slot d p = nat (p - d)" using row_first [OF w(1) True] by blast
    have lt: "nat (p - d) < w" "int (nat (p - d)) = p - d" using True by auto
    then have "k + slot d p < k + CURSOR_XSZ" using assms(1) sl by simp
    from draw_rows_below [OF assms(1) this] show ?thesis
      unfolding draw_rows.simps w(2,3) s using lt sl by (simp add: draw_row_sv)
  next
    case False
    have i: "inside (d + 640) w h p" using row_split [OF w(1) False] Suc.prems by simp
    show ?thesis unfolding draw_rows.simps w(2,3) s
      using Suc.IH [OF i, of "k + CURSOR_XSZ" "draw_row w col d k (sv, fb)"] slot_next [OF i] False
      by (simp add: add.assoc draw_row_fb)
  qed
qed

text \<open>The screen shows the picture, but for the pixels under the cursor, which are saved.\<close>

definition over :: "pixels \<Rightarrow> screen \<Rightarrow> bool" where
  "over pic s \<longleftrightarrow> saved_w s \<le> CURSOR_XSZ \<and> (let d = saved_y s * 640 + saved_x s in
     \<forall>p. if 0 \<le> saved_x s \<and> inside d (saved_w s) (saved_h s) p then saved s (slot d p) = pic p else framebuf s p = pic p)"

lemma draw_cursor_over:
  assumes "over pic s" "0 \<le> x"
  shows "over pic (draw_cursor x y col s)" "framebuf (draw_cursor x y col s) = with_cursor pic x y col"
proof -
  define s1 where "s1 = (if 0 \<le> saved_x s then
      s\<lparr>framebuf := restore_rows (saved_h s) (saved_w s) (saved_y s * 640 + saved_x s) 0 (saved s) (framebuf s)\<rparr> else s)"
  define w where "w = nat (min (640 - x) 12)"
  define h where "h = nat (min (480 - y) 16)"
  have wh: "nat (if 640 - x > int CURSOR_XSZ then int CURSOR_XSZ else 640 - x) = w" "nat (if 480 - y > int CURSOR_YSZ then int CURSOR_YSZ else 480 - y) = h"
    by (simp_all add: w_def h_def CURSOR_XSZ_def CURSOR_YSZ_def min_def)
  have w12: "w \<le> CURSOR_XSZ" "saved_w s \<le> CURSOR_XSZ" using assms(1) by (simp_all add: w_def CURSOR_XSZ_def over_def)
  have pic: "framebuf s1 = pic"
  proof
    fix p show "framebuf s1 p = pic p"
      using assms(1) unfolding over_def Let_def s1_def by (auto simp: restore_rows_at [OF w12(2)] split: if_splits)
  qed
  let ?r = "draw_rows h w col (y * 640 + x) 0 (saved s1, pic)"
  have e: "draw_cursor x y col s = s1\<lparr>saved_x := x, saved_y := y, saved_w := w, saved_h := h, saved := fst ?r, framebuf := snd ?r\<rparr>"
    unfolding draw_cursor_def Let_def wh s1_def [symmetric] using pic by (simp add: case_prod_beta)
  have fb: "snd ?r p = (if inside (y * 640 + x) w h p then shade col (cursor ! slot (y * 640 + x) p) (pic p) else pic p)" for p
    using draw_rows_fb [OF w12(1), of h col "y * 640 + x" 0 "(saved s1, pic)" p] by simp
  have sv: "inside (y * 640 + x) w h p \<Longrightarrow> fst ?r (slot (y * 640 + x) p) = pic p" for p
    using draw_rows_sv [OF w12(1), of "y * 640 + x" h p col 0 "(saved s1, pic)"] by simp
  show "framebuf (draw_cursor x y col s) = with_cursor pic x y col"
    unfolding e with_cursor_def Let_def w_def [symmetric] h_def [symmetric] using fb by auto
  show "over pic (draw_cursor x y col s)" unfolding e over_def Let_def using fb sv w12(1) assms(2) by simp
qed

text \<open>However the cursor has been moved, the screen shows the picture with the cursor at its last position and nothing
  of it anywhere else.\<close>

theorem cursor_leaves_picture:
  assumes "over pic s" "\<forall>(x, y, col) \<in> set ms. 0 \<le> x" "0 \<le> x"
  shows "framebuf (fold (\<lambda>(x, y, col). draw_cursor x y col) (ms @ [(x, y, col)]) s) = with_cursor pic x y col"
proof -
  have "over pic (fold (\<lambda>(x, y, col). draw_cursor x y col) ms s)"
    using assms(1,2) by (induction ms arbitrary: s) (auto simp: draw_cursor_over)
  then show ?thesis using draw_cursor_over(2) assms(3) by simp
qed

definition blank_screen :: screen where
  "blank_screen = \<lparr>framebuf = (\<lambda>_. 7), saved = (\<lambda>_. 0), saved_x = -1, saved_y = 0, saved_w = 0, saved_h = 0\<rparr>"

lemma cursor_leaves_picture_witness:
  "framebuf (fold (\<lambda>(x, y, col). draw_cursor x y col) ([(635, 470, 0), (0, 0, 5)] @ [(100, 479, 0xf800)]) blank_screen) = with_cursor (\<lambda>_. 7) 100 479 0xf800"
  by (rule cursor_leaves_picture) (simp_all add: over_def blank_screen_def)

text \<open>A position on the screen keeps the cursor on it.\<close>

lemma cursor_on_screen:
  assumes "0 \<le> x" "x < 640" "0 \<le> y" "y < 480" "inside (y * 640 + x) (nat (min (640 - x) 12)) (nat (min (480 - y) 16)) p"
  shows "0 \<le> p" "p < 640 * 480"
proof -
  let ?q = "p - (y * 640 + x)"
  have q: "0 \<le> ?q" "?q div 640 < 480 - y" "?q mod 640 < 640 - x" using assms by (simp_all add: inside_def)
  have "?q = 640 * (?q div 640) + ?q mod 640" by simp
  moreover have "640 * (?q div 640) \<le> 640 * (479 - y)" using q(2) by simp
  ultimately have "?q < 640 * (479 - y) + (640 - x)" using q(3) by linarith
  then show "p < 640 * 480" by simp
  show "0 \<le> p" using q(1) assms(1,3) by simp
qed

section \<open>The picture\<close>

text \<open>A component of 8 bits as a mode has it: its upper bits, moved to their place and cut to the mask. A component of more than
  8 bits is undefined.\<close>

definition color_component :: "u16 \<Rightarrow> u8 \<Rightarrow> u8 \<Rightarrow> u32 \<Rightarrow> u32" where
  "color_component c bits shft msk = push_bit (unat shft) (ucast (drop_bit (8 - unat bits) c)) AND msk"

definition pack :: "video_mode \<Rightarrow> int \<Rightarrow> int \<Rightarrow> u16" where
  "pack vi i j = (
     let x = i XOR j;
         r = word_of_int (x AND 0xff); g = word_of_int (push_bit 1 x AND 0xff); b = word_of_int (push_bit 2 x AND 0xff)
     in ucast (color_component r (rbits vi) (rshift vi) (rmask vi) OR color_component g (gbits vi) (gshift vi) (gmask vi)
          OR color_component b (bbits vi) (bshift vi) (bmask vi)))"

text \<open>The two loops, with the pointer they move on.\<close>

fun fill_row :: "video_mode \<Rightarrow> int \<Rightarrow> nat list \<Rightarrow> int \<times> pixels \<Rightarrow> int \<times> pixels" where
  "fill_row vi i [] s = s"
| "fill_row vi i (j # js) (ptr, fb) = fill_row vi i js (ptr + 1, fb(ptr := pack vi i (int j)))"

fun fill_rows :: "video_mode \<Rightarrow> nat list \<Rightarrow> int \<times> pixels \<Rightarrow> int \<times> pixels" where
  "fill_rows vi [] s = s"
| "fill_rows vi (i # is) s = fill_rows vi is (fill_row vi (int i) [0..<640] s)"

text \<open>The components of a pixel do not touch each other when their masks do not.\<close>

lemma component_bits:
  assumes "color_mask bits shft = Some msk" "unat c < 256" "unat shft + unat bits \<le> 32"
  shows "drop_bit (unat shft) (color_component c bits shft msk) = ucast (drop_bit (8 - unat bits) c)"
proof (rule bit_word_eqI)
  fix n assume "n < LENGTH(32)"
  have m: "bit msk i \<longleftrightarrow> i < 32 \<and> unat shft \<le> i \<and> i < unat shft + unat bits" for i by (rule color_mask_bits [OF assms(1)])
  have b: "unat bits \<le> 8" using assms(1) by (auto simp: color_mask_def maskbits_def split: if_splits)
  have high: "\<not> bit c k" if "8 \<le> k" for k
  proof -
    have "unat c < 2 ^ k" using assms(2) power_increasing [OF that, of "2 :: nat"] by simp
    then have "\<not> bit (unat c) k" by (simp add: bit_iff_odd)
    then show ?thesis using bit_imp_le_length [of c k] by (auto simp: bit_unsigned_iff)
  qed
  have "bit c (n + (8 - unat bits)) \<Longrightarrow> n < unat bits" using high [of "n + (8 - unat bits)"] b by linarith
  then show "bit (drop_bit (unat shft) (color_component c bits shft msk)) n \<longleftrightarrow> bit (ucast (drop_bit (8 - unat bits) c) :: u32) n"
    using assms(3) by (auto simp: color_component_def bit_simps m ac_simps)
qed

lemma fill_row_at:
  "fill_row vi i [a..<a + n] (p, fb) = (p + int n, \<lambda>q. if p \<le> q \<and> q < p + int n then pack vi i (int a + (q - p)) else fb q)"
proof (induction n arbitrary: a p fb)
  case (Suc n)
  have "[a..<a + Suc n] = a # [Suc a..<Suc a + n]" by (simp add: upt_conv_Cons del: upt_Suc)
  then show ?case using Suc.IH [of "Suc a" "p + 1"] by (auto simp: fun_eq_iff algebra_simps)
qed (auto simp: fun_eq_iff)

lemma fill_rows_at:
  assumes "p = 640 * int a"
  shows "fill_rows vi [a..<a + n] (p, fb) = (640 * int (a + n),
    \<lambda>q. if p \<le> q \<and> q < 640 * int (a + n) then pack vi (q div 640) (q mod 640) else fb q)"
  using assms
proof (induction n arbitrary: a p fb)
  case (Suc n)
  have u: "[a..<a + Suc n] = a # [Suc a..<Suc a + n]" by (simp add: upt_conv_Cons del: upt_Suc)
  have row: "fill_row vi (int a) [0..<640] (p, fb) = (640 * int (Suc a), \<lambda>q. if p \<le> q \<and> q < p + 640 then pack vi (int a) (q - p) else fb q)"
    using fill_row_at [of vi "int a" 0 640 p fb] Suc.prems by (simp cong: if_cong)
  have dm: "q div 640 = int a \<and> q mod 640 = q - p" if "p \<le> q" "q < p + 640" for q
  proof -
    define r where "r = q - p"
    have r: "q = r + int a * 640" "0 \<le> r" "r < 640" "q - p = r" using that Suc.prems by (simp_all add: r_def)
    then show ?thesis unfolding r(4) unfolding r(1) by simp
  qed
  show ?case unfolding u fill_rows.simps row Suc.IH [OF refl]
  proof (intro arg_cong2 [where f = Pair] ext)
    fix q
    consider "q < p" | "p \<le> q" "q < p + 640" | "p + 640 \<le> q" by linarith
    then show "(if 640 * int (Suc a) \<le> q \<and> q < 640 * int (Suc a + n) then pack vi (q div 640) (q mod 640)
        else if p \<le> q \<and> q < p + 640 then pack vi (int a) (q - p) else fb q)
      = (if p \<le> q \<and> q < 640 * int (a + Suc n) then pack vi (q div 640) (q mod 640) else fb q)"
      using Suc.prems by cases (simp_all add: dm)
  qed simp
qed (auto simp: fun_eq_iff)

lemma picture_at:
  assumes "0 \<le> i" "i < 480" "0 \<le> j" "j < 640"
  shows "snd (fill_rows vi [0..<480] (0, fb)) (640 * i + j) = pack vi i j"
  using fill_rows_at [of 0 0 vi 480 fb] assms by simp

section \<open>Buttons and sound\<close>

text \<open>A button that was not down before sets \<open>click\<close>; the sound goes to the buffer that the audio driver passes.\<close>

definition button_pressed :: "u32 \<Rightarrow> u32 \<Rightarrow> bool" where
  "button_pressed st prev \<longleftrightarrow> (\<exists>i \<in> {0, 1, 2}. ((st AND push_bit i 1) XOR (prev AND push_bit i 1)) AND (st AND push_bit i 1) \<noteq> 0)"

definition cursor_color :: "u32 \<Rightarrow> u16" where
  "cursor_color st = (if st AND 1 \<noteq> 0 then 0xf800 else if st AND 2 \<noteq> 0 then 0x7e0 else if st AND 4 \<noteq> 0 then 0x00ff else 0)"

definition click_sound_callback :: "u32 \<Rightarrow> int \<Rightarrow> u32 \<Rightarrow> bool \<times> ram \<Rightarrow> int \<times> bool \<times> ram" where
  "click_sound_callback snd_click snd_click_size buf s = (case s of (click, m) \<Rightarrow>
     if click then (snd_click_size, False, memcpy m buf snd_click (word_of_int snd_click_size)) else (0, click, m))"

text \<open>The sound is played once: the next call has no more data.\<close>

lemma click_once:
  "fst (click_sound_callback a n buf (snd (click_sound_callback a n buf s))) = 0"
  by (cases s) (simp add: click_sound_callback_def)

end
