(* ===== verification/Boot.thy ===== *)
theory Boot
  imports Bootdev
begin

text \<open>
  The boot drive under the FAT file system: what \<open>read_sectors\<close> of \<open>src/fsfat.c\<close> gets when it reads through
  \<open>bdev_read_range\<close> of \<open>src/bootdev.c\<close>, and so what is mounted, opened and read when the machine starts.
\<close>

text \<open>A read of \<open>n\<close> sectors into the buffer \<open>buf\<close>, and the bytes that are then in it.\<close>

definition boot_reader :: "'w bios \<Rightarrow> u32 \<Rightarrow> u32 \<Rightarrow> u32 \<Rightarrow> 'w bdev \<Rightarrow> reader" where
  "boot_reader bios lmb bd buf st = (\<lambda>lba n.
     (case bdev_read_range bios lmb bd lba n buf st of
        Some (Inr (r, st')) \<Rightarrow> (if r = -1 then -1 else 0, map (\<lambda>i. bram st' (buf + of_nat i)) [0..<512 * nat n])
      | _ \<Rightarrow> (-1, [])))"

text \<open>A hard drive with the BIOS extensions whose reads meet no error, a transfer buffer on a paragraph below 640k, and a buffer apart from it. On a
  floppy drive the second access already works on a released alarm (lemma \<open>floppy_second_access\<close>). What the BIOS does to memory of its own, to
  registers and to its state is left open.\<close>

definition boot_setup :: "'w bios \<Rightarrow> u32 \<Rightarrow> u32 \<Rightarrow> u32 \<Rightarrow> 'w bdev \<Rightarrow> (u64 \<Rightarrow> u8 list) \<Rightarrow> u32 set \<Rightarrow> bool" where
  "boot_setup bios lmb bd buf st sector own \<longleftrightarrow> bios_reads bios bd sector own
     \<and> (\<forall>w m. \<not> carry (fst (bios 0x13 (lba_regs lmb bd) w m))) \<and> have_bios_ext st \<and> \<not> bdev_is_floppy st
     \<and> (\<exists>s :: u16. lmb = 16 * ucast s \<and> unat s \<le> 0x9fe0) \<and> unat buf + 512 * 127 \<le> 2 ^ 32
     \<and> unat lmb + 16 + 512 * 127 \<le> unat buf \<and> (\<forall>s. length (sector s) = 512)"

lemma boot_read:
  assumes "boot_setup bios lmb bd buf st sector own" "k \<le> 127"
  shows "\<exists>st'. bdev_read_range bios lmb bd lba (int k) buf st = Some (Inr (int k, st'))
    \<and> (\<forall>i < 512 * k. bram st' (buf + of_nat i) = span sector lba k ! i) \<and> boot_setup bios lmb bd buf st' sector own"
proof -
  obtain s :: u16 where s: "lmb = 16 * ucast s" "unat s \<le> 0x9fe0" using assms by (auto simp: boot_setup_def)
  then have s': "unat s < 0xa000" by simp
  have b: "unat buf + 512 * k \<le> 2 ^ 32" "unat buf + 512 * k \<le> unat lmb \<or> unat lmb + 16 + 512 * k \<le> unat buf"
    using assms by (auto simp: boot_setup_def)
  have h: "bios_reads bios bd sector own" "have_bios_ext st" "touch_motors st \<noteq> None" using assms by (simp_all add: boot_setup_def touch_motors_def)
  have e: "False = carry (fst (bios 0x13 (lba_regs lmb bd) (world st) (put_dap lmb (of_nat k) (ucast (drop_bit 4 (lmb + 16))) lba (bram st))))"
    using assms(1) by (simp add: boot_setup_def)
  from read_range_lba [OF h s(1) s' assms(2) b e] obtain st' where
    st': "bdev_read_range bios lmb bd lba (int k) buf st = Some (Inr (int k, st'))" "\<forall>i < 512 * k. bram st' (buf + of_nat i) = span sector lba k ! i"
      "have_bios_ext st'" "bdev_is_floppy st' = bdev_is_floppy st" by auto
  moreover have "boot_setup bios lmb bd buf st' sector own" using assms(1) st'(3,4) unfolding boot_setup_def by simp
  ultimately show ?thesis by blast
qed

lemma boot_reader_device:
  assumes "boot_setup bios lmb bd buf st sector own"
  shows "device (boot_reader bios lmb bd buf st) sector"
  unfolding device_def
proof (intro conjI allI impI)
  have len: "\<forall>s. length (sector s) = 512" using assms by (simp add: boot_setup_def)
  then show "length (sector s) = 512" for s by blast
  fix lba and n :: int assume n: "0 \<le> n \<and> n \<le> 127"
  define k where "k = nat n"
  have k: "n = int k" "k \<le> 127" using n unfolding k_def by linarith+
  obtain st' where st': "bdev_read_range bios lmb bd lba (int k) buf st = Some (Inr (int k, st'))" "\<forall>i < 512 * k. bram st' (buf + of_nat i) = span sector lba k ! i"
    using boot_read [OF assms k(2)] by blast
  have "map (\<lambda>i. bram st' (buf + of_nat i)) [0..<512 * k] = span sector lba k"
    using st'(2) length_span [OF len, of lba k] by (intro nth_equalityI) simp_all
  then show "boot_reader bios lmb bd buf st lba n = (0, span sector lba (nat n))"
    unfolding k(1) by (simp add: boot_reader_def st'(1))
qed

text \<open>The reader starts each read from the state \<open>st\<close>. It makes no difference when it goes on from the state that the read before has left.\<close>

lemma boot_reader_goes_on:
  assumes "boot_setup bios lmb bd buf st sector own" "k \<le> 127" "bdev_read_range bios lmb bd lba (int k) buf st = Some (Inr (r, st'))"
    "0 \<le> n" "n \<le> 127"
  shows "boot_reader bios lmb bd buf st' l n = boot_reader bios lmb bd buf st l n"
proof -
  have "boot_setup bios lmb bd buf st' sector own" using boot_read [OF assms(1,2), of lba] assms(3) by auto
  from boot_reader_device [OF this] boot_reader_device [OF assms(1)] show ?thesis using assms(4,5) by (simp add: device_def)
qed

text \<open>The bytes of a cluster.\<close>

definition cluster_bytes :: "(u64 \<Rightarrow> u8 list) \<Rightarrow> fatfs \<Rightarrow> int \<Rightarrow> u8 list" where
  "cluster_bytes sector fs c = span sector (cluster_sector fs (word_of_int c)) (nat (cluster_size fs))"

lemma device_cluster:
  assumes "device rd sector" "dev fs = -1 \<or> dev fs = bd" "0 \<le> cluster_size fs" "cluster_size fs \<le> 127"
  shows "cluster_data rd bd fs c = cluster_bytes sector fs c"
  using assms by (auto simp: cluster_data_def read_cluster_def read_sectors_def device_def cluster_bytes_def)

lemma device_stored:
  assumes "device rd sector" "dev fs = -1 \<or> dev fs = bd" "geometry fs k" "cluster_size fs \<le> 127" "chain fs cs" "n \<le> length cs * 2 ^ k" "n < 2 ^ 32"
  shows "stored rd bd fs k cs n"
proof -
  have c: "cluster_size fs * 512 = 2 ^ k" using assms(3) by (simp add: geometry_def)
  then have pos: "0 \<le> cluster_size fs" by (metis zero_le_mult_iff zero_le_numeral zero_le_power not_numeral_le_zero)
  have "int (512 * nat (cluster_size fs)) = int (2 ^ k)" using c pos by simp
  then have "512 * nat (cluster_size fs) = 2 ^ k" by (simp only: of_nat_eq_iff)
  moreover have "length (cluster_bytes sector fs c) = 512 * nat (cluster_size fs)" for c
    unfolding cluster_bytes_def by (rule length_span) (use assms(1) in \<open>simp add: device_def\<close>)
  ultimately show ?thesis using assms device_cluster [OF assms(1,2) pos assms(4)] by (simp add: stored_def)
qed



end
