(* ===== verification/Fat_Release.thy ===== *)
theory Fat_Release
  imports Fat_Mount
begin

text \<open>
  Which memory the FAT file system holds (\<open>open\<close>, \<open>load_dir\<close>, \<open>init_file\<close>, \<open>free_dir\<close>, \<open>free_file\<close> and \<open>close\<close> of
  \<open>src/fsfat.c\<close>). Each \<open>malloc\<close> hands out a block with a number of its own, each \<open>free\<close> takes one back, and an access to a
  block that is not handed out is \<open>None\<close>. What is computed from the contents is in the theory \<open>Fat\<close>; here a directory structure also has the
  blocks of its entries, of its array of names and of the names, and its reference count. Allocations are taken to succeed, and
  the structures of the mounted file system itself are taken to stay.
\<close>

type_synonym blk = nat

record dir_obj =
  o_dir :: fat_dir
  o_ent :: blk
  o_fsent :: blk
  o_names :: "blk list"
  o_ref :: int

record fat_heap =
  live :: "blk set"
  next_blk :: blk
  dir_at :: "blk \<Rightarrow> dir_obj"

definition grab_block :: "fat_heap \<Rightarrow> blk \<times> fat_heap" where
  "grab_block h = (next_blk h, h\<lparr>live := insert (next_blk h) (live h), next_blk := Suc (next_blk h)\<rparr>)"

fun grab_blocks :: "nat \<Rightarrow> fat_heap \<Rightarrow> blk list \<times> fat_heap" where
  "grab_blocks 0 h = ([], h)"
| "grab_blocks (Suc n) h = (let (b, h) = grab_block h; (bs, h) = grab_blocks n h in (b # bs, h))"

definition free_block :: "blk \<Rightarrow> fat_heap \<Rightarrow> fat_heap option" where
  "free_block b h = (if b \<in> live h then Some (h\<lparr>live := live h - {b}\<rparr>) else None)"

fun free_blocks :: "blk list \<Rightarrow> fat_heap \<Rightarrow> fat_heap option" where
  "free_blocks [] h = Some h"
| "free_blocks (b # bs) h = Option.bind (free_block b h) (free_blocks bs)"

definition set_dir :: "blk \<Rightarrow> dir_obj \<Rightarrow> fat_heap \<Rightarrow> fat_heap" where
  "set_dir d obj h = h\<lparr>dir_at := (dir_at h)(d := obj)\<rparr>"

section \<open>The operations\<close>

definition load_dir_h :: "reader \<Rightarrow> int \<Rightarrow> fatfs \<Rightarrow> fat_dirent \<Rightarrow> fat_heap \<Rightarrow> (blk option \<times> fat_heap) option" where
  "load_dir_h rd bd fs fe h =
     (case load_dir rd bd fs fe of
        None \<Rightarrow> None
      | Some None \<Rightarrow> Some (None, h)
      | Some (Some c) \<Rightarrow>
          let (buf, h) = grab_block h; (d, h) = grab_block h; (fse, h) = grab_block h;
              (ns, h) = grab_blocks (length (fsent c)) h
          in Some (Some d, set_dir d \<lparr>o_dir = c, o_ent = buf, o_fsent = fse, o_names = ns, o_ref = 0\<rparr> h))"

definition free_dir_h :: "blk \<Rightarrow> blk \<Rightarrow> fat_heap \<Rightarrow> fat_heap option" where
  "free_dir_h root d h =
     (if d \<notin> live h \<or> root \<notin> live h then None
      else let obj = dir_at h d; obj = obj\<lparr>o_ref := o_ref obj - 1\<rparr>; h = set_dir d obj h
        in if 0 < o_ref obj then Some h
           else if o_ent obj \<noteq> o_ent (dir_at h root) then free_blocks ([o_ent obj] @ o_names obj @ [o_fsent obj, d]) h
           else free_block d h)"

text \<open>The directory, its entries and its names can be read.\<close>

definition blocks :: "dir_obj \<Rightarrow> blk set" where
  "blocks obj = insert (o_ent obj) (insert (o_fsent obj) (set (o_names obj)))"

definition readable :: "fat_heap \<Rightarrow> blk \<Rightarrow> bool" where
  "readable h d \<longleftrightarrow> d \<in> live h \<and> blocks (dir_at h d) \<subseteq> live h"

text \<open>\<open>cwd\<close> is \<open>cwdnode\<close>: null, a node of another file system, or a directory of this one. An entry goes with the
  block it lies in, since the pointer \<open>fatdent\<close> is kept. The body of the loop of \<open>open\<close> for a component that is not
  \<open>.\<close> gives the next directory, null for a file, and that entry; or the error with which \<open>open\<close> returns.\<close>

type_synonym cwdnode = "blk option option"
type_synonym entptr = "fat_dirent \<times> blk"

definition open_step :: "reader \<Rightarrow> int \<Rightarrow> fatfs \<Rightarrow> blk \<Rightarrow> cwdnode \<Rightarrow> blk \<Rightarrow> cstring \<Rightarrow> fat_heap \<Rightarrow>
    ((int option + blk option \<times> entptr) \<times> fat_heap) option" where
  "open_step rd bd fs root cwd d name h =
     (if \<not> readable h d then None
      else case find_entry (o_dir (dir_at h d)) name of
          None \<Rightarrow> Some (Inl (Some ENOENT), h)
        | Some e \<Rightarrow>
            let fe = de_data e; p = (fe, o_ent (dir_at h d))
            in if dent_clust_low fe OR dent_clust_high fe = 0 \<and> dent_attr fe AND ATTR_DIR = 0 then Some (Inl None, h)
               else case (if dent_clust_low fe OR dent_clust_high fe = 0 then Some (Some root, h)
                          else if dent_attr fe AND ATTR_DIR \<noteq> 0 then load_dir_h rd bd fs fe h
                          else Some (None, h)) of
                   None \<Rightarrow> None
                 | Some (newdir, h) \<Rightarrow>
                     if d = root then Some (Inr (newdir, p), h)
                     else case cwd of
                         None \<Rightarrow> None
                       | Some c \<Rightarrow> if c = Some d then Some (Inr (newdir, p), h)
                           else map_option (\<lambda>h. (Inr (newdir, p), h)) (free_dir_h root d h))"

function open_walk_h :: "reader \<Rightarrow> int \<Rightarrow> fatfs \<Rightarrow> blk \<Rightarrow> cwdnode \<Rightarrow> blk option \<Rightarrow> entptr option \<Rightarrow> cstring \<Rightarrow> fat_heap \<Rightarrow>
    ((int option + blk option \<times> entptr option) \<times> fat_heap) option" where
  "open_walk_h rd bd fs root cwd dir p path h =
     (if path = [] then Some (Inr (dir, p), h)
      else case dir of
          None \<Rightarrow> Some (Inl (Some ENOTDIR), h)
        | Some d \<Rightarrow>
            let name = fst (fs_path_next path MAX_NAME); rest = snd (fs_path_next path MAX_NAME)
            in if name = [46] then open_walk_h rd bd fs root cwd dir p rest h
               else case open_step rd bd fs root cwd d name h of
                   None \<Rightarrow> None
                 | Some (Inl e, h) \<Rightarrow> Some (Inl e, h)
                 | Some (Inr (newdir, q), h) \<Rightarrow> open_walk_h rd bd fs root cwd newdir (Some q) rest h)"
  by auto
termination
  by (relation "measure (\<lambda>(rd, bd, fs, r, c, d, p, path, h). length path)") (simp_all add: path_next_shorter)

declare open_walk_h.simps [simp del]

text \<open>An open node is its own block and the directory, or the two blocks of a file.\<close>

datatype node_h = DirH blk blk | FileH blk blk blk fat_file

definition init_file_h :: "entptr \<Rightarrow> fat_heap \<Rightarrow> (blk \<times> blk \<times> fat_file \<times> fat_heap) option" where
  "init_file_h p h = (
     let (f, h) = grab_block h; (buf, h) = grab_block h
     in if snd p \<in> live h then Some (f, buf, init_file (fst p), h) else None)"

definition finish_open :: "blk \<Rightarrow> blk option \<Rightarrow> entptr option \<Rightarrow> fat_heap \<Rightarrow> (node_h \<times> fat_heap) option" where
  "finish_open root dir p h = (
     let (node, h) = grab_block h
     in case dir of
          Some d \<Rightarrow>
            if d \<notin> live h then None
            else
              let (d, h) = (if d = root then
                    let (b, h) = grab_block h in (b, set_dir b ((dir_at h d)\<lparr>o_ref := 0\<rparr>) h)
                  else (d, h));
                obj = dir_at h d
              in Some (DirH node d, set_dir d (obj\<lparr>o_dir := (o_dir obj)\<lparr>cur_ent := 0\<rparr>, o_ref := o_ref obj + 1\<rparr>) h)
        | None \<Rightarrow>
            (case p of
               None \<Rightarrow> None
             | Some p \<Rightarrow> map_option (\<lambda>(f, buf, c, h). (FileH node f buf c, h)) (init_file_h p h)))"

definition fat_open_h :: "reader \<Rightarrow> int \<Rightarrow> fatfs \<Rightarrow> blk \<Rightarrow> cwdnode \<Rightarrow> cstring \<Rightarrow> fat_heap \<Rightarrow>
    ((int option + node_h) \<times> fat_heap) option" where
  "fat_open_h rd bd fs root cwd path h = (
     let start = (if path \<noteq> [] \<and> hd path = 47 then Some (Some (root, fs_path_skipsep path))
                  else map_option (map_option (\<lambda>d. (d, path))) cwd)
     in case start of
          None \<Rightarrow> None
        | Some None \<Rightarrow> Some (Inl None, h)
        | Some (Some (d, path)) \<Rightarrow>
            (case open_walk_h rd bd fs root cwd (Some d) None path h of
               None \<Rightarrow> None
             | Some (Inl e, h) \<Rightarrow> Some (Inl e, h)
             | Some (Inr (dir, p), h) \<Rightarrow> map_option (\<lambda>(n, h). (Inr n, h)) (finish_open root dir p h)))"

definition free_file_h :: "blk \<Rightarrow> blk \<Rightarrow> fat_heap \<Rightarrow> fat_heap option" where
  "free_file_h f buf h = Option.bind (free_block buf h) (free_block f)"

definition fat_close_h :: "blk \<Rightarrow> node_h \<Rightarrow> fat_heap \<Rightarrow> fat_heap option" where
  "fat_close_h root n h =
     (case n of
        FileH node f buf c \<Rightarrow> Option.bind (free_file_h f buf h) (free_block node)
      | DirH node d \<Rightarrow> Option.bind (free_dir_h root d h) (free_block node))"

section \<open>Blocks\<close>

lemma grab_blocks_eq:
  "grab_blocks n h = ([next_blk h..<next_blk h + n], h\<lparr>live := live h \<union> {next_blk h..<next_blk h + n}, next_blk := next_blk h + n\<rparr>)"
proof (induction n arbitrary: h)
  case (Suc n)
  have "[next_blk h..<next_blk h + Suc n] = next_blk h # [Suc (next_blk h)..<Suc (next_blk h) + n]"
    by (simp add: upt_conv_Cons del: upt_Suc)
  moreover have "{next_blk h..<next_blk h + Suc n} = insert (next_blk h) {Suc (next_blk h)..<Suc (next_blk h) + n}"
    by auto
  ultimately show ?case by (simp add: grab_block_def Suc.IH)
qed simp

lemma free_blocks_ok:
  assumes "distinct bs" "set bs \<subseteq> live h"
  shows "free_blocks bs h = Some (h\<lparr>live := live h - set bs\<rparr>)"
  using assms
proof (induction bs arbitrary: h)
  case (Cons b bs)
  have "set bs \<subseteq> live (h\<lparr>live := live h - {b}\<rparr>)" using Cons.prems by auto
  from Cons.IH [OF _ this] show ?case using Cons.prems by (simp add: free_block_def Diff_insert2 [symmetric])
qed simp

definition loaded :: "fat_dir \<Rightarrow> fat_heap \<Rightarrow> fat_heap" where
  "loaded c h = (let k = next_blk h; n = length (fsent c) in
     h\<lparr>live := live h \<union> {k..<k + 3 + n}, next_blk := k + 3 + n,
       dir_at := (dir_at h)(Suc k := \<lparr>o_dir = c, o_ent = k, o_fsent = k + 2, o_names = [k + 3..<k + 3 + n], o_ref = 0\<rparr>)\<rparr>)"

lemma load_dir_h_eq:
  assumes "load_dir rd bd fs fe = Some (Some c)"
  shows "load_dir_h rd bd fs fe h = Some (Some (Suc (next_blk h)), loaded c h)"
proof -
  let ?k = "next_blk h" and ?n = "length (fsent c)"
  have "{?k..<?k + 3 + ?n} = insert ?k (insert (Suc ?k) (insert (Suc (Suc ?k)) {?k + 3..<?k + 3 + ?n}))" by auto
  then have "live h \<union> {?k..<?k + 3 + ?n} = insert (Suc (Suc ?k)) (insert (Suc ?k) (insert ?k (live h))) \<union> {?k + 3..<?k + 3 + ?n}" by blast
  then show ?thesis using assms
    by (simp add: load_dir_h_def grab_block_def grab_blocks_eq set_dir_def loaded_def Let_def numeral_3_eq_3)
qed

section \<open>What is held during a walk\<close>

definition own :: "fat_heap \<Rightarrow> blk \<Rightarrow> blk set" where
  "own h d = insert d (blocks (dir_at h d))"

definition heap_ok :: "blk \<Rightarrow> cwdnode \<Rightarrow> fat_heap \<Rightarrow> bool" where
  "heap_ok root cwd h \<longleftrightarrow> (\<forall>x \<in> live h. x < next_blk h) \<and> own h root \<subseteq> live h
     \<and> (\<forall>c. cwd = Some (Some c) \<longrightarrow> c \<noteq> root \<and> own h c \<subseteq> live h \<and> 0 < o_ref (dir_at h c))"

definition stays :: "blk \<Rightarrow> cwdnode \<Rightarrow> blk option \<Rightarrow> bool" where
  "stays root cwd dir \<longleftrightarrow> dir = None \<or> dir = Some root \<or> cwd = Some dir"

text \<open>From \<open>h0\<close> to \<open>h\<close> a walk has come to \<open>dir\<close>: nothing that was there has changed, and what is held besides is \<open>dir\<close>, where that is
  neither the root directory nor the working directory.\<close>

definition walking :: "fat_heap \<Rightarrow> blk \<Rightarrow> cwdnode \<Rightarrow> blk option \<Rightarrow> fat_heap \<Rightarrow> bool" where
  "walking h0 root cwd dir h \<longleftrightarrow> next_blk h0 \<le> next_blk h \<and> (\<forall>x < next_blk h0. dir_at h x = dir_at h0 x)
     \<and> (\<forall>x \<in> live h. x < next_blk h)
     \<and> (if stays root cwd dir then live h = live h0
        else live h = live h0 \<union> own h (the dir) \<and> (\<forall>x \<in> own h (the dir). next_blk h0 \<le> x)
          \<and> o_ref (dir_at h (the dir)) = 0
          \<and> distinct ([o_ent (dir_at h (the dir))] @ o_names (dir_at h (the dir)) @ [o_fsent (dir_at h (the dir)), the dir]))"

lemma walking_start: "heap_ok root cwd h \<Longrightarrow> stays root cwd dir \<Longrightarrow> walking h root cwd dir h"
  by (simp add: walking_def heap_ok_def)

lemma walking_readable:
  assumes "walking h0 root cwd (Some d) h" "heap_ok root cwd h0"
  shows "readable h d" "readable h root" "dir_at h root = dir_at h0 root"
proof -
  have r: "own h0 root \<subseteq> live h0" and lt: "\<forall>x \<in> live h0. x < next_blk h0" using assms(2) by (simp_all add: heap_ok_def)
  have sub: "live h0 \<subseteq> live h" using assms(1) by (auto simp: walking_def split: if_splits)
  have "root \<in> live h0" using r by (simp add: own_def)
  then show root: "dir_at h root = dir_at h0 root" using assms(1) lt by (simp add: walking_def)
  then show "readable h root" using r sub by (auto simp: readable_def own_def)
  show "readable h d"
  proof (cases "stays root cwd (Some d)")
    case True
    then consider "d = root" | "cwd = Some (Some d)" by (auto simp: stays_def)
    then show ?thesis
    proof cases
      case 1
      then show ?thesis using \<open>readable h root\<close> by simp
    next
      case 2
      then have c: "own h0 d \<subseteq> live h0" using assms(2) by (simp add: heap_ok_def)
      then have "d < next_blk h0" using lt by (simp add: own_def)
      then have "dir_at h d = dir_at h0 d" using assms(1) by (simp add: walking_def)
      then show ?thesis using c sub by (auto simp: readable_def own_def)
    qed
  next
    case False
    then show ?thesis using assms(1) by (auto simp: walking_def readable_def own_def)
  qed
qed

lemma loaded_walking:
  assumes "\<forall>x \<in> live h. x < next_blk h" "root < next_blk h" "\<forall>c. cwd = Some (Some c) \<longrightarrow> c < next_blk h"
  shows "walking h root cwd (Some (Suc (next_blk h))) (loaded c h)" "o_dir (dir_at (loaded c h) (Suc (next_blk h))) = c"
proof -
  let ?k = "next_blk h" and ?n = "length (fsent c)"
  have s: "\<not> stays root cwd (Some (Suc ?k))" using assms(2,3) by (auto simp: stays_def)
  have o: "own (loaded c h) (Suc ?k) = {?k..<?k + 3 + ?n}" by (auto simp: own_def blocks_def loaded_def Let_def)
  have l: "live (loaded c h) = live h \<union> {?k..<?k + 3 + ?n}" "next_blk (loaded c h) = ?k + 3 + ?n"
    "dir_at (loaded c h) = (dir_at h)(Suc ?k := \<lparr>o_dir = c, o_ent = ?k, o_fsent = ?k + 2, o_names = [?k + 3..<?k + 3 + ?n], o_ref = 0\<rparr>)"
    by (simp_all add: loaded_def Let_def)
  show "walking h root cwd (Some (Suc ?k)) (loaded c h)" unfolding walking_def option.sel o
    using assms(1) s by (auto simp: l)
  show "o_dir (dir_at (loaded c h) (Suc ?k)) = c" by (simp add: l)
qed

lemma free_dir_own:
  assumes "readable h d" "root \<in> live h" "d \<noteq> root" "o_ref (dir_at h d) \<le> 1" "o_ent (dir_at h d) \<noteq> o_ent (dir_at h root)"
    "distinct ([o_ent (dir_at h d)] @ o_names (dir_at h d) @ [o_fsent (dir_at h d), d])"
  shows "free_dir_h root d h = Some (h\<lparr>live := live h - own h d, dir_at := (dir_at h)(d := (dir_at h d)\<lparr>o_ref := o_ref (dir_at h d) - 1\<rparr>)\<rparr>)"
proof -
  let ?bs = "[o_ent (dir_at h d)] @ o_names (dir_at h d) @ [o_fsent (dir_at h d), d]"
  have o: "set ?bs = own h d" by (auto simp: own_def blocks_def)
  have sub: "set ?bs \<subseteq> live h" using assms(1) unfolding o by (auto simp: own_def readable_def)
  let ?h = "set_dir d ((dir_at h d)\<lparr>o_ref := o_ref (dir_at h d) - 1\<rparr>) h"
  have "free_blocks ?bs ?h = Some (?h\<lparr>live := live ?h - set ?bs\<rparr>)"
    by (rule free_blocks_ok [OF assms(6)]) (use sub in \<open>simp add: set_dir_def\<close>)
  moreover have "d \<in> live h" using assms(1) by (simp add: readable_def)
  ultimately show ?thesis using assms(2-5) unfolding o free_dir_h_def by (simp add: Let_def set_dir_def)
qed

text \<open>From one directory to the next: the one that is left is released, unless it stays.\<close>

lemma walking_next:
  assumes "walking h0 root cwd (Some d) h" "walking h root cwd nd h1" "heap_ok root cwd h0"
  shows "stays root cwd (Some d) \<Longrightarrow> walking h0 root cwd nd h1"
    and "\<not> stays root cwd (Some d) \<Longrightarrow> \<exists>h'. free_dir_h root d h1 = Some h' \<and> walking h0 root cwd nd h' \<and> o_ent (dir_at h d) \<notin> live h'
      \<and> (\<forall>x. x \<noteq> d \<longrightarrow> dir_at h' x = dir_at h1 x) \<and> nd \<noteq> Some d \<and> next_blk h' = next_blk h1"
proof -
  note r = walking_readable [OF assms(1,3)]
  have lt: "\<forall>x \<in> live h. x < next_blk h" "next_blk h0 \<le> next_blk h" using assms(1) by (auto simp: walking_def)
  have h01: "next_blk h0 \<le> next_blk h1" "\<forall>x < next_blk h0. dir_at h1 x = dir_at h0 x" "\<forall>x \<in> live h1. x < next_blk h1"
    using assms(1,2) by (auto simp: walking_def)
  show "walking h0 root cwd nd h1" if "stays root cwd (Some d)"
  proof -
    have "live h = live h0" using assms(1) that by (simp add: walking_def)
    then show ?thesis using assms(2) h01 lt(2) unfolding walking_def by (auto split: if_splits)
  qed
  assume ns: "\<not> stays root cwd (Some d)"
  have d: "live h = live h0 \<union> own h d" "\<forall>x \<in> own h d. next_blk h0 \<le> x" "o_ref (dir_at h d) = 0"
      "distinct ([o_ent (dir_at h d)] @ o_names (dir_at h d) @ [o_fsent (dir_at h d), d])"
    using assms(1) ns by (simp_all add: walking_def)
  have dl: "own h d \<subseteq> live h" using d(1) by blast
  then have "d < next_blk h" using lt(1) by (simp add: own_def)
  then have same: "dir_at h1 d = dir_at h d" using assms(2) by (simp add: walking_def)
  then have own1: "own h1 d = own h d" by (simp add: own_def)
  have "root \<in> live h" "root \<in> live h0" using r(2) assms(3) by (simp_all add: readable_def heap_ok_def own_def)
  then have "root < next_blk h" "root < next_blk h0" using lt(1) assms(3) by (simp_all add: heap_ok_def)
  then have root: "dir_at h1 root = dir_at h0 root" "d \<noteq> root" using h01(2) d(2) by (auto simp: own_def)
  have sub: "live h \<subseteq> live h1" using assms(2) by (auto simp: walking_def split: if_splits)
  have "o_ent (dir_at h0 root) \<in> live h0" using assms(3) by (simp add: heap_ok_def own_def blocks_def)
  then have "o_ent (dir_at h0 root) < next_blk h0" using assms(3) by (simp add: heap_ok_def)
  moreover have "next_blk h0 \<le> o_ent (dir_at h d)" using d(2) by (simp add: own_def blocks_def)
  ultimately have ne: "o_ent (dir_at h1 d) \<noteq> o_ent (dir_at h1 root)" unfolding same root by simp
  have "readable h1 d" using r(1) sub unfolding readable_def same by blast
  note f = free_dir_own [OF this _ root(2) _ ne d(4) [folded same]]
  let ?h = "h1\<lparr>live := live h1 - own h d, dir_at := (dir_at h1)(d := (dir_at h1 d)\<lparr>o_ref := o_ref (dir_at h1 d) - 1\<rparr>)\<rparr>"
  have fr: "free_dir_h root d h1 = Some ?h" using f \<open>root \<in> live h\<close> sub d(3) by (auto simp: same own1)
  have disj: "live h0 \<inter> own h d = {}" using d(2) assms(3) by (fastforce simp: heap_ok_def)
  have nd: "nd \<noteq> Some d"
  proof
    assume "nd = Some d"
    then have "next_blk h \<le> d" using assms(2) ns by (simp add: walking_def own_def)
    then show False using \<open>d < next_blk h\<close> by simp
  qed
  have "walking h0 root cwd nd ?h"
  proof (cases "stays root cwd nd")
    case True
    then have "live h1 = live h0 \<union> own h d" using assms(2) d(1) by (simp add: walking_def)
    then have "live ?h = live h0" using disj by auto
    moreover have "d \<ge> next_blk h0" using d(2) by (simp add: own_def)
    ultimately show ?thesis unfolding walking_def using True h01 by auto
  next
    case False
    then obtain c where c: "nd = Some c" by (auto simp: stays_def)
    have n: "live h1 = live h \<union> own h1 c" "\<forall>x \<in> own h1 c. next_blk h \<le> x" "o_ref (dir_at h1 c) = 0"
      "distinct ([o_ent (dir_at h1 c)] @ o_names (dir_at h1 c) @ [o_fsent (dir_at h1 c), c])"
      using assms(2) False by (simp_all add: walking_def c)
    have cd: "c \<noteq> d" using nd c by simp
    then have own: "own ?h c = own h1 c" by (simp add: own_def)
    have "own h1 c \<inter> own h d = {}" using n(2) dl lt(1) by fastforce
    then have "live ?h = live h0 \<union> own h1 c" using disj n(1) d(1) by auto
    moreover have "\<forall>x \<in> own h1 c. next_blk h0 \<le> x" using n(2) lt(2) by fastforce
    moreover have "d \<ge> next_blk h0" using d(2) by (simp add: own_def)
    ultimately show ?thesis unfolding walking_def c option.sel own using False c cd n(3,4) h01 by auto
  qed
  moreover have "o_ent (dir_at h d) \<notin> live ?h" by (simp add: own_def blocks_def)
  ultimately show "\<exists>h'. free_dir_h root d h1 = Some h' \<and> walking h0 root cwd nd h' \<and> o_ent (dir_at h d) \<notin> live h'
      \<and> (\<forall>x. x \<noteq> d \<longrightarrow> dir_at h' x = dir_at h1 x) \<and> nd \<noteq> Some d \<and> next_blk h' = next_blk h1"
    using fr nd by (intro exI [of _ ?h]) simp
qed

abbreviation content :: "fat_heap \<Rightarrow> blk \<Rightarrow> fat_dir" where
  "content h d \<equiv> o_dir (dir_at h d)"

lemma walking_stays:
  assumes "walking h0 root cwd dir h" "heap_ok root cwd h0" "stays root cwd (Some d)"
  shows "dir_at h d = dir_at h0 d" "own h0 d \<subseteq> live h0"
proof -
  have "d = root \<or> cwd = Some (Some d)" using assms(3) by (auto simp: stays_def)
  then show o: "own h0 d \<subseteq> live h0" using assms(2) by (auto simp: heap_ok_def)
  then have "d < next_blk h0" using assms(2) by (auto simp: heap_ok_def own_def)
  then show "dir_at h d = dir_at h0 d" using assms(1) by (simp add: walking_def)
qed

lemma walking_same:
  assumes "walking h0 root cwd dir h" "heap_ok root cwd h0"
  shows "stays root cwd nd \<Longrightarrow> walking h root cwd nd h" "root < next_blk h" "cwd = Some (Some c) \<Longrightarrow> c < next_blk h"
  using assms by (force simp: walking_def heap_ok_def own_def)+

text \<open>A step from one directory to the next, as the walk over contents has it.\<close>

lemma step_ok:
  assumes "walking h0 root cwd (Some d) h" "heap_ok root cwd h0" "cwd \<noteq> None"
    "find_entry (content h d) name = Some e" "\<not> (dent_clust_low (de_data e) OR dent_clust_high (de_data e) = 0 \<and> dent_attr (de_data e) AND ATTR_DIR = 0)"
    "(if dent_clust_low (de_data e) OR dent_clust_high (de_data e) = 0 then Some (Some (content h0 root))
      else if dent_attr (de_data e) AND ATTR_DIR \<noteq> 0 then load_dir rd bd fs (de_data e) else Some None) = Some nd"
  shows "\<exists>nd' h'. open_step rd bd fs root cwd d name h = Some (Inr (nd', de_data e, o_ent (dir_at h d)), h')
    \<and> walking h0 root cwd nd' h' \<and> map_option (content h') nd' = nd \<and> (o_ent (dir_at h d) \<in> live h' \<longrightarrow> stays root cwd (Some d))
    \<and> o_ent (dir_at h d) < next_blk h'"
proof -
  let ?fe = "de_data e"
  let ?new = "if dent_clust_low ?fe OR dent_clust_high ?fe = 0 then Some (Some root, h)
    else if dent_attr ?fe AND ATTR_DIR \<noteq> 0 then load_dir_h rd bd fs ?fe h else Some (None, h)"
  have lt: "\<forall>x \<in> live h. x < next_blk h" using assms(1) by (simp add: walking_def)
  have root: "content h root = content h0 root" using walking_readable(3) [OF assms(1,2)] by simp
  have w0: "stays root cwd n \<Longrightarrow> walking h root cwd n h" for n by (rule walking_same(1) [OF assms(1,2)])
  obtain nd' h1 where n: "?new = Some (nd', h1)" "walking h root cwd nd' h1" "map_option (content h1) nd' = nd"
  proof -
    consider "dent_clust_low ?fe OR dent_clust_high ?fe = 0" | "dent_clust_low ?fe OR dent_clust_high ?fe \<noteq> 0" "dent_attr ?fe AND ATTR_DIR = 0"
      | "dent_clust_low ?fe OR dent_clust_high ?fe \<noteq> 0" "dent_attr ?fe AND ATTR_DIR \<noteq> 0" by blast
    then show ?thesis
    proof cases
      case 1
      then show ?thesis using that [of "Some root" h] assms(6) w0 [of "Some root"] root by (simp add: stays_def)
    next
      case 2
      then show ?thesis using that [of None h] assms(6) w0 [of None] by (simp add: stays_def)
    next
      case 3
      then have l: "load_dir rd bd fs ?fe = Some nd" using assms(6) by simp
      show ?thesis
      proof (cases nd)
        case None
        then show ?thesis using that [of None h] l 3 w0 [of None] by (simp add: stays_def load_dir_h_def)
      next
        case (Some c)
        have "\<forall>c. cwd = Some (Some c) \<longrightarrow> c < next_blk h" using walking_same(3) [OF assms(1,2)] by blast
        note w = loaded_walking [OF lt walking_same(2) [OF assms(1,2)] this, of c]
        show ?thesis using that [of "Some (Suc (next_blk h))" "loaded c h"] load_dir_h_eq [OF l [unfolded Some]] 3 w Some by simp
      qed
    qed
  qed
  note nx = walking_next [OF assms(1) n(2) assms(2)]
  have "o_ent (dir_at h d) \<in> live h" using walking_readable(1) [OF assms(1,2)] by (simp add: readable_def blocks_def)
  then have en: "o_ent (dir_at h d) < next_blk h1" using lt n(2) by (force simp: walking_def)
  have st: "open_step rd bd fs root cwd d name h = (if d = root then Some (Inr (nd', ?fe, o_ent (dir_at h d)), h1)
      else case cwd of None \<Rightarrow> None | Some c \<Rightarrow> if c = Some d then Some (Inr (nd', ?fe, o_ent (dir_at h d)), h1)
        else map_option (\<lambda>h'. (Inr (nd', ?fe, o_ent (dir_at h d)), h')) (free_dir_h root d h1))"
    using walking_readable(1) [OF assms(1,2)] assms(4,5) n(1) unfolding open_step_def by (simp only: Let_def if_not_P if_P not_not simp_thms option.case prod.case)
  show ?thesis
  proof (cases "stays root cwd (Some d)")
    case True
    then have "d = root \<or> cwd = Some (Some d)" by (auto simp: stays_def)
    then have "open_step rd bd fs root cwd d name h = Some (Inr (nd', ?fe, o_ent (dir_at h d)), h1)" unfolding st by auto
    then show ?thesis using nx(1) [OF True] n(3) True en by blast
  next
    case False
    obtain h' where h': "free_dir_h root d h1 = Some h'" "walking h0 root cwd nd' h'" "o_ent (dir_at h d) \<notin> live h'"
      "\<forall>x. x \<noteq> d \<longrightarrow> dir_at h' x = dir_at h1 x" "nd' \<noteq> Some d" "next_blk h' = next_blk h1" using nx(2) [OF False] by blast
    obtain c where c: "cwd = Some c" using assms(3) by blast
    have "c \<noteq> Some d" "d \<noteq> root" using False c by (auto simp: stays_def)
    then have "open_step rd bd fs root cwd d name h = Some (Inr (nd', ?fe, o_ent (dir_at h d)), h')" unfolding st unfolding c by (simp add: h'(1))
    moreover have "map_option (content h') nd' = nd" using n(3) h'(4,5) by (cases nd') auto
    ultimately show ?thesis using h'(2,3) en unfolding h'(6) [symmetric] by blast
  qed
qed

text \<open>The entry of a pointer that can still be read is one of the root directory or of the working directory.\<close>

definition kept :: "fat_heap \<Rightarrow> blk \<Rightarrow> cwdnode \<Rightarrow> entptr option \<Rightarrow> fat_heap \<Rightarrow> bool" where
  "kept h0 root cwd p h \<longleftrightarrow> (\<forall>fe b. p = Some (fe, b) \<longrightarrow> b < next_blk h \<and> (b \<in> live h \<longrightarrow>
     (\<exists>d. stays root cwd (Some d) \<and> fe \<in> de_data ` set (fsent (content h0 d)))))"

definition same_walk :: "fat_heap \<Rightarrow> blk \<Rightarrow> cwdnode \<Rightarrow> walk option \<Rightarrow>
    ((int option + blk option \<times> entptr option) \<times> fat_heap) option \<Rightarrow> bool" where
  "same_walk h0 root cwd w r \<longleftrightarrow> (case w of
       None \<Rightarrow> r = None
     | Some (NoNode e) \<Rightarrow> \<exists>h. r = Some (Inl e, h)
     | Some (Walked d e) \<Rightarrow> \<exists>dir p h. r = Some (Inr (dir, p), h) \<and> walking h0 root cwd dir h \<and> kept h0 root cwd p h
         \<and> map_option (content h) dir = d \<and> map_option fst p = e)"

lemma walk_same:
  assumes "heap_ok root cwd h0" "cwd \<noteq> None"
  shows "walking h0 root cwd dir h \<Longrightarrow> kept h0 root cwd p h \<Longrightarrow> same_walk h0 root cwd
    (open_walk rd bd fs (content h0 root) (map_option (content h) dir) (map_option fst p) path) (open_walk_h rd bd fs root cwd dir p path h)"
proof (induction path arbitrary: dir p h rule: measure_induct_rule [of length])
  case (less path)
  note ps = open_walk.simps [of rd bd fs "content h0 root" "map_option (content h) dir" "map_option fst p" path]
    open_walk_h.simps [of rd bd fs root cwd dir p path h]
  show ?case
  proof (cases "path = []")
    case True
    then show ?thesis unfolding ps using less.prems by (simp add: same_walk_def)
  next
    case ne: False
    show ?thesis
    proof (cases dir)
      case None
      then show ?thesis unfolding ps using ne by (simp add: same_walk_def)
    next
      case (Some d)
      define name where "name = fst (fs_path_next path MAX_NAME)"
      define rest where "rest = snd (fs_path_next path MAX_NAME)"
      note nr = name_def [symmetric] rest_def [symmetric]
      have lt: "length rest < length path" unfolding rest_def by (rule path_next_shorter [OF ne])
      note w = less.prems(1) [unfolded Some]
      show ?thesis
      proof (cases "name = [46]")
        case True
        then show ?thesis unfolding ps using less.IH [OF lt less.prems] ne Some by (simp add: nr)
      next
        case nd: False
        show ?thesis
        proof (cases "find_entry (content h d) name")
          case None
          then show ?thesis unfolding ps using ne Some nd walking_readable(1) [OF w assms(1)] by (simp add: nr open_step_def same_walk_def)
        next
          case e: (Some e)
          let ?fe = "de_data e"
          show ?thesis
          proof (cases "dent_clust_low ?fe OR dent_clust_high ?fe = 0 \<and> dent_attr ?fe AND ATTR_DIR = 0")
            case True
            then show ?thesis unfolding ps using ne Some nd e walking_readable(1) [OF w assms(1)]
              by (simp add: nr open_step_def same_walk_def Let_def)
          next
            case nz: False
            let ?new = "if dent_clust_low ?fe OR dent_clust_high ?fe = 0 then Some (Some (content h0 root))
              else if dent_attr ?fe AND ATTR_DIR \<noteq> 0 then load_dir rd bd fs ?fe else Some None"
            have pw: "open_walk rd bd fs (content h0 root) (map_option (content h) dir) (map_option fst p) path
              = (case ?new of None \<Rightarrow> None | Some x \<Rightarrow> open_walk rd bd fs (content h0 root) x (Some ?fe) rest)"
              unfolding ps using ne Some nd e nz by (simp add: nr Let_def)
            show ?thesis
            proof (cases ?new)
              case None
              then have "dent_clust_low ?fe OR dent_clust_high ?fe \<noteq> 0" "dent_attr ?fe AND ATTR_DIR \<noteq> 0" "load_dir rd bd fs ?fe = None"
                by (auto split: if_splits)
              then have "open_step rd bd fs root cwd d name h = None"
                using e walking_readable(1) [OF w assms(1)] by (simp add: open_step_def load_dir_h_def Let_def)
              then show ?thesis unfolding pw None unfolding ps using ne Some nd by (simp add: nr same_walk_def)
            next
              case n: (Some x)
              obtain nd' h' where s: "open_step rd bd fs root cwd d name h = Some (Inr (nd', ?fe, o_ent (dir_at h d)), h')"
                "walking h0 root cwd nd' h'" "map_option (content h') nd' = x" "o_ent (dir_at h d) \<in> live h' \<longrightarrow> stays root cwd (Some d)" "o_ent (dir_at h d) < next_blk h'"
                using step_ok [OF w assms e nz n] by blast
              have "?fe \<in> de_data ` set (fsent (content h d))" using e by (auto simp: find_entry_def find_Some_iff)
              then have k: "kept h0 root cwd (Some (?fe, o_ent (dir_at h d))) h'"
                unfolding kept_def using s(4,5) walking_stays(1) [OF w assms(1)] by (metis option.inject prod.inject)
              have "open_walk_h rd bd fs root cwd dir p path h = open_walk_h rd bd fs root cwd nd' (Some (?fe, o_ent (dir_at h d))) rest h'"
                unfolding ps using ne Some nd s(1) by (simp add: nr)
              then show ?thesis unfolding pw n using less.IH [OF lt s(2) k] by (simp add: s(3))
            qed
          qed
        qed
      qed
    qed
  qed
qed

section \<open>Opening and closing\<close>

definition cwd_content :: "fat_heap \<Rightarrow> cwdnode \<Rightarrow> fat_dir option" where
  "cwd_content h cwd = (case cwd of Some (Some c) \<Rightarrow> Some (content h c) | _ \<Rightarrow> None)"

text \<open>Where no released memory is read, \<open>open\<close> does what it does over contents.\<close>

lemma open_walks:
  assumes "heap_ok root cwd h" "cwd \<noteq> None"
  obtains (null) "fat_open rd bd fs (content h root) (cwd_content h cwd) path = Some (Inl None)" "fat_open_h rd bd fs root cwd path h = Some (Inl None, h)"
  | (walk) w r where "same_walk h root cwd w r"
      "fat_open rd bd fs (content h root) (cwd_content h cwd) path = (case w of None \<Rightarrow> None | Some (NoNode e) \<Rightarrow> Some (Inl e)
         | Some (Walked (Some d) _) \<Rightarrow> Some (Inr (DirNode (d\<lparr>cur_ent := 0\<rparr>)))
         | Some (Walked None (Some e)) \<Rightarrow> Some (Inr (FileNode (init_file e))) | Some (Walked None None) \<Rightarrow> None)"
      "fat_open_h rd bd fs root cwd path h = (case r of None \<Rightarrow> None | Some (Inl e, h) \<Rightarrow> Some (Inl e, h)
         | Some (Inr (dir, p), h) \<Rightarrow> map_option (\<lambda>(n, h). (Inr n, h)) (finish_open root dir p h))"
proof -
  have k: "kept h root cwd None h" by (simp add: kept_def)
  have go: thesis if "stays root cwd (Some d)" and
    p: "fat_open rd bd fs (content h root) (cwd_content h cwd) path = (case open_walk rd bd fs (content h root) (Some (content h d)) None path' of
         None \<Rightarrow> None | Some (NoNode e) \<Rightarrow> Some (Inl e)
         | Some (Walked (Some d) _) \<Rightarrow> Some (Inr (DirNode (d\<lparr>cur_ent := 0\<rparr>)))
         | Some (Walked None (Some e)) \<Rightarrow> Some (Inr (FileNode (init_file e))) | Some (Walked None None) \<Rightarrow> None)"
    and q: "fat_open_h rd bd fs root cwd path h = (case open_walk_h rd bd fs root cwd (Some d) None path' h of
         None \<Rightarrow> None | Some (Inl e, h) \<Rightarrow> Some (Inl e, h)
         | Some (Inr (dir, p), h) \<Rightarrow> map_option (\<lambda>(n, h). (Inr n, h)) (finish_open root dir p h))" for d path'
    using walk_same [OF assms walking_start [OF assms(1) that(1)] k, of rd bd fs path'] by (intro walk [OF _ p q]) simp
  show thesis
  proof (cases "path \<noteq> [] \<and> hd path = 47")
    case True
    show ?thesis by (rule go [of root "fs_path_skipsep path"]) (simp_all add: stays_def fat_open_def fat_open_h_def True)
  next
    case False
    obtain c where c: "cwd = Some c" using assms(2) by blast
    show ?thesis
    proof (cases c)
      case None
      show ?thesis by (rule null) (use False c None in \<open>simp_all del: not_None_eq add: fat_open_def fat_open_h_def cwd_content_def if_not_P [OF False]\<close>)
    next
      case (Some d)
      then show ?thesis using False c by (intro go [of d path]) (auto simp: stays_def fat_open_def fat_open_h_def cwd_content_def)
    qed
  qed
qed

text \<open>A directory that is opened is a copy of the root directory, the working directory once more, or one that the walk has loaded; closing it
  releases what opening it took.\<close>

lemma finish_close:
  assumes "walking h0 root cwd (Some d) h" "heap_ok root cwd h0"
  shows "\<exists>node b h1 h2. finish_open root (Some d) p h = Some (DirH node b, h1) \<and> content h1 b = (content h d)\<lparr>cur_ent := 0\<rparr>
    \<and> fat_close_h root (DirH node b) h1 = Some h2 \<and> live h2 = live h0 \<and> (\<forall>x \<in> live h0. o_ref (dir_at h2 x) = o_ref (dir_at h0 x))"
proof -
  let ?k = "next_blk h"
  note r = walking_readable [OF assms]
  have lt: "\<forall>x \<in> live h. x < ?k" "next_blk h0 \<le> ?k" "\<forall>x < next_blk h0. dir_at h x = dir_at h0 x" using assms(1) by (auto simp: walking_def)
  have lt0: "\<forall>x \<in> live h0. x < next_blk h0" using assms(2) by (simp add: heap_ok_def)
  have dl: "d \<in> live h" "root \<in> live h" using r by (simp_all add: readable_def)
  have k: "?k \<notin> live h" "Suc ?k \<notin> live h" "d \<noteq> ?k" "root \<noteq> ?k" "root \<noteq> Suc ?k" using lt dl by force+
  have f: "finish_open root (Some d) p h = (let h = h\<lparr>live := insert ?k (live h), next_blk := Suc ?k\<rparr>;
      (b, h) = (if d = root then (Suc ?k, set_dir (Suc ?k) ((dir_at h d)\<lparr>o_ref := 0\<rparr>)
          (h\<lparr>live := insert (Suc ?k) (live h), next_blk := Suc (Suc ?k)\<rparr>)) else (d, h))
      in Some (DirH ?k b, set_dir b ((dir_at h b)\<lparr>o_dir := (content h b)\<lparr>cur_ent := 0\<rparr>, o_ref := o_ref (dir_at h b) + 1\<rparr>) h))"
    using dl by (simp add: finish_open_def grab_block_def Let_def)
  show ?thesis
  proof (cases "d = root")
    case True
    let ?b = "Suc ?k"
    let ?h1 = "h\<lparr>live := insert ?b (insert ?k (live h)), next_blk := Suc ?b,
      dir_at := (dir_at h)(?b := (dir_at h root)\<lparr>o_dir := (content h root)\<lparr>cur_ent := 0\<rparr>, o_ref := 1\<rparr>)\<rparr>"
    let ?h2 = "?h1\<lparr>live := live h, dir_at := (dir_at ?h1)(?b := (dir_at ?h1 ?b)\<lparr>o_ref := 0\<rparr>)\<rparr>"
    have "finish_open root (Some d) p h = Some (DirH ?k ?b, ?h1)" unfolding f using True by (simp add: set_dir_def Let_def)
    moreover have "fat_close_h root (DirH ?k ?b) ?h1 = Some ?h2"
      using k dl by (simp add: fat_close_h_def free_dir_h_def set_dir_def free_block_def Let_def insert_Diff_if)
    moreover have "live h = live h0" using assms(1) True by (simp add: walking_def stays_def)
    moreover have "o_ref (dir_at ?h2 x) = o_ref (dir_at h0 x)" if "x \<in> live h0" for x
    proof -
      have "x \<noteq> ?b" "x < next_blk h0" using that lt0 lt(2) by force+
      then show ?thesis using lt(3) by simp
    qed
    ultimately show ?thesis using True by (intro exI [of _ ?k] exI [of _ ?b] exI [of _ ?h1] exI [of _ ?h2]) simp
  next
    case nr: False
    let ?h1 = "h\<lparr>live := insert ?k (live h), next_blk := Suc ?k,
      dir_at := (dir_at h)(d := (dir_at h d)\<lparr>o_dir := (content h d)\<lparr>cur_ent := 0\<rparr>, o_ref := o_ref (dir_at h d) + 1\<rparr>)\<rparr>"
    have op: "finish_open root (Some d) p h = Some (DirH ?k d, ?h1)" unfolding f using nr by (simp add: set_dir_def Let_def)
    show ?thesis
    proof (cases "cwd = Some (Some d)")
      case True
      let ?h2 = "?h1\<lparr>live := live h, dir_at := (dir_at ?h1)(d := (dir_at ?h1 d)\<lparr>o_ref := o_ref (dir_at h d)\<rparr>)\<rparr>"
      have st: "stays root cwd (Some d)" using True by (simp add: stays_def)
      have "dir_at h d = dir_at h0 d" by (rule walking_stays(1) [OF assms st])
      then have "0 < o_ref (dir_at h d)" using assms(2) True by (simp add: heap_ok_def)
      then have "fat_close_h root (DirH ?k d) ?h1 = Some ?h2"
        using k dl by (simp add: fat_close_h_def free_dir_h_def set_dir_def free_block_def Let_def)
      moreover have "live h = live h0" using assms(1) st by (simp add: walking_def)
      moreover have "o_ref (dir_at ?h2 x) = o_ref (dir_at h0 x)" if "x \<in> live h0" for x
        using that lt0 lt(3) \<open>dir_at h d = dir_at h0 d\<close> by simp
      ultimately show ?thesis using op by (intro exI [of _ ?k] exI [of _ d] exI [of _ ?h1] exI [of _ ?h2]) simp
    next
      case nc: False
      have ns: "\<not> stays root cwd (Some d)" using nr nc by (auto simp: stays_def)
      have w: "live h = live h0 \<union> own h d" "\<forall>x \<in> own h d. next_blk h0 \<le> x" "o_ref (dir_at h d) = 0"
        "distinct ([o_ent (dir_at h d)] @ o_names (dir_at h d) @ [o_fsent (dir_at h d), d])"
        using assms(1) ns by (simp_all add: walking_def)
      have own1: "own ?h1 d = own h d" by (simp add: own_def blocks_def)
      have rd1: "readable ?h1 d" using r(1) by (auto simp: readable_def blocks_def)
      have "o_ent (dir_at h0 root) \<in> live h0" using assms(2) by (simp add: heap_ok_def own_def blocks_def)
      then have "o_ent (dir_at h0 root) < next_blk h0" using lt0 by simp
      moreover have "next_blk h0 \<le> o_ent (dir_at h d)" using w(2) by (simp add: own_def blocks_def)
      ultimately have ne: "o_ent (dir_at ?h1 d) \<noteq> o_ent (dir_at ?h1 root)" using r(3) nr by simp
      have fr: "free_dir_h root d ?h1 = Some (?h1\<lparr>live := live ?h1 - own ?h1 d, dir_at := (dir_at ?h1)(d := (dir_at ?h1 d)\<lparr>o_ref := o_ref (dir_at ?h1 d) - 1\<rparr>)\<rparr>)"
        by (rule free_dir_own [OF rd1]) (use w(3,4) ne nr dl in simp_all)
      have kn: "?k \<notin> own h d" using w(1) k(1) by blast
      have disj: "live h0 \<inter> own h d = {}" using w(2) lt0 by fastforce
      let ?h2 = "?h1\<lparr>live := live h0, dir_at := (dir_at ?h1)(d := (dir_at ?h1 d)\<lparr>o_ref := 0\<rparr>)\<rparr>"
      have "insert ?k (live h) - own h d = insert ?k (live h0)" using w(1) kn disj by blast
      moreover have "insert ?k (live h0) - {?k} = live h0" using k(1) w(1) by blast
      ultimately have "fat_close_h root (DirH ?k d) ?h1 = Some ?h2"
        unfolding fat_close_h_def node_h.case fr own1 using w(3) by (simp add: free_block_def)
      moreover have "o_ref (dir_at ?h2 x) = o_ref (dir_at h0 x)" if "x \<in> live h0" for x
      proof -
        have "x \<noteq> d" using that disj by (auto simp: own_def)
        then show ?thesis using that lt0 lt(3) by simp
      qed
      ultimately show ?thesis using op by (intro exI [of _ ?k] exI [of _ d] exI [of _ ?h1] exI [of _ ?h2]) simp
    qed
  qed
qed

text \<open>C11: a directory that has been opened, by whatever path, can be closed, and nothing is then held that was not held before; neither
  reads or releases memory that is not held.\<close>

theorem fat_open_close_directory:
  assumes "heap_ok root cwd h" "cwd \<noteq> None" "fat_open rd bd fs (content h root) (cwd_content h cwd) path = Some (Inr (DirNode d))"
  shows "\<exists>node b h1 h2. fat_open_h rd bd fs root cwd path h = Some (Inr (DirH node b), h1) \<and> content h1 b = d
    \<and> fat_close_h root (DirH node b) h1 = Some h2 \<and> live h2 = live h \<and> (\<forall>x \<in> live h. o_ref (dir_at h2 x) = o_ref (dir_at h x))"
proof (cases rule: open_walks [OF assms(1,2), of rd bd fs path])
  case (2 w r)
  note walk = 2
  then obtain d' p where w: "w = Some (Walked (Some d') p)" "d = d'\<lparr>cur_ent := 0\<rparr>"
    using assms(3) by (auto split: option.splits walk.splits)
  then obtain b q h' where r: "r = Some (Inr (Some b, q), h')" "walking h root cwd (Some b) h'" "content h' b = d'"
    using walk(1) by (auto simp: same_walk_def)
  then show ?thesis using finish_close [OF r(2) assms(1), of q] walk(3) w(2) by auto
qed (use assms(3) in simp)

text \<open>C39: the file that \<open>open\<close> gives without reading released memory is one of the root directory or of the working directory: the entry of
  any other file is released before it is copied.\<close>

theorem fat_open_file_where:
  assumes "heap_ok root cwd h" "cwd \<noteq> None" "fat_open_h rd bd fs root cwd path h = Some (Inr (FileH node f buf c), h1)"
  shows "\<exists>d. (d = root \<or> cwd = Some (Some d)) \<and> (\<exists>e \<in> set (fsent (content h d)). c = init_file (de_data e))"
proof (cases rule: open_walks [OF assms(1,2), of rd bd fs path])
  case (2 w r)
  note walk = 2
  then obtain dir p h' where r: "r = Some (Inr (dir, p), h')" "finish_open root dir p h' = Some (FileH node f buf c, h1)"
    using assms(3) unfolding walk(3) by (auto split: option.splits sum.splits prod.splits)
  then obtain fe b where p: "p = Some (fe, b)" "c = init_file fe"
      "b \<in> insert (Suc (Suc (next_blk h'))) (insert (Suc (next_blk h')) (insert (next_blk h') (live h')))"
    by (auto simp: finish_open_def init_file_h_def grab_block_def Let_def split: option.splits if_splits)
  have "kept h root cwd p h'" using walk(1) r(1) by (auto simp: same_walk_def split: option.splits walk.splits)
  then have "b < next_blk h'" "b \<in> live h' \<longrightarrow> (\<exists>d. stays root cwd (Some d) \<and> fe \<in> de_data ` set (fsent (content h d)))"
    using p(1) by (simp_all add: kept_def)
  then show ?thesis using p(2,3) by (auto simp: stays_def)
qed (use assms(3) in simp)

text \<open>In particular a file of a directory below the root can only be opened from within it.\<close>

definition demo_heap :: fat_heap where
  "demo_heap = \<lparr>live = {0, 1, 2, 3, 4, 5, 6}, next_blk = 7, dir_at = (\<lambda>b. if b = 0
     then \<lparr>o_dir = \<lparr>ent = [], fsent = [\<lparr>de_name = [101], de_data = demo_dent, de_type = FSNODE_FILE, de_fsize = 700\<rparr>], cur_ent = 0\<rparr>,
            o_ent = 1, o_fsent = 2, o_names = [3], o_ref = 1\<rparr>
     else \<lparr>o_dir = \<lparr>ent = [], fsent = [], cur_ent = 3\<rparr>, o_ent = 5, o_fsent = 6, o_names = [], o_ref = 1\<rparr>)\<rparr>"

lemma demo_heap_ok: "heap_ok 0 (Some (Some 4)) demo_heap" "heap_ok 0 (Some None) demo_heap"
  by (auto simp: heap_ok_def demo_heap_def own_def blocks_def)

lemma fat_open_close_directory_witness:
  "\<exists>node b h1 h2. fat_open_h demo_rd 0x80 demo_fs 0 (Some (Some 4)) [47] demo_heap = Some (Inr (DirH node b), h1)
    \<and> fat_close_h 0 (DirH node b) h1 = Some h2 \<and> live h2 = {0, 1, 2, 3, 4, 5, 6}"
proof -
  have "fat_open demo_rd 0x80 demo_fs (content demo_heap 0) (cwd_content demo_heap (Some (Some 4))) [47]
    = Some (Inr (DirNode (content demo_heap 0)))"
    by (simp add: fat_open_def fs_path_skipsep_def open_walk.simps demo_heap_def)
  from fat_open_close_directory [OF demo_heap_ok(1) _ this] show ?thesis by (auto simp: demo_heap_def)
qed

lemma fat_open_file_where_witness:
  "\<exists>node f buf c h1. fat_open_h demo_rd 0x80 demo_fs 0 (Some None) [47, 101] demo_heap = Some (Inr (FileH node f buf c), h1)
    \<and> c = init_file demo_dent"
proof -
  have z: "dent_clust_low demo_dent OR dent_clust_high demo_dent \<noteq> 0" "dent_attr demo_dent AND ATTR_DIR = 0"
    by (simp_all add: demo_dent_def dent_attr_def ATTR_DIR_def dent_clust_low_def dent_clust_high_def le16_def)
  have "strcasecmp [101] [101] = 0" by code_simp
  then have st: "open_step demo_rd 0x80 demo_fs 0 (Some None) 0 [101] demo_heap = Some (Inr (None, demo_dent, 1), demo_heap)"
    using z by (simp add: open_step_def readable_def blocks_def demo_heap_def find_entry_def Let_def)
  have "fs_path_next [101] MAX_NAME = ([101], [])" by code_simp
  then have "open_walk_h demo_rd 0x80 demo_fs 0 (Some None) (Some 0) None [101] demo_heap = Some (Inr (None, Some (demo_dent, 1)), demo_heap)"
    by (simp add: open_walk_h.simps st)
  then obtain node f buf c h1 where o: "fat_open_h demo_rd 0x80 demo_fs 0 (Some None) [47, 101] demo_heap = Some (Inr (FileH node f buf c), h1)"
    by (simp add: fat_open_h_def fs_path_skipsep_def finish_open_def init_file_h_def grab_block_def demo_heap_def Let_def)
  show ?thesis using fat_open_file_where [OF demo_heap_ok(2) _ o] o by (auto simp: demo_heap_def)
qed

end
