(* ===== verification/Fsmem_Destroy.thy ===== *)
theory Fsmem_Destroy
  imports Fsmem_Tree
begin

text \<open>
  Releasing a memory file system (\<open>destroy\<close> and \<open>free_node\<close> of \<open>src/fsmem.c\<close>): the recursion over the tree, which releases the bytes of the files and
  empties the directories. That a second release of the same bytes does not happen and that the recursion ends rests on the tree having
  no cycles, which every sequence of operations keeps.
\<close>

text \<open>The loop of \<open>free_node\<close> over the entries of a directory looks at \<open>clist\<close> again after each of them. Releasing bytes twice is
  undefined, as is an entry that is no node.\<close>

partial_function (option) free_node :: "store \<Rightarrow> nid \<Rightarrow> store option" where
  "free_node N n =
     (case N n of
        None \<Rightarrow> None
      | Some nd \<Rightarrow>
          if n_type nd = FSNODE_FILE then
            if n_data nd = None then None else Some (N(n \<mapsto> nd\<lparr>n_data := None\<rparr>))
          else
            (case n_clist nd of
               None \<Rightarrow> Some N
             | Some c \<Rightarrow>
                 (case N c of
                    None \<Rightarrow> None
                  | Some cd \<Rightarrow>
                      Option.bind (free_node (N(n \<mapsto> nd\<lparr>n_clist := n_next cd\<rparr>)) c) (\<lambda>N. free_node N n))))"

text \<open>\<open>destroy\<close> then releases the structures of the file system.\<close>

definition memfs_destroy :: "store \<Rightarrow> nid \<Rightarrow> store option" where
  "memfs_destroy N rootdir = free_node N rootdir"

section \<open>Trees without cycles\<close>

inductive ends :: "(nid \<Rightarrow> nid list) \<Rightarrow> nid \<Rightarrow> bool" for kids where
  ends_node: "\<forall>c \<in> set (kids n). ends kids c \<Longrightarrow> ends kids n"

inductive_cases endsE: "ends kids n"

inductive sub :: "(nid \<Rightarrow> nid list) \<Rightarrow> nid \<Rightarrow> nid \<Rightarrow> bool" for kids where
  sub_here: "sub kids n n"
| sub_down: "c \<in> set (kids n) \<Longrightarrow> sub kids c m \<Longrightarrow> sub kids n m"

lemma sub_up: "sub kids n m \<Longrightarrow> c \<in> set (kids m) \<Longrightarrow> sub kids n c"
  by (induction rule: sub.induct) (auto intro: sub.intros)

lemma sub_trans: "sub kids a b \<Longrightarrow> sub kids b c \<Longrightarrow> sub kids a c"
  by (induction rule: sub.induct) (auto intro: sub.intros)

lemma sub_cases: "sub kids n m \<longleftrightarrow> m = n \<or> (\<exists>c \<in> set (kids n). sub kids c m)"
  by (auto elim: sub.cases intro: sub.intros)

lemma ends_no_cycle: "ends kids n \<Longrightarrow> c \<in> set (kids n) \<Longrightarrow> \<not> sub kids c n"
proof (induction arbitrary: c rule: ends.induct)
  case (ends_node n)
  show ?case
  proof
    assume s: "sub kids c n"
    have "sub kids c c" by (rule sub_here)
    from s show False
    proof (cases rule: sub.cases)
      case sub_here
      then have "n \<in> set (kids n)" using ends_node.prems by simp
      then show False using ends_node.IH sub.sub_here by blast
    next
      case (sub_down d)
      have "sub kids d c" using sub_up [OF sub_down(2) ends_node.prems] .
      then show False using ends_node.IH ends_node.prems sub_down(1) by blast
    qed
  qed
qed

lemma sub_linear:
  assumes "tree N kids"
  shows "sub kids a m \<Longrightarrow> sub kids b m \<Longrightarrow> sub kids a b \<or> sub kids b a"
proof (induction arbitrary: b rule: sub.induct)
  case (sub_down c n m)
  from sub_down.IH [OF sub_down.prems] show ?case
  proof
    assume "sub kids b c"
    then have "b = c \<or> (\<exists>p. sub kids b p \<and> c \<in> set (kids p))"
      by (induction rule: sub.induct) (auto intro: sub.intros)
    moreover have "sub kids n c" using sub_down.hyps(1) by (blast intro: sub.intros)
    ultimately show ?thesis using tree_disjoint [OF assms sub_down.hyps(1)] by blast
  qed (use sub_down.hyps in \<open>blast intro: sub.intros\<close>)
qed blast

lemma sub_siblings:
  assumes "tree N kids" "ends kids n" "c \<in> set (kids n)" "d \<in> set (kids n)" "c \<noteq> d" "sub kids c m"
  shows "\<not> sub kids d m"
proof
  assume "sub kids d m"
  from sub_linear [OF assms(1,6) this] show False
  proof
    assume "sub kids c d"
    then obtain p where "sub kids c p" "d \<in> set (kids p)"
      using assms(5) by (induction rule: sub.induct) (auto intro: sub.intros)
    then have "sub kids c n" using tree_disjoint [OF assms(1,4)] by blast
    then show False using ends_no_cycle [OF assms(2,3)] by blast
  next
    assume "sub kids d c"
    then obtain p where "sub kids d p" "c \<in> set (kids p)"
      using assms(5) [symmetric] by (induction rule: sub.induct) (auto intro: sub.intros)
    then have "sub kids d n" using tree_disjoint [OF assms(1,3)] by blast
    then show False using ends_no_cycle [OF assms(2,4)] by blast
  qed
qed

section \<open>Releasing a tree\<close>

definition released :: "memfs_node \<Rightarrow> memfs_node" where
  "released nd = (if n_type nd = FSNODE_FILE then nd\<lparr>n_data := None\<rparr> else nd\<lparr>n_clist := None\<rparr>)"

definition linked :: "store \<Rightarrow> (nid \<Rightarrow> nid list) \<Rightarrow> bool" where
  "linked N kids \<longleftrightarrow> (\<forall>d. \<forall>c \<in> set (kids d). \<forall>nd. N c = Some nd \<longrightarrow> n_type nd = FSNODE_FILE \<longrightarrow> n_data nd \<noteq> None)"

lemma free_node_tree:
  assumes "tree N0 kids" "linked N0 kids"
  shows "ends kids n \<Longrightarrow> N0 n = Some nd \<Longrightarrow> n_type nd = FSNODE_FILE \<longrightarrow> n_data nd \<noteq> None \<Longrightarrow> \<forall>m. sub kids n m \<longrightarrow> N m = N0 m \<Longrightarrow>
    free_node N n = Some (\<lambda>m. if sub kids n m then map_option released (N0 m) else N m)"
proof (induction arbitrary: nd N rule: ends.induct)
  case (ends_node n)
  have ends: "ends kids n" using ends_node.IH by (blast intro: ends.intros)
  have N: "N n = Some nd" using ends_node.prems by (simp add: sub_here)
  show ?case
  proof (cases "n_type nd = FSNODE_FILE")
    case True
    then have k: "kids n = []" using tree_at [OF assms(1) ends_node.prems(1)] by simp
    then have s: "sub kids n m \<longleftrightarrow> m = n" for m by (simp add: sub_cases [of kids n])
    have "free_node N n = Some (N(n \<mapsto> nd\<lparr>n_data := None\<rparr>))" using ends_node.prems(2) True N by (simp add: free_node.simps)
    then show ?thesis using True ends_node.prems(1) by (auto simp: s released_def fun_eq_iff)
  next
    case False
    then have dir: "n_type nd = FSNODE_DIR" by (cases "n_type nd") simp_all
    have dh: "seg N0 (n_clist nd) (kids n)" "distinct (kids n)" "\<forall>c \<in> set (kids n). \<exists>cd. N0 c = Some cd"
      using tree_dir [OF assms(1) ends_node.prems(1) dir] ends_node.prems(1) by (auto simp: dir_has_def)
    have loop: "free_node M n = Some (\<lambda>m. if m = n \<or> (\<exists>c \<in> set ks. sub kids c m) then map_option released (N0 m) else M m)"
      if "set ks \<subseteq> set (kids n)" "distinct ks" "seg N0 p ks" "M n = Some (nd\<lparr>n_clist := p\<rparr>)"
        "\<forall>c \<in> set ks. \<forall>m. sub kids c m \<longrightarrow> M m = N0 m" for ks p M
      using that
    proof (induction ks arbitrary: p M)
      case Nil
      then show ?case using dir ends_node.prems(1) by (auto simp: free_node.simps [of M n] released_def fun_eq_iff)
    next
      case (Cons c ks)
      obtain cd where cd: "N0 c = Some cd" "p = Some c" "seg N0 (n_next cd) ks" using Cons.prems(3) by (cases "N0 c") simp_all
      have ck: "c \<in> set (kids n)" using Cons.prems(1) by simp
      have Mc: "M c = Some cd" using Cons.prems(5) cd(1) by (simp add: sub_here)
      have nc: "\<not> sub kids c n" by (rule ends_no_cycle [OF ends ck])
      let ?M1 = "M(n \<mapsto> nd\<lparr>n_clist := n_next cd\<rparr>)"
      let ?M2 = "\<lambda>m. if sub kids c m then map_option released (N0 m) else ?M1 m"
      have "n_type cd = FSNODE_FILE \<longrightarrow> n_data cd \<noteq> None" using assms(2) ck cd(1) unfolding linked_def by blast
      moreover have "\<forall>m. sub kids c m \<longrightarrow> ?M1 m = N0 m" using Cons.prems(5) nc by auto
      ultimately have f: "free_node ?M1 c = Some ?M2" using ends_node.IH ck cd(1) by blast
      have sib: "\<not> sub kids c m" if "d \<in> set ks" "sub kids d m" for d m
      proof -
        have "d \<in> set (kids n)" "d \<noteq> c" using that(1) Cons.prems(1,2) by auto
        then show ?thesis using sub_siblings [OF assms(1) ends _ ck _ that(2)] by blast
      qed
      have nk: "\<not> sub kids d n" if "d \<in> set ks" for d using ends_no_cycle [OF ends] Cons.prems(1) that by auto
      have "free_node ?M2 n = Some (\<lambda>m. if m = n \<or> (\<exists>c \<in> set ks. sub kids c m) then map_option released (N0 m) else ?M2 m)"
      proof (rule Cons.IH)
        show "\<forall>d \<in> set ks. \<forall>m. sub kids d m \<longrightarrow> ?M2 m = N0 m" using Cons.prems(5) sib nk by auto
      qed (use Cons.prems(1,2) cd(3) nc in simp_all)
      moreover have "free_node M n = Option.bind (free_node ?M1 c) (\<lambda>N. free_node N n)"
        using Cons.prems(4) cd(2) Mc dir by (simp add: free_node.simps [of M n])
      ultimately show ?case unfolding f by (auto simp: fun_eq_iff)
    qed
    have "free_node N n = Some (\<lambda>m. if m = n \<or> (\<exists>c \<in> set (kids n). sub kids c m) then map_option released (N0 m) else N m)"
      by (rule loop [OF subset_refl dh(2,1)]) (use N ends_node.prems(3) in \<open>auto intro: sub.intros\<close>)
    then show ?thesis unfolding sub_cases [of kids n] .
  qed
qed

section \<open>What programs make of the tree\<close>

lemma ends_append:
  "ends kids m \<Longrightarrow> kids n = [] \<Longrightarrow> n \<noteq> d \<Longrightarrow> ends (kids(d := kids d @ [n])) m"
proof (induction rule: ends.induct)
  case (ends_node m)
  have "ends (kids(d := kids d @ [n])) n" by (rule ends.intros) (use ends_node.prems in simp)
  moreover have "set ((kids(d := kids d @ [n])) m) \<subseteq> insert n (set (kids m))" by auto
  ultimately show ?case using ends_node.IH ends_node.prems by (intro ends.intros) blast
qed

lemma ends_subset:
  "ends kids m \<Longrightarrow> (\<And>d. set (kids' d) \<subseteq> set (kids d)) \<Longrightarrow> ends kids' m"
  by (induction rule: ends.induct) (blast intro: ends.intros)

lemma linked_cong:
  assumes "linked N kids" "\<And>d c. c \<in> set (kids' d) \<Longrightarrow> c \<in> set (kids d)
    \<and> map_option (\<lambda>nd. (n_type nd, n_data nd)) (N' c) = map_option (\<lambda>nd. (n_type nd, n_data nd)) (N c)"
  shows "linked N' kids'"
  unfolding linked_def
proof (intro allI ballI impI)
  fix d c nd assume h: "c \<in> set (kids' d)" "N' c = Some nd" "n_type nd = FSNODE_FILE"
  then obtain nd0 where "N c = Some nd0" "n_type nd = n_type nd0" "n_data nd = n_data nd0"
    using assms(2) [OF h(1)] by (cases "N c") auto
  moreover have "c \<in> set (kids d)" using assms(2) [OF h(1)] by blast
  ultimately have "n_data nd0 \<noteq> None" using assms(1) h(3) unfolding linked_def by metis
  then show "n_data nd \<noteq> None" using \<open>n_data nd = n_data nd0\<close> by simp
qed

lemma meta_eq: "map_option meta a = map_option meta b \<Longrightarrow>
    map_option (\<lambda>nd. (n_type nd, n_data nd)) a = map_option (\<lambda>nd. (n_type nd, n_data nd)) b"
  by (cases a; cases b) (auto simp: meta_def)

definition sound :: "store \<Rightarrow> (nid \<Rightarrow> nid list) \<Rightarrow> bool" where
  "sound N kids \<longleftrightarrow> mem_inv N kids \<and> (\<forall>n. ends kids n) \<and> linked N kids"

lemma sound_step:
  assumes "sound N kids" "mem_step N N'"
  shows "(\<exists>kids'. sound N' kids') \<and> (\<forall>m. map_option n_type (N m) = Some FSNODE_DIR \<longrightarrow> map_option n_type (N' m) = Some FSNODE_DIR)"
proof -
  have inv: "mem_inv N kids" and en: "\<forall>n. ends kids n" and li: "linked N kids" using assms(1) by (simp_all add: sound_def)
  have tr: "tree N kids" using inv by (simp add: mem_inv_def)
  from assms(2) show ?thesis
  proof (cases rule: mem_step.cases)
    case (Create d dn n name ty)
    have i: "mem_inv N' (kids(d := kids d @ [n]))" by (rule inv_create [OF inv Create(1-3,5)])
    obtain nd where c: "N' n = Some nd" "meta nd = (Some d, Some [], 0, 0, ty, None)"
      "\<And>m. m \<noteq> n \<Longrightarrow> map_option n_type (N' m) = map_option n_type (N m) \<and> map_option meta (N' m) = map_option meta (N m)"
      using mem_create_tree [OF tr Create(1-3), of ty name] Create(5) by auto
    have kn: "kids n = []" "n \<noteq> d" using tree_none [OF tr Create(3)] Create(1,3) by auto
    have nk: "n \<notin> set (kids e)" for e using tree_kid [OF tr, of n e] Create(3) by (metis option.distinct(1))
    have "linked N' kids"
    proof (rule linked_cong [OF li])
      fix e m assume m: "m \<in> set (kids e)"
      then have "m \<noteq> n" using nk [of e] by metis
      then show "m \<in> set (kids e) \<and> map_option (\<lambda>nd. (n_type nd, n_data nd)) (N' m) = map_option (\<lambda>nd. (n_type nd, n_data nd)) (N m)"
        using c(3) m meta_eq by blast
    qed
    then have "linked N' (kids(d := kids d @ [n]))" using c(1,2) by (auto simp: linked_def meta_def)
    moreover have "\<forall>m. ends (kids(d := kids d @ [n])) m" using en ends_append kn by blast
    moreover have "map_option n_type (N' m) = Some FSNODE_DIR" if "map_option n_type (N m) = Some FSNODE_DIR" for m
      using c(3) [of m] that Create(3) by (cases "m = n") simp_all
    ultimately show ?thesis using i unfolding sound_def by blast
  next
    case (Remove n r err)
    from inv_remove [OF inv Remove(2)] obtain kids' where k: "mem_inv N' kids'"
      "N' = N \<and> kids' = kids \<or> (\<exists>d. n \<in> set (kids d) \<and> kids' = kids(d := remove1 n (kids d))
        \<and> (\<forall>m. m \<noteq> n \<longrightarrow> map_option meta (N' m) = map_option meta (N m)) \<and> map_option n_type (N' n) = map_option n_type (N n))" by blast
    from k(2) show ?thesis
    proof
      assume "N' = N \<and> kids' = kids"
      then show ?thesis using assms(1) by blast
    next
      assume "\<exists>d. n \<in> set (kids d) \<and> kids' = kids(d := remove1 n (kids d))
        \<and> (\<forall>m. m \<noteq> n \<longrightarrow> map_option meta (N' m) = map_option meta (N m)) \<and> map_option n_type (N' n) = map_option n_type (N n)"
      then obtain d where d: "n \<in> set (kids d)" "kids' = kids(d := remove1 n (kids d))"
        "\<And>m. m \<noteq> n \<Longrightarrow> map_option meta (N' m) = map_option meta (N m)" "map_option n_type (N' n) = map_option n_type (N n)" by blast
      obtain dn where dn: "N d = Some dn" using d(1) tree_none [OF tr, of d] by (cases "N d") auto
      then have "n_type dn = FSNODE_DIR" using d(1) tree_at [OF tr dn] by (auto split: if_splits)
      then have "distinct (kids d)" using tree_dir [OF tr dn] dn by (simp add: dir_has_def)
      then have s: "set (kids' e) = set (kids e) - {n}" for e
        using d(2) tree_disjoint [OF tr d(1), of e] by (cases "e = d") (auto simp: set_remove1_eq)
      have "linked N' kids'"
      proof (rule linked_cong [OF li])
        fix e m assume "m \<in> set (kids' e)"
        then have "m \<in> set (kids e)" "m \<noteq> n" using s [of e] by simp_all
        then show "m \<in> set (kids e) \<and> map_option (\<lambda>nd. (n_type nd, n_data nd)) (N' m) = map_option (\<lambda>nd. (n_type nd, n_data nd)) (N m)"
          using meta_eq [OF d(3)] by blast
      qed
      moreover have "\<forall>m. ends kids' m" using en ends_subset [of kids _ kids'] s by (metis Diff_subset)
      moreover have "map_option n_type (N' m) = map_option n_type (N m)" for m
      proof (cases "m = n")
        case False
        then show ?thesis using d(3) [OF False] by (cases "N m"; cases "N' m") (auto simp: meta_def)
      qed (use d(4) in simp)
      ultimately show ?thesis using k(1) unfolding sound_def by auto
    qed
  next
    case (Rename n name)
    have "mem_inv N' kids" unfolding Rename mem_rename_def
      by (rule inv_fields [OF inv]) (auto simp: upd_same file_ok_def)
    moreover have "linked N' kids" unfolding Rename mem_rename_def
      by (rule linked_cong [OF li]) (simp add: upd_same option.map_comp comp_def)
    moreover have "map_option n_type (N' m) = map_option n_type (N m)" for m
      unfolding Rename mem_rename_def by (simp add: upd_same option.map_comp comp_def)
    ultimately show ?thesis using en unfolding sound_def by auto
  next
    case (Write n nd f room buf r err nd' f')
    have w: "n_parent nd' = n_parent nd \<and> n_type nd' = n_type nd \<and> n_clist nd' = n_clist nd \<and> n_ctail nd' = n_ctail nd \<and> n_next nd' = n_next nd
      \<and> n_data nd \<noteq> None" by (rule mem_write_fields [OF Write(5)])
    have "file_ok nd" using inv Write(2) w unfolding mem_inv_def by metis
    then have ok: "file_ok nd'" by (rule mem_write_file_ok [OF Write(5,4)])
    have "mem_inv N' kids" unfolding Write(1)
      by (rule inv_fields [OF inv]) (use Write(2) w ok in auto)
    moreover have "linked N' kids" unfolding Write(1) using li ok by (auto simp: linked_def file_ok_def)
    moreover have "map_option n_type (N' m) = map_option n_type (N m)" for m unfolding Write(1) using Write(2) w by simp
    ultimately show ?thesis using en unfolding sound_def by auto
  next
    case (Open n h)
    have "mem_inv N' kids" unfolding Open
      by (rule inv_fields [OF inv]) (auto simp: upd_same file_ok_def)
    moreover have "linked N' kids" unfolding Open
      by (rule linked_cong [OF li]) (simp add: upd_same option.map_comp comp_def)
    moreover have "map_option n_type (N' m) = map_option n_type (N m)" for m
      unfolding Open by (simp add: upd_same option.map_comp comp_def)
    ultimately show ?thesis using en unfolding sound_def by auto
  qed
qed

lemma reach_sound:
  "mem_reach r N \<Longrightarrow> (\<exists>kids. sound N kids) \<and> map_option n_type (N r) = Some FSNODE_DIR"
proof (induction rule: mem_reach.induct)
  case 1
  have "mem_inv (new_store r) (\<lambda>_. [])" using new_tree by (auto simp: mem_inv_def new_store_def alloc_node_def file_ok_def)
  moreover have "ends (\<lambda>_. []) n" for n by (rule ends.intros) simp
  ultimately have "sound (new_store r) (\<lambda>_. [])" by (simp add: sound_def linked_def)
  moreover have "map_option n_type (new_store r r) = Some FSNODE_DIR" by (simp add: new_store_def alloc_node_def)
  ultimately show ?case by blast
next
  case (2 N N')
  then show ?case using sound_step by blast
qed

text \<open>C35: whatever a program has done to a memory file system, releasing it ends, releases the bytes of every file that is still in a directory
  exactly once, empties every directory and touches nothing else.\<close>

theorem memfs_destroy_releases:
  assumes "mem_reach r N"
  shows "\<exists>kids. tree N kids \<and> memfs_destroy N r = Some (\<lambda>m. if sub kids r m then map_option released (N m) else N m)"
proof -
  obtain kids nd where k: "sound N kids" "N r = Some nd" "n_type nd = FSNODE_DIR" using reach_sound [OF assms] by auto
  then have t: "tree N kids" "linked N kids" "ends kids r" by (simp_all add: sound_def mem_inv_def)
  show ?thesis unfolding memfs_destroy_def using free_node_tree [OF t k(2), of N] k(3) t(1) by auto
qed

lemma memfs_destroy_releases_witness:
  "\<exists>N kids. mem_create (new_store 0) 0 1 FSNODE_FILE [97] = Some N \<and> tree N kids
    \<and> memfs_destroy N 0 = Some (\<lambda>m. if sub kids 0 m then map_option released (N m) else N m)"
proof -
  have c: "mem_create (new_store 0) 0 1 FSNODE_FILE [97] \<noteq> None"
    by (simp add: mem_create_def add_child_def new_store_def alloc_node_def)
  then obtain N where N: "mem_create (new_store 0) 0 1 FSNODE_FILE [97] = Some N" by blast
  have "mem_find_entry (new_store 0) 0 [97] = Some None"
    by (simp add: new_store_def alloc_node_def mem_find_entry_def find_child.simps [of _ None] strcmp_def)
  then have "mem_step (new_store 0) N" using N by (intro mem_step.Create [of _ 0 "alloc_node FSNODE_DIR"]) (simp_all add: new_store_def alloc_node_def)
  then have "mem_reach 0 N" by (intro mem_reach.intros(2) [OF mem_reach.intros(1)])
  from memfs_destroy_releases [OF this] show ?thesis using N by blast
qed

end
