(* ===== verification/Kmain.thy ===== *)
theory Kmain
  imports Keyboard Stdio
begin

text \<open>
  Waiting for keys (\<open>kb_wait\<close> of \<open>src/keyb.c\<close>) and the loop of \<open>src/kmain.c\<close> that takes the keys, starts what is bound to them and prints
  them. A processor that is halted is woken by interrupts: by a byte from the keyboard, or by another device.
\<close>

section \<open>Waiting for a key\<close>

text \<open>The interrupts to come; \<open>None\<close> when the processor stays halted after the last of them.\<close>

fun kb_wait :: "u8 option list \<Rightarrow> keyb \<Rightarrow> (fault + keyb) option" where
  "kb_wait irqs s = (
     let key = fst (kb_getkey s); s = snd (kb_getkey s)
     in if key \<noteq> -1 then Some (Inr (kb_putback key s))
        else (case irqs of
            [] \<Rightarrow> None
          | None # irqs \<Rightarrow> kb_wait irqs (exec enable_intr s)
          | Some b # irqs \<Rightarrow> (case kb_irq b (exec enable_intr s) of Inl e \<Rightarrow> Some (Inl e) | Inr s \<Rightarrow> kb_wait irqs s)))"

declare kb_wait.simps [simp del]

text \<open>What the interrupts do without the waiting.\<close>

fun kb_irqs :: "u8 option list \<Rightarrow> keyb \<Rightarrow> fault + keyb" where
  "kb_irqs [] s = Inr s"
| "kb_irqs (None # irqs) s = kb_irqs irqs (exec enable_intr s)"
| "kb_irqs (Some b # irqs) s = (case kb_irq b (exec enable_intr s) of Inl e \<Rightarrow> Inl e | Inr s \<Rightarrow> kb_irqs irqs s)"

lemma enable_keeps:
  "kb_ok (s\<lparr>intr_on := b\<rparr>) = kb_ok s" "kb_queue (s\<lparr>intr_on := b\<rparr>) = kb_queue s" for s :: keyb
  by (simp_all add: kb_ok_def kb_inv_def kb_queue_def)

lemma getkey_some:
  assumes "kb_ok s" "kb_queue s \<noteq> []"
  shows "fst (kb_getkey s) \<noteq> -1" "kb_queue (kb_putback (fst (kb_getkey s)) (snd (kb_getkey s))) = kb_queue s"
    "kb_ok (kb_putback (fst (kb_getkey s)) (snd (kb_getkey s)))"
proof -
  obtain k ks where q: "kb_queue s = k # ks" using assms(2) by (cases "kb_queue s") auto
  have inv: "kb_inv s" using assms(1) by (simp add: kb_ok_def)
  note g = kb_queue_getkey [OF inv q]
  have inv': "kb_inv (snd (kb_getkey s))" by (rule kb_getkey_inv [OF inv])
  have "length (kb_queue s) \<le> 63" using kbq.queue_bounded [OF assms(1)] .
  then have "length (kb_queue (snd (kb_getkey s))) < 63" using g q by simp
  then show p: "kb_queue (kb_putback (fst (kb_getkey s)) (snd (kb_getkey s))) = kb_queue s"
    using kb_queue_putback(2) [OF inv', of k] g q by simp
  show "kb_ok (kb_putback (fst (kb_getkey s)) (snd (kb_getkey s)))"
    using kb_queue_putback(1) [OF inv'] assms(1) p by (simp add: kb_ok_def)
  show "fst (kb_getkey s) \<noteq> -1" using g q assms(1) by (auto simp: kb_ok_def)
qed

lemma getkey_none: "kb_ok s \<Longrightarrow> kb_queue s = [] \<Longrightarrow> kb_getkey s = (-1, s)"
  using kb_queue_empty [of s] by (simp add: kb_ok_def kb_getkey_def)

text \<open>\<open>kb_wait\<close> returns at the first point at which there are keys, and leaves them all to be read.\<close>

lemma kb_wait_returns:
  assumes "kb_ok s" "kb_irqs irqs s = Inr t" "kb_queue t \<noteq> []"
  shows "\<exists>n u s'. kb_irqs (take n irqs) s = Inr u \<and> (\<forall>m < n. \<exists>v. kb_irqs (take m irqs) s = Inr v \<and> kb_queue v = [])
    \<and> kb_wait irqs s = Some (Inr s') \<and> kb_queue s' = kb_queue u \<and> kb_queue u \<noteq> [] \<and> kb_ok s'"
  using assms
proof (induction irqs arbitrary: s)
  case Nil
  then show ?case using getkey_some [OF Nil.prems(1)] by (intro exI [of _ 0]) (simp add: kb_wait.simps Let_def)
next
  case (Cons i irqs)
  show ?case
  proof (cases "kb_queue s = []")
    case False
    then show ?thesis using getkey_some [OF Cons.prems(1)] by (intro exI [of _ 0]) (simp add: kb_wait.simps Let_def)
  next
    case True
    note g = getkey_none [OF Cons.prems(1) True]
    obtain s1 where s1: "kb_irqs (i # irqs') s = kb_irqs irqs' s1" "kb_wait (i # irqs') s = kb_wait irqs' s1" "kb_ok s1" for irqs'
    proof (cases i)
      case None
      then show ?thesis using that [of "exec enable_intr s"] g Cons.prems(1) by (simp add: kb_wait.simps [of "None # _"] enable_keeps)
    next
      case (Some b)
      then obtain s1 where b: "kb_irq b (exec enable_intr s) = Inr s1" using Cons.prems(2) by (auto split: sum.splits)
      then have "kb_ok s1" using kb_irq_step(1) [OF _ b] Cons.prems(1) by (simp add: enable_keeps)
      then show ?thesis using that [of s1] g b Some by (simp add: kb_wait.simps [of "Some b # _"])
    qed
    have "kb_irqs irqs s1 = Inr t" using Cons.prems(2) s1(1) by simp
    from Cons.IH [OF s1(3) this Cons.prems(3)] obtain n u s' where
      n: "kb_irqs (take n irqs) s1 = Inr u" "\<forall>m < n. \<exists>v. kb_irqs (take m irqs) s1 = Inr v \<and> kb_queue v = []"
        "kb_wait irqs s1 = Some (Inr s')" "kb_queue s' = kb_queue u" "kb_queue u \<noteq> []" "kb_ok s'" by blast
    have "\<exists>v. kb_irqs (take m (i # irqs)) s = Inr v \<and> kb_queue v = []" if "m < Suc n" for m
    proof (cases m)
      case 0
      then show ?thesis using True by simp
    next
      case (Suc m')
      then show ?thesis using n(2) that s1(1) by simp
    qed
    then show ?thesis using n s1 by (intro exI [of _ "Suc n"] exI [of _ u] exI [of _ s']) simp
  qed
qed

section \<open>The functions bound to keys\<close>

text \<open>The keyboard's interrupts go on while keys are served: a stream holds the bytes that arrive in each of the stretches of time
  that follow one another, a frame of \<open>logohack\<close>, a halt of \<open>vbetest\<close> or of the main loop, or the time a key's line takes to print.
  Both functions take keys themselves. Here they are what they do to the keyboard; \<open>None\<close> is that they have not
  ended with the stream. What they show is left out, for \<open>vbetest\<close> it is in a theory of its own.\<close>

type_synonym stream = "u8 list list"

text \<open>\<open>logohack\<close> of \<open>src/startup.s\<close> looks for one key after each frame and ends at Escape.\<close>

fun logohack :: "stream \<Rightarrow> keyb \<Rightarrow> (fault + stream \<times> keyb) option" where
  "logohack [] s = None"
| "logohack (bs # rs) s = (case kb_feed bs s of
     Inl e \<Rightarrow> Some (Inl e)
   | Inr s \<Rightarrow> (let key = fst (kb_getkey s); s = snd (kb_getkey s)
       in if key = 27 then Some (Inr (rs, s)) else logohack rs s))"

text \<open>The loops of \<open>src/test/vbetest.c\<close>: it drops the keys that are waiting and ends at the next.\<close>

partial_function (option) kb_drain :: "keyb \<Rightarrow> keyb option" where
  "kb_drain s = (if fst (kb_getkey s) \<noteq> -1 then kb_drain (snd (kb_getkey s)) else Some (snd (kb_getkey s)))"

declare kb_drain.simps [code]

fun test_keys :: "stream \<Rightarrow> keyb \<Rightarrow> (fault + stream \<times> keyb) option" where
  "test_keys rs s = (
     let key = fst (kb_getkey s); s = snd (kb_getkey s)
     in if key \<noteq> -1 then Some (Inr (rs, s))
        else (case rs of
            [] \<Rightarrow> None
          | bs # rs \<Rightarrow> (case kb_feed bs s of Inl e \<Rightarrow> Some (Inl e) | Inr s \<Rightarrow> test_keys rs s)))"

declare test_keys.simps [simp del]

section \<open>The main loop\<close>

text \<open>\<open>vbe\<close> tells whether the video BIOS sets a mode for \<open>vbetest\<close>, which returns at once otherwise.\<close>

datatype task = Logohack | Vbetest

definition key_task :: "int \<Rightarrow> task option" where
  "key_task c = (if c = KB_F1 then Some Logohack else if c = KB_F2 then Some Vbetest else None)"

definition run_task :: "bool \<Rightarrow> task option \<Rightarrow> stream \<Rightarrow> keyb \<Rightarrow> (fault + stream \<times> keyb) option" where
  "run_task vbe t rs s = (case t of
     None \<Rightarrow> Some (Inr (rs, s))
   | Some Logohack \<Rightarrow> logohack rs s
   | Some Vbetest \<Rightarrow> if vbe then Option.bind (kb_drain s) (test_keys rs) else Some (Inr (rs, s)))"

fun take_round :: "stream \<Rightarrow> keyb \<Rightarrow> fault + stream \<times> keyb" where
  "take_round [] s = Inr ([], s)"
| "take_round (bs # rs) s = (case kb_feed bs s of Inl e \<Rightarrow> Inl e | Inr s \<Rightarrow> Inr (rs, s))"

text \<open>\<open>"key: %d '%c'\n"\<close> and \<open>"key: %d\n"\<close>.\<close>

definition key_fmt :: cstring where "key_fmt = [107, 101, 121, 58, 32, 37, 100, 10]"
definition key_char_fmt :: cstring where "key_char_fmt = [107, 101, 121, 58, 32, 37, 100, 32, 39, 37, 99, 39, 10]"

definition print_key :: "int \<Rightarrow> sink \<Rightarrow> (nat \<times> sink) option" where
  "print_key c out =
     (if isprint c then printf key_char_fmt [IntArg (word_of_int c), IntArg (word_of_int c)] out
      else printf key_fmt [IntArg (word_of_int c)] out)"

text \<open>The loop over the keys. With each key come the functions started before it and what is printed.\<close>

partial_function (option) key_loop :: "bool \<Rightarrow> stream \<Rightarrow> keyb \<Rightarrow> task list \<Rightarrow> sink \<Rightarrow> (fault + stream \<times> keyb \<times> task list \<times> sink) option" where
  "key_loop vbe rs s tasks out = (
     let c = fst (kb_getkey s); s = snd (kb_getkey s)
     in if c < 0 then Some (Inr (rs, s, tasks, out))
        else (case run_task vbe (key_task c) rs s of
            None \<Rightarrow> None
          | Some (Inl e) \<Rightarrow> Some (Inl e)
          | Some (Inr (rs, s)) \<Rightarrow> (case print_key c out of
              None \<Rightarrow> None
            | Some (n, out) \<Rightarrow> (case take_round rs s of
                Inl e \<Rightarrow> Some (Inl e)
              | Inr (rs, s) \<Rightarrow> key_loop vbe rs s (case key_task c of None \<Rightarrow> tasks | Some t \<Rightarrow> tasks @ [t]) out))))"

text \<open>The loop of \<open>pcboot_main\<close>, up to the halt after which nothing more arrives.\<close>

partial_function (option) main_loop :: "bool \<Rightarrow> stream \<Rightarrow> keyb \<Rightarrow> task list \<Rightarrow> sink \<Rightarrow> (fault + keyb \<times> task list \<times> sink) option" where
  "main_loop vbe rs s tasks out = (case rs of
     [] \<Rightarrow> Some (Inr (s, tasks, out))
   | bs # rs \<Rightarrow> (case kb_feed bs s of
       Inl e \<Rightarrow> Some (Inl e)
     | Inr s \<Rightarrow> (case key_loop vbe rs s tasks out of
         None \<Rightarrow> None
       | Some (Inl e) \<Rightarrow> Some (Inl e)
       | Some (Inr (rs, s, tasks, out)) \<Rightarrow> main_loop vbe rs s tasks out)))"

definition key_pieces :: "int \<Rightarrow> piece list" where
  "key_pieces c = (if isprint c then [Lit [107, 101, 121, 58, 32], Dec False 0 (word_of_int c), Lit [32, 39], Chr (word_of_int c), Lit [39, 10]]
     else [Lit [107, 101, 121, 58, 32], Dec False 0 (word_of_int c), Lit [10]])"

text \<open>The line of a key: its number, and the character it prints as.\<close>

definition key_line :: "int \<Rightarrow> cstring" where
  "key_line c = [107, 101, 121, 58, 32] @ numeral_text 10 (nat c)
     @ (if isprint c then [32, 39, word_of_int c, 39] else []) @ [10]"

lemma print_key_text:
  assumes "0 \<le> c" "c < 256"
  shows "print_key c out = Some (length (key_line c), out\<lparr>s_con := s_con out @ key_line c\<rparr>)"
proof -
  have "sint (word_of_int c :: u32) = c" using assms by (simp add: sint_uint uint_word_of_int take_bit_int_eq_self signed_take_bit_int_eq_self)
  moreover have "ucast (word_of_int c :: u32) = (word_of_int c :: u8)" by (rule bit_word_eqI) (auto simp: bit_simps)
  ultimately have r: "render False (key_pieces c) = key_line c" and g: "\<forall>pc \<in> set (key_pieces c). good_piece pc"
    using assms by (simp_all add: key_pieces_def key_line_def padded_def int_text_def)
  have "concat (map piece_fmt (key_pieces c)) = (if isprint c then key_char_fmt else key_fmt)"
    "concat (map piece_args (key_pieces c)) = (if isprint c then [IntArg (word_of_int c), IntArg (word_of_int c)] else [IntArg (word_of_int c)])"
    by (simp_all add: key_pieces_def flags_def key_char_fmt_def key_fmt_def)
  then show ?thesis using printf_pieces [OF g, of out] unfolding r print_key_def by (simp split: if_splits)
qed

section \<open>The keys that are served\<close>

text \<open>What the kernel promises, over the waiting keys alone: of those that arrive, the newest 63 wait, in their order.\<close>

definition arrive :: "u8 list \<Rightarrow> bool \<times> int list \<Rightarrow> bool \<times> int list" where
  "arrive bs a = (let ks = snd a @ pressed (kb_decode (fst a) bs) in (decode_ext (fst a) bs, drop (length ks - 63) ks))"

text \<open>\<open>logohack\<close> takes at most a key for each frame, until it has taken Escape; the other test drops all keys that wait and takes the first that comes then.\<close>

fun logo_takes :: "stream \<Rightarrow> bool \<times> int list \<Rightarrow> (stream \<times> bool \<times> int list) option" where
  "logo_takes [] a = None"
| "logo_takes (bs # rs) a = (case arrive bs a of
     (e, []) \<Rightarrow> logo_takes rs (e, [])
   | (e, k # ks) \<Rightarrow> if k = KB_ESC then Some (rs, e, ks) else logo_takes rs (e, ks))"

fun test_takes :: "stream \<Rightarrow> bool \<times> int list \<Rightarrow> (stream \<times> bool \<times> int list) option" where
  "test_takes [] a = None"
| "test_takes (bs # rs) a = (case arrive bs a of (e, []) \<Rightarrow> test_takes rs (e, []) | (e, k # ks) \<Rightarrow> Some (rs, e, ks))"

definition task_takes :: "bool \<Rightarrow> task option \<Rightarrow> stream \<Rightarrow> bool \<times> int list \<Rightarrow> (stream \<times> bool \<times> int list) option" where
  "task_takes vbe t rs a = (case t of
     None \<Rightarrow> Some (rs, a)
   | Some Logohack \<Rightarrow> logo_takes rs a
   | Some Vbetest \<Rightarrow> if vbe then test_takes rs (fst a, []) else Some (rs, a))"

lemma logo_takes_less: "logo_takes rs a = Some (rs', a') \<Longrightarrow> length rs' < length rs"
  by (induction rs a rule: logo_takes.induct) (fastforce split: prod.splits list.splits if_splits)+

lemma test_takes_less: "test_takes rs a = Some (rs', a') \<Longrightarrow> length rs' < length rs"
  by (induction rs a rule: test_takes.induct) (fastforce split: prod.splits list.splits if_splits)+

lemma task_takes_le: "task_takes vbe t rs a = Some (rs', a') \<Longrightarrow> length rs' < length rs \<or> rs' = rs \<and> a' = a"
  using logo_takes_less [of rs a rs' a'] test_takes_less [of rs "(fst a, [])" rs' a']
  by (auto simp: task_takes_def split: option.splits task.splits if_splits)

text \<open>The keys the main loop serves, in order: after each, what is bound to it takes its own, and more may arrive; a halt follows when none waits.\<close>

function serve :: "bool \<Rightarrow> stream \<Rightarrow> bool \<Rightarrow> int list \<Rightarrow> int list option" where
  "serve vbe rs e [] = (case rs of
     [] \<Rightarrow> Some []
   | bs # rs \<Rightarrow> serve vbe rs (fst (arrive bs (e, []))) (snd (arrive bs (e, []))))"
| "serve vbe rs e (k # ks) = (case task_takes vbe (key_task k) rs (e, ks) of
     None \<Rightarrow> None
   | Some (rs, a) \<Rightarrow> map_option ((#) k) (case rs of
       [] \<Rightarrow> serve vbe [] (fst a) (snd a)
     | bs # rs \<Rightarrow> serve vbe rs (fst (arrive bs a)) (snd (arrive bs a))))"
  by pat_completeness auto
termination
  by (relation "measures [\<lambda>(_, rs, _, _). length rs, \<lambda>(_, _, _, q). length q]") (auto dest!: task_takes_le)

text \<open>The Delete key with Alt and Ctrl held restarts the machine.\<close>

abbreviation no_del :: "stream \<Rightarrow> bool" where "no_del rs \<equiv> \<forall>bs \<in> set rs. 0x53 \<notin> set bs"

definition waiting :: "bool \<times> int list \<Rightarrow> keyb \<Rightarrow> bool" where
  "waiting a s \<longleftrightarrow> kb_ok s \<and> kb_ext s = fst a \<and> kb_queue s = snd a \<and> (\<forall>k \<in> set (snd a). 0 \<le> k \<and> k < 256)"

lemma only_del:
  assumes "key_of e b = KB_DEL" "\<not> bit b 7"
  shows "b = 0x53"
proof -
  have t: "\<forall>n \<in> set [0..<128]. scantbl_set1 ! n \<noteq> KB_DEL \<and> (scantbl_set1_ext ! n = KB_DEL \<longrightarrow> n = 83)" by code_simp
  have "unat b \<in> set [0..<128]" using unat_code_less [of b] code_and_7f [OF assms(2)] by simp
  from bspec [OF t this] assms(1) have "unat b = 83" using code_and_7f [OF assms(2)] by (simp add: key_of_def split: if_splits)
  then show ?thesis by (simp add: word_unat_eq_iff)
qed

lemma feed_returns: "0x53 \<notin> set bs \<Longrightarrow> \<exists>s'. kb_feed bs s = Inr s'"
proof (induction bs arbitrary: s)
  case (Cons b bs)
  then have "\<not> (\<not> bit b 7 \<and> key_of (kb_ext s) b = KB_DEL)" using only_del by fastforce
  then obtain s1 where "kb_irq b s = Inr s1" using kb_irq_reboot [of b s] by (cases "kb_irq b s") auto
  then show ?case using Cons by simp
qed simp

lemma feed_ext: "kb_ok s \<Longrightarrow> kb_feed bs s = Inr s' \<Longrightarrow> kb_ext s' = decode_ext (kb_ext s) bs"
proof (induction bs arbitrary: s)
  case (Cons b bs)
  then obtain s1 where s1: "kb_irq b s = Inr s1" "kb_feed bs s1 = Inr s'" by (auto split: sum.splits)
  note st = kb_irq_step [OF Cons.prems(1) s1(1)]
  show ?case using Cons.IH [OF st(1) s1(2)] st(4) by simp
qed simp

lemma waiting_feed:
  assumes "waiting a s" "0x53 \<notin> set bs"
  shows "\<exists>s'. kb_feed bs s = Inr s' \<and> waiting (arrive bs a) s'"
proof -
  obtain s' where s': "kb_feed bs s = Inr s'" using feed_returns [OF assms(2)] by blast
  have ok: "kb_ok s" using assms(1) by (simp add: waiting_def)
  have "\<forall>k \<in> set (pressed (kb_decode e bs)). 0 \<le> k \<and> k < 256" for e using kb_decode_range by (fastforce simp: pressed_def)
  then have "waiting (arrive bs a) s'"
    using assms(1) kb_feed_ok [OF ok s'] kb_feed_queue_take [OF ok s'] feed_ext [OF ok s']
    by (auto simp: waiting_def arrive_def Let_def dest!: in_set_dropD)
  then show ?thesis using s' by blast
qed

lemma waiting_none: "waiting (e, []) s \<Longrightarrow> kb_getkey s = (-1, s)"
  using getkey_none by (simp add: waiting_def)

lemma waiting_key:
  assumes "waiting (e, k # ks) s"
  shows "fst (kb_getkey s) = k" "waiting (e, ks) (snd (kb_getkey s))" "0 \<le> k" "k < 256"
proof -
  have inv: "kb_inv s" and q: "kb_queue s = k # ks" using assms by (simp_all add: waiting_def kb_ok_def)
  note g = kb_queue_getkey [OF inv q]
  show "fst (kb_getkey s) = k" using g by simp
  show "0 \<le> k" "k < 256" using assms by (simp_all add: waiting_def)
  have "kb_ext (snd (kb_getkey s)) = kb_ext s" by (simp add: kb_getkey_def)
  then show "waiting (e, ks) (snd (kb_getkey s))"
    using assms g kb_getkey_inv [OF inv] q by (auto simp: waiting_def kb_ok_def)
qed

lemma logohack_takes:
  "logo_takes rs a = Some (rs', a') \<Longrightarrow> waiting a s \<Longrightarrow> no_del rs \<Longrightarrow>
    \<exists>s'. logohack rs s = Some (Inr (rs', s')) \<and> waiting a' s' \<and> no_del rs'"
proof (induction rs arbitrary: a s)
  case (Cons bs rs)
  obtain s1 where s1: "kb_feed bs s = Inr s1" "waiting (arrive bs a) s1" using waiting_feed [OF Cons.prems(2)] Cons.prems(3) by auto
  obtain e q where eq: "arrive bs a = (e, q)" by (cases "arrive bs a")
  show ?case
  proof (cases q)
    case Nil
    then show ?thesis using Cons.IH [of "(e, [])" s1] Cons.prems waiting_none s1 eq by simp
  next
    case (Cons k ks)
    note w = waiting_key [of e k ks s1]
    show ?thesis using Cons.IH [of "(e, ks)" "snd (kb_getkey s1)"] Cons.prems w s1 eq Cons
      by (auto simp: Let_def KB_ESC_def split: if_splits)
  qed
qed simp

lemma kb_drain_empties: "kb_ok s \<Longrightarrow> \<exists>s'. kb_drain s = Some s' \<and> kb_ok s' \<and> kb_queue s' = [] \<and> kb_ext s' = kb_ext s"
proof (induction "kb_queue s" arbitrary: s)
  case Nil
  then show ?case using getkey_none [OF Nil.prems] by (simp add: kb_drain.simps [of s])
next
  case (Cons k ks)
  have inv: "kb_inv s" using Cons.prems by (simp add: kb_ok_def)
  note g = kb_queue_getkey [OF inv Cons.hyps(2) [symmetric]]
  have ok: "kb_ok (snd (kb_getkey s))" using kb_getkey_inv [OF inv] g Cons.prems Cons.hyps(2) [symmetric] by (simp add: kb_ok_def)
  have "fst (kb_getkey s) \<noteq> -1" using g Cons.prems Cons.hyps(2) [symmetric] by (auto simp: kb_ok_def)
  then have "kb_drain s = kb_drain (snd (kb_getkey s))" by (simp add: kb_drain.simps [of s])
  moreover have "kb_ext (snd (kb_getkey s)) = kb_ext s" by (simp add: kb_getkey_def)
  ultimately show ?case using Cons.hyps(1) [of "snd (kb_getkey s)"] g ok by simp
qed

lemma test_keys_takes:
  "test_takes rs (e, []) = Some (rs', a') \<Longrightarrow> waiting (e, []) s \<Longrightarrow> no_del rs \<Longrightarrow>
    \<exists>s'. test_keys rs s = Some (Inr (rs', s')) \<and> waiting a' s' \<and> no_del rs'"
proof (induction rs arbitrary: e s)
  case (Cons bs rs)
  obtain s1 where s1: "kb_feed bs s = Inr s1" "waiting (arrive bs (e, [])) s1" using waiting_feed [OF Cons.prems(2)] Cons.prems(3) by auto
  obtain e1 q where eq: "arrive bs (e, []) = (e1, q)" by (cases "arrive bs (e, [])")
  have t: "test_keys (bs # rs) s = test_keys rs s1"
    using waiting_none [OF Cons.prems(2)] s1(1) by (simp add: test_keys.simps [of "bs # rs"])
  show ?case
  proof (cases q)
    case Nil
    then show ?thesis using Cons.IH [of e1 s1] Cons.prems s1 eq t by simp
  next
    case (Cons k ks)
    have "fst (kb_getkey s1) \<noteq> -1" using waiting_key(1,3) [of e1 k ks s1] s1 eq Cons by simp
    then have "test_keys rs s1 = Some (Inr (rs, snd (kb_getkey s1)))" by (simp add: test_keys.simps [of rs] Let_def)
    then show ?thesis using Cons.prems waiting_key(2) [of e1 k ks s1] s1 eq Cons t by auto
  qed
qed simp

lemma run_task_takes:
  assumes "task_takes vbe t rs a = Some (rs', a')" "waiting a s" "no_del rs"
  shows "\<exists>s'. run_task vbe t rs s = Some (Inr (rs', s')) \<and> waiting a' s' \<and> no_del rs'"
proof (cases "t = Some Vbetest \<and> vbe")
  case True
  obtain s1 where "kb_drain s = Some s1" "waiting (fst a, []) s1"
    using kb_drain_empties [of s] assms(2) by (auto simp: waiting_def)
  then show ?thesis using test_keys_takes [of rs "fst a" rs' a' s1] True assms by (simp add: run_task_def task_takes_def)
next
  case False
  then show ?thesis using assms logohack_takes [of rs a rs' a' s]
    by (auto simp: run_task_def task_takes_def split: option.splits task.splits if_splits)
qed

lemma waiting_round:
  assumes "waiting a s" "no_del rs"
  shows "\<exists>s'. take_round rs s = Inr (tl rs, s') \<and> waiting (case rs of [] \<Rightarrow> a | bs # _ \<Rightarrow> arrive bs a) s'"
  using waiting_feed [OF assms(1), of "hd rs"] assms by (cases rs) auto

text \<open>From the test for a key on, the loops serve the keys as promised.\<close>

lemma loops_serve:
  assumes "serve vbe rs e q = Some ks" "waiting (e, q) s" "no_del rs"
  shows "\<exists>s'. (case key_loop vbe rs s tasks out of
         None \<Rightarrow> None
       | Some (Inl e) \<Rightarrow> Some (Inl e)
       | Some (Inr (rs, s, tasks, out)) \<Rightarrow> main_loop vbe rs s tasks out)
     = Some (Inr (s', tasks @ List.map_filter key_task ks, out\<lparr>s_con := s_con out @ concat (map key_line ks)\<rparr>))
     \<and> kb_ok s' \<and> kb_queue s' = []"
  using assms
proof (induction vbe rs e q arbitrary: ks s tasks out rule: serve.induct)
  case (1 vbe rs e)
  have k: "key_loop vbe rs s tasks out = Some (Inr (rs, s, tasks, out))"
    using waiting_none [OF 1(3)] by (simp add: key_loop.simps [of vbe rs s])
  show ?case
  proof (cases rs)
    case Nil
    then show ?thesis using 1 k by (simp add: main_loop.simps [of vbe "[]"] waiting_def List.map_filter_def)
  next
    case (Cons bs rs')
    obtain s1 where s1: "kb_feed bs s = Inr s1" "waiting (arrive bs (e, [])) s1" using waiting_feed [OF 1(3)] 1(4) Cons by auto
    then show ?thesis using 1(1) [OF Cons, of ks s1 tasks out] 1(2,4) Cons k by (simp add: main_loop.simps [of vbe "bs # rs'"])
  qed
next
  case (2 vbe rs e k q)
  note w = waiting_key [OF 2(4)]
  obtain rs1 a1 where t: "task_takes vbe (key_task k) rs (e, q) = Some (rs1, a1)" using 2(3) by (auto split: option.splits)
  obtain s1 where s1: "run_task vbe (key_task k) rs (snd (kb_getkey s)) = Some (Inr (rs1, s1))" "waiting a1 s1" "no_del rs1"
    using run_task_takes [OF t w(2) 2(5)] by blast
  obtain s2 where s2: "take_round rs1 s1 = Inr (tl rs1, s2)" "waiting (case rs1 of [] \<Rightarrow> a1 | bs # _ \<Rightarrow> arrive bs a1) s2"
    using waiting_round [OF s1(2,3)] by blast
  let ?tasks = "case key_task k of None \<Rightarrow> tasks | Some t \<Rightarrow> tasks @ [t]" and ?out = "out\<lparr>s_con := s_con out @ key_line k\<rparr>"
  have l: "key_loop vbe rs s tasks out = key_loop vbe (tl rs1) s2 ?tasks ?out"
    using w(1,3) s1(1) s2(1) by (simp add: key_loop.simps [of vbe rs s] Let_def print_key_text [OF w(3,4)])
  obtain ks' where ks: "ks = k # ks'" using 2(3) t by (auto split: list.splits)
  have o: "(?out\<lparr>s_con := s_con ?out @ concat (map key_line ks')\<rparr>) = out\<lparr>s_con := s_con out @ concat (map key_line ks)\<rparr>"
    "?tasks @ List.map_filter key_task ks' = tasks @ List.map_filter key_task ks"
    by (auto simp: ks List.map_filter_simps split: option.split)
  show ?case
  proof (cases rs1)
    case Nil
    have "serve vbe [] (fst a1) (snd a1) = Some ks'" using 2(3) t Nil ks by auto
    then show ?thesis using 2(1) [OF t refl Nil, of ks' s2 ?tasks ?out] s2(2) Nil unfolding l o by simp
  next
    case (Cons bs rs2)
    have "serve vbe rs2 (fst (arrive bs a1)) (snd (arrive bs a1)) = Some ks'" using 2(3) t Cons ks by auto
    then show ?thesis using 2(2) [OF t refl Cons, of ks' s2 ?tasks ?out] s2(2) s1(3) Cons unfolding l o by simp
  qed
qed

text \<open>C8: from any state, whatever arrives before and during each of its steps, the loop of the kernel takes the keys in their order from the newest 63 that wait, starts
  what is bound to each, which may take keys itself, prints a line for each it took, and is left halted with no key waiting; the Delete key, which
  may restart the machine, is left out, and so are streams that end while one of the tests runs.\<close>

theorem main_loop_serves_keys:
  assumes "kb_ok s" "kb_queue s = []" "\<forall>bs \<in> set rs. 0x53 \<notin> set bs" "serve vbe rs (kb_ext s) [] = Some ks"
  shows "\<exists>s'. main_loop vbe rs s [] out = Some (Inr (s', List.map_filter key_task ks, out\<lparr>s_con := s_con out @ concat (map key_line ks)\<rparr>))
    \<and> kb_ok s' \<and> kb_queue s' = []"
proof -
  have "waiting (kb_ext s, []) s" using assms(1,2) by (simp add: waiting_def)
  moreover have "key_loop vbe rs s [] out = Some (Inr (rs, s, [], out))"
    using getkey_none [OF assms(1,2)] by (simp add: key_loop.simps [of vbe rs s])
  ultimately show ?thesis using loops_serve [OF assms(4) _ assms(3), of s "[]" out] by simp
qed

text \<open>Three keys, the second of them F1: Escape ends what it starts; then F2, and a key that ends the second test.\<close>

lemma main_loop_serves_keys_witness:
  "\<exists>s'. main_loop True [[], [0x1e, 0x9e, 0x3b], [], [0x30], [0x01], [], [], [0x3c], [], [0x1e], [0x30]] kb0 [] no_output
    = Some (Inr (s', [Logohack, Vbetest], no_output\<lparr>s_con := concat (map key_line [97, 160, 161, 98])\<rparr>)) \<and> kb_ok s' \<and> kb_queue s' = []"
proof -
  let ?rs = "[[], [0x1e, 0x9e, 0x3b], [], [0x30], [0x01], [], [], [0x3c], [], [0x1e], [0x30]] :: stream"
  have "serve True ?rs (kb_ext kb0) [] = Some [97, 160, 161, 98]" by code_simp
  moreover have "kb_queue kb0 = []" by (simp add: kb_queue_def ring_list_def kb0_def)
  moreover have "List.map_filter key_task [97, 160, 161, 98] = [Logohack, Vbetest]" by code_simp
  ultimately show ?thesis using main_loop_serves_keys [OF kb0_ok, of ?rs True "[97, 160, 161, 98]" no_output] by simp
qed

end
