(* ===== verification/Reports.thy ===== *)
theory Reports
  imports Stdio Calendar Part Pci Vbe Page_Alloc
begin

text \<open>
  What the kernel prints: \<open>asctime\<close> (\<open>src/libc/time.c\<close>), \<open>perror\<close> (\<open>libc/stdio.c\<close>), the report of a panic (\<open>panic.c\<close>), the partition
  table (\<open>part.c\<close>, \<open>ptype.h\<close>), the page bitmap (\<open>mem.c\<close>), a PCI device (\<open>pci.c\<close>), a video mode and a monitor (\<open>vbe.c\<close>). All of
  it goes through \<open>printf\<close>; a result \<open>None\<close> is an index out of a table.
\<close>

definition ascii :: "string \<Rightarrow> cstring" where
  "ascii s = map of_char s"

definition say :: "cstring \<Rightarrow> arg list \<Rightarrow> sink \<Rightarrow> sink option" where
  "say fmt args out = map_option snd (printf fmt args out)"

fun says :: "(cstring \<times> arg list) list \<Rightarrow> sink \<Rightarrow> sink option" where
  "says [] out = Some out"
| "says ((fmt, args) # ls) out = Option.bind (say fmt args out) (says ls)"

abbreviation num :: "int \<Rightarrow> arg" where "num n \<equiv> IntArg (word_of_int n)"

section \<open>Dates\<close>

definition wday :: "string list" where "wday = [''Sun'', ''Mon'', ''Tue'', ''Wed'', ''Thu'', ''Fri'', ''Sat'']"

definition mon :: "string list" where
  "mon = [''Jan'', ''Feb'', ''Mar'', ''Apr'', ''May'', ''Jun'', ''Jul'', ''Aug'', ''Sep'', ''Oct'', ''Nov'', ''Dec'']"

definition asctime_r :: "tm \<Rightarrow> u32 \<Rightarrow> sink \<Rightarrow> (u32 \<times> sink) option" where
  "asctime_r t buf out =
     (if 0 \<le> tm_wday t \<and> tm_wday t < 7 \<and> 0 \<le> tm_mon t \<and> tm_mon t < 12 then
        map_option (\<lambda>(n, out). (buf, out))
          (sprintf buf (ascii ''%s %s %d %02d:%02d:%02d %d'' @ [10])
             [StrArg (ascii (wday ! nat (tm_wday t))), StrArg (ascii (mon ! nat (tm_mon t))), num (tm_mday t), num (tm_hour t), num (tm_min t),
              num (tm_sec t), num (tm_year t + 1900)] out)
      else None)"

text \<open>\<open>asctime\<close> has a buffer of 64 bytes of its own.\<close>

definition asctime :: "u32 \<Rightarrow> tm \<Rightarrow> sink \<Rightarrow> (u32 \<times> sink) option" where
  "asctime static_buf t out = asctime_r t static_buf out"

section \<open>Errors and panics\<close>

definition perror :: "cstring \<Rightarrow> int \<Rightarrow> sink \<Rightarrow> sink option" where
  "perror s err out =
     (case strerror err of None \<Rightarrow> None | Some m \<Rightarrow> say (ascii ''%s: %s'' @ [10]) [StrArg s, StrArg (ascii m)] out)"

record all_registers =
  ar_eax :: u32
  ar_ebx :: u32
  ar_ecx :: u32
  ar_edx :: u32
  ar_esp :: u32
  ar_ebp :: u32
  ar_esi :: u32
  ar_edi :: u32
  ar_eflags :: u32
  ar_cs :: u32
  ar_ss :: u32
  ar_ds :: u32
  ar_es :: u32
  ar_fs :: u32
  ar_gs :: u32
  ar_cr0 :: u32
  ar_cr1 :: u32
  ar_cr2 :: u32
  ar_cr3 :: u32

definition selector_line :: "string \<Rightarrow> u32 \<Rightarrow> cstring \<times> arg list" where
  "selector_line name v = (ascii name @ ascii '': %x (%d|%d)'' @ [10], [IntArg v, IntArg (drop_bit 3 v), IntArg (v AND 3)])"

text \<open>What \<open>panic\<close> prints once it is in text mode with interrupts off, before it halts for ever; \<open>get_regs\<close> and the caller's
  address are assembly.\<close>

definition panic :: "cstring \<Rightarrow> arg list \<Rightarrow> u32 \<Rightarrow> all_registers \<Rightarrow> sink \<Rightarrow> sink option" where
  "panic fmt args eip r = says [
     (ascii ''~~~~~ pcboot panic ~~~~~'' @ [10], []),
     (fmt, args),
     ([10] @ ascii ''Registers:'' @ [10], []),
     (ascii ''eax: %x, ebx: %x, ecx: %x, edx: %x'' @ [10], [IntArg (ar_eax r), IntArg (ar_ebx r), IntArg (ar_ecx r), IntArg (ar_edx r)]),
     (ascii ''esp: %x, ebp: %x, esi: %x, edi: %x'' @ [10], [IntArg (ar_esp r), IntArg (ar_ebp r), IntArg (ar_esi r), IntArg (ar_edi r)]),
     (ascii ''eip: %x, eflags: %x'' @ [10], [IntArg eip, IntArg (ar_eflags r)]),
     (ascii ''cr0: %x, cr1: %x, cr2: %x, cr3: %x'' @ [10], [IntArg (ar_cr0 r), IntArg (ar_cr1 r), IntArg (ar_cr2 r), IntArg (ar_cr3 r)]),
     selector_line ''cs'' (ar_cs r), selector_line ''ss'' (ar_ss r), selector_line ''ds'' (ar_ds r), selector_line ''es'' (ar_es r),
     selector_line ''fs'' (ar_fs r), selector_line ''gs'' (ar_gs r)]"

section \<open>Partitions\<close>

definition partypes :: "(nat \<times> string) list" where
  "partypes = [
     (0, ''empty''), (1, ''fat12''), (2, ''xenix root''), (3, ''xenix usr''),
     (4, ''fat16 (small)''), (5, ''extended''), (6, ''fat16''), (7, ''hpfs/ntfs''),
     (8, ''aix''), (9, ''aix bootable''), (10, ''os/2 boot manager''), (11, ''fat32 (chs)''),
     (12, ''fat32 (lba)''), (14, ''fat16 (lba)''), (15, ''extended (lba)''), (17, ''hidden fat12''),
     (18, ''compaq diagnostics''), (20, ''hidden fat16 (small)''), (22, ''hidden fat16''), (23, ''hidden hpfs/ntfs''),
     (27, ''hidden fat32''), (28, ''hidden fat32 (lba)''), (29, ''hidden fat16 (lba)''), (36, ''nec dos''),
     (39, ''windows recovery''), (57, ''plan 9''), (60, ''partition magic''), (77, ''qnx''),
     (78, ''qnx 2nd''), (79, ''qnx 3rd''), (82, ''cp/m''), (99, ''hurd/sysv''),
     (100, ''netware 286''), (101, ''netware 386''), (128, ''minix (old)''), (129, ''minix''),
     (130, ''linux swap/solaris''), (131, ''linux''), (132, ''windows suspend''), (133, ''linux extended''),
     (134, ''ntfs volume?''), (135, ''ntfs volume?''), (136, ''linux plaintext''), (142, ''linux lvm''),
     (159, ''bsd/os''), (160, ''laptop diagnostic''), (165, ''freebsd slice''), (166, ''openbsd slice''),
     (167, ''nextstep''), (168, ''darwin ufs''), (169, ''netbsd slice''), (171, ''darwin boot''),
     (175, ''hfs/hfs+''), (183, ''bsdi''), (184, ''bsdi swap''), (190, ''solaris boot''),
     (191, ''solaris''), (222, ''dell diagnostic''), (235, ''beos''), (238, ''gpt''),
     (239, ''efi (fat)''), (240, ''linux/pa-risc boot''), (242, ''dos secondary''), (251, ''vmware vmfs''),
     (252, ''vmware vmkcore''), (253, ''linux raid auto'')]"

definition ptype_name :: "nat \<Rightarrow> string" where
  "ptype_name ty = (case find (\<lambda>(t, n). t = ty) partypes of Some (t, n) \<Rightarrow> n | None \<Rightarrow> ''unknown'')"

text \<open>A conversion \<open>%llu\<close> takes the lower half of its argument; no other follows it.\<close>

definition print_partition :: "nat \<Rightarrow> partition \<Rightarrow> sink \<Rightarrow> sink option" where
  "print_partition i p = says [
     (ascii ''%d%c '', [IntArg (of_nat i), IntArg (if PART_IS_ACT (p_attr p) then 42 else 32)]),
     (ascii ''(%s) %-20s '', [StrArg (ascii (if PART_IS_PRIM (p_attr p) then ''pri'' else ''log'')), StrArg (ascii (ptype_name (unat (PART_TYPE (p_attr p)))))]),
     (ascii ''start: %-10llu '', [IntArg (p_start p), IntArg 0]),
     (ascii ''size: %-10llu'' @ [10], [IntArg (p_size p), IntArg 0])]"

fun print_partitions :: "nat \<Rightarrow> partition list \<Rightarrow> sink \<Rightarrow> sink option" where
  "print_partitions i [] out = Some out"
| "print_partitions i (p # ps) out = Option.bind (print_partition i p out) (print_partitions (Suc i) ps)"

definition print_partition_table :: "partition list \<Rightarrow> sink \<Rightarrow> sink option" where
  "print_partition_table parts out =
     Option.bind (say (ascii ''Found %d partitions'' @ [10]) [IntArg (of_nat (length parts))] out) (print_partitions 0 parts)"

section \<open>Pages, devices and modes\<close>

fun print_bitmap_words :: "page_state \<Rightarrow> nat list \<Rightarrow> sink \<Rightarrow> sink option" where
  "print_bitmap_words s [] out = Some out"
| "print_bitmap_words s (i # is) out =
     Option.bind (if i mod 4 = 0 then say ([10] @ ascii ''%5d [%08x]:'') [IntArg (of_nat (i * 32)), IntArg (push_bit 12 (of_nat (i * 32)))] out else Some out)
       (\<lambda>out. Option.bind (say (ascii '' %08x'') [IntArg (bitmap s (int i))] out) (print_bitmap_words s is))"

definition print_page_bitmap :: "page_state \<Rightarrow> sink \<Rightarrow> sink option" where
  "print_page_bitmap s out = Option.bind (print_bitmap_words s [0..<nat (c_div (bmsize s) 4)] out) (say [10] [])"

text \<open>\<open>info\<close> is the address of a \<open>struct config_data\<close>.\<close>

definition print_dev_info :: "ram \<Rightarrow> u32 \<Rightarrow> int \<Rightarrow> int \<Rightarrow> int \<Rightarrow> sink \<Rightarrow> sink option" where
  "print_dev_info m info bus dv func out = (
     let cls = m (info + 11); sub = m (info + 10); iface = m (info + 9); hdr = m (info + 14)
     in case (class_str (unat cls), subclass_str (unat cls) (unat sub)) of
          (Some c, Some sc) \<Rightarrow> says [
            (ascii ''- (%d:%d,%d) Device %04x:%04x: '', [num bus, num dv, num func, IntArg (ucast (load16 m info)), IntArg (ucast (load16 m (info + 2)))]),
            (ascii ''\"%s\" (%d) - %s-func'' @ [10], [StrArg (ascii c), IntArg (ucast cls), StrArg (ascii (if hdr AND TYPE_MULTIFUNC \<noteq> 0 then ''multi'' else ''single''))]),
            (ascii ''    subclass: \"%s\" (%d), iface: %d'' @ [10], [StrArg (ascii sc), IntArg (ucast sub), IntArg (ucast iface)])] out
        | _ \<Rightarrow> None)"

definition info_maskbits :: "u32 list" where "info_maskbits = [0, 1, 3, 7, 0xf, 0x1f, 0x3f, 0x7f, 0xff]"

definition mask_line :: "string \<Rightarrow> u8 \<Rightarrow> u8 \<Rightarrow> cstring \<times> arg list" where
  "mask_line name bits pos = (ascii name @ ascii '' bits: %d (mask: %x)'' @ [10], [IntArg (ucast bits), IntArg (push_bit (unat pos) (info_maskbits ! unat bits))])"

definition print_mode_info :: "ram \<Rightarrow> u32 \<Rightarrow> sink \<Rightarrow> sink option" where
  "print_mode_info m mi out =
     (if mi_rmask_size m mi \<le> 8 \<and> mi_gmask_size m mi \<le> 8 \<and> mi_bmask_size m mi \<le> 8 then says [
        (ascii ''resolution: %dx%d'' @ [10], [IntArg (ucast (mi_xres m mi)), IntArg (ucast (mi_yres m mi))]),
        (ascii ''color depth: %d'' @ [10], [IntArg (ucast (mi_bpp m mi))]),
        (ascii ''mode attributes: %x'' @ [10], [IntArg (ucast (load16 m mi))]),
        (ascii ''bytes per scanline: %d'' @ [10], [IntArg (ucast (load16 m (mi + 16)))]),
        (ascii ''number of planes: %d'' @ [10], [IntArg (ucast (m (mi + 24)))]),
        (ascii ''number of banks: %d'' @ [10], [IntArg (ucast (m (mi + 26)))]),
        (ascii ''mem model: %d'' @ [10], [IntArg (ucast (m (mi + 27)))]),
        mask_line ''red'' (mi_rmask_size m mi) (mi_rpos m mi), mask_line ''green'' (mi_gmask_size m mi) (mi_gpos m mi),
        mask_line ''blue'' (mi_bmask_size m mi) (mi_bpos m mi),
        (ascii ''framebuffer address: %x'' @ [10], [IntArg (mi_fb_addr m mi)])] out
      else None)"

definition print_edid :: "ram \<Rightarrow> u32 \<Rightarrow> sink \<Rightarrow> sink option" where
  "print_edid m edid out =
     (case edid_preferred_resolution m edid of
        None \<Rightarrow> say (ascii ''invalid EDID magic'' @ [10]) [] out
      | Some (xres, yres) \<Rightarrow>
          let v = load16 m (edid + 8);
              vendor = map ucast [drop_bit 10 v AND 0x1f, drop_bit 5 v AND 0x1f, v AND 0x1f]
          in says [(ascii ''Manufacturer: %s'' @ [10], [StrArg (until_nul vendor)]),
               (ascii ''Preferred resolution: %dx%d'' @ [10], [num xres, num yres])] out)"

section \<open>The texts\<close>

lemma ascii_simps [simp]: "ascii [] = []" "ascii (c # s) = of_char c # ascii s" "length (ascii s) = length s"
  by (simp_all add: ascii_def)

lemma say_pieces:
  assumes "\<forall>pc \<in> set ps. good_piece pc"
  shows "say (concat (map piece_fmt ps)) (concat (map piece_args ps)) out = Some (out\<lparr>s_con := s_con out @ render False ps\<rparr>)"
  using printf_pieces [OF assms] by (simp add: say_def)

lemma says_pieces:
  assumes "\<forall>ps \<in> set pss. \<forall>pc \<in> set ps. good_piece pc"
  shows "says (map (\<lambda>ps. (concat (map piece_fmt ps), concat (map piece_args ps))) pss) out
    = Some (out\<lparr>s_con := s_con out @ concat (map (render False) pss)\<rparr>)"
  using assms by (induction pss arbitrary: out) (simp_all add: say_pieces)

definition date_pieces :: "tm \<Rightarrow> piece list" where
  "date_pieces t = [Str False 0 (ascii (wday ! nat (tm_wday t))), Lit [32], Str False 0 (ascii (mon ! nat (tm_mon t))), Lit [32],
     Dec False 0 (word_of_int (tm_mday t)), Lit [32], Dec True 2 (word_of_int (tm_hour t)), Lit [58], Dec True 2 (word_of_int (tm_min t)), Lit [58],
     Dec True 2 (word_of_int (tm_sec t)), Lit [32], Dec False 0 (word_of_int (tm_year t + 1900)), Lit [10]]"

lemma date_fmt: "concat (map piece_fmt (date_pieces t)) = ascii ''%s %s %d %02d:%02d:%02d %d'' @ [10]"
  by (simp add: date_pieces_def flags_def numeral_text_def digits.simps digit_char_def)

definition two :: "int \<Rightarrow> cstring" where
  "two n = [48 + word_of_int (n div 10), 48 + word_of_int (n mod 10)]"

definition date_text :: "tm \<Rightarrow> cstring" where
  "date_text t = ascii (wday ! nat (tm_wday t)) @ [32] @ ascii (mon ! nat (tm_mon t)) @ [32] @ numeral_text 10 (nat (tm_mday t)) @ [32]
     @ two (tm_hour t) @ [58] @ two (tm_min t) @ [58] @ two (tm_sec t) @ [32] @ numeral_text 10 (nat (tm_year t + 1900)) @ [10]"

lemma digit_char_less: "0 \<le> d \<Longrightarrow> d < 10 \<Longrightarrow> digit_char d = 48 + word_of_int d"
  by (simp add: digit_char_def)

lemma two_digits:
  assumes "0 \<le> n" "n < 100"
  shows "padded True 2 (numeral_text 10 (nat n)) = two n"
proof -
  consider "n = 0" | "0 < n" "n < 10" | "10 \<le> n" using assms(1) by linarith
  then show ?thesis
  proof cases
    case 1
    then show ?thesis by (simp add: padded_def numeral_text_def two_def)
  next
    case 2
    then have "digits 10 (nat n) = [nat n]" by (simp add: digits.simps [of 10 "nat n"] digits.simps [of 10 0])
    then show ?thesis using 2 by (simp add: padded_def numeral_text_def two_def digit_char_less)
  next
    case 3
    have d: "nat n div 10 = nat (n div 10)" "nat n mod 10 = nat (n mod 10)" using 3 by (simp_all add: nat_div_distrib nat_mod_distrib)
    have q: "0 < n div 10" "n div 10 < 10" using 3 assms(2) by simp_all
    have "digits 10 (nat (n div 10)) = [nat (n div 10)]"
      using q by (simp add: digits.simps [of 10 "nat (n div 10)"] digits.simps [of 10 0] div_eq_0_iff)
    then have "digits 10 (nat n) = [nat (n mod 10), nat (n div 10)]" using 3 by (simp add: digits.simps [of 10 "nat n"] d)
    then show ?thesis using q 3 by (simp add: padded_def numeral_text_def two_def digit_char_less)
  qed
qed

lemma length_numeral_text: "v < 10 ^ k \<Longrightarrow> 0 < k \<Longrightarrow> length (numeral_text 10 v) \<le> k"
  using length_digits [of 10 v k] by (simp add: numeral_text_def)

lemma sint_small: "0 \<le> n \<Longrightarrow> n < 2 ^ 31 \<Longrightarrow> sint (word_of_int n :: u32) = n"
  by (simp add: sint_uint uint_word_of_int take_bit_int_eq_self signed_take_bit_int_eq_self)

lemma mday_small: "valid_tm t \<Longrightarrow> tm_mday t < 32"
proof -
  assume v: "valid_tm t"
  have "0 \<le> tm_mon t" "tm_mon t < 12" using v by (simp_all add: valid_tm_def)
  then have "nat (tm_mon t) < 12" by linarith
  then have "mdays l ! nat (tm_mon t) \<le> 31" for l by (simp add: mdays_def less_Suc_eq numeral_eq_Suc) (elim disjE; simp)
  from this [of "is_leap_year (tm_year t + 1900)"] show ?thesis using v unfolding valid_tm_def by linarith
qed

lemma asctime_valid:
  assumes "valid_tm t" "0 \<le> tm_wday t" "tm_wday t < 7" "tm_year t < 8000" "buf \<noteq> 0"
  shows "asctime_r t buf out = Some (buf, out\<lparr>s_mem := text_at (s_mem out) buf (date_text t)\<rparr>)" "length (date_text t) < 26"
proof -
  have v: "1 \<le> tm_mday t" "tm_mday t < 32" "0 \<le> tm_hour t" "tm_hour t < 24" "0 \<le> tm_min t" "tm_min t < 60" "0 \<le> tm_sec t" "tm_sec t < 60"
    "70 \<le> tm_year t" "0 \<le> tm_mon t" "tm_mon t < 12"
    using assms(1) mday_small [OF assms(1)] by (simp_all add: valid_tm_def)
  define y where "y = tm_year t + 1900"
  have y: "0 \<le> y" "y < 10000" using v(9) assms(4) by (simp_all add: y_def)
  have r: "render False (date_pieces t) = date_text t"
    using v y unfolding date_pieces_def date_text_def y_def [symmetric] by (simp add: sint_small int_text_def two_digits) (simp add: padded_def)
  have g: "\<forall>pc \<in> set (date_pieces t). good_piece pc"
    using v y unfolding date_pieces_def y_def [symmetric] by (simp add: sint_small)
  have "length (numeral_text 10 (nat (tm_mday t))) \<le> 2" "length (numeral_text 10 (nat (tm_year t + 1900))) \<le> 4"
    using v assms(4) by (intro length_numeral_text; simp)+
  moreover have "length (wday ! nat (tm_wday t)) = 3"
  proof -
    have "\<forall>s \<in> set wday. length s = 3" "nat (tm_wday t) < length wday" using assms(2,3) by (simp_all add: wday_def nat_less_iff)
    then show ?thesis using nth_mem by blast
  qed
  moreover have "length (mon ! nat (tm_mon t)) = 3"
  proof -
    have "\<forall>s \<in> set mon. length s = 3" "nat (tm_mon t) < length mon" using v by (simp_all add: mon_def nat_less_iff)
    then show ?thesis using nth_mem by blast
  qed
  ultimately show l: "length (date_text t) < 26" by (simp add: date_text_def two_def)
  have "render False (date_pieces t) \<noteq> []" unfolding r by (simp add: date_text_def)
  from sprintf_renders [OF g assms(5) this, of out] l have "sprintf buf (ascii ''%s %s %d %02d:%02d:%02d %d'' @ [10]) (concat (map piece_args (date_pieces t))) out
    = Some (length (date_text t), out\<lparr>s_mem := text_at (s_mem out) buf (date_text t)\<rparr>)"
    unfolding date_fmt r by simp
  then show "asctime_r t buf out = Some (buf, out\<lparr>s_mem := text_at (s_mem out) buf (date_text t)\<rparr>)"
    using assms(2,3) v unfolding asctime_r_def by (simp add: date_pieces_def)
qed

lemma year_small:
  assumes "valid_tm t" "seconds_of t < 2 ^ 31"
  shows "tm_year t < 8000"
proof -
  have "int k * 365 \<le> days_before_year k" for k
    unfolding days_before_year_def by (induction k) (simp_all add: YEARDAYS_def)
  from this [of "nat (tm_year t - 70)"] have "(tm_year t - 70) * 365 \<le> days_of t"
    using yday_bounds(1) [OF assms(1)] assms(1) by (simp add: days_of_def valid_tm_def)
  moreover have "days_of t * DAYSEC \<le> seconds_of t" using assms(1) by (simp add: seconds_of_def valid_tm_def second_counts)
  ultimately show ?thesis using assms(2) by (simp add: second_counts)
qed

text \<open>C37: the text of any time fits the buffer of \<open>asctime\<close>: a day, a month, a date without a leading blank, the time of the day in two digits each and the
  year, with a new line and a zero behind it.\<close>

theorem asctime_fits:
  assumes "0 \<le> c" "c < 2 ^ 31" "buf \<noteq> 0"
  shows "\<exists>t. gmtime_r c t0 = Some t \<and> asctime_r t buf out = Some (buf, out\<lparr>s_mem := text_at (s_mem out) buf (date_text t)\<rparr>) \<and> length (date_text t) < 26"
proof -
  obtain u where u: "valid_tm u" "seconds_of u = c" using seconds_exists [OF assms(1)] by blast
  let ?t = "(completed u)\<lparr>tm_isdst := tm_isdst t0\<rparr>"
  have "gmtime_r c t0 = Some ?t" using gmtime_valid [OF u(1), of t0] u(2) by simp
  moreover have "valid_tm ?t" using u(1) by (simp add: valid_tm_def completed_def)
  moreover have "0 \<le> tm_wday ?t" "tm_wday ?t < 7" by (simp_all add: completed_def)
  moreover have "tm_year ?t < 8000" using year_small [OF u(1)] u(2) assms(2) by (simp add: completed_def)
  ultimately show ?thesis using asctime_valid(1) [of ?t buf out] asctime_valid(2) [of ?t buf] assms(3) by blast
qed

lemma asctime_fits_witness:
  "\<exists>t. gmtime_r 951831930 demo_tm = Some t \<and> asctime_r t 0x1000 no_output = Some (0x1000, no_output\<lparr>s_mem := text_at (s_mem no_output) 0x1000 (date_text t)\<rparr>)
    \<and> length (date_text t) < 26"
  using asctime_fits [where c = 951831930 and buf = "0x1000" and ?t0.0 = demo_tm and out = no_output] by simp

text \<open>The report of a panic: the message, the registers in hexadecimal, and of each selector the index and the level.\<close>

definition hex :: "u32 \<Rightarrow> cstring" where "hex v = numeral_text 16 (unat v)"

definition selector_text :: "string \<Rightarrow> u32 \<Rightarrow> cstring" where
  "selector_text name v = ascii name @ ascii '': '' @ hex v @ ascii '' ('' @ numeral_text 10 (unat (drop_bit 3 v)) @ ascii ''|'' @ numeral_text 10 (unat (v AND 3)) @ ascii '')'' @ [10]"

definition panic_text :: "cstring \<Rightarrow> u32 \<Rightarrow> all_registers \<Rightarrow> cstring" where
  "panic_text msg eip r = ascii ''~~~~~ pcboot panic ~~~~~'' @ [10] @ msg @ [10] @ ascii ''Registers:'' @ [10]
     @ ascii ''eax: '' @ hex (ar_eax r) @ ascii '', ebx: '' @ hex (ar_ebx r) @ ascii '', ecx: '' @ hex (ar_ecx r) @ ascii '', edx: '' @ hex (ar_edx r) @ [10]
     @ ascii ''esp: '' @ hex (ar_esp r) @ ascii '', ebp: '' @ hex (ar_ebp r) @ ascii '', esi: '' @ hex (ar_esi r) @ ascii '', edi: '' @ hex (ar_edi r) @ [10]
     @ ascii ''eip: '' @ hex eip @ ascii '', eflags: '' @ hex (ar_eflags r) @ [10]
     @ ascii ''cr0: '' @ hex (ar_cr0 r) @ ascii '', cr1: '' @ hex (ar_cr1 r) @ ascii '', cr2: '' @ hex (ar_cr2 r) @ ascii '', cr3: '' @ hex (ar_cr3 r) @ [10]
     @ selector_text ''cs'' (ar_cs r) @ selector_text ''ss'' (ar_ss r) @ selector_text ''ds'' (ar_ds r) @ selector_text ''es'' (ar_es r)
     @ selector_text ''fs'' (ar_fs r) @ selector_text ''gs'' (ar_gs r)"

definition hex_pieces :: "string \<Rightarrow> u32 \<Rightarrow> piece list" where
  "hex_pieces s v = [Lit (ascii s), Hex False 0 v]"

definition selector_pieces :: "string \<Rightarrow> u32 \<Rightarrow> piece list" where
  "selector_pieces name v = [Lit (ascii name), Lit (ascii '': ''), Hex False 0 v, Lit (ascii '' (''), Dec False 0 (drop_bit 3 v), Lit (ascii ''|''),
     Dec False 0 (v AND 3), Lit (ascii '')'' @ [10])]"

lemma selector_say:
  assumes "37 \<notin> set (ascii name)"
  shows "say (fst (selector_line name v)) (snd (selector_line name v)) out = Some (out\<lparr>s_con := s_con out @ selector_text name v\<rparr>)"
proof -
  have "unat (drop_bit 3 v) \<le> unat v div 2 ^ 3" by (simp add: drop_bit_eq_div unat_div)
  also have "\<dots> < 2 ^ 29" using unat_u32_less [of v] by simp
  finally have a: "unat (drop_bit 3 v) < 2 ^ 31" by simp
  have "v AND 3 \<le> 3" by (rule word_and_le1)
  then have b: "unat (v AND 3) < 2 ^ 31" by (simp add: word_le_nat_alt)
  have s: "sint w = int (unat w)" if "unat w < 2 ^ 31" for w :: u32
  proof -
    have "int (unat w) < int (2 ^ 31)" using that by (simp only: of_nat_less_iff)
    then show ?thesis using sint_small [of "int (unat w)"] by simp
  qed
  have n: "uint w \<noteq> - 2147483648" for w :: u32 using uint_ge_0 [of w] by linarith
  have "\<forall>pc \<in> set (selector_pieces name v). good_piece pc"
    using assms s [OF a] s [OF b] n by (simp add: selector_pieces_def)
  from say_pieces [OF this, of out] show ?thesis
    by (simp add: selector_pieces_def selector_line_def selector_text_def flags_def padded_def hex_def)
qed

definition says_text :: "cstring \<times> arg list \<Rightarrow> cstring \<Rightarrow> bool" where
  "says_text l s \<longleftrightarrow> (\<forall>out. say (fst l) (snd l) out = Some (out\<lparr>s_con := s_con out @ s\<rparr>))"

lemma says_texts: "list_all2 says_text ls ts \<Longrightarrow> says ls out = Some (out\<lparr>s_con := s_con out @ concat ts\<rparr>)"
proof (induction arbitrary: out rule: list_all2_induct)
  case (Cons l ls s ts)
  then show ?case by (cases l) (simp add: says_text_def)
qed simp

lemma says_lit: "37 \<notin> set l \<Longrightarrow> says_text (l, []) l"
  using say_pieces [of "[Lit l]"] by (simp add: says_text_def)

lemma says_hex:
  "37 \<notin> set (ascii n1 @ ascii n2) \<Longrightarrow> ascii f = ascii n1 @ [37, 120] @ ascii n2 @ [37, 120] \<Longrightarrow>
   says_text (ascii f @ [10], [IntArg a, IntArg b]) (ascii n1 @ hex a @ ascii n2 @ hex b @ [10])"
  using say_pieces [of "hex_pieces n1 a @ hex_pieces n2 b @ [Lit [10]]"]
  by (simp add: says_text_def hex_pieces_def flags_def padded_def hex_def)

lemma says_hex4:
  "37 \<notin> set (ascii n1 @ ascii n2 @ ascii n3 @ ascii n4) \<Longrightarrow>
   ascii f = ascii n1 @ [37, 120] @ ascii n2 @ [37, 120] @ ascii n3 @ [37, 120] @ ascii n4 @ [37, 120] \<Longrightarrow>
   says_text (ascii f @ [10], [IntArg a, IntArg b, IntArg c, IntArg d])
     (ascii n1 @ hex a @ ascii n2 @ hex b @ ascii n3 @ hex c @ ascii n4 @ hex d @ [10])"
  using say_pieces [of "hex_pieces n1 a @ hex_pieces n2 b @ hex_pieces n3 c @ hex_pieces n4 d @ [Lit [10]]"]
  by (simp add: says_text_def hex_pieces_def flags_def padded_def hex_def)

lemma says_selector: "37 \<notin> set (ascii name) \<Longrightarrow> says_text (selector_line name v) (selector_text name v)"
  using selector_say by (simp add: says_text_def)

lemma panic_shows:
  assumes "\<forall>pc \<in> set ps. good_piece pc"
  shows "panic (concat (map piece_fmt ps)) (concat (map piece_args ps)) eip r out
    = Some (out\<lparr>s_con := s_con out @ panic_text (render False ps) eip r\<rparr>)"
proof -
  have msg: "says_text (concat (map piece_fmt ps), concat (map piece_args ps)) (render False ps)"
    using say_pieces [OF assms] by (simp add: says_text_def)
  show ?thesis unfolding panic_def
    by (rule says_texts [THEN trans])
      (((rule list.rel_intros says_lit msg
        says_hex4 [of "''eax: ''" "'', ebx: ''" "'', ecx: ''" "'', edx: ''"] says_hex4 [of "''esp: ''" "'', ebp: ''" "'', esi: ''" "'', edi: ''"]
        says_hex [of "''eip: ''" "'', eflags: ''"] says_hex4 [of "''cr0: ''" "'', cr1: ''" "'', cr2: ''" "'', cr3: ''"] says_selector) | (simp; fail))+,
       simp add: panic_text_def del: ascii_simps)
qed

end
