(* ===== verification/Vbe_Loop.thy ===== *)
theory Vbe_Loop
  imports Vbetest Kmain Psaux Audio Contty
begin

text \<open>
  \<open>vbetest\<close> of \<open>src/test/vbetest.c\<close> as a whole: the choice of a mode, the picture, and the loop that polls the mouse, plays the sound
  and moves the cursor until a key is pressed. The drivers it uses each keep their own variables and their own view of the ports.
  Interrupts that come while a round runs are taken with those of the halt after it. Messages are left out.
\<close>

datatype callback = Click_sound

text \<open>The variables the sound needs are seen by the client's function: \<open>click\<close> and memory.\<close>

record 'h sound = "('h, callback) audio" +
  click :: bool
  smem :: ram

record 'h test =
  keys :: keyb
  mouse :: "'h psaux"
  sound :: "'h sound"
  scr :: screen
  prev_st :: u32

text \<open>\<open>snd_click\<close> and \<open>snd_click_size\<close> are in a file of samples.\<close>

definition click_client :: "u32 \<Rightarrow> int \<Rightarrow> callback \<Rightarrow> u32 \<Rightarrow> int \<Rightarrow> u32 \<Rightarrow> 'h sound \<Rightarrow> int \<times> 'h sound" where
  "click_client snd_click snd_click_size c buf sz cls s =
     (let (r, k, m) = click_sound_callback snd_click snd_click_size buf (click s, smem s) in (r, s\<lparr>click := k, smem := m\<rparr>))"

section \<open>The loop\<close>

text \<open>A round of the loop after the test for a key, up to the halt. A sound that cannot be started is \<open>None\<close>: no driver is
  installed, or the card is never ready.\<close>

definition vbe_round :: "u32 \<Rightarrow> 'h \<Rightarrow> u32 \<Rightarrow> int \<Rightarrow> 'h test \<Rightarrow> 'h test option" where
  "vbe_round lmb handler smp n t = (
     let ((st, x, y), m) = run_state mouse_state (mouse t);
         a = (if button_pressed st (prev_st t) then (sound t)\<lparr>click := True\<rparr> else sound t)
     in case (if click a then audio_play lmb handler (click_client smp n) 22050 1 a else Some a) of
          None \<Rightarrow> None
        | Some a \<Rightarrow> Some (t\<lparr>mouse := m, sound := a, prev_st := st, scr := draw_cursor x y (cursor_color st) (scr t)\<rparr>))"

text \<open>What wakes the processor: a byte from the keyboard, and the interrupts of the mouse, the card and other devices.\<close>

datatype wake = Key u8 | Mouse_irq | Sound_irq | Other_irq

fun take_irq :: "u32 \<Rightarrow> int \<Rightarrow> wake \<Rightarrow> 'h test \<Rightarrow> (fault + 'h test) option" where
  "take_irq smp n (Key b) t = Some (case kb_irq b (keys t) of Inl e \<Rightarrow> Inl e | Inr k \<Rightarrow> Inr (t\<lparr>keys := k\<rparr>))"
| "take_irq smp n Mouse_irq t = Some (Inr (t\<lparr>mouse := exec psaux_intr (mouse t)\<rparr>))"
| "take_irq smp n Sound_irq t = map_option (\<lambda>a. Inr (t\<lparr>sound := a\<rparr>)) (intr_handler (click_client smp n) (sound t))"
| "take_irq smp n Other_irq t = Some (Inr t)"

fun take_irqs :: "u32 \<Rightarrow> int \<Rightarrow> wake list \<Rightarrow> 'h test \<Rightarrow> (fault + 'h test) option" where
  "take_irqs smp n [] t = Some (Inr t)"
| "take_irqs smp n (w # ws) t = (case take_irq smp n w t of
     None \<Rightarrow> None
   | Some (Inl e) \<Rightarrow> Some (Inl e)
   | Some (Inr t) \<Rightarrow> take_irqs smp n ws t)"

text \<open>The loop, with the interrupts that come in each of the halts and up to the next test for a key; \<open>None\<close> when it has not ended with the last of them.\<close>

fun vbe_loop :: "u32 \<Rightarrow> 'h \<Rightarrow> u32 \<Rightarrow> int \<Rightarrow> wake list list \<Rightarrow> 'h test \<Rightarrow> (fault + 'h test) option" where
  "vbe_loop lmb handler smp n irqs t = (
     let key = fst (kb_getkey (keys t)); t = t\<lparr>keys := snd (kb_getkey (keys t))\<rparr>
     in if key \<noteq> -1 then Some (Inr t)
        else (case vbe_round lmb handler smp n t of
            None \<Rightarrow> None
          | Some t \<Rightarrow>
              (case irqs of
                 [] \<Rightarrow> None
               | ws # irqs \<Rightarrow>
                   (case take_irqs smp n ws t of
                      None \<Rightarrow> None
                    | Some (Inl e) \<Rightarrow> Some (Inl e)
                    | Some (Inr t) \<Rightarrow> vbe_loop lmb handler smp n irqs t))))"

declare vbe_loop.simps [simp del]

section \<open>Before and after\<close>

text \<open>\<open>vi\<close> after the modes have been listed: the last one there was information about.\<close>

fun list_modes :: "'w bios \<Rightarrow> u32 \<Rightarrow> nat list \<Rightarrow> video_mode option \<Rightarrow> 'w video \<Rightarrow> (video_mode option \<times> 'w video) option" where
  "list_modes bios lmb [] vi v = Some (vi, v)"
| "list_modes bios lmb (i # js) vi v = (case video_mode_info bios lmb i v of
     None \<Rightarrow> None
   | Some (None, v) \<Rightarrow> list_modes bios lmb js vi v
   | Some (Some vi, v) \<Rightarrow> list_modes bios lmb js (Some vi) v)"

text \<open>The bits, shifts and masks of the mode that is set replace those in \<open>vi\<close>, if there is information about it.\<close>

definition read_colors :: "'w video \<Rightarrow> video_mode \<Rightarrow> video_mode option" where
  "read_colors v vi = (
     let vi = (case get_color_bits v of None \<Rightarrow> vi | Some (r, g, b) \<Rightarrow> vi\<lparr>rbits := r, gbits := g, bbits := b\<rparr>);
         vi = (case get_color_shift v of None \<Rightarrow> vi | Some (r, g, b) \<Rightarrow> vi\<lparr>rshift := r, gshift := g, bshift := b\<rparr>)
     in map_option (\<lambda>c. case c of None \<Rightarrow> vi | Some (r, g, b) \<Rightarrow> vi\<lparr>rmask := r, gmask := g, bmask := b\<rparr>) (get_color_mask v))"

text \<open>The inner option is the \<open>-1\<close>. The use of a \<open>vi\<close> that was never filled in is undefined.\<close>

definition vbe_enter :: "'w bios \<Rightarrow> u32 \<Rightarrow> 'w video \<Rightarrow> (video_mode option \<times> 'w video) option" where
  "vbe_enter bios lmb v = (
     let (nmodes, v) = video_mode_count bios lmb v
     in do {
       (vi, v) \<leftarrow> list_modes bios lmb [0..<nmodes] None v;
       (let (idx, v) = find_video_mode_idx bios lmb 640 480 16 v
        in if idx = -1 then Some (None, v)
           else do {
             (vi', v) \<leftarrow> video_mode_info bios lmb (nat idx) v;
             vi \<leftarrow> (case vi' of None \<Rightarrow> vi | Some vi \<Rightarrow> Some vi);
             (let (fb, v) = set_video_mode bios lmb (ucast (v_mode vi)) v
              in if fb = 0 then Some (None, v)
                 else do { vi \<leftarrow> read_colors v vi; Some (Some vi, v) }) }) })"

definition vbe_start :: "video_mode \<Rightarrow> 'h test \<Rightarrow> 'h test option" where
  "vbe_start vi t = (
     let t = t\<lparr>scr := (scr t)\<lparr>framebuf := snd (fill_rows vi [0..<480] (0, framebuf (scr t)))\<rparr>,
         mouse := exec (set_mouse_bounds 0 0 639 479) (mouse t), sound := audio_set_callback (Some Click_sound) 0 (sound t)\<rparr>
     in map_option (\<lambda>k. t\<lparr>keys := k, prev_st := 0\<rparr>) (kb_drain (keys t)))"

text \<open>\<open>True\<close> is the result 0.\<close>

definition vbetest :: "'w bios \<Rightarrow> u32 \<Rightarrow> 'h \<Rightarrow> u32 \<Rightarrow> int \<Rightarrow> wake list list \<Rightarrow> 'w video \<times> 'h contty \<times> 'h test
    \<Rightarrow> (fault + bool \<times> 'w video \<times> 'h contty \<times> 'h test) option" where
  "vbetest bios lmb handler smp n irqs s = (case s of (v, con, t) \<Rightarrow> do {
     (vi, v) \<leftarrow> vbe_enter bios lmb v;
     (case vi of
        None \<Rightarrow> Some (Inr (False, v, con, t))
      | Some vi \<Rightarrow> do {
          t \<leftarrow> vbe_start vi t;
          r \<leftarrow> vbe_loop lmb handler smp n irqs t;
          Some (case r of
            Inl e \<Rightarrow> Inl e
          | Inr t \<Rightarrow> Inr (True, v\<lparr>hw := set_vga_mode bios 3 (hw v)\<rparr>, exec con_clear con, t)) }) })"

section \<open>The screen\<close>

text \<open>Rounds and interrupts in any order.\<close>

inductive vbe_step :: "u32 \<Rightarrow> 'h \<Rightarrow> u32 \<Rightarrow> int \<Rightarrow> 'h test \<Rightarrow> 'h test \<Rightarrow> bool" for lmb handler smp n where
  round: "vbe_round lmb handler smp n t = Some t' \<Longrightarrow> vbe_step lmb handler smp n t t'"
| interrupted: "take_irq smp n w t = Some (Inr t') \<Longrightarrow> vbe_step lmb handler smp n t t'"

inductive_cases vbe_stepE: "vbe_step lmb handler smp n t t'"

definition same_bounds :: "(('h, 'z) psaux_scheme, 'a) state \<Rightarrow> bool" where
  "same_bounds p \<longleftrightarrow> (\<forall>s. bounds (exec p s) = bounds s)"

lemma same_bounds_logs: "only_logs p \<Longrightarrow> same_bounds p"
  unfolding same_bounds_def only_logs_def by (metis logs_psaux(4))

lemma same_bounds_intros:
  "same_bounds p \<Longrightarrow> (\<And>x. same_bounds (q x)) \<Longrightarrow> same_bounds (p \<bind> q)"
  "same_bounds p \<Longrightarrow> same_bounds p' \<Longrightarrow> same_bounds (if b then p else p')"
  "same_bounds (gets f)" "same_bounds (ret x)"
  "(\<And>s. bounds (f s) = bounds s) \<Longrightarrow> same_bounds (modify f)"
  by (auto simp: same_bounds_def run_simps)

lemma poll_same: "same_bounds poll_mouse"
  unfolding poll_mouse_def aux_pending_def
  by (intro same_bounds_intros same_bounds_logs only_logs_kbc only_logs_base) (auto simp: proc_mouse_frame)

lemma poll_bounds: "bounds (exec poll_mouse s) = bounds s"
  using poll_same unfolding same_bounds_def by blast

lemma psaux_intr_bounds: "bounds (exec psaux_intr s) = bounds s"
  using psaux_intr_exec [of s] by (auto simp: take_byte_def Let_def proc_mouse_frame)

lemma psaux_intr_mode: "intr_mode (exec psaux_intr s) = intr_mode s"
proof -
  have p: "intr_mode (proc_mouse_data d u) = intr_mode u" for d and u :: "('a, 'b) psaux_scheme" by (simp add: proc_mouse_eq)
  have "intr_mode (take_byte d s) = intr_mode s" for d by (simp add: take_byte_def Let_def p)
  moreover have "intr_mode (logs es u) = intr_mode u" for es and u :: "('a, 'b) psaux_scheme" by (simp add: logs_def)
  ultimately show ?thesis using psaux_intr_exec [of s] by metis
qed

definition on_screen :: "('h, 'z) psaux_scheme \<Rightarrow> bool" where "on_screen m \<longleftrightarrow> in_bounds m \<and> bounds m = [0, 0, 639, 479]"

lemma on_screen_pos: "on_screen m \<Longrightarrow> 0 \<le> mx m \<and> mx m < 640 \<and> 0 \<le> my m \<and> my m < 480"
  by (auto simp: on_screen_def in_bounds_def)

lemma mouse_state_run:
  "result_of mouse_state m = (bnstate (exec mouse_state m), mx (exec mouse_state m), my (exec mouse_state m))"
  "on_screen m \<Longrightarrow> on_screen (exec mouse_state m)"
proof -
  have e: "exec mouse_state m = (if intr_mode m then m else exec poll_mouse m)" by (simp add: mouse_state_def run_simps)
  show "on_screen m \<Longrightarrow> on_screen (exec mouse_state m)"
    using mouse_step_bounds [OF mouse_step.polled, of m] poll_bounds [of m] unfolding e by (auto simp: on_screen_def)
  show "result_of mouse_state m = (bnstate (exec mouse_state m), mx (exec mouse_state m), my (exec mouse_state m))"
    by (simp add: mouse_state_def run_simps)
qed

definition test_ok :: "pixels \<Rightarrow> 'h test \<Rightarrow> bool" where "test_ok pic t \<longleftrightarrow> over pic (scr t) \<and> on_screen (mouse t)"

lemma vbe_round_screen:
  assumes "vbe_round lmb handler smp n t = Some t'" "test_ok pic t"
  shows "test_ok pic t'" "framebuf (scr t') = with_cursor pic (mx (mouse t')) (my (mouse t')) (cursor_color (bnstate (mouse t')))"
proof -
  let ?m = "exec mouse_state (mouse t)"
  have r: "run_state mouse_state (mouse t) = ((bnstate ?m, mx ?m, my ?m), ?m)"
    using mouse_state_run(1) [of "mouse t"] by (simp add: exec_def result_of_def prod_eq_iff)
  have m: "mouse t' = ?m" and s: "scr t' = draw_cursor (mx ?m) (my ?m) (cursor_color (bnstate ?m)) (scr t)"
    using assms(1) by (auto simp: vbe_round_def r Let_def split: option.splits)
  have o: "on_screen ?m" "0 \<le> mx ?m" using mouse_state_run(2) [of "mouse t"] assms(2) on_screen_pos [of ?m] by (simp_all add: test_ok_def)
  show "test_ok pic t'" "framebuf (scr t') = with_cursor pic (mx (mouse t')) (my (mouse t')) (cursor_color (bnstate (mouse t')))"
    using draw_cursor_over [of pic "scr t"] assms(2) o unfolding test_ok_def m s by simp_all
qed

lemma take_irq_ok:
  assumes "take_irq smp n w t = Some (Inr t')" "test_ok pic t"
  shows "test_ok pic t'"
proof -
  have "on_screen (exec psaux_intr m)" if "on_screen m" for m :: "'a psaux"
    using that mouse_step_bounds [OF mouse_step.interrupted, of m] psaux_intr_bounds [of m] by (simp add: on_screen_def)
  then show ?thesis using assms by (cases w) (auto simp: test_ok_def split: sum.splits)
qed

lemma vbe_steps_ok: "(vbe_step lmb handler smp n)\<^sup>*\<^sup>* t t' \<Longrightarrow> test_ok pic t \<Longrightarrow> test_ok pic t'"
  by (induction rule: rtranclp_induct) (auto elim!: vbe_stepE intro: vbe_round_screen(1) take_irq_ok)

definition picture :: "video_mode \<Rightarrow> pixels \<Rightarrow> pixels" where
  "picture vi fb = (\<lambda>p. if 0 \<le> p \<and> p < 640 * 480 then pack vi (p div 640) (p mod 640) else fb p)"

lemma fill_picture: "snd (fill_rows vi [0..<480] (0, fb)) = picture vi fb"
  using fill_rows_at [of 0 0 vi 480 fb] by (simp add: picture_def)

text \<open>The state the components are in when the test is started for the first time.\<close>

definition test_fresh :: "'h test \<Rightarrow> bool" where
  "test_fresh t \<longleftrightarrow> saved_x (scr t) < 0 \<and> saved_w (scr t) \<le> CURSOR_XSZ \<and> in_bounds (mouse t) \<and> bounds (mouse t) = [0, 0, 319, 199]"

lemma vbe_start_ok:
  assumes "vbe_start vi t0 = Some t" "test_fresh t0"
  shows "test_ok (picture vi (framebuf (scr t0))) t"
proof -
  have s: "scr t = (scr t0)\<lparr>framebuf := picture vi (framebuf (scr t0))\<rparr>" and m: "mouse t = exec (set_mouse_bounds 0 0 639 479) (mouse t0)"
    using assms(1) by (auto simp: vbe_start_def Let_def fill_picture)
  have "on_screen (mouse t)" using assms(2) unfolding m by (auto simp: on_screen_def test_fresh_def set_mouse_bounds_def in_bounds_def run_simps)
  moreover have "over (picture vi (framebuf (scr t0))) (scr t)" using assms(2) unfolding s by (simp add: over_def test_fresh_def)
  ultimately show ?thesis by (simp add: test_ok_def)
qed

text \<open>C40: whatever interrupts have come and however often the loop of \<open>vbetest\<close> has gone round, after the next round the screen shows
  the picture of the mode and in it the cursor where the mouse is, in the colour of its buttons; memory behind the screen is as it was.\<close>

theorem vbetest_shows_cursor:
  assumes "vbe_start vi t0 = Some t" "test_fresh t0" "(vbe_step lmb handler smp n)\<^sup>*\<^sup>* t t'" "vbe_round lmb handler smp n t' = Some t''"
  shows "framebuf (scr t'') = with_cursor (picture vi (framebuf (scr t0))) (mx (mouse t'')) (my (mouse t'')) (cursor_color (bnstate (mouse t'')))"
  by (rule vbe_round_screen(2) [OF assms(4) vbe_steps_ok [OF assms(3) vbe_start_ok [OF assms(1,2)]]])

section \<open>The end of the loop\<close>

text \<open>A card that gets ready for a command.\<close>

definition sound_ok :: "'h sound \<Rightarrow> bool" where
  "sound_ok a \<longleftrightarrow> drv a = Some sb_driver \<and> sb_ok a \<and> takes_commands (base_port a) a \<and> cbfunc a = Some Click_sound"

lemma sound_logs [simp]:
  "drv (logs es a) = drv a" "cbfunc (logs es a) = cbfunc a" "click (logs es a) = click a" "sb_ok (logs es a) = sb_ok a" for a :: "'h sound"
  by (simp_all add: logs_def sb_ok_def)

lemma sound_ok_logs [simp]: "sound_ok a \<Longrightarrow> sound_ok (logs es a)"
  by (simp add: sound_ok_def)

lemma sound_ok_update [simp]:
  "sound_ok (a\<lparr>click := k\<rparr>) = sound_ok a" "sound_ok (a\<lparr>smem := m\<rparr>) = sound_ok a" "sound_ok (a\<lparr>buffer := b\<rparr>) = sound_ok a"
  "sound_ok (a\<lparr>xfer_mode := x\<rparr>) = sound_ok a" "sound_ok (a\<lparr>intr_func := f\<rparr>) = sound_ok a"
  by (simp_all add: sound_ok_def sb_ok_def takes_commands_def busy_at_def)

lemma callback_ok:
  assumes "sound_ok a"
  shows "\<exists>r a'. audio_callback (click_client smp n) b z a = (r, a') \<and> sound_ok a' \<and> \<not> click a'"
  using assms unfolding audio_callback_def
  by (cases "click a") (simp_all add: sound_ok_def [of a] click_client_def click_sound_callback_def sound_ok_def sb_ok_def takes_commands_def busy_at_def)

lemma transfer_ok:
  assumes "sound_ok a"
  shows "\<exists>es. start_dma_transfer b z a = Some (logs es a)"
  using start_dma_transfer_log [of a b z] assms unfolding sound_ok_def by blast

lemma play_returns:
  assumes "sound_ok a"
  shows "\<exists>a'. audio_play lmb handler (click_client smp n) 22050 1 a = Some a' \<and> sound_ok a' \<and> \<not> click a'"
proof -
  let ?a = "a\<lparr>buffer := (lmb + 0xffff) AND 0xffff0000, xfer_mode := CMD_MODE_SIGNED\<rparr>"
  obtain r a1 where c: "audio_callback (click_client smp n) (buffer ?a) 65536 ?a = (r, a1)" "sound_ok a1" "\<not> click a1"
    using callback_ok [of ?a smp n "buffer ?a" 65536] assms by auto
  have play: "audio_play lmb handler (click_client smp n) 22050 1 a = sb_start lmb handler (click_client smp n) 22050 1 a"
    using assms by (simp add: audio_play_def sound_ok_def)
  show ?thesis
  proof (cases "r = 0")
    case True
    then show ?thesis using c unfolding play sb_start_def by (simp add: Let_def)
  next
    case False
    let ?a2 = "a1\<lparr>intr_func := (intr_func a1)[unat (IRQ_TO_INTR (of_nat (irq a1))) := Some handler]\<rparr>"
    have "takes_commands (base_port ?a2) ?a2" using c(2) by (simp add: sound_ok_def)
    then obtain e0 where e0: "write_dsp CMD_ENABLE_OUTPUT ?a2 = Some (logs e0 ?a2)" using write_dsp_log by blast
    let ?a3 = "logs e0 ?a2"
    have a3: "sound_ok ?a3" using c(2) by simp
    then obtain e1 where e1: "sb_set_output_rate 22050 ?a3 = Some (logs e1 ?a3)" using set_rate_log [of ?a3 22050] by (auto simp: sound_ok_def)
    obtain e2 where e2: "start_dma_transfer ((lmb + 0xffff) AND 0xffff0000) r (logs e1 ?a3) = Some (logs e2 (logs e1 ?a3))"
      using transfer_ok [OF sound_ok_logs [OF a3]] by blast
    have "sb_start lmb handler (click_client smp n) 22050 1 a = Some (logs e2 (logs e1 ?a3))"
      using False c(1) e0 e1 e2 unfolding sb_start_def Let_def by (simp add: interrupt_exec del: logs_simps)
    then show ?thesis using sound_ok_logs [OF sound_ok_logs [OF a3]] c(3) unfolding play by simp
  qed
qed

lemma handler_returns:
  assumes "sound_ok a"
  shows "\<exists>a'. intr_handler (click_client smp n) a = Some a' \<and> sound_ok a'"
proof -
  obtain r a1 where c: "audio_callback (click_client smp n) (buffer a) 65536 a = (r, a1)" "sound_ok a1" using callback_ok [OF assms] by blast
  obtain es where es: "start_dma_transfer (buffer a1) r a1 = Some (logs es a1)" using transfer_ok [OF c(2)] by blast
  have "takes_commands (base_port a1) a1" "card_port (base_port a1)" using c(2) by (simp_all add: sound_ok_def sb_ok_def)
  from write_all_log [OF this] obtain ws where ws: "write_all [CMD_END_DMA8, CMD_DISABLE_OUTPUT] a1 = Some (logs ws a1)" by blast
  have "sb_stop a1 = Some (logs ws a1)" using ws by (simp add: sb_stop_def write_all_fun del: write_all.simps)
  then show ?thesis using c es unfolding intr_handler_def by (cases "r = 0") simp_all
qed

definition test_live :: "'h test \<Rightarrow> bool" where "test_live t \<longleftrightarrow> kb_ok (keys t) \<and> sound_ok (sound t)"

lemma round_live:
  assumes "test_live t"
  shows "\<exists>t'. vbe_round lmb handler smp n t = Some t' \<and> test_live t' \<and> keys t' = keys t \<and> (click (sound t) \<longrightarrow> \<not> click (sound t'))"
proof -
  obtain st x y m where r: "run_state mouse_state (mouse t) = ((st, x, y), m)" by (metis prod.collapse)
  let ?a = "if button_pressed st (prev_st t) then (sound t)\<lparr>click := True\<rparr> else sound t"
  have a: "sound_ok ?a" using assms by (simp add: test_live_def)
  then obtain a' where a': "(if click ?a then audio_play lmb handler (click_client smp n) 22050 1 ?a else Some ?a) = Some a'" "sound_ok a'"
    "click ?a \<longrightarrow> \<not> click a'"
    using play_returns [OF a, of lmb handler smp n] by (cases "click ?a") auto
  have "vbe_round lmb handler smp n t = Some (t\<lparr>mouse := m, sound := a', prev_st := st, scr := draw_cursor x y (cursor_color st) (scr t)\<rparr>)"
    unfolding vbe_round_def r Let_def prod.case a'(1) by simp
  then show ?thesis using assms a'(2,3) by (simp add: test_live_def)
qed

definition key_bytes :: "wake list \<Rightarrow> u8 list" where
  "key_bytes ws = concat (map (\<lambda>w. case w of Key b \<Rightarrow> [b] | _ \<Rightarrow> []) ws)"

lemma take_irqs_live:
  assumes "test_live t" "kb_feed (key_bytes ws @ bs) (keys t) = Inr s"
  shows "\<exists>t'. take_irqs smp n ws t = Some (Inr t') \<and> test_live t' \<and> kb_feed bs (keys t') = Inr s"
  using assms
proof (induction ws arbitrary: t)
  case Nil
  then show ?case by (simp add: key_bytes_def)
next
  case (Cons w ws)
  obtain t1 where t1: "take_irq smp n w t = Some (Inr t1)" "test_live t1" "kb_feed (key_bytes ws @ bs) (keys t1) = Inr s"
  proof (cases w)
    case (Key b)
    then obtain k where k: "kb_irq b (keys t) = Inr k" "kb_feed (key_bytes ws @ bs) k = Inr s"
      using Cons.prems(2) by (auto simp: key_bytes_def split: sum.splits)
    have "kb_ok k" using kb_irq_step(1) [OF _ k(1)] Cons.prems(1) by (simp add: test_live_def)
    then show ?thesis using that [of "t\<lparr>keys := k\<rparr>"] k Key Cons.prems(1) by (simp add: test_live_def)
  next
    case Sound_irq
    obtain a' where "intr_handler (click_client smp n) (sound t) = Some a'" "sound_ok a'"
      using handler_returns Cons.prems(1) unfolding test_live_def by blast
    then show ?thesis using that [of "t\<lparr>sound := a'\<rparr>"] Sound_irq Cons.prems by (simp add: test_live_def key_bytes_def)
  next
    case Mouse_irq
    then show ?thesis using that [of "t\<lparr>mouse := exec psaux_intr (mouse t)\<rparr>"] Cons.prems by (simp add: test_live_def key_bytes_def)
  next
    case Other_irq
    then show ?thesis using that [of t] Cons.prems by (simp add: key_bytes_def)
  qed
  then show ?case using Cons.IH [OF t1(2,3)] by simp
qed

text \<open>With a card that takes commands the loop ends once a key has been pressed, unless the keys restart the machine.\<close>

lemma vbe_loop_ends:
  assumes "test_live t" "kb_feed (key_bytes (concat irqs)) (keys t) = Inr s" "kb_queue s \<noteq> []"
  shows "\<exists>t'. vbe_loop lmb handler smp n irqs t = Some (Inr t')"
  using assms(1,2)
proof (induction irqs arbitrary: t)
  case Nil
  then have "keys t = s" by (simp add: key_bytes_def)
  then have "fst (kb_getkey (keys t)) \<noteq> -1" using getkey_some(1) Nil.prems(1) assms(3) by (simp add: test_live_def)
  then show ?case by (simp add: vbe_loop.simps [of _ _ _ _ "[]"] Let_def)
next
  case (Cons ws irqs)
  have ok: "kb_ok (keys t)" using Cons.prems(1) by (simp add: test_live_def)
  show ?case
  proof (cases "kb_queue (keys t) = []")
    case False
    then show ?thesis using getkey_some(1) [OF ok] by (simp add: vbe_loop.simps [of _ _ _ _ "ws # irqs"] Let_def)
  next
    case True
    note g = getkey_none [OF ok True]
    obtain t1 where t1: "vbe_round lmb handler smp n t = Some t1" "test_live t1" "keys t1 = keys t" using round_live [OF Cons.prems(1)] by blast
    have "kb_feed (key_bytes ws @ key_bytes (concat irqs)) (keys t1) = Inr s" using Cons.prems(2) t1(3) by (simp add: key_bytes_def)
    from take_irqs_live [OF t1(2) this] obtain t2 where
      t2: "take_irqs smp n ws t1 = Some (Inr t2)" "test_live t2" "kb_feed (key_bytes (concat irqs)) (keys t2) = Inr s" by blast
    obtain t' where "vbe_loop lmb handler smp n irqs t2 = Some (Inr t')" using Cons.IH [OF t2(2,3)] by blast
    then show ?thesis using g t1(1) t2(1) by (simp add: vbe_loop.simps [of _ _ _ _ "ws # irqs"] Let_def)
  qed
qed

text \<open>To the keyboard the loop is what the kernel's loop takes it for.\<close>

lemma vbe_round_keys: "vbe_round lmb handler smp n t = Some t' \<Longrightarrow> keys t' = keys t"
  by (auto simp: vbe_round_def Let_def split: prod.splits option.splits)

lemma take_irqs_keys: "take_irqs smp n ws t = Some (Inr t') \<Longrightarrow> kb_feed (key_bytes ws) (keys t) = Inr (keys t')"
proof (induction ws arbitrary: t)
  case (Cons w ws)
  then obtain t1 where t1: "take_irq smp n w t = Some (Inr t1)" "take_irqs smp n ws t1 = Some (Inr t')"
    by (auto split: option.splits sum.splits)
  have "kb_feed (key_bytes (w # ws)) (keys t) = kb_feed (key_bytes ws) (keys t1)"
    using t1(1) by (cases w) (auto simp: key_bytes_def split: sum.splits)
  then show ?case using Cons.IH [OF t1(2)] by simp
qed (simp add: key_bytes_def)

lemma vbe_loop_keys:
  "vbe_loop lmb handler smp n irqs t = Some (Inr t') \<Longrightarrow> \<exists>rs. test_keys (map key_bytes irqs) (keys t) = Some (Inr (rs, keys t'))"
proof (induction irqs arbitrary: t)
  case Nil
  then show ?case by (auto simp: vbe_loop.simps [of _ _ _ _ "[]"] test_keys.simps [of "[]"] Let_def split: if_splits option.splits)
next
  case (Cons ws irqs)
  show ?case
  proof (cases "fst (kb_getkey (keys t)) = -1")
    case False
    then show ?thesis using Cons.prems
      by (auto simp: vbe_loop.simps [of _ _ _ _ "ws # irqs"] test_keys.simps [of "key_bytes ws # map key_bytes irqs"] Let_def)
  next
    case True
    let ?t = "t\<lparr>keys := snd (kb_getkey (keys t))\<rparr>"
    obtain t1 t2 where t: "vbe_round lmb handler smp n ?t = Some t1" "take_irqs smp n ws t1 = Some (Inr t2)"
      "vbe_loop lmb handler smp n irqs t2 = Some (Inr t')"
      using Cons.prems True by (auto simp: vbe_loop.simps [of _ _ _ _ "ws # irqs"] Let_def split: option.splits sum.splits)
    have "kb_feed (key_bytes ws) (snd (kb_getkey (keys t))) = Inr (keys t2)"
      using take_irqs_keys [OF t(2)] vbe_round_keys [OF t(1)] by simp
    then show ?thesis using Cons.IH [OF t(3)] True by (simp add: test_keys.simps [of "key_bytes ws # map key_bytes irqs"] Let_def)
  qed
qed

text \<open>A state in which the test is started.\<close>

definition demo_test :: "u8 list \<Rightarrow> unit test" where
  "demo_test bs = \<lparr>keys = kb0, mouse = demo_mouse (aux_device bs),
     sound = \<lparr>io_log = [], dev8 = (\<lambda>_ _. 0), dev16 = (\<lambda>_ _. 0), dev32 = (\<lambda>_ _. 0), intr_on = True, idt = [], intr_func = replicate 256 None,
       cur_intr_frame = None, eoi_pending = 0, base_port = 0x220, irq = 5, dma_chan = 1, dma16_chan = 5, sb16 = True, buffer = 0x20000,
       xfer_mode = 0x10, drv = Some sb_driver, cbfunc = None, cbcls = 0, click = False, smem = (\<lambda>_. 0)\<rparr>,
     scr = blank_screen, prev_st = 0\<rparr>"

definition mode565 :: video_mode where
  "mode565 = \<lparr>v_mode = 0x111, width = 640, height = 480, v_bpp = 16, rbits = 5, gbits = 6, bbits = 5, rshift = 11, gshift = 5, bshift = 0,
     rmask = 0xf800, gmask = 0x7e0, bmask = 0x1f\<rparr>"

lemma start_live:
  assumes "vbe_start vi t0 = Some t" "kb_ok (keys t0)" "drv (sound t0) = Some sb_driver" "sb_ok (sound t0)"
    "takes_commands (base_port (sound t0)) (sound t0)"
  shows "test_live t"
proof -
  obtain k where k: "kb_drain (keys t0) = Some k" "kb_ok k" using kb_drain_empties [OF assms(2)] by blast
  then show ?thesis using assms
    by (auto simp: vbe_start_def Let_def test_live_def sound_ok_def audio_set_callback_def sb_ok_def takes_commands_def busy_at_def)
qed

lemma vbetest_shows_cursor_witness:
  "\<exists>t t1 t'. vbe_start mode565 (demo_test [0x29, 10, 0xfb]) = Some t \<and> take_irqs 0 1000 [Mouse_irq, Mouse_irq, Mouse_irq] t = Some (Inr t1)
    \<and> vbe_round 0x10000 () 0 1000 t1 = Some t' \<and> framebuf (scr t') = with_cursor (picture mode565 (\<lambda>_. 7)) 10 5 0xf800"
proof -
  let ?t0 = "demo_test [0x29, 10, 0xfb]"
  have ok: "kb_ok (keys ?t0)" by (simp add: demo_test_def kb0_ok)
  then obtain k where k: "kb_drain (keys ?t0) = Some k" using kb_drain_empties by blast
  then obtain t where t: "vbe_start mode565 ?t0 = Some t" by (simp add: vbe_start_def Let_def)
  have fresh: "test_fresh ?t0" by (simp add: test_fresh_def demo_test_def blank_screen_def in_bounds_def demo_mouse_def)
  have live: "test_live t"
    by (rule start_live [OF t ok]) (simp_all add: demo_test_def sb_ok_def card_port_def never_busy busy_at_def)
  have m: "mouse t = exec (set_mouse_bounds 0 0 639 479) (demo_mouse (aux_device [0x29, 10, 0xfb]))"
    using t by (auto simp: vbe_start_def Let_def demo_test_def)
  then have m: "mouse t = (demo_mouse (aux_device [0x29, 10, 0xfb]))\<lparr>bounds := [0, 0, 639, 479]\<rparr>" by (simp add: set_mouse_bounds_def run_simps)
  have "aux_holds [0x29, 10, 0xfb] (demo_mouse (aux_device [0x29, 10, 0xfb]))"
    by (simp add: aux_holds_def demo_mouse_def aux_device_def KB_STATUS_PORT_def KB_DATA_PORT_def KB_STAT_AUX_def KB_STAT_OUTBUF_FULL_def)
  then have a: "aux_holds [0x29, 10, 0xfb] (mouse t)" unfolding m by (simp add: aux_holds_def)
  have b: "intr_idx (mouse t) = 0" "length (intr_data (mouse t)) = 3" "bounds (mouse t) = [0, 0, 639, 479]"
    "mx (mouse t) = 0" "my (mouse t) = 0" "intr_mode (mouse t)"
    unfolding m by (simp_all add: demo_mouse_def)
  let ?m = "exec psaux_intr (exec psaux_intr (exec psaux_intr (mouse t)))"
  have pos: "mx ?m = 10" "my ?m = 5" "bnstate ?m = 1"
    using packet_moves_mouse [OF a b(1,2)] b(3-5) by (simp_all add: clamp_def)
  let ?ws = "[Mouse_irq, Mouse_irq, Mouse_irq]"
  define t1 where "t1 = t\<lparr>mouse := ?m\<rparr>"
  have t1: "take_irqs 0 1000 ?ws t = Some (Inr t1)" by (simp add: t1_def)
  have l1: "test_live t1" using live by (simp add: t1_def test_live_def)
  obtain t' where t': "vbe_round 0x10000 () 0 1000 t1 = Some t'" using round_live [OF l1, of "0x10000" "()" 0 1000] by (elim exE conjE)
  have step: "vbe_step 0x10000 () 0 1000 u (u\<lparr>mouse := exec psaux_intr (mouse u)\<rparr>)" for u by (rule vbe_step.interrupted [of _ _ Mouse_irq]) simp
  let ?t1 = "t\<lparr>mouse := exec psaux_intr (mouse t)\<rparr>" and ?t2 = "t\<lparr>mouse := exec psaux_intr (exec psaux_intr (mouse t))\<rparr>"
  have "vbe_step 0x10000 () 0 1000 t ?t1" "vbe_step 0x10000 () 0 1000 ?t1 ?t2" "vbe_step 0x10000 () 0 1000 ?t2 t1"
    using step [of t] step [of ?t1] step [of ?t2] by (simp_all add: t1_def)
  then have steps: "(vbe_step 0x10000 () 0 1000)\<^sup>*\<^sup>* t t1" by (metis (no_types) rtranclp.simps)
  note fb = vbetest_shows_cursor [OF t fresh steps t']
  have "mouse t' = exec mouse_state ?m" using t' by (auto simp: vbe_round_def t1_def Let_def exec_def split: option.splits prod.splits)
  moreover have "intr_mode ?m" using b(6) by (simp add: psaux_intr_mode)
  ultimately have "mouse t' = ?m" by (simp add: mouse_state_def run_simps)
  then show ?thesis using t t1 t' fb pos by (auto simp: cursor_color_def demo_test_def blank_screen_def)
qed

end
