(* ===== verification/Spec2Isabelle.thy ===== *)
theory Spec2Isabelle
  imports Page_Alloc Keyboard Malloc Stdio Fat_Mount Vfs_Props Timer File Part Bootdev Rtc Contty Psaux Rand Pci Audio Video Dirent Vbetest Boot Fat_Release Fsmem_Destroy Kmain Reports Vbe_Loop
begin

text \<open>
  pcboot, a kernel for PC demos and games that boots on bare hardware. This development models the C
  code under \<open>src/\<close> as functions of HOL and proves what makes its components correct.

  \<^bold>\<open>The program and its theories.\<close> The boot loader leaves a map of memory and the number of the boot drive;
  \<open>pcboot_main\<close> (\<open>kmain.c\<close>) sets up the components below and then serves keys. Each component has a theory
  that opens with what it holds.

  \<^item> \<open>Prelude\<close>, \<open>Hw\<close>, \<open>Ram\<close>, \<open>Ring\<close>: what the components share. Machine integers are words of their width
    (\<open>u8\<close> to \<open>u64\<close>) where wrap-around or bits matter and \<open>int\<close> or \<open>nat\<close> elsewhere. \<open>Hw\<close> is port input and output
    (\<open>asmops.h\<close>): a machine is a log of accesses and a function that answers reads from that log, so that the hardware is a
    parameter. \<open>Ram\<close> is byte-addressed memory with \<open>memset\<close> and \<open>memcpy\<close> as \<open>libc/string_asm.s\<close> has them. \<open>Ring\<close>
    is about ring buffers.
  \<^item> \<open>Interfaces\<close>, and the locales in \<open>Ring\<close> and \<open>File\<close>: what one component relies on in another. \<open>page_source\<close> is
    what the heap needs of the page allocator, interpreted in \<open>Page_Alloc\<close>; \<open>ring_buffer\<close> is interpreted for the key buffer in
    \<open>Keyboard\<close> and the receive buffers in \<open>Serial\<close>; \<open>readable_file\<close> is what \<open>fgets\<close> needs of a file system, interpreted for
    both in \<open>File\<close>.
  \<^item> \<open>Page_Alloc\<close> (\<open>mem.c\<close>) and \<open>Malloc\<close> (\<open>libc/malloc.c\<close>): physical pages as a bitmap and the heap as blocks with
    descriptors in memory. First fit and last fit, the hint, what \<open>malloc\<close> and \<open>free\<close> do to the set of blocks, and
    that no run of a program makes blocks overlap.
  \<^item> \<open>Cstring\<close>, \<open>Paths\<close>, \<open>Stdlib\<close>, \<open>Stdio\<close>, \<open>Rand\<close>, \<open>Calendar\<close> (\<open>libc/string.c\<close>, \<open>ctype.c\<close>, \<open>stdlib.c\<close>,
    \<open>stdio.c\<close>, \<open>rand.c\<close>, \<open>time.c\<close>): strings are lists of characters without the final zero. Number conversions and their round
    trip, \<open>qsort\<close>, the interpreter of formats against a reference renderer, the sequence of random numbers, dates.
  \<^item> \<open>Fat\<close>, \<open>Fat_Props\<close>, \<open>Fat_Dirs\<close>, \<open>Fat_Mount\<close> (\<open>fsfat.c\<close>): mounting, cluster chains, directories with long
    names, open, seek and read, stated against the bytes of the clusters of a file. The drive is a parameter, a function that reads
    sectors.
  \<^item> \<open>Fsmem\<close>, \<open>Fsmem_Tree\<close> (\<open>fsmem.c\<close>), \<open>Mtab\<close> (\<open>mtab.c\<close>), \<open>Vfs\<close>, \<open>Vfs_Props\<close> (\<open>fs.c\<close>, \<open>libc/unistd.c\<close>),
    \<open>File\<close> (\<open>libc/file.c\<close>), \<open>Dirent\<close> (\<open>libc/dirent.c\<close>): the memory file system as a store of nodes that point to each other,
    the mounts, the layer over both file systems and the streams over that. Which tree the pointers stand for, that it stays
    one, what is written is read back, paths across mounts.
  \<^item> \<open>Bootdev\<close> (\<open>bootdev.c\<close>), \<open>Part\<close> (\<open>part.c\<close>), \<open>Boot\<close>: the boot drive through the BIOS, whose calls are a parameter that
    gets the registers and memory; partition tables; and the composition of the BIOS, the drive and the FAT file system.
  \<^item> \<open>Segm\<close> (\<open>segm.c\<close>), \<open>Intr\<close> (\<open>intr.c\<close>), \<open>Timer\<close> (\<open>timer.c\<close>), \<open>Rtc\<close> (\<open>rtc.c\<close>): descriptors, gates, the dispatch
    of interrupts and its acknowledgement, alarms, the clock.
  \<^item> \<open>Keyboard\<close> (\<open>keyb.c\<close>, \<open>power.c\<close>), \<open>Psaux\<close> (\<open>psaux.c\<close>), \<open>Serial\<close> (\<open>serial.c\<close>), \<open>Contty\<close> (\<open>contty.c\<close>): the
    input and output devices, each as its state in memory next to the machine. What the display controller
    shows of the console is compared with an abstract terminal.
  \<^item> \<open>Pci\<close> (\<open>pci.c\<close>), \<open>Vbe\<close>, \<open>Video\<close> (\<open>vbe.c\<close>, \<open>video.c\<close>), \<open>Vbetest\<close>, \<open>Vbe_Loop\<close> (\<open>test/vbetest.c\<close>), \<open>Dma\<close>, \<open>Au_sb\<close>, \<open>Audio\<close>
    (\<open>dma.c\<close>, \<open>au_sb.c\<close>, \<open>audio.c\<close>): buses, video modes, the graphics test as rounds and interrupts in any order, and sound: the transfers a card asks for
    one after the other, by a driver that waits while the card is busy.
  \<^item> \<open>Fat_Release\<close> and \<open>Fsmem_Destroy\<close>: which memory the two file systems hold. \<open>Fat\<close> computes with the contents of directories and
    entries; \<open>Fat_Release\<close> runs the same \<open>open\<close> and \<open>close\<close> over blocks that are handed out and released, shows where they agree, and
    that only files of the root and of the working directory are opened without reading released memory. \<open>Fsmem_Destroy\<close> releases a
    whole tree of the memory file system.
  \<^item> \<open>Kmain\<close> (\<open>kmain.c\<close>) and \<open>Reports\<close>: the loop that serves keys, composed of the keyboard, what the two
    tests do with keys and \<open>printf\<close>, and all that is
    printed, among it the report of a panic (\<open>panic.c\<close>) and \<open>asctime\<close>.

  \<^bold>\<open>State, errors and loops.\<close> The static variables of a file are the fields of a record, and an operation takes and returns
  it. A \<open>panic\<close> or a \<open>reboot\<close> is the left side of a sum, \<open>Inl\<close>. A value \<open>None\<close> is behaviour that C leaves undefined (a
  null or dangling pointer, an index out of an array) or a loop that does not end; where the code returns a null pointer, \<open>None\<close> is that and the
  theory says so. Loops are structural recursion, recursion with a measure, or \<open>partial_function (option)\<close> where they need not end:
  polling loops end when the hardware lets them, lists in memory may be circular. No fuel is used; that a loop does end is part of the
  properties that speak of its result, since they give it as \<open>Some\<close>. Loops that wait for interrupts get those to come as a list, a stretch of
  time for each element, and are \<open>None\<close> when they have not ended with it.

  \<^bold>\<open>What is not modelled.\<close> Assembly: the boot loader (\<open>boot/\<close>), \<open>startup.s\<close> but for the keys \<open>logohack\<close> takes, \<open>lowcode.s\<close>, the entry points of interrupts, the
  loading of descriptor tables, \<open>int86\<close> itself, \<open>setjmp\<close>. Floating point: \<open>strtod\<close>, \<open>atof\<close> and \<open>libc/math.c\<close>.
  Code that is not compiled: the pools of \<open>malloc.c\<close> without \<open>SINGLE_POOL\<close>, its checks under \<open>MALLOC_DEBUG\<close>, the stub of a debugger,
  \<open>intern_scanf\<close>. Messages that a component prints on its way are left out. An interrupt is an operation of
  its own, which the properties of runs (of the mouse, the alarms, the received characters) put between the others in any order; an
  interrupt in the middle of another operation is not modelled.
\<close>

text \<open>The block that the memory file system takes \<open>realloc\<close> to give is the one \<open>malloc\<close> gives.\<close>

lemma block_size_malloc:
  assumes "unat sz + 15 < 2 ^ 32"
  shows "int (unat (total_size sz)) = block_size (int (unat sz))"
  by (simp add: total_size_unat [OF assms] block_size_def zdiv_int)

end
